(* ===== verification/Prelude.thy ===== *)
theory Prelude
  imports Main "HOL-Library.Word" "HOL-Library.Monad_Syntax"
begin

text \<open>
  What every component of the development shares: the collections its lemmas are declared
  into, the C data types of the build that is modelled (LP64, little-endian, two's complement,
  signed \<open>char\<close>, \<open>XCHAR = short\<close>, \<open>XINT = XLONG = long\<close>, as
  \<open>unix/hlib/libc/spp.h\<close> has them), C's integer conversions, and facts about lists that a
  copy loop needs.  A bounds violation is a fault: the access returns \<^term>\<open>None\<close>, and every
  definition passes it on, so that a result \<open>Some r\<close> also says that the code
  stayed inside its buffers.
\<close>

named_theorems slice_simps \<open>reading a part of a block of bytes\<close>
named_theorems blit_simps \<open>writing a part of a block of bytes\<close>

type_synonym byte = "8 word"

text \<open>Conversion of a mathematical integer to the C types (reduction, then the type's sign).\<close>

definition to_int :: "int \<Rightarrow> int" where
  "to_int x = signed_take_bit 31 x"

definition to_long :: "int \<Rightarrow> int" where
  "to_long x = signed_take_bit 63 x"

definition to_short :: "int \<Rightarrow> int" where
  "to_short x = signed_take_bit 15 x"

definition to_uint :: "int \<Rightarrow> int" where
  "to_uint x = take_bit 32 x"

definition to_ulong :: "int \<Rightarrow> int" where
  "to_ulong x = take_bit 64 x"

lemma signed_take_bit_id:
  "- (2 ^ n) \<le> x \<Longrightarrow> x < 2 ^ n \<Longrightarrow> signed_take_bit n x = (x :: int)"
  by (rule signed_take_bit_int_eq_self) auto

lemma to_int_id [simp]: "- 2147483648 \<le> x \<Longrightarrow> x < 2147483648 \<Longrightarrow> to_int x = x"
  unfolding to_int_def by (rule signed_take_bit_id) auto

lemma to_short_id [simp]: "- 32768 \<le> x \<Longrightarrow> x < 32768 \<Longrightarrow> to_short x = x"
  unfolding to_short_def by (rule signed_take_bit_id) auto

lemma to_uint_id [simp]: "0 \<le> x \<Longrightarrow> x < 4294967296 \<Longrightarrow> to_uint x = x"
  by (simp add: to_uint_def take_bit_int_eq_self_iff)

text \<open>C's \<open>/\<close> and \<open>%\<close> truncate towards zero.\<close>

definition c_div :: "int \<Rightarrow> int \<Rightarrow> int" where
  "c_div a b = sgn a * sgn b * (\<bar>a\<bar> div \<bar>b\<bar>)"

definition c_mod :: "int \<Rightarrow> int \<Rightarrow> int" where
  "c_mod a b = a - b * c_div a b"

lemma c_div_nonneg [simp]: "0 \<le> a \<Longrightarrow> 0 < b \<Longrightarrow> c_div a b = a div b"
  by (cases "a = 0") (simp_all add: c_div_def sgn_if)

lemma c_mod_nonneg [simp]: "0 \<le> a \<Longrightarrow> 0 < b \<Longrightarrow> c_mod a b = a mod b"
  by (simp add: c_mod_def minus_mult_div_eq_mod)

subsection \<open>Parts of a list\<close>

definition slice :: "'a list \<Rightarrow> nat \<Rightarrow> nat \<Rightarrow> 'a list" where
  "slice m p k = take k (drop p m)"

definition blit :: "'a list \<Rightarrow> nat \<Rightarrow> 'a list \<Rightarrow> 'a list" where
  "blit m p bs = take p m @ bs @ drop (p + length bs) m"

lemma length_slice [slice_simps]: "p + k \<le> length m \<Longrightarrow> length (slice m p k) = k"
  by (simp add: slice_def)

lemma length_blit [blit_simps]: "p + length bs \<le> length m \<Longrightarrow> length (blit m p bs) = length m"
  by (simp add: blit_def)

lemma slice_0 [simp]: "slice m p 0 = []"
  by (simp add: slice_def)

lemma blit_Nil [simp]: "blit m p [] = m"
  by (simp add: blit_def)

lemma slice_all [simp]: "slice m 0 (length m) = m"
  by (simp add: slice_def)

lemma take_slice: "k \<le> n \<Longrightarrow> take k (slice m p n) = slice m p k"
  by (simp add: slice_def min_def)

lemma slice_Suc: "p < length m \<Longrightarrow> slice m p (Suc k) = m ! p # slice m (Suc p) k"
  by (simp add: slice_def Cons_nth_drop_Suc [symmetric])

lemma nth_slice [simp]: "i < k \<Longrightarrow> p + k \<le> length m \<Longrightarrow> slice m p k ! i = m ! (p + i)"
  by (simp add: slice_def)

lemma nth_blit:
  "p + length bs \<le> length m \<Longrightarrow> i < length m \<Longrightarrow>
   blit m p bs ! i = (if p \<le> i \<and> i < p + length bs then bs ! (i - p) else m ! i)"
  by (auto simp: blit_def nth_append min_def not_less)

lemma slice_add:
  "slice m p (k + l) = slice m p k @ slice m (p + k) l"
  by (simp add: slice_def take_add add.commute)

lemma slice_blit_same [slice_simps]:
  "p + length bs \<le> length m \<Longrightarrow> slice (blit m p bs) p (length bs) = bs"
  by (simp add: blit_def slice_def)

lemma slice_blit_disjoint [slice_simps]:
  assumes "p + length bs \<le> length m" and "q + k \<le> p \<or> p + length bs \<le> q"
    and "q + k \<le> length m"
  shows "slice (blit m p bs) q k = slice m q k"
  using assms by (intro nth_equalityI) (auto simp: slice_simps nth_blit blit_simps)

lemma blit_blit_append [blit_simps]:
  assumes "p + length xs + length ys \<le> length m"
  shows "blit (blit m p xs) (p + length xs) ys = blit m p (xs @ ys)"
  using assms by (intro nth_equalityI) (auto simp: nth_blit blit_simps nth_append)

lemma blit_blit_prepend [blit_simps]:
  assumes "p + length xs + length ys \<le> length m" and "q = p + length xs"
  shows "blit (blit m q ys) p xs = blit m p (xs @ ys)"
  using assms by (intro nth_equalityI) (auto simp: nth_blit blit_simps nth_append)

lemma blit_slice_id: "p + k \<le> length m \<Longrightarrow> blit m p (slice m p k) = m"
  by (intro nth_equalityI) (auto simp: nth_blit blit_simps slice_simps)

lemma blit_blit_same:
  assumes "p + length xs \<le> length m" "length ys = length xs"
  shows "blit (blit m p xs) p ys = blit m p ys"
  using assms by (intro nth_equalityI) (auto simp: nth_blit blit_simps)

lemma blit_snoc_update [blit_simps]:
  "p + length xs < length m \<Longrightarrow> (blit m p (xs @ [y]))[p + length xs := z] = blit m p (xs @ [z])"
  by (simp add: blit_def list_update_append)

lemma take_snoc_snoc:
  "\<exists>z. take (Suc k) (s @ [y]) = take k s @ [z]"
proof (cases "k < length s")
  case True
  then show ?thesis by (simp add: take_Suc_conv_app_nth)
next
  case False
  then show ?thesis by (simp add: Suc_diff_le)
qed

lemma list_update_blit: "p < length m \<Longrightarrow> m[p := x] = blit m p [x]"
  by (simp add: blit_def upd_conv_take_nth_drop)

lemma slice_blit_inside:
  assumes "k + length xs \<le> n" "p + n \<le> length m"
  shows "slice (blit m (p + k) xs) p n = blit (slice m p n) k xs"
  using assms by (intro nth_equalityI) (auto simp: nth_blit blit_simps slice_simps)

lemma drop_slice: "p + n \<le> length m \<Longrightarrow> drop p m = slice m p n @ drop (p + n) m"
  by (simp add: slice_def add.commute [of p] flip: drop_drop)

end
