(* ===== verification/C_Memory.thy ===== *)
theory C_Memory
  imports Prelude
begin

text \<open>
  The byte memory that pointer code runs on: one block of bytes, an address is an index, and a
  load or a store outside the block is a fault.  Two arrays of the code that may be the same
  array, or overlap, are two addresses of one block, so aliasing is part of every statement.
  Integers are stored little-endian in two's complement.
\<close>

type_synonym mem = "byte list"

definition rd :: "mem \<Rightarrow> nat \<Rightarrow> byte option" where
  "rd m p = (if p < length m then Some (m ! p) else None)"

definition wr :: "mem \<Rightarrow> nat \<Rightarrow> byte \<Rightarrow> mem option" where
  "wr m p v = (if p < length m then Some (m[p := v]) else None)"

lemma rd_Some [simp]: "p < length m \<Longrightarrow> rd m p = Some (m ! p)"
  by (simp add: rd_def)

lemma rd_SomeD: "rd m p = Some v \<Longrightarrow> p < length m \<and> v = m ! p"
  by (auto simp: rd_def split: if_splits)

lemma wr_Some [simp]: "p < length m \<Longrightarrow> wr m p v = Some (m[p := v])"
  by (simp add: wr_def)

lemma wr_SomeD: "wr m p v = Some m' \<Longrightarrow> p < length m \<and> m' = m[p := v]"
  by (auto simp: wr_def split: if_splits)

text \<open>Pointer arithmetic: an address before the block is a fault.\<close>

definition padd :: "nat \<Rightarrow> int \<Rightarrow> nat option" where
  "padd p k = (if 0 \<le> int p + k then Some (nat (int p + k)) else None)"

lemma padd_0 [simp]: "padd p 0 = Some p"
  by (simp add: padd_def)

lemma padd_Some: "0 \<le> int p + k \<Longrightarrow> padd p k = Some (nat (int p + k))"
  by (simp add: padd_def)

subsection \<open>Multi-byte integers\<close>

fun le_val :: "byte list \<Rightarrow> int" where
  "le_val [] = 0"
| "le_val (b # bs) = uint b + 256 * le_val bs"

fun le_enc :: "nat \<Rightarrow> int \<Rightarrow> byte list" where
  "le_enc 0 x = []"
| "le_enc (Suc k) x = word_of_int x # le_enc k (x div 256)"

lemma length_le_enc [simp]: "length (le_enc k x) = k"
  by (induction k arbitrary: x) auto

lemma uint_word_of_int_byte: "uint (word_of_int x :: byte) = x mod 256"
  by (simp add: uint_word_of_int)

lemma le_val_le_enc: "le_val (le_enc k x) = x mod 256 ^ k"
proof (induction k arbitrary: x)
  case 0
  then show ?case by simp
next
  case (Suc k)
  have "x mod (256 * 256 ^ k) = 256 * (x div 256 mod 256 ^ k) + x mod 256"
    by (rule zmod_zmult2_eq) simp
  then show ?case
    by (simp add: Suc.IH uint_word_of_int_byte)
qed

lemma le_val_bounds: "0 \<le> le_val bs \<and> le_val bs < 256 ^ length bs"
proof (induction bs)
  case Nil
  then show ?case by simp
next
  case (Cons b bs)
  have "0 \<le> uint b" and "uint b < 256"
    using uint_lt2p [of b] by simp_all
  with Cons show ?case by simp
qed

lemma le_enc_le_val: "length bs = k \<Longrightarrow> le_enc k (le_val bs) = bs"
proof (induction bs arbitrary: k)
  case Nil
  then show ?case by simp
next
  case (Cons b bs)
  have b: "0 \<le> uint b" "uint b < 256"
    using uint_lt2p [of b] by simp_all
  then have "(uint b + 256 * le_val bs) div 256 = le_val bs" by simp
  moreover have "word_of_int (uint b + 256 * le_val bs) = b"
    by (rule word_uint_eqI, unfold uint_word_of_int_byte) (use b in simp)
  ultimately show ?case using Cons by (cases k) auto
qed

lemma le_val_append: "le_val (xs @ ys) = le_val xs + 256 ^ length xs * le_val ys"
  by (induction xs) (simp_all add: algebra_simps)

lemma le_enc_mod: "le_enc k (x mod 256 ^ k) = le_enc k x"
  using le_enc_le_val [of "le_enc k x" k] by (simp add: le_val_le_enc)

subsection \<open>The C integer types in memory\<close>

text \<open>
  The types of \<open>spp.h\<close> that the byte routines load and store.  The value of a floating type
  is its bit pattern (a number below \<open>2 ^ 32\<close> or \<open>2 ^ 64\<close>): arithmetic on it is the
  processor's, and a routine that converts it takes the conversions as a parameter.
\<close>

datatype cty = UBYTE | XCHAR | XSHORT | XUSHORT | XINT | XLONG | CINT | XREAL | XDOUBLE

fun csize :: "cty \<Rightarrow> nat" where
  "csize UBYTE = 1"
| "csize XCHAR = 2"
| "csize XSHORT = 2"
| "csize XUSHORT = 2"
| "csize XINT = 8"
| "csize XLONG = 8"
| "csize CINT = 4"
| "csize XREAL = 4"
| "csize XDOUBLE = 8"

fun csigned :: "cty \<Rightarrow> bool" where
  "csigned UBYTE = False"
| "csigned XUSHORT = False"
| "csigned XREAL = False"
| "csigned XDOUBLE = False"
| "csigned _ = True"

definition cdec :: "cty \<Rightarrow> byte list \<Rightarrow> int" where
  "cdec t bs = (if csigned t then signed_take_bit (8 * csize t - 1) (le_val bs) else le_val bs)"

definition cenc :: "cty \<Rightarrow> int \<Rightarrow> byte list" where
  "cenc t x = le_enc (csize t) x"

definition cload :: "cty \<Rightarrow> mem \<Rightarrow> nat \<Rightarrow> int option" where
  "cload t m p = (if p + csize t \<le> length m then Some (cdec t (slice m p (csize t))) else None)"

definition cstore :: "cty \<Rightarrow> mem \<Rightarrow> nat \<Rightarrow> int \<Rightarrow> mem option" where
  "cstore t m p x = (if p + csize t \<le> length m then Some (blit m p (cenc t x)) else None)"

text \<open>The values a type can hold.\<close>

definition in_range :: "cty \<Rightarrow> int \<Rightarrow> bool" where
  "in_range t x \<longleftrightarrow> (if csigned t then - (2 ^ (8 * csize t - 1)) \<le> x \<and> x < 2 ^ (8 * csize t - 1)
    else 0 \<le> x \<and> x < 2 ^ (8 * csize t))"

lemma csize_pos [simp]: "0 < csize t"
  by (cases t) auto

lemma length_cenc [simp]: "length (cenc t x) = csize t"
  by (simp add: cenc_def)

lemma cload_Some [simp]: "p + csize t \<le> length m \<Longrightarrow> cload t m p = Some (cdec t (slice m p (csize t)))"
  by (simp add: cload_def)

lemma cstore_Some [simp]: "p + csize t \<le> length m \<Longrightarrow> cstore t m p x = Some (blit m p (cenc t x))"
  by (simp add: cstore_def)

lemma le_val_le_enc_take_bit: "le_val (le_enc k x) = take_bit (8 * k) x"
  by (simp add: le_val_le_enc take_bit_eq_mod power_mult)

lemma cdec_cenc: "in_range t x \<Longrightarrow> cdec t (cenc t x) = x"
proof (cases "csigned t")
  case True
  assume "in_range t x"
  with True have "signed_take_bit (8 * csize t - 1) x = x"
    by (auto simp: in_range_def intro: signed_take_bit_id)
  moreover have "\<not> 8 * csize t \<le> 8 * csize t - Suc 0" using csize_pos [of t] by arith
  ultimately show ?thesis using True
    by (simp add: cdec_def cenc_def le_val_le_enc_take_bit signed_take_bit_take_bit)
next
  case False
  assume "in_range t x"
  with False show ?thesis
    by (simp add: in_range_def cdec_def cenc_def le_val_le_enc_take_bit take_bit_int_eq_self_iff)
qed

lemma cdec_in_range: "length bs = csize t \<Longrightarrow> in_range t (cdec t bs)"
proof (cases "csigned t")
  case True
  show ?thesis using True
    by (simp add: in_range_def cdec_def signed_take_bit_int_greater_eq_minus_exp
        signed_take_bit_int_less_exp)
next
  case False
  assume "length bs = csize t"
  with False le_val_bounds [of bs] show ?thesis
    by (simp add: in_range_def cdec_def power_mult)
qed

lemma cenc_cdec: "length bs = csize t \<Longrightarrow> cenc t (cdec t bs) = bs"
proof -
  assume len: "length bs = csize t"
  have "take_bit (8 * csize t) (cdec t bs) = le_val bs"
  proof -
    have "take_bit (8 * csize t) (le_val bs) = le_val bs"
      using le_val_bounds [of bs] len by (simp add: take_bit_int_eq_self_iff power_mult)
    moreover have "8 * csize t \<le> Suc (8 * csize t - 1)" by arith
    ultimately show ?thesis
      by (simp add: cdec_def take_bit_signed_take_bit)
  qed
  then have "le_val (le_enc (csize t) (cdec t bs)) = le_val bs"
    by (simp add: le_val_le_enc_take_bit)
  then show ?thesis
    using le_enc_le_val [of "le_enc (csize t) (cdec t bs)" "csize t"] le_enc_le_val [OF len]
    by (simp add: cenc_def)
qed

end
