(* ===== verification/Osb_Convert.thy ===== *)
theory Osb_Convert
  imports C_Memory
begin

text \<open>
  The array conversions of \<open>sys/osb\<close>: \<open>achtb?.c\<close> (unpack unsigned bytes),
  \<open>acht?b.c\<close> (pack to unsigned bytes), \<open>achtu?.c\<close> and \<open>acht?u.c\<close> (from and to
  unsigned short), and \<open>chrpak.c\<close>/\<open>chrupk.c\<close>.  Input and output are two addresses of
  one memory, since the routines promise to work in place.  Each routine is one of two loops,
  the downward loop that unpacks and the upward loop that packs; the loops are modelled once,
  and their correctness, which says exactly which overlaps are safe, is proved once.
\<close>

subsection \<open>Arrays of a C type\<close>

definition elems :: "cty \<Rightarrow> mem \<Rightarrow> nat \<Rightarrow> nat \<Rightarrow> int list" where
  "elems t m a n = map (\<lambda>i. cdec t (slice m (a + i * csize t) (csize t))) [0..<n]"

definition encs :: "cty \<Rightarrow> int list \<Rightarrow> byte list" where
  "encs t xs = concat (map (cenc t) xs)"

lemma length_elems [simp]: "length (elems t m a n) = n"
  by (simp add: elems_def)

lemma encs_simps [simp]:
  "encs t [] = []" "encs t (x # xs) = cenc t x @ encs t xs"
  "encs t (xs @ ys) = encs t xs @ encs t ys"
  by (simp_all add: encs_def)

lemma length_encs [simp]: "length (encs t xs) = length xs * csize t"
  by (induction xs) auto

lemma elems_Suc_last:
  "elems t m a (Suc n) = elems t m a n @ [cdec t (slice m (a + n * csize t) (csize t))]"
  by (simp add: elems_def)

lemma elems_Suc_first:
  "elems t m a (Suc n) = cdec t (slice m a (csize t)) # elems t m (a + csize t) n"
  by (simp add: elems_def upt_conv_Cons map_Suc_upt [symmetric] algebra_simps del: upt_Suc)

lemma elem_fits: "a + n * csize t \<le> k \<Longrightarrow> i < n \<Longrightarrow> a + i * csize t + csize t \<le> k"
proof -
  assume "a + n * csize t \<le> k" and "i < n"
  moreover from \<open>i < n\<close> have "Suc i * csize t \<le> n * csize t" by (intro mult_le_mono1) simp
  ultimately show ?thesis by (simp add: algebra_simps)
qed

lemma elems_blit:
  assumes "q + length bs \<le> length m" and "a + n * csize t \<le> length m"
    and "a + n * csize t \<le> q \<or> q + length bs \<le> a"
  shows "elems t (blit m q bs) a n = elems t m a n"
proof -
  have "slice (blit m q bs) (a + i * csize t) (csize t) = slice m (a + i * csize t) (csize t)"
    if "i < n" for i
  proof (rule slice_blit_disjoint)
    show "a + i * csize t + csize t \<le> length m"
      using elem_fits [OF assms(2) that] .
    show "a + i * csize t + csize t \<le> q \<or> q + length bs \<le> a + i * csize t"
      using assms(3) elem_fits [OF _ that, of a t q] by auto
  qed (rule assms(1))
  then show ?thesis by (simp add: elems_def)
qed

lemma elems_encs:
  assumes "b + length xs * csize t \<le> length m"
  shows "elems t (blit m b (encs t xs)) b (length xs) = map (\<lambda>x. cdec t (cenc t x)) xs"
  using assms
proof (induction xs arbitrary: b m)
  case Nil
  then show ?case by (simp add: elems_def)
next
  case (Cons x xs)
  have fits: "b + length (cenc t x) + length (encs t xs) \<le> length m"
    using Cons.prems by (simp add: algebra_simps)
  have split: "blit m b (encs t (x # xs)) = blit (blit m b (cenc t x)) (b + csize t) (encs t xs)"
    using blit_blit_append [OF fits] by simp
  let ?m = "blit (blit m b (cenc t x)) (b + csize t) (encs t xs)"
  have "slice ?m b (csize t) = slice (blit m b (cenc t x)) b (csize t)"
    using fits by (intro slice_blit_disjoint) (simp_all add: blit_simps)
  also have "\<dots> = cenc t x"
    using slice_blit_same [of b "cenc t x" m] fits by simp
  finally have "slice ?m b (csize t) = cenc t x" .
  moreover have "elems t ?m (b + csize t) (length xs) = map (\<lambda>x. cdec t (cenc t x)) xs"
    using Cons.prems by (intro Cons.IH) (simp add: blit_simps algebra_simps)
  ultimately show ?case
    by (simp add: split elems_Suc_first del: encs_simps(2))
qed

lemma set_elems_in_range: "a + n * csize t \<le> length m \<Longrightarrow> x \<in> set (elems t m a n) \<Longrightarrow> in_range t x"
  unfolding elems_def
  by (auto intro!: cdec_in_range length_slice elem_fits)

subsection \<open>The two loops\<close>

text \<open>\<open>for (ip = &first[n], op = &b[n];  ip > first;  ) *--op = f (*--ip);\<close>\<close>

fun conv_down :: "cty \<Rightarrow> cty \<Rightarrow> (int \<Rightarrow> int) \<Rightarrow> nat \<Rightarrow> nat \<Rightarrow> nat \<Rightarrow> mem \<Rightarrow> mem option" where
  "conv_down s t f a b 0 m = Some m"
| "conv_down s t f a b (Suc n) m = do {
     x \<leftarrow> cload s m (a + n * csize s);
     m' \<leftarrow> cstore t m (b + n * csize t) (f x);
     conv_down s t f a b n m' }"

text \<open>\<open>for (ip=a, op=b;  --n >= 0;  ) *op++ = f (*ip++);\<close>\<close>

fun conv_up :: "cty \<Rightarrow> cty \<Rightarrow> (int \<Rightarrow> int) \<Rightarrow> nat \<Rightarrow> nat \<Rightarrow> nat \<Rightarrow> mem \<Rightarrow> mem option" where
  "conv_up s t f a b 0 m = Some m"
| "conv_up s t f a b (Suc n) m = do {
     x \<leftarrow> cload s m a;
     m' \<leftarrow> cstore t m b (f x);
     conv_up s t f (a + csize s) (b + csize t) n m' }"

text \<open>The overlaps under which a loop does not overwrite input it has yet to read.\<close>

definition safe_down :: "cty \<Rightarrow> cty \<Rightarrow> nat \<Rightarrow> nat \<Rightarrow> nat \<Rightarrow> bool" where
  "safe_down s t a b n \<longleftrightarrow>
     a \<le> b \<and> csize s \<le> csize t \<or> a + n * csize s \<le> b \<or> b + n * csize t \<le> a"

definition safe_up :: "cty \<Rightarrow> cty \<Rightarrow> nat \<Rightarrow> nat \<Rightarrow> nat \<Rightarrow> bool" where
  "safe_up s t a b n \<longleftrightarrow>
     b \<le> a \<and> csize t \<le> csize s \<or> a + n * csize s \<le> b \<or> b + n * csize t \<le> a"

lemma conv_down_correct:
  assumes "safe_down s t a b n" "a + n * csize s \<le> length m" "b + n * csize t \<le> length m"
  shows "conv_down s t f a b n m = Some (blit m b (encs t (map f (elems s m a n))))"
  using assms
proof (induction n arbitrary: m)
  case 0
  then show ?case by (simp add: elems_def)
next
  case (Suc n)
  let ?x = "cdec s (slice m (a + n * csize s) (csize s))"
  let ?m = "blit m (b + n * csize t) (cenc t (f ?x))"
  have fits: "a + n * csize s + csize s \<le> length m" "b + n * csize t + csize t \<le> length m"
    using Suc.prems by (simp_all add: algebra_simps)
  have safe: "safe_down s t a b n" and sep: "a + n * csize s \<le> b + n * csize t
      \<or> b + n * csize t + csize t \<le> a"
    using Suc.prems(1)
    by (auto simp: safe_down_def algebra_simps intro: add_le_mono mult_le_mono2)
  have len: "length ?m = length m" using fits by (simp add: blit_simps)
  have "conv_down s t f a b (Suc n) m = conv_down s t f a b n ?m"
    using fits by simp
  also have "\<dots> = Some (blit ?m b (encs t (map f (elems s ?m a n))))"
    using fits safe len by (intro Suc.IH) auto
  also have "elems s ?m a n = elems s m a n"
    using fits sep by (intro elems_blit) auto
  also have "blit ?m b (encs t (map f (elems s m a n)))
      = blit m b (encs t (map f (elems s m a n)) @ cenc t (f ?x))"
    using fits by (intro blit_blit_prepend) simp_all
  finally show ?case by (simp add: elems_Suc_last)
qed

lemma conv_up_correct:
  assumes "safe_up s t a b n" "a + n * csize s \<le> length m" "b + n * csize t \<le> length m"
  shows "conv_up s t f a b n m = Some (blit m b (encs t (map f (elems s m a n))))"
  using assms
proof (induction n arbitrary: a b m)
  case 0
  then show ?case by (simp add: elems_def)
next
  case (Suc n)
  let ?x = "cdec s (slice m a (csize s))"
  let ?m = "blit m b (cenc t (f ?x))"
  have fits: "a + csize s \<le> length m" "b + csize t \<le> length m"
    "a + csize s + n * csize s \<le> length m" "b + csize t + n * csize t \<le> length m"
    using Suc.prems by (simp_all add: algebra_simps)
  have safe: "safe_up s t (a + csize s) (b + csize t) n"
    and sep: "a + csize s + n * csize s \<le> b \<or> b + csize t \<le> a + csize s"
    using Suc.prems(1) by (auto simp: safe_up_def algebra_simps)
  have len: "length ?m = length m" using fits by (simp add: blit_simps)
  have "conv_up s t f a b (Suc n) m = conv_up s t f (a + csize s) (b + csize t) n ?m"
    using fits by simp
  also have "\<dots> = Some (blit ?m (b + csize t) (encs t (map f (elems s ?m (a + csize s) n))))"
    using fits safe len by (intro Suc.IH) auto
  also have "elems s ?m (a + csize s) n = elems s m (a + csize s) n"
    using fits sep by (intro elems_blit) auto
  also have "blit ?m (b + csize t) (encs t (map f (elems s m (a + csize s) n)))
      = blit m b (cenc t (f ?x) @ encs t (map f (elems s m (a + csize s) n)))"
    using blit_blit_append [of b "cenc t (f ?x)" "encs t (map f (elems s m (a + csize s) n))" m] fits
    by simp
  finally show ?case by (simp add: elems_Suc_first)
qed

subsection \<open>The interface: a routine that converts an array\<close>

text \<open>
  What every routine of this component promises: where source and target are either apart or
  overlap safely, the target array holds the converted elements and nothing else changed.
\<close>

locale array_conv =
  fixes conv :: "nat \<Rightarrow> nat \<Rightarrow> int \<Rightarrow> mem \<Rightarrow> mem option"
    and s t :: cty
    and f :: "int \<Rightarrow> int"
    and safe :: "nat \<Rightarrow> nat \<Rightarrow> nat \<Rightarrow> bool"
  assumes conv_spec: "in_range CINT n \<Longrightarrow> safe a b (nat n) \<Longrightarrow> a + nat n * csize s \<le> length m \<Longrightarrow>
      b + nat n * csize t \<le> length m \<Longrightarrow>
      conv a b n m = Some (blit m b (encs t (map f (elems s m a (nat n)))))"
    and safe_apart: "a + k * csize s \<le> b \<or> b + k * csize t \<le> a \<Longrightarrow> safe a b k"
    and safe_same: "safe a a k"
begin

lemma conv_length:
  assumes "in_range CINT n" "safe a b (nat n)" "a + nat n * csize s \<le> length m" "b + nat n * csize t \<le> length m"
  shows "\<exists>m'. conv a b n m = Some m' \<and> length m' = length m"
  using conv_spec [OF assms] assms by (simp add: blit_simps)

lemma conv_elems:
  assumes "in_range CINT n" "safe a b (nat n)" "a + nat n * csize s \<le> length m" "b + nat n * csize t \<le> length m"
    and "conv a b n m = Some m'"
  shows "elems t m' b (nat n) = map (\<lambda>x. cdec t (cenc t (f x))) (elems s m a (nat n))"
  using conv_spec [OF assms(1-4)] assms elems_encs [of b "map f (elems s m a (nat n))" t m]
  by simp

lemma conv_frame:
  assumes "in_range CINT n" "safe a b (nat n)" "a + nat n * csize s \<le> length m" "b + nat n * csize t \<le> length m"
    and "conv a b n m = Some m'"
    and "q + k \<le> b \<or> b + nat n * csize t \<le> q" "q + k \<le> length m"
  shows "slice m' q k = slice m q k"
  using conv_spec [OF assms(1-4)] assms by (simp add: slice_blit_disjoint)

end

text \<open>Two conversions, the second of which undoes the first on the values of the source type.\<close>

locale array_conv_pair =
  fwd: array_conv conv1 s t f safe1 + bwd: array_conv conv2 t s g safe2
  for conv1 s t f safe1 conv2 g safe2 +
  assumes undo: "in_range s x \<Longrightarrow> cdec s (cenc s (g (cdec t (cenc t (f x))))) = x"
begin

lemma round_trip:
  assumes "in_range CINT n" "safe1 a b (nat n)" "a + nat n * csize s \<le> length m" "b + nat n * csize t \<le> length m"
    and "conv1 a b n m = Some m1"
    and "safe2 b c (nat n)" "c + nat n * csize s \<le> length m"
  shows "\<exists>m2. conv2 b c n m1 = Some m2 \<and> elems s m2 c (nat n) = elems s m a (nat n)"
proof -
  have len: "length m1 = length m" using fwd.conv_length [OF assms(1-4)] assms(5) by auto
  obtain m2 where m2: "conv2 b c n m1 = Some m2"
    using bwd.conv_length [OF assms(1,6), of m1] assms len by auto
  have t: "elems t m1 b (nat n) = map (\<lambda>x. cdec t (cenc t (f x))) (elems s m a (nat n))"
    by (rule fwd.conv_elems [OF assms(1-5)])
  have "elems s m2 c (nat n) = map (\<lambda>x. cdec s (cenc s (g x))) (elems t m1 b (nat n))"
    using assms len by (intro bwd.conv_elems [OF assms(1,6) _ _ m2]) auto
  also have "\<dots> = elems s m a (nat n)"
    unfolding t map_map comp_def
  proof (rule map_idI)
    fix x assume "x \<in> set (elems s m a (nat n))"
    with assms(3) have "in_range s x" by (rule set_elems_in_range)
    then show "cdec s (cenc s (g (cdec t (cenc t (f x))))) = x" by (rule undo)
  qed
  finally show ?thesis using m2 by blast
qed

end

subsection \<open>The loops keep the promise\<close>

lemma to_int_CINT [simp]: "in_range CINT n \<Longrightarrow> to_int n = n"
  by (simp add: in_range_def)

lemma array_conv_down:
  assumes "csize s \<le> csize t" and "\<And>a b n. in_range CINT n \<Longrightarrow> conv a b n = conv_down s t f a b (nat n)"
  shows "array_conv conv s t f (safe_down s t)"
proof
  show "conv a b n m = Some (blit m b (encs t (map f (elems s m a (nat n)))))"
    if "in_range CINT n" "safe_down s t a b (nat n)" "a + nat n * csize s \<le> length m"
      "b + nat n * csize t \<le> length m" for a b n m
    using that assms(2) by (simp add: conv_down_correct)
qed (use assms(1) in \<open>auto simp: safe_down_def\<close>)

lemma array_conv_up:
  assumes "csize t \<le> csize s" and "\<And>a b n. in_range CINT n \<Longrightarrow> conv a b n = conv_up s t f a b (nat n)"
  shows "array_conv conv s t f (safe_up s t)"
proof
  show "conv a b n m = Some (blit m b (encs t (map f (elems s m a (nat n)))))"
    if "in_range CINT n" "safe_up s t a b (nat n)" "a + nat n * csize s \<le> length m"
      "b + nat n * csize t \<le> length m" for a b n m
    using that assms(2) by (simp add: conv_up_correct)
qed (use assms(1) in \<open>auto simp: safe_up_def\<close>)

text \<open>Two integer types, the second at least as wide as the first.\<close>

lemma widen_narrow:
  assumes "csize s \<le> csize t" and "in_range s x"
  shows "cdec s (cenc s (cdec t (cenc t x))) = x"
proof -
  have "take_bit (8 * csize s) (cdec t (cenc t x)) = take_bit (8 * csize s) x"
  proof -
    have "take_bit (8 * csize t) (cdec t (cenc t x)) = take_bit (8 * csize t) x"
      using cenc_cdec [of "cenc t x" t]
      by (metis cenc_def le_val_le_enc_take_bit length_cenc)
    then have "take_bit (8 * csize s) (take_bit (8 * csize t) (cdec t (cenc t x)))
        = take_bit (8 * csize s) (take_bit (8 * csize t) x)" by simp
    with assms(1) show ?thesis by (simp add: min_def)
  qed
  then have "cdec s (cenc s (cdec t (cenc t x))) = cdec s (cenc s x)"
    by (simp add: cdec_def cenc_def le_val_le_enc_take_bit)
  with assms(2) show ?thesis by (simp add: cdec_cenc)
qed

end
