(* ===== verification/Osb_Acht.thy ===== *)
theory Osb_Acht
  imports Osb_Convert
begin

text \<open>
  The routines themselves: \<open>sys/osb/achtb?.c\<close>, \<open>acht?b.c\<close>, \<open>achtu?.c\<close>, \<open>acht?u.c\<close>,
  \<open>chrpak.c\<close> and \<open>chrupk.c\<close>.  Arguments are the addresses of the two arrays and the
  element count; a routine that keeps its count in an \<open>int\<close> converts the \<open>XINT\<close> it is given.
  The float and double routines take the processor's conversions as the parameter \<open>fp\<close>.
  Each definition is followed by the interpretation of the interface \<open>array_conv\<close> on it.
\<close>

record fp_conv =
  float_of_int :: "int \<Rightarrow> int"
  double_of_int :: "int \<Rightarrow> int"
  int_of_float :: "int \<Rightarrow> int"
  int_of_double :: "int \<Rightarrow> int"

subsection \<open>Unpacking unsigned bytes\<close>

definition ACHTBB :: "nat \<Rightarrow> nat \<Rightarrow> int \<Rightarrow> mem \<Rightarrow> mem option" where
  "ACHTBB a b npix = conv_down UBYTE UBYTE id a b (nat npix)"

interpretation achtbb: array_conv ACHTBB UBYTE UBYTE id "safe_down UBYTE UBYTE"
  by (rule array_conv_down) (simp_all add: ACHTBB_def)

definition ACHTBC :: "nat \<Rightarrow> nat \<Rightarrow> int \<Rightarrow> mem \<Rightarrow> mem option" where
  "ACHTBC a b npix = conv_down UBYTE XCHAR id a b (nat npix)"

interpretation achtbc: array_conv ACHTBC UBYTE XCHAR id "safe_down UBYTE XCHAR"
  by (rule array_conv_down) (simp_all add: ACHTBC_def)

definition ACHTBS :: "nat \<Rightarrow> nat \<Rightarrow> int \<Rightarrow> mem \<Rightarrow> mem option" where
  "ACHTBS a b npix = conv_down UBYTE XSHORT id a b (nat npix)"

interpretation achtbs: array_conv ACHTBS UBYTE XSHORT id "safe_down UBYTE XSHORT"
  by (rule array_conv_down) (simp_all add: ACHTBS_def)

definition ACHTBU :: "nat \<Rightarrow> nat \<Rightarrow> int \<Rightarrow> mem \<Rightarrow> mem option" where
  "ACHTBU a b npix = conv_down UBYTE XUSHORT id a b (nat npix)"

interpretation achtbu: array_conv ACHTBU UBYTE XUSHORT id "safe_down UBYTE XUSHORT"
  by (rule array_conv_down) (simp_all add: ACHTBU_def)

definition ACHTBI :: "nat \<Rightarrow> nat \<Rightarrow> int \<Rightarrow> mem \<Rightarrow> mem option" where
  "ACHTBI a b npix = conv_down UBYTE XINT id a b (nat npix)"

interpretation achtbi: array_conv ACHTBI UBYTE XINT id "safe_down UBYTE XINT"
  by (rule array_conv_down) (simp_all add: ACHTBI_def)

definition ACHTBL :: "nat \<Rightarrow> nat \<Rightarrow> int \<Rightarrow> mem \<Rightarrow> mem option" where
  "ACHTBL a b npix = conv_down UBYTE XLONG id a b (nat npix)"

interpretation achtbl: array_conv ACHTBL UBYTE XLONG id "safe_down UBYTE XLONG"
  by (rule array_conv_down) (simp_all add: ACHTBL_def)

definition ACHTBR :: "fp_conv \<Rightarrow> nat \<Rightarrow> nat \<Rightarrow> int \<Rightarrow> mem \<Rightarrow> mem option" where
  "ACHTBR fp a b npix = conv_down UBYTE XREAL (float_of_int fp) a b (nat npix)"

interpretation achtbr: array_conv "ACHTBR fp" UBYTE XREAL "float_of_int fp" "safe_down UBYTE XREAL" for fp
  by (rule array_conv_down) (simp_all add: ACHTBR_def)

definition ACHTBD :: "fp_conv \<Rightarrow> nat \<Rightarrow> nat \<Rightarrow> int \<Rightarrow> mem \<Rightarrow> mem option" where
  "ACHTBD fp a b npix = conv_down UBYTE XDOUBLE (double_of_int fp) a b (nat npix)"

interpretation achtbd: array_conv "ACHTBD fp" UBYTE XDOUBLE "double_of_int fp" "safe_down UBYTE XDOUBLE" for fp
  by (rule array_conv_down) (simp_all add: ACHTBD_def)

subsection \<open>Packing to unsigned bytes\<close>

definition ACHTCB :: "nat \<Rightarrow> nat \<Rightarrow> int \<Rightarrow> mem \<Rightarrow> mem option" where
  "ACHTCB a b npix = conv_up XCHAR UBYTE id a b (nat (to_int npix))"

interpretation achtcb: array_conv ACHTCB XCHAR UBYTE id "safe_up XCHAR UBYTE"
  by (rule array_conv_up) (simp_all add: ACHTCB_def)

definition ACHTSB :: "nat \<Rightarrow> nat \<Rightarrow> int \<Rightarrow> mem \<Rightarrow> mem option" where
  "ACHTSB a b npix = conv_up XSHORT UBYTE id a b (nat (to_int npix))"

interpretation achtsb: array_conv ACHTSB XSHORT UBYTE id "safe_up XSHORT UBYTE"
  by (rule array_conv_up) (simp_all add: ACHTSB_def)

definition ACHTIB :: "nat \<Rightarrow> nat \<Rightarrow> int \<Rightarrow> mem \<Rightarrow> mem option" where
  "ACHTIB a b npix = conv_up XINT UBYTE id a b (nat (to_int npix))"

interpretation achtib: array_conv ACHTIB XINT UBYTE id "safe_up XINT UBYTE"
  by (rule array_conv_up) (simp_all add: ACHTIB_def)

definition ACHTLB :: "nat \<Rightarrow> nat \<Rightarrow> int \<Rightarrow> mem \<Rightarrow> mem option" where
  "ACHTLB a b npix = conv_up XLONG UBYTE id a b (nat (to_int npix))"

interpretation achtlb: array_conv ACHTLB XLONG UBYTE id "safe_up XLONG UBYTE"
  by (rule array_conv_up) (simp_all add: ACHTLB_def)

definition ACHTRB :: "fp_conv \<Rightarrow> nat \<Rightarrow> nat \<Rightarrow> int \<Rightarrow> mem \<Rightarrow> mem option" where
  "ACHTRB fp a b npix = conv_up XREAL UBYTE (int_of_float fp) a b (nat (to_int npix))"

interpretation achtrb: array_conv "ACHTRB fp" XREAL UBYTE "int_of_float fp" "safe_up XREAL UBYTE" for fp
  by (rule array_conv_up) (simp_all add: ACHTRB_def)

definition ACHTDB :: "fp_conv \<Rightarrow> nat \<Rightarrow> nat \<Rightarrow> int \<Rightarrow> mem \<Rightarrow> mem option" where
  "ACHTDB fp a b npix = conv_up XDOUBLE UBYTE (int_of_double fp) a b (nat (to_int npix))"

interpretation achtdb: array_conv "ACHTDB fp" XDOUBLE UBYTE "int_of_double fp" "safe_up XDOUBLE UBYTE" for fp
  by (rule array_conv_up) (simp_all add: ACHTDB_def)

subsection \<open>From unsigned short\<close>

definition ACHTUB :: "nat \<Rightarrow> nat \<Rightarrow> int \<Rightarrow> mem \<Rightarrow> mem option" where
  "ACHTUB a b npix = (if csize UBYTE \<ge> csize XUSHORT
     then conv_down XUSHORT UBYTE id a b (nat (to_int npix))
     else conv_up XUSHORT UBYTE id a b (nat (to_int npix)))"

interpretation achtub: array_conv ACHTUB XUSHORT UBYTE id "safe_up XUSHORT UBYTE"
  by (rule array_conv_up) (simp_all add: ACHTUB_def)

definition ACHTUC :: "nat \<Rightarrow> nat \<Rightarrow> int \<Rightarrow> mem \<Rightarrow> mem option" where
  "ACHTUC a b npix = (if csize XCHAR \<ge> csize XUSHORT
     then conv_down XUSHORT XCHAR id a b (nat (to_int npix))
     else conv_up XUSHORT XCHAR id a b (nat (to_int npix)))"

interpretation achtuc: array_conv ACHTUC XUSHORT XCHAR id "safe_down XUSHORT XCHAR"
  by (rule array_conv_down) (simp_all add: ACHTUC_def)

definition ACHTUS :: "nat \<Rightarrow> nat \<Rightarrow> int \<Rightarrow> mem \<Rightarrow> mem option" where
  "ACHTUS a b npix = (if csize XSHORT \<ge> csize XUSHORT
     then conv_down XUSHORT XSHORT id a b (nat (to_int npix))
     else conv_up XUSHORT XSHORT id a b (nat (to_int npix)))"

interpretation achtus: array_conv ACHTUS XUSHORT XSHORT id "safe_down XUSHORT XSHORT"
  by (rule array_conv_down) (simp_all add: ACHTUS_def)

definition ACHTUU :: "nat \<Rightarrow> nat \<Rightarrow> int \<Rightarrow> mem \<Rightarrow> mem option" where
  "ACHTUU a b npix = (if csize XUSHORT \<ge> csize XUSHORT
     then conv_down XUSHORT XUSHORT id a b (nat (to_int npix))
     else conv_up XUSHORT XUSHORT id a b (nat (to_int npix)))"

interpretation achtuu: array_conv ACHTUU XUSHORT XUSHORT id "safe_down XUSHORT XUSHORT"
  by (rule array_conv_down) (simp_all add: ACHTUU_def)

definition ACHTUI :: "nat \<Rightarrow> nat \<Rightarrow> int \<Rightarrow> mem \<Rightarrow> mem option" where
  "ACHTUI a b npix = (if csize XINT \<ge> csize XUSHORT
     then conv_down XUSHORT XINT id a b (nat (to_int npix))
     else conv_up XUSHORT XINT id a b (nat (to_int npix)))"

interpretation achtui: array_conv ACHTUI XUSHORT XINT id "safe_down XUSHORT XINT"
  by (rule array_conv_down) (simp_all add: ACHTUI_def)

definition ACHTUL :: "nat \<Rightarrow> nat \<Rightarrow> int \<Rightarrow> mem \<Rightarrow> mem option" where
  "ACHTUL a b npix = (if csize XLONG \<ge> csize XUSHORT
     then conv_down XUSHORT XLONG id a b (nat (to_int npix))
     else conv_up XUSHORT XLONG id a b (nat (to_int npix)))"

interpretation achtul: array_conv ACHTUL XUSHORT XLONG id "safe_down XUSHORT XLONG"
  by (rule array_conv_down) (simp_all add: ACHTUL_def)

definition ACHTUR :: "fp_conv \<Rightarrow> nat \<Rightarrow> nat \<Rightarrow> int \<Rightarrow> mem \<Rightarrow> mem option" where
  "ACHTUR fp a b npix = (if csize XREAL \<ge> csize XUSHORT
     then conv_down XUSHORT XREAL (float_of_int fp) a b (nat (to_int npix))
     else conv_up XUSHORT XREAL (float_of_int fp) a b (nat (to_int npix)))"

interpretation achtur: array_conv "ACHTUR fp" XUSHORT XREAL "float_of_int fp" "safe_down XUSHORT XREAL" for fp
  by (rule array_conv_down) (simp_all add: ACHTUR_def)

definition ACHTUD :: "fp_conv \<Rightarrow> nat \<Rightarrow> nat \<Rightarrow> int \<Rightarrow> mem \<Rightarrow> mem option" where
  "ACHTUD fp a b npix = (if csize XDOUBLE \<ge> csize XUSHORT
     then conv_down XUSHORT XDOUBLE (double_of_int fp) a b (nat (to_int npix))
     else conv_up XUSHORT XDOUBLE (double_of_int fp) a b (nat (to_int npix)))"

interpretation achtud: array_conv "ACHTUD fp" XUSHORT XDOUBLE "double_of_int fp" "safe_down XUSHORT XDOUBLE" for fp
  by (rule array_conv_down) (simp_all add: ACHTUD_def)

subsection \<open>To unsigned short\<close>

definition ACHTCU :: "nat \<Rightarrow> nat \<Rightarrow> int \<Rightarrow> mem \<Rightarrow> mem option" where
  "ACHTCU a b npix = (if csize XUSHORT > csize XCHAR
     then conv_down XCHAR XUSHORT id a b (nat (to_int npix))
     else conv_up XCHAR XUSHORT id a b (nat (to_int npix)))"

interpretation achtcu: array_conv ACHTCU XCHAR XUSHORT id "safe_up XCHAR XUSHORT"
  by (rule array_conv_up) (simp_all add: ACHTCU_def)

definition ACHTSU :: "nat \<Rightarrow> nat \<Rightarrow> int \<Rightarrow> mem \<Rightarrow> mem option" where
  "ACHTSU a b npix = (if csize XUSHORT > csize XSHORT
     then conv_down XSHORT XUSHORT id a b (nat (to_int npix))
     else conv_up XSHORT XUSHORT id a b (nat (to_int npix)))"

interpretation achtsu: array_conv ACHTSU XSHORT XUSHORT id "safe_up XSHORT XUSHORT"
  by (rule array_conv_up) (simp_all add: ACHTSU_def)

definition ACHTIU :: "nat \<Rightarrow> nat \<Rightarrow> int \<Rightarrow> mem \<Rightarrow> mem option" where
  "ACHTIU a b npix = (if csize XUSHORT > csize XINT
     then conv_down XINT XUSHORT id a b (nat (to_int npix))
     else conv_up XINT XUSHORT id a b (nat (to_int npix)))"

interpretation achtiu: array_conv ACHTIU XINT XUSHORT id "safe_up XINT XUSHORT"
  by (rule array_conv_up) (simp_all add: ACHTIU_def)

definition ACHTLU :: "nat \<Rightarrow> nat \<Rightarrow> int \<Rightarrow> mem \<Rightarrow> mem option" where
  "ACHTLU a b npix = (if csize XUSHORT > csize XLONG
     then conv_down XLONG XUSHORT id a b (nat (to_int npix))
     else conv_up XLONG XUSHORT id a b (nat (to_int npix)))"

interpretation achtlu: array_conv ACHTLU XLONG XUSHORT id "safe_up XLONG XUSHORT"
  by (rule array_conv_up) (simp_all add: ACHTLU_def)

definition ACHTRU :: "fp_conv \<Rightarrow> nat \<Rightarrow> nat \<Rightarrow> int \<Rightarrow> mem \<Rightarrow> mem option" where
  "ACHTRU fp a b npix = (if csize XUSHORT > csize XREAL
     then conv_down XREAL XUSHORT (int_of_float fp) a b (nat (to_int npix))
     else conv_up XREAL XUSHORT (int_of_float fp) a b (nat (to_int npix)))"

interpretation achtru: array_conv "ACHTRU fp" XREAL XUSHORT "int_of_float fp" "safe_up XREAL XUSHORT" for fp
  by (rule array_conv_up) (simp_all add: ACHTRU_def)

definition ACHTDU :: "fp_conv \<Rightarrow> nat \<Rightarrow> nat \<Rightarrow> int \<Rightarrow> mem \<Rightarrow> mem option" where
  "ACHTDU fp a b npix = (if csize XUSHORT > csize XDOUBLE
     then conv_down XDOUBLE XUSHORT (int_of_double fp) a b (nat (to_int npix))
     else conv_up XDOUBLE XUSHORT (int_of_double fp) a b (nat (to_int npix)))"

interpretation achtdu: array_conv "ACHTDU fp" XDOUBLE XUSHORT "int_of_double fp" "safe_up XDOUBLE XUSHORT" for fp
  by (rule array_conv_up) (simp_all add: ACHTDU_def)

subsection \<open>Characters: \<open>CHRPAK\<close> and \<open>CHRUPK\<close>\<close>

text \<open>
  \<open>XCHAR\<close> is signed and a byte is not, so the sign is handled explicitly.  The offsets are
  one-indexed, in elements of the array they index; the count is an \<open>int\<close>.
\<close>

definition CHRPAK :: "nat \<Rightarrow> int \<Rightarrow> nat \<Rightarrow> int \<Rightarrow> int \<Rightarrow> mem \<Rightarrow> mem option" where
  "CHRPAK a a_off b b_off nchars m = do {
     ip \<leftarrow> padd a (2 * (a_off - 1));
     op \<leftarrow> padd b (b_off - 1);
     conv_up XCHAR UBYTE (\<lambda>ch. if ch \<ge> 0 then ch else ch + 256) ip op (nat (to_int nchars)) m }"

definition CHRUPK :: "nat \<Rightarrow> int \<Rightarrow> nat \<Rightarrow> int \<Rightarrow> int \<Rightarrow> mem \<Rightarrow> mem option" where
  "CHRUPK a a_off b b_off nchars m = do {
     ip \<leftarrow> padd a (a_off - 1);
     op \<leftarrow> padd b (2 * (b_off - 1));
     conv_down UBYTE XCHAR (\<lambda>ch. if ch \<le> 127 then ch else ch - 256) ip op (nat (to_int nchars)) m }"

interpretation chrpak: array_conv "\<lambda>a b. CHRPAK a 1 b 1" XCHAR UBYTE
    "\<lambda>ch. if ch \<ge> 0 then ch else ch + 256" "safe_up XCHAR UBYTE"
  by (rule array_conv_up) (simp_all add: CHRPAK_def fun_eq_iff)

interpretation chrupk: array_conv "\<lambda>a b. CHRUPK a 1 b 1" UBYTE XCHAR
    "\<lambda>ch. if ch \<le> 127 then ch else ch - 256" "safe_down UBYTE XCHAR"
  by (rule array_conv_down) (simp_all add: CHRUPK_def fun_eq_iff)

subsection \<open>Routines that undo each other\<close>

interpretation achtbc_achtcb: array_conv_pair ACHTBC UBYTE XCHAR id "safe_down UBYTE XCHAR" ACHTCB id "safe_up XCHAR UBYTE"
  by unfold_locales (simp add: widen_narrow)

interpretation achtbs_achtsb: array_conv_pair ACHTBS UBYTE XSHORT id "safe_down UBYTE XSHORT" ACHTSB id "safe_up XSHORT UBYTE"
  by unfold_locales (simp add: widen_narrow)

interpretation achtbu_achtub: array_conv_pair ACHTBU UBYTE XUSHORT id "safe_down UBYTE XUSHORT" ACHTUB id "safe_up XUSHORT UBYTE"
  by unfold_locales (simp add: widen_narrow)

interpretation achtbi_achtib: array_conv_pair ACHTBI UBYTE XINT id "safe_down UBYTE XINT" ACHTIB id "safe_up XINT UBYTE"
  by unfold_locales (simp add: widen_narrow)

interpretation achtbl_achtlb: array_conv_pair ACHTBL UBYTE XLONG id "safe_down UBYTE XLONG" ACHTLB id "safe_up XLONG UBYTE"
  by unfold_locales (simp add: widen_narrow)

interpretation achtuc_achtcu: array_conv_pair ACHTUC XUSHORT XCHAR id "safe_down XUSHORT XCHAR" ACHTCU id "safe_up XCHAR XUSHORT"
  by unfold_locales (simp add: widen_narrow)

interpretation achtus_achtsu: array_conv_pair ACHTUS XUSHORT XSHORT id "safe_down XUSHORT XSHORT" ACHTSU id "safe_up XSHORT XUSHORT"
  by unfold_locales (simp add: widen_narrow)

interpretation achtui_achtiu: array_conv_pair ACHTUI XUSHORT XINT id "safe_down XUSHORT XINT" ACHTIU id "safe_up XINT XUSHORT"
  by unfold_locales (simp add: widen_narrow)

interpretation achtul_achtlu: array_conv_pair ACHTUL XUSHORT XLONG id "safe_down XUSHORT XLONG" ACHTLU id "safe_up XLONG XUSHORT"
  by unfold_locales (simp add: widen_narrow)

lemma chr_back:
  assumes "in_range UBYTE x"
  shows "cdec UBYTE (cenc UBYTE ((\<lambda>ch. if ch \<ge> 0 then ch else ch + 256)
     (cdec XCHAR (cenc XCHAR (if x \<le> 127 then x else x - 256))))) = x"
proof -
  have "in_range XCHAR (if x \<le> 127 then x else x - 256)"
    using assms by (auto simp: in_range_def)
  then show ?thesis using assms by (auto simp: cdec_cenc in_range_def)
qed

interpretation chrupk_chrpak: array_conv_pair "\<lambda>a b. CHRUPK a 1 b 1" UBYTE XCHAR
    "\<lambda>ch. if ch \<le> 127 then ch else ch - 256" "safe_down UBYTE XCHAR"
    "\<lambda>a b. CHRPAK a 1 b 1" "\<lambda>ch. if ch \<ge> 0 then ch else ch + 256" "safe_up XCHAR UBYTE"
  by unfold_locales (rule chr_back)

subsection \<open>In place\<close>

text \<open>
  \<open>CHRUPK\<close> widens a packed string of bytes to \<open>XCHAR\<close>s in the same array, and \<open>CHRPAK\<close>
  packs it again in place, and no byte of it is changed by the two.
\<close>

theorem chrupk_chrpak_in_place:
  assumes "in_range CINT n" "a + nat n * 2 \<le> length m"
  shows "\<exists>m1 m2. CHRUPK a 1 a 1 n m = Some m1 \<and> CHRPAK a 1 a 1 n m1 = Some m2
    \<and> elems UBYTE m2 a (nat n) = elems UBYTE m a (nat n)"
proof -
  have f: "a + nat n * csize UBYTE \<le> length m" "a + nat n * csize XCHAR \<le> length m"
    using assms(2) by auto
  note s = chrupk.safe_same [of a "nat n"] chrpak.safe_same [of a "nat n"]
  from chrupk.conv_length [OF assms(1) s(1) f] obtain m1 where m1: "CHRUPK a 1 a 1 n m = Some m1" by blast
  from chrupk_chrpak.round_trip [OF assms(1) s(1) f m1 s(2) f(1)] m1 show ?thesis by blast
qed

theorem chrupk_chrpak_in_place_witness:
  "\<exists>m1 m2. CHRUPK 1 1 1 1 2 [9, 65, 200, 3, 4] = Some m1 \<and> CHRPAK 1 1 1 1 2 m1 = Some m2
    \<and> elems UBYTE m2 1 (nat 2) = elems UBYTE [9, 65, 200, 3, 4] 1 (nat 2)"
  by (rule chrupk_chrpak_in_place) (simp_all add: in_range_def)

text \<open>
  C22: \<open>ACHTBI\<close> converts unsigned bytes to \<open>XINT\<close>s in any overlap in which the target does not
  start before the source: each output is the value of the byte at its place, and the memory
  outside the target array is as it was.
\<close>

theorem achtbi_overlap:
  assumes "in_range CINT n" "a \<le> b" "a + nat n \<le> length m" "b + 8 * nat n \<le> length m"
    "q + k \<le> b \<or> b + 8 * nat n \<le> q" "q + k \<le> length m"
  shows "\<exists>m'. ACHTBI a b n m = Some m' \<and> length m' = length m
    \<and> elems XINT m' b (nat n) = elems UBYTE m a (nat n) \<and> slice m' q k = slice m q k"
proof -
  have f: "a + nat n * csize UBYTE \<le> length m" "b + nat n * csize XINT \<le> length m"
    using assms(3,4) by auto
  have s: "safe_down UBYTE XINT a b (nat n)" using assms(2) by (simp add: safe_down_def)
  from achtbi.conv_length [OF assms(1) s f] obtain m' where m': "ACHTBI a b n m = Some m'"
    "length m' = length m" by blast
  have "elems XINT m' b (nat n) = map (\<lambda>x. cdec XINT (cenc XINT (id x))) (elems UBYTE m a (nat n))"
    by (rule achtbi.conv_elems [OF assms(1) s f m'(1)])
  also have "\<dots> = elems UBYTE m a (nat n)"
  proof (rule map_idI)
    fix x assume "x \<in> set (elems UBYTE m a (nat n))"
    with f(1) have "in_range UBYTE x" by (rule set_elems_in_range)
    then have "in_range XINT x" by (simp add: in_range_def)
    then show "cdec XINT (cenc XINT (id x)) = x" by (simp add: cdec_cenc)
  qed
  finally show ?thesis
    using m' achtbi.conv_frame [OF assms(1) s f m'(1), of q k] assms(5,6) by (simp add: mult.commute)
qed

theorem achtbi_overlap_witness:
  "\<exists>m'. ACHTBI 0 1 2 (replicate 20 200) = Some m' \<and> length m' = length (replicate 20 (200 :: byte))
    \<and> elems XINT m' 1 (nat 2) = elems UBYTE (replicate 20 200) 0 (nat 2)
    \<and> slice m' 17 3 = slice (replicate 20 200) 17 3"
  by (rule achtbi_overlap) (simp_all add: in_range_def)

end
