(* ===== verification/Osb_Swap.thy ===== *)
theory Osb_Swap
  imports Osb_Convert
begin

text \<open>
  The byte movers of \<open>sys/osb\<close>: \<open>bswap2.c\<close>, \<open>bswap4.c\<close>, \<open>bswap8.c\<close> (byte order of groups of 2, 4
  and 8 bytes, between two arrays or in place) and \<open>bytmov.c\<close> (a move that may overlap).
  Array arguments are byte addresses; offsets are one-indexed byte offsets.
\<close>

subsection \<open>Runs of bytes\<close>

fun rd_list :: "mem \<Rightarrow> nat \<Rightarrow> nat \<Rightarrow> byte list option" where
  "rd_list m p 0 = Some []"
| "rd_list m p (Suc k) = do { b \<leftarrow> rd m p; bs \<leftarrow> rd_list m (p + 1) k; Some (b # bs) }"

fun wr_list :: "mem \<Rightarrow> nat \<Rightarrow> byte list \<Rightarrow> mem option" where
  "wr_list m p [] = Some m"
| "wr_list m p (b # bs) = do { m' \<leftarrow> wr m p b; wr_list m' (p + 1) bs }"

lemma rd_list_slice: "p + k \<le> length m \<Longrightarrow> rd_list m p k = Some (slice m p k)"
  by (induction k arbitrary: p) (simp_all add: slice_Suc)

lemma wr_list_blit: "p + length bs \<le> length m \<Longrightarrow> wr_list m p bs = Some (blit m p bs)"
proof (induction bs arbitrary: p m)
  case Nil
  then show ?case by simp
next
  case (Cons b bs)
  then show ?case
    using blit_blit_append [of p "[b]" bs m]
    by (simp add: list_update_blit blit_simps)
qed

subsection \<open>The loops\<close>

text \<open>\<open>while (op < otop) { temp = *ip++;  *op++ = *ip++;  *op++ = temp; }\<close>\<close>

fun bswap2_loop :: "nat \<Rightarrow> nat \<Rightarrow> nat \<Rightarrow> mem \<Rightarrow> mem option" where
  "bswap2_loop 0 ip op m = Some m"
| "bswap2_loop (Suc k) ip op m = do {
     temp \<leftarrow> rd m ip;
     c \<leftarrow> rd m (ip + 1);
     m1 \<leftarrow> wr m op c;
     m2 \<leftarrow> wr m1 (op + 1) temp;
     bswap2_loop k (ip + 2) (op + 2) m2 }"

text \<open>A group of \<open>g\<close> bytes is read upwards into \<open>temp\<close> and written from its end.\<close>

fun group_loop :: "nat \<Rightarrow> nat \<Rightarrow> nat \<Rightarrow> nat \<Rightarrow> mem \<Rightarrow> mem option" where
  "group_loop g 0 ip op m = Some m"
| "group_loop g (Suc k) ip op m = do {
     temp \<leftarrow> rd_list m ip g;
     m' \<leftarrow> wr_list m op (rev temp);
     group_loop g k (ip + g) (op + g) m' }"

text \<open>\<open>for (n = ...;  --n >= 0;  ) *op++ = *ip++;\<close>\<close>

fun odd_loop :: "nat \<Rightarrow> nat \<Rightarrow> nat \<Rightarrow> mem \<Rightarrow> mem option" where
  "odd_loop 0 ip op m = Some m"
| "odd_loop (Suc k) ip op m = do {
     c \<leftarrow> rd m ip;
     m' \<leftarrow> wr m op c;
     odd_loop k (ip + 1) (op + 1) m' }"

subsection \<open>The routines\<close>

definition BSWAP2 :: "nat \<Rightarrow> int \<Rightarrow> nat \<Rightarrow> int \<Rightarrow> int \<Rightarrow> mem \<Rightarrow> mem option" where
  "BSWAP2 a aoff b boff nbytes m = do {
     ip \<leftarrow> padd a (aoff - 1);
     op \<leftarrow> padd b (boff - 1);
     let k = nat nbytes div 2;
     m1 \<leftarrow> bswap2_loop k ip op m;
     (if odd nbytes
      then do { c \<leftarrow> rd m1 (ip + 2 * k); wr m1 (op + 2 * k) c }
      else Some m1) }"

definition BSWAP4 :: "nat \<Rightarrow> int \<Rightarrow> nat \<Rightarrow> int \<Rightarrow> int \<Rightarrow> mem \<Rightarrow> mem option" where
  "BSWAP4 a aoff b boff nbytes m = do {
     ip \<leftarrow> padd a (aoff - 1);
     op \<leftarrow> padd b (boff - 1);
     let k = nat (to_int (nbytes div 4));
     m1 \<leftarrow> group_loop 4 k ip op m;
     odd_loop (nat (nbytes mod 4)) (ip + 4 * k) (op + 4 * k) m1 }"

definition BSWAP8 :: "nat \<Rightarrow> int \<Rightarrow> nat \<Rightarrow> int \<Rightarrow> int \<Rightarrow> mem \<Rightarrow> mem option" where
  "BSWAP8 a aoff b boff nbytes m = do {
     ip \<leftarrow> padd a (aoff - 1);
     op \<leftarrow> padd b (boff - 1);
     let k = nat (to_int (nbytes div 8));
     m1 \<leftarrow> group_loop 8 k ip op m;
     odd_loop (nat (nbytes mod 4)) (ip + 8 * k) (op + 8 * k) m1 }"

text \<open>
  \<open>BYTMOV\<close> skips the move when \<open>a + *aoff\<close> and \<open>b + *boff\<close> are equal.  The arrays are
  declared \<open>XCHAR *\<close>, so that sum counts in units of two bytes.  \<open>memmove\<close> moves as if over a copy,
  as the C standard has it.
\<close>

definition BYTMOV :: "nat \<Rightarrow> int \<Rightarrow> nat \<Rightarrow> int \<Rightarrow> int \<Rightarrow> mem \<Rightarrow> mem option" where
  "BYTMOV a aoff b boff nbytes m =
     (if int a + 2 * aoff \<noteq> int b + 2 * boff
      then do {
        src \<leftarrow> padd a (aoff - 1);
        dst \<leftarrow> padd b (boff - 1);
        (if 0 \<le> nbytes \<and> src + nat nbytes \<le> length m \<and> dst + nat nbytes \<le> length m
         then Some (blit m dst (slice m src (nat nbytes)))
         else None) }
      else Some m)"

subsection \<open>What the loops do\<close>

fun rev_groups :: "nat \<Rightarrow> nat \<Rightarrow> 'a list \<Rightarrow> 'a list" where
  "rev_groups g 0 xs = []"
| "rev_groups g (Suc k) xs = rev (take g xs) @ rev_groups g k (drop g xs)"

lemma length_rev_groups: "g * k \<le> length xs \<Longrightarrow> length (rev_groups g k xs) = g * k"
  by (induction k arbitrary: xs) (auto simp: algebra_simps)

lemma rev_groups_append:
  "length xs = g * k \<Longrightarrow> rev_groups g k (xs @ ys) = rev_groups g k xs"
  by (induction k arbitrary: xs) (auto simp: algebra_simps)

lemma rev_groups_twice:
  "length xs = g * k \<Longrightarrow> rev_groups g k (rev_groups g k xs) = xs"
  by (induction k arbitrary: xs) (auto simp: algebra_simps)

lemma slice_group:
  "p + (g + l) \<le> length m \<Longrightarrow> take g (slice m p (g + l)) = slice m p g \<and>
   drop g (slice m p (g + l)) = slice m (p + g) l"
  by (simp add: slice_add length_slice)

definition same_or_apart :: "nat \<Rightarrow> nat \<Rightarrow> nat \<Rightarrow> bool" where
  "same_or_apart p q k \<longleftrightarrow> p = q \<or> p + k \<le> q \<or> q + k \<le> p"

lemma group_loop_correct:
  assumes "same_or_apart ip op (g * k)" "ip + g * k \<le> length m" "op + g * k \<le> length m"
  shows "group_loop g k ip op m = Some (blit m op (rev_groups g k (slice m ip (g * k))))"
  using assms
proof (induction k arbitrary: ip op m)
  case 0
  then show ?case by simp
next
  case (Suc k)
  let ?bs = "rev (slice m ip g)"
  let ?m = "blit m op ?bs"
  have fits: "ip + (g + g * k) \<le> length m" "op + (g + g * k) \<le> length m"
    using Suc.prems by simp_all
  have len: "length ?bs = g" using fits by (simp add: length_slice)
  have same: "slice ?m (ip + g) (g * k) = slice m (ip + g) (g * k)"
    using fits Suc.prems(1) len
    by (intro slice_blit_disjoint) (auto simp: same_or_apart_def)
  have "group_loop g (Suc k) ip op m = group_loop g k (ip + g) (op + g) ?m"
    using fits len by (simp add: rd_list_slice wr_list_blit)
  also have "\<dots> = Some (blit ?m (op + g) (rev_groups g k (slice ?m (ip + g) (g * k))))"
    using fits Suc.prems(1) len
    by (intro Suc.IH) (auto simp: same_or_apart_def blit_simps)
  also have "blit ?m (op + g) (rev_groups g k (slice ?m (ip + g) (g * k)))
      = blit m op (?bs @ rev_groups g k (slice m (ip + g) (g * k)))"
    using blit_blit_append [of op ?bs "rev_groups g k (slice m (ip + g) (g * k))" m]
      fits same len by (simp add: length_rev_groups length_slice)
  finally show ?case
    using slice_group [OF fits(1)] by simp
qed

lemma odd_loop_correct:
  assumes "same_or_apart ip op k" "ip + k \<le> length m" "op + k \<le> length m"
  shows "odd_loop k ip op m = Some (blit m op (slice m ip k))"
  using assms
proof (induction k arbitrary: ip op m)
  case 0
  then show ?case by simp
next
  case (Suc k)
  let ?m = "blit m op [m ! ip]"
  have "odd_loop (Suc k) ip op m = odd_loop k (ip + 1) (op + 1) ?m"
    using Suc.prems by (simp add: list_update_blit)
  also have "\<dots> = Some (blit ?m (op + 1) (slice ?m (ip + 1) k))"
    using Suc.prems by (intro Suc.IH) (auto simp: same_or_apart_def blit_simps)
  also have "slice ?m (ip + 1) k = slice m (ip + 1) k"
    using Suc.prems by (intro slice_blit_disjoint) (auto simp: same_or_apart_def)
  also have "blit ?m (op + 1) (slice m (ip + 1) k) = blit m op ([m ! ip] @ slice m (ip + 1) k)"
    using blit_blit_append [of op "[m ! ip]" "slice m (ip + 1) k" m] Suc.prems
    by (simp add: length_slice)
  finally show ?case
    using Suc.prems by (simp add: slice_Suc)
qed

lemma bswap2_loop_group:
  "same_or_apart ip op (2 * k) \<Longrightarrow> ip + 2 * k \<le> length m \<Longrightarrow> op + 2 * k \<le> length m \<Longrightarrow>
   bswap2_loop k ip op m = group_loop 2 k ip op m"
  by (induction k arbitrary: ip op m)
     (auto simp: same_or_apart_def numeral_2_eq_2)

lemma groups_then_odd:
  assumes "same_or_apart ip op (g * k + r)" "ip + (g * k + r) \<le> length m" "op + (g * k + r) \<le> length m"
  shows "group_loop g k ip op m \<bind> odd_loop r (ip + g * k) (op + g * k) =
    Some (blit m op (rev_groups g k (slice m ip (g * k)) @ slice m (ip + g * k) r))"
proof -
  let ?bs = "rev_groups g k (slice m ip (g * k))"
  let ?m = "blit m op ?bs"
  have len: "length ?bs = g * k" using assms by (simp add: length_rev_groups length_slice)
  have grp: "group_loop g k ip op m = Some ?m"
    using assms by (intro group_loop_correct) (auto simp: same_or_apart_def)
  have same: "slice ?m (ip + g * k) r = slice m (ip + g * k) r"
    using assms len by (intro slice_blit_disjoint) (auto simp: same_or_apart_def)
  have "odd_loop r (ip + g * k) (op + g * k) ?m
      = Some (blit ?m (op + g * k) (slice ?m (ip + g * k) r))"
    using assms len by (intro odd_loop_correct) (auto simp: same_or_apart_def blit_simps)
  also have "blit ?m (op + g * k) (slice ?m (ip + g * k) r) = blit m op (?bs @ slice m (ip + g * k) r)"
    using blit_blit_append [of op ?bs "slice m (ip + g * k) r" m] assms len same
    by (simp add: length_slice)
  finally show ?thesis by (simp add: grp)
qed

text \<open>The specification: whole groups are reversed, what is left over is copied.\<close>

definition swap_bytes :: "nat \<Rightarrow> 'a list \<Rightarrow> 'a list" where
  "swap_bytes g xs = rev_groups g (length xs div g) (take (g * (length xs div g)) xs)
     @ drop (g * (length xs div g)) xs"

lemma length_swap_bytes [simp]: "length (swap_bytes g xs) = length xs"
  by (simp add: swap_bytes_def length_rev_groups)

lemma swap_bytes_twice [simp]: "swap_bytes g (swap_bytes g xs) = xs"
proof -
  let ?k = "length xs div g"
  have "length (rev_groups g ?k (take (g * ?k) xs)) = g * ?k"
    by (simp add: length_rev_groups)
  then show ?thesis
    by (simp add: swap_bytes_def [of g "swap_bytes g xs"])
       (simp add: swap_bytes_def rev_groups_twice)
qed

lemma groups_then_odd_swap:
  assumes "same_or_apart ip op n" "ip + n \<le> length m" "op + n \<le> length m"
  shows "group_loop g (n div g) ip op m \<bind> odd_loop (n mod g) (ip + g * (n div g)) (op + g * (n div g)) =
    Some (blit m op (swap_bytes g (slice m ip n)))"
proof -
  have n: "n = g * (n div g) + n mod g" by simp
  have "slice m ip n = slice m ip (g * (n div g)) @ slice m (ip + g * (n div g)) (n mod g)"
    using slice_add [of m ip "g * (n div g)" "n mod g"] by simp
  moreover have "length (slice m ip (g * (n div g))) = g * (n div g)"
    using assms(2) n by (intro length_slice) linarith
  moreover have "length (slice m ip n) = n" using assms(2) by (simp add: length_slice)
  ultimately have "swap_bytes g (slice m ip n) =
      rev_groups g (n div g) (slice m ip (g * (n div g))) @ slice m (ip + g * (n div g)) (n mod g)"
    by (simp add: swap_bytes_def)
  then show ?thesis
    using groups_then_odd [of ip op g "n div g" "n mod g" m] assms by simp
qed

subsection \<open>The interface of a byte swapper\<close>

locale byte_swapper =
  fixes swap :: "nat \<Rightarrow> int \<Rightarrow> nat \<Rightarrow> int \<Rightarrow> int \<Rightarrow> mem \<Rightarrow> mem option"
    and g :: nat and ok :: "nat \<Rightarrow> bool"
  assumes swap_spec: "ok n \<Longrightarrow> in_range CINT (int n) \<Longrightarrow> same_or_apart ip op n \<Longrightarrow>
      ip + n \<le> length m \<Longrightarrow> op + n \<le> length m \<Longrightarrow>
      int a + aoff - 1 = int ip \<Longrightarrow> int b + boff - 1 = int op \<Longrightarrow>
      swap a aoff b boff (int n) m = Some (blit m op (swap_bytes g (slice m ip n)))"
begin

lemma swap_in_place_twice:
  assumes "ok n" "in_range CINT (int n)" "ip + n \<le> length m" "int a + aoff - 1 = int ip"
  shows "swap a aoff a aoff (int n) m \<bind> swap a aoff a aoff (int n) = Some m"
proof -
  let ?bs = "swap_bytes g (slice m ip n)"
  have len: "length ?bs = n" using assms by (simp add: length_slice)
  have first: "swap a aoff a aoff (int n) m = Some (blit m ip ?bs)"
    using assms by (intro swap_spec) (auto simp: same_or_apart_def)
  have "swap a aoff a aoff (int n) (blit m ip ?bs)
      = Some (blit (blit m ip ?bs) ip (swap_bytes g (slice (blit m ip ?bs) ip n)))"
    using assms len by (intro swap_spec) (auto simp: same_or_apart_def blit_simps)
  also have "slice (blit m ip ?bs) ip n = ?bs"
    using slice_blit_same [of ip ?bs m] assms len by simp
  also have "blit (blit m ip ?bs) ip (swap_bytes g ?bs) = m"
    using assms len blit_slice_id [of ip n m]
    by (simp add: blit_blit_same length_slice)
  finally show ?thesis by (simp add: first)
qed

end

lemma padd_offset: "int a + aoff - 1 = int ip \<Longrightarrow> padd a (aoff - 1) = Some ip"
  by (simp add: padd_def)

lemma nat_to_int_div: "in_range CINT (int n) \<Longrightarrow> nat (to_int (int n div int k)) = n div k"
proof -
  assume n: "in_range CINT (int n)"
  have "n div k \<le> n" by (rule div_le_dividend)
  moreover have "n < 2147483648" using n by (simp add: in_range_def)
  ultimately have "to_int (int (n div k)) = int (n div k)"
    by (intro to_int_id) linarith+
  then show ?thesis by (simp flip: zdiv_int)
qed

lemma odd_loop_0: "odd_loop 0 ip op = Some"
  by (simp add: fun_eq_iff)

lemma odd_loop_1: "odd_loop (Suc 0) ip op = (\<lambda>m. rd m ip \<bind> wr m op)"
  by (simp add: fun_eq_iff odd_loop_0)

lemma bswap2_spec:
  assumes "same_or_apart ip op n" "ip + n \<le> length m" "op + n \<le> length m"
    "int a + aoff - 1 = int ip" "int b + boff - 1 = int op"
  shows "BSWAP2 a aoff b boff (int n) m = Some (blit m op (swap_bytes 2 (slice m ip n)))"
proof -
  have le: "2 * (n div 2) \<le> n" by simp
  have "bswap2_loop (n div 2) ip op m = group_loop 2 (n div 2) ip op m"
    using assms le by (intro bswap2_loop_group) (auto simp: same_or_apart_def)
  then have "BSWAP2 a aoff b boff (int n) m
      = group_loop 2 (n div 2) ip op m \<bind> odd_loop (n mod 2) (ip + 2 * (n div 2)) (op + 2 * (n div 2))"
    using assms(4,5)
    by (cases "odd n") (simp_all add: BSWAP2_def padd_offset Let_def odd_iff_mod_2_eq_one odd_loop_0 odd_loop_1)
  then show ?thesis
    using groups_then_odd_swap [OF assms(1-3), of 2] by simp
qed

interpretation bswap2: byte_swapper BSWAP2 2 "\<lambda>n. True"
  by unfold_locales (rule bswap2_spec)

interpretation bswap4: byte_swapper BSWAP4 4 "\<lambda>n. True"
proof
  show "BSWAP4 a aoff b boff (int n) m = Some (blit m op (swap_bytes 4 (slice m ip n)))"
    if "in_range CINT (int n)" "same_or_apart ip op n" "ip + n \<le> length m" "op + n \<le> length m"
      "int a + aoff - 1 = int ip" "int b + boff - 1 = int op" for n ip op m a aoff b boff
    using groups_then_odd_swap [of ip op n m 4] that nat_to_int_div [of n 4]
    by (simp add: BSWAP4_def padd_offset Let_def nat_mod_as_int)
qed

interpretation bswap8: byte_swapper BSWAP8 8 "\<lambda>n. n mod 8 < 4"
proof
  show "BSWAP8 a aoff b boff (int n) m = Some (blit m op (swap_bytes 8 (slice m ip n)))"
    if "n mod 8 < 4" "in_range CINT (int n)" "same_or_apart ip op n" "ip + n \<le> length m"
      "op + n \<le> length m" "int a + aoff - 1 = int ip" "int b + boff - 1 = int op"
    for n ip op m a aoff b boff
  proof -
    have "n mod 4 = n mod 8" using that(1) by presburger
    then show ?thesis
      using groups_then_odd_swap [of ip op n m 8] that nat_to_int_div [of n 8]
      by (simp add: BSWAP8_def padd_offset Let_def nat_mod_as_int)
  qed
qed

text \<open>
  With four to seven bytes left over, \<open>BSWAP8\<close> copies only the count modulo 4 of them: the mask
  of its second loop is that of \<open>BSWAP4\<close>.
\<close>

theorem bswap8_left_over:
  assumes "in_range CINT (int n)" "same_or_apart ip op n" "ip + n \<le> length m" "op + n \<le> length m"
    "int a + aoff - 1 = int ip" "int b + boff - 1 = int op"
  shows "BSWAP8 a aoff b boff (int n) m = Some (blit m op
    (rev_groups 8 (n div 8) (slice m ip (8 * (n div 8))) @ slice m (ip + 8 * (n div 8)) (n mod 4)))"
proof -
  have "8 * (n div 8) + n mod 4 \<le> n" by presburger
  then have "group_loop 8 (n div 8) ip op m \<bind> odd_loop (n mod 4) (ip + 8 * (n div 8)) (op + 8 * (n div 8)) =
    Some (blit m op (rev_groups 8 (n div 8) (slice m ip (8 * (n div 8))) @ slice m (ip + 8 * (n div 8)) (n mod 4)))"
    using assms by (intro groups_then_odd) (auto simp: same_or_apart_def)
  then show ?thesis
    using assms nat_to_int_div [of n 8]
    by (simp add: BSWAP8_def padd_offset Let_def nat_mod_as_int)
qed

theorem bswap8_left_over_witness:
  "BSWAP8 0 1 0 1 (int 14) (map word_of_nat [0..<14]) = Some (blit (map word_of_nat [0..<14]) 0
    (rev_groups 8 (14 div 8) (slice (map word_of_nat [0..<14]) 0 (8 * (14 div 8)))
     @ slice (map word_of_nat [0..<14]) (0 + 8 * (14 div 8)) (14 mod 4)))"
  by (rule bswap8_left_over) (simp_all add: in_range_def same_or_apart_def)

subsection \<open>\<open>BYTMOV\<close>\<close>

text \<open>
  When the arrays start an odd number of places apart, the comparison
  of \<open>a + *aoff\<close> and \<open>b + *boff\<close>, which counts in \<open>XCHAR\<close>s, can be true for two different places,
  and then nothing is moved.
\<close>

theorem bytmov_skips:
  assumes "int a + 2 * aoff = int b + 2 * boff"
  shows "BYTMOV a aoff b boff nbytes m = Some m"
  using assms by (simp add: BYTMOV_def)

theorem bytmov_skips_witness:
  "BYTMOV 2 1 0 2 1 [1, 2, 3, 4] = Some [1, 2, 3, 4]"
  using bytmov_skips [of 2 1 0 2 1 "[1, 2, 3, 4]"] by simp

text \<open>
  \<open>BSWAP4\<close> in place, twice, is the identity on the whole memory, for every count of bytes and
  every offset.
\<close>

theorem bswap4_in_place_twice:
  assumes "in_range CINT (int n)" "ip + n \<le> length m" "int a + aoff - 1 = int ip"
  shows "BSWAP4 a aoff a aoff (int n) m \<bind> BSWAP4 a aoff a aoff (int n) = Some m"
  using bswap4.swap_in_place_twice [OF TrueI assms] .

theorem bswap4_in_place_twice_witness:
  "BSWAP4 0 2 0 2 (int 6) [1, 2, 3, 4, 5, 6, 7] \<bind> BSWAP4 0 2 0 2 (int 6) = Some [1, 2, 3, 4, 5, 6, 7]"
  by (rule bswap4_in_place_twice [of 6 1]) (simp_all add: in_range_def)

end
