(* ===== verification/Osb_Bits.thy ===== *)
theory Osb_Bits
  imports Osb_Convert
begin

unbundle bit_operations_syntax

text \<open>
  The bit routines of \<open>sys/osb\<close>: \<open>bitfields.c\<close> (insert and extract a field of a word),
  \<open>and.c\<close>, \<open>or.c\<close>, \<open>not.c\<close>, \<open>shift.c\<close>, \<open>imul32.c\<close>, \<open>iand32.c\<close>, and the packing of integer
  arrays in \<open>ipak16.c\<close>, \<open>ipak32.c\<close>, \<open>iupk16.c\<close>, \<open>iupk32.c\<close>.  Values are words at the width
  of the type; a shift by the width or more, or an index outside \<open>bitmask\<close>, is undefined in C and
  is \<^term>\<open>None\<close> here.
\<close>

subsection \<open>Bit fields\<close>

definition bitmask :: "64 word list" where
  "bitmask = [
   0x0, 0x1, 0x3, 0x7,
   0xf, 0x1f, 0x3f, 0x7f,
   0xff, 0x1ff, 0x3ff, 0x7ff,
   0xfff, 0x1fff, 0x3fff, 0x7fff,
   0xffff, 0x1ffff, 0x3ffff, 0x7ffff,
   0xfffff, 0x1fffff, 0x3fffff, 0x7fffff,
   0xffffff, 0x1ffffff, 0x3ffffff, 0x7ffffff,
   0xfffffff, 0x1fffffff, 0x3fffffff, 0x7fffffff,
   0xffffffff, 0x1ffffffff, 0x3ffffffff, 0x7ffffffff,
   0xfffffffff, 0x1fffffffff, 0x3fffffffff, 0x7fffffffff,
   0xffffffffff, 0x1ffffffffff, 0x3ffffffffff, 0x7ffffffffff,
   0xfffffffffff, 0x1fffffffffff, 0x3fffffffffff, 0x7fffffffffff,
   0xffffffffffff, 0x1ffffffffffff, 0x3ffffffffffff, 0x7ffffffffffff,
   0xfffffffffffff, 0x1fffffffffffff, 0x3fffffffffffff, 0x7fffffffffffff,
   0xffffffffffffff, 0x1ffffffffffffff, 0x3ffffffffffffff, 0x7ffffffffffffff,
   0xfffffffffffffff, 0x1fffffffffffffff, 0x3fffffffffffffff, 0x7fffffffffffffff,
   0xffffffffffffffff]"

definition BITPAK :: "64 word \<Rightarrow> 64 word \<Rightarrow> int \<Rightarrow> int \<Rightarrow> 64 word option" where
  "BITPAK ival wordp offset nbits =
     (let shift = offset - 1 in
      if 0 \<le> nbits \<and> nat nbits < length bitmask \<and> 0 \<le> shift \<and> shift < 64
      then (let mask = push_bit (nat shift) (bitmask ! nat nbits)
            in Some ((wordp AND NOT mask) OR (push_bit (nat shift) ival AND mask)))
      else None)"

definition BITUPK :: "64 word \<Rightarrow> int \<Rightarrow> int \<Rightarrow> 64 word option" where
  "BITUPK wordp offset nbits =
     (let shift = offset - 1 in
      if 0 \<le> nbits \<and> nat nbits < length bitmask \<and> 0 \<le> shift \<and> shift < 64
      then Some (drop_bit (nat shift) wordp AND bitmask ! nat nbits)
      else None)"

subsection \<open>Bitwise operations on integers of each type\<close>

definition ANDI :: "64 word \<Rightarrow> 64 word \<Rightarrow> 64 word" where
  "ANDI a b = a AND b"

definition ANDS :: "16 word \<Rightarrow> 16 word \<Rightarrow> 16 word" where
  "ANDS a b = a AND b"

definition ANDL :: "64 word \<Rightarrow> 64 word \<Rightarrow> 64 word" where
  "ANDL a b = a AND b"

definition ORI :: "64 word \<Rightarrow> 64 word \<Rightarrow> 64 word" where
  "ORI a b = a OR b"

definition ORS :: "16 word \<Rightarrow> 16 word \<Rightarrow> 16 word" where
  "ORS a b = a OR b"

definition ORL :: "64 word \<Rightarrow> 64 word \<Rightarrow> 64 word" where
  "ORL a b = a OR b"

definition NOTI :: "64 word \<Rightarrow> 64 word" where
  "NOTI a = NOT a"

definition NOTS :: "16 word \<Rightarrow> 16 word" where
  "NOTS a = NOT a"

definition NOTL :: "64 word \<Rightarrow> 64 word" where
  "NOTL a = NOT a"

text \<open>A positive count shifts left, a count of zero or less shifts right, keeping the sign.\<close>

definition SHIFTI :: "64 word \<Rightarrow> int \<Rightarrow> 64 word option" where
  "SHIFTI a bits =
     (if bits > 0 then (if bits < 64 then Some (push_bit (nat bits) a) else None)
      else (if - bits < 64 then Some (signed_drop_bit (nat (- bits)) a) else None))"

text \<open>The operand of a \<open>short\<close> shift is promoted to \<open>int\<close>, and the result converted back.\<close>

definition SHIFTS :: "16 word \<Rightarrow> int \<Rightarrow> 16 word option" where
  "SHIFTS a bits =
     (let ia = (signed_take_bit 15 (uint a)) in
      if bits > 0 then (if bits < 32 then Some (word_of_int (to_int (ia * 2 ^ nat bits))) else None)
      else (if - bits < 32 then Some (word_of_int (ia div 2 ^ nat (- bits))) else None))"

definition SHIFTL :: "64 word \<Rightarrow> int \<Rightarrow> 64 word option" where
  "SHIFTL a bits =
     (if bits > 0 then (if bits < 64 then Some (push_bit (nat bits) a) else None)
      else (if - bits < 64 then Some (signed_drop_bit (nat (- bits)) a) else None))"

text \<open>The product of two \<open>int\<close>s, with the wrap-around that the routine relies on.\<close>

definition IMUL32 :: "int \<Rightarrow> int \<Rightarrow> int" where
  "IMUL32 a b = to_int (to_int a * to_int b)"

definition iand32 :: "64 word \<Rightarrow> 64 word \<Rightarrow> 64 word" where
  "iand32 a b = word_of_int (to_int (sint (signed_drop_bit 32 a)) AND to_int (sint b))"

subsection \<open>Packing integer arrays\<close>

text \<open>\<open>IPAK16\<close> converts while it copies; the others convert into a buffer and then move it.\<close>

definition IPAK16 :: "nat \<Rightarrow> nat \<Rightarrow> int \<Rightarrow> mem \<Rightarrow> mem option" where
  "IPAK16 a b nelems = conv_up CINT XSHORT id a b (nat nelems)"

fun load_all :: "cty \<Rightarrow> nat \<Rightarrow> nat \<Rightarrow> mem \<Rightarrow> int list option" where
  "load_all t p 0 m = Some []"
| "load_all t p (Suc n) m = do {
     x \<leftarrow> cload t m p;
     xs \<leftarrow> load_all t (p + csize t) n m;
     Some (x # xs) }"

definition move_in :: "mem \<Rightarrow> nat \<Rightarrow> byte list \<Rightarrow> mem option" where
  "move_in m p bs = (if p + length bs \<le> length m then Some (blit m p bs) else None)"

definition IPAK32 :: "nat \<Rightarrow> nat \<Rightarrow> int \<Rightarrow> mem \<Rightarrow> mem option" where
  "IPAK32 a b nelems m = do {
     op \<leftarrow> load_all XINT a (nat nelems) m;
     move_in m b (encs CINT op) }"

definition IUPK16 :: "nat \<Rightarrow> nat \<Rightarrow> int \<Rightarrow> mem \<Rightarrow> mem option" where
  "IUPK16 a b nelems m = do {
     op \<leftarrow> load_all XSHORT a (nat nelems) m;
     move_in m b (encs CINT op) }"

definition IUPK32 :: "nat \<Rightarrow> nat \<Rightarrow> int \<Rightarrow> mem \<Rightarrow> mem option" where
  "IUPK32 a b nelems m = do {
     op \<leftarrow> load_all CINT a (nat nelems) m;
     move_in m b (encs XINT op) }"

subsection \<open>Facts about bit fields\<close>

lemma length_bitmask [simp]: "length bitmask = 65"
  by (simp add: bitmask_def)

lemma bitmask_mask:
  assumes "n \<le> 64"
  shows "bitmask ! n = mask n"
proof -
  have "bitmask = map mask [0..<65]"
    by (simp add: bitmask_def upt_rec mask_eq_exp_minus_1)
  then have "bitmask ! n = map mask [0..<65] ! n" by (simp only:)
  also have "\<dots> = mask (0 + n)"
    by (rule nth_map_upt) (use assms in simp)
  finally show ?thesis by simp
qed

text \<open>A field is given by a one-indexed offset and a width, and lies inside the word.\<close>

definition field :: "int \<Rightarrow> int \<Rightarrow> bool" where
  "field offset nbits \<longleftrightarrow> 1 \<le> offset \<and> offset \<le> 64 \<and> 0 \<le> nbits \<and> offset - 1 + nbits \<le> 64"

lemma BITPAK_field:
  assumes "field offset nbits"
  obtains w where "BITPAK ival wordp offset nbits = Some w"
    and "\<And>k. k < 64 \<Longrightarrow> bit w k \<longleftrightarrow>
      (if nat (offset - 1) \<le> k \<and> k < nat (offset - 1) + nat nbits
       then bit ival (k - nat (offset - 1)) else bit wordp k)"
proof
  let ?s = "nat (offset - 1)"
  let ?mask = "push_bit ?s (mask (nat nbits)) :: 64 word"
  show "BITPAK ival wordp offset nbits =
      Some ((wordp AND NOT ?mask) OR (push_bit ?s ival AND ?mask))"
    using assms by (auto simp: BITPAK_def field_def Let_def bitmask_mask)
  show "bit ((wordp AND NOT ?mask) OR (push_bit ?s ival AND ?mask)) k \<longleftrightarrow>
      (if ?s \<le> k \<and> k < ?s + nat nbits then bit ival (k - ?s) else bit wordp k)"
    if "k < 64" for k
    using that by (auto simp: bit_simps)
qed

lemma BITUPK_field:
  assumes "field offset nbits"
  obtains v where "BITUPK wordp offset nbits = Some v"
    and "\<And>k. bit v k \<longleftrightarrow> k < nat nbits \<and> bit wordp (nat (offset - 1) + k)"
proof
  show "BITUPK wordp offset nbits = Some (drop_bit (nat (offset - 1)) wordp AND mask (nat nbits))"
    using assms by (auto simp: BITUPK_def field_def Let_def bitmask_mask)
  show "bit (drop_bit (nat (offset - 1)) wordp AND mask (nat nbits)) k \<longleftrightarrow>
      k < nat nbits \<and> bit wordp (nat (offset - 1) + k)" for k
  proof -
    have "bit wordp (nat (offset - 1) + k) \<Longrightarrow> k < 64"
      using bit_imp_le_length [of wordp "nat (offset - 1) + k"] by simp
    then show ?thesis by (auto simp: bit_simps)
  qed
qed

text \<open>
  C25: \<open>BITUPK\<close> reads back from a field what \<open>BITPAK\<close> put there, cut to the width of the field.
\<close>

theorem bitupk_bitpak_same:
  assumes "field offset nbits"
  shows "BITPAK ival wordp offset nbits \<bind> (\<lambda>w. BITUPK w offset nbits) = Some (take_bit (nat nbits) ival)"
proof -
  obtain w where w: "BITPAK ival wordp offset nbits = Some w"
    and bw: "\<And>k. k < 64 \<Longrightarrow> bit w k \<longleftrightarrow>
      (if nat (offset - 1) \<le> k \<and> k < nat (offset - 1) + nat nbits
       then bit ival (k - nat (offset - 1)) else bit wordp k)"
    using BITPAK_field [OF assms] by blast
  obtain v where v: "BITUPK w offset nbits = Some v"
    and bv: "\<And>k. bit v k \<longleftrightarrow> k < nat nbits \<and> bit w (nat (offset - 1) + k)"
    using BITUPK_field [OF assms] by blast
  have "v = take_bit (nat nbits) ival"
  proof (rule bit_word_eqI)
    fix k assume k: "k < LENGTH(64)"
    have "k < nat nbits \<Longrightarrow> nat (offset - 1) + k < 64"
      using assms by (auto simp: field_def)
    then show "bit v k \<longleftrightarrow> bit (take_bit (nat nbits) ival) k"
      by (auto simp: bv bw bit_simps)
  qed
  then show ?thesis by (simp add: w v)
qed

theorem bitupk_bitpak_same_witness:
  "BITPAK 0x2b 0xffff 5 4 \<bind> (\<lambda>w. BITUPK w 5 4) = Some (take_bit 4 0x2b)"
  using bitupk_bitpak_same [of 5 4 "0x2b" "0xffff"] by (simp add: field_def)

text \<open>
  \<open>BITPAK\<close> leaves every other field of the word alone.
\<close>

theorem bitupk_bitpak_other:
  assumes "field offset nbits" "field offset' nbits'"
    "offset' + nbits' \<le> offset \<or> offset + nbits \<le> offset'"
  shows "BITPAK ival wordp offset nbits \<bind> (\<lambda>w. BITUPK w offset' nbits') = BITUPK wordp offset' nbits'"
proof -
  obtain w where w: "BITPAK ival wordp offset nbits = Some w"
    and bw: "\<And>k. k < 64 \<Longrightarrow> bit w k \<longleftrightarrow>
      (if nat (offset - 1) \<le> k \<and> k < nat (offset - 1) + nat nbits
       then bit ival (k - nat (offset - 1)) else bit wordp k)"
    using BITPAK_field [OF assms(1)] by blast
  obtain v where v: "BITUPK w offset' nbits' = Some v"
    and bv: "\<And>k. bit v k \<longleftrightarrow> k < nat nbits' \<and> bit w (nat (offset' - 1) + k)"
    using BITUPK_field [OF assms(2)] by blast
  obtain u where u: "BITUPK wordp offset' nbits' = Some u"
    and bu: "\<And>k. bit u k \<longleftrightarrow> k < nat nbits' \<and> bit wordp (nat (offset' - 1) + k)"
    using BITUPK_field [OF assms(2)] by blast
  have "v = u"
  proof (rule bit_word_eqI)
    fix k assume "k < LENGTH(64)"
    show "bit v k \<longleftrightarrow> bit u k"
    proof (cases "k < nat nbits'")
      case True
      with assms have "nat (offset' - 1) + k < 64"
        "\<not> (nat (offset - 1) \<le> nat (offset' - 1) + k \<and> nat (offset' - 1) + k < nat (offset - 1) + nat nbits)"
        by (auto simp: field_def)
      then show ?thesis by (auto simp: bv bu bw)
    qed (simp add: bv bu)
  qed
  then show ?thesis by (simp add: w v u)
qed

theorem bitupk_bitpak_other_witness:
  "BITPAK 0x2b 0xffff 5 4 \<bind> (\<lambda>w. BITUPK w 9 8) = BITUPK 0xffff 9 8"
  using bitupk_bitpak_other [of 5 4 9 8 "0x2b" "0xffff"] by (simp add: field_def)

subsection \<open>Facts about shifts and packing\<close>

text \<open>
  A negative count of \<open>SHIFTI\<close> is an arithmetic shift to the right: the integer is divided by
  the power of two, rounding down, also when it is negative.
\<close>

theorem SHIFTI_right_floor:
  "0 \<le> bits \<Longrightarrow> bits < 64 \<Longrightarrow> \<exists>w. SHIFTI a (- bits) = Some w \<and> sint w = sint a div 2 ^ nat bits"
  by (simp add: SHIFTI_def sint_signed_drop_bit_eq drop_bit_eq_div)

theorem SHIFTI_right_floor_witness:
  "\<exists>w. SHIFTI (- 5) (- 1) = Some w \<and> sint w = sint (- 5 :: 64 word) div 2 ^ nat 1"
  using SHIFTI_right_floor [of 1 "- 5"] by simp

lemma IMUL32_low_bits: "take_bit 32 (IMUL32 a b) = take_bit 32 (a * b)"
proof -
  have "take_bit 32 (IMUL32 a b) = take_bit 32 (to_int a * to_int b)"
    by (simp add: IMUL32_def to_int_def take_bit_signed_take_bit)
  also have "\<dots> = take_bit 32 (take_bit 32 (to_int a) * take_bit 32 (to_int b))"
    by (simp add: take_bit_mult)
  also have "\<dots> = take_bit 32 (a * b)"
    by (simp add: to_int_def take_bit_signed_take_bit take_bit_mult)
  finally show ?thesis .
qed

lemma load_all_elems:
  "a + n * csize t \<le> length m \<Longrightarrow> load_all t a n m = Some (elems t m a n)"
  by (induction n arbitrary: a) (simp_all add: elems_Suc_first elems_def [of _ _ _ 0])

lemma buffered_array_conv:
  assumes "\<And>a b n m. conv a b n m = load_all s a (nat n) m \<bind> (\<lambda>op. move_in m b (encs t op))"
  shows "array_conv conv s t id (\<lambda>a b n. True)"
  using assms by unfold_locales (simp_all add: load_all_elems move_in_def)

interpretation ipak32: array_conv IPAK32 XINT CINT id "\<lambda>a b n. True"
  by (rule buffered_array_conv) (simp add: IPAK32_def)

interpretation iupk16: array_conv IUPK16 XSHORT CINT id "\<lambda>a b n. True"
  by (rule buffered_array_conv) (simp add: IUPK16_def)

interpretation iupk32: array_conv IUPK32 CINT XINT id "\<lambda>a b n. True"
  by (rule buffered_array_conv) (simp add: IUPK32_def)

interpretation ipak16: array_conv IPAK16 CINT XSHORT id "safe_up CINT XSHORT"
  by (rule array_conv_up) (simp_all add: IPAK16_def)

interpretation iupk32_ipak32: array_conv_pair IUPK32 CINT XINT id "\<lambda>a b n. True"
    IPAK32 id "\<lambda>a b n. True"
  by unfold_locales (simp add: widen_narrow)

text \<open>
  Unpacking 32 bit integers to \<open>XINT\<close> with \<open>IUPK32\<close> and packing them again with \<open>IPAK32\<close>
  gives the original array, also when the array is unpacked in place and wherever it is packed to.
\<close>

theorem iupk32_ipak32_in_place:
  assumes "in_range CINT n" "a + nat n * 8 \<le> length m" "c + nat n * 4 \<le> length m"
  shows "\<exists>m1 m2. IUPK32 a a n m = Some m1 \<and> IPAK32 a c n m1 = Some m2
    \<and> elems CINT m2 c (nat n) = elems CINT m a (nat n)"
proof -
  have f: "a + nat n * csize CINT \<le> length m" "a + nat n * csize XINT \<le> length m"
    "c + nat n * csize CINT \<le> length m" using assms(2,3) by auto
  from iupk32.conv_length [OF assms(1) TrueI f(1,2)] obtain m1 where m1: "IUPK32 a a n m = Some m1" by blast
  from iupk32_ipak32.round_trip [OF assms(1) TrueI f(1,2) m1 TrueI f(3)] m1 show ?thesis by blast
qed

theorem iupk32_ipak32_in_place_witness:
  "\<exists>m1 m2. IUPK32 0 0 2 (replicate 16 7) = Some m1 \<and> IPAK32 0 4 2 m1 = Some m2
    \<and> elems CINT m2 4 (nat 2) = elems CINT (replicate 16 7) 0 (nat 2)"
  by (rule iupk32_ipak32_in_place) (simp_all add: in_range_def)

end
