(* ===== verification/Spp_Strings.thy ===== *)
theory Spp_Strings
  imports Osb_Convert
begin

text \<open>
  Strings in memory: a kernel (C) string is a run of bytes ended by \<open>EOS\<close>, an SPP string a run of
  \<open>XCHAR\<close>s ended by \<open>XEOS\<close>.  The theory models the routines that convert between the two, in
  place or not: \<open>sys/osb/strpak.c\<close> and \<open>strupk.c\<close>, called from SPP, and
  \<open>sys/libc/cstrpak.c\<close> and \<open>cstrupk.c\<close>, called from C.
\<close>

subsection \<open>Strings in memory\<close>

definition kstr_at :: "mem \<Rightarrow> nat \<Rightarrow> byte list \<Rightarrow> bool" where
  "kstr_at m p s \<longleftrightarrow> p + length s < length m \<and> slice m p (Suc (length s)) = s @ [0] \<and> 0 \<notin> set s"

definition xstr_at :: "mem \<Rightarrow> nat \<Rightarrow> int list \<Rightarrow> bool" where
  "xstr_at m p s \<longleftrightarrow> p + 2 * Suc (length s) \<le> length m
     \<and> elems XCHAR m p (Suc (length s)) = s @ [0] \<and> 0 \<notin> set s"

lemma kstr_at_Nil [simp]: "kstr_at m p [] \<longleftrightarrow> p < length m \<and> m ! p = 0"
  by (auto simp: kstr_at_def slice_Suc)

lemma kstr_at_Cons [simp]:
  "kstr_at m p (c # s) \<longleftrightarrow> p < length m \<and> m ! p = c \<and> c \<noteq> 0 \<and> kstr_at m (Suc p) s"
  by (auto simp: kstr_at_def slice_Suc)

lemma xstr_at_Nil [simp]: "xstr_at m p [] \<longleftrightarrow> p + 2 \<le> length m \<and> cdec XCHAR (slice m p 2) = 0"
  by (auto simp: xstr_at_def elems_def)

lemma xstr_at_Cons [simp]:
  "xstr_at m p (x # s) \<longleftrightarrow> p + 2 \<le> length m \<and> cdec XCHAR (slice m p 2) = x \<and> x \<noteq> 0
     \<and> xstr_at m (p + 2) s"
  by (auto simp: xstr_at_def elems_Suc_first [of _ _ _ "Suc _"])

lemma kstr_at_blit:
  assumes "kstr_at m p s" "q + length bs \<le> length m" "p + length s < q \<or> q + length bs \<le> p"
  shows "kstr_at (blit m q bs) p s"
  using assms slice_blit_disjoint [of q bs m p "Suc (length s)"]
  by (auto simp: kstr_at_def blit_simps)

lemma xstr_at_blit:
  assumes "xstr_at m p s" "q + length bs \<le> length m"
    "p + 2 * Suc (length s) \<le> q \<or> q + length bs \<le> p"
  shows "xstr_at (blit m q bs) p s"
  using assms elems_blit [of q bs m p "Suc (length s)" XCHAR]
  by (auto simp: xstr_at_def blit_simps)

lemma kstr_at_new:
  assumes "p + length s < length m" "0 \<notin> set s"
  shows "kstr_at (blit m p (s @ [0])) p s"
  using assms slice_blit_same [of p "s @ [0]" m] by (simp add: kstr_at_def blit_simps)

lemma length_take_snoc: "length (take (Suc k) (s @ [y])) = Suc (min k (length s))"
  by (simp del: take_append)

subsection \<open>\<open>STRPAK\<close>\<close>

text \<open>
  The loop \<open>while ((*op++ = *ip++) != XEOS && --n >= 0);\<close>.  The value tested is that of the
  assignment, which is the byte stored, not the \<open>XCHAR\<close> read.
\<close>

function strpak_loop :: "nat \<Rightarrow> nat \<Rightarrow> int \<Rightarrow> mem \<Rightarrow> (mem \<times> nat) option" where
  "strpak_loop ip op n m = do {
     x \<leftarrow> cload XCHAR m ip;
     m' \<leftarrow> wr m op (word_of_int x);
     (if (word_of_int x :: byte) \<noteq> 0 \<and> 0 \<le> n - 1 then strpak_loop (ip + 2) (op + 1) (n - 1) m'
      else Some (m', op + 1)) }"
  by pat_completeness auto
termination
  by (relation "measure (\<lambda>(ip, op, n, m). nat n)") auto

declare strpak_loop.simps [simp del]

definition STRPAK :: "nat \<Rightarrow> nat \<Rightarrow> int \<Rightarrow> mem \<Rightarrow> mem option" where
  "STRPAK instr outstr maxch m = do {
     (m', op) \<leftarrow> strpak_loop instr outstr (to_int maxch) m;
     wr m' (op - 1) 0 }"

lemma strpak_loop_correct:
  assumes "xstr_at m ip s" "\<forall>x \<in> set s. (word_of_int x :: byte) \<noteq> 0" "0 \<le> n"
    "op \<le> ip \<or> ip + 2 * Suc (length s) \<le> op" "op + min (nat n) (length s) < length m"
  shows "strpak_loop ip op n m =
    Some (blit m op (map word_of_int (take (Suc (nat n)) (s @ [0]))),
          Suc (op + min (nat n) (length s)))"
  using assms
proof (induction s arbitrary: ip op n m)
  case Nil
  then show ?case by (subst strpak_loop.simps) (simp add: list_update_blit)
next
  case (Cons x s)
  let ?m = "blit m op [word_of_int x]"
  have lt: "op < length m" using Cons.prems by simp
  show ?case
  proof (cases "n = 0")
    case True
    with Cons.prems show ?thesis
      by (subst strpak_loop.simps) (simp add: list_update_blit)
  next
    case False
    with Cons.prems have n: "0 \<le> n - 1" "nat n = Suc (nat (n - 1))" by auto
    have tail: "xstr_at ?m (ip + 2) s"
      using Cons.prems lt by (intro xstr_at_blit) auto
    have room: "op + 1 + min (nat (n - 1)) (length s) < length m"
      using Cons.prems n by simp
    have "strpak_loop (ip + 2) (op + 1) (n - 1) ?m =
        Some (blit ?m (op + 1) (map word_of_int (take (Suc (nat (n - 1))) (s @ [0]))),
              Suc (op + 1 + min (nat (n - 1)) (length s)))"
      using Cons.prems tail n room lt by (intro Cons.IH) (auto simp: blit_simps)
    moreover have "blit ?m (op + 1) (map word_of_int (take (Suc (nat (n - 1))) (s @ [0])))
        = blit m op (map word_of_int (take (Suc (nat n)) ((x # s) @ [0])))"
    proof -
      let ?ys = "map word_of_int (take (Suc (nat (n - 1))) (s @ [0])) :: byte list"
      have "op + length [word_of_int x :: byte] + length ?ys \<le> length m"
        using room by (simp add: length_take_snoc del: take_append)
      from blit_blit_append [OF this] show ?thesis by (simp add: n)
    qed
    ultimately show ?thesis
      using Cons.prems n lt
      by (subst strpak_loop.simps) (simp add: list_update_blit)
  qed
qed

text \<open>
  Packing stores the low bytes of at most \<open>maxch\<close> characters and always ends the string; it is
  safe in place, and needs \<open>min maxch (length s) + 1\<close> bytes of room.
\<close>

lemma STRPAK_correct:
  assumes "xstr_at m instr s" "\<forall>x \<in> set s. (word_of_int x :: byte) \<noteq> 0"
    "0 \<le> maxch" "in_range CINT maxch"
    "outstr \<le> instr \<or> instr + 2 * Suc (length s) \<le> outstr"
    "outstr + min (nat maxch) (length s) < length m"
  shows "STRPAK instr outstr maxch m =
    Some (blit m outstr (map word_of_int (take (nat maxch) s) @ [0]))"
proof -
  let ?k = "min (nat maxch) (length s)"
  let ?xs = "map word_of_int (take (nat maxch) s) :: byte list"
  obtain z where z: "take (Suc (nat maxch)) (s @ [0]) = take (nat maxch) s @ [z]"
    using take_snoc_snoc [of "nat maxch" s 0] by blast
  have k: "length ?xs = ?k" by simp
  have "STRPAK instr outstr maxch m = wr (blit m outstr (?xs @ [word_of_int z])) (outstr + length ?xs) 0"
    using strpak_loop_correct [OF assms(1,2,3,5,6)] assms(4) k
    by (simp add: STRPAK_def z del: take_append)
  also have "\<dots> = Some ((blit m outstr (?xs @ [word_of_int z]))[outstr + length ?xs := 0])"
    using assms(6) k by (intro wr_Some) (simp add: blit_simps)
  also have "\<dots> = Some (blit m outstr (?xs @ [0]))"
    using blit_snoc_update [of outstr ?xs m] assms(6) by (simp only: k)
  finally show ?thesis .
qed

subsection \<open>\<open>STRUPK\<close>\<close>

text \<open>
  \<open>for (n=0;  *ip++;  n++);\<close> counts the string; the copy then runs from right to left, so
  that it may widen the string in place.  The \<open>XCHAR\<close> stored is the byte as a signed \<open>char\<close>.
\<close>

function count_loop :: "nat \<Rightarrow> nat \<Rightarrow> mem \<Rightarrow> nat option" where
  "count_loop ip n m = (case rd m ip of None \<Rightarrow> None
     | Some c \<Rightarrow> if c \<noteq> 0 then count_loop (ip + 1) (n + 1) m else Some n)"
  by pat_completeness auto
termination
  by (relation "measure (\<lambda>(ip, n, m). length m - ip)") (auto dest: rd_SomeD)

declare count_loop.simps [simp del]

fun upk_loop :: "nat \<Rightarrow> nat \<Rightarrow> nat \<Rightarrow> mem \<Rightarrow> mem option" where
  "upk_loop instr op 0 m = Some m"
| "upk_loop instr op (Suc n) m = do {
     c \<leftarrow> rd m (instr + n);
     m' \<leftarrow> cstore XCHAR m (op + 2 * n) (sint c);
     upk_loop instr op n m' }"

definition STRUPK :: "nat \<Rightarrow> nat \<Rightarrow> int \<Rightarrow> mem \<Rightarrow> mem option" where
  "STRUPK instr outstr maxch m = do {
     n0 \<leftarrow> count_loop instr 0 m;
     let n = (if int n0 < maxch then int n0 else to_int maxch);
     opn \<leftarrow> padd outstr (2 * n);
     m1 \<leftarrow> cstore XCHAR m opn 0;
     m2 \<leftarrow> upk_loop instr outstr (nat n) m1;
     opm \<leftarrow> padd outstr (2 * maxch);
     cstore XCHAR m2 opm 0 }"

lemma count_loop_correct: "kstr_at m ip s \<Longrightarrow> count_loop ip n m = Some (n + length s)"
proof (induction s arbitrary: ip n)
  case Nil
  then show ?case by (subst count_loop.simps) simp
next
  case (Cons c s)
  then have "count_loop (ip + 1) (n + 1) m = Some (n + 1 + length s)" by simp
  with Cons.prems show ?case by (subst count_loop.simps) simp
qed

lemma upk_loop_correct:
  assumes "instr + n \<le> length m" "op + 2 * n \<le> length m"
    "instr \<le> op \<or> op + 2 * n \<le> instr"
  shows "upk_loop instr op n m = Some (blit m op (encs XCHAR (map sint (slice m instr n))))"
  using assms
proof (induction n arbitrary: m)
  case 0
  then show ?case by simp
next
  case (Suc n)
  let ?x = "sint (m ! (instr + n))"
  let ?m = "blit m (op + 2 * n) (cenc XCHAR ?x)"
  have "upk_loop instr op (Suc n) m = upk_loop instr op n ?m"
    using Suc.prems by simp
  also have "\<dots> = Some (blit ?m op (encs XCHAR (map sint (slice ?m instr n))))"
    using Suc.prems by (intro Suc.IH) (auto simp: blit_simps)
  also have "slice ?m instr n = slice m instr n"
    using Suc.prems by (intro slice_blit_disjoint) auto
  also have "blit ?m op (encs XCHAR (map sint (slice m instr n)))
      = blit m op (encs XCHAR (map sint (slice m instr n)) @ cenc XCHAR ?x)"
    using Suc.prems by (intro blit_blit_prepend) (auto simp: length_slice)
  also have "slice m instr (Suc n) = slice m instr n @ [m ! (instr + n)]"
    using slice_add [of m instr n 1] slice_Suc [of "instr + n" m 0] Suc.prems by simp
  ultimately show ?case by simp
qed

lemma kstr_at_take:
  assumes "kstr_at m p s" "k \<le> length s"
  shows "slice m p k = take k s"
proof -
  have "slice m p k = take k (slice m p (Suc (length s)))"
    using assms(2) by (simp add: take_slice)
  also have "\<dots> = take k s"
    using assms by (simp add: kstr_at_def)
  finally show ?thesis .
qed

text \<open>
  Unpacking widens each byte, ends the string after \<open>min maxch (length s)\<close> characters, and also
  writes an \<open>XEOS\<close> at index \<open>maxch\<close>; it is safe in place.
\<close>

lemma STRUPK_correct:
  fixes s maxch defines "k \<equiv> min (length s) (nat maxch)"
  assumes "kstr_at m instr s" "0 \<le> maxch" "in_range CINT maxch"
    "instr \<le> outstr \<or> outstr + 2 * Suc k \<le> instr"
    "outstr + 2 * nat maxch + 2 \<le> length m"
  shows "STRUPK instr outstr maxch m =
    Some (blit (blit m outstr (encs XCHAR (map sint (take k s) @ [0])))
            (outstr + 2 * nat maxch) (cenc XCHAR 0))"
proof -
  let ?m1 = "blit m (outstr + 2 * k) (cenc XCHAR 0)"
  let ?xs = "map sint (take k s) :: int list"
  have fits: "instr + k \<le> length m" "outstr + 2 * k + 2 \<le> length m"
    using assms by (auto simp: kstr_at_def k_def)
  have src: "slice ?m1 instr k = take k s"
  proof -
    have "slice ?m1 instr k = slice m instr k"
      using fits assms(5) by (intro slice_blit_disjoint) auto
    also have "\<dots> = take k s"
      using assms(2) by (rule kstr_at_take) (simp add: k_def)
    finally show ?thesis .
  qed
  have "upk_loop instr outstr k ?m1 = Some (blit ?m1 outstr (encs XCHAR (map sint (slice ?m1 instr k))))"
    using fits assms(5) by (intro upk_loop_correct) (auto simp: blit_simps)
  also have "blit ?m1 outstr (encs XCHAR (map sint (slice ?m1 instr k)))
      = blit m outstr (encs XCHAR ?xs @ cenc XCHAR 0)"
    unfolding src using fits by (intro blit_blit_prepend) (auto simp: k_def)
  finally have loop: "upk_loop instr outstr k ?m1 = Some (blit m outstr (encs XCHAR (?xs @ [0])))"
    by simp
  have n: "(if int (length s) < maxch then int (length s) else to_int maxch) = int k"
    using assms by (auto simp: k_def min_def)
  show ?thesis
    using count_loop_correct [OF assms(2), of 0] assms(3-6) fits loop
    by (simp add: STRUPK_def Let_def n nat_add_distrib nat_mult_distrib blit_simps k_def padd_Some)
qed

subsection \<open>There and back\<close>

lemma sint_byte_zero: "sint (c :: byte) = 0 \<longleftrightarrow> c = 0"
  by (metis signed_0 signed_word_eqI)

lemma sint_byte_in_range: "- 32768 \<le> sint (c :: byte) \<and> sint c < 32768"
  using sint_range_size [of c] by (simp add: word_size)

text \<open>
  C21: A C string unpacked to an SPP string in place by \<open>STRUPK\<close>, and packed again in place by
  \<open>STRPAK\<close>, is the same C string, when the array has room for it in its wide form.
\<close>

theorem strupk_strpak_in_place:
  assumes "kstr_at m p s" "0 \<le> maxch" "in_range CINT maxch" "int (length s) \<le> maxch"
    "p + 2 * nat maxch + 2 \<le> length m"
  shows "\<exists>m1 m2. STRUPK p p maxch m = Some m1 \<and> STRPAK p p maxch m1 = Some m2 \<and> kstr_at m2 p s"
proof -
  let ?xs = "map sint s :: int list"
  let ?m0 = "blit m p (encs XCHAR (?xs @ [0]))"
  let ?m1 = "blit ?m0 (p + 2 * nat maxch) (cenc XCHAR 0)"
  have k: "length s \<le> nat maxch" using assms(4) by simp
  have up: "STRUPK p p maxch m = Some ?m1"
    using STRUPK_correct [OF assms(1-3), of p] assms(5) k by (simp add: min_def)
  have len: "length ?m0 = length m" "length ?m1 = length m"
    using assms(5) k by (simp_all add: blit_simps)
  have e0: "elems XCHAR ?m0 p (Suc (length s)) = ?xs @ [0]"
  proof -
    have "p + length (?xs @ [0]) * csize XCHAR \<le> length m" using assms(5) k by simp
    from elems_encs [OF this]
    have "elems XCHAR ?m0 p (Suc (length s)) = map (\<lambda>x. cdec XCHAR (cenc XCHAR x)) (?xs @ [0])" by simp
    also have "\<dots> = ?xs @ [0]"
      using sint_byte_in_range by (intro map_idI) (auto simp: cdec_cenc in_range_def)
    finally show ?thesis .
  qed
  have "elems XCHAR ?m1 p (Suc (length s)) = ?xs @ [0]"
  proof (cases "length s = nat maxch")
    case True
    let ?b = "blit m p (encs XCHAR ?xs)"
    have "?m0 = blit ?b (p + 2 * nat maxch) (cenc XCHAR 0)"
      using blit_blit_append [of p "encs XCHAR ?xs" "cenc XCHAR 0" m] assms(5) True by (simp add: mult.commute)
    then have "?m1 = ?m0"
      using assms(5) True by (simp add: blit_blit_same blit_simps)
    with e0 show ?thesis by simp
  next
    case False
    have "elems XCHAR ?m1 p (Suc (length s)) = elems XCHAR ?m0 p (Suc (length s))"
      using assms(5) k False len by (intro elems_blit) auto
    with e0 show ?thesis by simp
  qed
  moreover have nz: "0 \<notin> set s" using assms(1) by (simp add: kstr_at_def)
  ultimately have x: "xstr_at ?m1 p ?xs"
    using assms(5) k len by (auto simp: xstr_at_def sint_byte_zero)
  have repack: "map word_of_int ?xs = s" by (simp add: comp_def map_idI)
  have "STRPAK p p maxch ?m1 = Some (blit ?m1 p (map word_of_int (take (nat maxch) ?xs) @ [0]))"
    using assms(5) k len nz by (intro STRPAK_correct x assms(2,3)) auto
  also have "take (nat maxch) ?xs = ?xs" using k by simp
  finally have "STRPAK p p maxch ?m1 = Some (blit ?m1 p (s @ [0]))" unfolding repack .
  with up kstr_at_new [of p s ?m1] assms(5) k len nz show ?thesis by simp
qed

theorem strupk_strpak_in_place_witness:
  "\<exists>m1 m2. STRUPK 0 0 3 [65, 200, 0, 9, 9, 9, 9, 9] = Some m1 \<and> STRPAK 0 0 3 m1 = Some m2
    \<and> kstr_at m2 0 [65, 200]"
  by (rule strupk_strpak_in_place) (simp_all add: in_range_def)

end
