(* ===== verification/Tar_Format.thy ===== *)
theory Tar_Format
  imports C_Memory
begin

text \<open>
  The archive header shared by \<open>unix/boot/wtar/wtar.c\<close> and \<open>unix/boot/rtar/rtar.c\<close>: its layout,
  the two directions of its octal number fields (\<open>snprintf\<close> with \<open>%6o\<close> and \<open>%11lo\<close>, \<open>sscanf\<close> with
  \<open>%o\<close> and \<open>%lo\<close>, as the C standard defines them), the checksum, and the encoder of \<open>wtar\<close>.  A string
  field of the decoded header is the C string it holds, without the final \<open>EOS\<close>.
\<close>

abbreviation TBLOCK :: nat where "TBLOCK \<equiv> 512"
abbreviation NBLOCK :: nat where "NBLOCK \<equiv> 20"
abbreviation NAMSIZ :: nat where "NAMSIZ \<equiv> 100"
abbreviation SZ_TAPEBUFFER :: nat where "SZ_TAPEBUFFER \<equiv> 10240"
abbreviation LF_LINK :: int where "LF_LINK \<equiv> 1"
abbreviation LF_SYMLINK :: int where "LF_SYMLINK \<equiv> 2"
abbreviation LF_DIR :: int where "LF_DIR \<equiv> 5"

record fheader =
  fh_name :: "byte list"
  fh_mode :: int
  fh_uid :: int
  fh_gid :: int
  fh_isdir :: bool
  fh_size :: int
  fh_mtime :: int
  fh_linkflag :: int
  fh_linkname :: "byte list"

text \<open>Byte offsets of the fields of \<open>union hblock\<close>.\<close>

abbreviation "OFF_name \<equiv> (0 :: nat)"
abbreviation "OFF_mode \<equiv> (100 :: nat)"
abbreviation "OFF_uid \<equiv> (108 :: nat)"
abbreviation "OFF_gid \<equiv> (116 :: nat)"
abbreviation "OFF_size \<equiv> (124 :: nat)"
abbreviation "OFF_mtime \<equiv> (136 :: nat)"
abbreviation "OFF_chksum \<equiv> (148 :: nat)"
abbreviation "OFF_linkflag \<equiv> (156 :: nat)"
abbreviation "OFF_linkname \<equiv> (157 :: nat)"

subsection \<open>Octal numbers\<close>

fun oct_digits :: "nat \<Rightarrow> byte list" where
  "oct_digits n = (if n < 8 then [word_of_nat (48 + n)]
     else oct_digits (n div 8) @ [word_of_nat (48 + n mod 8)])"

declare oct_digits.simps [simp del]

text \<open>\<open>snprintf (buf, sz, "%<width>o<suffix>", n)\<close>: the bytes written, the \<open>EOS\<close> included.\<close>

definition snprintf_o :: "nat \<Rightarrow> nat \<Rightarrow> byte list \<Rightarrow> nat \<Rightarrow> byte list" where
  "snprintf_o sz width suffix n =
     (let ds = oct_digits n
      in take (sz - 1) (replicate (width - length ds) 32 @ ds @ suffix) @ [0])"

definition is_space :: "byte \<Rightarrow> bool" where
  "is_space c \<longleftrightarrow> c = 32 \<or> 9 \<le> c \<and> c \<le> 13"

definition is_odigit :: "byte \<Rightarrow> bool" where
  "is_odigit c \<longleftrightarrow> 48 \<le> c \<and> c \<le> 55"

definition oct_value :: "byte list \<Rightarrow> nat" where
  "oct_value ds = foldl (\<lambda>v c. 8 * v + (unat c - 48)) 0 ds"

text \<open>
  \<open>sscanf (s, "%o", &v)\<close>: blanks, an optional sign, octal digits; no digits, no conversion.  The
  value saturates at \<open>ULONG_MAX\<close>, as \<open>strtoul\<close> does.
\<close>

definition scan_oct :: "byte list \<Rightarrow> int option" where
  "scan_oct s =
     (let s1 = dropWhile is_space s;
          neg = (s1 \<noteq> [] \<and> hd s1 = 45);
          s2 = (if s1 \<noteq> [] \<and> (hd s1 = 45 \<or> hd s1 = 43) then tl s1 else s1);
          ds = takeWhile is_odigit s2;
          v = min (int (oct_value ds)) (2 ^ 64 - 1)
      in if ds = [] then None else Some (if neg then - v else v))"

definition sscanf_o :: "int \<Rightarrow> byte list \<Rightarrow> int" where
  "sscanf_o old s = (case scan_oct s of None \<Rightarrow> old | Some v \<Rightarrow> to_int v)"

definition sscanf_lo :: "int \<Rightarrow> byte list \<Rightarrow> int" where
  "sscanf_lo old s = (case scan_oct s of None \<Rightarrow> old | Some v \<Rightarrow> to_long v)"

subsection \<open>The checksum\<close>

text \<open>\<open>for (sum=0;  --nbytes >= 0;  ) sum += *p++;\<close>, over signed \<open>char\<close>s.\<close>

fun cchksum_loop :: "byte list \<Rightarrow> int \<Rightarrow> int" where
  "cchksum_loop [] sm = sm"
| "cchksum_loop (c # p) sm = cchksum_loop p (to_int (sm + sint c))"

definition cchksum :: "byte list \<Rightarrow> int" where
  "cchksum p = cchksum_loop p 0"

subsection \<open>The encoder: \<open>putheader\<close>\<close>

text \<open>\<open>strncpy (dst, s, n)\<close> writes exactly \<open>n\<close> bytes.\<close>

definition strncpy_bytes :: "byte list \<Rightarrow> nat \<Rightarrow> byte list" where
  "strncpy_bytes s n = take n (s @ replicate n 0)"

text \<open>The \<open>unsigned\<close> value that \<open>%o\<close> prints for an \<open>int\<close> argument, and \<open>%lo\<close> for a \<open>long\<close>.\<close>

definition arg_o :: "int \<Rightarrow> nat" where
  "arg_o x = nat (to_uint x)"

definition arg_lo :: "int \<Rightarrow> nat" where
  "arg_lo x = nat (to_ulong x)"

text \<open>
  The header block that \<open>putheader\<close> builds, up to the point where the checksum field is blanked
  and the checksum computed; then the block it hands to \<open>putblock\<close>.  The local buffer
  \<open>chksum[10]\<close> is not initialised: \<open>junk\<close> is what it holds, and the eighth byte of the checksum
  field is taken from it.
\<close>

definition header_image :: "fheader \<Rightarrow> byte list" where
  "header_image fh =
     (let hb = replicate TBLOCK 0;
          hb = blit hb OFF_name (strncpy_bytes (fh_name fh) (NAMSIZ - 1));
          hb = blit hb OFF_mode (snprintf_o 8 6 [32] (arg_o (fh_mode fh)));
          hb = blit hb OFF_uid (snprintf_o 8 6 [32] (arg_o (fh_uid fh)));
          hb = blit hb OFF_gid (snprintf_o 8 6 [32] (arg_o (fh_gid fh)));
          hb = blit hb OFF_size (snprintf_o 12 11 [32] (arg_lo (fh_size fh)));
          hb = blit hb OFF_mtime (snprintf_o 12 11 [32] (arg_lo (fh_mtime fh)));
          hb = hb[OFF_linkflag := (if fh_linkflag fh = LF_SYMLINK then 50
                                   else if fh_linkflag fh = LF_DIR then 53 else 48)];
          hb = blit hb OFF_linkname (strncpy_bytes (fh_linkname fh) (NAMSIZ - 1))
      in blit hb OFF_chksum (replicate 8 32))"

definition header_block :: "byte list \<Rightarrow> fheader \<Rightarrow> byte list" where
  "header_block junk fh =
     (let hb = header_image fh;
          chksum = blit junk 0 (snprintf_o 8 6 [] (arg_o (cchksum hb)))
      in blit hb OFF_chksum (take 8 chksum))"

subsection \<open>Facts about octal numbers\<close>

lemma unat_odigit: "k < 8 \<Longrightarrow> unat (word_of_nat (48 + k) :: byte) = 48 + k"
  by (subst unat_of_nat) (simp add: take_bit_nat_eq_self_iff)

lemma is_odigit_digit: "k < 8 \<Longrightarrow> is_odigit (word_of_nat (48 + k))"
  by (simp add: is_odigit_def word_le_nat_alt unat_odigit del: of_nat_add)

lemma oct_digits_set: "c \<in> set (oct_digits n) \<Longrightarrow> is_odigit c"
proof (induction n rule: oct_digits.induct)
  case (1 n)
  note d = is_odigit_digit
  show ?case
  proof (cases "n < 8")
    case True
    with "1.prems" d show ?thesis by (subst (asm) oct_digits.simps) (simp del: of_nat_add)
  next
    case False
    with "1.prems" have "c \<in> set (oct_digits (n div 8)) \<or> c = word_of_nat (48 + n mod 8)"
      by (subst (asm) oct_digits.simps) (auto simp del: of_nat_add)
    with "1.IH" False d [of "n mod 8"] show ?thesis by auto
  qed
qed

lemma oct_digits_nonempty [simp]: "oct_digits n \<noteq> []"
  by (subst oct_digits.simps) simp

lemma oct_value_snoc: "oct_value (ds @ [c]) = 8 * oct_value ds + (unat c - 48)"
  by (simp add: oct_value_def)

lemma oct_value_digits [simp]: "oct_value (oct_digits n) = n"
proof (induction n rule: oct_digits.induct)
  case (1 n)
  note d = unat_odigit
  show ?case
  proof (cases "n < 8")
    case True
    with d show ?thesis by (subst oct_digits.simps) (simp add: oct_value_def del: of_nat_add)
  next
    case False
    with "1.IH" d [of "n mod 8"] show ?thesis
      by (subst oct_digits.simps) (simp add: oct_value_snoc del: of_nat_add)
  qed
qed

lemma length_oct_digits: "0 < k \<Longrightarrow> n < 8 ^ k \<Longrightarrow> length (oct_digits n) \<le> k"
proof (induction n arbitrary: k rule: oct_digits.induct)
  case (1 n)
  show ?case
  proof (cases "n < 8")
    case True
    with "1.prems" show ?thesis by (subst oct_digits.simps) simp
  next
    case False
    with "1.prems" obtain j where k: "k = Suc j" "0 < j"
      by (cases k; cases "k - 1") auto
    with False "1.prems" have "length (oct_digits (n div 8)) \<le> j"
      by (intro "1.IH") (auto simp: less_mult_imp_div_less mult.commute)
    with False k show ?thesis by (subst oct_digits.simps) simp
  qed
qed

lemma oct_value_takeWhile:
  assumes "rest = [] \<or> \<not> is_odigit (hd rest)"
  shows "takeWhile is_odigit (oct_digits n @ rest) = oct_digits n"
  using assms oct_digits_set by (cases rest) (auto simp: takeWhile_append)

lemma is_odigitD: "is_odigit c \<Longrightarrow> \<not> is_space c \<and> c \<noteq> 45 \<and> c \<noteq> 43"
  by (auto simp: is_odigit_def is_space_def word_le_nat_alt)

text \<open>What \<open>%o\<close> prints, \<open>sscanf\<close> reads back, whatever follows the number.\<close>

lemma scan_oct_digits:
  assumes "n < 2 ^ 64" "rest = [] \<or> \<not> is_odigit (hd rest)"
  shows "scan_oct (replicate j 32 @ oct_digits n @ rest) = Some (int n)"
proof -
  have hd: "is_odigit (hd (oct_digits n))"
    by (rule oct_digits_set, rule hd_in_set) simp
  have "dropWhile is_space (replicate j 32 @ oct_digits n @ rest) = oct_digits n @ rest"
    using hd by (cases "oct_digits n") (auto simp: dropWhile_append dest: is_odigitD; simp add: is_space_def)+
  moreover have "hd (oct_digits n @ rest) \<noteq> 45" "hd (oct_digits n @ rest) \<noteq> 43"
    using hd is_odigitD by auto
  ultimately show ?thesis
    using assms by (simp add: scan_oct_def oct_value_takeWhile)
qed

lemma length_snprintf_o: "0 < sz \<Longrightarrow> sz - 1 \<le> width + length suffix \<Longrightarrow> length (snprintf_o sz width suffix n) = sz"
  by (auto simp: snprintf_o_def Let_def min_def)

lemma length_strncpy_bytes [simp]: "length (strncpy_bytes s n) = n"
  by (simp add: strncpy_bytes_def)

text \<open>A number of at most \<open>sz - 1\<close> digits is in the field, followed by a blank or the \<open>EOS\<close>.\<close>

lemma snprintf_o_layout:
  assumes "length (oct_digits n) < sz" "width < sz" "suffix = [] \<or> suffix = [32]"
  shows "\<exists>j tl. snprintf_o sz width suffix n = replicate j 32 @ oct_digits n @ tl
    \<and> tl \<noteq> [] \<and> \<not> is_odigit (hd tl)"
proof -
  let ?j = "width - length (oct_digits n)"
  let ?tl = "take (sz - 1 - (?j + length (oct_digits n))) suffix @ [0 :: byte]"
  have "snprintf_o sz width suffix n = replicate ?j 32 @ oct_digits n @ ?tl"
    using assms by (auto simp: snprintf_o_def Let_def)
  moreover have "\<not> is_odigit (hd ?tl)"
    using assms(3) by (cases "sz - 1 - (?j + length (oct_digits n))") (auto simp: is_odigit_def word_le_nat_alt)
  ultimately show ?thesis by blast
qed

lemma scan_snprintf_o:
  assumes "n < 8 ^ (sz - 1)" "1 < sz" "width < sz" "suffix = [] \<or> suffix = [32]" "n < 2 ^ 64"
  shows "scan_oct (snprintf_o sz width suffix n @ rest) = Some (int n)"
proof -
  have "length (oct_digits n) < sz"
    using length_oct_digits [of "sz - 1" n] assms(1,2) by simp
  with assms snprintf_o_layout obtain j tl where
    "snprintf_o sz width suffix n = replicate j 32 @ oct_digits n @ tl" "tl \<noteq> []" "\<not> is_odigit (hd tl)"
    by blast
  with scan_oct_digits [OF assms(5), of "tl @ rest" j] show ?thesis by simp
qed

subsection \<open>The layout of a header block\<close>

lemma blit_zeros:
  assumes "length xs \<le> p" "p + length bs \<le> length xs + r"
  shows "blit (xs @ replicate r 0) p bs =
    (xs @ replicate (p - length xs) 0 @ bs) @ replicate (length xs + r - (p + length bs)) 0"
  using assms by (auto simp: blit_def min_def add.commute)

lemma blit_middle: "length xs = p \<Longrightarrow> length ys = length bs \<Longrightarrow> blit (xs @ ys @ zs) p bs = xs @ bs @ zs"
  by (simp add: blit_def)

text \<open>The block as the concatenation of its fields.\<close>

definition header_layout :: "fheader \<Rightarrow> byte list \<Rightarrow> byte list" where
  "header_layout fh chk =
     strncpy_bytes (fh_name fh) 99 @ [0] @ snprintf_o 8 6 [32] (arg_o (fh_mode fh))
     @ snprintf_o 8 6 [32] (arg_o (fh_uid fh)) @ snprintf_o 8 6 [32] (arg_o (fh_gid fh))
     @ snprintf_o 12 11 [32] (arg_lo (fh_size fh)) @ snprintf_o 12 11 [32] (arg_lo (fh_mtime fh))
     @ chk
     @ [if fh_linkflag fh = LF_SYMLINK then 50 else if fh_linkflag fh = LF_DIR then 53 else 48]
     @ strncpy_bytes (fh_linkname fh) 99 @ replicate 256 0"

lemma header_image_layout: "header_image fh = header_layout fh (replicate 8 32)"
proof -
  let ?n = "strncpy_bytes (fh_name fh) 99" and ?l = "strncpy_bytes (fh_linkname fh) 99"
  let ?m = "snprintf_o 8 6 [32] (arg_o (fh_mode fh))" and ?u = "snprintf_o 8 6 [32] (arg_o (fh_uid fh))"
  let ?g = "snprintf_o 8 6 [32] (arg_o (fh_gid fh))"
  let ?s = "snprintf_o 12 11 [32] (arg_lo (fh_size fh))" and ?t = "snprintf_o 12 11 [32] (arg_lo (fh_mtime fh))"
  let ?f = "if fh_linkflag fh = LF_SYMLINK then 50 else if fh_linkflag fh = LF_DIR then 53 else 48 :: byte"
  note len = length_snprintf_o length_strncpy_bytes
  define xs where "xs = ((((?n @ [0] @ ?m) @ ?u) @ ?g) @ ?s) @ ?t"
  have lxs: "length xs = 148" by (simp add: xs_def len)
  have 1: "blit (replicate TBLOCK 0) OFF_name ?n = ?n @ replicate 413 0"
    using blit_zeros [of "[]" 0 ?n 512] by (simp add: len)
  have 2: "blit (?n @ replicate 413 0) OFF_mode ?m = (?n @ [0] @ ?m) @ replicate 404 0"
    using blit_zeros [of ?n 100 ?m 413] by (simp add: len)
  have 3: "blit ((?n @ [0] @ ?m) @ replicate 404 0) OFF_uid ?u = ((?n @ [0] @ ?m) @ ?u) @ replicate 396 0"
    using blit_zeros [of "?n @ [0] @ ?m" 108 ?u 404] by (simp add: len)
  have 4: "blit (((?n @ [0] @ ?m) @ ?u) @ replicate 396 0) OFF_gid ?g
      = (((?n @ [0] @ ?m) @ ?u) @ ?g) @ replicate 388 0"
    using blit_zeros [of "(?n @ [0] @ ?m) @ ?u" 116 ?g 396] by (simp add: len)
  have 5: "blit ((((?n @ [0] @ ?m) @ ?u) @ ?g) @ replicate 388 0) OFF_size ?s
      = ((((?n @ [0] @ ?m) @ ?u) @ ?g) @ ?s) @ replicate 376 0"
    using blit_zeros [of "((?n @ [0] @ ?m) @ ?u) @ ?g" 124 ?s 388] by (simp add: len)
  have 6: "blit (((((?n @ [0] @ ?m) @ ?u) @ ?g) @ ?s) @ replicate 376 0) OFF_mtime ?t = xs @ replicate 364 0"
    using blit_zeros [of "(((?n @ [0] @ ?m) @ ?u) @ ?g) @ ?s" 136 ?t 376] by (simp add: len xs_def)
  have 7: "(xs @ replicate 364 0)[OFF_linkflag := ?f] = (xs @ replicate 8 0 @ [?f]) @ replicate 355 0"
    using blit_zeros [of xs 156 "[?f]" 364] lxs list_update_blit [of 156 "xs @ replicate 364 0" ?f] by simp
  have 8: "blit ((xs @ replicate 8 0 @ [?f]) @ replicate 355 0) OFF_linkname ?l
      = (xs @ replicate 8 0 @ [?f] @ ?l) @ replicate 256 0"
    using blit_zeros [of "xs @ replicate 8 0 @ [?f]" 157 ?l 355] lxs by (simp add: len)
  have 9: "blit ((xs @ replicate 8 0 @ [?f] @ ?l) @ replicate 256 0) OFF_chksum (replicate 8 32)
      = xs @ replicate 8 32 @ [?f] @ ?l @ replicate 256 0"
    using blit_middle [of xs 148 "replicate 8 0" "replicate 8 32"] lxs by simp
  have n99: "NAMSIZ - 1 = 99" by simp
  show ?thesis
    unfolding header_image_def header_layout_def Let_def n99 1 2 3 4 5 6 7 8 9
    unfolding xs_def append_assoc append_Cons append_Nil ..
qed

lemma length_header_layout: "length chk = 8 \<Longrightarrow> length (header_layout fh chk) = TBLOCK"
  by (simp add: header_layout_def length_snprintf_o)

lemma blit_chksum:
  assumes "length chk = 8" "length chk' = 8"
  shows "blit (header_layout fh chk) OFF_chksum chk' = header_layout fh chk'"
proof -
  let ?pre = "strncpy_bytes (fh_name fh) 99 @ [0] @ snprintf_o 8 6 [32] (arg_o (fh_mode fh))
     @ snprintf_o 8 6 [32] (arg_o (fh_uid fh)) @ snprintf_o 8 6 [32] (arg_o (fh_gid fh))
     @ snprintf_o 12 11 [32] (arg_lo (fh_size fh)) @ snprintf_o 12 11 [32] (arg_lo (fh_mtime fh))"
  have "length ?pre = 148" by (simp add: length_snprintf_o)
  from blit_middle [OF this, of chk chk'] assms show ?thesis by (simp add: header_layout_def)
qed

lemma header_block_layout:
  assumes "length junk = 10"
  obtains chk where "header_block junk fh = header_layout fh chk" "length chk = 8"
    "chk = take 8 (snprintf_o 8 6 [] (arg_o (cchksum (header_image fh))) @ [junk ! 7])
     \<or> chk = snprintf_o 8 6 [] (arg_o (cchksum (header_image fh)))"
proof -
  let ?ck = "snprintf_o 8 6 [] (arg_o (cchksum (header_image fh)))"
  let ?chk = "take 8 (blit junk 0 ?ck)"
  have len: "length ?ck = 7 \<or> length ?ck = 8"
    by (auto simp: snprintf_o_def Let_def min_def)
  then have l8: "length ?chk = 8" using assms by (auto simp: blit_def)
  have "drop 7 junk = junk ! 7 # drop 8 junk"
    using assms by (simp add: Cons_nth_drop_Suc [symmetric])
  with len have "?chk = take 8 (?ck @ [junk ! 7]) \<or> ?chk = ?ck"
    by (auto simp: blit_def)
  moreover have "header_block junk fh = header_layout fh ?chk"
    unfolding header_block_def Let_def header_image_layout
    by (rule blit_chksum) (use l8 header_image_layout in auto)
  ultimately show thesis using l8 that by blast
qed

lemma header_layout_drops:
  assumes "length chk = 8"
  shows "take 100 (header_layout fh chk) = strncpy_bytes (fh_name fh) 99 @ [0]"
    and "\<exists>r. drop OFF_mode (header_layout fh chk) = snprintf_o 8 6 [32] (arg_o (fh_mode fh)) @ r"
    and "\<exists>r. drop OFF_uid (header_layout fh chk) = snprintf_o 8 6 [32] (arg_o (fh_uid fh)) @ r"
    and "\<exists>r. drop OFF_gid (header_layout fh chk) = snprintf_o 8 6 [32] (arg_o (fh_gid fh)) @ r"
    and "\<exists>r. drop OFF_size (header_layout fh chk) = snprintf_o 12 11 [32] (arg_lo (fh_size fh)) @ r"
    and "\<exists>r. drop OFF_mtime (header_layout fh chk) = snprintf_o 12 11 [32] (arg_lo (fh_mtime fh)) @ r"
    and "\<exists>r. drop OFF_chksum (header_layout fh chk) = chk @ r"
    and "header_layout fh chk ! OFF_linkflag =
      (if fh_linkflag fh = LF_SYMLINK then 50 else if fh_linkflag fh = LF_DIR then 53 else 48)"
    and "\<exists>r. drop OFF_linkname (header_layout fh chk) = strncpy_bytes (fh_linkname fh) 99 @ [0] @ r"
proof -
  have "replicate 256 0 = [0 :: byte] @ replicate 255 0" by (simp add: numeral_eq_Suc)
  then show "\<exists>r. drop OFF_linkname (header_layout fh chk) = strncpy_bytes (fh_linkname fh) 99 @ [0] @ r"
    using assms by (simp add: header_layout_def length_snprintf_o)
qed (use assms in \<open>simp_all add: header_layout_def length_snprintf_o nth_append\<close>)

subsection \<open>The checksum does not wrap\<close>

lemma sint_byte_bounds: "- 128 \<le> sint (c :: byte) \<and> sint c < 128"
  using sint_range_size [of c] by (simp add: word_size)

lemma cchksum_loop_sum:
  assumes "\<bar>sm\<bar> + 128 * int (length p) < 2147483648"
  shows "cchksum_loop p sm = sm + (\<Sum>c\<leftarrow>p. sint c)"
  using assms
proof (induction p arbitrary: sm)
  case Nil
  then show ?case by simp
next
  case (Cons c p)
  have b: "- 128 \<le> sint c" "sint c < 128" using sint_byte_bounds [of c] by auto
  with Cons.prems have "to_int (sm + sint c) = sm + sint c"
    by (intro to_int_id) auto
  moreover from b Cons.prems have "cchksum_loop p (sm + sint c) = (sm + sint c) + (\<Sum>c\<leftarrow>p. sint c)"
    by (intro Cons.IH) auto
  ultimately show ?case by simp
qed

lemma sum_sint_bounds: "\<bar>\<Sum>c\<leftarrow>p. sint (c :: byte)\<bar> \<le> 128 * int (length p)"
proof (induction p)
  case (Cons c p)
  then show ?case using sint_byte_bounds [of c] by auto
qed simp

lemma cchksum_sum: "length p = TBLOCK \<Longrightarrow> cchksum p = (\<Sum>c\<leftarrow>p. sint c)"
  by (simp add: cchksum_def cchksum_loop_sum)

lemma cchksum_bounds: "length p = TBLOCK \<Longrightarrow> \<bar>cchksum p\<bar> \<le> 65536"
  using sum_sint_bounds [of p] by (simp add: cchksum_sum)

subsection \<open>A field that is too narrow\<close>

lemma oct_value_lt: "(\<forall>c \<in> set ds. is_odigit c) \<Longrightarrow> oct_value ds < 8 ^ length ds"
proof (induction ds rule: rev_induct)
  case Nil
  then show ?case by (simp add: oct_value_def)
next
  case (snoc c ds)
  then have "unat c - 48 < 8" by (auto simp: is_odigit_def word_le_nat_alt)
  with snoc show ?case by (simp add: oct_value_snoc)
qed

lemma length_oct_digits_ge: "8 ^ k \<le> n \<Longrightarrow> k < length (oct_digits n)"
proof (induction n arbitrary: k rule: oct_digits.induct)
  case (1 n)
  show ?case
  proof (cases k)
    case 0
    then show ?thesis by simp
  next
    case (Suc j)
    have "(8 :: nat) \<le> 8 ^ k" using Suc by simp
    with "1.prems" have "8 \<le> n" by (rule order_trans [rotated])
    with "1.prems" Suc have n: "\<not> n < 8" "8 ^ j \<le> n div 8"
      by (simp_all add: less_eq_div_iff_mult_less_eq mult.commute)
    from "1.IH" [OF n] n(1) Suc show ?thesis by (subst oct_digits.simps) simp
  qed
qed

lemma scan_oct_odigits:
  assumes "ds \<noteq> []" "\<forall>c \<in> set ds. is_odigit c" "oct_value ds < 2 ^ 64"
  shows "scan_oct (ds @ 0 # rest) = Some (int (oct_value ds))"
proof -
  have hd: "is_odigit (hd ds)" using assms by simp
  have "dropWhile is_space (ds @ 0 # rest) = ds @ 0 # rest"
    using assms(1) is_odigitD [OF hd] by (cases ds) auto
  moreover have "takeWhile is_odigit (ds @ 0 # rest) = ds"
    using assms(2) by (auto simp: takeWhile_append is_odigit_def word_le_nat_alt)
  moreover have "hd (ds @ 0 # rest) \<noteq> 45" "hd (ds @ 0 # rest) \<noteq> 43"
    using assms(1) is_odigitD [OF hd] by auto
  ultimately show ?thesis
    using assms by (simp add: scan_oct_def)
qed

text \<open>
  \<open>%6o\<close> of a negative number has eleven digits; the field keeps the first seven, which read back
  as a non-negative number.
\<close>

lemma negative_field:
  assumes "- 65536 \<le> x" "x < 0"
  shows "0 \<le> sscanf_o old (snprintf_o 8 6 [] (arg_o x) @ rest)"
proof -
  let ?ds = "take 7 (oct_digits (arg_o x))"
  have "to_uint x = x + 2 ^ 32"
  proof -
    have "take_bit 32 (x + 2 ^ 32) = x + 2 ^ 32"
      using assms by (intro take_bit_int_eq_self) auto
    moreover have "take_bit 32 (x + 2 ^ 32) = take_bit 32 x"
      by (simp add: take_bit_eq_mod)
    ultimately show ?thesis by (simp add: to_uint_def)
  qed
  then have "8 ^ 9 \<le> arg_o x" using assms by (simp add: arg_o_def)
  then have len: "9 < length (oct_digits (arg_o x))" by (rule length_oct_digits_ge)
  have dig: "\<forall>c \<in> set ?ds. is_odigit c" using oct_digits_set by (auto dest: in_set_takeD)
  have lt: "oct_value ?ds < 8 ^ 7"
    using oct_value_lt [OF dig] len by simp
  have "snprintf_o 8 6 [] (arg_o x) = ?ds @ [0]"
    using len by (simp add: snprintf_o_def Let_def)
  moreover have "scan_oct (?ds @ 0 # rest) = Some (int (oct_value ?ds))"
    using len lt dig by (intro scan_oct_odigits) auto
  ultimately show ?thesis using lt by (simp add: sscanf_o_def)
qed

lemma snprintf_o_first:
  assumes "1 < sz"
  shows "(snprintf_o sz width suffix n @ rest) ! 0 \<noteq> 0"
proof -
  obtain d ds where d: "oct_digits n = d # ds" by (cases "oct_digits n") auto
  have "is_odigit d" using oct_digits_set [of d n] d by simp
  then have "d \<noteq> 0" by (auto simp: is_odigit_def word_le_nat_alt)
  obtain j where j: "sz - 1 = Suc j" using assms by (cases "sz - 1") auto
  show ?thesis
  proof (cases "width - length (oct_digits n)")
    case 0
    with d \<open>d \<noteq> 0\<close> j show ?thesis by (simp add: snprintf_o_def Let_def)
  next
    case (Suc i)
    with j show ?thesis by (simp add: snprintf_o_def Let_def)
  qed
qed

end
