(* ===== verification/Tar_Read.thy ===== *)
theory Tar_Read
  imports Tar_Format
begin

text \<open>
  The archive reader \<open>unix/boot/rtar/rtar.c\<close>, with \<open>tape_read\<close> of \<open>unix/boot/bootlib/tape.c\<close>.
  The record \<open>rt\<close> holds the file's static variables.  The operating system is a parameter: a
  tape is the list of what its successive reads return, and the calls on the files that are
  created are the fields of \<open>hostops\<close>, functions on a host state of any type.  A result
  \<^term>\<open>None\<close> is an access outside an array.
\<close>

subsection \<open>\<open>tape_read\<close>\<close>

datatype tftype = TF_STDIN | TF_STDOUT | TF_BINARY | TF_TAPE

text \<open>
  A read of the device returns \<^term>\<open>Some bs\<close> or fails, and for a magtape tells whether a tape
  mark was seen; after the last one there is nothing more to read.
\<close>

record tape =
  tp_ftype :: tftype
  tp_ateof :: bool
  tp_reads :: "(byte list option \<times> bool) list"

definition tape_read :: "tape \<Rightarrow> nat \<Rightarrow> int \<times> byte list \<times> tape" where
  "tape_read tp maxbytes =
     (if tp_ateof tp then (0, [], tp)
      else if tp_ftype tp = TF_STDOUT then (- 1, [], tp)
      else (case tp_reads tp of
        [] \<Rightarrow> (0, [], tp)
      | (r, mark) # rs \<Rightarrow>
          let tp' = tp\<lparr>tp_reads := rs, tp_ateof := (tp_ftype tp = TF_TAPE \<and> mark)\<rparr>
          in (case r of None \<Rightarrow> (- 1, [], tp')
              | Some bs \<Rightarrow> let got = take maxbytes bs in (int (length got), got, tp'))))"

subsection \<open>\<open>getblock\<close>\<close>

record 'h rt =
  rt_eof :: bool
  rt_nblocks :: int
  rt_nextblock :: nat
  rt_tapeblock :: "byte list"
  rt_tape :: tape
  rt_nerrs :: int
  rt_host :: 'h

text \<open>The address returned is an index of \<open>tapeblock\<close>.\<close>

function getblock :: "'h rt \<Rightarrow> nat option \<times> 'h rt" where
  "getblock st =
     (if rt_eof st then (None, st)
      else let st = st\<lparr>rt_nblocks := rt_nblocks st - 1\<rparr> in
        if 0 \<le> rt_nblocks st
        then (Some (rt_nextblock st), st\<lparr>rt_nextblock := rt_nextblock st + TBLOCK\<rparr>)
        else (case tape_read (rt_tape st) SZ_TAPEBUFFER of (nbytes, got, tp) \<Rightarrow>
          let st = st\<lparr>rt_tape := tp, rt_tapeblock := blit (rt_tapeblock st) 0 got\<rparr> in
          if nbytes < int TBLOCK then getblock (st\<lparr>rt_eof := True\<rparr>)
          else getblock (st\<lparr>rt_nblocks := c_div (nbytes + int TBLOCK - 1) (int TBLOCK),
                            rt_nextblock := 0\<rparr>)))"
  by pat_completeness auto
termination
  by (relation "measure (\<lambda>st. if rt_eof st then 0 else if 1 \<le> rt_nblocks st then 1 else 2)")
    (auto simp: Let_def zdiv_mono1 [of 512 _ 512, simplified])

declare getblock.simps [simp del]

text \<open>The four ways \<open>getblock\<close> goes: at the end, from the buffer, and after a read.\<close>

lemma getblock_eof: "rt_eof st \<Longrightarrow> getblock st = (None, st)"
  by (subst getblock.simps) simp

lemma getblock_buffered:
  assumes "\<not> rt_eof st" "1 \<le> rt_nblocks st"
  shows "getblock st = (Some (rt_nextblock st),
    st\<lparr>rt_nblocks := rt_nblocks st - 1, rt_nextblock := rt_nextblock st + TBLOCK\<rparr>)"
  using assms by (subst getblock.simps) simp

lemma getblock_short:
  assumes "\<not> rt_eof st" "rt_nblocks st < 1"
    "tape_read (rt_tape st) SZ_TAPEBUFFER = (n, got, tp)" "n < int TBLOCK"
  shows "getblock st = (None, st\<lparr>rt_nblocks := rt_nblocks st - 1, rt_tape := tp,
    rt_tapeblock := blit (rt_tapeblock st) 0 got, rt_eof := True\<rparr>)"
  using assms by (subst getblock.simps) (simp add: getblock_eof)

lemma getblock_read:
  assumes "\<not> rt_eof st" "rt_nblocks st < 1"
    "tape_read (rt_tape st) SZ_TAPEBUFFER = (n, got, tp)" "int TBLOCK \<le> n"
  shows "getblock st = (Some 0, st\<lparr>rt_tape := tp, rt_tapeblock := blit (rt_tapeblock st) 0 got,
    rt_nblocks := (n + 511) div 512 - 1, rt_nextblock := TBLOCK\<rparr>)"
proof -
  have "1 \<le> (n + 511) div 512" using assms(4) zdiv_mono1 [of 512 "n + 511" 512] by simp
  then show ?thesis
    using assms by (subst getblock.simps) (simp add: getblock_buffered add.commute)
qed

lemma getblock_cases:
  obtains (eof) "rt_eof st"
  | (buffered) "\<not> rt_eof st" "1 \<le> rt_nblocks st"
  | (short) n got tp where "\<not> rt_eof st" "rt_nblocks st < 1"
      "tape_read (rt_tape st) SZ_TAPEBUFFER = (n, got, tp)" "n < int TBLOCK"
  | (filled) n got tp where "\<not> rt_eof st" "rt_nblocks st < 1"
      "tape_read (rt_tape st) SZ_TAPEBUFFER = (n, got, tp)" "int TBLOCK \<le> n"
  by (metis not_le prod_cases3)

lemma getblock_frame:
  "getblock st = (r, st') \<Longrightarrow> rt_nerrs st' = rt_nerrs st \<and> rt_host st' = rt_host st"
  by (cases st rule: getblock_cases)
    (auto simp: getblock_eof getblock_buffered getblock_short getblock_read)

subsection \<open>\<open>getheader\<close>\<close>

abbreviation MAXTRYS :: nat where "MAXTRYS \<equiv> 100"

datatype found = Found nat | At_end | Give_up

text \<open>
  The test of a block: it ends the archive, or its checksum is right, or wrong.
  \<open>tape_checksum\<close> is not initialised, and keeps its value when the field holds no number:
  \<open>tck\<close> is its value before the block is read.
\<close>

datatype check = Zero_block | Good_sum | Bad_sum

definition check_header :: "nat \<Rightarrow> int \<Rightarrow> 'h rt \<Rightarrow> (check \<times> int \<times> 'h rt) option" where
  "check_header hb tck st =
     (if length (rt_tapeblock st) < hb + TBLOCK then None
      else if slice (rt_tapeblock st) hb TBLOCK ! OFF_chksum = 0
           \<and> cchksum (slice (rt_tapeblock st) hb TBLOCK) = 0
      then Some (Zero_block, tck, st)
      else
        let tck = sscanf_o tck (drop (hb + OFF_chksum) (rt_tapeblock st));
            st = st\<lparr>rt_tapeblock := blit (rt_tapeblock st) (hb + OFF_chksum) (replicate 8 32)\<rparr>
        in Some (if cchksum (slice (rt_tapeblock st) hb TBLOCK) = tck then Good_sum else Bad_sum, tck, st))"

text \<open>The loop over blocks until one has a valid checksum.\<close>

function find_header :: "nat \<Rightarrow> int \<Rightarrow> 'h rt \<Rightarrow> (found \<times> 'h rt) option" where
  "find_header ntrys tck st =
     (case getblock st of
       (None, st) \<Rightarrow> Some (At_end, st)
     | (Some hb, st) \<Rightarrow>
         (case check_header hb tck st of
           None \<Rightarrow> None
         | Some (Zero_block, tck, st) \<Rightarrow> Some (At_end, st)
         | Some (Bad_sum, tck, st) \<Rightarrow>
             if ntrys \<noteq> 0 \<and> MAXTRYS \<le> ntrys then Some (Give_up, st)
             else find_header (ntrys + 1) tck st
         | Some (Good_sum, tck, st) \<Rightarrow> Some (Found hb, st)))"
  by pat_completeness auto
termination
  by (relation "measure (\<lambda>(ntrys, tck, st). Suc MAXTRYS - ntrys)") auto

declare find_header.simps [simp del]

text \<open>
  \<open>for (ip=src, op=dst;  (*op++ = *ip++);  )\<close> and \<open>strcpy\<close>, into an array of \<open>room\<close> bytes: the
  string copied, or a fault.
\<close>

fun copy_str :: "nat \<Rightarrow> byte list \<Rightarrow> byte list option" where
  "copy_str room [] = None"
| "copy_str 0 (c # s) = None"
| "copy_str (Suc room) (c # s) =
     (if c = 0 then Some [] else map_option (Cons c) (copy_str room s))"

text \<open>For an empty name, \<open>*(op-2)\<close> is the byte before the structure: a fault.\<close>

definition decode_header :: "byte list \<Rightarrow> nat \<Rightarrow> fheader \<Rightarrow> fheader option" where
  "decode_header tb hb fh = do {
     name \<leftarrow> copy_str NAMSIZ (drop (hb + OFF_name) tb);
     (if name = [] then None else
        let n = sint (tb ! (hb + OFF_linkflag));
            fh = fh\<lparr>fh_name := name,
                   fh_isdir := (last name = 47),
                   fh_mode := sscanf_o (fh_mode fh) (drop (hb + OFF_mode) tb),
                   fh_uid := sscanf_o (fh_uid fh) (drop (hb + OFF_uid) tb),
                   fh_gid := sscanf_o (fh_gid fh) (drop (hb + OFF_gid) tb),
                   fh_size := sscanf_lo (fh_size fh) (drop (hb + OFF_size) tb),
                   fh_mtime := sscanf_lo (fh_mtime fh) (drop (hb + OFF_mtime) tb),
                   fh_linkflag := (if 48 \<le> n \<and> n \<le> 57 then n - 48 else 0)\<rparr>
        in if fh_linkflag fh \<noteq> 0
           then map_option (\<lambda>l. fh\<lparr>fh_linkname := l\<rparr>) (copy_str NAMSIZ (drop (hb + OFF_linkname) tb))
           else Some fh) }"

datatype hdr_result = Header fheader | Hdr_EOF | Hdr_exit

definition getheader :: "int \<Rightarrow> fheader \<Rightarrow> 'h rt \<Rightarrow> (hdr_result \<times> 'h rt) option" where
  "getheader tck fh st = (case find_header 0 tck st of
       None \<Rightarrow> None
     | Some (At_end, st) \<Rightarrow> Some (Hdr_EOF, st)
     | Some (Give_up, st) \<Rightarrow> Some (Hdr_exit, st)
     | Some (Found hb, st) \<Rightarrow>
         map_option (\<lambda>fh. (Header fh, st)) (decode_header (rt_tapeblock st) hb fh))"

subsection \<open>\<open>matchfile\<close>\<close>

text \<open>
  The inner loop \<open>for (fn=fname, ln=f;  *ln && *ln == *fn++;  ) ln++;\<close>: what is left of the list
  element, and \<open>*(fn-1)\<close>, the last character of the name that was compared.
\<close>

fun match_scan :: "byte list \<Rightarrow> byte list \<Rightarrow> byte \<Rightarrow> byte list \<times> byte" where
  "match_scan [] fn prev = ([], prev)"
| "match_scan (l # ln) fn prev =
     (let c = (case fn of [] \<Rightarrow> 0 | f # _ \<Rightarrow> f)
      in if l = c then match_scan ln (tl fn) c else (l # ln, c))"

definition first_char :: "byte list \<Rightarrow> byte" where
  "first_char s = (case s of [] \<Rightarrow> 0 | c # _ \<Rightarrow> c)"

definition match_one :: "byte list \<Rightarrow> byte list \<Rightarrow> bool" where
  "match_one fname f \<longleftrightarrow> first_char f = first_char fname \<and>
     (case match_scan f fname 0 of (ln, prev) \<Rightarrow> ln = [] \<or> hd ln = 36 \<and> prev = 0)"

fun match_any :: "byte list \<Rightarrow> byte list list \<Rightarrow> bool" where
  "match_any fname [] = False"
| "match_any fname (f # files) = (match_one fname f \<or> match_any fname files)"

definition matchfile :: "byte list \<Rightarrow> byte list list \<Rightarrow> int" where
  "matchfile fname files = (if files = [] then 1 else if match_any fname files then 1 else 0)"

subsection \<open>\<open>filetype\<close>\<close>

datatype ftype = TEXT_FILE | BINARY_FILE | DIRECTORY_FILE

abbreviation MAXLINELEN :: int where "MAXLINELEN \<equiv> 256"

text \<open>\<open>isprint\<close>, \<open>isspace\<close> in the C locale, and \<open>ctrlcode\<close>, of a signed \<open>char\<close>.\<close>

definition is_print :: "int \<Rightarrow> bool" where
  "is_print ch \<longleftrightarrow> 32 \<le> ch \<and> ch \<le> 126"

definition is_space_ch :: "int \<Rightarrow> bool" where
  "is_space_ch ch \<longleftrightarrow> ch = 32 \<or> 9 \<le> ch \<and> ch \<le> 13"

definition ctrlcode :: "int \<Rightarrow> bool" where
  "ctrlcode ch \<longleftrightarrow> 7 \<le> ch \<and> ch \<le> 15"

text \<open>The scan of the first block: was it cut short, and was a newline seen.\<close>

fun text_scan :: "byte list \<Rightarrow> bool \<Rightarrow> bool \<times> bool" where
  "text_scan [] newline_seen = (False, newline_seen)"
| "text_scan (c # cp) newline_seen =
     (let ch = sint c
      in if ch = 10 then text_scan cp True
         else if \<not> is_print ch \<and> \<not> is_space_ch ch \<and> \<not> ctrlcode ch then (True, newline_seen)
         else text_scan cp newline_seen)"

definition text_type :: "int \<Rightarrow> byte list \<Rightarrow> ftype" where
  "text_type nchars cp =
     (case text_scan cp False of (stopped, newline_seen) \<Rightarrow>
        if stopped \<or> (MAXLINELEN < nchars \<and> \<not> newline_seen) then BINARY_FILE else TEXT_FILE)"

definition filetype :: "bool \<Rightarrow> fheader \<Rightarrow> 'h rt \<Rightarrow> (ftype \<times> 'h rt) option" where
  "filetype binaryout fh st =
     (if fh_isdir fh then Some (DIRECTORY_FILE, st)
      else if fh_size fh = 0 \<or> binaryout then Some (BINARY_FILE, st)
      else (case getblock st of
        (None, st) \<Rightarrow> Some (BINARY_FILE, st)
      | (Some cp, st) \<Rightarrow>
          let st = st\<lparr>rt_nextblock := rt_nextblock st - TBLOCK, rt_nblocks := rt_nblocks st + 1\<rparr>;
              nchars = (if fh_size fh < int TBLOCK then to_int (fh_size fh) else int TBLOCK)
          in if length (rt_tapeblock st) < cp + nat nchars then None
             else Some (text_type nchars (slice (rt_tapeblock st) cp (nat nchars)), st)))"

subsection \<open>\<open>skipfile\<close>, \<open>copyfile\<close> and \<open>strip_blanks\<close>\<close>

function skip_loop :: "int \<Rightarrow> 'h rt \<Rightarrow> 'h rt" where
  "skip_loop nbytes st =
     (if 0 < nbytes
      then (case getblock st of (None, st) \<Rightarrow> st | (Some bp, st) \<Rightarrow> skip_loop (nbytes - int TBLOCK) st)
      else st)"
  by pat_completeness auto
termination
  by (relation "measure (\<lambda>(nbytes, st). nat nbytes)") auto

declare skip_loop.simps [simp del]

definition skipfile :: "fheader \<Rightarrow> 'h rt \<Rightarrow> 'h rt" where
  "skipfile fh st = (if fh_linkflag fh \<noteq> 0 then st else skip_loop (fh_size fh) st)"

text \<open>
  The calls on the files being created, as functions on the state of the host: \<open>os_write\<close> (with
  its return value), \<open>os_access (path, 0, DIRECTORY_FILE) == YES\<close>, and the others, with whether
  they succeeded where the code looks at that.
\<close>

record 'h hostops =
  h_write :: "'h \<Rightarrow> byte list \<Rightarrow> int \<times> 'h"
  h_close :: "'h \<Rightarrow> 'h"
  h_isdir :: "'h \<Rightarrow> byte list \<Rightarrow> bool"
  h_createdir :: "'h \<Rightarrow> byte list \<Rightarrow> int \<Rightarrow> bool \<times> 'h"
  h_createfile :: "'h \<Rightarrow> byte list \<Rightarrow> int \<Rightarrow> ftype \<Rightarrow> bool \<times> 'h"
  h_delete :: "'h \<Rightarrow> byte list \<Rightarrow> 'h"
  h_symlink :: "'h \<Rightarrow> byte list \<Rightarrow> byte list \<Rightarrow> 'h"
  h_fcopy :: "'h \<Rightarrow> byte list \<Rightarrow> byte list \<Rightarrow> bool \<times> 'h"
  h_setfmode :: "'h \<Rightarrow> byte list \<Rightarrow> int \<Rightarrow> 'h"
  h_setowner :: "'h \<Rightarrow> byte list \<Rightarrow> int \<Rightarrow> int \<Rightarrow> 'h"
  h_setmtime :: "'h \<Rightarrow> byte list \<Rightarrow> int \<Rightarrow> 'h"

abbreviation MAXERR :: int where "MAXERR \<equiv> 20"
abbreviation SZ_PADBUF :: int where "SZ_PADBUF \<equiv> 8196"

text \<open>
  The copy loop: it stops with the number of bytes left, or exits the program after too many
  write errors (\<open>None\<close> for that number).
\<close>

function copy_loop :: "'h hostops \<Rightarrow> int \<Rightarrow> int \<Rightarrow> 'h rt \<Rightarrow> (int option \<times> 'h rt) option" where
  "copy_loop ops maxpad nbytes st =
     (if maxpad < nbytes then
        (case getblock st of
          (None, st) \<Rightarrow> Some (Some nbytes, st)
        | (Some bp, st) \<Rightarrow>
            if length (rt_tapeblock st) < bp + nat (min nbytes (int TBLOCK)) then None
            else (case h_write ops (rt_host st)
                    (slice (rt_tapeblock st) bp (nat (min nbytes (int TBLOCK)))) of (r, h) \<Rightarrow>
              let st = st\<lparr>rt_host := h\<rparr> in
              if r = - 1 then
                if MAXERR < rt_nerrs st then Some (None, st\<lparr>rt_nerrs := rt_nerrs st + 1\<rparr>)
                else copy_loop ops maxpad nbytes (st\<lparr>rt_nerrs := rt_nerrs st + 1\<rparr>)
              else copy_loop ops maxpad (nbytes - int TBLOCK) st))
      else Some (Some nbytes, st))"
  by pat_completeness auto

termination
  by (relation "measure (\<lambda>(ops, maxpad, nbytes, st). nat (nbytes - maxpad) + nat (22 - rt_nerrs st))")
    (auto dest!: sym [of "(_, _)"] getblock_frame)

declare copy_loop.simps [simp del]

text \<open>
  \<open>os_amovb (ip, op, n + sizeof(XCHAR)-1)\<close>, a copy of \<open>k\<close> bytes from one array to another.
\<close>

definition move_bytes :: "byte list \<Rightarrow> nat \<Rightarrow> byte list \<Rightarrow> nat \<Rightarrow> nat \<Rightarrow> byte list option" where
  "move_bytes src p dst q k =
     (if p + k \<le> length src \<and> q + k \<le> length dst then Some (blit dst q (slice src p k)) else None)"

function fill_pad :: "int \<Rightarrow> byte list \<Rightarrow> nat \<Rightarrow> 'h rt \<Rightarrow> (byte list \<times> nat \<times> 'h rt) option" where
  "fill_pad nbytes padbuf op st =
     (if 0 < nbytes then
        (case getblock st of
          (None, st) \<Rightarrow> Some (padbuf, op, st)
        | (Some ip, st) \<Rightarrow>
            let n = (if nbytes < int TBLOCK then nat nbytes else TBLOCK) in
            (case move_bytes (rt_tapeblock st) ip padbuf op (n + 1) of
              None \<Rightarrow> None
            | Some padbuf \<Rightarrow> fill_pad (nbytes - int n) padbuf (op + n) st))
      else Some (padbuf, op, st))"
  by pat_completeness auto
termination
  by (relation "measure (\<lambda>(nbytes, padbuf, op, st). nat nbytes)") (auto simp: Let_def)

declare fill_pad.simps [simp del]

text \<open>
  \<open>for (ip=lastnl;  ip > padbuf;  --ip)\<close>, with the pointers as indexes of \<open>padbuf\<close>: the index of
  the first byte of the run of blanks and newlines that ends the data, if that byte is a newline.
\<close>

fun back_loop :: "byte list \<Rightarrow> nat \<Rightarrow> nat \<Rightarrow> nat" where
  "back_loop padbuf 0 lastnl = lastnl"
| "back_loop padbuf (Suc ip) lastnl =
     (if padbuf ! Suc ip = 10 then back_loop padbuf ip (Suc ip)
      else if padbuf ! Suc ip \<noteq> 32 then lastnl
      else back_loop padbuf ip lastnl)"

text \<open>\<open>padbuf\<close> is an automatic array of \<open>SZ_PADBUF + 10\<close> bytes, not initialised.\<close>

definition strip_blanks :: "'h hostops \<Rightarrow> byte list \<Rightarrow> int \<Rightarrow> 'h rt \<Rightarrow> 'h rt option" where
  "strip_blanks ops padbuf nbytes st = do {
     (padbuf, op, st) \<leftarrow> fill_pad nbytes padbuf 0 st;
     let out = (if op = 0 then [] else take (back_loop padbuf (op - 1) (op - 1) + 1) padbuf);
     Some (st\<lparr>rt_host := snd (h_write ops (rt_host st) out)\<rparr>) }"

datatype copied = Copied | Too_many_errors

definition copyfile_in :: "'h hostops \<Rightarrow> bool \<Rightarrow> byte list \<Rightarrow> fheader \<Rightarrow> ftype \<Rightarrow> 'h rt
    \<Rightarrow> (copied \<times> 'h rt) option" where
  "copyfile_in ops stripblanks padbuf fh ftype st =
     (if fh_linkflag fh \<noteq> 0 then Some (Copied, st)
      else
        let maxpad = (if ftype = BINARY_FILE \<or> \<not> stripblanks then 0 else SZ_PADBUF) in
        (case copy_loop ops maxpad (fh_size fh) st of
          None \<Rightarrow> None
        | Some (None, st) \<Rightarrow> Some (Too_many_errors, st)
        | Some (Some nbytes, st) \<Rightarrow>
            if 0 < nbytes then map_option (\<lambda>st. (Copied, st)) (strip_blanks ops padbuf nbytes st)
            else Some (Copied, st)))"

subsection \<open>\<open>checkdir\<close> and \<open>newfile\<close>\<close>

abbreviation SLASH :: byte where "SLASH \<equiv> 47"

text \<open>The pathname up to its last slash: \<open>cp = strrchr (path, '/');  *cp = EOS\<close>.\<close>

definition dirpart :: "byte list \<Rightarrow> byte list" where
  "dirpart path = rev (tl (dropWhile (\<lambda>c. c \<noteq> SLASH) (rev path)))"

text \<open>The loop over the slashes of the pathname, split at \<open>cp\<close>.\<close>

fun checkdir_loop :: "'h hostops \<Rightarrow> byte list \<Rightarrow> byte list \<Rightarrow> int \<Rightarrow> int \<Rightarrow> 'h \<Rightarrow> bool \<times> 'h" where
  "checkdir_loop ops before [] uid gid h = (True, h)"
| "checkdir_loop ops before (c # cp) uid gid h =
     (if c \<noteq> SLASH then checkdir_loop ops (before @ [c]) cp uid gid h
      else if cp = [] then (True, h)
      else if h_isdir ops h before then checkdir_loop ops (before @ [c]) cp uid gid h
      else (case h_createdir ops h before 493 of
        (False, h) \<Rightarrow> (False, h)
      | (True, h) \<Rightarrow> checkdir_loop ops (before @ [c]) cp uid gid (h_setowner ops h before uid gid)))"

definition checkdir :: "'h hostops \<Rightarrow> byte list \<Rightarrow> int \<Rightarrow> int \<Rightarrow> 'h \<Rightarrow> bool \<times> 'h" where
  "checkdir ops path uid gid h =
     (if SLASH \<notin> set path then (True, h)
      else if h_isdir ops h (dirpart path) then (True, h)
      else checkdir_loop ops [] path uid gid h)"

text \<open>The switches, counted as the code counts them.\<close>

record switches =
  sw_advance :: int
  sw_stripblanks :: bool
  sw_binaryout :: int
  sw_omitbinary :: int
  sw_extract :: int
  sw_replace :: int
  sw_exclude :: int
  sw_printfnames :: int
  sw_links :: int
  sw_setmtime :: bool
  sw_rsetuid :: bool
  sw_verbose :: int
  sw_debug :: int
  sw_prefix :: "byte list"
  sw_tapefile :: "byte list option"

text \<open>
  \<open>newfile\<close> may remove the slash that ends the name of a directory, in the caller's header: the
  result has the name as it is afterwards.
\<close>

definition newfile :: "'h hostops \<Rightarrow> switches \<Rightarrow> byte list \<Rightarrow> int \<Rightarrow> int \<Rightarrow> int \<Rightarrow> ftype \<Rightarrow> 'h
    \<Rightarrow> bool \<times> byte list \<times> 'h" where
  "newfile ops sw name mode uid gid type h =
     (let len = (if sw_prefix sw \<noteq> [] \<and> take (length (sw_prefix sw)) name = sw_prefix sw
                 then length (sw_prefix sw) else 0);
          fname = drop len name
      in case checkdir ops fname uid gid h of
        (False, h) \<Rightarrow> (False, name, h)
      | (True, h) \<Rightarrow>
          if type = DIRECTORY_FILE then
            let fname = (if fname \<noteq> [] \<and> last fname = SLASH then butlast fname else fname)
            in (True, take len name @ fname, snd (h_createdir ops h fname mode))
          else
            let h = (if sw_replace sw \<noteq> 0 then h_delete ops h fname else h)
            in (case h_createfile ops h fname mode type of (ok, h) \<Rightarrow> (ok, name, h)))"

subsection \<open>One entry of the archive\<close>

definition set_attributes :: "'h hostops \<Rightarrow> switches \<Rightarrow> fheader \<Rightarrow> 'h \<Rightarrow> 'h" where
  "set_attributes ops sw fh h =
     (let h = h_setfmode ops h (fh_name fh) (fh_mode fh);
          h = (if sw_rsetuid sw then h_setowner ops h (fh_name fh) (fh_uid fh) (fh_gid fh) else h)
      in if sw_setmtime sw then h_setmtime ops h (fh_name fh) (fh_mtime fh) else h)"

definition extract_link :: "'h hostops \<Rightarrow> switches \<Rightarrow> fheader \<Rightarrow> 'h \<Rightarrow> 'h" where
  "extract_link ops sw fh h =
     (if fh_linkflag fh = LF_SYMLINK then
        let h = (if sw_replace sw \<noteq> 0 then h_delete ops h (fh_name fh) else h)
        in h_symlink ops h (fh_linkname fh) (fh_name fh)
      else if fh_linkflag fh = LF_LINK \<and> sw_links sw = 0 then
        let h = (if sw_replace sw \<noteq> 0 then h_delete ops h (fh_name fh) else h)
        in (case h_fcopy ops h (fh_linkname fh) (fh_name fh) of
             (False, h) \<Rightarrow> h | (True, h) \<Rightarrow> set_attributes ops sw fh h)
      else h)"

definition extract_data :: "'h hostops \<Rightarrow> switches \<Rightarrow> byte list \<Rightarrow> fheader \<Rightarrow> ftype \<Rightarrow> 'h rt
    \<Rightarrow> (copied \<times> 'h rt) option" where
  "extract_data ops sw padbuf fh ftype st =
     (if fh_isdir fh
      then Some (Copied, st\<lparr>rt_host := set_attributes ops sw fh (rt_host st)\<rparr>)
      else (case copyfile_in ops (sw_stripblanks sw) padbuf fh ftype st of
        None \<Rightarrow> None
      | Some (Too_many_errors, st) \<Rightarrow> Some (Too_many_errors, st)
      | Some (Copied, st) \<Rightarrow>
          Some (Copied, st\<lparr>rt_host := set_attributes ops sw fh (h_close ops (rt_host st))\<rparr>)))"

definition extract_file :: "'h hostops \<Rightarrow> switches \<Rightarrow> byte list \<Rightarrow> fheader \<Rightarrow> 'h rt
    \<Rightarrow> (copied \<times> fheader \<times> 'h rt) option" where
  "extract_file ops sw padbuf fh st =
     (case filetype (sw_binaryout sw \<noteq> 0) fh st of
       None \<Rightarrow> None
     | Some (ftype, st) \<Rightarrow>
         if 0 < fh_size fh \<and> ftype = BINARY_FILE \<and> sw_omitbinary sw \<noteq> 0
         then Some (Copied, fh, skipfile fh st)
         else
           (case newfile ops sw (fh_name fh) (fh_mode fh) (fh_uid fh) (fh_gid fh) ftype (rt_host st) of
             (out, name, h) \<Rightarrow>
               let st = st\<lparr>rt_host := h\<rparr>; fh = fh\<lparr>fh_name := name\<rparr> in
               if out then map_option (\<lambda>(r, st). (r, fh, st)) (extract_data ops sw padbuf fh ftype st)
               else Some (Copied, fh, skipfile fh st)))"

text \<open>
  The body of the main loop, after a header was read: the new value of \<open>advance\<close>, whether the
  program exits, the header as it is left for the next call, and whether its name was printed.
\<close>

definition rtar_entry :: "'h hostops \<Rightarrow> switches \<Rightarrow> byte list \<Rightarrow> byte list list \<Rightarrow> byte list
    \<Rightarrow> bool \<Rightarrow> fheader \<Rightarrow> 'h rt \<Rightarrow> (bool \<times> copied \<times> fheader \<times> bool \<times> 'h rt) option" where
  "rtar_entry ops sw first_file files padbuf advance fh st =
     (if advance \<and> fh_name fh \<noteq> first_file
      then Some (True, Copied, fh, False, skipfile fh st)
      else if matchfile (fh_name fh) files = sw_exclude sw
      then Some (False, Copied, fh, False, skipfile fh st)
      else if fh_linkflag fh = LF_SYMLINK \<or> fh_linkflag fh = LF_LINK
      then Some (False, Copied, fh, sw_printfnames sw \<noteq> 0,
             if sw_extract sw \<noteq> 0 then st\<lparr>rt_host := extract_link ops sw fh (rt_host st)\<rparr> else st)
      else if sw_extract sw \<noteq> 0
      then map_option (\<lambda>(r, fh, st). (False, r, fh, sw_printfnames sw \<noteq> 0, st))
             (extract_file ops sw padbuf fh st)
      else Some (False, Copied, fh, sw_printfnames sw \<noteq> 0, skipfile fh st))"

subsection \<open>The blocks left, and the main loop\<close>

text \<open>An upper bound on the blocks that \<open>getblock\<close> can still return.\<close>

definition read_weight :: "byte list option \<times> bool \<Rightarrow> nat" where
  "read_weight x = (case fst x of None \<Rightarrow> 0
     | Some bs \<Rightarrow> (length (take SZ_TAPEBUFFER bs) + 511) div TBLOCK)"

definition blocks_left :: "'h rt \<Rightarrow> nat" where
  "blocks_left st = nat (rt_nblocks st) + (\<Sum>x\<leftarrow>tp_reads (rt_tape st). read_weight x)"

lemma tape_read_weight:
  assumes "tape_read tp SZ_TAPEBUFFER = (n, got, tp')"
  shows "(\<Sum>x\<leftarrow>tp_reads tp'. read_weight x) \<le> (\<Sum>x\<leftarrow>tp_reads tp. read_weight x)"
    and "int TBLOCK \<le> n \<Longrightarrow>
      nat ((n + 511) div 512) + (\<Sum>x\<leftarrow>tp_reads tp'. read_weight x) = (\<Sum>x\<leftarrow>tp_reads tp. read_weight x)"
  using assms
  by (auto simp: tape_read_def Let_def read_weight_def nat_div_distrib nat_add_distrib
      split: if_splits list.splits option.splits)

lemma getblock_blocks_left:
  assumes "getblock st = (r, st')"
  shows "(case r of None \<Rightarrow> blocks_left st' \<le> blocks_left st | Some _ \<Rightarrow> blocks_left st' < blocks_left st)"
proof (cases st rule: getblock_cases)
  case eof
  with assms show ?thesis by (auto simp: getblock_eof)
next
  case buffered
  with assms show ?thesis by (auto simp: getblock_buffered blocks_left_def)
next
  case (short n got tp)
  with assms show ?thesis
    using tape_read_weight(1) [OF short(3)] by (auto simp: getblock_short blocks_left_def)
next
  case (filled n got tp)
  have "1 \<le> (n + 511) div 512" using filled(4) zdiv_mono1 [of 512 "n + 511" 512] by simp
  with filled assms show ?thesis
    using tape_read_weight(2) [OF filled(3,4)] by (auto simp: getblock_read blocks_left_def)
qed

lemma getblock_left_None: "getblock st = (None, st') \<Longrightarrow> blocks_left st' \<le> blocks_left st"
  using getblock_blocks_left by fastforce

lemma getblock_left_Some: "getblock st = (Some bp, st') \<Longrightarrow> blocks_left st' < blocks_left st"
  using getblock_blocks_left by fastforce

lemma blocks_left_frame [simp]:
  "blocks_left (st\<lparr>rt_host := h\<rparr>) = blocks_left st"
  "blocks_left (st\<lparr>rt_nerrs := e\<rparr>) = blocks_left st"
  "blocks_left (st\<lparr>rt_tapeblock := tb\<rparr>) = blocks_left st"
  "blocks_left (st\<lparr>rt_nextblock := nb\<rparr>) = blocks_left st"
  by (simp_all add: blocks_left_def)

lemma check_header_left: "check_header hb tck st = Some (c, tck', st') \<Longrightarrow> blocks_left st' = blocks_left st"
  by (auto simp: check_header_def Let_def split: if_splits)

lemma find_header_left:
  "find_header ntrys tck st = Some (r, st') \<Longrightarrow>
   (case r of Found _ \<Rightarrow> blocks_left st' < blocks_left st | _ \<Rightarrow> blocks_left st' \<le> blocks_left st)"
proof (induction ntrys tck st arbitrary: r st' rule: find_header.induct)
  case (1 ntrys tck st)
  show ?case
  proof (cases "getblock st")
    case (Pair b st1)
    show ?thesis
    proof (cases b)
      case None
      with "1.prems" Pair show ?thesis
        by (subst (asm) find_header.simps) (auto dest: getblock_left_None)
    next
      case (Some hb)
      with Pair have lt: "blocks_left st1 < blocks_left st" by (auto dest: getblock_left_Some)
      show ?thesis
      proof (cases "check_header hb tck st1")
        case None
        with "1.prems" Pair Some show ?thesis by (subst (asm) find_header.simps) simp
      next
        case C: (Some x)
        obtain c tck' st2 where x: "x = (c, tck', st2)" by (cases x)
        from C x lt have lt2: "blocks_left st2 < blocks_left st" by (auto dest: check_header_left)
        show ?thesis
        proof (cases "c = Bad_sum \<and> \<not> (ntrys \<noteq> 0 \<and> MAXTRYS \<le> ntrys)")
          case False
          with "1.prems" Pair Some C x lt2 show ?thesis
            by (subst (asm) find_header.simps) (auto split: check.splits if_splits)
        next
          case True
          with "1.prems" Pair Some C x have "find_header (ntrys + 1) tck' st2 = Some (r, st')"
            by (subst (asm) find_header.simps) auto
          from "1.IH" [OF Pair [symmetric] Some C _ refl _ _ this] x True lt2
          show ?thesis by (auto split: found.splits)
        qed
      qed
    qed
  qed
qed

lemma getheader_left:
  "getheader tck fh st = Some (Header fh', st') \<Longrightarrow> blocks_left st' < blocks_left st"
  using find_header_left [of 0 tck st]
  by (auto simp: getheader_def split: option.splits found.splits)

lemma skip_loop_left: "blocks_left (skip_loop nbytes st) \<le> blocks_left st"
proof (induction nbytes st rule: skip_loop.induct)
  case (1 nbytes st)
  show ?case
    using "1.IH" by (subst skip_loop.simps)
      (fastforce split: prod.splits option.splits dest: getblock_left_None getblock_left_Some)
qed

lemma skipfile_left: "blocks_left (skipfile fh st) \<le> blocks_left st"
  by (simp add: skipfile_def skip_loop_left)

lemma blocks_left_push:
  "blocks_left (st\<lparr>rt_nextblock := k, rt_nblocks := rt_nblocks st + 1\<rparr>) \<le> Suc (blocks_left st)"
  by (auto simp: blocks_left_def)

lemma filetype_left:
  assumes "filetype b fh st = Some (t, st')"
  shows "blocks_left st' \<le> blocks_left st"
proof (cases "fh_isdir fh \<or> fh_size fh = 0 \<or> b")
  case True
  with assms show ?thesis by (auto simp: filetype_def split: if_splits)
next
  case False
  show ?thesis
  proof (cases "getblock st")
    case (Pair r s)
    show ?thesis
    proof (cases r)
      case None
      with assms False Pair show ?thesis by (auto simp: filetype_def dest: getblock_left_None)
    next
      case (Some cp)
      with Pair have "blocks_left s < blocks_left st" by (auto dest: getblock_left_Some)
      with assms False Pair Some blocks_left_push [of s "rt_nextblock s - TBLOCK"] show ?thesis
        by (auto simp: filetype_def Let_def split: if_splits)
    qed
  qed
qed

lemma copy_loop_left: "copy_loop ops maxpad nbytes st = Some (r, st') \<Longrightarrow> blocks_left st' \<le> blocks_left st"
proof (induction ops maxpad nbytes st arbitrary: r st' rule: copy_loop.induct)
  case (1 ops maxpad nbytes st)
  show ?case
  proof (cases "maxpad < nbytes")
    case False
    with "1.prems" show ?thesis by (subst (asm) copy_loop.simps) simp
  next
    case True
    note t = True
    show ?thesis
    proof (cases "getblock st")
      case (Pair b st1)
      show ?thesis
      proof (cases b)
        case None
        with "1.prems" Pair t show ?thesis
          by (subst (asm) copy_loop.simps) (auto dest: getblock_left_None)
      next
        case (Some bp)
        with Pair have lt: "blocks_left st1 < blocks_left st" by (auto dest: getblock_left_Some)
        show ?thesis
        proof (cases "length (rt_tapeblock st1) < bp + nat (min nbytes (int TBLOCK))")
          case True
          with "1.prems" Pair Some t show ?thesis by (subst (asm) copy_loop.simps) simp
        next
          case room: False
          obtain w h where w: "h_write ops (rt_host st1)
              (slice (rt_tapeblock st1) bp (nat (min nbytes (int TBLOCK)))) = (w, h)"
            by (cases "h_write ops (rt_host st1) (slice (rt_tapeblock st1) bp (nat (min nbytes (int TBLOCK))))")
          note ih = "1.IH" [OF t Pair [symmetric] Some room w [symmetric] refl]
          from "1.prems" Pair Some t room w ih lt show ?thesis
            by (subst (asm) copy_loop.simps) (fastforce simp: Let_def split: if_splits)
        qed
      qed
    qed
  qed
qed

lemma fill_pad_left: "fill_pad nbytes padbuf op st = Some (pb, op', st') \<Longrightarrow> blocks_left st' \<le> blocks_left st"
proof (induction nbytes padbuf op st arbitrary: pb op' st' rule: fill_pad.induct)
  case (1 nbytes padbuf op st)
  show ?case
  proof (cases "0 < nbytes")
    case False
    with "1.prems" show ?thesis by (subst (asm) fill_pad.simps) simp
  next
    case True
    show ?thesis
    proof (cases "getblock st")
      case (Pair b st1)
      then show ?thesis
      proof (cases b)
        case None
        with "1.prems" Pair True show ?thesis
          by (subst (asm) fill_pad.simps) (auto dest: getblock_left_None)
      next
        case (Some ip)
        with Pair have lt: "blocks_left st1 < blocks_left st" by (auto dest: getblock_left_Some)
        let ?n = "if nbytes < int TBLOCK then nat nbytes else TBLOCK"
        show ?thesis
        proof (cases "move_bytes (rt_tapeblock st1) ip padbuf op (?n + 1)")
          case None
          with "1.prems" Pair Some True show ?thesis by (subst (asm) fill_pad.simps) (simp add: Let_def)
        next
          case M: (Some pb1)
          with "1.prems" Pair Some True have "fill_pad (nbytes - int ?n) pb1 (op + ?n) st1 = Some (pb, op', st')"
            by (subst (asm) fill_pad.simps) (simp add: Let_def)
          from "1.IH" [OF True Pair [symmetric] Some refl M this] lt show ?thesis by simp
        qed
      qed
    qed
  qed
qed

lemma copyfile_in_left:
  "copyfile_in ops sb padbuf fh t st = Some (r, st') \<Longrightarrow> blocks_left st' \<le> blocks_left st"
  by (auto simp: copyfile_in_def strip_blanks_def Let_def Option.bind_eq_Some_conv
      split: if_splits option.splits dest!: copy_loop_left fill_pad_left)

lemma extract_data_left:
  "extract_data ops sw padbuf fh t st = Some (r, st') \<Longrightarrow> blocks_left st' \<le> blocks_left st"
  by (auto simp: extract_data_def split: if_splits option.splits copied.splits dest!: copyfile_in_left)

lemma extract_file_left:
  assumes "extract_file ops sw padbuf fh st = Some (r, fh', st')"
  shows "blocks_left st' \<le> blocks_left st"
proof (cases "filetype (sw_binaryout sw \<noteq> 0) fh st")
  case None
  with assms show ?thesis by (simp add: extract_file_def)
next
  case (Some x)
  obtain t s where x: "x = (t, s)" by (cases x)
  have le: "blocks_left s \<le> blocks_left st" using Some x filetype_left by blast
  obtain out name h where n: "newfile ops sw (fh_name fh) (fh_mode fh) (fh_uid fh) (fh_gid fh) t (rt_host s)
      = (out, name, h)" by (cases "newfile ops sw (fh_name fh) (fh_mode fh) (fh_uid fh) (fh_gid fh) t (rt_host s)")
  let ?s = "s\<lparr>rt_host := h\<rparr>"
  consider "st' = skipfile fh s" | "st' = skipfile (fh\<lparr>fh_name := name\<rparr>) ?s"
    | "extract_data ops sw padbuf (fh\<lparr>fh_name := name\<rparr>) t ?s = Some (r, st')"
    using assms Some x n by (auto simp: extract_file_def Let_def split: if_splits)
  then show ?thesis
    using le skipfile_left [of fh s] skipfile_left [of "fh\<lparr>fh_name := name\<rparr>" ?s]
    by cases (auto dest!: extract_data_left)
qed

lemma rtar_entry_left:
  "rtar_entry ops sw first files padbuf adv fh st = Some (adv', r, fh', pr, st')
   \<Longrightarrow> blocks_left st' \<le> blocks_left st"
  by (auto simp: rtar_entry_def split: if_splits dest!: extract_file_left intro: skipfile_left)

datatype finished = Finished | Exited

text \<open>After the loop, the rest of the tape is read up to its physical end.\<close>

function drain :: "tape \<Rightarrow> byte list \<Rightarrow> tape \<times> byte list" where
  "drain tp tb =
     (case tape_read tp SZ_TAPEBUFFER of (n, got, tp') \<Rightarrow>
        if 0 < n then drain tp' (blit tb 0 got) else (tp', tb))"
  by pat_completeness auto
termination
  by (relation "measure (\<lambda>(tp, tb). length (tp_reads tp))")
    (auto simp: tape_read_def Let_def split: if_splits list.splits option.splits)

declare drain.simps [simp del]

text \<open>
  The main loop.  \<open>tck\<close> and \<open>padbuf\<close> are what the automatic variables of \<open>getheader\<close> and
  \<open>strip_blanks\<close> hold when these are entered.  The result lists the names that were printed.
\<close>

function rtar_loop :: "'h hostops \<Rightarrow> switches \<Rightarrow> byte list \<Rightarrow> byte list list \<Rightarrow> byte list \<Rightarrow> int
    \<Rightarrow> bool \<Rightarrow> fheader \<Rightarrow> 'h rt \<Rightarrow> (finished \<times> byte list list \<times> 'h rt) option" where
  "rtar_loop ops sw first_file files padbuf tck advance fh st =
     (case getheader tck fh st of
       None \<Rightarrow> None
     | Some (Hdr_exit, st) \<Rightarrow> Some (Exited, [], st)
     | Some (Hdr_EOF, st) \<Rightarrow>
         Some (Finished, [],
           if rt_eof st then st
           else (case drain (rt_tape st) (rt_tapeblock st) of (tp, tb) \<Rightarrow>
                  st\<lparr>rt_tape := tp, rt_tapeblock := tb\<rparr>))
     | Some (Header hdr, st) \<Rightarrow>
         (case rtar_entry ops sw first_file files padbuf advance hdr st of
           None \<Rightarrow> None
         | Some (advance, Too_many_errors, fh, printed, st) \<Rightarrow>
             Some (Exited, if printed then [fh_name hdr] else [], st)
         | Some (advance, Copied, fh, printed, st) \<Rightarrow>
             map_option (\<lambda>(r, names, st). (r, (if printed then [fh_name hdr] else []) @ names, st))
               (rtar_loop ops sw first_file files padbuf tck advance fh st)))"
  by pat_completeness auto
termination
proof (relation "measure (\<lambda>(ops, sw, first_file, files, padbuf, tck, advance, fh, st). blocks_left st)",
    goal_cases)
  case 1
  show ?case by simp
next
  case 2
  then show ?case
    by (auto dest!: sym [of "Some (Header _, _)"] sym [of "Some (_, Copied, _)"]
        getheader_left rtar_entry_left dest: le_less_trans)
qed

declare rtar_loop.simps [simp del]

subsection \<open>The command line\<close>

definition default_switches :: switches where
  "default_switches = \<lparr>sw_advance = 0, sw_stripblanks = True, sw_binaryout = 0, sw_omitbinary = 0,
     sw_extract = 0, sw_replace = 0, sw_exclude = 0, sw_printfnames = 0, sw_links = 0,
     sw_setmtime = True, sw_rsetuid = True, sw_verbose = 0, sw_debug = 0, sw_prefix = [],
     sw_tapefile = None\<rparr>"

definition switch_one :: "byte \<Rightarrow> switches \<Rightarrow> switches" where
  "switch_one c sw =
     (if c = 97 then sw\<lparr>sw_advance := sw_advance sw + 1\<rparr>
      else if c = 110 then sw\<lparr>sw_stripblanks := False\<rparr>
      else if c = 120 then sw\<lparr>sw_extract := sw_extract sw + 1\<rparr>
      else if c = 98 then sw\<lparr>sw_binaryout := sw_binaryout sw + 1\<rparr>
      else if c = 100 then sw\<lparr>sw_debug := sw_debug sw + 1\<rparr>
      else if c = 101 then sw\<lparr>sw_exclude := sw_exclude sw + 1\<rparr>
      else if c = 114 then sw\<lparr>sw_replace := sw_replace sw + 1\<rparr>
      else if c = 116 then sw\<lparr>sw_printfnames := sw_printfnames sw + 1\<rparr>
      else if c = 118 then sw\<lparr>sw_printfnames := sw_printfnames sw + 1, sw_verbose := sw_verbose sw + 1\<rparr>
      else if c = 108 then sw\<lparr>sw_links := sw_links sw + 1\<rparr>
      else if c = 109 then sw\<lparr>sw_setmtime := False\<rparr>
      else if c = 117 then sw\<lparr>sw_rsetuid := False\<rparr>
      else if c = 111 then sw\<lparr>sw_omitbinary := sw_omitbinary sw + 1\<rparr>
      else sw)"

text \<open>One group of switches; \<open>p\<close> and \<open>f\<close> take the next argument.  No argument for \<open>f\<close> is an exit.\<close>

fun switch_group :: "byte list \<Rightarrow> byte list list \<Rightarrow> switches \<Rightarrow> (byte list list \<times> switches) option" where
  "switch_group [] argp sw = Some (argp, sw)"
| "switch_group (c # ip) argp sw =
     (if c = 112 then (case argp of [] \<Rightarrow> switch_group ip argp sw
        | a # argp \<Rightarrow> switch_group ip argp (sw\<lparr>sw_prefix := a\<rparr>))
      else if c = 102 then (case argp of [] \<Rightarrow> None
        | a # argp \<Rightarrow> switch_group ip argp (sw\<lparr>sw_tapefile := Some a\<rparr>))
      else switch_group ip argp (switch_one c sw))"

lemma switch_group_args: "switch_group ip argp sw = Some (argp', sw') \<Longrightarrow> length argp' \<le> length argp"
  by (induction ip argp sw rule: switch_group.induct) (fastforce split: if_splits list.splits)+

function parse_switches :: "byte list list \<Rightarrow> switches \<Rightarrow> (byte list list \<times> switches) option" where
  "parse_switches argp sw =
     (case argp of
       [] \<Rightarrow> Some ([], sw)
     | a # rest \<Rightarrow>
         if a \<noteq> [] \<and> hd a = 45
         then (case switch_group (tl a) rest sw of None \<Rightarrow> None
               | Some (argp, sw) \<Rightarrow> parse_switches argp sw)
         else Some (argp, sw))"
  by pat_completeness auto
termination
  by (relation "measure (\<lambda>(argp, sw). length argp)")
    (auto dest!: sym [of "Some _"] switch_group_args)

declare parse_switches.simps [simp del]

definition rtar_args :: "byte list list \<Rightarrow> (byte list list \<times> switches) option" where
  "rtar_args args =
     (if args = [] then Some ([], default_switches\<lparr>sw_extract := 1\<rparr>)
      else parse_switches args default_switches)"

end
