(* ===== verification/Tar_Write.thy ===== *)
theory Tar_Write
  imports Tar_Format
begin

text \<open>
  The archive writer \<open>unix/boot/wtar/wtar.c\<close>.  The record \<open>wt\<close> holds the file's static variables;
  the tape is the list of the records that were written to it, and \<open>wt_results\<close> what the next calls
  of \<open>tape_write\<close> return (when it is empty they succeed).  The host's files are data: a tree of
  nodes, each with what the calls of the code on it return.
\<close>

record wt =
  wt_tapeblock :: "byte list"
  wt_nextblock :: nat
  wt_nblocks :: int
  wt_tape :: "byte list list"
  wt_results :: "int list"
  wt_nerrs :: int

subsection \<open>\<open>putblock\<close> and \<open>endtar\<close>\<close>

definition tape_write :: "byte list \<Rightarrow> wt \<Rightarrow> wt" where
  "tape_write buf st =
     (case wt_results st of
       [] \<Rightarrow> st\<lparr>wt_tape := wt_tape st @ [buf]\<rparr>
     | r # rs \<Rightarrow> st\<lparr>wt_tape := (if 0 < r then wt_tape st @ [take (nat r) buf] else wt_tape st),
                   wt_results := rs\<rparr>)"

text \<open>The static \<open>tapeblock\<close> is full when its last block was filled; \<open>None\<close> flushes it.\<close>

definition flush_tape :: "wt \<Rightarrow> wt" where
  "flush_tape st = (tape_write (take SZ_TAPEBUFFER (wt_tapeblock st)) st)\<lparr>wt_nextblock := 0, wt_nblocks := 0\<rparr>"

definition putblock :: "byte list option \<Rightarrow> wt \<Rightarrow> wt option" where
  "putblock buf st =
     (case buf of
       None \<Rightarrow> Some (if 0 < wt_nblocks st then flush_tape st else st)
     | Some b \<Rightarrow>
         if length b < TBLOCK \<or> length (wt_tapeblock st) < wt_nextblock st + TBLOCK then None
         else
           let st = st\<lparr>wt_tapeblock := blit (wt_tapeblock st) (wt_nextblock st) (take TBLOCK b),
                      wt_nextblock := wt_nextblock st + TBLOCK,
                      wt_nblocks := wt_nblocks st + 1\<rparr>
           in Some (if wt_nblocks st = int NBLOCK then flush_tape st else st))"

definition endtar :: "wt \<Rightarrow> wt option" where
  "endtar st = do {
     let hb = replicate TBLOCK 0;
     st \<leftarrow> putblock (Some hb) st;
     st \<leftarrow> putblock (Some hb) st;
     putblock None st }"

subsection \<open>\<open>copyfile\<close>\<close>

datatype wftype = W_TEXT | W_BINARY | W_DIRECTORY | W_SYMLINK

abbreviation W_MAXERR :: int where "W_MAXERR \<equiv> 20"

datatype wcopied = W_open_pad | W_exit

text \<open>
  The read loop, over what the successive calls of \<open>os_read\<close> return (\<open>None\<close> an error, nothing left
  the end of the file).  \<open>buf\<close> is the automatic array of \<open>2 * TBLOCK\<close> bytes; \<open>bp\<close> is an index of it.
  The loop ends with the blocks still to write, the buffer and the bytes in it, or exits.
\<close>

fun wcopy_loop :: "byte list option list \<Rightarrow> int \<Rightarrow> byte list \<Rightarrow> nat \<Rightarrow> nat \<Rightarrow> wt
    \<Rightarrow> ((int \<times> byte list \<times> nat) option \<times> wt) option" where
  "wcopy_loop [] blocks buf bp nbytes st = Some (Some (blocks, buf, nbytes), st)"
| "wcopy_loop (r # reads) blocks buf bp nbytes st =
     (if \<not> 0 < blocks then Some (Some (blocks, buf, nbytes), st)
      else (case r of
        None \<Rightarrow>
          if W_MAXERR < wt_nerrs st then Some (None, st\<lparr>wt_nerrs := wt_nerrs st + 1\<rparr>)
          else wcopy_loop reads blocks buf bp nbytes (st\<lparr>wt_nerrs := wt_nerrs st + 1\<rparr>)
      | Some bs \<Rightarrow>
          let data = take TBLOCK bs; count = length data in
          if length buf < bp + count then None
          else
            let buf = blit buf bp data; nbytes = nbytes + count in
            if count = 0 then Some (Some (blocks, buf, nbytes), st)
            else if nbytes < TBLOCK then wcopy_loop reads blocks buf (bp + count) nbytes st
            else (case putblock (Some buf) st of
              None \<Rightarrow> None
            | Some st \<Rightarrow>
                let nleft = nbytes - TBLOCK;
                    buf = (if TBLOCK < nbytes then blit buf 0 (slice buf TBLOCK nleft) else buf)
                in wcopy_loop reads (blocks - 1) buf nleft nleft st)))"

text \<open>The padding of a block from byte \<open>i\<close> on.\<close>

definition pad_block :: "wftype \<Rightarrow> byte list \<Rightarrow> nat \<Rightarrow> byte list" where
  "pad_block ftype buf nbytes =
     (let ch = (if ftype = W_TEXT then 32 else 0);
          pads = map (\<lambda>i. if ftype = W_TEXT \<and> i mod 64 = 0 then 10 else ch) [nbytes ..< TBLOCK];
          buf = blit buf nbytes pads
      in if ftype = W_TEXT then buf[TBLOCK - 1 := 10] else buf)"

function pad_loop :: "wftype \<Rightarrow> int \<Rightarrow> byte list \<Rightarrow> nat \<Rightarrow> wt \<Rightarrow> wt option" where
  "pad_loop ftype blocks buf nbytes st =
     (if 0 < blocks then
        let buf = pad_block ftype buf nbytes in
        (case putblock (Some buf) st of
          None \<Rightarrow> None
        | Some st \<Rightarrow> pad_loop ftype (blocks - 1) buf 0 st)
      else Some st)"
  by pat_completeness auto
termination
  by (relation "measure (\<lambda>(ftype, blocks, buf, nbytes, st). nat blocks)") auto

declare pad_loop.simps [simp del]

text \<open>\<open>junk\<close> is what the buffer holds on entry; \<open>None\<close> for the reads is a file that cannot be opened.\<close>

definition copyfile_out :: "byte list \<Rightarrow> byte list option list option \<Rightarrow> fheader \<Rightarrow> wftype \<Rightarrow> wt
    \<Rightarrow> (bool \<times> wt) option" where
  "copyfile_out junk reads fh ftype st =
     (let blocks = to_int (c_div (fh_size fh + int TBLOCK - 1) (int TBLOCK)) in
      (case reads of
        None \<Rightarrow> map_option (Pair True) (pad_loop ftype blocks junk 0 st)
      | Some reads \<Rightarrow>
          (case wcopy_loop reads blocks junk 0 0 st of
            None \<Rightarrow> None
          | Some (None, st) \<Rightarrow> Some (False, st)
          | Some (Some (blocks, buf, nbytes), st) \<Rightarrow>
              map_option (Pair True) (pad_loop ftype blocks buf nbytes st))))"

subsection \<open>\<open>u_fmode\<close> and \<open>dname\<close>\<close>

abbreviation FI_REGULAR :: int where "FI_REGULAR \<equiv> 1"
abbreviation FI_DIRECTORY :: int where "FI_DIRECTORY \<equiv> 2"
abbreviation FI_EXECUTABLE :: int where "FI_EXECUTABLE \<equiv> 3"

definition u_fmode :: "int \<Rightarrow> int \<Rightarrow> int" where
  "u_fmode iraf_fmode ftype =
     (let i = to_int iraf_fmode; m = 0;
          exec = (ftype = FI_DIRECTORY \<or> ftype = FI_EXECUTABLE);
          m = (if bit i 0 then or m 256 else m);
          m = (if bit i 1 then or m 128 else m);
          m = (if exec then or m 64 else m);
          m = (if bit i 2 then or m 32 else m);
          m = (if bit i 3 then or m 16 else m);
          m = (if exec then or m 8 else m);
          m = (if bit i 4 then or m 4 else m);
          m = (if bit i 5 then or m 2 else m);
          m = (if exec then or m 1 else m)
      in m)"

abbreviation SZ_PATHNAME :: nat where "SZ_PATHNAME \<equiv> 511"

text \<open>The loop of \<open>dname\<close>: a slash that another one follows is not copied.\<close>

fun dname_loop :: "byte list \<Rightarrow> byte list" where
  "dname_loop [] = []"
| "dname_loop [c] = [c]"
| "dname_loop (c # d # s) = (if c = 47 \<and> d = 47 then dname_loop (d # s) else c # dname_loop (d # s))"

text \<open>The result is in a static array of \<open>SZ_PATHNAME + 1\<close> bytes, which is not checked for room.\<close>

definition dname :: "byte list \<Rightarrow> byte list option" where
  "dname dir =
     (let path = dname_loop dir;
          path = (if path \<noteq> [] \<and> last path \<noteq> 47 then path @ [47] else path)
      in if length path \<le> SZ_PATHNAME then Some path else None)"

subsection \<open>\<open>tarfileout\<close> and \<open>putfiles\<close>\<close>

text \<open>
  What the host tells of a file: \<open>ZFINFO\<close> (its time as \<open>os_utime\<close> converts it), \<open>os_getowner\<close>
  (\<open>None\<close> when it leaves the owner alone), \<open>lstat\<close> and \<open>readlink\<close> for a symbolic link.
\<close>

record winfo =
  wi_ok :: bool
  wi_size :: int
  wi_perm :: int
  wi_type :: int
  wi_mtime :: int
  wi_owner :: "(int \<times> int) option"

record wlink =
  wl_uid :: int
  wl_gid :: int
  wl_mode :: int
  wl_mtime :: int
  wl_target :: "byte list"

definition zero_header :: fheader where
  "zero_header = \<lparr>fh_name = [], fh_mode = 0, fh_uid = 0, fh_gid = 0, fh_isdir = False, fh_size = 0,
     fh_mtime = 0, fh_linkflag = 0, fh_linkname = []\<rparr>"

text \<open>
  The header of a file.  \<open>strcpy\<close> and \<open>strcat\<close> into \<open>fh.name\<close> need \<open>path\<close> and \<open>fname\<close> to have less
  than \<open>NAMSIZ\<close> bytes, and so does \<open>readlink\<close>, which is given room for \<open>NAMSIZ\<close> bytes and the \<open>EOS\<close>
  after them.
\<close>

definition file_header :: "byte list \<Rightarrow> wftype \<Rightarrow> byte list \<Rightarrow> winfo \<Rightarrow> wlink option \<Rightarrow> fheader option" where
  "file_header fname ftype path fi lst =
     (let name = path @ fname in
      if NAMSIZ \<le> length name then None
      else do {
        let fh = zero_header\<lparr>fh_name := name\<rparr>;
        fh \<leftarrow> (if ftype = W_DIRECTORY
                then do {
                  d \<leftarrow> dname name;
                  (if NAMSIZ \<le> length d then None
                   else Some (fh\<lparr>fh_name := d, fh_size := 0, fh_isdir := True, fh_linkflag := LF_DIR\<rparr>)) }
                else Some (fh\<lparr>fh_size := wi_size fi, fh_isdir := False\<rparr>));
        let fh = (case wi_owner fi of None \<Rightarrow> fh | Some (u, g) \<Rightarrow> fh\<lparr>fh_uid := u, fh_gid := g\<rparr>);
        let fh = fh\<lparr>fh_mode := u_fmode (wi_perm fi) (wi_type fi), fh_mtime := wi_mtime fi\<rparr>;
        (case lst of
           Some l \<Rightarrow>
             if ftype = W_SYMLINK then
               if NAMSIZ \<le> length (wl_target l) then None
               else Some (fh\<lparr>fh_uid := to_int (wl_uid l), fh_gid := to_int (wl_gid l),
                           fh_mode := to_int (wl_mode l), fh_mtime := wl_mtime l, fh_size := 0,
                           fh_linkflag := LF_SYMLINK, fh_linkname := wl_target l\<rparr>)
             else Some fh
         | None \<Rightarrow> Some fh) })"

definition tarfileout :: "byte list \<Rightarrow> byte list \<Rightarrow> bool \<Rightarrow> byte list \<Rightarrow> wftype \<Rightarrow> byte list
    \<Rightarrow> winfo \<Rightarrow> wlink option \<Rightarrow> byte list option list option \<Rightarrow> wt \<Rightarrow> (bool \<times> wt) option" where
  "tarfileout junk_ck junk_buf omitbinary fname ftype path fi lst reads st =
     (if ftype = W_BINARY \<and> omitbinary then Some (True, st)
      else if \<not> wi_ok fi then Some (True, st)
      else do {
        fh \<leftarrow> file_header fname ftype path fi lst;
        st \<leftarrow> putblock (Some (header_block junk_ck fh)) st;
        (if 0 < fh_size fh \<and> \<not> fh_isdir fh \<and> fh_linkflag fh = 0
         then copyfile_out junk_buf reads fh ftype st
         else Some (True, st)) })"

text \<open>
  A directory tree as the calls of \<open>putfiles\<close> find it: a directory may fail to open, or to be
  entered, and its entries come in the order in which \<open>os_gfdir\<close> returns them.  Returning to the
  parent directory is taken to succeed.  A symbolic link has what \<open>lstat\<close> and \<open>readlink\<close> give, and the
  node that its name leads to, which is what \<open>os_filetype\<close> and \<open>os_open\<close> of the name see; only a link that
  is named on the command line is followed, so the node of any other link is never looked at.
\<close>

datatype wnode =
    WFile winfo wftype "byte list option list option"
  | WLink winfo wlink wnode
  | WDir winfo bool bool "(byte list \<times> wnode) list"

text \<open>
  \<open>putnode\<close> is the body of the loop over a directory, which asks \<open>os_symlink\<close> first, and \<open>putfiles\<close> is its
  third case.  The pathname passed down is \<open>dname (dname (path) ++ dir)\<close>, built with \<open>sprintf\<close> in an
  array of \<open>SZ_PATHNAME + 1\<close> bytes.  The first component of a result is False after the exit for too
  many errors.
\<close>

definition subpath :: "byte list \<Rightarrow> byte list \<Rightarrow> byte list option" where
  "subpath path dir = do {
     p \<leftarrow> dname path;
     (if SZ_PATHNAME < length (p @ dir) then None else dname (p @ dir)) }"

fun putnode :: "byte list \<Rightarrow> byte list \<Rightarrow> bool \<Rightarrow> byte list \<Rightarrow> byte list \<Rightarrow> wnode \<Rightarrow> wt
    \<Rightarrow> (bool \<times> wt) option"
  and putentries :: "byte list \<Rightarrow> byte list \<Rightarrow> bool \<Rightarrow> byte list \<Rightarrow> (byte list \<times> wnode) list \<Rightarrow> wt
    \<Rightarrow> (bool \<times> wt) option" where
  "putnode jc jb omit path fname (WFile fi ftype reads) st =
     tarfileout jc jb omit fname ftype path fi None reads st"
| "putnode jc jb omit path fname (WLink fi l nd) st =
     tarfileout jc jb omit fname W_SYMLINK path fi (Some l) None st"
| "putnode jc jb omit path dir (WDir fi opens enters entries) st =
     (case tarfileout jc jb omit dir W_DIRECTORY path fi None None st of
       None \<Rightarrow> None
     | Some (False, st) \<Rightarrow> Some (False, st)
     | Some (True, st) \<Rightarrow>
         if \<not> opens then Some (True, st)
         else (case subpath path dir of
           None \<Rightarrow> None
         | Some newpath \<Rightarrow>
             if \<not> enters then Some (True, st) else putentries jc jb omit newpath entries st))"
| "putentries jc jb omit path [] st = Some (True, st)"
| "putentries jc jb omit path ((fname, nd) # entries) st =
     (case putnode jc jb omit path fname nd st of
       None \<Rightarrow> None
     | Some (False, st) \<Rightarrow> Some (False, st)
     | Some (True, st) \<Rightarrow> putentries jc jb omit path entries st)"

text \<open>
  The loop of \<open>main\<close> over the names on the command line does not ask \<open>os_symlink\<close>: what \<open>os_filetype\<close> says of
  the name decides between \<open>putfiles\<close> and \<open>tarfileout\<close>, so a link is archived as what it leads to.
\<close>

fun followed :: "wnode \<Rightarrow> wnode" where
  "followed (WLink fi l nd) = followed nd"
| "followed (WFile fi ftype reads) = WFile fi ftype reads"
| "followed (WDir fi opens enters entries) = WDir fi opens enters entries"

fun putargs :: "byte list \<Rightarrow> byte list \<Rightarrow> bool \<Rightarrow> (byte list \<times> wnode) list \<Rightarrow> wt \<Rightarrow> (bool \<times> wt) option" where
  "putargs jc jb omit [] st = Some (True, st)"
| "putargs jc jb omit ((argp, nd) # flist) st =
     (case (case followed nd of
              WFile fi ftype reads \<Rightarrow> tarfileout jc jb omit argp ftype [] fi None reads st
            | d \<Rightarrow> putnode jc jb omit [] argp d st) of
       None \<Rightarrow> None
     | Some (False, st) \<Rightarrow> Some (False, st)
     | Some (True, st) \<Rightarrow> putargs jc jb omit flist st)"

text \<open>The archive of the files named on the command line, from a fresh tape buffer.\<close>

definition wtar :: "byte list \<Rightarrow> byte list \<Rightarrow> bool \<Rightarrow> (byte list \<times> wnode) list \<Rightarrow> int list
    \<Rightarrow> (bool \<times> wt) option" where
  "wtar jc jb omit flist results = do {
     let st = \<lparr>wt_tapeblock = replicate SZ_TAPEBUFFER 0, wt_nextblock = 0, wt_nblocks = 0,
               wt_tape = [], wt_results = results, wt_nerrs = 0\<rparr>;
     (ok, st) \<leftarrow> putargs jc jb omit flist st;
     (if ok then do { st \<leftarrow> endtar st; Some (True, st) } else Some (False, st)) }"

end
