(* ===== verification/Boot_Files.thy ===== *)
theory Boot_Files
  imports Prelude
begin

text \<open>
  The output files of the bootstrap utilities (\<open>unix/boot/bootlib\<close>): \<open>os_write\<close> and \<open>os_close\<close>,
  which send a binary file straight to the system and cut a text file into lines, and
  \<open>os_filetype\<close>.  The state is the library's static line buffer and the bytes that the system has
  got; \<open>of_results\<close> is what its next calls return (when the list is empty they succeed).
\<close>

abbreviation ERR :: int where "ERR \<equiv> - 1"
abbreviation SZ_FBUF :: nat where "SZ_FBUF \<equiv> 512"

record outfile =
  of_binary :: bool
  of_text :: "byte list"
  of_bytes :: "byte list"
  of_results :: "int list"

text \<open>One system call: \<open>write\<close>, or \<open>ZPUTTX\<close> of the line in \<open>text\<close>.\<close>

definition sys_write :: "byte list \<Rightarrow> outfile \<Rightarrow> int \<times> outfile" where
  "sys_write buf st =
     (case of_results st of
       [] \<Rightarrow> (int (length buf), st\<lparr>of_bytes := of_bytes st @ buf\<rparr>)
     | r # rs \<Rightarrow> (r, st\<lparr>of_bytes := of_bytes st @ take (nat r) buf, of_results := rs\<rparr>))"

text \<open>The loop of \<open>os_write\<close> over the characters of a text file; it fails at the first line that does.\<close>

fun os_write_loop :: "byte list \<Rightarrow> outfile \<Rightarrow> bool \<times> outfile" where
  "os_write_loop [] st = (True, st)"
| "os_write_loop (ch # ip) st =
     (let st = st\<lparr>of_text := of_text st @ [ch]\<rparr> in
      if ch = 10 \<or> SZ_FBUF \<le> length (of_text st) then
        (case sys_write (of_text st) st of (status, st) \<Rightarrow>
          let st = st\<lparr>of_text := []\<rparr> in
          if status = ERR then (False, st) else os_write_loop ip st)
      else os_write_loop ip st)"

definition os_write :: "outfile \<Rightarrow> byte list \<Rightarrow> int \<times> outfile" where
  "os_write st buf =
     (if of_binary st then sys_write buf st
      else (case os_write_loop buf st of
        (ok, st) \<Rightarrow> (if ok then int (length buf) else ERR, st)))"

text \<open>Closing a text file writes the line that was not ended.\<close>

definition os_close :: "outfile \<Rightarrow> outfile" where
  "os_close st =
     (if of_binary st then st
      else if of_text st \<noteq> [] then snd (sys_write (of_text st) st) else st)"

text \<open>What has been handed to \<open>os_write\<close>: the bytes of the file and the line not yet ended.\<close>

definition of_contents :: "outfile \<Rightarrow> byte list" where
  "of_contents st = of_bytes st @ (if of_binary st then [] else of_text st)"

subsection \<open>The interface of a file that is written\<close>

text \<open>
  A routine that writes a file needs no more than this: while the device works (\<open>ok\<close>), each call
  appends its buffer to the contents and does not return \<open>ERR\<close>.
\<close>

locale file_writer =
  fixes wr :: "'h \<Rightarrow> byte list \<Rightarrow> int \<times> 'h"
    and contents :: "'h \<Rightarrow> byte list"
    and ok :: "'h \<Rightarrow> bool"
  assumes write_ok: "ok h \<Longrightarrow> fst (wr h bs) \<noteq> ERR"
    and write_keeps: "ok h \<Longrightarrow> ok (snd (wr h bs))"
    and write_appends: "ok h \<Longrightarrow> contents (snd (wr h bs)) = contents h @ bs"
begin

text \<open>Writing a list of buffers one after the other.\<close>

lemma write_all:
  "ok h \<Longrightarrow> ok (foldl (\<lambda>h b. snd (wr h b)) h bss)
     \<and> contents (foldl (\<lambda>h b. snd (wr h b)) h bss) = contents h @ concat bss"
  by (induction bss arbitrary: h) (simp_all add: write_keeps write_appends)

end

definition of_works :: "bool \<Rightarrow> outfile \<Rightarrow> bool" where
  "of_works bin st \<longleftrightarrow> of_binary st = bin \<and> of_results st = []"

lemma os_write_loop_works:
  assumes "of_works False st"
  shows "fst (os_write_loop buf st) \<and> of_works False (snd (os_write_loop buf st))
    \<and> of_contents (snd (os_write_loop buf st)) = of_contents st @ buf"
  using assms
proof (induction buf arbitrary: st)
  case Nil
  then show ?case by simp
next
  case (Cons c buf)
  let ?t = "st\<lparr>of_text := of_text st @ [c]\<rparr>"
  let ?w = "st\<lparr>of_bytes := of_bytes st @ of_text st @ [c], of_text := []\<rparr>"
  have w: "of_works False ?w" "of_contents ?w = of_contents st @ [c]"
    and t: "of_works False ?t" "of_contents ?t = of_contents st @ [c]"
    using Cons.prems by (auto simp: of_works_def of_contents_def)
  show ?case
    using Cons.IH [OF w(1)] Cons.IH [OF t(1)] w(2) t(2) Cons.prems
    by (auto simp: Let_def sys_write_def of_works_def)
qed

interpretation binary_file: file_writer os_write of_contents "of_works True"
  by unfold_locales (auto simp: os_write_def sys_write_def of_works_def of_contents_def)

interpretation text_file: file_writer os_write of_contents "of_works False"
proof unfold_locales
  fix h bs
  assume "of_works False h"
  from os_write_loop_works [OF this, of bs] this
  show "fst (os_write h bs) \<noteq> ERR" and "of_works False (snd (os_write h bs))"
    and "of_contents (snd (os_write h bs)) = of_contents h @ bs"
    by (auto simp: os_write_def of_works_def split: prod.splits)
qed

text \<open>After \<open>os_close\<close> the system has everything.\<close>

lemma os_close_contents:
  "of_works bin st \<Longrightarrow> of_bytes (os_close st) = of_contents st"
  by (auto simp: os_close_def of_works_def of_contents_def sys_write_def)

subsection \<open>\<open>os_filetype\<close>\<close>

text \<open>The extension of a file name, from its last period on.\<close>

fun last_dot :: "string \<Rightarrow> string option \<Rightarrow> string option" where
  "last_dot [] extn = extn"
| "last_dot (c # s) extn = last_dot s (if c = CHR ''.'' then Some (c # s) else extn)"

definition srcextn :: "string list" where
  "srcextn = [''.x'', ''.h'', ''.f'', ''.f77'', ''.f90'', ''.s'', ''.c'', ''.cpp'', ''.hlp'', ''.mip'',
     ''.imh'', ''.pix'', ''.gki'', ''.vdm'', ''.fits'', ''.fit'', ''.ftz'', ''.pl'', ''.gif'',
     ''.jpeg'', ''.jpg'', ''.tiff'', ''.tif'', ''.png'', ''.gz'', ''.tar'', ''.jar'', ''.java'',
     ''.py'', ''.pdf'', ''.ps'', ''.hqx'', ''.std'']"

definition binextn :: "string list" where
  "binextn = [''.o'', ''.e'', ''.a'', ''.so'', ''.pyc'']"

definition lower_char :: "char \<Rightarrow> char" where
  "lower_char c = (if 65 \<le> (of_char c :: nat) \<and> (of_char c :: nat) \<le> 90 then char_of (of_char c + 32 :: nat) else c)"

definition known_extn :: "string \<Rightarrow> string list \<Rightarrow> bool" where
  "known_extn extn tab =
     list_ex (\<lambda>ep. take 1 (tl ep) = take 1 (tl extn)
                \<and> map lower_char ep = map lower_char extn) tab"

datatype os_type = OS_TEXT | OS_BINARY | OS_DIRECTORY

text \<open>
  \<open>isdir\<close> and \<open>istext\<close> are the answers of \<open>os_access (fname, READ_ONLY, DIRECTORY_FILE)\<close> and
  \<open>os_access (fname, 0, TEXT_FILE)\<close>.
\<close>

definition os_filetype :: "bool \<Rightarrow> bool \<Rightarrow> string \<Rightarrow> os_type" where
  "os_filetype isdir istext fname =
     (let dflt = (if isdir then OS_DIRECTORY else if istext then OS_TEXT else OS_BINARY) in
      case last_dot fname None of
        None \<Rightarrow> dflt
      | Some extn \<Rightarrow>
          if known_extn extn srcextn then OS_TEXT
          else if known_extn extn binextn then OS_BINARY
          else dflt)"

end
