(* ===== verification/Tar_Stream.thy ===== *)
theory Tar_Stream
  imports Tar_Read Tar_Write Boot_Files
begin

text \<open>
  The two programs as streams of bytes: what \<open>putblock\<close> has written, what \<open>getblock\<close> has still to
  return.  On a tape without errors the block routines are the abstract operations append, take
  and drop on that stream, and the theorems on whole files, headers and archives follow from it.
\<close>

subsection \<open>The reader's stream\<close>

definition good_reads :: "(byte list option \<times> bool) list \<Rightarrow> bool" where
  "good_reads rs \<longleftrightarrow> list_all (\<lambda>(r, mark). \<not> mark \<and> (case r of None \<Rightarrow> False
     | Some bs \<Rightarrow> length bs mod TBLOCK = 0 \<and> TBLOCK \<le> length bs \<and> length bs \<le> SZ_TAPEBUFFER)) rs"

definition reads_bytes :: "(byte list option \<times> bool) list \<Rightarrow> byte list" where
  "reads_bytes rs = concat (map (\<lambda>(r, mark). case r of None \<Rightarrow> [] | Some bs \<Rightarrow> bs) rs)"

definition rt_ok :: "'h rt \<Rightarrow> bool" where
  "rt_ok st \<longleftrightarrow> \<not> rt_eof st \<and> length (rt_tapeblock st) = SZ_TAPEBUFFER
     \<and> rt_nextblock st + TBLOCK * nat (rt_nblocks st) \<le> SZ_TAPEBUFFER
     \<and> tp_ftype (rt_tape st) \<noteq> TF_STDOUT \<and> \<not> tp_ateof (rt_tape st) \<and> good_reads (tp_reads (rt_tape st))"

definition pending :: "'h rt \<Rightarrow> byte list" where
  "pending st = slice (rt_tapeblock st) (rt_nextblock st) (TBLOCK * nat (rt_nblocks st))
     @ reads_bytes (tp_reads (rt_tape st))"

lemma good_reads_simps [simp]:
  "good_reads []"
  "good_reads ((Some bs, m) # rs) \<longleftrightarrow> \<not> m \<and> length bs mod TBLOCK = 0 \<and> TBLOCK \<le> length bs
     \<and> length bs \<le> SZ_TAPEBUFFER \<and> good_reads rs"
  "\<not> good_reads ((None, m) # rs)"
  by (auto simp: good_reads_def)

lemma reads_bytes_simps [simp]:
  "reads_bytes [] = []"
  "reads_bytes ((Some bs, m) # rs) = bs @ reads_bytes rs"
  by (simp_all add: reads_bytes_def)

text \<open>\<open>getblock\<close> takes the next block off the stream, and leaves the rest of the program alone.\<close>

lemma getblock_stream:
  assumes ok: "rt_ok st" and p: "pending st \<noteq> []"
  obtains bp st' where "getblock st = (Some bp, st')" "bp + TBLOCK \<le> SZ_TAPEBUFFER"
    "slice (rt_tapeblock st') bp TBLOCK = take TBLOCK (pending st)"
    "pending st' = drop TBLOCK (pending st)" "TBLOCK \<le> length (pending st)"
    "rt_ok st'" "rt_nextblock st' = bp + TBLOCK"
    "rt_host st' = rt_host st" "rt_nerrs st' = rt_nerrs st"
proof (cases "1 \<le> rt_nblocks st")
  case True
  let ?k = "nat (rt_nblocks st - 1)" and ?bp = "rt_nextblock st"
  let ?st' = "st\<lparr>rt_nblocks := rt_nblocks st - 1, rt_nextblock := ?bp + TBLOCK\<rparr>"
  have k: "TBLOCK * nat (rt_nblocks st) = TBLOCK + TBLOCK * ?k" using True by (simp add: nat_diff_distrib)
  have room: "?bp + (TBLOCK + TBLOCK * ?k) \<le> SZ_TAPEBUFFER" "length (rt_tapeblock st) = SZ_TAPEBUFFER"
    using ok k by (auto simp: rt_ok_def)
  have len: "length (slice (rt_tapeblock st) ?bp TBLOCK) = TBLOCK"
    using room by (simp add: slice_simps)
  have pend: "pending st = slice (rt_tapeblock st) ?bp TBLOCK @ pending ?st'"
    using k slice_add [of "rt_tapeblock st" ?bp TBLOCK "TBLOCK * ?k"] by (simp add: pending_def)
  show thesis
    by (rule that [of ?bp ?st'])
      (use True ok len room pend k in \<open>auto simp: getblock_buffered rt_ok_def\<close>)
next
  case False
  then have nb: "nat (rt_nblocks st) = 0" by simp
  with p obtain bs rs where rs: "tp_reads (rt_tape st) = (Some bs, False) # rs"
    "length bs mod TBLOCK = 0" "TBLOCK \<le> length bs" "length bs \<le> SZ_TAPEBUFFER" "good_reads rs"
    using ok unfolding pending_def rt_ok_def good_reads_def
    by (cases "tp_reads (rt_tape st)") (auto split: option.splits)
  define tp where "tp = rt_tape st\<lparr>tp_reads := rs, tp_ateof := False\<rparr>"
  have rd: "tape_read (rt_tape st) SZ_TAPEBUFFER = (int (length bs), bs, tp)"
    using rs ok by (simp add: tape_read_def rt_ok_def tp_def)
  obtain q where q: "length bs = TBLOCK * Suc q"
    using rs(2,3) by (metis dvdE mod_eq_0_iff_dvd mult_0_right not0_implies_Suc not_numeral_le_zero)
  have nq: "(int (length bs) + 511) div 512 - 1 = int q"
    using q by simp
  let ?st' = "st\<lparr>rt_tape := tp, rt_tapeblock := blit (rt_tapeblock st) 0 bs,
    rt_nblocks := int q, rt_nextblock := TBLOCK\<rparr>"
  have g: "getblock st = (Some 0, ?st')"
    using getblock_read [OF _ _ rd] False ok rs(3) nq by (simp add: rt_ok_def)
  have lt: "length (rt_tapeblock st) = SZ_TAPEBUFFER" using ok by (simp add: rt_ok_def)
  have head: "slice (blit (rt_tapeblock st) 0 bs) 0 k = take k bs" if "k \<le> length bs" for k
    using that by (simp add: slice_def blit_def)
  have tail: "slice (blit (rt_tapeblock st) 0 bs) TBLOCK (TBLOCK * q) = drop TBLOCK bs"
    using q rs(3) by (simp add: slice_def blit_def)
  have pend: "pending st = bs @ reads_bytes rs" using nb rs(1) by (simp add: pending_def)
  show thesis
    by (rule that [of 0 ?st'])
      (use g head [of TBLOCK] tail pend lt rs q ok in
        \<open>auto simp: pending_def rt_ok_def tp_def blit_simps\<close>)
qed

lemma getblock_stream_end:
  assumes "rt_ok st" "pending st = []"
  obtains st' where "getblock st = (None, st')" "rt_host st' = rt_host st" "rt_nerrs st' = rt_nerrs st"
proof -
  have "length (slice (rt_tapeblock st) (rt_nextblock st) (TBLOCK * nat (rt_nblocks st)))
      = TBLOCK * nat (rt_nblocks st)"
    using assms(1) by (intro length_slice) (simp add: rt_ok_def)
  with assms(2) have nb: "rt_nblocks st < 1" and e: "reads_bytes (tp_reads (rt_tape st)) = []"
    by (simp_all add: pending_def)
  have nr: "tp_reads (rt_tape st) = []"
  proof (rule ccontr)
    assume "tp_reads (rt_tape st) \<noteq> []"
    then obtain r m rs where r: "tp_reads (rt_tape st) = (r, m) # rs" by (cases "tp_reads (rt_tape st)") auto
    with assms(1) e show False by (cases r) (auto simp: rt_ok_def)
  qed
  have rd: "tape_read (rt_tape st) SZ_TAPEBUFFER = (0, [], rt_tape st)"
    using assms nr by (simp add: tape_read_def rt_ok_def)
  show thesis
    by (rule that, rule getblock_short [OF _ nb rd]) (use assms in \<open>auto simp: rt_ok_def\<close>)
qed

subsection \<open>Skipping and copying a file\<close>

text \<open>The bytes that a file of \<open>n\<close> bytes takes on the tape.\<close>

definition padded :: "int \<Rightarrow> nat" where
  "padded n = TBLOCK * nat ((n + 511) div 512)"

lemma padded_nonpos [simp]: "n \<le> 0 \<Longrightarrow> padded n = 0"
  using zdiv_mono1 [of "n + 511" 511 512] by (simp add: padded_def)

lemma padded_step: "0 < n \<Longrightarrow> padded n = TBLOCK + padded (n - int TBLOCK)"
proof -
  assume "0 < n"
  have "(n + 511) div 512 = (n - 512 + 511) div 512 + 1"
    using div_add_self2 [of 512 "n - 1"] by (simp add: algebra_simps)
  moreover have "0 \<le> (n - 512 + 511) div 512" using \<open>0 < n\<close> zdiv_mono1 [of 0 "n - 1" 512] by simp
  ultimately show ?thesis by (simp add: padded_def nat_add_distrib)
qed

lemma padded_ge: "n \<le> int (padded n)"
proof (cases "0 < n")
  case True
  then have "0 \<le> (n + 511) div 512" using zdiv_mono1 [of 0 "n + 511" 512] by simp
  moreover have "n \<le> 512 * ((n + 511) div 512)" by linarith
  ultimately show ?thesis by (simp add: padded_def)
qed simp

lemma skip_loop_stream:
  assumes "rt_ok st" "padded n \<le> length (pending st)"
  shows "rt_ok (skip_loop n st) \<and> pending (skip_loop n st) = drop (padded n) (pending st)
    \<and> rt_host (skip_loop n st) = rt_host st"
  using assms
proof (induction n st rule: skip_loop.induct)
  case (1 n st)
  show ?case
  proof (cases "0 < n")
    case False
    then show ?thesis using "1.prems" by (subst (1 2 3) skip_loop.simps) simp
  next
    case True
    note pad = padded_step [OF True]
    with "1.prems" have "pending st \<noteq> []" by auto
    from getblock_stream [OF "1.prems"(1) this] obtain bp st1 where g: "getblock st = (Some bp, st1)"
      and s: "rt_ok st1" "pending st1 = drop TBLOCK (pending st)" "rt_host st1 = rt_host st"
      by metis
    from g True have step: "skip_loop n st = skip_loop (n - int TBLOCK) st1"
      by (subst skip_loop.simps) simp
    from "1.IH" [OF True g [symmetric] refl s(1)] s "1.prems" pad
    show ?thesis unfolding step by (simp add: add.commute)
  qed
qed

text \<open>
  C24: \<open>skipfile\<close> takes the blocks of a file with their padding off the tape, so that the next block
  is the next header.
\<close>

theorem skipfile_stream:
  assumes "rt_ok st" "fh_linkflag fh = 0" "padded (fh_size fh) \<le> length (pending st)"
  shows "rt_ok (skipfile fh st) \<and> pending (skipfile fh st) = drop (padded (fh_size fh)) (pending st)
    \<and> rt_host (skipfile fh st) = rt_host st"
  using skip_loop_stream [OF assms(1,3)] assms(2) by (simp add: skipfile_def)

lemma rt_ok_host [simp]: "rt_ok (st\<lparr>rt_host := h\<rparr>) = rt_ok st" "pending (st\<lparr>rt_host := h\<rparr>) = pending st"
  by (simp_all add: rt_ok_def pending_def)

context file_writer
begin

text \<open>
  The copy loop writes whole blocks until at most \<open>maxpad\<close> bytes are left; nothing else is taken
  off the stream.
\<close>

lemma copy_loop_stream:
  assumes "h_write ops = wr" "rt_ok st" "ok (rt_host st)" "0 \<le> maxpad"
    "padded n \<le> length (pending st)"
  shows "\<exists>k st'. copy_loop ops maxpad n st = Some (Some (n - int (TBLOCK * k)), st')
    \<and> n - int (TBLOCK * k) \<le> maxpad \<and> (0 < k \<longrightarrow> maxpad < n - int (TBLOCK * k) + int TBLOCK)
    \<and> rt_ok st' \<and> pending st' = drop (TBLOCK * k) (pending st) \<and> ok (rt_host st')
    \<and> contents (rt_host st') = contents (rt_host st) @ take (min (nat n) (TBLOCK * k)) (pending st)"
  using assms
proof (induction ops maxpad n st rule: copy_loop.induct)
  case (1 ops maxpad n st)
  show ?case
  proof (cases "maxpad < n")
    case False
    then show ?thesis using "1.prems"
      by (intro exI [of _ 0] exI [of _ st]) (subst copy_loop.simps, simp)
  next
    case True
    with "1.prems" have pad: "padded n = TBLOCK + padded (n - int TBLOCK)" by (intro padded_step) simp
    with "1.prems" have "pending st \<noteq> []" by auto
    from getblock_stream [OF "1.prems"(2) this] obtain bp st1 where g: "getblock st = (Some bp, st1)"
      "bp + TBLOCK \<le> SZ_TAPEBUFFER" "slice (rt_tapeblock st1) bp TBLOCK = take TBLOCK (pending st)"
      and s: "rt_ok st1" "pending st1 = drop TBLOCK (pending st)" "TBLOCK \<le> length (pending st)"
        "rt_host st1 = rt_host st"
      by metis
    let ?k = "nat (min n (int TBLOCK))"
    have room: "\<not> length (rt_tapeblock st1) < bp + ?k"
      using g(2) s(1) by (auto simp: rt_ok_def)
    have data: "slice (rt_tapeblock st1) bp ?k = take ?k (pending st)"
    proof -
      have "slice (rt_tapeblock st1) bp ?k = take ?k (slice (rt_tapeblock st1) bp TBLOCK)"
        by (rule take_slice [symmetric]) simp
      moreover have "min ?k TBLOCK = ?k" by simp
      ultimately show ?thesis by (simp only: g(3) take_take)
    qed
    obtain r h where w: "h_write ops (rt_host st1) (slice (rt_tapeblock st1) bp ?k) = (r, h)"
      by (cases "h_write ops (rt_host st1) (slice (rt_tapeblock st1) bp ?k)")
    have wh: "r \<noteq> - 1" "ok h" "contents h = contents (rt_host st) @ take ?k (pending st)"
      using write_ok [of "rt_host st" "take ?k (pending st)"] write_keeps [of "rt_host st" "take ?k (pending st)"]
        write_appends [of "rt_host st" "take ?k (pending st)"] w "1.prems"(1,3) data s(4) by auto
    let ?st2 = "st1\<lparr>rt_host := h\<rparr>"
    have step: "copy_loop ops maxpad n st = copy_loop ops maxpad (n - int TBLOCK) ?st2"
      using g(1) room w wh(1) True by (subst copy_loop.simps) (simp add: Let_def)
    have room2: "padded (n - int TBLOCK) \<le> length (pending ?st2)" using "1.prems"(5) s pad by simp
    have st2: "rt_ok ?st2" "ok (rt_host ?st2)" using s wh by simp_all
    from "1.IH" (2) [OF True g(1) [symmetric] refl room w [symmetric] refl wh(1)
        "1.prems"(1) st2 "1.prems"(4) room2]
    obtain k st' where k: "copy_loop ops maxpad (n - int TBLOCK) ?st2
          = Some (Some (n - int TBLOCK - int (TBLOCK * k)), st')"
      "n - int TBLOCK - int (TBLOCK * k) \<le> maxpad"
      "0 < k \<longrightarrow> maxpad < n - int TBLOCK - int (TBLOCK * k) + int TBLOCK"
      "rt_ok st'" "pending st' = drop (TBLOCK * k) (pending st1)" "ok (rt_host st')"
      "contents (rt_host st') = contents h @ take (min (nat (n - int TBLOCK)) (TBLOCK * k)) (pending st1)"
      by auto
    have m: "min (nat n) (TBLOCK * Suc k) = ?k + min (nat (n - int TBLOCK)) (TBLOCK * k)"
      by (auto simp: min_def)
    have "take (min (nat n) (TBLOCK * Suc k)) (pending st)
        = take ?k (pending st) @ take (min (nat (n - int TBLOCK)) (TBLOCK * k)) (pending st1)"
    proof (cases "n < int TBLOCK")
      case True
      then have "nat n \<le> SZ_FBUF + SZ_FBUF * k" by simp
      with True show ?thesis by (simp add: min_def)
    next
      case False
      then have "?k = TBLOCK" by simp
      then show ?thesis unfolding m s(2) by (simp add: take_add)
    qed
    with k True step wh(3) s(2) show ?thesis
      by (intro exI [of _ "Suc k"] exI [of _ st'], cases "k = 0") (simp_all add: algebra_simps)
  qed
qed

end

lemma padded_unique:
  assumes "n \<le> int (TBLOCK * k)" "0 < k \<longrightarrow> int (TBLOCK * k) < n + int TBLOCK"
  shows "padded n = TBLOCK * k"
proof (cases k)
  case 0
  with assms show ?thesis by simp
next
  case (Suc j)
  with assms have "(n + 511) div 512 = int k"
    by (intro int_div_pos_eq [of _ _ _ "n + 511 - 512 * int k"]) auto
  then show ?thesis by (simp add: padded_def)
qed

subsection \<open>Reading a header that the writer made\<close>

text \<open>What the fields of the header can carry.\<close>

definition fits_header :: "fheader \<Rightarrow> bool" where
  "fits_header fh \<longleftrightarrow> fh_name fh \<noteq> [] \<and> length (fh_name fh) < NAMSIZ \<and> 0 \<notin> set (fh_name fh)
     \<and> length (fh_linkname fh) < NAMSIZ \<and> 0 \<notin> set (fh_linkname fh)
     \<and> 0 \<le> fh_mode fh \<and> fh_mode fh < 8 ^ 7 \<and> 0 \<le> fh_uid fh \<and> fh_uid fh < 8 ^ 7
     \<and> 0 \<le> fh_gid fh \<and> fh_gid fh < 8 ^ 7
     \<and> 0 \<le> fh_size fh \<and> fh_size fh < 8 ^ 11 \<and> 0 \<le> fh_mtime fh \<and> fh_mtime fh < 8 ^ 11
     \<and> fh_linkflag fh \<in> {0, LF_SYMLINK, LF_DIR}"

text \<open>The header as the reader fills it in: the name tells whether it is a directory.\<close>

definition decoded :: "fheader \<Rightarrow> fheader \<Rightarrow> fheader" where
  "decoded fh0 fh = fh\<lparr>fh_isdir := (last (fh_name fh) = SLASH),
     fh_linkname := (if fh_linkflag fh \<noteq> 0 then fh_linkname fh else fh_linkname fh0)\<rparr>"

lemma copy_str_correct:
  "0 \<notin> set s \<Longrightarrow> length s < room \<Longrightarrow> copy_str room (s @ 0 # r) = Some s"
proof (induction s arbitrary: room)
  case Nil
  then show ?case by (cases room) auto
next
  case (Cons c s)
  then show ?case by (cases room) auto
qed

lemma copy_str_strncpy:
  assumes "0 \<notin> set s" "length s < NAMSIZ"
  shows "copy_str NAMSIZ (strncpy_bytes s 99 @ 0 # r) = Some s"
proof -
  have "strncpy_bytes s 99 @ 0 # r = s @ (replicate (99 - length s) 0 @ 0 # r)"
    using assms(2) by (simp add: strncpy_bytes_def)
  also have "\<dots> = s @ 0 # (replicate (99 - length s) 0 @ r)"
    by (simp add: replicate_app_Cons_same)
  finally show ?thesis by (simp only: copy_str_correct [OF assms])
qed

lemma sscanf_field:
  assumes "0 \<le> x" "x < 8 ^ 7"
  shows "sscanf_o old (snprintf_o 8 6 [32] (arg_o x) @ r) = x"
proof -
  have a: "arg_o x = nat x" using assms by (simp add: arg_o_def)
  have "nat x < 8 ^ (8 - 1)" using assms by (simp add: nat_less_iff)
  then have "scan_oct (snprintf_o 8 6 [32] (nat x) @ r) = Some (int (nat x))"
    using assms by (intro scan_snprintf_o) auto
  with assms show ?thesis by (simp add: sscanf_o_def a)
qed

lemma sscanf_long_field:
  assumes "0 \<le> x" "x < 8 ^ 11"
  shows "sscanf_lo old (snprintf_o 12 11 [32] (arg_lo x) @ r) = x"
proof -
  have u: "to_ulong x = x" using assms by (simp add: to_ulong_def take_bit_int_eq_self_iff)
  have a: "arg_lo x = nat x" using u by (simp add: arg_lo_def)
  have "nat x < 8 ^ (12 - 1)" using assms by (simp add: nat_less_iff)
  then have "scan_oct (snprintf_o 12 11 [32] (nat x) @ r) = Some (int (nat x))"
    using assms by (intro scan_snprintf_o) auto
  moreover have "to_long x = x"
    using assms unfolding to_long_def by (intro signed_take_bit_id) auto
  ultimately show ?thesis using assms by (simp add: sscanf_lo_def a)
qed

lemma drop_layout:
  assumes "length chk = 8" "\<exists>r. drop k (header_layout fh chk) = xs @ r" "drop hb tb = header_layout fh chk @ rest"
    "k \<le> TBLOCK"
  shows "\<exists>r. drop (hb + k) tb = xs @ r"
proof -
  have "drop (hb + k) tb = drop k (header_layout fh chk) @ rest"
    using assms(1,3,4) by (simp add: length_header_layout add.commute [of hb] flip: drop_drop)
  with assms(2) show ?thesis by auto
qed

lemma decode_header_layout:
  assumes fits: "fits_header fh" and chk: "length chk = 8"
    and tb: "drop hb tb = header_layout fh chk @ rest"
  shows "decode_header tb hb fh0 = Some (decoded fh0 fh)"
proof -
  note d = header_layout_drops [OF chk, of fh]
  note at = drop_layout [OF chk _ tb]
  obtain r0 where "header_layout fh chk = strncpy_bytes (fh_name fh) 99 @ 0 # r0"
    using d(1) append_take_drop_id [of 100 "header_layout fh chk"] by (metis append.assoc append_Cons append_Nil)
  with tb have name: "copy_str NAMSIZ (drop (hb + OFF_name) tb) = Some (fh_name fh)"
    using copy_str_strncpy fits by (simp add: fits_header_def)
  obtain r1 r2 r3 r4 r5 r6 where f:
    "drop (hb + OFF_mode) tb = snprintf_o 8 6 [32] (arg_o (fh_mode fh)) @ r1"
    "drop (hb + OFF_uid) tb = snprintf_o 8 6 [32] (arg_o (fh_uid fh)) @ r2"
    "drop (hb + OFF_gid) tb = snprintf_o 8 6 [32] (arg_o (fh_gid fh)) @ r3"
    "drop (hb + OFF_size) tb = snprintf_o 12 11 [32] (arg_lo (fh_size fh)) @ r4"
    "drop (hb + OFF_mtime) tb = snprintf_o 12 11 [32] (arg_lo (fh_mtime fh)) @ r5"
    using at [OF d(2)] at [OF d(3)] at [OF d(4)] at [OF d(5)] at [OF d(6)] by auto
  have link: "copy_str NAMSIZ (drop (hb + OFF_linkname) tb) = Some (fh_linkname fh)"
  proof -
    from at [of OFF_linkname "strncpy_bytes (fh_linkname fh) 99 @ [0]"] d(9) obtain r where "drop (hb + OFF_linkname) tb = strncpy_bytes (fh_linkname fh) 99 @ [0] @ r"
      by auto
    with fits show ?thesis by (simp add: copy_str_strncpy fits_header_def)
  qed
  have flag: "tb ! (hb + OFF_linkflag) =
      (if fh_linkflag fh = LF_SYMLINK then 50 else if fh_linkflag fh = LF_DIR then 53 else 48)"
  proof -
    have "hb \<le> length tb" using tb chk by (metis drop_all length_0_conv length_append length_header_layout
          add_is_0 nat_le_linear zero_neq_numeral)
    then have "tb ! (hb + OFF_linkflag) = drop hb tb ! OFF_linkflag" by simp
    with tb d(8) chk show ?thesis by (simp add: nth_append length_header_layout)
  qed
  have ne: "fh_name fh \<noteq> []" using fits by (simp add: fits_header_def)
  have nums: "sscanf_o old (drop (hb + OFF_mode) tb) = fh_mode fh"
    "sscanf_o old (drop (hb + OFF_uid) tb) = fh_uid fh"
    "sscanf_o old (drop (hb + OFF_gid) tb) = fh_gid fh"
    "sscanf_lo old (drop (hb + OFF_size) tb) = fh_size fh"
    "sscanf_lo old (drop (hb + OFF_mtime) tb) = fh_mtime fh" for old
    using fits unfolding f fits_header_def
    by (blast intro: sscanf_field sscanf_long_field)+
  have digits: "sint (48 :: byte) = 48" "sint (50 :: byte) = 50" "sint (53 :: byte) = 53"
    by simp_all
  define fh1 where "fh1 = fh0\<lparr>fh_name := fh_name fh, fh_isdir := (last (fh_name fh) = 47),
    fh_mode := fh_mode fh, fh_uid := fh_uid fh, fh_gid := fh_gid fh, fh_size := fh_size fh,
    fh_mtime := fh_mtime fh, fh_linkflag := fh_linkflag fh\<rparr>"
  have flag_val: "(if 48 \<le> sint (tb ! (hb + OFF_linkflag)) \<and> sint (tb ! (hb + OFF_linkflag)) \<le> 57
      then sint (tb ! (hb + OFF_linkflag)) - 48 else 0) = fh_linkflag fh"
    using fits unfolding flag fits_header_def by (elim conjE insertE emptyE) (simp_all add: digits)
  have "decode_header tb hb fh0 = (if fh_linkflag fh \<noteq> 0
      then Some (fh1\<lparr>fh_linkname := fh_linkname fh\<rparr>) else Some fh1)"
    unfolding decode_header_def name Option.bind.simps nums Let_def flag_val link
    using ne by (simp add: fh1_def)
  also have "\<dots> = Some (decoded fh0 fh)"
    by (cases fh; cases fh0) (simp add: fh1_def decoded_def)
  finally show ?thesis .
qed

lemma checksum_field:
  assumes "0 \<le> ck" "ck \<le> 65536"
  shows "sscanf_o old (snprintf_o 8 6 [] (arg_o ck) @ r) = ck"
proof -
  have a: "arg_o ck = nat ck" using assms by (simp add: arg_o_def)
  have n: "nat ck < 8 ^ 6" using assms by simp
  have "scan_oct (snprintf_o 8 6 [] (nat ck) @ r) = Some (int (nat ck))"
    using assms by (intro scan_snprintf_o) auto
  with assms show "sscanf_o old (snprintf_o 8 6 [] (arg_o ck) @ r) = ck"
    by (simp add: sscanf_o_def a)
qed

lemma layout_chksum_nth:
  assumes "length chk = 8"
  shows "header_layout fh chk ! OFF_chksum = chk ! 0"
proof -
  obtain r where "drop OFF_chksum (header_layout fh chk) = chk @ r"
    using header_layout_drops(7) [OF assms, of fh] by blast
  moreover have "header_layout fh chk ! OFF_chksum = drop OFF_chksum (header_layout fh chk) ! 0"
    by (simp add: length_header_layout [OF assms])
  moreover have "chk \<noteq> []" using assms by auto
  ultimately show ?thesis by (simp add: nth_append)
qed

lemma slice_drop: "drop p m = xs @ ys \<Longrightarrow> length xs = n \<Longrightarrow> slice m p n = xs"
  by (simp add: slice_def)

text \<open>
  A block that the writer made is accepted, as long as its checksum is not negative, and blanking
  its checksum field gives back the image the checksum was taken of.
\<close>

lemma check_header_good:
  assumes "length junk = 10" "0 \<le> cchksum (header_image fh)"
    "length (rt_tapeblock st) = SZ_TAPEBUFFER" "hb + TBLOCK \<le> SZ_TAPEBUFFER"
    "slice (rt_tapeblock st) hb TBLOCK = header_block junk fh"
  shows "\<exists>st'. check_header hb tck st = Some (Good_sum, cchksum (header_image fh), st')
    \<and> st' = st\<lparr>rt_tapeblock := blit (rt_tapeblock st) (hb + OFF_chksum) (replicate 8 32)\<rparr>
    \<and> slice (rt_tapeblock st') hb TBLOCK = header_image fh"
proof -
  let ?tb = "rt_tapeblock st" and ?ck = "cchksum (header_image fh)"
  obtain chk where hd: "header_block junk fh = header_layout fh chk" and len: "length chk = 8"
    and c: "chk = take 8 (snprintf_o 8 6 [] (arg_o ?ck) @ [junk ! 7]) \<or> chk = snprintf_o 8 6 [] (arg_o ?ck)"
    using header_block_layout [OF assms(1)] by metis
  have bounds: "?ck \<le> 65536"
    using cchksum_bounds [of "header_image fh"] by (simp add: header_image_layout length_header_layout)
  have sn: "length (snprintf_o 8 6 [] (arg_o ?ck)) \<le> 8"
    by (auto simp: snprintf_o_def Let_def)
  obtain x where x: "chk = snprintf_o 8 6 [] (arg_o ?ck) @ x"
    using c sn len by (cases "length (snprintf_o 8 6 [] (arg_o ?ck)) = 8") auto
  obtain rest where tb: "drop hb ?tb = header_layout fh chk @ rest"
    using drop_slice [of hb TBLOCK ?tb] assms(3-5) hd by simp
  from drop_layout [OF len _ tb, of OFF_chksum chk] header_layout_drops(7) [OF len, of fh]
  obtain r where r: "drop (hb + OFF_chksum) ?tb = snprintf_o 8 6 [] (arg_o ?ck) @ x @ r"
    by (auto simp: x)
  have tck: "sscanf_o tck (drop (hb + OFF_chksum) ?tb) = ?ck"
    unfolding r by (rule checksum_field [OF assms(2) bounds])
  have first: "slice ?tb hb TBLOCK ! OFF_chksum \<noteq> 0"
    using layout_chksum_nth [OF len, of fh] snprintf_o_first [of 8 6 "[]" "arg_o ?ck" x]
    by (simp add: x assms(5) hd)
  have blank: "slice (blit ?tb (hb + OFF_chksum) (replicate 8 32)) hb TBLOCK = header_image fh"
    using slice_blit_inside [of OFF_chksum "replicate 8 32" TBLOCK hb ?tb] assms(3-5) len
    by (simp add: hd blit_chksum header_image_layout)
  show ?thesis
    using assms(3,4) first tck blank by (simp add: check_header_def)
qed

text \<open>\<open>getheader\<close> reads back what \<open>putheader\<close> wrote, field by field.\<close>

lemma getheader_stream:
  assumes ok: "rt_ok st" and junk: "length junk = 10" and fits: "fits_header fh"
    and sum: "0 \<le> cchksum (header_image fh)"
    and hd: "take TBLOCK (pending st) = header_block junk fh"
  shows "\<exists>st'. getheader tck fh0 st = Some (Header (decoded fh0 fh), st') \<and> rt_ok st'
    \<and> pending st' = drop TBLOCK (pending st) \<and> rt_host st' = rt_host st \<and> rt_nerrs st' = rt_nerrs st"
proof -
  have "header_block junk fh \<noteq> []"
    using header_block_layout [OF junk] length_header_layout by (metis list.size(3) zero_neq_numeral)
  with hd have "pending st \<noteq> []" by auto
  from getblock_stream [OF ok this] obtain bp st1 where g: "getblock st = (Some bp, st1)"
    "bp + TBLOCK \<le> SZ_TAPEBUFFER" "slice (rt_tapeblock st1) bp TBLOCK = take TBLOCK (pending st)"
    and s: "pending st1 = drop TBLOCK (pending st)" "rt_ok st1" "rt_nextblock st1 = bp + TBLOCK"
      "rt_host st1 = rt_host st" "rt_nerrs st1 = rt_nerrs st"
    by metis
  have len: "length (rt_tapeblock st1) = SZ_TAPEBUFFER" using s by (simp add: rt_ok_def)
  let ?st2 = "st1\<lparr>rt_tapeblock := blit (rt_tapeblock st1) (bp + OFF_chksum) (replicate 8 32)\<rparr>"
  have c: "check_header bp tck st1 = Some (Good_sum, cchksum (header_image fh), ?st2)"
    and b: "slice (rt_tapeblock ?st2) bp TBLOCK = header_image fh"
    using check_header_good [OF junk sum len g(2), of tck] g(3) hd by auto
  have tb: "drop bp (rt_tapeblock ?st2) = header_layout fh (replicate 8 32) @ drop (bp + TBLOCK) (rt_tapeblock ?st2)"
    using drop_slice [of bp TBLOCK "rt_tapeblock ?st2"] b len g(2)
    by (simp add: header_image_layout blit_simps)
  have d: "decode_header (rt_tapeblock ?st2) bp fh0 = Some (decoded fh0 fh)"
    by (rule decode_header_layout [OF fits _ tb]) simp
  have "find_header 0 tck st = Some (Found bp, ?st2)"
    using g c by (subst find_header.simps) simp
  then have "getheader tck fh0 st = Some (Header (decoded fh0 fh), ?st2)"
    using d by (simp add: getheader_def)
  moreover have "rt_ok ?st2" "pending ?st2 = pending st1"
    using s len g(2) slice_blit_disjoint [of "bp + OFF_chksum" "replicate 8 32" "rt_tapeblock st1"
        "rt_nextblock st1" "TBLOCK * nat (rt_nblocks st1)"]
    by (auto simp: rt_ok_def pending_def blit_simps)
  ultimately show ?thesis using s by auto
qed

subsection \<open>The writer's stream\<close>

definition wt_ok :: "wt \<Rightarrow> bool" where
  "wt_ok st \<longleftrightarrow> length (wt_tapeblock st) = SZ_TAPEBUFFER \<and> 0 \<le> wt_nblocks st \<and> wt_nblocks st < int NBLOCK
     \<and> wt_nextblock st = TBLOCK * nat (wt_nblocks st) \<and> wt_results st = []
     \<and> list_all (\<lambda>r. length r = SZ_TAPEBUFFER) (wt_tape st)"

definition written :: "wt \<Rightarrow> byte list" where
  "written st = concat (wt_tape st) @ take (wt_nextblock st) (wt_tapeblock st)"

text \<open>\<open>putblock\<close> appends a block to the stream, and a full buffer becomes a record of the tape.\<close>

lemma putblock_stream:
  assumes ok: "wt_ok st" and len: "TBLOCK \<le> length b"
  shows "\<exists>st'. putblock (Some b) st = Some st' \<and> wt_ok st' \<and> written st' = written st @ take TBLOCK b
    \<and> wt_nerrs st' = wt_nerrs st"
proof -
  let ?k = "nat (wt_nblocks st)" and ?d = "take TBLOCK b"
  let ?tb = "blit (wt_tapeblock st) (TBLOCK * ?k) ?d"
  have k: "?k < NBLOCK" "wt_nblocks st = int ?k" using ok by (auto simp: wt_ok_def)
  have ld: "length ?d = TBLOCK" using len by simp
  have fits: "TBLOCK * ?k + TBLOCK \<le> SZ_TAPEBUFFER" using k by simp
  have tk: "take (TBLOCK * ?k + TBLOCK) ?tb = take (TBLOCK * ?k) (wt_tapeblock st) @ ?d"
    using fits ok ld by (simp add: blit_def wt_ok_def min_def)
  have lt: "length ?tb = SZ_TAPEBUFFER" using fits ok ld by (simp add: blit_simps wt_ok_def)
  show ?thesis
  proof (cases "wt_nblocks st + 1 = int NBLOCK")
    case True
    with k have e: "TBLOCK * ?k + TBLOCK = SZ_TAPEBUFFER" by simp
    with tk lt have full: "?tb = take (TBLOCK * ?k) (wt_tapeblock st) @ ?d" by simp
    show ?thesis
      using ok len True fits full lt
      by (auto simp: putblock_def Let_def flush_tape_def tape_write_def wt_ok_def written_def)
  next
    case False
    with k show ?thesis
      using ok len fits tk lt
      by (auto simp: putblock_def Let_def wt_ok_def written_def nat_add_distrib)
  qed
qed

definition tape_of :: "byte list \<Rightarrow> byte list list \<Rightarrow> bool" where
  "tape_of bs recs \<longleftrightarrow> list_all (\<lambda>r. length r = SZ_TAPEBUFFER) recs
     \<and> (\<exists>rest. concat recs = bs @ rest)"

text \<open>\<open>endtar\<close> leaves two zero blocks after the files, and everything on the tape.\<close>

lemma endtar_stream:
  assumes "wt_ok st"
  shows "\<exists>st'. endtar st = Some st' \<and> tape_of (written st @ replicate (2 * TBLOCK) 0) (wt_tape st')"
proof -
  let ?z = "replicate TBLOCK (0 :: byte)"
  obtain st1 where 1: "putblock (Some ?z) st = Some st1" "wt_ok st1" "written st1 = written st @ ?z"
    using putblock_stream [OF assms, of ?z] by auto
  obtain st2 where 2: "putblock (Some ?z) st1 = Some st2" "wt_ok st2" "written st2 = written st1 @ ?z"
    using putblock_stream [OF 1(2), of ?z] by auto
  have z: "?z @ ?z = replicate (2 * TBLOCK) 0" by (simp flip: replicate_add)
  let ?st3 = "if 0 < wt_nblocks st2 then flush_tape st2 else st2"
  have "endtar st = Some ?st3"
    unfolding endtar_def Let_def using 1(1) 2(1) by (simp add: putblock_def)
  moreover have "tape_of (written st2) (wt_tape ?st3)"
  proof (cases "0 < wt_nblocks st2")
    case True
    have "take SZ_TAPEBUFFER (wt_tapeblock st2)
        = take (wt_nextblock st2) (wt_tapeblock st2) @ drop (wt_nextblock st2) (wt_tapeblock st2)"
      using 2(2) by (simp add: wt_ok_def)
    with True 2(2) show ?thesis
      by (auto simp: tape_of_def flush_tape_def tape_write_def wt_ok_def written_def
          intro: exI [of _ "drop (wt_nextblock st2) (wt_tapeblock st2)"])
  next
    case False
    with 2(2) show ?thesis by (auto simp: tape_of_def wt_ok_def written_def)
  qed
  ultimately show ?thesis by (auto simp only: 1(3) 2(3) z append_assoc)
qed

subsection \<open>Writing the data of a file\<close>

text \<open>
  The reads of a file without errors, none of more than a block: what the file holds is their
  concatenation, up to the first one that returns nothing.
\<close>

definition file_reads :: "byte list list \<Rightarrow> byte list option list" where
  "file_reads rs = map Some rs"

definition pad_char :: "wftype \<Rightarrow> nat \<Rightarrow> byte" where
  "pad_char ftype p =
     (if ftype = W_TEXT then (if p mod 64 = 0 \<or> p mod 512 = 511 then 10 else 32) else 0)"

text \<open>The contents of a file on the tape: \<open>n\<close> bytes, the missing ones padded.\<close>

definition padded_data :: "wftype \<Rightarrow> byte list \<Rightarrow> nat \<Rightarrow> byte list" where
  "padded_data ftype bs n = map (\<lambda>p. if p < length bs then bs ! p else pad_char ftype p) [0..<n]"

lemma length_pad_block: "length buf = 2 * TBLOCK \<Longrightarrow> n \<le> TBLOCK \<Longrightarrow> length (pad_block t buf n) = 2 * TBLOCK"
  by (simp add: pad_block_def Let_def blit_simps)

lemma pad_block_data:
  assumes "length buf = 2 * TBLOCK" "n < TBLOCK"
  shows "take TBLOCK (pad_block t buf n) = padded_data t (take n buf) TBLOCK"
proof (rule nth_equalityI)
  show "length (take TBLOCK (pad_block t buf n)) = length (padded_data t (take n buf) TBLOCK)"
    using assms by (simp add: padded_data_def length_pad_block)
  fix i assume "i < length (take TBLOCK (pad_block t buf n))"
  then have "i < TBLOCK" by simp
  then show "take TBLOCK (pad_block t buf n) ! i = padded_data t (take n buf) TBLOCK ! i"
    using assms
    by (auto simp: pad_block_def Let_def padded_data_def nth_blit pad_char_def nth_list_update blit_simps)
qed

lemma pad_char_shift: "pad_char t (TBLOCK + j) = pad_char t j"
proof -
  have "(TBLOCK + j) mod 64 = (TBLOCK mod 64 + j) mod 64" by (simp only: mod_add_left_eq)
  moreover have "(TBLOCK + j) mod 512 = j mod 512" by simp
  ultimately show ?thesis by (simp add: pad_char_def)
qed

lemma pad_char_back: "TBLOCK \<le> i \<Longrightarrow> pad_char t i = pad_char t (i - TBLOCK)"
  using pad_char_shift [of t "i - TBLOCK"] by simp

lemma padded_data_split:
  assumes "length xs = TBLOCK"
  shows "padded_data t (xs @ ys) (TBLOCK + m) = xs @ padded_data t ys m"
proof (rule nth_equalityI)
  show "length (padded_data t (xs @ ys) (TBLOCK + m)) = length (xs @ padded_data t ys m)"
    using assms by (simp add: padded_data_def)
  fix i assume "i < length (padded_data t (xs @ ys) (TBLOCK + m))"
  then show "padded_data t (xs @ ys) (TBLOCK + m) ! i = (xs @ padded_data t ys m) ! i"
    using assms pad_char_back [of i t] by (auto simp: padded_data_def nth_append not_less)
qed

lemma padded_data_pad:
  assumes "length xs \<le> TBLOCK"
  shows "padded_data t xs (TBLOCK + m) = padded_data t xs TBLOCK @ padded_data t [] m"
proof (rule nth_equalityI)
  show "length (padded_data t xs (TBLOCK + m)) = length (padded_data t xs TBLOCK @ padded_data t [] m)"
    by (simp add: padded_data_def)
  fix i assume "i < length (padded_data t xs (TBLOCK + m))"
  then show "padded_data t xs (TBLOCK + m) ! i = (padded_data t xs TBLOCK @ padded_data t [] m) ! i"
    using assms pad_char_back [of i t] by (auto simp: padded_data_def nth_append not_less)
qed

lemma pad_loop_stream:
  assumes "wt_ok st" "length buf = 2 * TBLOCK" "n < TBLOCK"
  shows "\<exists>st'. pad_loop t (int B) buf n st = Some st' \<and> wt_ok st'
    \<and> written st' = written st @ padded_data t (take n buf) (TBLOCK * B)"
  using assms
proof (induction B arbitrary: buf n st)
  case 0
  then show ?case by (subst pad_loop.simps) (simp add: padded_data_def)
next
  case (Suc B)
  let ?b = "pad_block t buf n"
  have lb: "length ?b = 2 * TBLOCK" using Suc.prems by (simp add: length_pad_block)
  obtain st1 where 1: "putblock (Some ?b) st = Some st1" "wt_ok st1" "written st1 = written st @ take TBLOCK ?b"
    using putblock_stream [OF Suc.prems(1), of ?b] lb by auto
  obtain st' where 2: "pad_loop t (int B) ?b 0 st1 = Some st'" "wt_ok st'"
      "written st' = written st1 @ padded_data t [] (TBLOCK * B)"
    using Suc.IH [OF 1(2) lb, of 0] by auto
  have "pad_loop t (int (Suc B)) buf n st = Some st'"
    using 1(1) 2(1) by (subst pad_loop.simps) (simp add: Let_def)
  then show ?case
    using 1 2 Suc.prems padded_data_pad [of "take n buf" t "TBLOCK * B"] pad_block_data [of buf n t]
    by (simp add: min_def)
qed

lemma wcopy_loop_stream:
  assumes "wt_ok st" "length buf = 2 * TBLOCK" "n < TBLOCK" "\<forall>r \<in> set rs. r \<noteq> [] \<and> length r \<le> TBLOCK"
  shows "\<exists>B' buf' n' st'. wcopy_loop (file_reads rs) (int B) buf n n st = Some (Some (int B', buf', n'), st')
    \<and> wt_ok st' \<and> length buf' = 2 * TBLOCK \<and> n' < TBLOCK
    \<and> written st' @ padded_data t (take n' buf') (TBLOCK * B')
      = written st @ padded_data t (take n buf @ concat rs) (TBLOCK * B)"
  using assms
proof (induction rs arbitrary: B buf n st)
  case Nil
  then show ?case
    by (intro exI [of _ B] exI [of _ buf] exI [of _ n] exI [of _ st]) (simp add: file_reads_def)
next
  case (Cons r rs)
  show ?case
  proof (cases B)
    case 0
    with Cons.prems show ?thesis
      by (intro exI [of _ B] exI [of _ buf] exI [of _ n] exI [of _ st])
        (simp add: file_reads_def padded_data_def)
  next
    case (Suc B0)
    let ?b = "blit buf n r" and ?n = "n + length r"
    have r: "r \<noteq> []" "length r \<le> TBLOCK" "take TBLOCK r = r" using Cons.prems by auto
    have lb: "length ?b = 2 * TBLOCK" using Cons.prems r by (simp add: blit_simps)
    have tk: "take ?n ?b = take n buf @ r" using Cons.prems r by (simp add: blit_def)
    have rest: "\<forall>r \<in> set rs. r \<noteq> [] \<and> length r \<le> TBLOCK" using Cons.prems by simp
    show ?thesis
    proof (cases "?n < TBLOCK")
      case True
      have "wcopy_loop (file_reads (r # rs)) (int B) buf n n st = wcopy_loop (file_reads rs) (int B) ?b ?n ?n st"
        using True Suc r Cons.prems by (simp add: file_reads_def Let_def)
      with Cons.IH [OF Cons.prems(1) lb True rest, of B] tk show ?thesis by simp
    next
      case False
      let ?l = "?n - TBLOCK"
      let ?c = "if TBLOCK < ?n then blit ?b 0 (slice ?b TBLOCK ?l) else ?b"
      have l: "?l < TBLOCK" using Cons.prems r by simp
      have lc: "length ?c = 2 * TBLOCK" using lb l by (simp add: blit_simps slice_simps)
      have tc: "take ?l ?c = slice ?b TBLOCK ?l"
        using lb l False by (auto simp: blit_def slice_def)
      have split: "take n buf @ r = take TBLOCK ?b @ slice ?b TBLOCK ?l"
        unfolding tk [symmetric] using False by (simp add: slice_def flip: take_add)
      obtain st1 where 1: "putblock (Some ?b) st = Some st1" "wt_ok st1"
          "written st1 = written st @ take TBLOCK ?b"
        using putblock_stream [OF Cons.prems(1), of ?b] lb by auto
      have step: "wcopy_loop (file_reads (r # rs)) (int B) buf n n st
          = wcopy_loop (file_reads rs) (int B0) ?c ?l ?l st1"
        using False Suc r Cons.prems 1(1) by (simp add: file_reads_def Let_def)
      have "padded_data t (take n buf @ concat (r # rs)) (TBLOCK * B)
          = take TBLOCK ?b @ padded_data t (take ?l ?c @ concat rs) (TBLOCK * B0)"
      proof -
        have "take n buf @ concat (r # rs) = take TBLOCK ?b @ (slice ?b TBLOCK ?l @ concat rs)"
          using split by (metis append_assoc concat.simps(2))
        moreover have "TBLOCK * B = TBLOCK + TBLOCK * B0" using Suc by simp
        moreover have "length (take TBLOCK ?b) = TBLOCK" using lb by simp
        ultimately show ?thesis by (simp only: padded_data_split tc)
      qed
      with Cons.IH [OF 1(2) lc l rest, of B0] 1(3) show ?thesis unfolding step by simp
    qed
  qed
qed

text \<open>
  The data blocks of a file: its contents, padded to the size that the header gives, however the
  file is cut into reads, and also when it cannot be opened at all.
\<close>

lemma copyfile_out_stream:
  assumes "wt_ok st" "length junk = 2 * TBLOCK" "0 \<le> fh_size fh" "fh_size fh < 8 ^ 11"
    "\<forall>r \<in> set rs. r \<noteq> [] \<and> length r \<le> TBLOCK"
  shows "\<exists>st'. copyfile_out junk (Some (file_reads rs)) fh t st = Some (True, st') \<and> wt_ok st'
    \<and> written st' = written st @ padded_data t (concat rs) (padded (fh_size fh))"
proof -
  let ?B = "nat ((fh_size fh + 511) div 512)"
  have nn: "0 \<le> (fh_size fh + 511) div 512" using assms(3) zdiv_mono1 [of 0 "fh_size fh + 511" 512] by simp
  have lt: "(fh_size fh + 511) div 512 < 2147483648" using assms(4) zdiv_mono1 [of "fh_size fh + 511" "8 ^ 11 + 511" 512] by simp
  have B: "to_int (c_div (fh_size fh + int TBLOCK - 1) (int TBLOCK)) = int ?B"
    using nn lt assms(3) by simp
  obtain B' buf' n' st1 where w: "wcopy_loop (file_reads rs) (int ?B) junk 0 0 st
        = Some (Some (int B', buf', n'), st1)" "wt_ok st1" "length buf' = 2 * TBLOCK" "n' < TBLOCK"
      "written st1 @ padded_data t (take n' buf') (TBLOCK * B')
        = written st @ padded_data t (take 0 junk @ concat rs) (TBLOCK * ?B)"
    using wcopy_loop_stream [OF assms(1,2) _ assms(5), of 0 ?B t] by auto
  from pad_loop_stream [OF w(2-4), of t B'] obtain st' where
    "pad_loop t (int B') buf' n' st1 = Some st'" "wt_ok st'"
    "written st' = written st1 @ padded_data t (take n' buf') (TBLOCK * B')" by auto
  with w show ?thesis unfolding copyfile_out_def Let_def B padded_def by simp
qed

subsection \<open>The archive as a specification\<close>

text \<open>
  The bytes that a tree of files stands for: a header for each node, in the order in which the
  directories list them, and the padded contents of the plain files.
\<close>

definition data_of :: "byte list option list option \<Rightarrow> byte list" where
  "data_of reads = (case reads of None \<Rightarrow> [] | Some rs \<Rightarrow> concat (map (case_option [] id) rs))"

definition entry_bytes :: "byte list \<Rightarrow> wftype \<Rightarrow> byte list option list option \<Rightarrow> fheader \<Rightarrow> byte list" where
  "entry_bytes jc t reads fh = header_block jc fh @
     (if 0 < fh_size fh \<and> \<not> fh_isdir fh \<and> fh_linkflag fh = 0
      then padded_data t (data_of reads) (padded (fh_size fh)) else [])"

fun node_bytes :: "byte list \<Rightarrow> byte list \<Rightarrow> byte list \<Rightarrow> wnode \<Rightarrow> byte list option"
  and entries_bytes :: "byte list \<Rightarrow> byte list \<Rightarrow> (byte list \<times> wnode) list \<Rightarrow> byte list option" where
  "node_bytes jc path fname (WFile fi t reads) =
     map_option (entry_bytes jc t reads) (file_header fname t path fi None)"
| "node_bytes jc path fname (WLink fi l nd) =
     map_option (entry_bytes jc W_SYMLINK None) (file_header fname W_SYMLINK path fi (Some l))"
| "node_bytes jc path fname (WDir fi opens enters entries) = do {
     fh \<leftarrow> file_header fname W_DIRECTORY path fi None;
     newpath \<leftarrow> subpath path fname;
     rest \<leftarrow> entries_bytes jc newpath entries;
     Some (entry_bytes jc W_DIRECTORY None fh @ rest) }"
| "entries_bytes jc path [] = Some []"
| "entries_bytes jc path ((fname, nd) # entries) = do {
     b \<leftarrow> node_bytes jc path fname nd;
     rest \<leftarrow> entries_bytes jc path entries;
     Some (b @ rest) }"

text \<open>Trees on which no call of the host fails.\<close>

definition good_info :: "winfo \<Rightarrow> bool" where
  "good_info fi \<longleftrightarrow> wi_ok fi \<and> 0 \<le> wi_size fi \<and> wi_size fi < 8 ^ 11"

definition good_file :: "byte list option list option \<Rightarrow> bool" where
  "good_file reads = (case reads of None \<Rightarrow> False
     | Some rs \<Rightarrow> list_all (\<lambda>r. r \<noteq> None \<and> r \<noteq> Some [] \<and> length (the r) \<le> TBLOCK) rs)"

fun good_node :: "wnode \<Rightarrow> bool" and good_entries :: "(byte list \<times> wnode) list \<Rightarrow> bool" where
  "good_node (WFile fi t reads) = (good_info fi \<and> good_file reads \<and> (t = W_TEXT \<or> t = W_BINARY))"
| "good_node (WLink fi l nd) = good_info fi"
| "good_node (WDir fi opens enters entries) = (good_info fi \<and> opens \<and> enters \<and> good_entries entries)"
| "good_entries [] = True"
| "good_entries ((fname, nd) # entries) = (good_node nd \<and> good_entries entries)"

lemma file_header_size:
  "file_header fname t path fi lst = Some fh \<Longrightarrow> good_info fi \<Longrightarrow> 0 \<le> fh_size fh \<and> fh_size fh < 8 ^ 11"
  by (auto simp: file_header_def good_info_def zero_header_def Let_def Option.bind_eq_Some_conv
      split: if_splits option.splits)

lemma tarfileout_stream:
  assumes ok: "wt_ok st" and jc: "length jc = 10" and jb: "length jb = 2 * TBLOCK"
    and fi: "good_info fi" and hd: "file_header fname t path fi lst = Some fh"
    and reads: "0 < fh_size fh \<and> \<not> fh_isdir fh \<and> fh_linkflag fh = 0 \<Longrightarrow> good_file reads"
  shows "\<exists>st'. tarfileout jc jb False fname t path fi lst reads st = Some (True, st') \<and> wt_ok st'
    \<and> written st' = written st @ entry_bytes jc t reads fh"
proof -
  have len: "length (header_block jc fh) = TBLOCK"
    using header_block_layout [OF jc, of fh] length_header_layout by metis
  obtain st1 where 1: "putblock (Some (header_block jc fh)) st = Some st1" "wt_ok st1"
      "written st1 = written st @ header_block jc fh"
    using putblock_stream [OF ok, of "header_block jc fh"] len by auto
  have size: "0 \<le> fh_size fh" "fh_size fh < 8 ^ 11" using file_header_size [OF hd fi] by auto
  have wi: "wi_ok fi" using fi by (simp add: good_info_def)
  show ?thesis
  proof (cases "0 < fh_size fh \<and> \<not> fh_isdir fh \<and> fh_linkflag fh = 0")
    case False
    then have "tarfileout jc jb False fname t path fi lst reads st = Some (True, st1)"
      using hd 1(1) wi by (auto simp: tarfileout_def)
    moreover have "entry_bytes jc t reads fh = header_block jc fh" using False by (auto simp: entry_bytes_def)
    ultimately show ?thesis using 1 by simp
  next
    case True
    from reads [OF True] obtain rs0 where rs0: "reads = Some rs0"
      "list_all (\<lambda>r. r \<noteq> None \<and> r \<noteq> Some [] \<and> length (the r) \<le> TBLOCK) rs0"
      by (auto simp: good_file_def split: option.splits)
    define rs where "rs = map the rs0"
    have rs: "reads = Some (file_reads rs)" "\<forall>r \<in> set rs. r \<noteq> [] \<and> length r \<le> TBLOCK"
      using rs0 by (auto simp: rs_def file_reads_def list_all_iff intro!: map_idI [symmetric])
    have d: "data_of reads = concat rs" by (simp add: rs(1) data_of_def file_reads_def comp_def)
    obtain st2 where 2: "copyfile_out jb (Some (file_reads rs)) fh t st1 = Some (True, st2)" "wt_ok st2"
        "written st2 = written st1 @ padded_data t (concat rs) (padded (fh_size fh))"
      using copyfile_out_stream [OF 1(2) jb size rs(2)] by blast
    have "tarfileout jc jb False fname t path fi lst reads st = Some (True, st2)"
      using hd 1(1) 2(1) wi True rs(1) by (simp add: tarfileout_def)
    with 1 2 True d show ?thesis by (simp add: entry_bytes_def)
  qed
qed

lemma putnode_stream:
  assumes jb: "length jb = 2 * TBLOCK"
  shows "length jc = 10 \<Longrightarrow> wt_ok st \<Longrightarrow> good_node nd \<Longrightarrow> node_bytes jc path fname nd = Some bs \<Longrightarrow>
      \<exists>st'. putnode jc jb False path fname nd st = Some (True, st') \<and> wt_ok st' \<and> written st' = written st @ bs"
    and "length jc = 10 \<Longrightarrow> wt_ok st \<Longrightarrow> good_entries es \<Longrightarrow> entries_bytes jc path es = Some bs \<Longrightarrow>
      \<exists>st'. putentries jc jb False path es st = Some (True, st') \<and> wt_ok st' \<and> written st' = written st @ bs"
proof (induction jc path fname nd and jc path es arbitrary: st bs and st bs rule: node_bytes_entries_bytes.induct)
  case (1 jc path fname fi t reads)
  then obtain fh where "file_header fname t path fi None = Some fh" "bs = entry_bytes jc t reads fh" by auto
  with 1 show ?case
    using tarfileout_stream [OF "1.prems"(2,1) jb, of fi fname t path None fh reads] by simp
next
  case (2 jc path fname fi l nd)
  then obtain fh where fh: "file_header fname W_SYMLINK path fi (Some l) = Some fh"
    "bs = entry_bytes jc W_SYMLINK None fh" by auto
  then have "fh_size fh = 0"
    by (auto simp: file_header_def Let_def Option.bind_eq_Some_conv split: if_splits option.splits)
  with fh 2 show ?case
    using tarfileout_stream [OF "2.prems"(2,1) jb, of fi fname W_SYMLINK path "Some l" fh None] by simp
next
  case (3 jc path fname fi opens enters entries)
  then obtain fh np rest where fh: "file_header fname W_DIRECTORY path fi None = Some fh"
    "subpath path fname = Some np" "entries_bytes jc np entries = Some rest"
    "bs = entry_bytes jc W_DIRECTORY None fh @ rest" by (auto simp: Option.bind_eq_Some_conv)
  have "fh_isdir fh"
    using fh(1) by (auto simp: file_header_def Let_def Option.bind_eq_Some_conv split: if_splits option.splits)
  with 3 fh(1) obtain st1 where 1: "tarfileout jc jb False fname W_DIRECTORY path fi None None st = Some (True, st1)"
      "wt_ok st1" "written st1 = written st @ entry_bytes jc W_DIRECTORY None fh"
    using tarfileout_stream [OF "3.prems"(2,1) jb, of fi fname W_DIRECTORY path None fh None] by auto
  from "3.IH" [OF fh(1,2) "3.prems"(1) 1(2) _ fh(3)] "3.prems"(3) obtain st2 where
    "putentries jc jb False np entries st1 = Some (True, st2)" "wt_ok st2" "written st2 = written st1 @ rest"
    by auto
  with 1 fh "3.prems"(3) show ?case by simp
next
  case (4 jc path)
  then show ?case by simp
next
  case (5 jc path fname nd entries)
  then obtain b rest where b: "node_bytes jc path fname nd = Some b" "entries_bytes jc path entries = Some rest"
    "bs = b @ rest" by (auto simp: Option.bind_eq_Some_conv)
  from "5.IH"(1) [OF "5.prems"(1,2) _ b(1)] "5.prems"(3) obtain st1 where
    1: "putnode jc jb False path fname nd st = Some (True, st1)" "wt_ok st1" "written st1 = written st @ b"
    by auto
  from "5.IH"(2) [OF b(1) "5.prems"(1) 1(2) _ b(2)] "5.prems"(3) obtain st2 where
    "putentries jc jb False path entries st1 = Some (True, st2)" "wt_ok st2" "written st2 = written st1 @ rest"
    by auto
  with 1 b show ?case by simp
qed

text \<open>
  \<open>wtar\<close> writes the archive of the trees that the names on its command line lead to: its bytes, two zero
  blocks, in full records.
\<close>

abbreviation followed_args :: "(byte list \<times> wnode) list \<Rightarrow> (byte list \<times> wnode) list" where
  "followed_args flist \<equiv> map (map_prod id followed) flist"

lemma putargs_entries: "putargs jc jb omit flist st = putentries jc jb omit [] (followed_args flist) st"
  by (induction flist arbitrary: st) (auto split: wnode.split option.split bool.split)

lemma wtar_stream:
  assumes "length jc = 10" "length jb = 2 * TBLOCK" "good_entries (followed_args flist)"
    "entries_bytes jc [] (followed_args flist) = Some bs"
  shows "\<exists>st. wtar jc jb False flist [] = Some (True, st)
    \<and> tape_of (bs @ replicate (2 * TBLOCK) 0) (wt_tape st)"
proof -
  let ?st = "\<lparr>wt_tapeblock = replicate SZ_TAPEBUFFER 0, wt_nextblock = 0, wt_nblocks = 0,
               wt_tape = [], wt_results = [], wt_nerrs = 0\<rparr>"
  have "wt_ok ?st" "written ?st = []" by (simp_all add: wt_ok_def written_def)
  with putnode_stream(2) [OF assms(2,1) _ assms(3,4), of ?st] obtain st1 where
    1: "putargs jc jb False flist ?st = Some (True, st1)" "wt_ok st1" "written st1 = bs"
    by (auto simp: putargs_entries)
  from endtar_stream [OF 1(2)] 1 show ?thesis by (auto simp: wtar_def Let_def)
qed

subsection \<open>Reading the data of a file\<close>

context file_writer
begin

text \<open>
  A binary file is extracted with exactly the bytes that its header announces, and the reader is
  then at the next header.
\<close>

lemma copyfile_in_stream:
  assumes "h_write ops = wr" "rt_ok st" "ok (rt_host st)" "fh_linkflag fh = 0"
    "ftype = BINARY_FILE \<or> \<not> stripblanks" "padded (fh_size fh) \<le> length (pending st)"
  shows "\<exists>st'. copyfile_in ops stripblanks padbuf fh ftype st = Some (Copied, st') \<and> rt_ok st'
    \<and> pending st' = drop (padded (fh_size fh)) (pending st) \<and> ok (rt_host st')
    \<and> contents (rt_host st') = contents (rt_host st) @ take (nat (fh_size fh)) (pending st)"
proof -
  let ?n = "fh_size fh"
  from copy_loop_stream [OF assms(1-3) order_refl assms(6)] obtain k st' where k:
    "copy_loop ops 0 ?n st = Some (Some (?n - int (TBLOCK * k)), st')"
    "?n - int (TBLOCK * k) \<le> 0" "0 < k \<longrightarrow> 0 < ?n - int (TBLOCK * k) + int TBLOCK"
    "rt_ok st'" "pending st' = drop (TBLOCK * k) (pending st)" "ok (rt_host st')"
    "contents (rt_host st') = contents (rt_host st) @ take (min (nat ?n) (TBLOCK * k)) (pending st)"
    by blast
  have p: "padded ?n = TBLOCK * k" using k(2,3) by (intro padded_unique) auto
  have m: "min (nat ?n) (TBLOCK * k) = nat ?n" using k(2) by simp
  from k p m assms show ?thesis by (auto simp: copyfile_in_def)
qed

end

subsection \<open>The end of an archive, and a header that is refused\<close>

lemma getheader_end:
  assumes "rt_ok st" "take TBLOCK (pending st) = replicate TBLOCK 0"
  shows "\<exists>st'. getheader tck fh0 st = Some (Hdr_EOF, st') \<and> rt_host st' = rt_host st"
proof -
  have "pending st \<noteq> []" using assms(2) by auto
  from getblock_stream [OF assms(1) this] obtain bp st1 where g: "getblock st = (Some bp, st1)"
    "bp + TBLOCK \<le> SZ_TAPEBUFFER" "slice (rt_tapeblock st1) bp TBLOCK = take TBLOCK (pending st)"
    and s: "rt_ok st1" "rt_host st1 = rt_host st"
    by metis
  have z: "cchksum (replicate TBLOCK 0) = 0"
    by (simp add: cchksum_sum sum_list_replicate)
  have "check_header bp tck st1 = Some (Zero_block, tck, st1)"
    using g s z by (simp add: check_header_def assms(2) rt_ok_def)
  with g have "find_header 0 tck st = Some (At_end, st1)" by (subst find_header.simps) simp
  with s show ?thesis by (simp add: getheader_def)
qed

text \<open>
  A header whose bytes, as signed characters, have a negative sum is not accepted: the checksum
  field cannot hold the sum.
\<close>

lemma check_header_negative:
  assumes "length junk = 10" "cchksum (header_image fh) < 0"
    "length (rt_tapeblock st) = SZ_TAPEBUFFER" "hb + TBLOCK \<le> SZ_TAPEBUFFER"
    "slice (rt_tapeblock st) hb TBLOCK = header_block junk fh"
  shows "\<exists>tck' st'. check_header hb tck st = Some (Bad_sum, tck', st')"
proof -
  let ?tb = "rt_tapeblock st" and ?ck = "cchksum (header_image fh)"
  obtain chk where hd: "header_block junk fh = header_layout fh chk" and len: "length chk = 8"
    and c: "chk = take 8 (snprintf_o 8 6 [] (arg_o ?ck) @ [junk ! 7]) \<or> chk = snprintf_o 8 6 [] (arg_o ?ck)"
    using header_block_layout [OF assms(1)] by metis
  have bounds: "- 65536 \<le> ?ck"
    using cchksum_bounds [of "header_image fh"] by (simp add: header_image_layout length_header_layout)
  have sn: "length (snprintf_o 8 6 [] (arg_o ?ck)) \<le> 8"
    by (auto simp: snprintf_o_def Let_def)
  obtain x where x: "chk = snprintf_o 8 6 [] (arg_o ?ck) @ x"
    using c sn len by (cases "length (snprintf_o 8 6 [] (arg_o ?ck)) = 8") auto
  obtain rest where tb: "drop hb ?tb = header_layout fh chk @ rest"
    using drop_slice [of hb TBLOCK ?tb] assms(3-5) hd by simp
  from drop_layout [OF len _ tb, of OFF_chksum chk] header_layout_drops(7) [OF len, of fh]
  obtain r where r: "drop (hb + OFF_chksum) ?tb = snprintf_o 8 6 [] (arg_o ?ck) @ x @ r"
    by (auto simp: x)
  have tck: "0 \<le> sscanf_o tck (drop (hb + OFF_chksum) ?tb)"
    unfolding r by (rule negative_field [OF bounds assms(2)])
  have first: "header_layout fh chk ! OFF_chksum \<noteq> 0"
    using layout_chksum_nth [OF len, of fh] snprintf_o_first [of 8 6 "[]" "arg_o ?ck" x] by (simp add: x)
  have blank: "slice (blit ?tb (hb + OFF_chksum) (replicate 8 32)) hb TBLOCK = header_image fh"
    using slice_blit_inside [of OFF_chksum "replicate 8 32" TBLOCK hb ?tb] assms(3-5) len
    by (simp add: hd blit_chksum header_image_layout)
  show ?thesis
    using assms(2-4) first tck blank by (auto simp: check_header_def assms(5) hd Let_def)
qed

subsection \<open>A reader at the start of a tape\<close>

definition rt_start :: "byte list list \<Rightarrow> 'h \<Rightarrow> 'h rt" where
  "rt_start recs h = \<lparr>rt_eof = False, rt_nblocks = 0, rt_nextblock = 0,
     rt_tapeblock = replicate SZ_TAPEBUFFER 0,
     rt_tape = \<lparr>tp_ftype = TF_BINARY, tp_ateof = False, tp_reads = map (\<lambda>r. (Some r, False)) recs\<rparr>,
     rt_nerrs = 0, rt_host = h\<rparr>"

lemma rt_start_ok:
  assumes "\<forall>r \<in> set recs. length r mod TBLOCK = 0 \<and> TBLOCK \<le> length r \<and> length r \<le> SZ_TAPEBUFFER"
  shows "rt_ok (rt_start recs h)"
  using assms by (auto simp: rt_ok_def rt_start_def good_reads_def list_all_iff)

lemma rt_start_pending: "pending (rt_start recs h) = concat recs"
  by (simp add: pending_def rt_start_def reads_bytes_def comp_def slice_def)

lemma rt_start_host [simp]: "rt_host (rt_start recs h) = h"
  by (simp add: rt_start_def)

lemma tape_of_start:
  assumes "tape_of bs recs"
  shows "rt_ok (rt_start recs h)" and "\<exists>rest. pending (rt_start recs h) = bs @ rest"
  using assms by (auto simp: tape_of_def list_all_iff rt_start_pending intro!: rt_start_ok)

lemma length_header_block: "length jc = 10 \<Longrightarrow> length (header_block jc fh) = TBLOCK"
  using header_block_layout [of jc fh] length_header_layout by metis

text \<open>A host on which only the contents of the file being written matter.\<close>

definition sink_ops :: "outfile hostops" where
  "sink_ops = \<lparr>h_write = os_write, h_close = os_close, h_isdir = \<lambda>h path. True,
     h_createdir = \<lambda>h path mode. (True, h), h_createfile = \<lambda>h path mode type. (True, h),
     h_delete = \<lambda>h path. h, h_symlink = \<lambda>h a b. h, h_fcopy = \<lambda>h a b. (True, h),
     h_setfmode = \<lambda>h path mode. h, h_setowner = \<lambda>h path uid gid. h, h_setmtime = \<lambda>h path t. h\<rparr>"

abbreviation "empty_sink \<equiv> \<lparr>of_binary = True, of_text = [], of_bytes = [], of_results = []\<rparr>"

text \<open>One entry: its header is read, then its data, and the reader is at the next entry.\<close>

context file_writer
begin

lemma extract_entry:
  assumes ops: "h_write ops = wr" and st: "rt_ok st" "ok (rt_host st)" and jc: "length jc = 10"
    and fits: "fits_header fh" and sum: "0 \<le> cchksum (header_image fh)"
    and plain: "fh_linkflag fh = 0" "\<not> fh_isdir fh"
    and p: "pending st = header_block jc fh @ padded_data t bs (padded (fh_size fh)) @ rest"
  shows "\<exists>st1 st2. getheader tck fh0 st = Some (Header (decoded fh0 fh), st1)
    \<and> copyfile_in ops strip padbuf (decoded fh0 fh) BINARY_FILE st1 = Some (Copied, st2)
    \<and> rt_ok st2 \<and> ok (rt_host st2) \<and> pending st2 = rest
    \<and> contents (rt_host st2) = contents (rt_host st) @ padded_data t bs (nat (fh_size fh))"
proof -
  let ?n = "fh_size fh"
  note len = length_header_block [OF jc, of fh]
  obtain st1 where 1: "getheader tck fh0 st = Some (Header (decoded fh0 fh), st1)" "rt_ok st1"
      "pending st1 = drop TBLOCK (pending st)" "rt_host st1 = rt_host st"
    using getheader_stream [OF st(1) jc fits sum, of tck fh0] p len by auto
  have p1: "pending st1 = padded_data t bs (padded ?n) @ rest" using 1(3) p len by simp
  have lp: "length (padded_data t bs (padded ?n)) = padded ?n" by (simp add: padded_data_def)
  have d: "fh_linkflag (decoded fh0 fh) = 0" "fh_size (decoded fh0 fh) = ?n"
    using plain by (simp_all add: decoded_def)
  obtain st2 where 2: "copyfile_in ops strip padbuf (decoded fh0 fh) BINARY_FILE st1 = Some (Copied, st2)"
      "rt_ok st2" "pending st2 = drop (padded ?n) (pending st1)" "ok (rt_host st2)"
      "contents (rt_host st2) = contents (rt_host st1) @ take (nat ?n) (pending st1)"
    using copyfile_in_stream [OF ops 1(2), of "decoded fh0 fh" BINARY_FILE strip padbuf] st(2) 1(4) d p1 lp
    by auto
  have "nat ?n \<le> padded ?n" using padded_ge [of ?n] by simp
  then have "take (nat ?n) (pending st1) = padded_data t bs (nat ?n)"
    using p1 lp by (simp add: padded_data_def take_map min_def)
  moreover have "pending st2 = rest" unfolding 2(3) p1 using lp by simp
  ultimately show ?thesis using 1(1,4) 2(1,2,4,5) by auto
qed

end

theorem skipfile_stream_witness:
  "rt_ok (skipfile (zero_header\<lparr>fh_size := 513\<rparr>) (rt_start [replicate 1536 7] ()))
    \<and> pending (skipfile (zero_header\<lparr>fh_size := 513\<rparr>) (rt_start [replicate 1536 7] ()))
        = drop (padded (fh_size (zero_header\<lparr>fh_size := 513\<rparr>))) (pending (rt_start [replicate 1536 7] ()))
    \<and> rt_host (skipfile (zero_header\<lparr>fh_size := 513\<rparr>) (rt_start [replicate 1536 7] ()))
        = rt_host (rt_start [replicate 1536 7] ())"
  by (rule skipfile_stream) (simp_all add: rt_start_ok rt_start_pending padded_def zero_header_def)

end
