(* ===== verification/Tar_Text.thy ===== *)
theory Tar_Text
  imports Tar_Stream
begin

text \<open>
  The text side of \<open>rtar\<close>: which blanks \<open>strip_blanks\<close> removes from the end of a file, that it
  reads one byte past the tape buffer in one position of the file, and what \<open>matchfile\<close> matches.
\<close>

subsection \<open>\<open>strip_blanks\<close>\<close>

lemma back_loop_pad:
  assumes "0 < j" "j \<le> ip" "\<forall>i. j < i \<and> i \<le> ip \<longrightarrow> pb ! i = 10 \<or> pb ! i = 32"
    "pb ! j = 10" "pb ! (j - 1) \<noteq> 10" "pb ! (j - 1) \<noteq> 32"
  shows "back_loop pb ip lastnl = j"
  using assms
proof (induction ip arbitrary: lastnl)
  case 0
  then show ?case by simp
next
  case (Suc ip)
  show ?case
  proof (cases "j = Suc ip")
    case True
    with Suc.prems show ?thesis by (cases ip) auto
  next
    case False
    with Suc.prems have le: "j \<le> ip" by simp
    have "pb ! Suc ip = 10 \<or> pb ! Suc ip = 32" using Suc.prems False by auto
    with Suc.IH [OF Suc.prems(1) le _ Suc.prems(4-6)] Suc.prems(3) show ?thesis by auto
  qed
qed

text \<open>
  The pad buffer gets the bytes of the file that are left, when they lie in the tape buffer and are
  not its very last ones.
\<close>

lemma fill_pad_buffered:
  assumes "rt_ok st" "0 \<le> n" "padded n \<le> TBLOCK * nat (rt_nblocks st)"
    "rt_nextblock st + nat n < SZ_TAPEBUFFER" "op + nat n < length pb"
  shows "\<exists>pb' st'. fill_pad n pb op st = Some (pb', op + nat n, st') \<and> length pb' = length pb
    \<and> take (op + nat n) pb' = take op pb @ slice (rt_tapeblock st) (rt_nextblock st) (nat n)
    \<and> rt_ok st' \<and> pending st' = drop (padded n) (pending st) \<and> rt_host st' = rt_host st"
  using assms
proof (induction n pb op st rule: fill_pad.induct)
  case (1 n pb op st)
  show ?case
  proof (cases "0 < n")
    case False
    with "1.prems" show ?thesis by (subst fill_pad.simps) simp
  next
    case True
    let ?nb = "rt_nextblock st" and ?tb = "rt_tapeblock st"
    let ?k = "if n < int TBLOCK then nat n else TBLOCK"
    let ?st1 = "st\<lparr>rt_nblocks := rt_nblocks st - 1, rt_nextblock := ?nb + TBLOCK\<rparr>"
    have pad: "padded n = TBLOCK + padded (n - int TBLOCK)" using padded_step [OF True] .
    with "1.prems" have nb: "1 \<le> rt_nblocks st"
      by (cases "rt_nblocks st \<le> 0") auto
    have len: "length ?tb = SZ_TAPEBUFFER" using "1.prems"(1) by (simp add: rt_ok_def)
    have g: "getblock st = (Some ?nb, ?st1)"
      using nb "1.prems"(1) by (simp add: getblock_buffered rt_ok_def)
    have "pending st \<noteq> []"
      using nb "1.prems"(1) by (auto simp: pending_def rt_ok_def slice_def)
    from getblock_stream [OF "1.prems"(1) this] g
    have s: "rt_ok ?st1" "pending ?st1 = drop TBLOCK (pending st)" by fastforce+
    have k: "?k \<le> nat n" by (auto simp: le_nat_iff)
    let ?pb = "blit pb op (slice ?tb ?nb (?k + 1))"
    have mv: "move_bytes ?tb ?nb pb op (?k + 1) = Some ?pb"
      using "1.prems"(4,5) len k by (simp add: move_bytes_def)
    have step: "fill_pad n pb op st = fill_pad (n - int ?k) ?pb (op + ?k) ?st1"
      using True g mv by (subst fill_pad.simps) (simp add: Let_def)
    have lpb: "length ?pb = length pb"
      using "1.prems"(4,5) len k by (simp add: blit_simps length_slice)
    have tk: "take (op + ?k) ?pb = take op pb @ slice ?tb ?nb ?k"
    proof -
      have "take (op + ?k) ?pb = take op pb @ take ?k (slice ?tb ?nb (?k + 1))"
        using "1.prems"(4,5) len k by (simp add: blit_def length_slice)
      then show ?thesis by (simp add: take_slice)
    qed
    show ?thesis
    proof (cases "n < int TBLOCK")
      case True
      with \<open>0 < n\<close> have "fill_pad (n - int ?k) ?pb (op + ?k) ?st1 = Some (?pb, op + nat n, ?st1)"
        by (subst fill_pad.simps) simp
      with step lpb tk s True pad show ?thesis by simp
    next
      case False
      let ?m = "n - int TBLOCK"
      have n: "nat n = TBLOCK + nat ?m" using False by simp
      have nbk: "TBLOCK * nat (rt_nblocks st) = TBLOCK + TBLOCK * nat (rt_nblocks ?st1)"
        using nb by (simp add: nat_diff_distrib)
      have kT: "?k = TBLOCK" using False by simp
      have mv': "move_bytes (rt_tapeblock ?st1) ?nb pb op (?k + 1) = Some ?pb" using mv by simp
      have ih: "\<exists>pb' st'. fill_pad (n - int ?k) ?pb (op + ?k) ?st1 = Some (pb', op + ?k + nat (n - int ?k), st')
          \<and> length pb' = length ?pb
          \<and> take (op + ?k + nat (n - int ?k)) pb' = take (op + ?k) ?pb
              @ slice (rt_tapeblock ?st1) (rt_nextblock ?st1) (nat (n - int ?k))
          \<and> rt_ok st' \<and> pending st' = drop (padded (n - int ?k)) (pending ?st1) \<and> rt_host st' = rt_host ?st1"
        using False "1.prems" s(1) pad n nbk lpb
        by (intro "1.IH" [OF \<open>0 < n\<close> g [symmetric] _ _ mv']) simp_all
      have sp: "slice ?tb ?nb (nat n) = slice ?tb ?nb TBLOCK @ slice ?tb (?nb + TBLOCK) (nat ?m)"
        by (simp only: n slice_add)
      from ih obtain pb' st' where r: "fill_pad ?m ?pb (op + TBLOCK) ?st1 = Some (pb', op + TBLOCK + nat ?m, st')"
        "length pb' = length ?pb" "take (op + TBLOCK + nat ?m) pb' = take (op + TBLOCK) ?pb
              @ slice (rt_tapeblock ?st1) (rt_nextblock ?st1) (nat ?m)"
        "rt_ok st'" "pending st' = drop (padded ?m) (pending ?st1)" "rt_host st' = rt_host ?st1"
        unfolding kT by blast
      have step': "fill_pad n pb op st = fill_pad ?m ?pb (op + TBLOCK) ?st1" using step unfolding kT .
      have e: "op + nat n = op + TBLOCK + nat ?m" using n by simp
      show ?thesis
        unfolding step' e sp pad
        using r lpb tk False s(2) by (intro exI [of _ pb'] exI [of _ st']) (simp add: add.commute)
    qed
  qed
qed

text \<open>
  C23: Extracting the rest of a text file: the newlines and blanks that pad it at the end are left out,
  but for the newline that ends the last line with something on it.
\<close>

theorem strip_blanks_text:
  assumes "rt_ok st" "length pb = nat SZ_PADBUF + 10" "n \<le> SZ_PADBUF"
    "padded n \<le> TBLOCK * nat (rt_nblocks st)" "rt_nextblock st + nat n < SZ_TAPEBUFFER"
    "take (nat n) (pending st) = body @ [c] @ [10] @ pad" "c \<noteq> 10" "c \<noteq> 32" "set pad \<subseteq> {10, 32}"
  shows "\<exists>st'. strip_blanks ops pb n st = Some st' \<and> rt_ok st' \<and> pending st' = drop (padded n) (pending st)
    \<and> rt_host st' = snd (h_write ops (rt_host st) (body @ [c] @ [10]))"
proof -
  have n0: "0 \<le> n" using assms(6) by (cases "0 \<le> n") auto
  have "take (nat n) (pending st) = slice (rt_tapeblock st) (rt_nextblock st) (nat n)"
  proof -
    have "nat n \<le> TBLOCK * nat (rt_nblocks st)" using padded_ge [of n] assms(4) n0 by linarith
    moreover have "length (slice (rt_tapeblock st) (rt_nextblock st) (TBLOCK * nat (rt_nblocks st)))
        = TBLOCK * nat (rt_nblocks st)"
      using assms(1) by (intro length_slice) (simp add: rt_ok_def)
    ultimately show ?thesis by (simp add: pending_def take_slice)
  qed
  moreover have "0 + nat n < length pb" using assms(2,3) n0 by (simp add: nat_less_iff)
  ultimately obtain pb' st' where f:
    "fill_pad n pb 0 st = Some (pb', nat n, st')" "take (nat n) pb' = take (nat n) (pending st)"
    "rt_ok st'" "pending st' = drop (padded n) (pending st)" "rt_host st' = rt_host st"
    "length pb' = length pb"
    using fill_pad_buffered [OF assms(1) n0 assms(4,5), of 0 pb] by auto
  let ?j = "length body + 1"
  have len: "nat n = length body + 2 + length pad"
  proof -
    have "nat n \<le> length pb'" using f(6) assms(2,3) by simp
    then have "length (take (nat n) pb') = nat n" by simp
    with f(2) assms(6) show ?thesis by simp
  qed
  have nth: "pb' ! i = (body @ [c] @ [10] @ pad) ! i" if "i < nat n" for i
    using f(2) assms(6) that by (metis nth_take)
  have "back_loop pb' (nat n - 1) (nat n - 1) = ?j"
  proof (rule back_loop_pad)
    show "\<forall>i. ?j < i \<and> i \<le> nat n - 1 \<longrightarrow> pb' ! i = 10 \<or> pb' ! i = 32"
    proof (intro allI impI)
      fix i assume i: "?j < i \<and> i \<le> nat n - 1"
      with len have "(body @ [c] @ [10] @ pad) ! i \<in> set pad" by (auto simp: nth_append intro!: nth_mem)
      with i nth len assms(9) show "pb' ! i = 10 \<or> pb' ! i = 32" by auto
    qed
  qed (use nth len assms(7,8) in \<open>auto simp: nth_append\<close>)
  moreover have "take (?j + 1) pb' = body @ [c] @ [10]"
  proof -
    have "take (?j + 1) pb' = take (?j + 1) (take (nat n) pb')" using len by simp
    then show ?thesis using f(2) assms(6) by simp
  qed
  ultimately show ?thesis
    using f len by (simp add: strip_blanks_def)
qed

abbreviation "text_start \<equiv> (rt_start [] empty_sink)\<lparr>rt_nblocks := 2,
  rt_tapeblock := [65, 10, 32, 10, 32] @ replicate 10235 0\<rparr>"

theorem strip_blanks_text_witness:
  "\<exists>st'. strip_blanks sink_ops (replicate 8206 0) 5 text_start = Some st' \<and> rt_ok st'
    \<and> pending st' = drop (padded 5) (pending text_start)
    \<and> rt_host st' = snd (h_write sink_ops (rt_host text_start) ([] @ [65] @ [10]))"
  by (rule strip_blanks_text [where pad = "[32, 10, 32]"])
     (simp_all add: rt_ok_def rt_start_def padded_def pending_def slice_def)

text \<open>
  C27: When a whole block that is copied is the last one of the tape buffer, \<open>n + sizeof(XCHAR) - 1\<close> is one
  byte too many: the copy reads past the end of \<open>tapeblock\<close>.
\<close>

theorem strip_blanks_overrun:
  assumes "rt_ok st" "int TBLOCK \<le> n" "rt_nblocks st = 1" "rt_nextblock st + TBLOCK = SZ_TAPEBUFFER"
  shows "strip_blanks ops pb n st = None"
proof -
  have g: "getblock st = (Some (rt_nextblock st), st\<lparr>rt_nblocks := 0, rt_nextblock := SZ_TAPEBUFFER\<rparr>)"
    using assms by (simp add: getblock_buffered rt_ok_def)
  have "move_bytes (rt_tapeblock st) (rt_nextblock st) pb 0 (TBLOCK + 1) = None"
    using assms by (simp add: move_bytes_def rt_ok_def)
  then have "fill_pad n pb 0 st = None"
    using g assms(2) by (subst fill_pad.simps) (simp add: Let_def)
  then show ?thesis by (simp add: strip_blanks_def)
qed

theorem strip_blanks_overrun_witness:
  "strip_blanks sink_ops (replicate 8206 0) 600 ((rt_start [] empty_sink)\<lparr>rt_nblocks := 1, rt_nextblock := 9728\<rparr>) = None"
  by (rule strip_blanks_overrun) (simp_all add: rt_ok_def rt_start_def)

subsection \<open>\<open>matchfile\<close>\<close>

lemma match_scan_spec:
  "0 \<notin> set f \<Longrightarrow> 0 \<notin> set fn \<Longrightarrow> match_scan f fn prev = (ln, p) \<Longrightarrow>
   (ln = [] \<longleftrightarrow> take (length f) fn = f \<and> length f \<le> length fn)
   \<and> (f \<noteq> [] \<longrightarrow> (ln \<noteq> [] \<and> hd ln = 36 \<and> p = 0 \<longleftrightarrow> (\<exists>r. f = fn @ 36 # r)))"
proof (induction f fn prev rule: match_scan.induct)
  case (1 fn prev)
  then show ?case by auto
next
  case (2 l f fn prev)
  show ?case
  proof (cases fn)
    case Nil
    with 2 show ?thesis by (auto simp: Let_def)
  next
    case (Cons d ds)
    show ?thesis
    proof (cases "l = d")
      case False
      with 2 Cons show ?thesis by (auto simp: Let_def)
    next
      case True
      with 2 Cons have e: "match_scan f ds d = (ln, p)" by (auto simp: Let_def)
      have ih: "(ln = [] \<longleftrightarrow> take (length f) ds = f \<and> length f \<le> length ds)
          \<and> (f \<noteq> [] \<longrightarrow> (ln \<noteq> [] \<and> hd ln = 36 \<and> p = 0 \<longleftrightarrow> (\<exists>r. f = ds @ 36 # r)))"
        using "2.IH" [OF refl] True Cons "2.prems" e by auto
      show ?thesis
      proof (cases "f = []")
        case True
        with e Cons \<open>l = d\<close> show ?thesis by auto
      next
        case False
        with ih Cons \<open>l = d\<close> show ?thesis by auto
      qed
    qed
  qed
qed

text \<open>
  A list element matches a name when it is a prefix of it, or the name followed by a dollar sign
  (and anything after that).
\<close>

theorem match_one_iff:
  assumes "f \<noteq> []" "fname \<noteq> []" "0 \<notin> set f" "0 \<notin> set fname"
  shows "match_one fname f \<longleftrightarrow> (\<exists>r. fname = f @ r) \<or> (\<exists>r. f = fname @ 36 # r)"
proof -
  obtain ln p where m: "match_scan f fname 0 = (ln, p)" by (cases "match_scan f fname 0")
  have pre: "take (length f) fname = f \<and> length f \<le> length fname \<longleftrightarrow> (\<exists>r. fname = f @ r)"
    by (metis append_eq_conv_conj le_Suc_ex length_append le_add1)
  have fst: "(\<exists>r. fname = f @ r) \<or> (\<exists>r. f = fname @ 36 # r) \<longrightarrow> first_char f = first_char fname"
    using assms(1,2) by (cases f; cases fname) (auto simp: first_char_def)
  from match_scan_spec [OF assms(3,4) m] m pre fst assms(1) show ?thesis
    by (auto simp: match_one_def)
qed

theorem match_one_iff_witness:
  "match_one [97, 98, 99] [97, 98, 99, 36] \<longleftrightarrow>
     (\<exists>r. [97, 98, 99 :: byte] = [97, 98, 99, 36] @ r) \<or> (\<exists>r. [97, 98, 99, 36] = [97, 98, 99 :: byte] @ 36 # r)"
  by (rule match_one_iff) simp_all

end
