(* ===== verification/Libc_Ctype.thy ===== *)
theory Libc_Ctype
  imports Prelude
begin

unbundle bit_operations_syntax

text \<open>
  The character classes of \<open>sys/libc/ctype.c\<close>: the table \<open>u_ctype_\<close> with the masks of
  \<open>unix/hlib/libc/ctype.h\<close>, and the predicates on it.  A predicate is false outside the seven bit
  range, where the table is not consulted.
\<close>

abbreviation ct_U :: nat where "ct_U \<equiv> 1"
abbreviation ct_L :: nat where "ct_L \<equiv> 2"
abbreviation ct_N :: nat where "ct_N \<equiv> 4"
abbreviation ct_S :: nat where "ct_S \<equiv> 8"
abbreviation ct_P :: nat where "ct_P \<equiv> 16"
abbreviation ct_C :: nat where "ct_C \<equiv> 32"
abbreviation ct_X :: nat where "ct_X \<equiv> 64"

definition u_ctype :: "nat list" where
  "u_ctype = [0,
    ct_C, ct_C, ct_C, ct_C, ct_C, ct_C, ct_C, ct_C,
    ct_C, ct_S, ct_S, ct_S, ct_S, ct_S, ct_C, ct_C,
    ct_C, ct_C, ct_C, ct_C, ct_C, ct_C, ct_C, ct_C,
    ct_C, ct_C, ct_C, ct_C, ct_C, ct_C, ct_C, ct_C,
    ct_S, ct_P, ct_P, ct_P, ct_P, ct_P, ct_P, ct_P,
    ct_P, ct_P, ct_P, ct_P, ct_P, ct_P, ct_P, ct_P,
    ct_N, ct_N, ct_N, ct_N, ct_N, ct_N, ct_N, ct_N,
    ct_N, ct_N, ct_P, ct_P, ct_P, ct_P, ct_P, ct_P,
    ct_P, 65, 65, 65, 65, 65, 65, ct_U,
    ct_U, ct_U, ct_U, ct_U, ct_U, ct_U, ct_U, ct_U,
    ct_U, ct_U, ct_U, ct_U, ct_U, ct_U, ct_U, ct_U,
    ct_U, ct_U, ct_U, ct_P, ct_P, ct_P, ct_P, ct_P,
    ct_P, 66, 66, 66, 66, 66, 66, ct_L,
    ct_L, ct_L, ct_L, ct_L, ct_L, ct_L, ct_L, ct_L,
    ct_L, ct_L, ct_L, ct_L, ct_L, ct_L, ct_L, ct_L,
    ct_L, ct_L, ct_L, ct_P, ct_P, ct_P, ct_P, ct_C]"

definition isascii :: "int \<Rightarrow> bool" where
  "isascii c \<longleftrightarrow> to_uint c \<le> 127"

definition ct_class :: "nat \<Rightarrow> int \<Rightarrow> bool" where
  "ct_class cls c \<longleftrightarrow> isascii c \<and> (u_ctype ! (nat (to_uint c) + 1)) AND cls \<noteq> 0"

definition isalpha :: "int \<Rightarrow> bool" where "isalpha c = ct_class 3 c"
definition isupper :: "int \<Rightarrow> bool" where "isupper c = ct_class ct_U c"
definition islower :: "int \<Rightarrow> bool" where "islower c = ct_class ct_L c"
definition isdigit :: "int \<Rightarrow> bool" where "isdigit c = ct_class ct_N c"
definition isxdigit :: "int \<Rightarrow> bool" where "isxdigit c = ct_class 68 c"
definition isspace :: "int \<Rightarrow> bool" where "isspace c = ct_class ct_S c"
definition ispunct :: "int \<Rightarrow> bool" where "ispunct c = ct_class ct_P c"
definition isalnum :: "int \<Rightarrow> bool" where "isalnum c = ct_class 7 c"
definition isprint :: "int \<Rightarrow> bool" where "isprint c = ct_class 23 c"
definition iscntrl :: "int \<Rightarrow> bool" where "iscntrl c = ct_class ct_C c"

definition tolower :: "int \<Rightarrow> int" where "tolower c = c - 65 + 97"
definition tointeg :: "int \<Rightarrow> int" where "tointeg c = c - 48"

subsection \<open>What the classes are\<close>

lemma to_uint_ascii:
  assumes "- 2147483648 \<le> c" "c < 2147483648"
  shows "isascii c \<longleftrightarrow> 0 \<le> c \<and> c \<le> 127"
proof (cases "0 \<le> c")
  case True
  then show ?thesis using assms by (simp add: isascii_def)
next
  case False
  have "take_bit 32 (c + 2 ^ 32) = c + 2 ^ 32"
    using assms False by (intro take_bit_int_eq_self) auto
  moreover have "take_bit 32 (c + 2 ^ 32) = take_bit 32 c" by (simp add: take_bit_eq_mod)
  ultimately show ?thesis using assms False by (simp add: isascii_def to_uint_def)
qed

lemma ascii_table:
  "list_all (\<lambda>k. ct_class cls (int k) = Q (int k)) [0..<128] \<Longrightarrow>
   - 2147483648 \<le> c \<Longrightarrow> c < 2147483648 \<Longrightarrow> (\<And>x. Q x \<Longrightarrow> 0 \<le> x \<and> x \<le> 127) \<Longrightarrow> ct_class cls c = Q c"
proof -
  assume t: "list_all (\<lambda>k. ct_class cls (int k) = Q (int k)) [0..<128]"
    and c: "- 2147483648 \<le> c" "c < 2147483648" and q: "\<And>x. Q x \<Longrightarrow> 0 \<le> x \<and> x \<le> 127"
  show "ct_class cls c = Q c"
  proof (cases "0 \<le> c \<and> c \<le> 127")
    case True
    then have "nat c \<in> set [0..<128]" by (simp add: nat_less_iff)
    with t have "ct_class cls (int (nat c)) = Q (int (nat c))" by (simp only: list_all_iff)
    with True show ?thesis by simp
  next
    case False
    with q [of c] to_uint_ascii [OF c] show ?thesis by (auto simp: ct_class_def)
  qed
qed

lemma isdigit_iff:
  assumes "- 2147483648 \<le> c" "c < 2147483648"
  shows "isdigit c \<longleftrightarrow> 48 \<le> c \<and> c \<le> 57"
  unfolding isdigit_def
proof (rule ascii_table [OF _ assms])
  show "list_all (\<lambda>k. ct_class ct_N (int k) = (48 \<le> int k \<and> int k \<le> 57)) [0..<128]" by code_simp
qed simp

lemma isspace_iff:
  assumes "- 2147483648 \<le> c" "c < 2147483648"
  shows "isspace c \<longleftrightarrow> c = 32 \<or> 9 \<le> c \<and> c \<le> 13"
  unfolding isspace_def
proof (rule ascii_table [OF _ assms])
  show "list_all (\<lambda>k. ct_class ct_S (int k) = (int k = 32 \<or> 9 \<le> int k \<and> int k \<le> 13)) [0..<128]" by code_simp
qed auto

lemma isalnum_iff:
  assumes "- 2147483648 \<le> c" "c < 2147483648"
  shows "isalnum c \<longleftrightarrow> 48 \<le> c \<and> c \<le> 57 \<or> 65 \<le> c \<and> c \<le> 90 \<or> 97 \<le> c \<and> c \<le> 122"
  unfolding isalnum_def
proof (rule ascii_table [OF _ assms])
  show "list_all (\<lambda>k. ct_class 7 (int k) = (48 \<le> int k \<and> int k \<le> 57 \<or> 65 \<le> int k \<and> int k \<le> 90
      \<or> 97 \<le> int k \<and> int k \<le> 122)) [0..<128]" by code_simp
qed auto

lemma isprint_iff:
  assumes "- 2147483648 \<le> c" "c < 2147483648"
  shows "isprint c \<longleftrightarrow> 33 \<le> c \<and> c \<le> 126"
  unfolding isprint_def
proof (rule ascii_table [OF _ assms])
  show "list_all (\<lambda>k. ct_class 23 (int k) = (33 \<le> int k \<and> int k \<le> 126)) [0..<128]" by code_simp
qed auto

text \<open>A character of type \<open>char\<close>, promoted to \<open>int\<close>.\<close>

lemma sint_char_range [simp]: "- 2147483648 \<le> sint (c :: byte)" "sint (c :: byte) < 2147483648"
  using sint_range_size [of c] by (simp_all add: word_size)

lemmas char_class = isdigit_iff [of "sint (c :: byte)" for c, simplified]
  isspace_iff [of "sint (c :: byte)" for c, simplified] isalnum_iff [of "sint (c :: byte)" for c, simplified]

end
