(* ===== verification/Libc_Strings.thy ===== *)
theory Libc_Strings
  imports Libc_Ctype Spp_Strings
begin

text \<open>
  The string routines of IRAF's own C library (\<open>sys/libc\<close>): \<open>strlen\<close>, \<open>strcpy\<close>, \<open>strcat\<close>,
  \<open>strncat\<close>, \<open>strncpy\<close>, \<open>strcmp\<close>, \<open>strncmp\<close>, \<open>index\<close>, \<open>rindex\<close>, \<open>atoi\<close>, \<open>atol\<close>, and
  \<open>c_strpak\<close> and \<open>c_strupk\<close>, which convert between C and SPP strings.  They run on the byte memory
  of \<open>C_Memory\<close>, so that strings may share storage, and a string that is not ended runs into the
  end of the memory, which is a fault.
\<close>

subsection \<open>Loops over strings\<close>

text \<open>\<open>while (*ip++);\<close> leaves \<open>ip\<close> behind the \<open>EOS\<close>.\<close>

function skip_str :: "nat \<Rightarrow> mem \<Rightarrow> nat option" where
  "skip_str ip m = (case rd m ip of None \<Rightarrow> None
     | Some c \<Rightarrow> if c \<noteq> 0 then skip_str (ip + 1) m else Some (ip + 1))"
  by pat_completeness auto
termination
  by (relation "measure (\<lambda>(ip, m). length m - ip)") (auto dest: rd_SomeD)

declare skip_str.simps [simp del]

text \<open>\<open>while (*op++ = *ip++);\<close>\<close>

function copy_string :: "nat \<Rightarrow> nat \<Rightarrow> mem \<Rightarrow> mem option" where
  "copy_string ip op m = (case rd m ip of None \<Rightarrow> None
     | Some c \<Rightarrow> (case wr m op c of None \<Rightarrow> None
       | Some m' \<Rightarrow> if c \<noteq> 0 then copy_string (ip + 1) (op + 1) m' else Some m'))"
  by pat_completeness auto
termination
  by (relation "measure (\<lambda>(ip, op, m). length m - ip)") (auto dest!: rd_SomeD wr_SomeD)

declare copy_string.simps [simp del]

definition strlen :: "nat \<Rightarrow> mem \<Rightarrow> int option" where
  "strlen s m = do { ip \<leftarrow> skip_str s m; Some (int ip - int s - 1) }"

definition strcpy :: "nat \<Rightarrow> nat \<Rightarrow> mem \<Rightarrow> mem option" where
  "strcpy s1 s2 m = copy_string s2 s1 m"

definition strcat :: "nat \<Rightarrow> nat \<Rightarrow> mem \<Rightarrow> mem option" where
  "strcat s1 s2 m = do { op \<leftarrow> skip_str s1 m; copy_string s2 (op - 1) m }"

text \<open>
  The loop of \<open>strncat\<close>, \<open>(*op++ = *ip++) && --n >= 0\<close>, returns \<open>op\<close>; the last character that it
  stored is then replaced by the \<open>EOS\<close>.
\<close>

function strncat_loop :: "nat \<Rightarrow> nat \<Rightarrow> int \<Rightarrow> mem \<Rightarrow> (nat \<times> mem) option" where
  "strncat_loop ip op n m = (case rd m ip of None \<Rightarrow> None
     | Some c \<Rightarrow> (case wr m op c of None \<Rightarrow> None
       | Some m' \<Rightarrow> if c \<noteq> 0 \<and> 0 \<le> n - 1 then strncat_loop (ip + 1) (op + 1) (n - 1) m'
                    else Some (op + 1, m')))"
  by pat_completeness auto
termination
  by (relation "measure (\<lambda>(ip, op, n, m). length m - ip)") (auto dest!: rd_SomeD wr_SomeD)

declare strncat_loop.simps [simp del]

definition strncat :: "nat \<Rightarrow> nat \<Rightarrow> int \<Rightarrow> mem \<Rightarrow> mem option" where
  "strncat s1 s2 n m = do {
     op \<leftarrow> skip_str s1 m;
     (op, m) \<leftarrow> strncat_loop s2 (op - 1) n m;
     wr m (op - 1) 0 }"

text \<open>\<open>--n >= 0 && (*op++ = *ip++)\<close>, then \<open>while (--n >= 0) *op++ = 0\<close>.\<close>

function strncpy_loop :: "nat \<Rightarrow> nat \<Rightarrow> int \<Rightarrow> mem \<Rightarrow> (nat \<times> int \<times> mem) option" where
  "strncpy_loop ip op n m =
     (if 0 \<le> n - 1 then
        (case rd m ip of None \<Rightarrow> None
         | Some c \<Rightarrow> (case wr m op c of None \<Rightarrow> None
           | Some m' \<Rightarrow> if c \<noteq> 0 then strncpy_loop (ip + 1) (op + 1) (n - 1) m'
                        else Some (op + 1, n - 1, m')))
      else Some (op, n - 1, m))"
  by pat_completeness auto
termination
  by (relation "measure (\<lambda>(ip, op, n, m). nat n)") auto

function zero_loop :: "nat \<Rightarrow> int \<Rightarrow> mem \<Rightarrow> mem option" where
  "zero_loop op n m =
     (if 0 \<le> n - 1 then
        (case wr m op 0 of None \<Rightarrow> None | Some m' \<Rightarrow> zero_loop (op + 1) (n - 1) m')
      else Some m)"
  by pat_completeness auto
termination
  by (relation "measure (\<lambda>(op, n, m). nat n)") auto

declare strncpy_loop.simps [simp del] zero_loop.simps [simp del]

definition strncpy :: "nat \<Rightarrow> nat \<Rightarrow> int \<Rightarrow> mem \<Rightarrow> mem option" where
  "strncpy s1 s2 n m = do {
     (op, n, m) \<leftarrow> strncpy_loop s2 s1 n m;
     zero_loop op n m }"

function strcmp :: "nat \<Rightarrow> nat \<Rightarrow> mem \<Rightarrow> int option" where
  "strcmp s1 s2 m = (case rd m s1 of None \<Rightarrow> None
     | Some a \<Rightarrow> (case rd m s2 of None \<Rightarrow> None
       | Some b \<Rightarrow> if a = b then (if a = 0 then Some 0 else strcmp (s1 + 1) (s2 + 1) m)
                   else Some (sint a - sint b)))"
  by pat_completeness auto
termination
  by (relation "measure (\<lambda>(s1, s2, m). length m - s1)") (auto dest: rd_SomeD)

text \<open>When the count runs out, \<open>n\<close> is negative and the result is zero.\<close>

function strncmp :: "nat \<Rightarrow> nat \<Rightarrow> int \<Rightarrow> mem \<Rightarrow> int option" where
  "strncmp s1 s2 n m =
     (if 0 \<le> n - 1 then
        (case rd m s1 of None \<Rightarrow> None
         | Some a \<Rightarrow> (case rd m s2 of None \<Rightarrow> None
           | Some b \<Rightarrow> if a = b then (if a = 0 then Some 0 else strncmp (s1 + 1) (s2 + 1) (n - 1) m)
                       else Some (sint a - sint b)))
      else Some 0)"
  by pat_completeness auto
termination
  by (relation "measure (\<lambda>(s1, s2, n, m). nat n)") auto

declare strcmp.simps [simp del] strncmp.simps [simp del]

text \<open>The result of \<open>index\<close> and \<open>rindex\<close> is an address, or \<open>NULL\<close> as \<^term>\<open>Some None\<close>.\<close>

function index :: "nat \<Rightarrow> int \<Rightarrow> mem \<Rightarrow> nat option option" where
  "index ip ch m = (case rd m ip of None \<Rightarrow> None
     | Some c \<Rightarrow> if sint c = ch then Some (Some ip)
                 else if c \<noteq> 0 then index (ip + 1) ch m else Some None)"
  by pat_completeness auto
termination
  by (relation "measure (\<lambda>(ip, ch, m). length m - ip)") (auto dest: rd_SomeD)

function rindex_loop :: "nat \<Rightarrow> nat option \<Rightarrow> int \<Rightarrow> mem \<Rightarrow> nat option option" where
  "rindex_loop ip lst ch m = (case rd m ip of None \<Rightarrow> None
     | Some c \<Rightarrow> (let lst = (if sint c = ch then Some ip else lst)
                  in if c \<noteq> 0 then rindex_loop (ip + 1) lst ch m else Some lst))"
  by pat_completeness auto
termination
  by (relation "measure (\<lambda>(ip, lst, ch, m). length m - ip)") (auto dest: rd_SomeD)

declare index.simps [simp del] rindex_loop.simps [simp del]

definition rindex :: "nat \<Rightarrow> int \<Rightarrow> mem \<Rightarrow> nat option option" where
  "rindex str ch m = rindex_loop str None ch m"

subsection \<open>\<open>atoi\<close> and \<open>atol\<close>\<close>

text \<open>
  \<open>INDEFI\<close> and \<open>INDEFL\<close> are the unsigned constant \<open>0x80000001\<close>: as an \<open>int\<close> it is negative, as a
  \<open>long\<close> it is not.
\<close>

abbreviation INDEFI :: int where "INDEFI \<equiv> - 2147483647"
abbreviation INDEFL :: int where "INDEFL \<equiv> 2147483649"

function skip_space :: "nat \<Rightarrow> mem \<Rightarrow> nat option" where
  "skip_space ip m = (case rd m ip of None \<Rightarrow> None
     | Some c \<Rightarrow> if isspace (sint c) then skip_space (ip + 1) m else Some ip)"
  by pat_completeness auto
termination
  by (relation "measure (\<lambda>(ip, m). length m - ip)") (auto dest: rd_SomeD)

text \<open>\<open>while (isdigit (ch = *ip++)) val = val * 10 + tointeg (ch);\<close> with the wrap-around of its type.\<close>

function digits_loop :: "(int \<Rightarrow> int) \<Rightarrow> nat \<Rightarrow> int \<Rightarrow> mem \<Rightarrow> int option" where
  "digits_loop wrap ip val m = (case rd m ip of None \<Rightarrow> None
     | Some c \<Rightarrow> if isdigit (sint c) then digits_loop wrap (ip + 1) (wrap (val * 10 + tointeg (sint c))) m
                 else Some val)"
  by pat_completeness auto
termination
  by (relation "measure (\<lambda>(wrap, ip, val, m). length m - ip)") (auto dest: rd_SomeD)

declare skip_space.simps [simp del] digits_loop.simps [simp del]

text \<open>\<open>strncmp (ip, "INDEF", 5)\<close>, against a literal that is not in the memory.\<close>

fun strncmp_lit :: "nat \<Rightarrow> byte list \<Rightarrow> mem \<Rightarrow> bool option" where
  "strncmp_lit ip [] m = Some True"
| "strncmp_lit ip (b # bs) m = (case rd m ip of None \<Rightarrow> None
     | Some a \<Rightarrow> if a = b then strncmp_lit (ip + 1) bs m else Some False)"

definition lit_INDEF :: "byte list" where
  "lit_INDEF = [73, 78, 68, 69, 70]"

text \<open>The test for an indefinite value at \<open>ip\<close>: \<open>INDEF\<close> not followed by an identifier character.\<close>

definition is_indef :: "nat \<Rightarrow> mem \<Rightarrow> bool option" where
  "is_indef ip m = do {
     eq \<leftarrow> strncmp_lit ip lit_INDEF m;
     (if eq then do { c \<leftarrow> rd m (ip + 5); Some (\<not> (isalnum (sint c) \<or> c = 95)) } else Some False) }"

text \<open>
  What follows the blanks, from \<open>ch = *ip\<close> on.  After \<open>INDEF\<close> and an identifier character, \<open>ch\<close>
  holds that character, which is neither of the signs.
\<close>

definition signed_digits :: "(int \<Rightarrow> int) \<Rightarrow> int \<Rightarrow> nat \<Rightarrow> mem \<Rightarrow> int option" where
  "signed_digits wrap indef ip m = do {
     ch \<leftarrow> rd m ip;
     ind \<leftarrow> (if ch = 73 then is_indef ip m else Some False);
     (if ind then Some indef
      else if ch = 45 then map_option (\<lambda>v. wrap (- v)) (digits_loop wrap (ip + 1) 0 m)
      else if ch = 43 then digits_loop wrap (ip + 1) 0 m
      else digits_loop wrap ip 0 m) }"

definition atoi :: "nat \<Rightarrow> mem \<Rightarrow> int option" where
  "atoi str m = do {
     c \<leftarrow> rd m str;
     (if c = 0 then Some 0
      else do { ip \<leftarrow> skip_space str m; signed_digits to_int INDEFI ip m }) }"

text \<open>\<open>atol\<close> reads \<open>*--ip\<close> where \<open>atoi\<close> reads \<open>*ip\<close>.\<close>

definition atol :: "nat \<Rightarrow> mem \<Rightarrow> int option" where
  "atol str m = do {
     c \<leftarrow> rd m str;
     (if c = 0 then Some 0
      else do { ip \<leftarrow> skip_space str m; ip \<leftarrow> padd ip (- 1); signed_digits to_long INDEFL ip m }) }"

subsection \<open>What the loops do\<close>

lemma skip_str_correct: "kstr_at m p s \<Longrightarrow> skip_str p m = Some (p + length s + 1)"
proof (induction s arbitrary: p)
  case Nil
  then show ?case by (subst skip_str.simps) simp
next
  case (Cons c s)
  then have "skip_str (p + 1) m = Some (p + 1 + length s + 1)" by simp
  with Cons.prems show ?case by (subst skip_str.simps) simp
qed

text \<open>A string is copied to a place where the copy does not run into what is still to be read.\<close>

lemma copy_string_correct:
  assumes "kstr_at m ip s" "op + length s < length m" "op \<le> ip \<or> ip + length s < op"
  shows "copy_string ip op m = Some (blit m op (s @ [0]))"
  using assms
proof (induction s arbitrary: ip op m)
  case Nil
  then show ?case by (subst copy_string.simps) (simp add: list_update_blit)
next
  case (Cons c s)
  let ?m = "blit m op [c]"
  have lt: "op < length m" using Cons.prems by simp
  have "kstr_at ?m (ip + 1) s"
    using Cons.prems by (intro kstr_at_blit) auto
  then have "copy_string (ip + 1) (op + 1) ?m = Some (blit ?m (op + 1) (s @ [0]))"
    using Cons.prems lt by (intro Cons.IH) (auto simp: blit_simps)
  also have "blit ?m (op + 1) (s @ [0]) = blit m op ((c # s) @ [0])"
    using blit_blit_append [of op "[c]" "s @ [0]" m] Cons.prems by simp
  finally show ?case
    using Cons.prems lt by (subst copy_string.simps) (simp add: list_update_blit)
qed

lemma strncat_loop_correct:
  assumes "kstr_at m ip s" "0 \<le> n" "op + min (nat n) (length s) < length m" "op \<le> ip \<or> ip + length s < op"
  shows "strncat_loop ip op n m = Some (op + min (nat n) (length s) + 1,
    blit m op (take (Suc (nat n)) (s @ [0])))"
  using assms
proof (induction s arbitrary: ip op n m)
  case Nil
  then show ?case by (subst strncat_loop.simps) (simp add: list_update_blit)
next
  case (Cons c s)
  let ?m = "blit m op [c]"
  have lt: "op < length m" using Cons.prems by simp
  show ?case
  proof (cases "n = 0")
    case True
    with Cons.prems lt show ?thesis by (subst strncat_loop.simps) (simp add: list_update_blit)
  next
    case False
    with Cons.prems have n: "0 \<le> n - 1" "nat n = Suc (nat (n - 1))" by auto
    have "kstr_at ?m (ip + 1) s" using Cons.prems by (intro kstr_at_blit) auto
    then have "strncat_loop (ip + 1) (op + 1) (n - 1) ?m = Some (op + 1 + min (nat (n - 1)) (length s) + 1,
        blit ?m (op + 1) (take (Suc (nat (n - 1))) (s @ [0])))"
      using Cons.prems n lt by (intro Cons.IH) (auto simp: blit_simps)
    moreover have "blit ?m (op + 1) (take (Suc (nat (n - 1))) (s @ [0])) = blit m op (take (Suc (nat n)) ((c # s) @ [0]))"
    proof -
      have "op + length [c] + length (take (Suc (nat (n - 1))) (s @ [0])) \<le> length m"
        using Cons.prems n by (simp add: length_take_snoc del: take_append)
      from blit_blit_append [OF this] show ?thesis by (simp add: n)
    qed
    ultimately show ?thesis
      using Cons.prems n lt by (subst strncat_loop.simps) (simp add: list_update_blit)
  qed
qed

lemma kstr_at_blit_append:
  assumes "kstr_at m p a" "0 \<notin> set b" "p + length a + length b < length m"
  shows "kstr_at (blit m (p + length a) (b @ [0])) p (a @ b)"
  using assms
proof (induction a arbitrary: p)
  case Nil
  then show ?case by (simp add: kstr_at_new)
next
  case (Cons c a)
  from Cons.prems have "kstr_at (blit m (Suc p + length a) (b @ [0])) (Suc p) (a @ b)"
    by (intro Cons.IH) auto
  with Cons.prems show ?case
    by (simp add: nth_blit blit_simps)
qed

text \<open>
  \<open>strcat\<close> appends one string to another that it does not overlap, and changes nothing before or
  after the result.
\<close>

lemma strcat_correct:
  assumes "kstr_at m s1 a" "kstr_at m s2 b" "s1 + length a + length b < length m"
    "s2 + length b < s1 \<or> s1 + length a + length b < s2"
  shows "strcat s1 s2 m = Some (blit m (s1 + length a) (b @ [0]))"
    and "kstr_at (blit m (s1 + length a) (b @ [0])) s1 (a @ b)"
proof -
  have "copy_string s2 (s1 + length a) m = Some (blit m (s1 + length a) (b @ [0]))"
    using assms by (intro copy_string_correct) auto
  then show "strcat s1 s2 m = Some (blit m (s1 + length a) (b @ [0]))"
    using skip_str_correct [OF assms(1)] by (simp add: strcat_def)
  show "kstr_at (blit m (s1 + length a) (b @ [0])) s1 (a @ b)"
    using assms by (intro kstr_at_blit_append) (auto simp: kstr_at_def)
qed

lemma strncat_correct:
  assumes "kstr_at m s1 a" "kstr_at m s2 b" "0 \<le> n" "s1 + length a + min (nat n) (length b) < length m"
    "s2 + length b < s1 \<or> s1 + length a + length b < s2"
  shows "\<exists>m'. strncat s1 s2 n m = Some m' \<and> kstr_at m' s1 (a @ take (nat n) b)"
proof -
  let ?t = "take (nat n) b" and ?op = "s1 + length a"
  obtain z where z: "take (Suc (nat n)) (b @ [0]) = ?t @ [z]"
    using take_snoc_snoc [of "nat n" b 0] by blast
  have k: "length ?t = min (nat n) (length b)" by simp
  have "?op \<le> s2 \<or> s2 + length b < ?op" using assms(5) by auto
  then have "strncat_loop s2 ?op n m = Some (?op + length ?t + 1, blit m ?op (?t @ [z]))"
    using strncat_loop_correct [OF assms(2,3), of ?op] assms(4,5) z by (simp add: min.commute)
  then have "strncat s1 s2 n m = wr (blit m ?op (?t @ [z])) (?op + length ?t) 0"
    using skip_str_correct [OF assms(1)] by (simp add: strncat_def del: length_take)
  also have "\<dots> = Some ((blit m ?op (?t @ [z]))[?op + length ?t := 0])"
    using assms(4) k by (intro wr_Some) (simp add: blit_simps)
  also have "\<dots> = Some (blit m ?op (?t @ [0]))"
    using blit_snoc_update [of ?op ?t m] assms(4) by (simp only: k)
  finally have "strncat s1 s2 n m = Some (blit m ?op (?t @ [0]))" .
  moreover have "kstr_at (blit m ?op (?t @ [0])) s1 (a @ ?t)"
    using assms by (intro kstr_at_blit_append) (auto simp: kstr_at_def dest: in_set_takeD)
  ultimately show ?thesis by blast
qed

text \<open>
  The comparison that \<open>strcmp\<close> makes: the difference of the first characters that differ, as signed
  characters, where the end of a string counts as zero.
\<close>

fun str_diff :: "byte list \<Rightarrow> byte list \<Rightarrow> int" where
  "str_diff [] [] = 0"
| "str_diff [] (b # bs) = - sint b"
| "str_diff (a # as) [] = sint a"
| "str_diff (a # as) (b # bs) = (if a = b then str_diff as bs else sint a - sint b)"

lemma strcmp_correct:
  assumes "kstr_at m s1 a" "kstr_at m s2 b"
  shows "strcmp s1 s2 m = Some (str_diff a b)"
  using assms
proof (induction a b arbitrary: s1 s2 rule: str_diff.induct)
  case 1
  then show ?case by (subst strcmp.simps) simp
next
  case (2 b bs)
  then show ?case by (subst strcmp.simps) auto
next
  case (3 a as)
  then show ?case by (subst strcmp.simps) auto
next
  case (4 a as b bs)
  then show ?case by (subst strcmp.simps) auto
qed

lemma strncmp_correct:
  assumes "kstr_at m s1 a" "kstr_at m s2 b"
  shows "strncmp s1 s2 n m = Some (str_diff (take (nat n) a) (take (nat n) b))"
  using assms
proof (induction a b arbitrary: s1 s2 n rule: str_diff.induct)
  case 1
  then show ?case by (subst strncmp.simps) auto
next
  case (2 b bs)
  then show ?case by (cases "nat n"; subst strncmp.simps) auto
next
  case (3 a as)
  then show ?case by (cases "nat n"; subst strncmp.simps) auto
next
  case (4 a as b bs)
  show ?case
  proof (cases "nat n")
    case 0
    then show ?thesis by (subst strncmp.simps) simp
  next
    case (Suc k)
    then have "0 \<le> n - 1" "nat (n - 1) = k" by auto
    with 4 Suc show ?thesis by (subst strncmp.simps) auto
  qed
qed

lemma sint_byte_inj: "sint (x :: byte) = sint y \<longleftrightarrow> x = y"
  by (metis signed_word_eqI)

lemma index_found:
  "kstr_at m p s \<Longrightarrow> s @ [0] = xs @ c # ys \<Longrightarrow> c \<notin> set xs \<Longrightarrow> index p (sint c) m = Some (Some (p + length xs))"
proof (induction xs arbitrary: p s)
  case Nil
  then show ?case by (cases s; subst index.simps) auto
next
  case (Cons x xs)
  then obtain s' where s: "s = x # s'" "s' @ [0] = xs @ c # ys" "kstr_at m (p + 1) s'"
    by (cases s) auto
  with Cons have "index (p + 1) (sint c) m = Some (Some (p + 1 + length xs))" by auto
  moreover have "sint x \<noteq> sint c" using Cons.prems by (auto simp: sint_byte_inj)
  ultimately show ?case using Cons.prems s by (subst index.simps) auto
qed

lemma index_absent:
  "kstr_at m p s \<Longrightarrow> \<forall>x \<in> set (s @ [0]). sint x \<noteq> ch \<Longrightarrow> index p ch m = Some None"
proof (induction s arbitrary: p)
  case Nil
  then show ?case by (subst index.simps) auto
next
  case (Cons x s)
  then have "index (p + 1) ch m = Some None" by auto
  with Cons.prems show ?case by (subst index.simps) auto
qed

lemma rindex_loop_absent:
  "kstr_at m p s \<Longrightarrow> \<forall>x \<in> set (s @ [0]). sint x \<noteq> ch \<Longrightarrow> rindex_loop p l ch m = Some l"
proof (induction s arbitrary: p)
  case Nil
  then show ?case by (subst rindex_loop.simps) auto
next
  case (Cons x s)
  then have "rindex_loop (p + 1) l ch m = Some l" by auto
  with Cons.prems show ?case by (subst rindex_loop.simps) (auto simp: Let_def)
qed

lemma rindex_loop_found:
  "kstr_at m p (xs @ c # ys) \<Longrightarrow> c \<notin> set ys \<Longrightarrow> rindex_loop p l (sint c) m = Some (Some (p + length xs))"
proof (induction xs arbitrary: p l)
  case Nil
  then have "\<forall>x \<in> set (ys @ [0]). sint x \<noteq> sint c" by (auto simp: sint_byte_inj)
  with Nil rindex_loop_absent [of m "p + 1" ys "sint c" "Some p"] show ?case
    by (subst rindex_loop.simps) (auto simp: Let_def)
next
  case (Cons x xs)
  have "rindex_loop (p + 1) l' (sint c) m = Some (Some (p + 1 + length xs))" for l'
    using Cons by auto
  with Cons.prems show ?case by (subst rindex_loop.simps) (auto simp: Let_def)
qed

subsection \<open>Numbers\<close>

definition dec_value :: "byte list \<Rightarrow> int" where
  "dec_value ds = foldl (\<lambda>v c. v * 10 + (sint c - 48)) 0 ds"

definition is_digits :: "byte list \<Rightarrow> bool" where
  "is_digits ds \<longleftrightarrow> (\<forall>c \<in> set ds. isdigit (sint c))"

lemma foldl_digits_mono:
  "is_digits ds \<Longrightarrow> 0 \<le> v \<Longrightarrow> v \<le> foldl (\<lambda>v c. v * 10 + (sint c - 48)) v ds"
proof (induction ds arbitrary: v)
  case Nil
  then show ?case by simp
next
  case (Cons c ds)
  then have c: "48 \<le> sint c" by (simp add: is_digits_def char_class)
  with Cons have "v * 10 + (sint c - 48) \<le> foldl (\<lambda>v c. v * 10 + (sint c - 48)) (v * 10 + (sint c - 48)) ds"
    by (simp add: is_digits_def)
  moreover have "v \<le> v * 10 + (sint c - 48)" using Cons.prems c by simp
  ultimately show ?case by simp
qed

lemma digits_loop_correct:
  assumes "kstr_at m ip (ds @ rest)" "is_digits ds" "rest = [] \<or> \<not> isdigit (sint (hd rest))"
    "\<And>x. 0 \<le> x \<Longrightarrow> x < B \<Longrightarrow> wrap x = x" "0 \<le> v"
    "foldl (\<lambda>v c. v * 10 + (sint c - 48)) v ds < B"
  shows "digits_loop wrap ip v m = Some (foldl (\<lambda>v c. v * 10 + (sint c - 48)) v ds)"
  using assms
proof (induction ds arbitrary: ip v)
  case Nil
  then show ?case by (cases rest; subst digits_loop.simps) (auto simp: isdigit_iff)
next
  case (Cons c ds)
  let ?v = "v * 10 + (sint c - 48)"
  have c: "48 \<le> sint c" using Cons.prems(2) by (simp add: is_digits_def char_class)
  have d: "is_digits ds" using Cons.prems(2) by (simp add: is_digits_def)
  have v: "0 \<le> ?v" using c Cons.prems(5) by simp
  have "?v < B" using foldl_digits_mono [OF d v] Cons.prems(6) by simp
  then have w: "wrap ?v = ?v" using Cons.prems(4) v by blast
  have "digits_loop wrap (ip + 1) ?v m = Some (foldl (\<lambda>v c. v * 10 + (sint c - 48)) ?v ds)"
    using Cons.prems d v by (intro Cons.IH) auto
  with Cons.prems w show ?case
    by (subst digits_loop.simps) (simp add: is_digits_def tointeg_def)
qed

lemma skip_space_correct:
  assumes "kstr_at m ip (ws @ c # rest)" "\<forall>w \<in> set ws. isspace (sint w)" "\<not> isspace (sint c)"
  shows "skip_space ip m = Some (ip + length ws)"
  using assms
proof (induction ws arbitrary: ip)
  case Nil
  then show ?case by (subst skip_space.simps) auto
next
  case (Cons w ws)
  then have "skip_space (ip + 1) m = Some (ip + 1 + length ws)" by auto
  with Cons.prems show ?case by (subst skip_space.simps) auto
qed

lemma kstr_at_drop: "kstr_at m p (a @ b) \<Longrightarrow> kstr_at m (p + length a) b"
proof (induction a arbitrary: p)
  case (Cons c a)
  from Cons.IH [of "Suc p"] Cons.prems show ?case by simp
qed simp

definition sign_value :: "byte list \<Rightarrow> int" where
  "sign_value sg = (if sg = [45] then - 1 else 1)"

lemma signed_digits_correct:
  assumes "kstr_at m ip (sg @ ds @ rest)" "sg = [] \<or> sg = [45] \<or> sg = [43]" "ds \<noteq> []" "is_digits ds"
    "rest = [] \<or> \<not> isdigit (sint (hd rest))" "\<And>x. - B < x \<Longrightarrow> x < B \<Longrightarrow> wrap x = x" "dec_value ds < B"
  shows "signed_digits wrap indef ip m = Some (sign_value sg * dec_value ds)"
proof -
  have nn: "0 \<le> dec_value ds" using foldl_digits_mono [OF assms(4), of 0] by (simp add: dec_value_def)
  have loop: "digits_loop wrap (ip + length sg) 0 m = Some (dec_value ds)"
    unfolding dec_value_def
    by (rule digits_loop_correct [OF kstr_at_drop [OF assms(1)] assms(4,5), of B])
       (use assms(6,7) nn in \<open>auto simp: dec_value_def\<close>)
  have neg: "wrap (- dec_value ds) = - dec_value ds" using assms(6,7) nn by auto
  obtain d ds' where d: "ds = d # ds'" using assms(3) by (cases ds) auto
  with assms(4) have dd: "48 \<le> sint d" "sint d \<le> 57" by (simp_all add: is_digits_def char_class)
  then have ne: "d \<noteq> 73" "d \<noteq> 45" "d \<noteq> 43" by auto
  from assms(2) show ?thesis
    using assms(1) loop neg ne d by (elim disjE) (auto simp: signed_digits_def sign_value_def)
qed

text \<open>
  \<open>atoi\<close> skips blanks, takes a sign, and converts the digits up to the first other character:
  the value is that of the number, as long as it fits into an \<open>int\<close>.
\<close>

lemma atoi_value:
  assumes "kstr_at m p (ws @ sg @ ds @ rest)" "\<forall>w \<in> set ws. isspace (sint w)"
    "sg = [] \<or> sg = [45] \<or> sg = [43]" "ds \<noteq> []" "is_digits ds"
    "rest = [] \<or> \<not> isdigit (sint (hd rest))" "dec_value ds < 2147483648"
  shows "atoi p m = Some (sign_value sg * dec_value ds)"
proof -
  obtain d ds' where d: "ds = d # ds'" using assms(4) by (cases ds) auto
  with assms(5) have dd: "48 \<le> sint d" "sint d \<le> 57" by (simp_all add: is_digits_def char_class)
  obtain c r where c: "sg @ ds @ rest = c # r" "\<not> isspace (sint c)"
    using assms(3) d dd by (elim disjE) (auto simp: isspace_iff)
  have sk: "skip_space p m = Some (p + length ws)"
    using assms(1,2) c by (intro skip_space_correct) auto
  have fst: "p < length m" "m ! p \<noteq> 0"
    using assms(1) c by (cases ws; auto)+
  have "signed_digits to_int INDEFI (p + length ws) m = Some (sign_value sg * dec_value ds)"
    by (rule signed_digits_correct [OF kstr_at_drop [OF assms(1)] assms(3-6), of 2147483648])
       (use assms(7) in auto)
  with sk fst show ?thesis by (simp add: atoi_def)
qed

text \<open>
  \<open>atol\<close> does not read the number: it steps back one character first, so for a string that
  starts with anything but a blank it looks at the byte before the string, and unless that is a
  digit, a sign or an \<open>I\<close>, the result is zero.
\<close>

theorem atol_steps_back:
  assumes "kstr_at m (Suc p) (c # s)" "\<not> isspace (sint c)" "\<not> isdigit (sint (m ! p))"
    "m ! p \<noteq> 45" "m ! p \<noteq> 43" "m ! p \<noteq> 73"
  shows "atol (Suc p) m = Some 0"
proof -
  have "skip_space (Suc p) m = Some (Suc p)"
    using assms(1,2) skip_space_correct [of m "Suc p" "[]" c s] by simp
  moreover have "padd (Suc p) (- 1) = Some p" by (simp add: padd_def)
  moreover have "digits_loop to_long p 0 m = Some 0"
    using assms(1,3) by (subst digits_loop.simps) auto
  ultimately show ?thesis using assms by (auto simp: atol_def signed_digits_def)
qed

theorem atol_steps_back_witness: "atol 1 [0, 52, 50, 0] = Some 0"
  using atol_steps_back [of "[0, 52, 50, 0]" 0 52 "[50]"] by (simp add: isdigit_iff isspace_iff)

subsection \<open>\<open>c_strpak\<close> and \<open>c_strupk\<close>\<close>

text \<open>\<open>while (--n >= 0 && (*op++ = *ip++) != EOS);\<close>\<close>

function c_strpak_loop :: "nat \<Rightarrow> nat \<Rightarrow> int \<Rightarrow> mem \<Rightarrow> mem option" where
  "c_strpak_loop ip op n m =
     (if 0 \<le> n - 1 then
        (case cload XCHAR m ip of None \<Rightarrow> None
         | Some x \<Rightarrow> (case wr m op (word_of_int x) of None \<Rightarrow> None
           | Some m' \<Rightarrow> if (word_of_int x :: byte) \<noteq> 0 then c_strpak_loop (ip + 2) (op + 1) (n - 1) m'
                        else Some m'))
      else Some m)"
  by pat_completeness auto
termination
  by (relation "measure (\<lambda>(ip, op, n, m). nat n)") auto

declare c_strpak_loop.simps [simp del]

definition c_strpak :: "nat \<Rightarrow> nat \<Rightarrow> int \<Rightarrow> mem \<Rightarrow> mem option" where
  "c_strpak sppstr cstr maxch m =
     (if maxch \<noteq> 0 then do {
        m \<leftarrow> c_strpak_loop sppstr cstr (maxch - 1) m;
        q \<leftarrow> padd cstr (maxch - 1);
        wr m q 0 }
      else Some m)"

definition c_strupk :: "nat \<Rightarrow> nat \<Rightarrow> int \<Rightarrow> mem \<Rightarrow> mem option" where
  "c_strupk str outstr maxch m =
     (if maxch \<noteq> 0 then do {
        len \<leftarrow> strlen str m;
        let n = min (maxch - 1) len;
        q \<leftarrow> padd outstr (2 * n);
        m \<leftarrow> cstore XCHAR m q 0;
        upk_loop str outstr (nat n) m }
      else Some m)"

lemma c_strpak_loop_correct:
  assumes "xstr_at m ip s" "\<forall>x \<in> set s. (word_of_int x :: byte) \<noteq> 0" "0 \<le> n"
    "op \<le> ip \<or> ip + 2 * Suc (length s) \<le> op" "op + nat n \<le> length m"
  shows "c_strpak_loop ip op n m = Some (blit m op (map word_of_int (take (nat n) (s @ [0]))))"
  using assms
proof (induction s arbitrary: ip op n m)
  case Nil
  then show ?case
    by (cases "nat n"; subst c_strpak_loop.simps) (auto simp: list_update_blit)
next
  case (Cons x s)
  let ?m = "blit m op [word_of_int x]"
  show ?case
  proof (cases "n = 0")
    case True
    then show ?thesis by (subst c_strpak_loop.simps) simp
  next
    case False
    with Cons.prems have n: "0 \<le> n - 1" "nat n = Suc (nat (n - 1))" by auto
    have lt: "op < length m" using Cons.prems n by simp
    have tail: "xstr_at ?m (ip + 2) s"
      using Cons.prems lt by (intro xstr_at_blit) auto
    have "c_strpak_loop (ip + 2) (op + 1) (n - 1) ?m =
        Some (blit ?m (op + 1) (map word_of_int (take (nat (n - 1)) (s @ [0]))))"
      using Cons.prems tail n lt by (intro Cons.IH) (auto simp: blit_simps)
    moreover have "blit ?m (op + 1) (map word_of_int (take (nat (n - 1)) (s @ [0])))
        = blit m op (map word_of_int (take (nat n) ((x # s) @ [0])))"
    proof -
      let ?ys = "map word_of_int (take (nat (n - 1)) (s @ [0])) :: byte list"
      have "op + length [word_of_int x :: byte] + length ?ys \<le> length m"
        using Cons.prems n by simp
      from blit_blit_append [OF this] show ?thesis by (simp add: n)
    qed
    ultimately show ?thesis
      using Cons.prems n lt by (subst c_strpak_loop.simps) (simp add: list_update_blit)
  qed
qed

text \<open>
  \<open>c_strpak\<close> leaves at the output the packed string, cut to \<open>maxch - 1\<close> characters and ended by an
  \<open>EOS\<close>, also in place.
\<close>

theorem c_strpak_correct:
  assumes "xstr_at m sppstr s" "\<forall>x \<in> set s. (word_of_int x :: byte) \<noteq> 0" "0 < maxch"
    "cstr \<le> sppstr \<or> sppstr + 2 * Suc (length s) \<le> cstr" "cstr + nat maxch \<le> length m"
  shows "\<exists>m'. c_strpak sppstr cstr maxch m = Some m'
    \<and> kstr_at m' cstr (map word_of_int (take (nat (maxch - 1)) s))"
proof -
  let ?n = "nat (maxch - 1)" and ?cs = "map word_of_int s :: byte list"
  let ?m = "blit m cstr (take ?n (?cs @ [0]))"
  have loop: "c_strpak_loop sppstr cstr (maxch - 1) m = Some ?m"
  proof -
    have "take ?n (?cs @ [0]) = take ?n (map word_of_int (s @ [0]))" by simp
    also have "\<dots> = map word_of_int (take ?n (s @ [0]))" by (rule take_map)
    finally show ?thesis
      using c_strpak_loop_correct [OF assms(1,2), of "maxch - 1" cstr] assms(3-5) by simp
  qed
  have pos: "padd cstr (maxch - 1) = Some (cstr + ?n)" using assms(3) by (simp add: padd_def)
  have len: "length ?m = length m" "cstr + ?n < length ?m" using assms(3,5) by (simp_all add: blit_simps)
  have nz: "0 \<notin> set ?cs" using assms(2) by auto
  have "kstr_at (blit ?m (cstr + ?n) [0]) cstr (take ?n ?cs)"
  proof (cases "length s < ?n")
    case True
    have "?m = blit m cstr (?cs @ [0])" using True by simp
    moreover have "kstr_at (blit m cstr (?cs @ [0])) cstr ?cs"
      using True len nz by (intro kstr_at_new) (auto simp: blit_simps)
    ultimately have "kstr_at ?m cstr ?cs" by simp
    then have "kstr_at (blit ?m (cstr + ?n) [0]) cstr ?cs"
      by (rule kstr_at_blit) (use True len in auto)
    then show ?thesis using True by simp
  next
    case False
    have l: "length (take ?n ?cs) = ?n" using False by simp
    have "?m = blit m cstr (take ?n ?cs)" using False by simp
    then have "blit ?m (cstr + ?n) [0] = blit m cstr (take ?n ?cs @ [0])"
      using blit_blit_append [of cstr "take ?n ?cs" "[0]" m] len l by simp
    moreover have "kstr_at (blit m cstr (take ?n ?cs @ [0])) cstr (take ?n ?cs)"
      using len l nz by (intro kstr_at_new) (auto dest: in_set_takeD)
    ultimately show ?thesis by simp
  qed
  then show ?thesis
    using assms(3) loop pos len by (simp add: c_strpak_def list_update_blit take_map)
qed

theorem c_strpak_correct_witness:
  "\<exists>m'. c_strpak 0 0 2 [65, 0, 66, 0, 0, 0] = Some m'
    \<and> kstr_at m' 0 (map word_of_int (take (nat (2 - 1)) [65, 66]))"
  by (rule c_strpak_correct) (simp_all add: slice_def cdec_def)

lemma strlen_correct: "kstr_at m p s \<Longrightarrow> strlen p m = Some (int (length s))"
  by (simp add: strlen_def skip_str_correct)

text \<open>
  \<open>c_strupk\<close> leaves at the output the characters of the string, widened, cut to \<open>maxch - 1\<close> of
  them and ended by an \<open>XEOS\<close>, and writes nothing else, also in place.
\<close>

theorem c_strupk_correct:
  fixes s maxch defines "k \<equiv> min (length s) (nat (maxch - 1))"
  assumes "kstr_at m str s" "0 < maxch" "str \<le> outstr \<or> outstr + 2 * Suc k \<le> str"
    "outstr + 2 * k + 2 \<le> length m"
  shows "c_strupk str outstr maxch m = Some (blit m outstr (encs XCHAR (map sint (take k s) @ [0])))"
proof -
  let ?m1 = "blit m (outstr + 2 * k) (cenc XCHAR 0)"
  have fits: "str + k \<le> length m" using assms by (auto simp: kstr_at_def k_def)
  have n: "min (maxch - 1) (int (length s)) = int k" using assms(3) by (simp add: k_def)
  have src: "slice ?m1 str k = take k s"
  proof -
    have "slice ?m1 str k = slice m str k"
      using fits assms(4,5) by (intro slice_blit_disjoint) auto
    also have "\<dots> = take k s" using assms(2) by (rule kstr_at_take) (simp add: k_def)
    finally show ?thesis .
  qed
  have "upk_loop str outstr k ?m1 = Some (blit ?m1 outstr (encs XCHAR (map sint (slice ?m1 str k))))"
    using fits assms(4,5) by (intro upk_loop_correct) (auto simp: blit_simps)
  also have "blit ?m1 outstr (encs XCHAR (map sint (slice ?m1 str k)))
      = blit m outstr (encs XCHAR (map sint (take k s)) @ cenc XCHAR 0)"
    unfolding src using assms(5) by (intro blit_blit_prepend) (auto simp: k_def)
  finally have loop: "upk_loop str outstr k ?m1 = Some (blit m outstr (encs XCHAR (map sint (take k s) @ [0])))"
    by simp
  show ?thesis
    using strlen_correct [OF assms(2)] assms(3,5) loop
    by (simp add: c_strupk_def n Let_def padd_def nat_add_distrib nat_mult_distrib)
qed

theorem c_strupk_correct_witness:
  "c_strupk 0 0 9 [65, 200, 0, 0, 0, 0] = Some (blit [65, 200, 0, 0, 0, 0] 0
     (encs XCHAR (map sint (take (min (length [65, 200 :: byte]) (nat (9 - 1))) [65, 200 :: byte]) @ [0])))"
  by (rule c_strupk_correct) simp_all

text \<open>
  \<open>strncat\<close> appends at most \<open>n\<close> characters of a string that is apart from the first one, and ends
  the result.
\<close>

theorem strncat_appends:
  assumes "kstr_at m s1 a" "kstr_at m s2 b" "0 \<le> n" "s1 + length a + min (nat n) (length b) < length m"
    "s2 + length b < s1 \<or> s1 + length a + length b < s2"
  shows "\<exists>m'. strncat s1 s2 n m = Some m' \<and> kstr_at m' s1 (a @ take (nat n) b)"
  using strncat_correct [OF assms] .

theorem strncat_appends_witness:
  "\<exists>m'. strncat 3 0 1 [65, 66, 0, 67, 0, 9] = Some m' \<and> kstr_at m' 3 ([67] @ take (nat 1) [65, 66])"
  by (rule strncat_appends) simp_all

end
