(* ===== verification/Libc_Qsort.thy ===== *)
theory Libc_Qsort
  imports Libc_Strings "HOL-Library.Multiset"
begin

text \<open>
  \<open>sys/libc/qsort.c\<close>: the array of \<open>n\<close> records is a list, and an address \<open>base + k * qsz\<close> is the
  index \<open>k\<close>; an access outside the array is a fault.  The byte loops that exchange two records or
  rotate a run of them are single operations.
\<close>

abbreviation THRESH :: nat where "THRESH \<equiv> 4"
abbreviation MTHRESH :: nat where "MTHRESH \<equiv> 6"

definition cmp_at :: "('a \<Rightarrow> 'a \<Rightarrow> int) \<Rightarrow> 'a list \<Rightarrow> nat \<Rightarrow> nat \<Rightarrow> int option" where
  "cmp_at cmp xs i j = (if i < length xs \<and> j < length xs then Some (cmp (xs ! i) (xs ! j)) else None)"

definition swap_at :: "'a list \<Rightarrow> nat \<Rightarrow> nat \<Rightarrow> 'a list option" where
  "swap_at xs i j = (if i < length xs \<and> j < length xs then Some (xs[i := xs ! j, j := xs ! i]) else None)"

subsection \<open>\<open>qst\<close>\<close>

text \<open>
  The median of the first, the last and the middle element goes to the middle: \<open>j\<close> is the larger of
  first and middle, and if it is larger than the last, the larger of the other two.
\<close>

definition median_step :: "('a \<Rightarrow> 'a \<Rightarrow> int) \<Rightarrow> 'a list \<Rightarrow> nat \<Rightarrow> nat \<Rightarrow> nat \<Rightarrow> 'a list option" where
  "median_step cmp xs base maxv mid =
     (let tmp = maxv - 1 in
      case cmp_at cmp xs base mid of None \<Rightarrow> None
      | Some a \<Rightarrow>
        (let j = (if a > 0 then base else mid) in
         case cmp_at cmp xs j tmp of None \<Rightarrow> None
         | Some b \<Rightarrow>
           (if b > 0 then
              let j = (if j = base then mid else base) in
              case cmp_at cmp xs j tmp of None \<Rightarrow> None
              | Some c \<Rightarrow> let j = (if c < 0 then tmp else j) in
                          if j \<noteq> mid then swap_at xs mid j else Some xs
            else if j \<noteq> mid then swap_at xs mid j else Some xs)))"

function scan_up :: "('a \<Rightarrow> 'a \<Rightarrow> int) \<Rightarrow> 'a list \<Rightarrow> nat \<Rightarrow> nat \<Rightarrow> nat option" where
  "scan_up cmp xs i mid =
     (if i < mid then (case cmp_at cmp xs i mid of None \<Rightarrow> None
        | Some r \<Rightarrow> if r \<le> 0 then scan_up cmp xs (i + 1) mid else Some i)
      else Some i)"
  by pat_completeness auto
termination
  by (relation "measure (\<lambda>(cmp, xs, i, mid). mid - i)") auto

function scan_down :: "('a \<Rightarrow> 'a \<Rightarrow> int) \<Rightarrow> 'a list \<Rightarrow> nat \<Rightarrow> nat \<Rightarrow> nat option" where
  "scan_down cmp xs mid j =
     (if mid < j then (case cmp_at cmp xs mid j of None \<Rightarrow> None
        | Some r \<Rightarrow> if r \<le> 0 then scan_down cmp xs mid (j - 1) else Some j)
      else Some j)"
  by pat_completeness auto
termination
  by (relation "measure (\<lambda>(cmp, xs, mid, j). j)") auto

declare scan_up.simps [simp del] scan_down.simps [simp del]

lemma scan_up_bounds:
  "scan_up cmp xs i mid = Some i' \<Longrightarrow> i \<le> i' \<and> (i \<le> mid \<longrightarrow> i' \<le> mid) \<and> (mid \<le> i \<longrightarrow> i' = i)"
proof (induction cmp xs i mid rule: scan_up.induct)
  case (1 cmp xs i mid)
  show ?case
  proof (cases "i < mid \<and> (\<exists>r \<le> 0. cmp_at cmp xs i mid = Some r)")
    case True
    then obtain r where r: "i < mid" "cmp_at cmp xs i mid = Some r" "r \<le> 0" by blast
    with "1.prems" have "scan_up cmp xs (i + 1) mid = Some i'" by (subst (asm) scan_up.simps) simp
    from "1.IH" [OF r this] r(1) show ?thesis by auto
  next
    case False
    with "1.prems" show ?thesis
      by (subst (asm) scan_up.simps) (auto split: if_splits option.splits)
  qed
qed

lemma scan_down_bounds:
  "scan_down cmp xs mid j = Some j' \<Longrightarrow> j' \<le> j \<and> (mid \<le> j \<longrightarrow> mid \<le> j') \<and> (j \<le> mid \<longrightarrow> j' = j)"
proof (induction cmp xs mid j rule: scan_down.induct)
  case (1 cmp xs mid j)
  show ?case
  proof (cases "mid < j \<and> (\<exists>r \<le> 0. cmp_at cmp xs mid j = Some r)")
    case True
    then obtain r where r: "mid < j" "cmp_at cmp xs mid j = Some r" "r \<le> 0" by blast
    with "1.prems" have "scan_down cmp xs mid (j - 1) = Some j'" by (subst (asm) scan_down.simps) simp
    from "1.IH" [OF r this] r(1) show ?thesis by auto
  next
    case False
    with "1.prems" show ?thesis
      by (subst (asm) scan_down.simps) (auto split: if_splits option.splits)
  qed
qed

text \<open>
  The partitioning loop.  An element on the wrong side is exchanged with one on the other side, or
  with the discriminator, whose place \<open>mid\<close> moves then.
\<close>

function partition_loop :: "('a \<Rightarrow> 'a \<Rightarrow> int) \<Rightarrow> 'a list \<Rightarrow> nat \<Rightarrow> nat \<Rightarrow> nat \<Rightarrow> ('a list \<times> nat) option" where
  "partition_loop cmp xs i j mid =
     (case scan_up cmp xs i mid of None \<Rightarrow> None
      | Some i1 \<Rightarrow> (case scan_down cmp xs mid j of None \<Rightarrow> None
        | Some j1 \<Rightarrow>
          if mid < j1 then
            (case swap_at xs i1 j1 of None \<Rightarrow> None
             | Some xs' \<Rightarrow>
                 if i1 = mid then partition_loop cmp xs' (i1 + 1) j1 j1
                 else partition_loop cmp xs' (i1 + 1) (j1 - 1) mid)
          else if i1 = mid then Some (xs, mid)
          else (case swap_at xs i1 mid of None \<Rightarrow> None
                | Some xs' \<Rightarrow> partition_loop cmp xs' i1 (j1 - 1) i1)))"
  by pat_completeness auto
termination
proof (relation "measures [\<lambda>(cmp, xs, i, j, mid). j - i, \<lambda>(cmp, xs, i, j, mid). mid - i,
    \<lambda>(cmp, xs, i, j, mid). j, \<lambda>(cmp, xs, i, j, mid). if i = mid then 0 else 1]", goal_cases)
  case 1
  show ?case by simp
next
  case (2 cmp xs i j mid i1 j1 xs')
  then show ?case using scan_up_bounds [of cmp xs i mid i1] scan_down_bounds [of cmp xs mid j j1] by auto
next
  case (3 cmp xs i j mid i1 j1 xs')
  then show ?case using scan_up_bounds [of cmp xs i mid i1] scan_down_bounds [of cmp xs mid j j1] by auto
next
  case (4 cmp xs i j mid i1 j1 xs')
  then show ?case using scan_up_bounds [of cmp xs i mid i1] scan_down_bounds [of cmp xs mid j j1] by auto
qed

declare partition_loop.simps [simp del]

lemma swap_at_length: "swap_at xs i j = Some ys \<Longrightarrow> length ys = length xs"
  by (auto simp: swap_at_def split: if_splits)

lemma partition_bounds:
  "partition_loop cmp xs i j mid = Some (ys, k) \<Longrightarrow> i \<le> mid \<Longrightarrow> mid \<le> j \<Longrightarrow> i \<le> k \<and> k \<le> j"
proof (induction cmp xs i j mid arbitrary: ys k rule: partition_loop.induct)
  case (1 cmp xs i j mid)
  then obtain i1 j1 where s: "scan_up cmp xs i mid = Some i1" "scan_down cmp xs mid j = Some j1"
    by (subst (asm) partition_loop.simps) (auto split: option.splits)
  have b: "i \<le> i1" "i1 \<le> mid" "mid \<le> j1" "j1 \<le> j"
    using scan_up_bounds [OF s(1)] scan_down_bounds [OF s(2)] "1.prems" by auto
  consider
    xs' where "mid < j1" "swap_at xs i1 j1 = Some xs'" "i1 = mid" "partition_loop cmp xs' (i1 + 1) j1 j1 = Some (ys, k)"
  | xs' where "mid < j1" "swap_at xs i1 j1 = Some xs'" "i1 \<noteq> mid" "partition_loop cmp xs' (i1 + 1) (j1 - 1) mid = Some (ys, k)"
  | "\<not> mid < j1" "i1 = mid" "k = mid"
  | xs' where "\<not> mid < j1" "i1 \<noteq> mid" "swap_at xs i1 mid = Some xs'" "partition_loop cmp xs' i1 (j1 - 1) i1 = Some (ys, k)"
    using "1.prems"(1) s by (subst (asm) partition_loop.simps) (auto split: option.splits if_splits)
  then show ?case
  proof cases
    case (1 xs')
    from 1(1,3) b have le: "i1 + 1 \<le> j1" "j1 \<le> j1" by simp_all
    from "1.IH"(1) [OF s 1(1,2,3,4) le] b show ?thesis by linarith
  next
    case (2 xs')
    from 2(1,3) b have le: "i1 + 1 \<le> mid" "mid \<le> j1 - 1" by simp_all
    from "1.IH"(2) [OF s 2(1,2,3,4) le] b show ?thesis by linarith
  next
    case 3 with "1.prems" show ?thesis by simp
  next
    case (4 xs')
    from 4(1,2) b have le: "i1 \<le> i1" "i1 \<le> j1 - 1" by simp_all
    from "1.IH"(3) [OF s 4(1,2,3,4) le] b show ?thesis by linarith
  qed
qed

lemma partition_in_range:
  "partition_loop cmp xs base (maxv - 1) (base + (maxv - base) div 2) = Some (ys, j) \<Longrightarrow>
   base < maxv \<Longrightarrow> base \<le> j \<and> j < maxv"
proof -
  assume p: "partition_loop cmp xs base (maxv - 1) (base + (maxv - base) div 2) = Some (ys, j)" "base < maxv"
  then have "base + (maxv - base) div 2 \<le> maxv - 1" by linarith
  from partition_bounds [OF p(1) _ this] p(2) show ?thesis by linarith
qed

text \<open>
  \<open>qst\<close>: the smaller part first, by recursion, then the larger one, by going back to the start of
  the loop; a part of less than \<open>THRESH\<close> elements is left as it is.
\<close>

definition split_step :: "('a \<Rightarrow> 'a \<Rightarrow> int) \<Rightarrow> 'a list \<Rightarrow> nat \<Rightarrow> nat \<Rightarrow> ('a list \<times> nat) option" where
  "split_step cmp xs base maxv =
     (let lo = maxv - base; mid = base + lo div 2 in
      case (if MTHRESH \<le> lo then median_step cmp xs base maxv mid else Some xs) of None \<Rightarrow> None
      | Some xs \<Rightarrow> partition_loop cmp xs base (maxv - 1) mid)"

lemma split_step_bounds:
  "split_step cmp xs base maxv = Some (ys, j) \<Longrightarrow> base < maxv \<Longrightarrow> base \<le> j \<and> j < maxv"
  unfolding split_step_def Let_def by (auto split: option.splits dest!: partition_in_range simp del: One_nat_def)

lemma split_step_empty:
  assumes "maxv \<le> base"
  shows "split_step cmp xs base maxv = Some (xs, base)"
proof -
  have "scan_up cmp xs base base = Some base" "scan_down cmp xs base (maxv - 1) = Some (maxv - 1)"
    using assms by (auto simp: scan_up.simps scan_down.simps)
  with assms show ?thesis by (auto simp: split_step_def partition_loop.simps)
qed

lemma split_step_parts:
  assumes "split_step cmp xs base maxv = Some (ys, j)"
  shows "0 < j - base \<Longrightarrow> j - base < maxv - base" "0 < maxv - (j + 1) \<Longrightarrow> maxv - (j + 1) < maxv - base"
  using assms split_step_bounds [OF assms] split_step_empty [of maxv base cmp xs]
  by (cases "base < maxv"; simp)+

function qst :: "('a \<Rightarrow> 'a \<Rightarrow> int) \<Rightarrow> 'a list \<Rightarrow> nat \<Rightarrow> nat \<Rightarrow> 'a list option" where
  "qst cmp xs base maxv =
     (case split_step cmp xs base maxv of None \<Rightarrow> None
      | Some (xs, j) \<Rightarrow>
          if j - base \<le> maxv - (j + 1) then
             (case (if THRESH \<le> j - base then qst cmp xs base j else Some xs) of None \<Rightarrow> None
              | Some xs \<Rightarrow> if THRESH \<le> maxv - (j + 1) then qst cmp xs (j + 1) maxv else Some xs)
           else
             (case (if THRESH \<le> maxv - (j + 1) then qst cmp xs (j + 1) maxv else Some xs) of None \<Rightarrow> None
              | Some xs \<Rightarrow> if THRESH \<le> j - base then qst cmp xs base j else Some xs))"
  by pat_completeness auto
termination
proof (relation "measure (\<lambda>(cmp, xs, base, maxv). maxv - base)", goal_cases)
  case 1
  show ?case by simp
next
  case (2 cmp xs base maxv y ys j)
  with split_step_parts(1) [of cmp xs base maxv ys j] show ?case by simp
next
  case (3 cmp xs base maxv y ys j)
  with split_step_parts(2) [of cmp xs base maxv ys j] show ?case by simp
next
  case (4 cmp xs base maxv y ys j)
  with split_step_parts(2) [of cmp xs base maxv ys j] show ?case by simp
next
  case (5 cmp xs base maxv y ys j)
  with split_step_parts(1) [of cmp xs base maxv ys j] show ?case by simp
qed

declare qst.simps [simp del]

subsection \<open>\<open>qsort\<close>\<close>

text \<open>The sentinel: the smallest of the records \<open>0\<close> to \<open>hi - 1\<close>.\<close>

function min_loop :: "('a \<Rightarrow> 'a \<Rightarrow> int) \<Rightarrow> 'a list \<Rightarrow> nat \<Rightarrow> nat \<Rightarrow> nat \<Rightarrow> nat option" where
  "min_loop cmp xs j lo hi =
     (if lo + 1 < hi then (case cmp_at cmp xs j (lo + 1) of None \<Rightarrow> None
        | Some r \<Rightarrow> min_loop cmp xs (if r > 0 then lo + 1 else j) (lo + 1) hi)
      else Some j)"
  by pat_completeness auto
termination
  by (relation "measure (\<lambda>(cmp, xs, j, lo, hi). hi - lo)") auto

text \<open>\<open>while (qcmp (hi -= qsz, minval) > 0)\<close>: without a sentinel \<open>hi\<close> would leave the array.\<close>

fun find_place :: "('a \<Rightarrow> 'a \<Rightarrow> int) \<Rightarrow> 'a list \<Rightarrow> nat \<Rightarrow> nat \<Rightarrow> nat option" where
  "find_place cmp xs 0 minval = None"
| "find_place cmp xs (Suc hi) minval = (case cmp_at cmp xs hi minval of None \<Rightarrow> None
     | Some r \<Rightarrow> if r > 0 then find_place cmp xs hi minval else Some hi)"

text \<open>The shift \<open>for (i=j=lo; (j -= qsz) >= hi; i=j) *i = *j; *i = c\<close> from \<open>i\<close> down to \<open>hi\<close>.\<close>

fun shift_loop :: "'a list \<Rightarrow> nat \<Rightarrow> nat \<Rightarrow> 'a \<Rightarrow> 'a list option" where
  "shift_loop xs i hi c =
     (if length xs \<le> i then None
      else if hi < i then shift_loop (xs[i := xs ! (i - 1)]) (i - 1) hi c
      else Some (xs[i := c]))"

function insert_loop :: "('a \<Rightarrow> 'a \<Rightarrow> int) \<Rightarrow> 'a list \<Rightarrow> nat \<Rightarrow> nat \<Rightarrow> 'a list option" where
  "insert_loop cmp xs minval maxval =
     (if minval < maxval then
        (case find_place cmp xs minval minval of None \<Rightarrow> None
         | Some hi \<Rightarrow>
            (case (if hi + 1 \<noteq> minval then shift_loop xs minval (hi + 1) (xs ! minval) else Some xs) of None \<Rightarrow> None
             | Some xs \<Rightarrow> insert_loop cmp xs (minval + 1) maxval))
      else Some xs)"
  by pat_completeness auto
termination
  by (relation "measure (\<lambda>(cmp, xs, minval, maxval). maxval - minval)") auto

declare min_loop.simps [simp del] shift_loop.simps [simp del] insert_loop.simps [simp del]

definition qsort :: "('a \<Rightarrow> 'a \<Rightarrow> int) \<Rightarrow> 'a list \<Rightarrow> 'a list option" where
  "qsort cmp xs =
     (let n = length xs in
      if n \<le> 1 then Some xs
      else
        (case (if THRESH \<le> n then qst cmp xs 0 n else Some xs) of None \<Rightarrow> None
         | Some xs \<Rightarrow>
            (case min_loop cmp xs 0 0 (if THRESH \<le> n then THRESH else n) of None \<Rightarrow> None
             | Some j \<Rightarrow>
                (case (if j \<noteq> 0 then swap_at xs 0 j else Some xs) of None \<Rightarrow> None
                 | Some xs \<Rightarrow> insert_loop cmp xs 1 n))))"

end
