(* ===== verification/Libc_Sorted.thy ===== *)
theory Libc_Sorted
  imports Libc_Qsort
begin

text \<open>
  The correctness of \<open>qsort\<close>.  Quicksort proper only promises that it permutes the array and leaves a
  smallest record among the first \<open>THRESH\<close>; that record is the sentinel that keeps the insertion sort
  inside the array.  The proofs are done once, in the locale of the comparison routines that are
  total and transitive on the records.
\<close>

subsection \<open>Permuting a segment\<close>

definition seg_perm :: "nat \<Rightarrow> nat \<Rightarrow> 'a list \<Rightarrow> 'a list \<Rightarrow> bool" where
  "seg_perm base maxv xs ys \<longleftrightarrow> length ys = length xs \<and> mset ys = mset xs
     \<and> take base ys = take base xs \<and> drop maxv ys = drop maxv xs"

lemma seg_perm_refl [simp]: "seg_perm base maxv xs xs"
  by (simp add: seg_perm_def)

lemma seg_perm_trans: "seg_perm b e xs ys \<Longrightarrow> seg_perm b e ys zs \<Longrightarrow> seg_perm b e xs zs"
  by (simp add: seg_perm_def)

lemma seg_perm_widen:
  assumes "seg_perm b e xs ys" "b' \<le> b" "e \<le> e'"
  shows "seg_perm b' e' xs ys"
proof -
  have "take b' ys = take b' xs"
  proof -
    have "take b' (take b ys) = take b' (take b xs)" using assms(1) by (simp add: seg_perm_def)
    then show ?thesis using assms(2) by (simp add: min_absorb1)
  qed
  moreover have "drop e' ys = drop e' xs"
  proof -
    have "drop (e' - e) (drop e ys) = drop (e' - e) (drop e xs)" using assms(1) by (simp add: seg_perm_def)
    then show ?thesis using assms(3) by simp
  qed
  ultimately show ?thesis using assms(1) by (simp add: seg_perm_def)
qed

lemma seg_perm_length: "seg_perm b e xs ys \<Longrightarrow> length ys = length xs"
  by (simp add: seg_perm_def)

lemma seg_perm_set: "seg_perm b e xs ys \<Longrightarrow> set ys = set xs"
  unfolding seg_perm_def by (metis set_mset_mset)

lemma seg_perm_outside:
  assumes "seg_perm b e xs ys" "k < b \<or> e \<le> k" "k < length xs"
  shows "ys ! k = xs ! k"
proof (cases "k < b")
  case True
  then show ?thesis using assms nth_take [of k b ys] nth_take [of k b xs] by (simp add: seg_perm_def)
next
  case False
  then obtain d where k: "k = e + d" using assms(2) le_Suc_ex by auto
  have "drop e ys ! d = drop e xs ! d" using assms(1) by (simp add: seg_perm_def)
  moreover have "e \<le> length xs" "e \<le> length ys" using k assms by (auto simp: seg_perm_def)
  ultimately show ?thesis using nth_drop [of e xs d] nth_drop [of e ys d] k by simp
qed

lemma seg_perm_inside:
  assumes "seg_perm b e xs ys" "b \<le> k" "k < e" "e \<le> length xs"
  shows "\<exists>l. b \<le> l \<and> l < e \<and> ys ! k = xs ! l"
proof -
  have split: "zs = take b zs @ slice zs b (e - b) @ drop e zs" for zs :: "'a list"
    using assms(2,3) append_take_drop_id [of "e - b" "drop b zs"] by (simp add: slice_def)
  have "mset (take b xs @ slice xs b (e - b) @ drop e xs) = mset (take b ys @ slice ys b (e - b) @ drop e ys)"
    using assms(1) unfolding split [symmetric] by (simp add: seg_perm_def)
  then have "mset (slice ys b (e - b)) = mset (slice xs b (e - b))"
    using assms(1) by (simp add: seg_perm_def)
  then have "set (slice ys b (e - b)) = set (slice xs b (e - b))" by (metis set_mset_mset)
  moreover have "ys ! k \<in> set (slice ys b (e - b))"
    using assms by (auto simp: in_set_conv_nth seg_perm_def length_slice intro!: exI [of _ "k - b"])
  ultimately have "ys ! k \<in> set (slice xs b (e - b))" by simp
  then obtain i where "i < e - b" "ys ! k = slice xs b (e - b) ! i"
    using assms by (auto simp: in_set_conv_nth length_slice)
  then show ?thesis using assms by (intro exI [of _ "b + i"]) auto
qed

lemma seg_perm_swap:
  assumes "b \<le> i" "i < e" "b \<le> j" "j < e" "e \<le> length xs"
  shows "\<exists>ys. swap_at xs i j = Some ys \<and> seg_perm b e xs ys
    \<and> (\<forall>k < length xs. ys ! k = (if k = j then xs ! i else if k = i then xs ! j else xs ! k))"
  using assms mset_swap [of j xs i]
  by (auto simp: swap_at_def seg_perm_def nth_list_update)

lemma cmp_at_some [simp]: "i < length xs \<Longrightarrow> j < length xs \<Longrightarrow> cmp_at cmp xs i j = Some (cmp (xs ! i) (xs ! j))"
  by (simp add: cmp_at_def)

lemma swap_or_keep:
  assumes "b \<le> i" "i < e" "b \<le> j" "j < e" "e \<le> length xs"
  shows "\<exists>ys. (if j \<noteq> i then swap_at xs i j else Some xs) = Some ys \<and> seg_perm b e xs ys"
  using seg_perm_swap [OF assms] by auto

lemma median_step_correct:
  assumes "base \<le> mid" "mid < maxv" "maxv \<le> length xs"
  shows "\<exists>ys. median_step cmp xs base maxv mid = Some ys \<and> seg_perm base maxv xs ys"
proof -
  have "\<exists>j. base \<le> j \<and> j < maxv
      \<and> median_step cmp xs base maxv mid = (if j \<noteq> mid then swap_at xs mid j else Some xs)"
    (is "\<exists>j. ?P j")
  proof -
    have "base \<le> maxv - Suc 0" using assms by simp
    then have "?P base \<or> ?P mid \<or> ?P (maxv - 1)"
      using assms by (simp add: median_step_def Let_def)
    then show ?thesis by blast
  qed
  then show ?thesis using swap_or_keep [OF assms(1,2) _ _ assms(3)] by metis
qed

lemma scan_up_correct:
  assumes "i \<le> mid" "mid < length xs"
  shows "\<exists>i'. scan_up cmp xs i mid = Some i' \<and> i \<le> i' \<and> i' \<le> mid
    \<and> (\<forall>k. i \<le> k \<and> k < i' \<longrightarrow> cmp (xs ! k) (xs ! mid) \<le> 0) \<and> (i' < mid \<longrightarrow> 0 < cmp (xs ! i') (xs ! mid))"
  using assms
proof (induction cmp xs i mid rule: scan_up.induct)
  case (1 cmp xs i mid)
  show ?case
  proof (cases "i < mid \<and> cmp (xs ! i) (xs ! mid) \<le> 0")
    case True
    with 1 obtain i' where i': "scan_up cmp xs (i + 1) mid = Some i'" "i + 1 \<le> i'" "i' \<le> mid"
      "\<forall>k. i + 1 \<le> k \<and> k < i' \<longrightarrow> cmp (xs ! k) (xs ! mid) \<le> 0" "i' < mid \<longrightarrow> 0 < cmp (xs ! i') (xs ! mid)"
      by auto
    moreover have "\<forall>k. i \<le> k \<and> k < i' \<longrightarrow> cmp (xs ! k) (xs ! mid) \<le> 0"
      using i'(4) True by (metis Suc_eq_plus1 not_less_eq_eq order_antisym)
    moreover have "scan_up cmp xs i mid = Some i'"
      using True 1 i'(1) by (subst scan_up.simps) simp
    ultimately show ?thesis by auto
  next
    case False
    with 1 have "scan_up cmp xs i mid = Some i" by (subst scan_up.simps) auto
    with False 1 show ?thesis by auto
  qed
qed

lemma scan_down_correct:
  assumes "mid \<le> j" "j < length xs"
  shows "\<exists>j'. scan_down cmp xs mid j = Some j' \<and> mid \<le> j' \<and> j' \<le> j
    \<and> (\<forall>k. j' < k \<and> k \<le> j \<longrightarrow> cmp (xs ! mid) (xs ! k) \<le> 0) \<and> (mid < j' \<longrightarrow> 0 < cmp (xs ! mid) (xs ! j'))"
  using assms
proof (induction cmp xs mid j rule: scan_down.induct)
  case (1 cmp xs mid j)
  show ?case
  proof (cases "mid < j \<and> cmp (xs ! mid) (xs ! j) \<le> 0")
    case True
    with 1 have "\<exists>j'. scan_down cmp xs mid (j - 1) = Some j' \<and> mid \<le> j' \<and> j' \<le> j - 1
      \<and> (\<forall>k. j' < k \<and> k \<le> j - 1 \<longrightarrow> cmp (xs ! mid) (xs ! k) \<le> 0) \<and> (mid < j' \<longrightarrow> 0 < cmp (xs ! mid) (xs ! j'))"
      by (intro "1.IH" [of "cmp (xs ! mid) (xs ! j)"]) auto
    then obtain j' where j': "scan_down cmp xs mid (j - 1) = Some j'" "mid \<le> j'" "j' \<le> j - 1"
      "\<forall>k. j' < k \<and> k \<le> j - 1 \<longrightarrow> cmp (xs ! mid) (xs ! k) \<le> 0" "mid < j' \<longrightarrow> 0 < cmp (xs ! mid) (xs ! j')"
      by blast
    have "\<forall>k. j' < k \<and> k \<le> j \<longrightarrow> cmp (xs ! mid) (xs ! k) \<le> 0"
    proof (intro allI impI)
      fix k assume "j' < k \<and> k \<le> j"
      then show "cmp (xs ! mid) (xs ! k) \<le> 0" using j'(4) True by (cases "k = j") auto
    qed
    moreover have "scan_down cmp xs mid j = Some j'"
      using True 1 j'(1) by (subst scan_down.simps) simp
    ultimately show ?thesis using j' by auto
  next
    case False
    with 1 have "scan_down cmp xs mid j = Some j" by (subst scan_down.simps) auto
    with False 1 show ?thesis by auto
  qed
qed

lemma shift_loop_correct:
  assumes "hi \<le> i" "i < length xs"
  shows "shift_loop xs i hi c = Some (take hi xs @ c # slice xs hi (i - hi) @ drop (Suc i) xs)"
  using assms
proof (induction "i - hi" arbitrary: xs i)
  case 0
  then show ?case by (subst shift_loop.simps) (simp add: upd_conv_take_nth_drop)
next
  case (Suc n)
  then obtain i' where i': "i = Suc i'" by (cases i) auto
  let ?xs = "xs[i := xs ! i']"
  have "shift_loop ?xs i' hi c = Some (take hi ?xs @ c # slice ?xs hi (i' - hi) @ drop (Suc i') ?xs)"
    using Suc i' by (intro Suc.hyps(1)) auto
  also have "take hi ?xs = take hi xs" using Suc.prems i' by simp
  also have "slice ?xs hi (i' - hi) = slice xs hi (i' - hi)"
    using Suc.prems Suc.hyps(2) i' by (simp add: slice_def drop_update_swap)
  also have "slice xs hi (i' - hi) @ drop (Suc i') ?xs = slice xs hi (i - hi) @ drop (Suc i) xs"
  proof -
    have "drop (Suc i') ?xs = xs ! i' # drop (Suc i) xs"
      using Suc.prems i' by (simp add: drop_update_swap Cons_nth_drop_Suc [symmetric, of "Suc i'"])
    moreover have "slice xs hi (i - hi) = slice xs hi (i' - hi) @ [xs ! i']"
    proof -
      have e: "i - hi = Suc (i' - hi)" "hi + (i' - hi) = i'" using Suc.hyps(2) i' by auto
      have "i' < length xs" using Suc.prems i' by simp
      then show ?thesis using slice_add [of xs hi "i' - hi" 1] e by (simp add: slice_Suc)
    qed
    ultimately show ?thesis by simp
  qed
  finally have rec: "shift_loop ?xs i' hi c = Some (take hi xs @ c # slice xs hi (i - hi) @ drop (Suc i) xs)" .
  have "hi < i" "i - 1 = i'" using Suc.hyps(2) i' by auto
  then show ?case using rec Suc.prems(2) by (subst shift_loop.simps) simp
qed

subsection \<open>Sorting with a comparison that is total and transitive\<close>

definition parted :: "('a \<Rightarrow> 'a \<Rightarrow> int) \<Rightarrow> nat \<Rightarrow> nat \<Rightarrow> nat \<Rightarrow> 'a list \<Rightarrow> bool" where
  "parted cmp base maxv j xs \<longleftrightarrow> (\<forall>k. base \<le> k \<and> k < j \<longrightarrow> cmp (xs ! k) (xs ! j) \<le> 0)
     \<and> (\<forall>k. j < k \<and> k < maxv \<longrightarrow> cmp (xs ! j) (xs ! k) \<le> 0)"

text \<open>A smallest element of the segment is one of its first \<open>THRESH\<close>.\<close>

definition head_min :: "('a \<Rightarrow> 'a \<Rightarrow> int) \<Rightarrow> nat \<Rightarrow> nat \<Rightarrow> 'a list \<Rightarrow> bool" where
  "head_min cmp base maxv xs \<longleftrightarrow>
     (\<exists>k. base \<le> k \<and> k < base + THRESH \<and> k < maxv \<and> (\<forall>l. base \<le> l \<and> l < maxv \<longrightarrow> cmp (xs ! k) (xs ! l) \<le> 0))"

lemma parted_left:
  assumes "parted cmp base maxv j xs" "seg_perm base j xs ys" "j < maxv" "maxv \<le> length xs"
  shows "parted cmp base maxv j ys"
proof -
  have out: "ys ! k = xs ! k" if "j \<le> k" "k < maxv" for k
    using seg_perm_outside [OF assms(2)] that assms(4) by simp
  have "cmp (ys ! k) (ys ! j) \<le> 0" if k: "base \<le> k" "k < j" for k
  proof -
    obtain l where "base \<le> l" "l < j" "ys ! k = xs ! l"
      using seg_perm_inside [OF assms(2) k] assms(3,4) by auto
    then show ?thesis using assms(1,3) out [of j] by (simp add: parted_def)
  qed
  moreover have "cmp (ys ! j) (ys ! k) \<le> 0" if "j < k" "k < maxv" for k
    using that assms(1,3) out by (simp add: parted_def)
  ultimately show ?thesis by (simp add: parted_def)
qed

lemma parted_right:
  assumes "parted cmp base maxv j xs" "seg_perm (j + 1) maxv xs ys" "j < maxv" "maxv \<le> length xs"
  shows "parted cmp base maxv j ys"
proof -
  have out: "ys ! k = xs ! k" if "k \<le> j" for k
    using seg_perm_outside [OF assms(2)] that assms(3,4) by simp
  have "cmp (ys ! j) (ys ! k) \<le> 0" if k: "j < k" "k < maxv" for k
  proof -
    obtain l where "j + 1 \<le> l" "l < maxv" "ys ! k = xs ! l"
      using seg_perm_inside [OF assms(2) _ k(2)] k assms(4) by auto
    then show ?thesis using assms(1) out [of j] by (simp add: parted_def)
  qed
  moreover have "cmp (ys ! k) (ys ! j) \<le> 0" if "base \<le> k" "k < j" for k
    using that assms(1) out by (simp add: parted_def)
  ultimately show ?thesis by (simp add: parted_def)
qed

lemma head_min_outside:
  assumes "head_min cmp base j xs" "seg_perm (j + 1) maxv xs ys" "j < length xs"
  shows "head_min cmp base j ys"
proof -
  have "ys ! k = xs ! k" if "k < j" for k
    using seg_perm_outside [OF assms(2)] that assms(3) by simp
  then show ?thesis using assms(1) unfolding head_min_def by metis
qed

locale comparator =
  fixes cmp :: "'a \<Rightarrow> 'a \<Rightarrow> int" and A :: "'a set"
  assumes total: "x \<in> A \<Longrightarrow> y \<in> A \<Longrightarrow> 0 < cmp x y \<Longrightarrow> cmp y x \<le> 0"
    and trans: "x \<in> A \<Longrightarrow> y \<in> A \<Longrightarrow> z \<in> A \<Longrightarrow> cmp x y \<le> 0 \<Longrightarrow> cmp y z \<le> 0 \<Longrightarrow> cmp x z \<le> 0"
begin

lemma refl: "x \<in> A \<Longrightarrow> cmp x x \<le> 0"
  using total [of x x] by linarith

lemma in_dom: "set xs \<subseteq> A \<Longrightarrow> k < length xs \<Longrightarrow> xs ! k \<in> A"
  by auto

lemma exists_min:
  "b < e \<Longrightarrow> e \<le> length xs \<Longrightarrow> set xs \<subseteq> A \<Longrightarrow>
   \<exists>k. b \<le> k \<and> k < e \<and> (\<forall>l. b \<le> l \<and> l < e \<longrightarrow> cmp (xs ! k) (xs ! l) \<le> 0)"
proof (induction e)
  case (Suc e)
  have e: "xs ! e \<in> A" using Suc.prems by (simp add: in_dom)
  show ?case
  proof (cases "b < e")
    case False
    then have "b = e" using Suc.prems(1) by simp
    with refl [OF e] show ?thesis by (intro exI [of _ e]) (auto simp: le_less_Suc_eq)
  next
    case True
    with Suc obtain k where k: "b \<le> k" "k < e" "\<forall>l. b \<le> l \<and> l < e \<longrightarrow> cmp (xs ! k) (xs ! l) \<le> 0" by auto
    have kA: "xs ! k \<in> A" using k Suc.prems by (simp add: in_dom)
    show ?thesis
    proof (cases "cmp (xs ! k) (xs ! e) \<le> 0")
      case True
      with k show ?thesis by (intro exI [of _ k]) (auto simp: less_Suc_eq)
    next
      case False
      then have ek: "cmp (xs ! e) (xs ! k) \<le> 0" using total [OF kA e] by simp
      have "cmp (xs ! e) (xs ! l) \<le> 0" if "b \<le> l" "l < e" for l
        using trans [OF e kA _ ek] k(3) that Suc.prems by (simp add: in_dom)
      then show ?thesis using Suc.prems refl [OF e] by (intro exI [of _ e]) (auto simp: less_Suc_eq)
    qed
  qed
qed simp

text \<open>
  What holds between two rounds of the partitioning loop: what is left of \<open>i\<close> is at most the
  discriminator, what is right of \<open>j\<close> at least it.
\<close>

definition part_inv :: "nat \<Rightarrow> nat \<Rightarrow> 'a list \<Rightarrow> nat \<Rightarrow> nat \<Rightarrow> nat \<Rightarrow> bool" where
  "part_inv base maxv xs i j mid \<longleftrightarrow> set xs \<subseteq> A \<and> maxv \<le> length xs
     \<and> base \<le> i \<and> i \<le> mid \<and> mid \<le> j \<and> j < maxv
     \<and> (\<forall>k. base \<le> k \<and> k < i \<longrightarrow> cmp (xs ! k) (xs ! mid) \<le> 0)
     \<and> (\<forall>k. j < k \<and> k < maxv \<longrightarrow> cmp (xs ! mid) (xs ! k) \<le> 0)"

lemma part_inv_scan:
  assumes "part_inv base maxv xs i j mid"
  shows "\<exists>i1 j1. scan_up cmp xs i mid = Some i1 \<and> scan_down cmp xs mid j = Some j1 \<and> i \<le> i1 \<and> j1 \<le> j
    \<and> part_inv base maxv xs i1 j1 mid
    \<and> (i1 < mid \<longrightarrow> cmp (xs ! mid) (xs ! i1) \<le> 0) \<and> (mid < j1 \<longrightarrow> cmp (xs ! j1) (xs ! mid) \<le> 0)"
proof -
  have inside: "i \<le> mid" "mid < length xs" "mid \<le> j" "j < length xs"
    using assms by (auto simp: part_inv_def)
  obtain i1 where up: "scan_up cmp xs i mid = Some i1" "i \<le> i1" "i1 \<le> mid"
      "\<forall>k. i \<le> k \<and> k < i1 \<longrightarrow> cmp (xs ! k) (xs ! mid) \<le> 0" "i1 < mid \<longrightarrow> 0 < cmp (xs ! i1) (xs ! mid)"
    using scan_up_correct [OF inside(1,2)] by blast
  obtain j1 where down: "scan_down cmp xs mid j = Some j1" "mid \<le> j1" "j1 \<le> j"
      "\<forall>k. j1 < k \<and> k \<le> j \<longrightarrow> cmp (xs ! mid) (xs ! k) \<le> 0" "mid < j1 \<longrightarrow> 0 < cmp (xs ! mid) (xs ! j1)"
    using scan_down_correct [OF inside(3,4)] by blast
  have dom: "xs ! k \<in> A" if "k < length xs" for k using that assms by (simp add: in_dom part_inv_def)
  have "cmp (xs ! k) (xs ! mid) \<le> 0" if "base \<le> k" "k < i1" for k
    using that up(4) assms by (cases "k < i") (auto simp: part_inv_def)
  moreover have "cmp (xs ! mid) (xs ! k) \<le> 0" if "j1 < k" "k < maxv" for k
    using that down(4) assms by (cases "k \<le> j") (auto simp: part_inv_def)
  ultimately have "part_inv base maxv xs i1 j1 mid"
    using assms up(2,3) down(2,3) by (simp add: part_inv_def)
  moreover have "i1 < mid \<longrightarrow> cmp (xs ! mid) (xs ! i1) \<le> 0"
    using total [OF dom dom] up(5) inside by simp
  moreover have "mid < j1 \<longrightarrow> cmp (xs ! j1) (xs ! mid) \<le> 0"
    using total [OF dom dom] down(3,5) inside by simp
  ultimately show ?thesis using up down by blast
qed

text \<open>The three exchanges of the loop keep the invariant.\<close>

lemma part_inv_exchange:
  assumes "part_inv base maxv xs i j mid" "base \<le> p" "p < maxv" "q < maxv" "base \<le> q"
    "base \<le> i'" "i' \<le> mid'" "mid' \<le> j'" "j' < maxv"
    "\<And>zs. (\<And>k. k < maxv \<Longrightarrow> zs ! k = (if k = q then xs ! p else if k = p then xs ! q else xs ! k)) \<Longrightarrow>
       (\<forall>k. base \<le> k \<and> k < i' \<longrightarrow> cmp (zs ! k) (zs ! mid') \<le> 0)
       \<and> (\<forall>k. j' < k \<and> k < maxv \<longrightarrow> cmp (zs ! mid') (zs ! k) \<le> 0)"
  shows "\<exists>zs. swap_at xs p q = Some zs \<and> seg_perm base maxv xs zs \<and> part_inv base maxv zs i' j' mid'"
proof -
  have "maxv \<le> length xs" using assms(1) by (simp add: part_inv_def)
  from seg_perm_swap [OF assms(2,3,5,4) this] obtain zs where zs: "swap_at xs p q = Some zs"
    "seg_perm base maxv xs zs"
    "\<forall>k < length xs. zs ! k = (if k = q then xs ! p else if k = p then xs ! q else xs ! k)" by blast
  have "part_inv base maxv zs i' j' mid'"
    using assms(10) [of zs] assms(1,6-9) zs(3) seg_perm_length [OF zs(2)] seg_perm_set [OF zs(2)]
    by (simp add: part_inv_def)
  with zs show ?thesis by blast
qed

lemma part_inv_right:
  assumes "part_inv base maxv xs i j mid" "i = mid" "mid < j" "cmp (xs ! j) (xs ! mid) \<le> 0"
  shows "\<exists>zs. swap_at xs i j = Some zs \<and> seg_perm base maxv xs zs \<and> part_inv base maxv zs (i + 1) j j"
  using assms by (intro part_inv_exchange [OF assms(1)]) (auto simp: part_inv_def less_Suc_eq)

lemma part_inv_both:
  assumes "part_inv base maxv xs i j mid" "i < mid" "mid < j"
    "cmp (xs ! j) (xs ! mid) \<le> 0" "cmp (xs ! mid) (xs ! i) \<le> 0"
  shows "\<exists>zs. swap_at xs i j = Some zs \<and> seg_perm base maxv xs zs \<and> part_inv base maxv zs (i + 1) (j - 1) mid"
proof (rule part_inv_exchange [OF assms(1)], goal_cases)
  case (9 zs)
  have "cmp (zs ! k) (zs ! mid) \<le> 0" if "base \<le> k" "k < i + 1" for k
    using that assms 9 [of k] 9 [of mid] by (cases "k = i") (auto simp: part_inv_def)
  moreover have "cmp (zs ! mid) (zs ! k) \<le> 0" if "j - 1 < k" "k < maxv" for k
    using that assms 9 [of k] 9 [of mid] by (cases "k = j") (auto simp: part_inv_def)
  ultimately show ?case by blast
qed (use assms in \<open>auto simp: part_inv_def\<close>)

lemma part_inv_left:
  assumes "part_inv base maxv xs i j mid" "i < mid" "mid = j" "cmp (xs ! mid) (xs ! i) \<le> 0"
  shows "\<exists>zs. swap_at xs i mid = Some zs \<and> seg_perm base maxv xs zs \<and> part_inv base maxv zs i (j - 1) i"
proof (rule part_inv_exchange [OF assms(1)], goal_cases)
  case (9 zs)
  have "cmp (zs ! k) (zs ! i) \<le> 0" if "base \<le> k" "k < i" for k
    using that assms 9 [of k] 9 [of i] by (auto simp: part_inv_def)
  moreover have "cmp (zs ! i) (zs ! k) \<le> 0" if "j - 1 < k" "k < maxv" for k
    using that assms 9 [of k] 9 [of i] by (cases "k = j") (auto simp: part_inv_def)
  ultimately show ?case by blast
qed (use assms in \<open>auto simp: part_inv_def\<close>)

lemma partition_correct:
  assumes "part_inv base maxv xs i j mid"
  shows "\<exists>ys m. partition_loop cmp xs i j mid = Some (ys, m) \<and> seg_perm base maxv xs ys
    \<and> base \<le> m \<and> m < maxv \<and> parted cmp base maxv m ys"
  using assms
proof (induction c \<equiv> cmp xs i j mid rule: partition_loop.induct)
  case (1 xs i j mid)
  obtain i1 j1 where step: "scan_up cmp xs i mid = Some i1" "scan_down cmp xs mid j = Some j1"
    and inv: "part_inv base maxv xs i1 j1 mid"
    and up: "i1 < mid \<longrightarrow> cmp (xs ! mid) (xs ! i1) \<le> 0" and down: "mid < j1 \<longrightarrow> cmp (xs ! j1) (xs ! mid) \<le> 0"
    using part_inv_scan [OF "1.prems"] by blast
  have range: "i1 \<le> mid" "mid \<le> j1" "base \<le> mid" "mid < maxv" using inv by (auto simp: part_inv_def)
  consider "\<not> mid < j1" "i1 = mid" | "mid < j1" "i1 = mid" | "mid < j1" "i1 < mid" | "\<not> mid < j1" "i1 < mid"
    using range by linarith
  then show ?case
  proof cases
    case 1
    have "partition_loop cmp xs i j mid = Some (xs, mid)"
      using 1 step by (subst partition_loop.simps) simp
    moreover have "parted cmp base maxv mid xs"
      using inv 1 by (auto simp: parted_def part_inv_def)
    ultimately show ?thesis using range by auto
  next
    case 2
    obtain zs where zs: "swap_at xs i1 j1 = Some zs" "seg_perm base maxv xs zs" "part_inv base maxv zs (i1 + 1) j1 j1"
      using part_inv_right [OF inv 2(2,1)] down 2 by blast
    have "partition_loop cmp xs i j mid = partition_loop cmp zs (i1 + 1) j1 j1"
      using 2 step zs(1) by (subst partition_loop.simps) simp
    with "1.hyps"(1) [OF step 2(1) zs(1) 2(2) zs(3)] show ?thesis using seg_perm_trans [OF zs(2)] by auto
  next
    case 3
    obtain zs where zs: "swap_at xs i1 j1 = Some zs" "seg_perm base maxv xs zs" "part_inv base maxv zs (i1 + 1) (j1 - 1) mid"
      using part_inv_both [OF inv 3(2,1)] up down 3 by blast
    have "partition_loop cmp xs i j mid = partition_loop cmp zs (i1 + 1) (j1 - 1) mid"
      using 3 step zs(1) by (subst partition_loop.simps) simp
    with "1.hyps"(2) [OF step 3(1) zs(1) _ zs(3)] 3 show ?thesis using seg_perm_trans [OF zs(2)] by auto
  next
    case 4
    then have "mid = j1" using range by simp
    then obtain zs where zs: "swap_at xs i1 mid = Some zs" "seg_perm base maxv xs zs" "part_inv base maxv zs i1 (j1 - 1) i1"
      using part_inv_left [OF inv 4(2)] up 4 by blast
    have "partition_loop cmp xs i j mid = partition_loop cmp zs i1 (j1 - 1) i1"
      using 4 step zs(1) by (subst partition_loop.simps) simp
    with "1.hyps"(3) [OF step 4(1) _ zs(1,3)] 4 show ?thesis using seg_perm_trans [OF zs(2)] by auto
  qed
qed

lemma split_step_correct:
  assumes "set xs \<subseteq> A" "base < maxv" "maxv \<le> length xs"
  shows "\<exists>ys j. split_step cmp xs base maxv = Some (ys, j) \<and> seg_perm base maxv xs ys
    \<and> base \<le> j \<and> j < maxv \<and> parted cmp base maxv j ys"
proof -
  let ?mid = "base + (maxv - base) div 2"
  have mid: "base \<le> ?mid" "?mid < maxv" using assms(2) by auto
  obtain ys where ys: "(if MTHRESH \<le> maxv - base then median_step cmp xs base maxv ?mid else Some xs) = Some ys"
      "seg_perm base maxv xs ys"
    using median_step_correct [OF mid assms(3), of cmp] by (cases "MTHRESH \<le> maxv - base") auto
  have "?mid \<le> maxv - 1" using mid by linarith
  then have "part_inv base maxv ys base (maxv - 1) ?mid"
    using assms seg_perm_set [OF ys(2)] seg_perm_length [OF ys(2)] by (auto simp: part_inv_def)
  from partition_correct [OF this] ys show ?thesis
    using seg_perm_trans [OF ys(2)] by (auto simp: split_step_def Let_def)
qed

text \<open>A part is permuted, and starts with its smallest elements, sorted any further or not.\<close>

definition part_done :: "nat \<Rightarrow> nat \<Rightarrow> 'a list \<Rightarrow> 'a list \<Rightarrow> bool" where
  "part_done b e xs ys \<longleftrightarrow> seg_perm b e xs ys \<and> (b < e \<longrightarrow> head_min cmp b e ys)"

lemma part_done_small:
  assumes "set xs \<subseteq> A" "e \<le> length xs" "e - b < THRESH"
  shows "part_done b e xs xs"
proof (cases "b < e")
  case True
  obtain k where "b \<le> k" "k < e" "\<forall>l. b \<le> l \<and> l < e \<longrightarrow> cmp (xs ! k) (xs ! l) \<le> 0"
    using exists_min [OF True assms(2,1)] by blast
  moreover from this have "k < b + THRESH" using assms(3) by linarith
  ultimately have "head_min cmp b e xs" unfolding head_min_def by (intro exI [of _ k]) simp
  then show ?thesis by (simp add: part_done_def)
qed (simp add: part_done_def)

lemma head_min_parted:
  assumes "parted cmp base maxv j zs" "base < j \<longrightarrow> head_min cmp base j zs" "base \<le> j" "j < maxv"
    "set zs \<subseteq> A" "maxv \<le> length zs"
  shows "head_min cmp base maxv zs"
proof -
  have dom: "zs ! k \<in> A" if "k < maxv" for k using that assms by (simp add: in_dom)
  obtain k where k: "base \<le> k" "k < base + THRESH" "k \<le> j" "\<forall>l. base \<le> l \<and> l < j \<longrightarrow> cmp (zs ! k) (zs ! l) \<le> 0"
      "cmp (zs ! k) (zs ! j) \<le> 0"
  proof (cases "base < j")
    case True
    then obtain k where "base \<le> k" "k < base + THRESH" "k < j" "\<forall>l. base \<le> l \<and> l < j \<longrightarrow> cmp (zs ! k) (zs ! l) \<le> 0"
      using assms(2) by (auto simp: head_min_def)
    with assms(1) that [of k] show thesis by (simp add: parted_def)
  next
    case False
    with assms(3,4) refl [OF dom] that [of j] show thesis by simp
  qed
  have "cmp (zs ! k) (zs ! l) \<le> 0" if "base \<le> l" "l < maxv" for l
  proof (cases "l \<le> j")
    case True
    with k that show ?thesis by (cases "l = j") auto
  next
    case False
    with assms(1) that have "cmp (zs ! j) (zs ! l) \<le> 0" by (simp add: parted_def)
    with k(3,5) assms(4) that show ?thesis using trans [OF dom dom dom, of k j l] by simp
  qed
  with k assms(4) show ?thesis unfolding head_min_def by (intro exI [of _ k]) simp
qed

lemma qst_correct:
  assumes "set xs \<subseteq> A" "base < maxv" "maxv \<le> length xs"
  shows "\<exists>ys. qst cmp xs base maxv = Some ys \<and> part_done base maxv xs ys"
  using assms
proof (induction "maxv - base" arbitrary: base maxv xs rule: less_induct)
  case less
  obtain ys j where ys: "split_step cmp xs base maxv = Some (ys, j)" "seg_perm base maxv xs ys"
      "base \<le> j" "j < maxv" "parted cmp base maxv j ys"
    using split_step_correct [OF less.prems] by blast
  have part: "\<exists>us. (if THRESH \<le> e - b then qst cmp zs b e else Some zs) = Some us \<and> part_done b e zs us"
    if "e - b < maxv - base" "set zs \<subseteq> A" "e \<le> length zs" for b e zs
    using less.hyps [OF that(1,2) _ that(3)] part_done_small [OF that(2,3), of b] by (cases "THRESH \<le> e - b") auto
  have dom: "set ys \<subseteq> A" "maxv \<le> length ys"
    using less.prems seg_perm_set [OF ys(2)] seg_perm_length [OF ys(2)] by auto
  have fin: "\<exists>vs. qst cmp xs base maxv = Some vs \<and> part_done base maxv xs vs"
    if "qst cmp xs base maxv = Some vs" "seg_perm base maxv ys vs" "parted cmp base maxv j vs"
       "base < j \<longrightarrow> head_min cmp base j vs" for vs
  proof -
    have "set vs \<subseteq> A" "maxv \<le> length vs"
      using dom seg_perm_set [OF that(2)] seg_perm_length [OF that(2)] by auto
    with head_min_parted [OF that(3,4) ys(3,4)] that(1) seg_perm_trans [OF ys(2) that(2)]
    show ?thesis by (simp add: part_done_def)
  qed
  have sz: "j - base < maxv - base" "maxv - (j + 1) < maxv - base" using ys(3,4) by linarith+
  show ?case
  proof (cases "j - base \<le> maxv - (j + 1)")
    case True
    obtain us where us: "(if THRESH \<le> j - base then qst cmp ys base j else Some ys) = Some us" "part_done base j ys us"
      using part [OF sz(1) dom(1)] ys(4) dom(2) by auto
    have up: "seg_perm base j ys us" using us(2) by (simp add: part_done_def)
    have dom': "set us \<subseteq> A" "maxv \<le> length us"
      using dom seg_perm_set [OF up] seg_perm_length [OF up] by auto
    obtain vs where vs: "(if THRESH \<le> maxv - (j + 1) then qst cmp us (j + 1) maxv else Some us) = Some vs"
        "part_done (j + 1) maxv us vs"
      using part [OF sz(2) dom'] by auto
    have vp: "seg_perm (j + 1) maxv us vs" using vs(2) by (simp add: part_done_def)
    show ?thesis
    proof (rule fin [of vs])
      show "qst cmp xs base maxv = Some vs"
        using True ys(1) us(1) vs(1) by (subst qst.simps) simp
      show "seg_perm base maxv ys vs"
        using seg_perm_trans [OF seg_perm_widen [OF up] seg_perm_widen [OF vp]] ys(3,4) by simp
      show "parted cmp base maxv j vs"
        using parted_right [OF parted_left [OF ys(5) up ys(4) dom(2)] vp ys(4) dom'(2)] .
      show "base < j \<longrightarrow> head_min cmp base j vs"
        using head_min_outside [OF _ vp] us(2) ys(4) dom'(2) by (simp add: part_done_def)
    qed
  next
    case False
    obtain us where us: "(if THRESH \<le> maxv - (j + 1) then qst cmp ys (j + 1) maxv else Some ys) = Some us"
        "part_done (j + 1) maxv ys us"
      using part [OF sz(2) dom] by auto
    have up: "seg_perm (j + 1) maxv ys us" using us(2) by (simp add: part_done_def)
    have dom': "set us \<subseteq> A" "maxv \<le> length us"
      using dom seg_perm_set [OF up] seg_perm_length [OF up] by auto
    obtain vs where vs: "(if THRESH \<le> j - base then qst cmp us base j else Some us) = Some vs" "part_done base j us vs"
      using part [OF sz(1) dom'(1)] ys(4) dom'(2) by auto
    have vp: "seg_perm base j us vs" using vs(2) by (simp add: part_done_def)
    show ?thesis
    proof (rule fin [of vs])
      show "qst cmp xs base maxv = Some vs"
        using False ys(1) us(1) vs(1) by (subst qst.simps) simp
      show "seg_perm base maxv ys vs"
        using seg_perm_trans [OF seg_perm_widen [OF up] seg_perm_widen [OF vp]] ys(3,4) by simp
      show "parted cmp base maxv j vs"
        using parted_left [OF parted_right [OF ys(5) up ys(4) dom(2)] vp ys(4) dom'(2)] .
      show "base < j \<longrightarrow> head_min cmp base j vs"
        using vs(2) by (simp add: part_done_def)
    qed
  qed
qed

subsection \<open>The insertion sort\<close>

lemma min_loop_correct:
  assumes "set xs \<subseteq> A" "hi \<le> length xs" "j \<le> lo" "lo < hi" "\<forall>l \<le> lo. cmp (xs ! j) (xs ! l) \<le> 0"
  shows "\<exists>k < hi. min_loop cmp xs j lo hi = Some k \<and> (\<forall>l < hi. cmp (xs ! k) (xs ! l) \<le> 0)"
  using assms
proof (induction "hi - lo" arbitrary: j lo rule: less_induct)
  case less
  show ?case
  proof (cases "lo + 1 < hi")
    case False
    then have "min_loop cmp xs j lo hi = Some j" by (subst min_loop.simps) simp
    moreover have "l \<le> lo" if "l < hi" for l using that False by simp
    ultimately show ?thesis using less.prems by auto
  next
    case True
    have dom: "xs ! j \<in> A" "xs ! (lo + 1) \<in> A" using less.prems True by (auto simp: in_dom)
    let ?j = "if 0 < cmp (xs ! j) (xs ! (lo + 1)) then lo + 1 else j"
    have "cmp (xs ! ?j) (xs ! l) \<le> 0" if l: "l \<le> lo + 1" for l
    proof (cases "0 < cmp (xs ! j) (xs ! (lo + 1))")
      case False
      then show ?thesis using less.prems(5) l by (cases "l = lo + 1") auto
    next
      case gt: True
      have lA: "xs ! l \<in> A" using less.prems True l by (auto intro: in_dom)
      show ?thesis
      proof (cases "l = lo + 1")
        case True
        with gt refl [OF dom(2)] show ?thesis by simp
      next
        case False
        with l have "cmp (xs ! j) (xs ! l) \<le> 0" using less.prems(5) by simp
        with trans [OF dom(2) dom(1) lA total [OF dom gt]] gt show ?thesis by simp
      qed
    qed
    then have "\<exists>k < hi. min_loop cmp xs ?j (lo + 1) hi = Some k \<and> (\<forall>l < hi. cmp (xs ! k) (xs ! l) \<le> 0)"
      using less.prems True by (intro less.hyps) auto
    moreover have "min_loop cmp xs j lo hi = min_loop cmp xs ?j (lo + 1) hi"
      using True less.prems by (subst min_loop.simps) simp
    ultimately show ?thesis by simp
  qed
qed

lemma find_place_correct:
  assumes "0 < hi" "hi \<le> minval" "minval < length xs" "cmp (xs ! 0) (xs ! minval) \<le> 0"
  shows "\<exists>h < hi. find_place cmp xs hi minval = Some h \<and> cmp (xs ! h) (xs ! minval) \<le> 0
    \<and> (\<forall>k. h < k \<and> k < hi \<longrightarrow> 0 < cmp (xs ! k) (xs ! minval))"
  using assms
proof (induction hi)
  case (Suc hi)
  show ?case
  proof (cases "cmp (xs ! hi) (xs ! minval) \<le> 0")
    case True
    with Suc.prems show ?thesis by (intro exI [of _ hi]) auto
  next
    case False
    with Suc.prems have "0 < hi" by (cases "hi = 0") auto
    with Suc obtain h where h: "h < hi" "find_place cmp xs hi minval = Some h" "cmp (xs ! h) (xs ! minval) \<le> 0"
      "\<forall>k. h < k \<and> k < hi \<longrightarrow> 0 < cmp (xs ! k) (xs ! minval)" by auto
    with False Suc.prems show ?thesis by (intro exI [of _ h]) (auto simp: less_Suc_eq)
  qed
qed simp

definition ins_inv :: "'a list \<Rightarrow> nat \<Rightarrow> bool" where
  "ins_inv xs k \<longleftrightarrow> set xs \<subseteq> A \<and> 0 < k \<and> k \<le> length xs
     \<and> sorted_wrt (\<lambda>x y. cmp x y \<le> 0) (take k xs) \<and> (\<forall>x \<in> set xs. cmp (xs ! 0) x \<le> 0)"

lemma insert_sorted:
  assumes "ins_inv xs k" "k < length xs" "h < k" "cmp (xs ! h) (xs ! k) \<le> 0"
    "\<forall>l. h < l \<and> l < k \<longrightarrow> 0 < cmp (xs ! l) (xs ! k)"
  defines "ys \<equiv> take (h + 1) xs @ xs ! k # slice xs (h + 1) (k - (h + 1)) @ drop (k + 1) xs"
  shows "ins_inv ys (k + 1)" "mset ys = mset xs"
proof -
  have A: "set xs \<subseteq> A" and sorted: "sorted_wrt (\<lambda>x y. cmp x y \<le> 0) (take k xs)"
    and least: "\<forall>x \<in> set xs. cmp (xs ! 0) x \<le> 0" using assms(1) by (auto simp: ins_inv_def)
  let ?mid = "slice xs (h + 1) (k - (h + 1))"
  have front: "take k xs = take (h + 1) xs @ ?mid"
    using assms(3) take_add [of "h + 1" "k - (h + 1)" xs] by (simp add: slice_def)
  have xs: "xs = take (h + 1) xs @ ?mid @ xs ! k # drop (k + 1) xs"
    using id_take_nth_drop [OF assms(2)] front by simp
  show mset: "mset ys = mset xs"
  proof -
    have "mset ys = mset (take (h + 1) xs @ ?mid @ xs ! k # drop (k + 1) xs)"
      by (simp add: ys_def)
    also have "\<dots> = mset xs" using xs by (rule arg_cong [OF sym])
    finally show ?thesis .
  qed
  then have set: "set ys = set xs" by (metis set_mset_mset)
  have len: "length ys = length xs" using mset by (metis size_mset)
  have lmid: "length ?mid = k - (h + 1)" using assms(2,3) by (simp add: length_slice)
  have lfront: "length (take (h + 1) xs) = h + 1" using assms(2,3) by simp
  have take: "take (k + 1) ys = take (h + 1) xs @ xs ! k # ?mid"
    using assms(3) lmid lfront by (simp add: ys_def Suc_diff_Suc [symmetric] take_Cons')
  have kA: "xs ! k \<in> A" and hA: "xs ! h \<in> A" using A assms(2,3) by (auto simp: in_dom)
  have le_k: "cmp x (xs ! k) \<le> 0" if x: "x \<in> set (take (h + 1) xs)" for x
  proof -
    obtain i where i: "i \<le> h" "x = xs ! i" using x lfront by (auto simp: in_set_conv_nth less_Suc_eq_le)
    have iA: "xs ! i \<in> A" using A i assms(2,3) by (simp add: in_dom)
    have "cmp (xs ! i) (xs ! h) \<le> 0"
      using sorted_wrt_nth_less [OF sorted, of i h] i assms(2,3) refl [OF hA] by (cases "i = h") auto
    then show ?thesis using trans [OF iA hA kA _ assms(4)] i by simp
  qed
  have ge_k: "cmp (xs ! k) x \<le> 0" if x: "x \<in> set ?mid" for x
  proof -
    obtain i where i: "i < k - (h + 1)" "x = ?mid ! i" using x lmid by (auto simp: in_set_conv_nth)
    have v: "x = xs ! (h + 1 + i)" using i assms(2) by simp
    have "0 < cmp (xs ! (h + 1 + i)) (xs ! k)" using assms(5) i by simp
    moreover have "xs ! (h + 1 + i) \<in> A" using A i assms(2) by (simp add: in_dom)
    ultimately show ?thesis using total [OF _ kA] v by blast
  qed
  have "sorted_wrt (\<lambda>x y. cmp x y \<le> 0) (take (k + 1) ys)"
    using sorted le_k ge_k unfolding take front by (auto simp: sorted_wrt_append)
  moreover have "ys ! 0 = xs ! 0" using lfront by (simp add: ys_def nth_append)
  ultimately show "ins_inv ys (k + 1)"
    using A least set len assms(2) by (simp add: ins_inv_def)
qed

lemma insert_loop_correct:
  assumes "ins_inv xs k"
  shows "\<exists>ys. insert_loop cmp xs k (length xs) = Some ys \<and> mset ys = mset xs
    \<and> sorted_wrt (\<lambda>x y. cmp x y \<le> 0) ys"
  using assms
proof (induction "length xs - k" arbitrary: xs k)
  case 0
  then have "insert_loop cmp xs k (length xs) = Some xs" by (subst insert_loop.simps) simp
  with 0 show ?case by (auto simp: ins_inv_def)
next
  case (Suc n)
  have k: "k < length xs" "0 < k" using Suc by (auto simp: ins_inv_def)
  have "cmp (xs ! 0) (xs ! k) \<le> 0" using Suc.prems k by (simp add: ins_inv_def)
  then obtain h where h: "h < k" "find_place cmp xs k k = Some h" "cmp (xs ! h) (xs ! k) \<le> 0"
      "\<forall>l. h < l \<and> l < k \<longrightarrow> 0 < cmp (xs ! l) (xs ! k)"
    using find_place_correct [OF k(2) order_refl k(1)] by blast
  define ys where "ys = take (h + 1) xs @ xs ! k # slice xs (h + 1) (k - (h + 1)) @ drop (k + 1) xs"
  note ins = insert_sorted [OF Suc.prems k(1) h(1,3,4), folded ys_def]
  have shift: "(if h + 1 \<noteq> k then shift_loop xs k (h + 1) (xs ! k) else Some xs) = Some ys"
    using shift_loop_correct [of "h + 1" k xs "xs ! k"] h(1) k id_take_nth_drop [OF k(1)] by (auto simp: ys_def)
  have len: "length ys = length xs" using ins(2) by (metis size_mset)
  obtain zs where zs: "insert_loop cmp ys (k + 1) (length ys) = Some zs" "mset zs = mset ys"
      "sorted_wrt (\<lambda>x y. cmp x y \<le> 0) zs"
  proof -
    have "n = length ys - (k + 1)" using Suc.hyps(2) len by linarith
    from Suc.hyps(1) [OF this ins(1)] that show thesis by blast
  qed
  have "insert_loop cmp xs k (length xs) = Some zs"
    using k(1) h(2) shift zs(1) len by (subst insert_loop.simps) simp
  with zs ins(2) show ?case by auto
qed

lemma qsort_correct:
  assumes "set xs \<subseteq> A"
  shows "\<exists>ys. qsort cmp xs = Some ys \<and> mset ys = mset xs \<and> sorted_wrt (\<lambda>x y. cmp x y \<le> 0) ys"
proof (cases "length xs \<le> 1")
  case True
  then have "sorted_wrt (\<lambda>x y. cmp x y \<le> 0) xs" by (cases xs) auto
  with True show ?thesis by (simp add: qsort_def)
next
  case False
  let ?n = "length xs" and ?hi = "if THRESH \<le> length xs then THRESH else length xs"
  obtain ys where ys: "(if THRESH \<le> ?n then qst cmp xs 0 ?n else Some xs) = Some ys" "part_done 0 ?n xs ys"
  proof (cases "THRESH \<le> ?n")
    case True
    then have "0 < ?n" by linarith
    from qst_correct [OF assms this order_refl] True that show thesis by auto
  next
    case False
    then have "?n - 0 < THRESH" by simp
    from part_done_small [OF assms order_refl this] False that show thesis by auto
  qed
  have perm: "mset ys = mset xs" "length ys = ?n" "set ys = set xs"
    using ys(2) seg_perm_set [of 0 ?n xs ys] by (simp_all add: part_done_def seg_perm_def)
  have A: "set ys \<subseteq> A" using assms perm by simp
  have hi: "0 < ?hi" "?hi \<le> length ys" using False perm by auto
  have "ys ! 0 \<in> A" using A False perm by (intro in_dom) auto
  then obtain j where j: "j < ?hi" "min_loop cmp ys 0 0 ?hi = Some j" "\<forall>l < ?hi. cmp (ys ! j) (ys ! l) \<le> 0"
    using min_loop_correct [OF A hi(2), of 0 0] hi(1) refl by auto
  have least: "cmp (ys ! j) (ys ! l) \<le> 0" if l: "l < ?n" for l
  proof -
    obtain k where k': "k < THRESH" "k < ?n" "\<forall>l < ?n. cmp (ys ! k) (ys ! l) \<le> 0"
      using ys(2) False by (auto simp: part_done_def head_min_def)
    then have k: "k < ?hi" "\<forall>l < ?n. cmp (ys ! k) (ys ! l) \<le> 0" by auto
    have "cmp (ys ! j) (ys ! k) \<le> 0" "cmp (ys ! k) (ys ! l) \<le> 0" using j(3) k l by auto
    then show ?thesis
      using trans [of "ys ! j" "ys ! k" "ys ! l"] in_dom [OF A] j(1) k(1) l hi(2) perm(2) by simp
  qed
  obtain zs where zs: "(if j \<noteq> 0 then swap_at ys 0 j else Some ys) = Some zs" "mset zs = mset ys" "zs ! 0 = ys ! j"
  proof (cases "j = 0")
    case False
    have "0 < ?n" "j < ?n" using j(1) hi(2) perm(2) by auto
    with seg_perm_swap [of 0 0 ?n j ys] perm(2) obtain zs where "swap_at ys 0 j = Some zs" "seg_perm 0 ?n ys zs"
      "zs ! 0 = ys ! j" by auto
    with False that show thesis by (simp add: seg_perm_def)
  qed simp
  have zset: "set zs = set ys" using zs(2) by (metis set_mset_mset)
  have zlen: "length zs = ?n" using zs(2) perm(2) by (metis size_mset)
  have "take (Suc 0) zs = [zs ! 0]" using zlen False by (cases zs) auto
  then have "ins_inv zs 1"
    using A zset zlen False least perm(2) zs(3)
    by (auto simp: ins_inv_def in_set_conv_nth take_Suc_conv_app_nth)
  from insert_loop_correct [OF this] zlen obtain us where us: "insert_loop cmp zs 1 ?n = Some us" "mset us = mset zs"
    "sorted_wrt (\<lambda>x y. cmp x y \<le> 0) us" by auto
  have "qsort cmp xs = Some us"
    using False ys(1) j(2) zs(1) us(1) by (simp add: qsort_def Let_def)
  with us zs(2) perm(1) show ?thesis by auto
qed

end

subsection \<open>Sorting strings with \<open>strcmp\<close>\<close>

lemma str_diff_total: "0 < str_diff a b \<Longrightarrow> str_diff b a \<le> 0"
  by (induction a b rule: str_diff.induct) auto

lemma sint_eq_iff [simp]: "sint (a :: byte) = sint b \<longleftrightarrow> a = b"
  by (auto intro: signed_word_eqI)

lemma sint_eq_0_iff [simp]: "sint (a :: byte) = 0 \<longleftrightarrow> a = 0"
  using sint_eq_iff [of a 0] by simp

text \<open>The end of a string compares as the character zero, below or above the others as their sign is.\<close>

lemma str_diff_trans:
  "0 \<notin> set a \<Longrightarrow> 0 \<notin> set b \<Longrightarrow> 0 \<notin> set c \<Longrightarrow> str_diff a b \<le> 0 \<Longrightarrow> str_diff b c \<le> 0 \<Longrightarrow> str_diff a c \<le> 0"
proof (induction a b arbitrary: c rule: str_diff.induct)
  case (2 b bs)
  then show ?case by (cases c) (auto split: if_splits)
next
  case (3 a as)
  then have "sint a \<le> 0" "sint a \<noteq> 0" by (simp, simp del: sint_eq_0_iff add: sint_eq_0_iff)
  then have "sint a < 0" by linarith
  with 3 show ?case by (cases c) (auto split: if_splits)
next
  case (4 a as b bs)
  then show ?case
  proof (cases c)
    case Nil
    then show ?thesis using 4 sint_eq_0_iff [of b] by (auto split: if_splits)
  next
    case (Cons c' cs)
    show ?thesis
    proof (cases "a = b")
      case True
      with 4 Cons show ?thesis by (auto split: if_splits)
    next
      case False
      then have "sint a < sint b" using 4 sint_eq_iff [of a b] by (simp add: less_le)
      moreover have "sint b \<le> sint c'" using 4 Cons by (auto split: if_splits)
      ultimately show ?thesis using Cons by auto
    qed
  qed
qed simp

interpretation strings: comparator str_diff "{s. 0 \<notin> set s}"
  by unfold_locales (auto intro: str_diff_total str_diff_trans)

text \<open>
  \<open>qsort\<close> of an array of strings with \<open>strcmp\<close> returns, without leaving the array, a permutation
  of it in ascending order.  (\<open>str_diff\<close> is what \<open>strcmp\<close> returns for the strings at two addresses.)
\<close>

theorem qsort_strings:
  assumes "\<forall>s \<in> set xs. 0 \<notin> set s"
  shows "\<exists>ys. qsort str_diff xs = Some ys \<and> mset ys = mset xs \<and> sorted_wrt (\<lambda>x y. str_diff x y \<le> 0) ys"
  using strings.qsort_correct [of xs] assms by auto

theorem qsort_strings_witness:
  "\<exists>ys. qsort str_diff [[66], [65, 200], [65], [], [67]] = Some ys \<and> mset ys = mset [[66], [65, 200], [65], [], [67]]
     \<and> sorted_wrt (\<lambda>x y. str_diff x y \<le> 0) ys"
  by (rule qsort_strings) simp

text \<open>
  C28: \<open>qsort\<close> with any comparison routine that is total and transitive on the records of the array
  terminates, makes no access outside the array, and leaves a sorted permutation of it.
\<close>

theorem qsort_sorts:
  assumes "\<And>x y. x \<in> set xs \<Longrightarrow> y \<in> set xs \<Longrightarrow> 0 < cmp x y \<Longrightarrow> cmp y x \<le> 0"
    "\<And>x y z. x \<in> set xs \<Longrightarrow> y \<in> set xs \<Longrightarrow> z \<in> set xs \<Longrightarrow> cmp x y \<le> 0 \<Longrightarrow> cmp y z \<le> 0 \<Longrightarrow> cmp x z \<le> 0"
  shows "\<exists>ys. qsort cmp xs = Some ys \<and> mset ys = mset xs \<and> sorted_wrt (\<lambda>x y. cmp x y \<le> 0) ys"
proof -
  have "comparator cmp (set xs)" using assms by unfold_locales
  then show ?thesis by (rule comparator.qsort_correct) simp
qed

theorem qsort_sorts_witness:
  "\<exists>ys. qsort (\<lambda>x y. x - y) [5, 1, 4, 1, 3, 9 :: int] = Some ys \<and> mset ys = mset [5, 1, 4, 1, 3, 9]
     \<and> sorted_wrt (\<lambda>x y. x - y \<le> 0) ys"
  by (rule qsort_sorts) auto

end
