(* ===== verification/Cl_Stack.thy ===== *)
theory Cl_Stack
  imports Libc_Strings
begin

text \<open>
  \<open>pkg/cl/stack.c\<close> and the types of \<open>pkg/cl/mem.h\<close> and \<open>operand.h\<close>: the one array \<open>stack\<close> of the
  CL that holds the control stack, growing downwards, and the operand stack, growing upwards.
  The array lies in the byte memory, at the address \<open>stk\<close>, so that the strings that operands point
  to may lie in it or elsewhere.  \<open>cl_error\<close> does not return: an operation ends with the value it
  returns, with the error it raised, or in a fault, and in the first two cases with a state.
\<close>

subsection \<open>State, errors and sequencing\<close>

type_synonym memel = "64 word"

text \<open>
  The arithmetic on \<open>double\<close>, which is the processor's and the mathematical library's: a value is the
  number whose bits it has.
\<close>

record fops =
  f_of_int :: "int \<Rightarrow> int"
  f_to_int :: "int \<Rightarrow> int"
  f_to_long :: "int \<Rightarrow> int"
  f_add :: "int \<Rightarrow> int \<Rightarrow> int"
  f_sub :: "int \<Rightarrow> int \<Rightarrow> int"
  f_mul :: "int \<Rightarrow> int \<Rightarrow> int"
  f_div :: "int \<Rightarrow> int \<Rightarrow> int"
  f_pow :: "int \<Rightarrow> int \<Rightarrow> int"
  f_atan2 :: "int \<Rightarrow> int \<Rightarrow> int"
  f_neg :: "int \<Rightarrow> int"
  f_half :: int
  f_lt :: "int \<Rightarrow> int \<Rightarrow> bool"
  f_le :: "int \<Rightarrow> int \<Rightarrow> bool"
  f_eq :: "int \<Rightarrow> int \<Rightarrow> bool"
  f_math :: "int \<Rightarrow> int \<Rightarrow> int"
  f_nint :: "int \<Rightarrow> int"
  f_fmt_g :: "int \<Rightarrow> byte list"

text \<open>
  What is fixed while the CL runs: the place and size of the stack, the size of a task frame, what a
  \<open>struct operand\<close> that has not been set yet happens to hold, the addresses of the strings and of the
  local buffers that operations use, the arithmetic on \<open>double\<close>, and the conversions of \<open>sscanf\<close> with
  \<open>%ld\<close> and \<open>%lf\<close> (\<open>None\<close> if it converts nothing) and of \<open>sprintf\<close> with \<open>%r*\<close>.
\<close>

record clenv =
  stk :: nat
  stacksiz :: int
  tasksiz :: int
  junk_type :: int
  junk_raw :: "byte list"
  truestr :: nat
  falsestr :: nat
  numstr :: nat
  resbuf :: nat
  s2buf :: nat
  sbuf :: nat
  fl :: fops
  scan_ld :: "byte list \<Rightarrow> int option"
  scan_lf :: "byte list \<Rightarrow> int option"
  fmt_radix :: "int \<Rightarrow> int \<Rightarrow> byte list"

datatype emsg = Soverflow | Sunderflow | Cs_overflow | Cs_underflow | Task_overflow | Badsw int
  | Badstrop | Nostrcnv | Strplusreal | Fdivzero | Idivzero | Msg string

datatype clerr = E_UERR emsg | E_IERR emsg

record clm =
  mm :: mem
  topcs :: int
  topos :: int
  basos :: int
  last_task_frame :: int
  pc :: int
  eprinted :: "emsg list"
  tout :: "byte list"

datatype 'a clres = Ret 'a clm | Raise clerr clm | Fault

type_synonym 'a cl = "clm \<Rightarrow> 'a clres"

definition ret :: "'a \<Rightarrow> 'a cl" where
  "ret a = (\<lambda>s. Ret a s)"

definition bindc :: "'a cl \<Rightarrow> ('a \<Rightarrow> 'b cl) \<Rightarrow> 'b cl" where
  "bindc f g = (\<lambda>s. case f s of Ret a s' \<Rightarrow> g a s' | Raise e s' \<Rightarrow> Raise e s' | Fault \<Rightarrow> Fault)"

definition thenc :: "'a cl \<Rightarrow> 'b cl \<Rightarrow> 'b cl" where
  "thenc f g = bindc f (\<lambda>_. g)"

definition cl_error :: "clerr \<Rightarrow> 'a cl" where
  "cl_error e = (\<lambda>s. Raise e s)"

definition gets :: "(clm \<Rightarrow> 'a) \<Rightarrow> 'a cl" where
  "gets f = (\<lambda>s. Ret (f s) s)"

definition modify :: "(clm \<Rightarrow> clm) \<Rightarrow> unit cl" where
  "modify f = (\<lambda>s. Ret () (f s))"

definition memget :: "(mem \<Rightarrow> 'a option) \<Rightarrow> 'a cl" where
  "memget f = (\<lambda>s. case f (mm s) of None \<Rightarrow> Fault | Some a \<Rightarrow> Ret a s)"

definition memop :: "(mem \<Rightarrow> mem option) \<Rightarrow> unit cl" where
  "memop f = (\<lambda>s. case f (mm s) of None \<Rightarrow> Fault | Some m \<Rightarrow> Ret () (s\<lparr>mm := m\<rparr>))"

definition eprintf :: "emsg \<Rightarrow> unit cl" where
  "eprintf e = modify (\<lambda>s. s\<lparr>eprinted := eprinted s @ [e]\<rparr>)"

named_theorems cl_simps \<open>executing one step of CL code\<close>

lemma bindc_Ret [cl_simps]: "f s = Ret a s' \<Longrightarrow> bindc f g s = g a s'"
  by (simp add: bindc_def)

lemma thenc_Ret [cl_simps]: "f s = Ret a s' \<Longrightarrow> thenc f g s = g s'"
  by (simp add: thenc_def bindc_def)

lemma bindc_Raise [cl_simps]: "f s = Raise e s' \<Longrightarrow> bindc f g s = Raise e s'"
  by (simp add: bindc_def)

lemma thenc_Raise [cl_simps]: "f s = Raise e s' \<Longrightarrow> thenc f g s = Raise e s'"
  by (simp add: thenc_def bindc_def)

lemma cl_basic [simp]:
  "ret a s = Ret a s" "cl_error e s = Raise e s" "gets f s = Ret (f s) s" "modify h s = Ret () (h s)"
  by (simp_all add: ret_def cl_error_def gets_def modify_def)

lemma bindc_basic [cl_simps]:
  "bindc (gets f) g s = g (f s) s" "bindc (ret a) g s = g a s" "thenc (modify h) k s = k (h s)" "thenc (ret a) k s = k s"
  "bindc (cl_error e) g s = Raise e s" "thenc (cl_error e) k s = Raise e s"
  by (simp_all add: bindc_def thenc_def)

lemma memget_Some: "f (mm s) = Some a \<Longrightarrow> memget f s = Ret a s"
  by (simp add: memget_def)

lemma memop_Some: "f (mm s) = Some m \<Longrightarrow> memop f s = Ret () (s\<lparr>mm := m\<rparr>)"
  by (simp add: memop_def)

subsection \<open>Cells and operands\<close>

abbreviation BPI :: nat where "BPI \<equiv> 8"
abbreviation OPSIZ :: int where "OPSIZ \<equiv> 2"

definition btoi :: "nat \<Rightarrow> nat" where
  "btoi x = (x + BPI - 1) div BPI"

abbreviation OT_BOOL :: int where "OT_BOOL \<equiv> 0"
abbreviation OT_INT :: int where "OT_INT \<equiv> 1"
abbreviation OT_REAL :: int where "OT_REAL \<equiv> 2"
abbreviation OT_STRING :: int where "OT_STRING \<equiv> 3"

definition OT_BASIC :: "int \<Rightarrow> int" where
  "OT_BASIC t = take_bit 2 t"

text \<open>\<open>struct operand\<close>: a \<open>short\<close> and a union of eight bytes, of an \<open>int\<close>, a \<open>double\<close> and a pointer.\<close>

record operand =
  o_type :: int
  o_raw :: "byte list"

definition v_i :: "operand \<Rightarrow> int" where
  "v_i op = cdec CINT (take 4 (o_raw op))"

definition v_r :: "operand \<Rightarrow> int" where
  "v_r op = le_val (o_raw op)"

definition v_s :: "operand \<Rightarrow> nat" where
  "v_s op = nat (le_val (o_raw op))"

definition set_v_i :: "int \<Rightarrow> operand \<Rightarrow> operand" where
  "set_v_i x op = op\<lparr>o_raw := cenc CINT x @ drop 4 (o_raw op)\<rparr>"

definition set_v_r :: "int \<Rightarrow> operand \<Rightarrow> operand" where
  "set_v_r x op = op\<lparr>o_raw := le_enc 8 x\<rparr>"

definition set_v_s :: "nat \<Rightarrow> operand \<Rightarrow> operand" where
  "set_v_s p op = op\<lparr>o_raw := le_enc 8 (int p)\<rparr>"

definition opindef :: "operand \<Rightarrow> bool" where
  "opindef op \<longleftrightarrow> bit (o_type op) 2"

definition opundef :: "operand \<Rightarrow> bool" where
  "opundef op \<longleftrightarrow> bit (o_type op) 3"

definition setopindef :: "operand \<Rightarrow> operand" where
  "setopindef op = op\<lparr>o_type := to_short (or (o_type op) 4)\<rparr>"

definition setopundef :: "operand \<Rightarrow> operand" where
  "setopundef op = op\<lparr>o_type := to_short (or (o_type op) 8)\<rparr>"

definition uninit :: "clenv \<Rightarrow> operand" where
  "uninit E = \<lparr>o_type = junk_type E, o_raw = junk_raw E\<rparr>"

text \<open>The address of \<open>stack[i]\<close>; the stack is only indexed from zero on.\<close>

definition cell :: "clenv \<Rightarrow> int \<Rightarrow> nat option" where
  "cell E i = (if 0 \<le> i then Some (stk E + BPI * nat i) else None)"

definition get_cell :: "clenv \<Rightarrow> int \<Rightarrow> memel cl" where
  "get_cell E i = memget (\<lambda>m. case cell E i of None \<Rightarrow> None
     | Some p \<Rightarrow> map_option word_of_int (cload XLONG m p))"

definition set_cell :: "clenv \<Rightarrow> int \<Rightarrow> memel \<Rightarrow> unit cl" where
  "set_cell E i v = memop (\<lambda>m. case cell E i of None \<Rightarrow> None | Some p \<Rightarrow> cstore XLONG m p (sint v))"

text \<open>Copying a \<open>struct operand\<close> to and from an address; the padding after the \<open>short\<close> is left alone.\<close>

definition store_operand :: "nat \<Rightarrow> operand \<Rightarrow> mem \<Rightarrow> mem option" where
  "store_operand p op m =
     (if p + 16 \<le> length m then Some (blit (blit m p (cenc XSHORT (o_type op))) (p + 8) (o_raw op)) else None)"

definition load_operand :: "nat \<Rightarrow> mem \<Rightarrow> operand option" where
  "load_operand p m =
     (if p + 16 \<le> length m then Some \<lparr>o_type = cdec XSHORT (slice m p 2), o_raw = slice m (p + 8) 8\<rparr> else None)"

subsection \<open>The control stack\<close>

definition pushmem :: "clenv \<Rightarrow> memel \<Rightarrow> unit cl" where
  "pushmem E v =
     bindc (gets (\<lambda>s. topcs s - 1 > topos s)) (\<lambda>room.
     if room then
       thenc (modify (\<lambda>s. s\<lparr>topcs := topcs s - 1\<rparr>))
       (bindc (gets topcs) (\<lambda>t. set_cell E t v))
     else eprintf Cs_overflow)"

definition popmem :: "clenv \<Rightarrow> memel cl" where
  "popmem E =
     bindc (gets topcs) (\<lambda>t.
     if t < stacksiz E then
       thenc (modify (\<lambda>s. s\<lparr>topcs := topcs s + 1\<rparr>)) (get_cell E t)
     else thenc (eprintf Cs_underflow) (ret (- 1)))"

definition ppushmem :: "clenv \<Rightarrow> memel \<Rightarrow> unit cl" where
  "ppushmem E p = bindc (popmem E) (\<lambda>q. thenc (pushmem E p) (pushmem E q))"

text \<open>The task frames; the result is the index in the stack of the \<open>struct task\<close>.\<close>

definition pushtask :: "clenv \<Rightarrow> int cl" where
  "pushtask E =
     bindc (gets (\<lambda>s. topcs s - tasksiz E > topos s)) (\<lambda>room.
     if room then
       thenc (modify (\<lambda>s. s\<lparr>topcs := topcs s - tasksiz E\<rparr>))
       (thenc (modify (\<lambda>s. s\<lparr>last_task_frame := topcs s\<rparr>))
       (gets topcs))
     else cl_error (E_UERR Task_overflow))"

definition poptask :: "clenv \<Rightarrow> int cl" where
  "poptask E =
     bindc (gets topcs) (\<lambda>t.
     if t \<le> stacksiz E - tasksiz E then
       thenc (modify (\<lambda>s. if topcs s < last_task_frame s then s\<lparr>topcs := last_task_frame s\<rparr> else s))
       (thenc (modify (\<lambda>s. s\<lparr>topcs := topcs s + tasksiz E\<rparr>))
       (thenc (modify (\<lambda>s. s\<lparr>last_task_frame := topcs s\<rparr>))
       (gets topcs)))
     else cl_error (E_IERR Cs_underflow))"

subsection \<open>The operand stack\<close>

text \<open>The string of an operand is copied behind it, and the operand made to point to the copy.\<close>

definition push_string :: "clenv \<Rightarrow> nat \<Rightarrow> nat \<Rightarrow> unit cl" where
  "push_string E dest str =
     bindc (memget (strlen str)) (\<lambda>n.
     let len = int (btoi (nat n + 1)) in
     bindc (gets (\<lambda>s. topos s + OPSIZ + 1 + len \<ge> topcs s)) (\<lambda>full.
     if full then cl_error (E_IERR Soverflow)
     else
       bindc (gets (\<lambda>s. cell E (topos s + OPSIZ + 1))) (\<lambda>q.
       case q of None \<Rightarrow> (\<lambda>s. Fault)
       | Some p \<Rightarrow>
         thenc (memop (\<lambda>m. case load_operand dest m of None \<Rightarrow> None
                           | Some op \<Rightarrow> store_operand dest (set_v_s p op) m))
         (thenc (memop (strcpy p str))
         (modify (\<lambda>s. s\<lparr>topos := topos s + len\<rparr>))))))"

definition pushop :: "clenv \<Rightarrow> operand \<Rightarrow> operand cl" where
  "pushop E op =
     bindc (gets (\<lambda>s. topos s + OPSIZ + 1 < topcs s)) (\<lambda>room.
     if room then
       bindc (gets topos) (\<lambda>lasttopos.
       case cell E (lasttopos + 1) of None \<Rightarrow> (\<lambda>s. Fault)
       | Some dest \<Rightarrow>
         thenc (memop (store_operand dest op))
         (thenc (if o_type op = OT_STRING then push_string E dest (v_s op) else ret ())
         (thenc (modify (\<lambda>s. s\<lparr>topos := topos s + OPSIZ + 1\<rparr>))
         (bindc (gets topos) (\<lambda>t.
         thenc (set_cell E t (word_of_int lasttopos))
         (memget (load_operand dest)))))))
     else cl_error (E_IERR Soverflow))"

definition popop :: "clenv \<Rightarrow> operand cl" where
  "popop E =
     bindc (gets (\<lambda>s. topos s > basos s)) (\<lambda>some.
     if some then
       bindc (gets topos) (\<lambda>t.
       bindc (get_cell E t) (\<lambda>v.
       thenc (modify (\<lambda>s. s\<lparr>topos := sint v\<rparr>))
       (bindc (gets (\<lambda>s. cell E (topos s + 1))) (\<lambda>q.
       case q of None \<Rightarrow> (\<lambda>s. Fault) | Some p \<Rightarrow> memget (load_operand p)))))
     else cl_error (E_UERR Sunderflow))"

subsection \<open>What the operand stack holds\<close>

datatype aop = AInt int | ABool int | AReal int | AStr "byte list" | AIndef int

text \<open>The value of an operand, with the string that its pointer points to.\<close>

fun val_of :: "mem \<Rightarrow> operand \<Rightarrow> aop \<Rightarrow> bool" where
  "val_of m op (AInt x) \<longleftrightarrow> o_type op = OT_INT \<and> v_i op = x"
| "val_of m op (ABool x) \<longleftrightarrow> o_type op = OT_BOOL \<and> v_i op = x"
| "val_of m op (AReal r) \<longleftrightarrow> o_type op = OT_REAL \<and> v_r op = r"
| "val_of m op (AStr str) \<longleftrightarrow> o_type op = OT_STRING \<and> kstr_at m (v_s op) str"
| "val_of m op (AIndef t) \<longleftrightarrow> o_type op = t \<and> bit t 2"

definition op_ok :: "operand \<Rightarrow> bool" where
  "op_ok op \<longleftrightarrow> in_range XSHORT (o_type op) \<and> length (o_raw op) = 8"

definition same_on :: "nat \<Rightarrow> nat \<Rightarrow> mem \<Rightarrow> mem \<Rightarrow> bool" where
  "same_on a b m m' \<longleftrightarrow> length m' = length m \<and> (\<forall>i. a \<le> i \<and> i < b \<longrightarrow> m' ! i = m ! i)"

definition same_outside :: "nat \<Rightarrow> nat \<Rightarrow> mem \<Rightarrow> mem \<Rightarrow> bool" where
  "same_outside a b m m' \<longleftrightarrow> length m' = length m \<and> (\<forall>i. i < a \<or> b \<le> i \<longrightarrow> i < length m \<longrightarrow> m' ! i = m ! i)"

definition aop_cells :: "aop \<Rightarrow> nat" where
  "aop_cells a = 3 + (case a of AStr str \<Rightarrow> btoi (length str + 1) | _ \<Rightarrow> 0)"

text \<open>An operand at the cells \<open>l\<close> and \<open>l + 1\<close>, its string, and the link to the one below.\<close>

definition op_at :: "mem \<Rightarrow> nat \<Rightarrow> nat \<Rightarrow> aop \<Rightarrow> bool" where
  "op_at m S l a \<longleftrightarrow> S + 8 * (l + aop_cells a) \<le> length m
     \<and> cdec XLONG (slice m (S + 8 * (l + aop_cells a - 1)) 8) = int l - 1
     \<and> (\<exists>op. load_operand (S + 8 * l) m = Some op \<and> val_of m op a
           \<and> (\<forall>str. a = AStr str \<longrightarrow> v_s op = S + 8 * (l + 2)))"

fun os_rep :: "mem \<Rightarrow> nat \<Rightarrow> nat \<Rightarrow> nat \<Rightarrow> aop list \<Rightarrow> bool" where
  "os_rep m S b n [] \<longleftrightarrow> n = b"
| "os_rep m S b n (a # as) \<longleftrightarrow>
     b + aop_cells a \<le> n \<and> op_at m S (n - aop_cells a) a \<and> os_rep m S b (n - aop_cells a) as"

definition lay_ok :: "clenv \<Rightarrow> clm \<Rightarrow> bool" where
  "lay_ok E s \<longleftrightarrow> stk E + 8 * nat (stacksiz E) \<le> length (mm s) \<and> length (mm s) < 2 ^ 63
     \<and> - 1 \<le> basos s \<and> basos s \<le> topos s \<and> topos s < topcs s \<and> topcs s \<le> stacksiz E"

definition ostack :: "clenv \<Rightarrow> clm \<Rightarrow> aop list \<Rightarrow> bool" where
  "ostack E s as \<longleftrightarrow> lay_ok E s \<and> os_rep (mm s) (stk E) (nat (basos s + 1)) (nat (topos s + 1)) as"

lemma btoi_bounds: "x \<le> 8 * btoi x" "0 < x \<Longrightarrow> 0 < btoi x"
  by (auto simp: btoi_def)

lemma aop_cells_simps [simp]:
  "aop_cells (AInt x) = 3" "aop_cells (ABool x) = 3" "aop_cells (AReal x) = 3" "aop_cells (AIndef x) = 3"
  "aop_cells (AStr str) = 3 + btoi (length str + 1)"
  by (simp_all add: aop_cells_def)

lemma aop_cells_ge: "3 \<le> aop_cells a"
  by (simp add: aop_cells_def)

lemma same_on_refl [simp]: "same_on a b m m"
  by (simp add: same_on_def)

lemma same_outside_refl [simp]: "same_outside a b m m"
  by (simp add: same_outside_def)

lemma same_outside_trans: "same_outside a b m m' \<Longrightarrow> same_outside a b m' m'' \<Longrightarrow> same_outside a b m m''"
  by (simp add: same_outside_def)

lemma same_outside_mono: "same_outside a b m m' \<Longrightarrow> a' \<le> a \<Longrightarrow> b \<le> b' \<Longrightarrow> same_outside a' b' m m'"
  by (auto simp: same_outside_def)

lemma same_outside_on:
  "same_outside a b m m' \<Longrightarrow> d \<le> a \<or> b \<le> c \<Longrightarrow> d \<le> length m \<Longrightarrow> same_on c d m m'"
  by (auto simp: same_outside_def same_on_def)

lemma same_outside_blit: "p + length bs \<le> length m \<Longrightarrow> a \<le> p \<Longrightarrow> p + length bs \<le> b \<Longrightarrow> same_outside a b m (blit m p bs)"
  by (auto simp: same_outside_def blit_simps nth_blit)

lemma same_on_mono: "same_on a b m m' \<Longrightarrow> a \<le> c \<Longrightarrow> d \<le> b \<Longrightarrow> same_on c d m m'"
  by (auto simp: same_on_def)

lemma slice_same: "same_on a b m m' \<Longrightarrow> a \<le> p \<Longrightarrow> p + k \<le> b \<Longrightarrow> p + k \<le> length m \<Longrightarrow> slice m' p k = slice m p k"
  by (rule nth_equalityI) (auto simp: same_on_def length_slice)

lemma kstr_at_same:
  "kstr_at m p str \<Longrightarrow> same_on a b m m' \<Longrightarrow> a \<le> p \<Longrightarrow> p + length str < b \<Longrightarrow> kstr_at m' p str"
  using slice_same [of a b m m' p "Suc (length str)"] by (auto simp: kstr_at_def same_on_def)

lemma load_operand_same:
  "load_operand p m = Some op \<Longrightarrow> same_on a b m m' \<Longrightarrow> a \<le> p \<Longrightarrow> p + 16 \<le> b \<Longrightarrow> load_operand p m' = Some op"
  using slice_same [of a b m m' p 2] slice_same [of a b m m' "p + 8" 8]
  by (auto simp: load_operand_def same_on_def split: if_splits)

lemma val_of_same:
  assumes "val_of m op a" "same_on lo hi m m'" "\<And>str. a = AStr str \<Longrightarrow> lo \<le> v_s op \<and> v_s op + length str < hi"
  shows "val_of m' op a"
  using assms by (cases a) (auto intro: kstr_at_same)

lemma op_at_same:
  assumes "op_at m S l a" "same_on (S + 8 * l) (S + 8 * (l + aop_cells a)) m m'"
  shows "op_at m' S l a"
proof -
  let ?lo = "S + 8 * l" and ?hi = "S + 8 * (l + aop_cells a)"
  obtain op where op: "load_operand ?lo m = Some op" "val_of m op a" "\<forall>str. a = AStr str \<longrightarrow> v_s op = S + 8 * (l + 2)"
    and len: "?hi \<le> length m"
    and link: "cdec XLONG (slice m (S + 8 * (l + aop_cells a - 1)) 8) = int l - 1"
    using assms(1) by (auto simp: op_at_def)
  have c: "3 \<le> aop_cells a" by (rule aop_cells_ge)
  have "slice m' (S + 8 * (l + aop_cells a - 1)) 8 = slice m (S + 8 * (l + aop_cells a - 1)) 8"
    using assms(2) len c by (intro slice_same) auto
  moreover have "load_operand ?lo m' = Some op"
    using load_operand_same [OF op(1) assms(2)] c by simp
  moreover have "val_of m' op a"
  proof (rule val_of_same [OF op(2) assms(2)])
    fix str assume a: "a = AStr str"
    then show "?lo \<le> v_s op \<and> v_s op + length str < ?hi"
      using op(3) btoi_bounds(1) [of "length str + 1"] by auto
  qed
  ultimately show ?thesis
    using op(3) len link assms(2) by (auto simp: op_at_def same_on_def)
qed

lemma os_rep_same:
  "os_rep m S b n as \<Longrightarrow> same_on (S + 8 * b) (S + 8 * n) m m' \<Longrightarrow> os_rep m' S b n as"
proof (induction as arbitrary: n)
  case (Cons a as)
  let ?l = "n - aop_cells a"
  from Cons.prems have l: "b \<le> ?l" "?l + aop_cells a = n" by auto
  have "same_on (S + 8 * ?l) (S + 8 * (?l + aop_cells a)) m m'"
    by (rule same_on_mono [OF Cons.prems(2)]) (use l in simp_all)
  then have "op_at m' S ?l a" by (rule op_at_same [rotated]) (use Cons.prems(1) in simp)
  moreover have "same_on (S + 8 * b) (S + 8 * ?l) m m'"
    by (rule same_on_mono [OF Cons.prems(2)]) (use l in simp_all)
  then have "os_rep m' S b ?l as" using Cons by simp
  ultimately show ?case using Cons.prems by simp
qed simp

lemma os_rep_base: "os_rep m S b n as \<Longrightarrow> b \<le> n"
proof (induction as arbitrary: n)
  case (Cons a as)
  then have "b + aop_cells a \<le> n" by simp
  then show ?case by simp
qed simp

lemma os_rep_height: "os_rep m S b n as \<Longrightarrow> n = b + sum_list (map aop_cells as)"
proof (induction as arbitrary: n)
  case (Cons a as)
  then have "n - aop_cells a = b + sum_list (map aop_cells as)" "b + aop_cells a \<le> n" by simp_all
  then show ?case by simp
qed simp

lemma ostack_height:
  assumes "ostack E s as"
  shows "topos s = basos s + int (sum_list (map aop_cells as))"
proof -
  have "nat (topos s + 1) = nat (basos s + 1) + sum_list (map aop_cells as)"
    using assms os_rep_height unfolding ostack_def by blast
  moreover have "- 1 \<le> basos s" "basos s \<le> topos s" using assms by (auto simp: ostack_def lay_ok_def)
  ultimately show ?thesis by linarith
qed

subsection \<open>The two operations on the operand stack\<close>

lemma sint_memel: "- (2 ^ 63) \<le> x \<Longrightarrow> x < 2 ^ 63 \<Longrightarrow> sint (word_of_int x :: memel) = x"
  by (simp add: signed_of_int signed_take_bit_int_eq_self)

lemma load_store_operand:
  assumes "op_ok op" "p + 16 \<le> length m"
  shows "\<exists>m'. store_operand p op m = Some m' \<and> load_operand p m' = Some op \<and> same_outside p (p + 16) m m'"
proof -
  let ?m = "blit (blit m p (cenc XSHORT (o_type op))) (p + 8) (o_raw op)"
  have raw: "length (o_raw op) = 8" using assms(1) by (simp add: op_ok_def)
  have "slice ?m p 2 = slice (blit m p (cenc XSHORT (o_type op))) p 2"
    using assms(2) raw by (intro slice_blit_disjoint) (auto simp: blit_simps)
  also have "\<dots> = cenc XSHORT (o_type op)"
    using slice_blit_same [of p "cenc XSHORT (o_type op)" m] assms(2) by simp
  finally have "cdec XSHORT (slice ?m p 2) = o_type op"
    using assms(1) by (simp add: cdec_cenc op_ok_def)
  moreover have "slice ?m (p + 8) 8 = o_raw op"
    using slice_blit_same [of "p + 8" "o_raw op" "blit m p (cenc XSHORT (o_type op))"] assms(2) raw
    by (simp add: blit_simps)
  moreover have "same_outside p (p + 16) m ?m"
    using assms(2) raw
    by (intro same_outside_trans [OF same_outside_blit same_outside_blit]) (auto simp: blit_simps)
  ultimately show ?thesis
    using assms(2) raw by (simp add: store_operand_def load_operand_def blit_simps)
qed

lemma load_operand_ok: "load_operand p m = Some op \<Longrightarrow> op_ok op"
  using cdec_in_range [of "slice m p 2" XSHORT]
  by (auto simp: load_operand_def op_ok_def length_slice split: if_splits)

text \<open>The top operand, as \<open>popop\<close> and \<open>opcast\<close> find it.\<close>

lemma top_cell:
  assumes "ostack E s (a # as)"
  shows "\<exists>op p. get_cell E (topos s) s = Ret (word_of_int (topos s - int (aop_cells a))) s
    \<and> sint (word_of_int (topos s - int (aop_cells a)) :: memel) = topos s - int (aop_cells a)
    \<and> cell E (topos s - int (aop_cells a) + 1) = Some p \<and> load_operand p (mm s) = Some op
    \<and> basos s < topos s \<and> val_of (mm s) op a \<and> op_ok op
    \<and> (\<forall>str. a = AStr str \<longrightarrow> v_s op = stk E + 8 * (nat (topos s + 1) - aop_cells a + 2))
    \<and> ostack E (s\<lparr>topos := topos s - int (aop_cells a)\<rparr>) as"
proof -
  let ?n = "nat (topos s + 1)" and ?b = "nat (basos s + 1)"
  let ?l = "?n - aop_cells a" and ?t = "topos s - int (aop_cells a)"
  have lay: "lay_ok E s" and fits: "?b + aop_cells a \<le> ?n" and at: "op_at (mm s) (stk E) ?l a"
    and rest: "os_rep (mm s) (stk E) ?b ?l as"
    using assms by (auto simp: ostack_def)
  have c: "3 \<le> aop_cells a" by (rule aop_cells_ge)
  have b: "- 1 \<le> basos s" "basos s \<le> topos s" using lay by (auto simp: lay_ok_def)
  have l: "int ?l = ?t + 1" "?l + aop_cells a = ?n" using fits b by auto
  have above: "basos s < topos s" "0 \<le> topos s" using fits c b by auto
  have top: "?l + aop_cells a - 1 = nat (topos s)" using l(2) above by auto
  obtain op where op: "load_operand (stk E + 8 * ?l) (mm s) = Some op" "val_of (mm s) op a"
      "\<forall>str. a = AStr str \<longrightarrow> v_s op = stk E + 8 * (?l + 2)"
    and len: "stk E + 8 * ?n \<le> length (mm s)"
    and link: "cdec XLONG (slice (mm s) (stk E + 8 * nat (topos s)) 8) = ?t"
    using at unfolding op_at_def l(2) top [unfolded l(2)] using l(1) by (elim conjE exE) (simp only:)
  have "stk E + 8 * nat (topos s) + 8 \<le> length (mm s)"
    using len above by (simp add: nat_add_distrib)
  then have "cload XLONG (mm s) (stk E + 8 * nat (topos s)) = Some ?t"
    using link by (simp add: cload_def)
  then have cellv: "get_cell E (topos s) s = Ret (word_of_int ?t) s"
    using above by (simp add: get_cell_def memget_def cell_def)
  have small: "- 1 \<le> ?t" "?t < 2 ^ 63"
    using l(1) b fits lay by (auto simp: lay_ok_def)
  have sint: "sint (word_of_int ?t :: memel) = ?t"
    using small by (intro sint_memel) auto
  have load: "load_operand (stk E + 8 * nat (?t + 1)) (mm s) = Some op"
    using op(1) l(1) by (metis nat_int)
  have nn: "0 \<le> ?t + 1" using l(1) by simp
  have "cell E (?t + 1) = Some (stk E + 8 * nat (?t + 1))" using nn by (simp add: cell_def)
  moreover have "op_ok op"
    using op(1) by (rule load_operand_ok)
  moreover have "ostack E (s\<lparr>topos := ?t\<rparr>) as"
  proof -
    have "nat (?t + 1) = ?l" using l(1) by simp
    moreover have "basos s \<le> ?t" using os_rep_base [OF rest] l(1) b by linarith
    ultimately show ?thesis using lay rest c by (auto simp: ostack_def lay_ok_def)
  qed
  ultimately show ?thesis using op cellv sint load above by blast
qed

lemma popop_correct:
  assumes "ostack E s (a # as)"
  shows "\<exists>op. popop E s = Ret op (s\<lparr>topos := topos s - int (aop_cells a)\<rparr>) \<and> val_of (mm s) op a
    \<and> op_ok op \<and> (\<forall>str. a = AStr str \<longrightarrow> v_s op = stk E + 8 * (nat (topos s + 1) - aop_cells a + 2))
    \<and> ostack E (s\<lparr>topos := topos s - int (aop_cells a)\<rparr>) as"
  using top_cell [OF assms]
  by (elim exE conjE) (intro exI conjI, simp add: popop_def cl_simps memget_def, assumption+)

lemma popop_empty: "ostack E s [] \<Longrightarrow> popop E s = Raise (E_UERR Sunderflow) s"
  by (auto simp: ostack_def lay_ok_def popop_def cl_simps)

text \<open>
  Pushing an operand: its string may be anywhere but in the two cells that the operand itself is
  copied to, so an operand that has just been popped may be pushed again.
\<close>

definition src_ok :: "clenv \<Rightarrow> clm \<Rightarrow> operand \<Rightarrow> aop \<Rightarrow> bool" where
  "src_ok E s op a \<longleftrightarrow> (\<forall>str. a = AStr str \<longrightarrow>
     v_s op + length str < stk E + 8 * nat (topos s + 1) \<or> stk E + 8 * (nat (topos s + 1) + 2) \<le> v_s op)"

lemma v_s_set [simp]: "p < 2 ^ 63 \<Longrightarrow> v_s (set_v_s p op) = p"
  by (simp add: v_s_def set_v_s_def le_val_le_enc)

lemma set_v_s_simps [simp]: "o_type (set_v_s p op) = o_type op" "op_ok (set_v_s p op) \<longleftrightarrow> in_range XSHORT (o_type op)"
  by (simp_all add: set_v_s_def op_ok_def)

lemma lay_ok_addr: "lay_ok E s \<Longrightarrow> i \<le> stacksiz E \<Longrightarrow> 0 \<le> i \<Longrightarrow> stk E + 8 * nat i \<le> length (mm s)"
  unfolding lay_ok_def by (meson add_left_mono le_trans mult_le_mono2 nat_mono)

lemma push_string_correct:
  assumes "lay_ok E s" "load_operand dest (mm s) = Some op" "o_type op = OT_STRING" "op_ok op"
    "dest = stk E + 8 * nat (topos s + 1)" "kstr_at (mm s) src str"
    "src + length str < dest \<or> dest + 16 \<le> src" "topos s + 3 + int (btoi (length str + 1)) < topcs s"
  shows "\<exists>m'. push_string E dest src s = Ret () (s\<lparr>mm := m', topos := topos s + int (btoi (length str + 1))\<rparr>)
    \<and> load_operand dest m' = Some (set_v_s (dest + 16) op) \<and> kstr_at m' (dest + 16) str
    \<and> same_outside dest (dest + 16 + 8 * btoi (length str + 1)) (mm s) m'"
proof -
  let ?c = "btoi (length str + 1)" and ?m = "mm s" and ?q = "dest + 16"
  have tp: "- 1 \<le> topos s" using assms(1) by (auto simp: lay_ok_def)
  have q: "cell E (topos s + OPSIZ + 1) = Some ?q"
    using tp assms(5) by (auto simp: cell_def nat_add_distrib)
  have room: "?q + 8 * ?c \<le> length ?m"
  proof -
    have "topos s + 3 + int ?c \<le> stacksiz E" using assms(1,8) by (auto simp: lay_ok_def)
    from lay_ok_addr [OF assms(1) this] tp assms(5) show ?thesis by (simp add: nat_add_distrib)
  qed
  have c: "length str + 1 \<le> 8 * ?c" by (rule btoi_bounds)
  have op': "op_ok (set_v_s ?q op)" using assms(4) by (simp add: op_ok_def set_v_s_def)
  obtain m1 where m1: "store_operand dest (set_v_s ?q op) ?m = Some m1" "load_operand dest m1 = Some (set_v_s ?q op)"
      "same_outside dest (dest + 16) ?m m1"
    using load_store_operand [OF op', of dest ?m] room by auto
  have len1: "length m1 = length ?m" using m1(3) by (simp add: same_outside_def)
  have sl: "src + length str < length ?m" using assms(6) by (simp add: kstr_at_def)
  have "kstr_at m1 src str"
  proof (cases "src + length str < dest")
    case True
    then show ?thesis
      using kstr_at_same [OF assms(6) same_outside_on [OF m1(3), of dest 0]] room by simp
  next
    case False
    then show ?thesis
      using kstr_at_same [OF assms(6) same_outside_on [OF m1(3), of "length ?m" ?q]] assms(7) sl by simp
  qed
  then have cp: "strcpy ?q src m1 = Some (blit m1 ?q (str @ [0]))"
    unfolding strcpy_def using room c len1 assms(7) by (intro copy_string_correct) auto
  let ?m' = "blit m1 ?q (str @ [0])"
  have "load_operand dest ?m' = Some (set_v_s ?q op)"
  proof -
    have "same_outside ?q (?q + 8 * ?c) m1 ?m'" using room c len1 by (intro same_outside_blit) auto
    from load_operand_same [OF m1(2) same_outside_on [OF this, of ?q dest]] room len1 show ?thesis by simp
  qed
  moreover have "kstr_at ?m' ?q str"
    using room c len1 assms(6) by (intro kstr_at_new) (auto simp: kstr_at_def)
  moreover have "same_outside dest (?q + 8 * ?c) ?m ?m'"
    using same_outside_mono [OF m1(3)] room c len1
    by (intro same_outside_trans [OF _ same_outside_blit]) auto
  moreover have "push_string E dest src s = Ret () (s\<lparr>mm := ?m', topos := topos s + int ?c\<rparr>)"
    using strlen_correct [OF assms(6)] assms(2,8) q m1(1) cp
    by (simp add: push_string_def cl_simps memget_def memop_def Let_def)
  ultimately show ?thesis by blast
qed

text \<open>Where \<open>pushop\<close> leaves the operand that it returns.\<close>

definition pushed :: "clenv \<Rightarrow> clm \<Rightarrow> aop \<Rightarrow> mem \<Rightarrow> clm" where
  "pushed E s a m = s\<lparr>mm := m, topos := topos s + int (aop_cells a)\<rparr>"

lemma pushed_simps [simp]:
  "(pushed E s a m)\<lparr>mm := m'\<rparr> = pushed E s a m'" "mm (pushed E s a m) = m"
  "topos (pushed E s a m) = topos s + int (aop_cells a)" "topcs (pushed E s a m) = topcs s"
  "basos (pushed E s a m) = basos s" "pc (pushed E s a m) = pc s"
  by (simp_all add: pushed_def)

lemma set_link:
  assumes "- 1 \<le> t" "t < 2 ^ 62" "0 \<le> i" "stk E + 8 * nat i + 8 \<le> length (mm s)"
  shows "\<exists>m'. set_cell E i (word_of_int t) s = Ret () (s\<lparr>mm := m'\<rparr>)
    \<and> cdec XLONG (slice m' (stk E + 8 * nat i) 8) = t
    \<and> same_outside (stk E + 8 * nat i) (stk E + 8 * nat i + 8) (mm s) m'"
proof -
  let ?m = "blit (mm s) (stk E + 8 * nat i) (cenc XLONG t)"
  have "sint (word_of_int t :: memel) = t" using assms(1,2) by (intro sint_memel) auto
  then have "set_cell E i (word_of_int t) s = Ret () (s\<lparr>mm := ?m\<rparr>)"
    using assms(3,4) by (simp add: set_cell_def memop_def cell_def)
  moreover have "slice ?m (stk E + 8 * nat i) 8 = cenc XLONG t"
    using slice_blit_same [of "stk E + 8 * nat i" "cenc XLONG t" "mm s"] assms(4) by simp
  then have "cdec XLONG (slice ?m (stk E + 8 * nat i) 8) = t"
    using assms(1,2) by (simp add: cdec_cenc in_range_def)
  moreover have "same_outside (stk E + 8 * nat i) (stk E + 8 * nat i + 8) (mm s) ?m"
    using assms(4) by (intro same_outside_blit) auto
  ultimately show ?thesis by blast
qed

text \<open>The last step of \<open>pushop\<close>: the operand and its string are in place, and get their link.\<close>

lemma push_link:
  assumes "ostack E s as" "load_operand (stk E + 8 * nat (topos s + 1)) m = Some op" "val_of m op a"
    "\<forall>str. a = AStr str \<longrightarrow> v_s op = stk E + 8 * (nat (topos s + 1) + 2)"
    "same_outside (stk E + 8 * nat (topos s + 1)) (stk E + 8 * (nat (topos s + 1) + aop_cells a)) (mm s) m"
    "topos s + int (aop_cells a) < topcs s"
  shows "\<exists>m'. set_cell E (topos s + int (aop_cells a)) (word_of_int (topos s)) (pushed E s a m) = Ret () (pushed E s a m')
    \<and> load_operand (stk E + 8 * nat (topos s + 1)) m' = Some op \<and> val_of m' op a
    \<and> same_outside (stk E + 8 * nat (topos s + 1)) (stk E + 8 * (nat (topos s + 1) + aop_cells a)) (mm s) m'
    \<and> ostack E (pushed E s a m') (a # as)"
proof -
  let ?n = "nat (topos s + 1)" and ?S = "stk E" and ?t = "topos s + int (aop_cells a)"
  have lay: "lay_ok E s" using assms(1) by (simp add: ostack_def)
  then have tp: "- 1 \<le> topos s" "basos s \<le> topos s" "topcs s \<le> stacksiz E" "- 1 \<le> basos s"
    and big: "length (mm s) < 2 ^ 63" by (auto simp: lay_ok_def)
  have c: "3 \<le> aop_cells a" by (rule aop_cells_ge)
  have idx: "nat ?t = ?n + aop_cells a - 1" "0 \<le> ?t" using tp c by auto
  have len: "length m = length (mm s)" using assms(5) by (simp add: same_outside_def)
  have room: "?S + 8 * (?n + aop_cells a) \<le> length (mm s)"
  proof -
    have "nat (?t + 1) = ?n + aop_cells a" using tp by auto
    with lay_ok_addr [OF lay, of "?t + 1"] assms(6) tp c show ?thesis by simp
  qed
  then have small: "topos s < 2 ^ 62" using tp big by simp
  have fit: "?S + 8 * nat ?t + 8 \<le> length (mm (pushed E s a m))"
    using room idx c len by (simp add: pushed_def)
  from set_link [OF tp(1) small idx(2) fit] obtain m' where m':
    "set_cell E ?t (word_of_int (topos s)) (pushed E s a m) = Ret () (pushed E s a m')"
    "cdec XLONG (slice m' (?S + 8 * nat ?t) 8) = topos s"
    "same_outside (?S + 8 * nat ?t) (?S + 8 * nat ?t + 8) m m'"
    by auto
  have below: "same_on 0 (?S + 8 * (?n + aop_cells a - 1)) m m'"
    using same_outside_on [OF m'(3), of "?S + 8 * (?n + aop_cells a - 1)" 0] room len idx by simp
  have op: "load_operand (?S + 8 * ?n) m' = Some op"
    using load_operand_same [OF assms(2) below] c by simp
  have val: "val_of m' op a"
  proof (rule val_of_same [OF assms(3) below])
    fix str assume a: "a = AStr str"
    have "length str + 1 \<le> 8 * btoi (length str + 1)" by (rule btoi_bounds)
    then show "0 \<le> v_s op \<and> v_s op + length str < ?S + 8 * (?n + aop_cells a - 1)"
      using assms(4) a by simp
  qed
  have out: "same_outside (?S + 8 * ?n) (?S + 8 * (?n + aop_cells a)) (mm s) m'"
    using same_outside_mono [OF m'(3)] idx c by (intro same_outside_trans [OF assms(5)]) auto
  have "same_on (?S + 8 * nat (basos s + 1)) (?S + 8 * ?n) (mm s) m'"
    using same_outside_on [OF out, of "?S + 8 * ?n"] room by simp
  then have rest: "os_rep m' ?S (nat (basos s + 1)) ?n as"
    by (rule os_rep_same [rotated]) (use assms(1) in \<open>simp add: ostack_def\<close>)
  have at: "op_at m' ?S ?n a"
    unfolding op_at_def using op val assms(4) room m'(2) out idx tp by (auto simp: same_outside_def)
  have nn: "nat (?t + 1) = ?n + aop_cells a" using tp by auto
  have "ostack E (pushed E s a m') (a # as)"
    using lay at rest assms(6) tp out nn unfolding ostack_def
    by (auto simp: pushed_def lay_ok_def same_outside_def)
  with m'(1) op val out show ?thesis by blast
qed

lemma pushop_correct:
  assumes "ostack E s as" "val_of (mm s) op a" "op_ok op" "src_ok E s op a"
    "topos s + int (aop_cells a) < topcs s"
  shows "\<exists>op' m'. pushop E op s = Ret op' (pushed E s a m') \<and> val_of m' op' a
    \<and> same_outside (stk E + 8 * nat (topos s + 1)) (stk E + 8 * (nat (topos s + 1) + aop_cells a)) (mm s) m'
    \<and> ostack E (pushed E s a m') (a # as)"
proof -
  let ?n = "nat (topos s + 1)" and ?S = "stk E"
  let ?d = "?S + 8 * ?n"
  have lay: "lay_ok E s" using assms(1) by (simp add: ostack_def)
  then have tp: "- 1 \<le> topos s" "topcs s \<le> stacksiz E" and big: "length (mm s) < 2 ^ 63"
    by (auto simp: lay_ok_def)
  have c: "3 \<le> aop_cells a" by (rule aop_cells_ge)
  have dest: "cell E (topos s + 1) = Some ?d" using tp by (auto simp: cell_def)
  have room: "?S + 8 * (?n + aop_cells a) \<le> length (mm s)"
  proof -
    have "nat (topos s + int (aop_cells a) + 1) = ?n + aop_cells a" using tp by auto
    with lay_ok_addr [OF lay, of "topos s + int (aop_cells a) + 1"] assms(5) tp c show ?thesis by simp
  qed
  obtain m1 where m1: "store_operand ?d op (mm s) = Some m1" "load_operand ?d m1 = Some op"
      "same_outside ?d (?d + 16) (mm s) m1"
    using load_store_operand [OF assms(3), of ?d "mm s"] room c by auto
  have len1: "length m1 = length (mm s)" using m1(3) by (simp add: same_outside_def)
  obtain op' m2 where step: "(if o_type op = OT_STRING then push_string E ?d (v_s op) else ret ()) (s\<lparr>mm := m1\<rparr>)
        = Ret () (s\<lparr>mm := m2, topos := topos s + int (aop_cells a) - 3\<rparr>)"
      "load_operand ?d m2 = Some op'" "val_of m2 op' a" "same_outside ?d (?S + 8 * (?n + aop_cells a)) (mm s) m2"
      "\<forall>str. a = AStr str \<longrightarrow> v_s op' = ?S + 8 * (?n + 2)"
  proof (cases "\<exists>str. a = AStr str")
    case True
    then obtain str where a: "a = AStr str" by blast
    have t: "o_type op = OT_STRING" and str: "kstr_at (mm s) (v_s op) str" using assms(2) a by auto
    have src: "v_s op + length str < ?d \<or> ?d + 16 \<le> v_s op" using assms(4) a by (auto simp: src_ok_def)
    have sl: "v_s op + length str < length (mm s)" using str by (simp add: kstr_at_def)
    have str1: "kstr_at m1 (v_s op) str"
    proof (cases "v_s op + length str < ?d")
      case True
      then show ?thesis using kstr_at_same [OF str same_outside_on [OF m1(3), of ?d 0]] room by simp
    next
      case False
      then show ?thesis
        using kstr_at_same [OF str same_outside_on [OF m1(3), of "length (mm s)" "?d + 16"]] src sl by simp
    qed
    have lay1: "lay_ok E (s\<lparr>mm := m1\<rparr>)" using lay len1 by (simp add: lay_ok_def)
    have ld: "load_operand ?d (mm (s\<lparr>mm := m1\<rparr>)) = Some op" using m1(2) by simp
    have full: "topos (s\<lparr>mm := m1\<rparr>) + 3 + int (btoi (length str + 1)) < topcs (s\<lparr>mm := m1\<rparr>)"
      using assms(5) a by simp
    obtain m2 where m2: "push_string E ?d (v_s op) (s\<lparr>mm := m1\<rparr>)
        = Ret () (s\<lparr>mm := m2, topos := topos s + int (btoi (length str + 1))\<rparr>)"
      "load_operand ?d m2 = Some (set_v_s (?d + 16) op)" "kstr_at m2 (?d + 16) str"
      "same_outside ?d (?d + 16 + 8 * btoi (length str + 1)) m1 m2"
      using push_string_correct [OF lay1 ld t assms(3) _ _ src full] str1 by auto
    have "?d + 16 < 2 ^ 63" using room big c by simp
    moreover have "same_outside ?d (?S + 8 * (?n + aop_cells a)) (mm s) m1"
      by (rule same_outside_mono [OF m1(3)]) (use a in simp_all)
    moreover have "same_outside ?d (?S + 8 * (?n + aop_cells a)) m1 m2"
      by (rule same_outside_mono [OF m2(4)]) (use a in simp_all)
    ultimately show thesis
      using same_outside_trans [of ?d _ "mm s" m1 m2]
      using t a m2 by (intro that [of m2 "set_v_s (?d + 16) op"]) (auto simp: add.commute)
  next
    case False
    then have "o_type op \<noteq> OT_STRING" "aop_cells a = 3"
      using assms(2) by (cases a; auto)+
    moreover have "val_of m1 op a" using assms(2) False by (cases a) auto
    ultimately show thesis
      using m1 False same_outside_mono [OF m1(3), of ?d "?d + 24"] by (intro that [of m1 op]) (auto simp: add.assoc)
  qed
  obtain m3 where m3: "set_cell E (topos s + int (aop_cells a)) (word_of_int (topos s)) (pushed E s a m2) = Ret () (pushed E s a m3)"
      "load_operand ?d m3 = Some op'" "val_of m3 op' a"
      "same_outside ?d (?S + 8 * (?n + aop_cells a)) (mm s) m3" "ostack E (pushed E s a m3) (a # as)"
    using push_link [OF assms(1) step(2,3,5,4) assms(5)] by blast
  have room': "topos s + OPSIZ + 1 < topcs s" using assms(5) c by simp
  have upd: "s\<lparr>mm := m2, topos := topos s + int (aop_cells a) - 3 + OPSIZ + 1\<rparr> = pushed E s a m2"
    by (simp add: pushed_def)
  have "pushop E op s = Ret op' (pushed E s a m3)"
    using room' dest m1(1) step(1) upd m3(1,2)
    by (simp add: pushop_def cl_simps memop_def memget_def)
  with m3 show ?thesis by blast
qed

lemma pushop_overflow:
  "topcs s \<le> topos s + 3 \<Longrightarrow> pushop E op s = Raise (E_IERR Soverflow) s"
  by (simp add: pushop_def cl_simps)

lemma pushop_string_overflow:
  assumes "ostack E s as" "val_of (mm s) op (AStr str)" "op_ok op" "src_ok E s op (AStr str)"
    "topos s + 3 < topcs s" "topcs s \<le> topos s + int (aop_cells (AStr str))"
  shows "\<exists>m'. pushop E op s = Raise (E_IERR Soverflow) (s\<lparr>mm := m'\<rparr>) \<and> ostack E (s\<lparr>mm := m'\<rparr>) as"
proof -
  let ?n = "nat (topos s + 1)" and ?S = "stk E"
  let ?d = "?S + 8 * ?n"
  have lay: "lay_ok E s" using assms(1) by (simp add: ostack_def)
  then have tp: "- 1 \<le> topos s" "topcs s \<le> stacksiz E" by (auto simp: lay_ok_def)
  have dest: "cell E (topos s + 1) = Some ?d" using tp by (auto simp: cell_def)
  have "nat (topos s + 3) = ?n + 2" using tp by auto
  then have room: "?d + 16 \<le> length (mm s)"
    using lay_ok_addr [OF lay, of "topos s + 3"] assms(5) tp by simp
  obtain m1 where m1: "store_operand ?d op (mm s) = Some m1" "load_operand ?d m1 = Some op"
      "same_outside ?d (?d + 16) (mm s) m1"
    using load_store_operand [OF assms(3) room] by auto
  have str: "kstr_at (mm s) (v_s op) str" and t: "o_type op = OT_STRING" using assms(2) by auto
  have src: "v_s op + length str < ?d \<or> ?d + 16 \<le> v_s op" using assms(4) by (auto simp: src_ok_def)
  have sl: "v_s op + length str < length (mm s)" using str by (simp add: kstr_at_def)
  have "kstr_at m1 (v_s op) str"
  proof (cases "v_s op + length str < ?d")
    case True
    then show ?thesis using kstr_at_same [OF str same_outside_on [OF m1(3), of ?d 0]] room by simp
  next
    case False
    then show ?thesis
      using kstr_at_same [OF str same_outside_on [OF m1(3), of "length (mm s)" "?d + 16"]] src sl by simp
  qed
  then have "push_string E ?d (v_s op) (s\<lparr>mm := m1\<rparr>) = Raise (E_IERR Soverflow) (s\<lparr>mm := m1\<rparr>)"
    using assms(6) by (simp add: push_string_def cl_simps memget_def strlen_correct Let_def)
  then have "pushop E op s = Raise (E_IERR Soverflow) (s\<lparr>mm := m1\<rparr>)"
    using assms(5) dest m1(1) t by (simp add: pushop_def cl_simps memop_def)
  moreover have "same_on (?S + 8 * nat (basos s + 1)) ?d (mm s) m1"
    using same_outside_on [OF m1(3), of ?d] room by simp
  then have "os_rep m1 ?S (nat (basos s + 1)) ?n as"
    by (rule os_rep_same [rotated]) (use assms(1) in \<open>simp add: ostack_def\<close>)
  then have "ostack E (s\<lparr>mm := m1\<rparr>) as"
    using lay m1(3) by (simp add: ostack_def lay_ok_def same_outside_def)
  ultimately show ?thesis by blast
qed

subsection \<open>The stack as its clients see it\<close>

definition is_str :: "aop \<Rightarrow> bool" where
  "is_str a \<longleftrightarrow> (\<exists>str. a = AStr str)"

lemma aop_cells_scalar: "\<not> is_str a \<Longrightarrow> aop_cells a = 3"
  by (cases a) (auto simp: is_str_def)

text \<open>Only the memory and the top of the operand stack differ.\<close>

definition only_os :: "clm \<Rightarrow> clm \<Rightarrow> bool" where
  "only_os s s' \<longleftrightarrow> topcs s' = topcs s \<and> basos s' = basos s \<and> last_task_frame s' = last_task_frame s
     \<and> pc s' = pc s \<and> eprinted s' = eprinted s \<and> tout s' = tout s"

lemma only_os_refl [simp]: "only_os s s"
  by (simp add: only_os_def)

lemma only_os_trans: "only_os s s' \<Longrightarrow> only_os s' s'' \<Longrightarrow> only_os s s''"
  by (simp add: only_os_def)

locale operand_stack =
  fixes pop :: "operand cl" and push :: "operand \<Rightarrow> operand cl" and rep :: "clm \<Rightarrow> aop list \<Rightarrow> bool"
  assumes pop: "rep s (a # as) \<Longrightarrow> \<exists>op. pop s = Ret op (s\<lparr>topos := topos s - int (aop_cells a)\<rparr>)
      \<and> val_of (mm s) op a \<and> op_ok op \<and> rep (s\<lparr>topos := topos s - int (aop_cells a)\<rparr>) as"
    and pop_empty: "rep s [] \<Longrightarrow> pop s = Raise (E_UERR Sunderflow) s"
    and push: "rep s as \<Longrightarrow> val_of (mm s) op a \<Longrightarrow> op_ok op \<Longrightarrow> \<not> is_str a \<Longrightarrow> topos s + 3 < topcs s \<Longrightarrow>
      \<exists>op' m'. push op s = Ret op' (s\<lparr>mm := m', topos := topos s + 3\<rparr>) \<and> rep (s\<lparr>mm := m', topos := topos s + 3\<rparr>) (a # as)"
    and room: "rep s as \<Longrightarrow> topos s < topcs s"
begin

lemma pop2:
  assumes "rep s (b # a # as)"
  shows "\<exists>o2 o1 s1 s2. pop s = Ret o2 s1 \<and> pop s1 = Ret o1 s2 \<and> rep s2 as
    \<and> val_of (mm s) o1 a \<and> val_of (mm s) o2 b \<and> op_ok o1 \<and> op_ok o2
    \<and> s2 = s\<lparr>topos := topos s - int (aop_cells b) - int (aop_cells a)\<rparr>"
  using pop [OF assms] pop [of "s\<lparr>topos := topos s - int (aop_cells b)\<rparr>" a as] by auto

text \<open>Replacing the top operand, or the two top ones, by a scalar.\<close>

lemma replace1:
  assumes "rep s (a # as)" "\<not> is_str c"
    "\<And>op s'. val_of (mm s) op a \<Longrightarrow> op_ok op \<Longrightarrow> mm s' = mm s \<Longrightarrow> \<exists>r. k op s' = Ret r s' \<and> op_ok r \<and> val_of (mm s) r c"
  shows "\<exists>r s'. bindc pop (\<lambda>op. bindc (k op) push) s = Ret r s' \<and> rep s' (c # as) \<and> only_os s s'"
proof -
  obtain op where op: "pop s = Ret op (s\<lparr>topos := topos s - int (aop_cells a)\<rparr>)" "val_of (mm s) op a" "op_ok op"
      "rep (s\<lparr>topos := topos s - int (aop_cells a)\<rparr>) as" using pop [OF assms(1)] by blast
  let ?s = "s\<lparr>topos := topos s - int (aop_cells a)\<rparr>"
  obtain r where r: "k op ?s = Ret r ?s" "op_ok r" "val_of (mm ?s) r c"
    using assms(3) [OF op(2,3), of ?s] by auto
  have "topos ?s + 3 < topcs ?s" using room [OF assms(1)] aop_cells_ge [of a] by simp
  from push [OF op(4) r(3,2) assms(2) this] obtain r' m' where
    "push r ?s = Ret r' (?s\<lparr>mm := m', topos := topos ?s + 3\<rparr>)" "rep (?s\<lparr>mm := m', topos := topos ?s + 3\<rparr>) (c # as)"
    by blast
  then show ?thesis using op(1) r(1) by (auto simp: cl_simps only_os_def)
qed

lemma replace2:
  assumes "rep s (b # a # as)" "\<not> is_str c"
    "\<And>o1 o2 s'. val_of (mm s) o1 a \<Longrightarrow> val_of (mm s) o2 b \<Longrightarrow> op_ok o1 \<Longrightarrow> op_ok o2 \<Longrightarrow> mm s' = mm s \<Longrightarrow>
       \<exists>r. k o1 o2 s' = Ret r s' \<and> op_ok r \<and> val_of (mm s) r c"
  shows "\<exists>r s'. bindc pop (\<lambda>o2. bindc pop (\<lambda>o1. bindc (k o1 o2) push)) s = Ret r s' \<and> rep s' (c # as) \<and> only_os s s'"
proof -
  obtain o2 o1 s1 s2 where p: "pop s = Ret o2 s1" "pop s1 = Ret o1 s2" "rep s2 as"
    "val_of (mm s) o1 a" "val_of (mm s) o2 b" "op_ok o1" "op_ok o2"
    "s2 = s\<lparr>topos := topos s - int (aop_cells b) - int (aop_cells a)\<rparr>" using pop2 [OF assms(1)] by blast
  obtain r where r: "k o1 o2 s2 = Ret r s2" "op_ok r" "val_of (mm s2) r c"
    using assms(3) [OF p(4-7), of s2] p(8) by auto
  have "topos s2 + 3 < topcs s2" using room [OF assms(1)] aop_cells_ge [of a] aop_cells_ge [of b] p(8) by simp
  from push [OF p(3) r(3,2) assms(2) this] obtain r' m' where
    "push r s2 = Ret r' (s2\<lparr>mm := m', topos := topos s2 + 3\<rparr>)" "rep (s2\<lparr>mm := m', topos := topos s2 + 3\<rparr>) (c # as)"
    by blast
  then show ?thesis using p r(1) by (auto simp: cl_simps only_os_def)
qed

end

interpretation opst: operand_stack "popop E" "pushop E" "ostack E" for E
proof unfold_locales
  fix s a as
  assume "ostack E s (a # as)"
  then show "\<exists>op. popop E s = Ret op (s\<lparr>topos := topos s - int (aop_cells a)\<rparr>)
      \<and> val_of (mm s) op a \<and> op_ok op \<and> ostack E (s\<lparr>topos := topos s - int (aop_cells a)\<rparr>) as"
    using popop_correct by blast
next
  fix s
  assume "ostack E s []"
  then show "popop E s = Raise (E_UERR Sunderflow) s" by (rule popop_empty)
next
  fix s as op a
  assume a: "ostack E s as" "val_of (mm s) op a" "op_ok op" "\<not> is_str a" "topos s + 3 < topcs s"
  then have "src_ok E s op a" "aop_cells a = 3" by (auto simp: src_ok_def is_str_def aop_cells_scalar)
  with pushop_correct [OF a(1-3)] a(5) show "\<exists>op' m'. pushop E op s = Ret op' (s\<lparr>mm := m', topos := topos s + 3\<rparr>)
      \<and> ostack E (s\<lparr>mm := m', topos := topos s + 3\<rparr>) (a # as)"
    by (auto simp: pushed_def)
next
  fix s as
  assume "ostack E s as"
  then show "topos s < topcs s" by (simp add: ostack_def lay_ok_def)
qed

subsection \<open>The two stacks in one array\<close>

text \<open>The control stack: the cells from \<open>topcs\<close> on.\<close>

definition cstack :: "clenv \<Rightarrow> clm \<Rightarrow> memel list" where
  "cstack E s = map (\<lambda>i. word_of_int (cdec XLONG (slice (mm s) (stk E + 8 * (nat (topcs s) + i)) 8)))
     [0..<nat (stacksiz E - topcs s)]"

lemma length_cstack: "length (cstack E s) = nat (stacksiz E - topcs s)"
  by (simp add: cstack_def)

lemma map_upt_first: "map g [0..<Suc n] = g 0 # map (\<lambda>k. g (Suc k)) [0..<n]"
  by (simp add: upt_conv_Cons map_Suc_upt [symmetric] del: upt_Suc)

lemma slice_cell_disjoint:
  assumes "same_outside (stk E + 8 * i) (stk E + 8 * i + 8) m m'" "i < j" "stk E + 8 * j + 8 \<le> length m"
  shows "slice m' (stk E + 8 * j) 8 = slice m (stk E + 8 * j) 8"
  by (rule slice_same [OF same_outside_on [OF assms(1), of "stk E + 8 * j + 8" "stk E + 8 * j"]]) (use assms in auto)

lemma set_cell_correct:
  assumes "0 \<le> i" "stk E + 8 * nat i + 8 \<le> length (mm s)"
  shows "\<exists>m'. set_cell E i v s = Ret () (s\<lparr>mm := m'\<rparr>)
    \<and> word_of_int (cdec XLONG (slice m' (stk E + 8 * nat i) 8)) = v
    \<and> same_outside (stk E + 8 * nat i) (stk E + 8 * nat i + 8) (mm s) m'"
proof -
  let ?m = "blit (mm s) (stk E + 8 * nat i) (cenc XLONG (sint v))"
  have "set_cell E i v s = Ret () (s\<lparr>mm := ?m\<rparr>)"
    using assms by (simp add: set_cell_def memop_def cell_def)
  moreover have "slice ?m (stk E + 8 * nat i) 8 = cenc XLONG (sint v)"
    using slice_blit_same [of "stk E + 8 * nat i" "cenc XLONG (sint v)" "mm s"] assms(2) by simp
  moreover have "in_range XLONG (sint v)"
    using sint_greater_eq [of v] sint_less [of v] by (simp add: in_range_def)
  moreover have "same_outside (stk E + 8 * nat i) (stk E + 8 * nat i + 8) (mm s) ?m"
    using assms(2) by (intro same_outside_blit) auto
  ultimately show ?thesis by (intro exI [of _ ?m]) (simp add: cdec_cenc)
qed

lemma pushmem_correct:
  assumes "ostack E s as" "topos s < topcs s - 1"
  shows "\<exists>s'. pushmem E v s = Ret () s' \<and> cstack E s' = v # cstack E s \<and> ostack E s' as
    \<and> topcs s' = topcs s - 1 \<and> topos s' = topos s \<and> last_task_frame s' = last_task_frame s"
proof -
  let ?s = "s\<lparr>topcs := topcs s - 1\<rparr>" and ?i = "topcs s - 1"
  have lay: "lay_ok E s" using assms(1) by (simp add: ostack_def)
  then have b: "0 \<le> ?i" "?i + 1 \<le> stacksiz E" "- 1 \<le> topos s" using assms(2) by (auto simp: lay_ok_def)
  have fit: "stk E + 8 * nat ?i + 8 \<le> length (mm ?s)"
    using lay_ok_addr [OF lay, of "?i + 1"] b by (simp add: nat_add_distrib)
  from set_cell_correct [OF b(1) fit] obtain m' where m': "set_cell E ?i v ?s = Ret () (?s\<lparr>mm := m'\<rparr>)"
    "word_of_int (cdec XLONG (slice m' (stk E + 8 * nat ?i) 8)) = v"
    "same_outside (stk E + 8 * nat ?i) (stk E + 8 * nat ?i + 8) (mm s) m'" by auto
  have "pushmem E v s = Ret () (?s\<lparr>mm := m'\<rparr>)"
    using assms(2) m'(1) by (simp add: pushmem_def cl_simps)
  moreover have "cstack E (?s\<lparr>mm := m'\<rparr>) = v # cstack E s"
  proof -
    have n: "nat (stacksiz E - ?i) = Suc (nat (stacksiz E - topcs s))" "nat (topcs s) = Suc (nat ?i)" using b by auto
    have "slice m' (stk E + 8 * (nat ?i + Suc k)) 8 = slice (mm s) (stk E + 8 * (nat (topcs s) + k)) 8"
      if k: "k < nat (stacksiz E - topcs s)" for k
    proof -
      have "topcs s + int k + 1 \<le> stacksiz E" using k by linarith
      then have "stk E + 8 * (nat ?i + Suc k) + 8 \<le> length (mm s)"
        using lay_ok_addr [OF lay, of "topcs s + int k + 1"] b k n(2) by (simp add: nat_add_distrib)
      from slice_cell_disjoint [OF m'(3) _ this] n(2) show ?thesis by simp
    qed
    then show ?thesis
      using m'(2) unfolding cstack_def by (simp add: n(1) map_upt_first ac_simps del: upt_Suc)
  qed
  moreover have "same_on (stk E + 8 * nat (basos s + 1)) (stk E + 8 * nat (topos s + 1)) (mm s) m'"
    using assms(2) b fit by (intro same_outside_on [OF m'(3)]) auto
  then have "os_rep m' (stk E) (nat (basos s + 1)) (nat (topos s + 1)) as"
    by (rule os_rep_same [rotated]) (use assms(1) in \<open>simp add: ostack_def\<close>)
  then have "ostack E (?s\<lparr>mm := m'\<rparr>) as"
    using lay m'(3) assms(2) by (auto simp: ostack_def lay_ok_def same_outside_def)
  ultimately show ?thesis by (intro exI [of _ "?s\<lparr>mm := m'\<rparr>"]) simp
qed

lemma popmem_correct:
  assumes "ostack E s as" "cstack E s = v # vs"
  shows "popmem E s = Ret v (s\<lparr>topcs := topcs s + 1\<rparr>) \<and> cstack E (s\<lparr>topcs := topcs s + 1\<rparr>) = vs
    \<and> ostack E (s\<lparr>topcs := topcs s + 1\<rparr>) as"
proof -
  have lay: "lay_ok E s" using assms(1) by (simp add: ostack_def)
  have n: "nat (stacksiz E - topcs s) = Suc (nat (stacksiz E - (topcs s + 1)))"
    using assms(2) length_cstack [of E s] by auto
  then have b: "topcs s < stacksiz E" "0 \<le> topcs s" using lay by (auto simp: lay_ok_def)
  have fit: "stk E + 8 * nat (topcs s) + 8 \<le> length (mm s)"
    using lay_ok_addr [OF lay, of "topcs s + 1"] b by (simp add: nat_add_distrib)
  have cs: "cstack E s = word_of_int (cdec XLONG (slice (mm s) (stk E + 8 * nat (topcs s)) 8))
      # cstack E (s\<lparr>topcs := topcs s + 1\<rparr>)"
    using b unfolding cstack_def by (simp add: n map_upt_first nat_add_distrib algebra_simps del: upt_Suc)
  have "popmem E s = Ret v (s\<lparr>topcs := topcs s + 1\<rparr>)"
    using b fit cs assms(2) by (simp add: popmem_def cl_simps get_cell_def memget_def cell_def)
  with cs assms lay b show ?thesis by (auto simp: ostack_def lay_ok_def)
qed

text \<open>
  C29: The operand stack refines a list of values.  \<open>pushop\<close> puts the value of its operand, with a copy
  of its string, on top, whether the string lies below the top of the stack, outside the stack, or
  in the space of an operand that has just been popped; \<open>popop\<close> then returns the same value, with the
  string still readable, and leaves the values below it as they were.
\<close>

theorem pushop_popop:
  assumes "ostack E s as" "val_of (mm s) op a" "op_ok op" "src_ok E s op a" "topos s + int (aop_cells a) < topcs s"
  shows "\<exists>op1 op2 s1 s2. pushop E op s = Ret op1 s1 \<and> ostack E s1 (a # as)
    \<and> popop E s1 = Ret op2 s2 \<and> val_of (mm s2) op2 a \<and> ostack E s2 as \<and> topos s2 = topos s"
proof -
  obtain op1 m' where p: "pushop E op s = Ret op1 (pushed E s a m')" "ostack E (pushed E s a m') (a # as)"
    using pushop_correct [OF assms] by blast
  from opst.pop [OF p(2)] obtain op2 where
    "popop E (pushed E s a m') = Ret op2 ((pushed E s a m')\<lparr>topos := topos s\<rparr>)" "val_of m' op2 a"
    "ostack E ((pushed E s a m')\<lparr>topos := topos s\<rparr>) as" by auto
  with p show ?thesis
    by (intro exI [of _ op1] exI [of _ op2] exI [of _ "pushed E s a m'"] exI [of _ "(pushed E s a m')\<lparr>topos := topos s\<rparr>"])
       (simp add: pushed_def)
qed

text \<open>
  A small machine to run the operations on: 16 cells of stack, and behind them the strings \<open>yes\<close>, \<open>no\<close>
  and \<open>A\<close> and the buffers.  Its \<open>double\<close> is an integer.
\<close>

definition signed :: "int \<Rightarrow> int" where
  "signed x = signed_take_bit 63 x"

definition demo_fops :: fops where
  "demo_fops = \<lparr>f_of_int = take_bit 64, f_to_int = signed, f_to_long = signed,
     f_add = (\<lambda>x y. take_bit 64 (x + y)), f_sub = (\<lambda>x y. take_bit 64 (x - y)),
     f_mul = (\<lambda>x y. take_bit 64 (signed x * signed y)), f_div = (\<lambda>x y. take_bit 64 (c_div (signed x) (signed y))),
     f_pow = (\<lambda>x y. take_bit 64 (signed x ^ nat (signed y))), f_atan2 = (\<lambda>x y. 0),
     f_neg = (\<lambda>x. take_bit 64 (- x)), f_half = 0,
     f_lt = (\<lambda>x y. signed x < signed y), f_le = (\<lambda>x y. signed x \<le> signed y), f_eq = (\<lambda>x y. signed x = signed y),
     f_math = (\<lambda>c x. x), f_nint = signed, f_fmt_g = (\<lambda>x. [48])\<rparr>"

definition demo_env :: clenv where
  "demo_env = \<lparr>stk = 0, stacksiz = 16, tasksiz = 2, junk_type = 0, junk_raw = replicate 8 0,
     truestr = 128, falsestr = 132, numstr = 137, resbuf = 1160, s2buf = 3206, sbuf = 4229, fl = demo_fops,
     scan_ld = (\<lambda>str. None), scan_lf = (\<lambda>str. None), fmt_radix = (\<lambda>r x. [48])\<rparr>"

definition demo_state :: clm where
  "demo_state = \<lparr>mm = replicate 128 0 @ [121, 101, 115, 0, 110, 111, 0, 65, 0] @ replicate 5115 0, topcs = 16, topos = - 1, basos = - 1, last_task_frame = 0, pc = 0,
     eprinted = [], tout = []\<rparr>"

definition demo_op :: operand where
  "demo_op = set_v_s 135 \<lparr>o_type = 3, o_raw = []\<rparr>"

lemma demo_ok: "ostack demo_env demo_state []"
  by (simp add: ostack_def lay_ok_def demo_env_def demo_state_def)

lemma demo_op_ok: "val_of (mm demo_state) demo_op (AStr [65])" "op_ok demo_op" "src_ok demo_env demo_state demo_op (AStr [65])"
  by (simp_all add: demo_op_def demo_state_def demo_env_def src_ok_def set_v_s_def v_s_def le_val_le_enc op_ok_def
      in_range_def nth_append)

theorem pushop_popop_witness:
  "\<exists>op1 op2 s1 s2. pushop demo_env demo_op demo_state = Ret op1 s1 \<and> ostack demo_env s1 [AStr [65]]
    \<and> popop demo_env s1 = Ret op2 s2 \<and> val_of (mm s2) op2 (AStr [65]) \<and> ostack demo_env s2 [] \<and> topos s2 = topos demo_state"
  by (rule pushop_popop [OF demo_ok demo_op_ok]) (simp add: demo_state_def btoi_def)

text \<open>
  C30: The control stack is a stack of its own: what \<open>pushmem\<close> put there is what \<open>popmem\<close> returns,
  \<open>ppushmem\<close> puts its element under the top one, and none of them touches the operands that grow
  towards them.
\<close>

theorem control_stack:
  assumes "ostack E s as" "cstack E s = q # vs" "topos s < topcs s - 1"
  shows "\<exists>s1. ppushmem E v s = Ret () s1 \<and> cstack E s1 = q # v # vs \<and> ostack E s1 as
    \<and> (\<exists>s2 s3. popmem E s1 = Ret q s2 \<and> popmem E s2 = Ret v s3 \<and> cstack E s3 = vs \<and> ostack E s3 as)"
proof -
  let ?s = "s\<lparr>topcs := topcs s + 1\<rparr>"
  note p = popmem_correct [OF assms(1,2)]
  have "topos ?s < topcs ?s - 1" using assms(3) by simp
  then obtain s0 where s0: "pushmem E v ?s = Ret () s0" "cstack E s0 = v # vs" "ostack E s0 as"
      "topcs s0 = topcs s" "topos s0 = topos s"
    using pushmem_correct [of E ?s as v] p by auto
  then obtain s1 where s1: "pushmem E q s0 = Ret () s1" "cstack E s1 = q # v # vs" "ostack E s1 as"
    using pushmem_correct [OF s0(3), of q] assms(3) by auto
  have "ppushmem E v s = Ret () s1" using p s0(1) s1(1) by (simp add: ppushmem_def cl_simps)
  moreover note q = popmem_correct [OF s1(3,2)]
  moreover note popmem_correct [OF q [THEN conjunct2, THEN conjunct2] q [THEN conjunct2, THEN conjunct1]]
  ultimately show ?thesis using s1 by blast
qed

lemma le_val_zeros: "le_val (replicate n 0) = 0"
  by (induction n) auto

theorem control_stack_witness:
  "\<exists>s1. ppushmem demo_env 5 (demo_state\<lparr>topcs := 15\<rparr>) = Ret () s1 \<and> cstack demo_env s1 = [0, 5] \<and> ostack demo_env s1 []
    \<and> (\<exists>s2 s3. popmem demo_env s1 = Ret 0 s2 \<and> popmem demo_env s2 = Ret 5 s3 \<and> cstack demo_env s3 = []
        \<and> ostack demo_env s3 [])"
  by (rule control_stack)
     (simp_all add: ostack_def lay_ok_def cstack_def demo_env_def demo_state_def slice_def cdec_def le_val_zeros)

end
