(* ===== verification/Cl_Operand.thy ===== *)
theory Cl_Operand
  imports Cl_Stack
begin

text \<open>
  \<open>pkg/cl/operand.c\<close>: the casts of the operand on top of the stack.  \<open>sprintf\<close> with an integer format
  writes the digits that \<open>fmt_d\<close> has; a \<open>double\<close> is formatted by the parameter.
\<close>

subsection \<open>Formatting integers\<close>

fun dec_digits :: "nat \<Rightarrow> byte list" where
  "dec_digits n = (if n < 10 then [word_of_nat (48 + n)] else dec_digits (n div 10) @ [word_of_nat (48 + n mod 10)])"

declare dec_digits.simps [simp del]

text \<open>\<open>%d\<close>, and \<open>%0<w>d\<close>, which fills up with zeros after the sign.\<close>

definition fmt_d :: "int \<Rightarrow> byte list" where
  "fmt_d x = (if x < 0 then 45 # dec_digits (nat (- x)) else dec_digits (nat x))"

definition fmt_0d :: "nat \<Rightarrow> int \<Rightarrow> byte list" where
  "fmt_0d w x = (let sg = (if x < 0 then [45] else []); ds = dec_digits (nat \<bar>x\<bar>)
     in sg @ replicate (w - length sg - length ds) 48 @ ds)"

text \<open>\<open>sprintf (buf, ...)\<close> of a text to an address.\<close>

definition put_str :: "nat \<Rightarrow> byte list \<Rightarrow> mem \<Rightarrow> mem option" where
  "put_str p str m = (if p + length str < length m then Some (blit m p (str @ [0])) else None)"

lemma dec_digit: "n < 10 \<Longrightarrow> sint (48 + word_of_nat n :: byte) = 48 + int n"
proof -
  assume "n < 10"
  then have "sint (word_of_nat (48 + n) :: byte) = int (48 + n)"
    unfolding signed_of_nat by (subst signed_take_bit_int_eq_self) auto
  then show ?thesis by simp
qed

lemma dec_digits_ok: "is_digits (dec_digits n)" "dec_digits n \<noteq> []" "dec_value (dec_digits n) = int n"
proof (induction n rule: dec_digits.induct)
  case (1 n)
  note d = dec_digit
  {
    case 1
    show ?case
    proof (cases "n < 10")
      case True
      then show ?thesis using d [of n]
        by (subst dec_digits.simps) (simp add: is_digits_def isdigit_iff char_class)
    next
      case False
      with "1.IH" d [of "n mod 10"] show ?thesis
        by (subst dec_digits.simps) (auto simp: is_digits_def isdigit_iff char_class)
    qed
  next
    case 2
    show ?case by (subst dec_digits.simps) simp
  next
    case 3
    show ?case
    proof (cases "n < 10")
      case True
      then show ?thesis using d [of n] by (subst dec_digits.simps) (simp add: dec_value_def)
    next
      case False
      with "1.IH" d [of "n mod 10"] show ?thesis
        by (subst dec_digits.simps) (simp add: dec_value_def of_nat_div of_nat_mod)
    qed
  }
qed

lemma fmt_d_nonzero: "0 \<notin> set (fmt_d x)"
proof -
  have "c \<noteq> 0" if "c \<in> set (dec_digits n)" for c n
    using dec_digits_ok(1) [of n] that by (auto simp: is_digits_def isdigit_iff char_class)
  then show ?thesis by (auto simp: fmt_d_def)
qed

text \<open>
  \<open>atoi\<close> of the digits that \<open>sprintf\<close> writes for an \<open>int\<close> is that \<open>int\<close>.
\<close>

theorem atoi_fmt_d:
  assumes "kstr_at m p (fmt_d x)" "in_range CINT x" "x \<noteq> - 2147483648"
  shows "atoi p m = Some x"
proof -
  have x: "- 2147483648 < x" "x < 2147483648" using assms(2,3) by (auto simp: in_range_def)
  let ?sg = "if x < 0 then [45] else [] :: byte list" and ?ds = "dec_digits (nat \<bar>x\<bar>)"
  have s: "fmt_d x = [] @ ?sg @ ?ds @ []" by (simp add: fmt_d_def)
  have "atoi p m = Some (sign_value ?sg * dec_value ?ds)"
    using assms(1) dec_digits_ok [of "nat \<bar>x\<bar>"] x unfolding s
    by (intro atoi_value [where ws = "[]" and rest = "[]"]) auto
  then show ?thesis using dec_digits_ok(3) [of "nat \<bar>x\<bar>"] by (auto simp: sign_value_def)
qed

theorem atoi_fmt_d_witness: "atoi 0 (45 # 52 # 50 # [0]) = Some (- 42)"
  by (rule atoi_fmt_d) (simp_all add: fmt_d_def dec_digits.simps in_range_def)

subsection \<open>\<open>opcast\<close>\<close>

text \<open>Pushing a result that is not used by the caller.\<close>

definition pushv :: "clenv \<Rightarrow> operand \<Rightarrow> unit cl" where
  "pushv E op = thenc (pushop E op) (ret ())"

text \<open>\<open>op = (struct operand *) &stack[stack[topos]+1]\<close>, the top operand in place.\<close>

definition top_operand :: "clenv \<Rightarrow> operand cl" where
  "top_operand E =
     bindc (gets topos) (\<lambda>t.
     bindc (get_cell E t) (\<lambda>v.
     memget (\<lambda>m. case cell E (sint v + 1) of None \<Rightarrow> None | Some p \<Rightarrow> load_operand p m)))"

definition cast_int :: "clenv \<Rightarrow> operand \<Rightarrow> operand \<Rightarrow> operand cl" where
  "cast_int E o1 result =
     (if o_type o1 = OT_BOOL then cl_error (E_UERR (Msg ''Attempt to coerce a boolean to an integer''))
      else if o_type o1 = OT_INT then ret (set_v_i (v_i o1) result)
      else if o_type o1 = OT_REAL then ret (set_v_i (to_int (f_to_int (fl E) (v_r o1))) result)
      else if o_type o1 = OT_STRING then
        bindc (memget (\<lambda>m. rd m (v_s o1))) (\<lambda>c0.
        bindc (if c0 \<noteq> 0 then memget (\<lambda>m. rd m (v_s o1 + 1)) else ret 1) (\<lambda>c1.
        if c0 \<noteq> 0 \<and> c1 = 0 then ret (set_v_i (sint c0) result) else cl_error (E_UERR Nostrcnv)))
      else cl_error (E_IERR (Badsw (o_type o1))))"

definition cast_real :: "clenv \<Rightarrow> operand \<Rightarrow> operand \<Rightarrow> operand cl" where
  "cast_real E o1 result =
     (if o_type o1 = OT_BOOL then cl_error (E_UERR (Msg ''Attempt to coerce a boolean to a real''))
      else if o_type o1 = OT_INT then ret (set_v_r (f_of_int (fl E) (v_i o1)) result)
      else if o_type o1 = OT_REAL then ret (set_v_r (v_r o1) result)
      else if o_type o1 = OT_STRING then cl_error (E_UERR Nostrcnv)
      else cl_error (E_IERR (Badsw (o_type o1))))"

definition cast_string :: "clenv \<Rightarrow> operand \<Rightarrow> operand \<Rightarrow> operand cl" where
  "cast_string E o1 result =
     (if o_type o1 = OT_BOOL then ret (set_v_s (if v_i o1 = 0 then falsestr E else truestr E) result)
      else if o_type o1 = OT_INT then
        thenc (memop (put_str (numstr E) (fmt_d (v_i o1)))) (ret (set_v_s (numstr E) result))
      else if o_type o1 = OT_REAL then
        thenc (memop (put_str (numstr E) (f_fmt_g (fl E) (v_r o1)))) (ret (set_v_s (numstr E) result))
      else if o_type o1 = OT_STRING then
        thenc (memop (strcpy (numstr E) (v_s o1))) (ret (set_v_s (numstr E) result))
      else cl_error (E_IERR (Badsw (o_type o1))))"

text \<open>The popped operand is cast and pushed; an indefinite one stays indefinite.\<close>

definition cast_to :: "clenv \<Rightarrow> int \<Rightarrow> operand \<Rightarrow> unit cl" where
  "cast_to E newtype o1 =
     (let result = (uninit E)\<lparr>o_type := newtype\<rparr> in
      if opindef o1 then pushv E (setopindef result)
      else if newtype = OT_INT then bindc (cast_int E o1 result) (pushv E)
      else if newtype = OT_REAL then bindc (cast_real E o1 result) (pushv E)
      else if newtype = OT_STRING then bindc (cast_string E o1 result) (pushv E)
      else if o_type o1 \<noteq> OT_BOOL then
        cl_error (E_UERR (Msg ''Non-boolean operand used where boolean expected''))
      else pushv E result)"

definition opcast :: "clenv \<Rightarrow> int \<Rightarrow> unit cl" where
  "opcast E newtype =
     bindc (top_operand E) (\<lambda>op.
     if OT_BASIC (o_type op) = newtype then ret () else bindc (popop E) (cast_to E newtype))"

subsection \<open>What a cast makes of a value\<close>

text \<open>
  Where the strings and buffers are: outside the stack.  The strings for the booleans are \<open>yes\<close> and
  \<open>no\<close>.
\<close>

definition outside :: "clenv \<Rightarrow> nat \<Rightarrow> nat \<Rightarrow> bool" where
  "outside E p n \<longleftrightarrow> p + n \<le> stk E \<or> stk E + 8 * nat (stacksiz E) \<le> p"

definition apart :: "nat \<Rightarrow> nat \<Rightarrow> nat \<Rightarrow> nat \<Rightarrow> bool" where
  "apart p n q k \<longleftrightarrow> p + n \<le> q \<or> q + k \<le> p"

definition lit_yes :: "byte list" where
  "lit_yes = [121, 101, 115]"

definition lit_no :: "byte list" where
  "lit_no = [110, 111]"

abbreviation SZ_LINE :: nat where "SZ_LINE \<equiv> 1023"

definition bufs_ok :: "clenv \<Rightarrow> mem \<Rightarrow> bool" where
  "bufs_ok E m \<longleftrightarrow> length (junk_raw E) = 8
     \<and> kstr_at m (truestr E) lit_yes \<and> outside E (truestr E) 4
     \<and> kstr_at m (falsestr E) lit_no \<and> outside E (falsestr E) 3
     \<and> numstr E + SZ_LINE \<le> length m \<and> outside E (numstr E) SZ_LINE
     \<and> apart (numstr E) SZ_LINE (truestr E) 4 \<and> apart (numstr E) SZ_LINE (falsestr E) 3"

text \<open>The buffers of \<open>binop\<close> and \<open>unop\<close>: \<open>res\<close> of two lines, \<open>s2\<close> and \<open>sbuf\<close> of one.\<close>

definition buf_ok :: "clenv \<Rightarrow> mem \<Rightarrow> nat \<Rightarrow> nat \<Rightarrow> bool" where
  "buf_ok E m p n \<longleftrightarrow> p + n \<le> length m \<and> outside E p n \<and> apart (numstr E) SZ_LINE p n
     \<and> apart p n (truestr E) 4 \<and> apart p n (falsestr E) 3"

definition locals_ok :: "clenv \<Rightarrow> mem \<Rightarrow> bool" where
  "locals_ok E m \<longleftrightarrow> buf_ok E m (resbuf E) (2 * SZ_LINE) \<and> buf_ok E m (s2buf E) SZ_LINE \<and> buf_ok E m (sbuf E) SZ_LINE
     \<and> apart (resbuf E) (2 * SZ_LINE) (s2buf E) SZ_LINE"

definition dbl :: "int \<Rightarrow> int" where
  "dbl x = take_bit 64 x"

text \<open>The cast of a value, as the source's \<open>switch\<close> has it.\<close>

fun abs_cast :: "fops \<Rightarrow> int \<Rightarrow> aop \<Rightarrow> clerr + aop" where
  "abs_cast F t (AIndef ot) = Inr (if OT_BASIC ot = t then AIndef ot else AIndef (or t 4))"
| "abs_cast F t (AInt x) =
     (if t = OT_INT then Inr (AInt x) else if t = OT_REAL then Inr (AReal (dbl (f_of_int F x)))
      else if t = OT_STRING then Inr (AStr (fmt_d x))
      else Inl (E_UERR (Msg ''Non-boolean operand used where boolean expected'')))"
| "abs_cast F t (ABool x) =
     (if t = OT_BOOL then Inr (ABool x)
      else if t = OT_INT then Inl (E_UERR (Msg ''Attempt to coerce a boolean to an integer''))
      else if t = OT_REAL then Inl (E_UERR (Msg ''Attempt to coerce a boolean to a real''))
      else Inr (AStr (if x = 0 then lit_no else lit_yes)))"
| "abs_cast F t (AReal r) =
     (if t = OT_REAL then Inr (AReal r) else if t = OT_INT then Inr (AInt (to_int (f_to_int F r)))
      else if t = OT_STRING then Inr (AStr (f_fmt_g F r))
      else Inl (E_UERR (Msg ''Non-boolean operand used where boolean expected'')))"
| "abs_cast F t (AStr str) =
     (if t = OT_STRING then Inr (AStr str)
      else if t = OT_INT then (case str of [c] \<Rightarrow> Inr (AInt (sint c)) | _ \<Rightarrow> Inl (E_UERR Nostrcnv))
      else if t = OT_REAL then Inl (E_UERR Nostrcnv)
      else Inl (E_UERR (Msg ''Non-boolean operand used where boolean expected'')))"

definition basic_type :: "aop \<Rightarrow> int" where
  "basic_type a = (case a of AInt x \<Rightarrow> OT_INT | ABool x \<Rightarrow> OT_BOOL | AReal r \<Rightarrow> OT_REAL | AStr str \<Rightarrow> OT_STRING
     | AIndef t \<Rightarrow> OT_BASIC t)"

lemma OT_BASIC_simps [simp]:
  "OT_BASIC 0 = 0" "OT_BASIC 1 = 1" "OT_BASIC 2 = 2" "OT_BASIC 3 = 3"
  by (simp_all add: OT_BASIC_def)

lemma val_of_basic: "val_of m op a \<Longrightarrow> OT_BASIC (o_type op) = basic_type a"
  by (cases a) (auto simp: basic_type_def)

lemma val_of_indef: "val_of m op a \<Longrightarrow> opindef op \<longleftrightarrow> (\<exists>t. a = AIndef t)"
proof -
  have "\<not> bit (0 :: int) 2" "\<not> bit (1 :: int) 2" "\<not> bit (2 :: int) 2" "\<not> bit (3 :: int) 2"
    by (simp_all add: bit_iff_odd)
  then show "val_of m op a \<Longrightarrow> opindef op \<longleftrightarrow> (\<exists>t. a = AIndef t)"
    by (cases a) (auto simp: opindef_def)
qed

lemma top_operand_correct:
  assumes "ostack E s (a # as)"
  shows "\<exists>op. top_operand E s = Ret op s \<and> val_of (mm s) op a"
  using top_cell [OF assms]
  by (elim exE conjE) (intro exI conjI, simp add: top_operand_def cl_simps memget_def, assumption)

subsection \<open>Frames: what stays when the stack, or a buffer, changes\<close>

abbreviation in_stack :: "clenv \<Rightarrow> mem \<Rightarrow> mem \<Rightarrow> bool" where
  "in_stack E m m' \<equiv> same_outside (stk E) (stk E + 8 * nat (stacksiz E)) m m'"

lemma kstr_at_outside:
  assumes "kstr_at m p str" "same_outside lo hi m m'" "p + length str < lo \<or> hi \<le> p"
  shows "kstr_at m' p str"
proof -
  have l: "p + length str < length m" using assms(1) by (simp add: kstr_at_def)
  have "same_on p (p + length str + 1) m m'"
    using assms(2,3) l by (intro same_outside_on [OF assms(2)]) auto
  from kstr_at_same [OF assms(1) this] show ?thesis by simp
qed

text \<open>What a step keeps that writes to the stack and to \<open>numstr\<close> only.\<close>

definition keeps :: "clenv \<Rightarrow> mem \<Rightarrow> mem \<Rightarrow> bool" where
  "keeps E m m' \<longleftrightarrow> length m' = length m
     \<and> (\<forall>p str. kstr_at m p str \<longrightarrow> outside E p (length str + 1) \<longrightarrow> apart (numstr E) SZ_LINE p (length str + 1)
          \<longrightarrow> kstr_at m' p str)"

lemma keepsD:
  "keeps E m m' \<Longrightarrow> kstr_at m p str \<Longrightarrow> outside E p (length str + 1) \<Longrightarrow> apart (numstr E) SZ_LINE p (length str + 1)
   \<Longrightarrow> kstr_at m' p str"
  by (simp add: keeps_def)

lemma keeps_refl [simp]: "keeps E m m"
  by (simp add: keeps_def)

lemma keeps_trans: "keeps E m m' \<Longrightarrow> keeps E m' m'' \<Longrightarrow> keeps E m m''"
  by (simp add: keeps_def)

lemma keeps_in_stack: "in_stack E m m' \<Longrightarrow> keeps E m m'"
  unfolding keeps_def outside_def using kstr_at_outside [of m _ _ _ _ m'] by (fastforce simp: same_outside_def)

lemma keeps_numstr: "same_outside (numstr E) (numstr E + SZ_LINE) m m' \<Longrightarrow> keeps E m m'"
  unfolding keeps_def apart_def using kstr_at_outside [of m _ _ _ _ m'] by (fastforce simp: same_outside_def)

lemma outside_mono: "outside E p n \<Longrightarrow> k \<le> n \<Longrightarrow> outside E p k"
  by (auto simp: outside_def)

lemma apart_mono: "apart p n q k \<Longrightarrow> j \<le> k \<Longrightarrow> apart p n q j"
  by (auto simp: apart_def)

lemma keeps_bufs: "bufs_ok E m \<Longrightarrow> keeps E m m' \<Longrightarrow> bufs_ok E m'"
  using keepsD [of E m m' "truestr E" lit_yes] keepsD [of E m m' "falsestr E" lit_no]
  by (auto simp: bufs_ok_def lit_yes_def lit_no_def keeps_def numeral_eq_Suc)

lemma keeps_locals: "locals_ok E m \<Longrightarrow> keeps E m m' \<Longrightarrow> locals_ok E m'"
  by (simp add: locals_ok_def buf_ok_def keeps_def)

lemma keeps_buf:
  "keeps E m m' \<Longrightarrow> buf_ok E m p n \<Longrightarrow> kstr_at m p str \<Longrightarrow> length str < n \<Longrightarrow> kstr_at m' p str"
  by (rule keepsD) (auto simp: buf_ok_def intro: outside_mono apart_mono)

lemmas bufs_ok_in_stack = keeps_bufs [OF _ keeps_in_stack]

text \<open>Writing to one of the buffers keeps the stack and the other strings.\<close>

lemma bufs_ok_write:
  assumes "bufs_ok E m" "buf_ok E m p n" "same_outside p (p + n) m m'"
  shows "bufs_ok E m'"
proof -
  have "kstr_at m' (truestr E) lit_yes" "kstr_at m' (falsestr E) lit_no"
    using assms by (auto simp: bufs_ok_def buf_ok_def apart_def lit_yes_def lit_no_def
        intro!: kstr_at_outside [OF _ assms(3)] simp del: kstr_at_Cons)
  then show ?thesis using assms by (auto simp: bufs_ok_def same_outside_def)
qed

lemma locals_ok_write: "locals_ok E m \<Longrightarrow> length m' = length m \<Longrightarrow> locals_ok E m'"
  by (simp add: locals_ok_def buf_ok_def)

lemma ostack_outside:
  assumes "ostack E s as" "same_outside p (p + n) (mm s) m'" "outside E p n"
  shows "ostack E (s\<lparr>mm := m'\<rparr>) as"
proof -
  have lay: "lay_ok E s" using assms(1) by (simp add: ostack_def)
  have "nat (topos s + 1) \<le> nat (stacksiz E)" using lay by (auto simp: lay_ok_def)
  then have "same_on (stk E + 8 * nat (basos s + 1)) (stk E + 8 * nat (topos s + 1)) (mm s) m'"
    using lay assms(3) unfolding outside_def
    by (intro same_outside_on [OF assms(2)]) (auto simp: lay_ok_def)
  then have "os_rep m' (stk E) (nat (basos s + 1)) (nat (topos s + 1)) as"
    by (rule os_rep_same [rotated]) (use assms(1) in \<open>simp add: ostack_def\<close>)
  then show ?thesis using lay assms(2) by (simp add: ostack_def lay_ok_def same_outside_def)
qed

lemma ostack_room: "ostack E s as \<Longrightarrow> - 1 \<le> topos s \<and> topcs s \<le> stacksiz E \<and> topos s < topcs s"
  by (auto simp: ostack_def lay_ok_def)

lemma pushop_in_stack:
  assumes "ostack E s as" "val_of (mm s) op a" "op_ok op" "src_ok E s op a" "topos s + int (aop_cells a) < topcs s"
  shows "\<exists>op' m'. pushop E op s = Ret op' (pushed E s a m') \<and> ostack E (pushed E s a m') (a # as)
    \<and> val_of m' op' a \<and> in_stack E (mm s) m'"
proof -
  have "nat (topos s + 1) + aop_cells a \<le> nat (stacksiz E)"
    using ostack_room [OF assms(1)] assms(5) by auto
  then show ?thesis
    using pushop_correct [OF assms] by (fastforce intro: same_outside_mono)
qed

lemma pushv_correct:
  assumes "ostack E s as" "val_of (mm s) op a" "op_ok op" "src_ok E s op a" "topos s + int (aop_cells a) < topcs s"
  shows "\<exists>m'. pushv E op s = Ret () (pushed E s a m') \<and> ostack E (pushed E s a m') (a # as) \<and> in_stack E (mm s) m'"
  using pushop_in_stack [OF assms] by (auto simp: pushv_def cl_simps)

text \<open>
  A step of the operand stack: no other register changes, and no memory but the cells above the base,
  so that the code that lies below it stays.
\<close>

definition os_step :: "clenv \<Rightarrow> clm \<Rightarrow> clm \<Rightarrow> bool" where
  "os_step E s s' \<longleftrightarrow> only_os s s'
     \<and> same_outside (stk E + 8 * nat (basos s + 1)) (stk E + 8 * nat (stacksiz E)) (mm s) (mm s')"

lemma os_step_refl [simp]: "os_step E s s"
  by (simp add: os_step_def)

lemma os_step_trans: "os_step E s s' \<Longrightarrow> os_step E s' s'' \<Longrightarrow> os_step E s s''"
  unfolding os_step_def by (auto simp: only_os_def intro: same_outside_trans)

lemma os_step_only: "os_step E s s' \<Longrightarrow> only_os s s'"
  by (simp add: os_step_def)

lemma os_step_in_stack: "os_step E s s' \<Longrightarrow> in_stack E (mm s) (mm s')"
  unfolding os_step_def by (auto intro: same_outside_mono)

lemma os_step_topos [simp]: "os_step E s (s\<lparr>topos := t\<rparr>)" "os_step E (s\<lparr>topos := t\<rparr>) s' \<longleftrightarrow> os_step E s s'"
  by (simp_all add: os_step_def only_os_def)

lemma pushv_step:
  assumes "ostack E s as" "val_of (mm s) op a" "op_ok op" "src_ok E s op a" "topos s + int (aop_cells a) < topcs s"
  shows "\<exists>m'. pushv E op s = Ret () (pushed E s a m') \<and> ostack E (pushed E s a m') (a # as) \<and> os_step E s (pushed E s a m')"
proof -
  have "nat (topos s + 1) + aop_cells a \<le> nat (stacksiz E)" "nat (basos s + 1) \<le> nat (topos s + 1)"
    using ostack_room [OF assms(1)] assms(1,5) by (auto simp: ostack_def lay_ok_def)
  then have le: "stk E + 8 * nat (basos s + 1) \<le> stk E + 8 * nat (topos s + 1)"
    "stk E + 8 * (nat (topos s + 1) + aop_cells a) \<le> stk E + 8 * nat (stacksiz E)" by simp_all
  obtain op' m' where m': "pushop E op s = Ret op' (pushed E s a m')" "ostack E (pushed E s a m') (a # as)"
    "same_outside (stk E + 8 * nat (topos s + 1)) (stk E + 8 * (nat (topos s + 1) + aop_cells a)) (mm s) m'"
    using pushop_correct [OF assms] by blast
  from same_outside_mono [OF m'(3) le] have "os_step E s (pushed E s a m')"
    by (simp add: os_step_def only_os_def pushed_def)
  with m'(1,2) show ?thesis by (auto simp: pushv_def cl_simps)
qed

lemma src_ok_outside:
  assumes "ostack E s as" "outside E (v_s op) n" "\<And>str. a = AStr str \<Longrightarrow> length str < n" "topos s + 3 < topcs s"
  shows "src_ok E s op a"
proof -
  have "nat (topos s + 1) + 2 \<le> nat (stacksiz E)" using ostack_room [OF assms(1)] assms(4) by auto
  then show ?thesis using assms(2,3) by (force simp: src_ok_def outside_def)
qed

lemma op_ok_result [simp]:
  "length (o_raw op) = 8 \<Longrightarrow> length (o_raw (set_v_i x op)) = 8"
  "length (o_raw (set_v_r x op)) = 8" "length (o_raw (set_v_s p op)) = 8"
  by (simp_all add: set_v_i_def set_v_r_def set_v_s_def)

lemma set_type [simp]:
  "o_type (set_v_i x op) = o_type op" "o_type (set_v_r x op) = o_type op"
  by (simp_all add: set_v_i_def set_v_r_def)

lemma v_i_set [simp]: "in_range CINT x \<Longrightarrow> v_i (set_v_i x op) = x"
  by (simp add: v_i_def set_v_i_def cdec_cenc)

lemma v_r_set [simp]: "v_r (set_v_r x op) = dbl x"
  by (simp add: v_r_def set_v_r_def le_val_le_enc_take_bit dbl_def)

lemma dbl_v_r: "op_ok op \<Longrightarrow> dbl (v_r op) = v_r op"
  using le_val_bounds [of "o_raw op"] by (simp add: op_ok_def v_r_def dbl_def take_bit_int_eq_self_iff)

lemma v_i_range: "op_ok op \<Longrightarrow> in_range CINT (v_i op)"
  unfolding v_i_def op_ok_def by (rule cdec_in_range) simp

lemma v_r_range: "op_ok op \<Longrightarrow> 0 \<le> v_r op \<and> v_r op < 2 ^ 64"
  using le_val_bounds [of "o_raw op"] by (simp add: op_ok_def v_r_def)

lemma to_int_range: "in_range CINT (to_int x)"
  unfolding to_int_def in_range_def
  using signed_take_bit_int_greater_eq_minus_exp [of 31 x] signed_take_bit_int_less_exp [of 31 x] by simp

subsection \<open>\<open>opcast\<close> implements the cast\<close>

lemma in_range_short: "- 32768 \<le> t \<Longrightarrow> t < 32768 \<Longrightarrow> in_range XSHORT t"
  by (simp add: in_range_def)

lemma cast_result_ok:
  "bufs_ok E m \<Longrightarrow> 0 \<le> t \<Longrightarrow> t < 8 \<Longrightarrow> op_ok ((uninit E)\<lparr>o_type := t\<rparr>)"
  by (simp add: op_ok_def uninit_def bufs_ok_def in_range_def)

lemma or_4_range: "0 \<le> t \<Longrightarrow> t < 4 \<Longrightarrow> in_range XSHORT (or t (4 :: int)) \<and> bit (or t (4 :: int)) 2"
proof -
  assume "0 \<le> t" "t < 4"
  then consider "t = 0" | "t = 1" | "t = 2" | "t = 3" by linarith
  then show ?thesis by cases (auto simp: in_range_def bit_iff_odd)
qed

lemma setopindef_ok: "length (o_raw op) = 8 \<Longrightarrow> op_ok (setopindef op)"
  using signed_take_bit_int_greater_eq_minus_exp [of 15 "or (o_type op) 4"]
    signed_take_bit_int_less_exp [of 15 "or (o_type op) 4"]
  by (simp add: op_ok_def setopindef_def to_short_def in_range_def)

lemma setopindef_val: "val_of m (setopindef op) (AIndef (to_short (or (o_type op) 4)))"
proof -
  have "bit (4 :: int) 2" by (simp add: bit_iff_odd)
  then show ?thesis by (simp add: setopindef_def to_short_def bit_signed_take_bit_iff bit_or_iff)
qed

lemma put_str_correct:
  assumes "length str < n" "p + n \<le> length m" "0 \<notin> set str"
  shows "\<exists>m'. put_str p str m = Some m' \<and> kstr_at m' p str \<and> same_outside p (p + n) m m'"
  using assms by (intro exI [of _ "blit m p (str @ [0])"]) (auto simp: put_str_def kstr_at_new intro: same_outside_blit)

text \<open>Pushing the result of a cast to a string, which is not on the stack.\<close>

lemma push_outside_string:
  assumes "ostack E s as" "bufs_ok E (mm s)" "kstr_at (mm s) p str" "outside E p n" "length str < n"
    "op_ok op" "o_type op = OT_STRING" "p < 2 ^ 63" "topos s + int (aop_cells (AStr str)) < topcs s"
  shows "\<exists>m'. pushv E (set_v_s p op) s = Ret () (pushed E s (AStr str) m') \<and> ostack E (pushed E s (AStr str) m') (AStr str # as)
    \<and> keeps E (mm s) m'"
proof -
  have "val_of (mm s) (set_v_s p op) (AStr str)" using assms(3,7,8) by simp
  moreover have "op_ok (set_v_s p op)" using assms(6) by (simp add: op_ok_def set_v_s_def)
  moreover have "src_ok E s (set_v_s p op) (AStr str)"
    using assms(4,5,8,9) by (intro src_ok_outside [OF assms(1), of _ n]) auto
  ultimately show ?thesis
    using pushv_correct [OF assms(1) _ _ _ assms(9), of "set_v_s p op"] keeps_in_stack by blast
qed

lemma cast_string_correct:
  assumes "ostack E s as" "bufs_ok E (mm s)" "val_of (mm s) op a" "abs_cast (fl E) OT_STRING a = Inr (AStr str)"
    "\<not> is_str a" "length str < SZ_LINE" "0 \<notin> set str" "topos s + int (aop_cells (AStr str)) < topcs s"
  shows "\<exists>m'. bindc (cast_string E op ((uninit E)\<lparr>o_type := OT_STRING\<rparr>)) (pushv E) s = Ret () (pushed E s (AStr str) m')
    \<and> ostack E (pushed E s (AStr str) m') (AStr str # as) \<and> keeps E (mm s) m'"
proof -
  let ?r = "(uninit E)\<lparr>o_type := OT_STRING\<rparr>"
  have r: "op_ok ?r" "o_type ?r = OT_STRING" using cast_result_ok [OF assms(2)] by simp_all
  have lay: "length (mm s) < 2 ^ 63" using assms(1) by (simp add: ostack_def lay_ok_def)
  have num: "numstr E + SZ_LINE \<le> length (mm s)" "outside E (numstr E) SZ_LINE" using assms(2) by (auto simp: bufs_ok_def)
  show ?thesis
  proof (cases "\<exists>x. a = ABool x")
    case True
    then obtain x where x: "a = ABool x" by blast
    let ?p = "if x = 0 then falsestr E else truestr E"
    have str: "str = (if x = 0 then lit_no else lit_yes)" using assms(4) x by simp
    have at: "kstr_at (mm s) ?p str" "outside E ?p (length str + 1)"
      using assms(2) str by (auto simp: bufs_ok_def lit_no_def lit_yes_def numeral_eq_Suc)
    then have "?p < 2 ^ 63" using lay by (simp add: kstr_at_def)
    from push_outside_string [OF assms(1,2) at _ r this assms(8)] show ?thesis
      using assms(3) x by (simp add: cast_string_def cl_simps)
  next
    case False
    obtain m' where m': "put_str (numstr E) str (mm s) = Some m'" "kstr_at m' (numstr E) str"
        "same_outside (numstr E) (numstr E + SZ_LINE) (mm s) m'"
      using put_str_correct [OF assms(6) num(1) assms(7)] by blast
    let ?s = "s\<lparr>mm := m'\<rparr>"
    have os: "ostack E ?s as" by (rule ostack_outside [OF assms(1) m'(3) num(2)])
    have bo: "bufs_ok E (mm ?s)" using keeps_bufs [OF assms(2) keeps_numstr [OF m'(3)]] by simp
    have "numstr E < 2 ^ 63" using num(1) lay by simp
    from push_outside_string [OF os bo _ num(2) assms(6) r this, of] m'(2) assms(8) obtain m'' where
      m'': "pushv E (set_v_s (numstr E) ?r) ?s = Ret () (pushed E ?s (AStr str) m'')"
      "ostack E (pushed E ?s (AStr str) m'') (AStr str # as)" "keeps E m' m''" by auto
    have eq: "pushed E ?s (AStr str) m'' = pushed E s (AStr str) m''" by (simp add: pushed_def)
    have "cast_string E op ?r s = Ret (set_v_s (numstr E) ?r) ?s"
      using assms(3-5) False m'(1) by (cases a) (auto simp: cast_string_def cl_simps memop_def is_str_def split: if_splits)
    with m'' eq keeps_trans [OF keeps_numstr [OF m'(3)]] show ?thesis by (auto simp: cl_simps)
  qed
qed

text \<open>The steps of \<open>opcast\<close> before the conversion.\<close>

lemma opcast_same:
  assumes "ostack E s (a # as)" "basic_type a = t"
  shows "opcast E t s = Ret () s"
  using top_operand_correct [OF assms(1)] val_of_basic assms(2) by (force simp: opcast_def cl_simps)

lemma opcast_other:
  assumes "ostack E s (a # as)" "basic_type a \<noteq> t"
  shows "\<exists>op. opcast E t s = cast_to E t op (s\<lparr>topos := topos s - int (aop_cells a)\<rparr>) \<and> val_of (mm s) op a
    \<and> op_ok op \<and> (\<forall>str. a = AStr str \<longrightarrow> v_s op = stk E + 8 * (nat (topos s + 1) - aop_cells a + 2))
    \<and> ostack E (s\<lparr>topos := topos s - int (aop_cells a)\<rparr>) as"
proof -
  obtain op where op: "popop E s = Ret op (s\<lparr>topos := topos s - int (aop_cells a)\<rparr>)" "val_of (mm s) op a"
      "op_ok op" "\<forall>str. a = AStr str \<longrightarrow> v_s op = stk E + 8 * (nat (topos s + 1) - aop_cells a + 2)"
      "ostack E (s\<lparr>topos := topos s - int (aop_cells a)\<rparr>) as"
    using popop_correct [OF assms(1)] by blast
  obtain tp where tp: "top_operand E s = Ret tp s" "val_of (mm s) tp a"
    using top_operand_correct [OF assms(1)] by blast
  have "opcast E t s = cast_to E t op (s\<lparr>topos := topos s - int (aop_cells a)\<rparr>)"
    using tp val_of_basic [OF tp(2)] assms(2) op(1) by (simp add: opcast_def cl_simps)
  with op show ?thesis by blast
qed

lemma cast_scalar_correct:
  assumes "ostack E s as" "bufs_ok E (mm s)" "val_of (mm s) op a" "op_ok op" "abs_cast (fl E) t a = Inr c" "\<not> is_str c"
    "basic_type a \<noteq> t" "t \<in> {0, 1, 2, 3}" "topos s + 3 < topcs s"
  shows "\<exists>m'. cast_to E t op s = Ret () (pushed E s c m') \<and> ostack E (pushed E s c m') (c # as) \<and> keeps E (mm s) m'"
proof -
  have push: "\<exists>m'. pushv E r s = Ret () (pushed E s c m') \<and> ostack E (pushed E s c m') (c # as) \<and> keeps E (mm s) m'"
    if "val_of (mm s) r c" "op_ok r" for r
  proof -
    have "src_ok E s r c" using assms(6) by (auto simp: src_ok_def is_str_def)
    with pushv_correct [OF assms(1) that] assms(6,9) keeps_in_stack show ?thesis
      by (fastforce simp: aop_cells_scalar)
  qed
  let ?r = "(uninit E)\<lparr>o_type := t\<rparr>"
  have r: "op_ok ?r" using assms(2,8) by (intro cast_result_ok) auto
  show ?thesis
  proof (cases a)
    case (AIndef it)
    then have "c = AIndef (or t 4)" using assms(5,7) by (auto simp: basic_type_def)
    moreover have "to_short (or t 4) = or t 4"
      using or_4_range [of t] assms(8) by (intro to_short_id) (auto simp: in_range_def)
    then have "op_ok (setopindef ?r)" "val_of (mm s) (setopindef ?r) (AIndef (or t 4))"
      using setopindef_ok [of ?r] setopindef_val [of "mm s" ?r] r by (simp_all add: op_ok_def)
    moreover have "opindef op" using val_of_indef [OF assms(3)] AIndef by simp
    ultimately show ?thesis using push [of "setopindef ?r"] by (simp add: cast_to_def)
  next
    case (AInt x)
    then have "t = 2" "c = AReal (dbl (f_of_int (fl E) x))" "v_i op = x" "o_type op = OT_INT"
      using assms(3,5,6,7,8) by (auto simp: basic_type_def is_str_def split: if_splits)
    then show ?thesis
      using push [of "set_v_r (f_of_int (fl E) x) ?r"] r val_of_indef [OF assms(3)] AInt
      by (simp add: cast_to_def cast_real_def cl_simps op_ok_def)
  next
    case (ABool x)
    then show ?thesis using assms(5-8) by (auto simp: basic_type_def is_str_def split: if_splits)
  next
    case (AReal x)
    then have "t = 1" "c = AInt (to_int (f_to_int (fl E) x))" "v_r op = x" "o_type op = OT_REAL"
      using assms(3,5,6,7,8) by (auto simp: basic_type_def is_str_def split: if_splits)
    then show ?thesis
      using push [of "set_v_i (to_int (f_to_int (fl E) x)) ?r"] r val_of_indef [OF assms(3)] AReal to_int_range
      by (simp add: cast_to_def cast_int_def cl_simps op_ok_def)
  next
    case (AStr str)
    then obtain ch where ch: "t = 1" "str = [ch]" "c = AInt (sint ch)" "o_type op = OT_STRING"
        "kstr_at (mm s) (v_s op) [ch]"
      using assms(3,5,6,7,8) by (auto simp: basic_type_def is_str_def split: if_splits list.splits)
    moreover have "in_range CINT (sint ch)" using sint_char_range [of ch] by (simp add: in_range_def)
    ultimately show ?thesis
      using push [of "set_v_i (sint ch) ?r"] r val_of_indef [OF assms(3)] AStr
      by (simp add: cast_to_def cast_int_def cl_simps op_ok_def memget_def)
  qed
qed

lemma basic_type_indef: "abs_cast F t a = Inr c \<Longrightarrow> basic_type a = t \<Longrightarrow> t \<in> {0, 1, 2, 3} \<Longrightarrow> c = a"
  by (cases a) (auto simp: basic_type_def)

text \<open>
  \<open>opcast\<close> replaces the value on top of the stack by its cast, and leaves everything below as it
  is; an indefinite value stays indefinite, with the new type.
\<close>

lemma opcast_value:
  assumes "ostack E s (a # as)" "bufs_ok E (mm s)" "t \<in> {0, 1, 2, 3}" "abs_cast (fl E) t a = Inr c"
    "\<And>str. c = AStr str \<Longrightarrow> length str < SZ_LINE \<and> 0 \<notin> set str"
    "topos s - int (aop_cells a) + int (aop_cells c) < topcs s"
  shows "\<exists>s'. opcast E t s = Ret () s' \<and> ostack E s' (c # as) \<and> keeps E (mm s) (mm s') \<and> only_os s s'"
proof (cases "basic_type a = t")
  case True
  with basic_type_indef [OF assms(4) True assms(3)] opcast_same [OF assms(1) True] assms(1,2)
  show ?thesis by (intro exI [of _ s]) auto
next
  case False
  let ?s = "s\<lparr>topos := topos s - int (aop_cells a)\<rparr>"
  obtain op where op: "opcast E t s = cast_to E t op ?s" "val_of (mm s) op a" "op_ok op" "ostack E ?s as"
    using opcast_other [OF assms(1) False] by blast
  have bo: "bufs_ok E (mm ?s)" and v: "val_of (mm ?s) op a" using assms(2) op(2) by simp_all
  show ?thesis
  proof (cases "is_str c")
    case scalar: False
    have "topos ?s + 3 < topcs ?s" using assms(6) aop_cells_scalar [OF scalar] by simp
    from cast_scalar_correct [OF op(4) bo v op(3) assms(4) scalar False assms(3) this] obtain m' where
      "cast_to E t op ?s = Ret () (pushed E ?s c m')" "ostack E (pushed E ?s c m') (c # as)" "keeps E (mm ?s) m'" by blast
    with op(1) show ?thesis by (intro exI [of _ "pushed E ?s c m'"]) (auto simp: pushed_def only_os_def)
  next
    case True
    then obtain str where c: "c = AStr str" by (auto simp: is_str_def)
    have t: "t = 3" "\<not> is_str a"
      using assms(3,4) False c by (cases a; auto simp: basic_type_def is_str_def split: if_splits list.splits)+
    have "\<not> opindef op" using val_of_indef [OF v] assms(4) c by (auto split: if_splits)
    then have "opcast E t s = bindc (cast_string E op ((uninit E)\<lparr>o_type := OT_STRING\<rparr>)) (pushv E) ?s"
      using op(1) t by (simp add: cast_to_def)
    with cast_string_correct [OF op(4) bo v, of str] assms(4-6) c t obtain m' where
      "opcast E t s = Ret () (pushed E ?s c m')" "ostack E (pushed E ?s c m') (c # as)" "keeps E (mm ?s) m'" by auto
    then show ?thesis by (intro exI [of _ "pushed E ?s c m'"]) (auto simp: pushed_def only_os_def)
  qed
qed

text \<open>
  A cast that is not allowed, of a boolean to a number, of a number to a boolean, of a string that
  is not a single character, raises its error, with the operand popped and the rest of the stack kept.
\<close>

lemma opcast_raises:
  assumes "ostack E s (a # as)" "t \<in> {0, 1, 2, 3}" "abs_cast (fl E) t a = Inl e"
  shows "\<exists>s'. opcast E t s = Raise e s' \<and> ostack E s' as"
proof -
  have "basic_type a \<noteq> t" using assms(2,3) by (cases a) (auto simp: basic_type_def split: if_splits)
  from opcast_other [OF assms(1) this] obtain op where
    op: "opcast E t s = cast_to E t op (s\<lparr>topos := topos s - int (aop_cells a)\<rparr>)" "val_of (mm s) op a" "op_ok op"
      "ostack E (s\<lparr>topos := topos s - int (aop_cells a)\<rparr>) as" by blast
  let ?s = "s\<lparr>topos := topos s - int (aop_cells a)\<rparr>"
  have "cast_to E t op ?s = Raise e ?s"
  proof (cases a)
    case (AIndef it)
    then show ?thesis using assms(3) by simp
  next
    case (AStr str)
    then have at: "kstr_at (mm s) (v_s op) str" "o_type op = 3" "\<not> opindef op"
      using op(2) val_of_indef [OF op(2)] by auto
    show ?thesis
    proof (cases str)
      case Nil
      with at AStr assms(2,3) show ?thesis
        by (auto simp: cast_to_def cast_int_def cast_real_def cl_simps memget_def split: if_splits)
    next
      case (Cons c rest)
      with at AStr assms(2,3) show ?thesis
        by (cases rest) (auto simp: cast_to_def cast_int_def cast_real_def cl_simps memget_def split: if_splits)
    qed
  qed (use op(2) val_of_indef [OF op(2)] assms(2,3) in
      \<open>auto simp: cast_to_def cast_int_def cast_real_def cl_simps split: if_splits\<close>)
  with op show ?thesis by auto
qed

text \<open>
  C31: \<open>opcast\<close> implements the table of conversions \<open>abs_cast\<close>: it replaces the value on top of the stack by
  its cast and leaves everything below as it is, where an indefinite value stays indefinite, with the
  new type; and a cast that is not allowed raises its error, with the operand popped and the rest kept.
\<close>

theorem opcast_correct:
  assumes "ostack E s (a # as)" "bufs_ok E (mm s)" "t \<in> {0, 1, 2, 3}"
    "\<And>c. abs_cast (fl E) t a = Inr c \<Longrightarrow> topos s - int (aop_cells a) + int (aop_cells c) < topcs s
      \<and> (\<forall>str. c = AStr str \<longrightarrow> length str < SZ_LINE \<and> 0 \<notin> set str)"
  shows "case abs_cast (fl E) t a of
      Inr c \<Rightarrow> \<exists>s'. opcast E t s = Ret () s' \<and> ostack E s' (c # as) \<and> keeps E (mm s) (mm s') \<and> only_os s s'
    | Inl e \<Rightarrow> \<exists>s'. opcast E t s = Raise e s' \<and> ostack E s' as"
proof (cases "abs_cast (fl E) t a")
  case (Inl e)
  with opcast_raises [OF assms(1,3)] show ?thesis by simp
next
  case (Inr c)
  with assms(4) opcast_value [OF assms(1-3) Inr] show ?thesis by auto
qed

definition cl_ok :: "clenv \<Rightarrow> clm \<Rightarrow> aop list \<Rightarrow> bool" where
  "cl_ok E s as \<longleftrightarrow> ostack E s as \<and> bufs_ok E (mm s) \<and> locals_ok E (mm s)"

lemma demo_bufs: "cl_ok demo_env demo_state []"
  using demo_ok
  by (simp add: cl_ok_def bufs_ok_def locals_ok_def buf_ok_def demo_env_def demo_state_def nth_append outside_def apart_def
      lit_yes_def lit_no_def)

lemma demo_push:
  assumes "cl_ok demo_env s as" "val_of (mm s) op a" "op_ok op" "\<not> is_str a" "topos s + 3 < topcs s"
  shows "\<exists>s'. cl_ok demo_env s' (a # as) \<and> topos s' = topos s + 3 \<and> topcs s' = topcs s"
proof -
  have ok: "ostack demo_env s as" "bufs_ok demo_env (mm s)" "locals_ok demo_env (mm s)" using assms(1) by (auto simp: cl_ok_def)
  have "src_ok demo_env s op a" "topos s + int (aop_cells a) < topcs s"
    using assms(4,5) by (auto simp: src_ok_def is_str_def aop_cells_scalar)
  from pushv_correct [OF ok(1) assms(2,3) this] obtain m' where
    "ostack demo_env (pushed demo_env s a m') (a # as)" "in_stack demo_env (mm s) m'" by blast
  with keeps_bufs [OF ok(2) keeps_in_stack] keeps_locals [OF ok(3) keeps_in_stack] assms(4) show ?thesis
    by (intro exI [of _ "pushed demo_env s a m'"]) (simp add: cl_ok_def aop_cells_scalar)
qed

lemma demo_int:
  assumes "cl_ok demo_env s as" "topos s + 3 < topcs s" "in_range CINT x"
  shows "\<exists>s'. cl_ok demo_env s' (AInt x # as) \<and> topos s' = topos s + 3 \<and> topcs s' = topcs s"
  using demo_push [OF assms(1), of "set_v_i x \<lparr>o_type = 1, o_raw = replicate 8 0\<rparr>" "AInt x"] assms(2,3)
  by (simp add: op_ok_def is_str_def in_range_def)

lemma demo_7: "\<exists>s. cl_ok demo_env s [AInt 7] \<and> topos s = 2 \<and> topcs s = 16"
  using demo_int [OF demo_bufs, of 7] by (simp add: demo_state_def in_range_def)

theorem opcast_correct_witness:
  "\<exists>s s1 s2 e. ostack demo_env s [AInt 7] \<and> opcast demo_env 3 s = Ret () s1 \<and> ostack demo_env s1 [AStr [55]]
     \<and> opcast demo_env 0 s = Raise e s2 \<and> ostack demo_env s2 []"
proof -
  obtain s where s: "ostack demo_env s [AInt 7]" "bufs_ok demo_env (mm s)" "topos s = 2" "topcs s = 16"
    using demo_7 by (auto simp: cl_ok_def)
  have v: "abs_cast (fl demo_env) 3 (AInt 7) = Inr (AStr [55])" by (simp add: fmt_d_def dec_digits.simps)
  have e: "abs_cast (fl demo_env) 0 (AInt 7) = Inl (E_UERR (Msg ''Non-boolean operand used where boolean expected''))"
    by simp
  obtain s1 where "opcast demo_env 3 s = Ret () s1" "ostack demo_env s1 [AStr [55]]"
    using opcast_correct [OF s(1,2), of 3] s(3,4) v by (auto simp: btoi_def)
  moreover obtain e s2 where "opcast demo_env 0 s = Raise e s2" "ostack demo_env s2 []"
    using opcast_correct [OF s(1,2), of 0] e by auto
  ultimately show ?thesis using s(1) by blast
qed

end
