(* ===== verification/Cl_Binop.thy ===== *)
theory Cl_Binop
  imports Cl_Operand
begin

text \<open>
  \<open>pkg/cl/binop.c\<close>: the binary operations and relations on the two operands on top of the stack.
  Arithmetic on \<open>int\<close> wraps around where C leaves it undefined; a division by zero that the code does
  not test for, and the one quotient that has no value, are faults.
\<close>

abbreviation OP_ADD :: int where "OP_ADD \<equiv> 1"
abbreviation OP_SUB :: int where "OP_SUB \<equiv> 2"
abbreviation OP_MUL :: int where "OP_MUL \<equiv> 3"
abbreviation OP_DIV :: int where "OP_DIV \<equiv> 4"
abbreviation OP_POW :: int where "OP_POW \<equiv> 5"
abbreviation OP_MAX :: int where "OP_MAX \<equiv> 6"
abbreviation OP_MIN :: int where "OP_MIN \<equiv> 7"
abbreviation OP_MOD :: int where "OP_MOD \<equiv> 8"
abbreviation OP_ATAN2 :: int where "OP_ATAN2 \<equiv> 9"
abbreviation OP_CONCAT :: int where "OP_CONCAT \<equiv> 10"
abbreviation OP_RADIX :: int where "OP_RADIX \<equiv> 11"
abbreviation OP_STRIDX :: int where "OP_STRIDX \<equiv> 12"
abbreviation OP_STRLDX :: int where "OP_STRLDX \<equiv> 13"
abbreviation OP_STRSTR :: int where "OP_STRSTR \<equiv> 14"
abbreviation OP_STRLSTR :: int where "OP_STRLSTR \<equiv> 15"

abbreviation OP_LT :: int where "OP_LT \<equiv> 1"
abbreviation OP_GT :: int where "OP_GT \<equiv> 2"
abbreviation OP_LE :: int where "OP_LE \<equiv> 3"
abbreviation OP_GE :: int where "OP_GE \<equiv> 4"
abbreviation OP_EQ :: int where "OP_EQ \<equiv> 5"
abbreviation OP_NE :: int where "OP_NE \<equiv> 6"
abbreviation OP_OR :: int where "OP_OR \<equiv> 7"
abbreviation OP_AND :: int where "OP_AND \<equiv> 8"

definition crash :: "'a cl" where
  "crash = (\<lambda>s. Fault)"

definition guard :: "bool \<Rightarrow> clerr \<Rightarrow> unit cl" where
  "guard b e = (if b then ret () else cl_error e)"

text \<open>An error whose message shows the string of an operand, which is read for it.\<close>

definition badstrop :: "operand \<Rightarrow> 'a cl" where
  "badstrop o1 = bindc (memget (strlen (v_s o1))) (\<lambda>_. cl_error (E_UERR Badstrop))"

definition VALU :: "clenv \<Rightarrow> operand \<Rightarrow> int" where
  "VALU E o1 = (if o_type o1 = OT_REAL then v_r o1 else f_of_int (fl E) (v_i o1))"

definition VALU_int :: "clenv \<Rightarrow> operand \<Rightarrow> int" where
  "VALU_int E o1 = to_int (f_to_int (fl E) (VALU E o1))"

subsection \<open>\<open>strint\<close>\<close>

fun digits_back :: "nat \<Rightarrow> nat \<Rightarrow> mem \<Rightarrow> nat option" where
  "digits_back sstart 0 m = Some 0"
| "digits_back sstart (Suc p) m =
     (if sstart < Suc p then
        (case rd m p of None \<Rightarrow> None
         | Some c \<Rightarrow> if isdigit (sint c) then digits_back sstart p m else Some (Suc p))
      else Some (Suc p))"

function digits_fwd :: "nat \<Rightarrow> mem \<Rightarrow> nat option" where
  "digits_fwd p m = (case rd m p of None \<Rightarrow> None
     | Some c \<Rightarrow> if isdigit (sint c) then digits_fwd (p + 1) m else Some p)"
  by pat_completeness auto
termination
  by (relation "measure (\<lambda>(p, m). length m - p)") (auto dest: rd_SomeD)

declare digits_fwd.simps [simp del]

text \<open>A null pointer is \<^term>\<open>Some None\<close>.\<close>

definition strint :: "nat \<Rightarrow> int \<Rightarrow> mem \<Rightarrow> nat option option" where
  "strint p side m = do {
     q \<leftarrow> (if side = 0 then digits_fwd p m
          else do { e \<leftarrow> skip_str p m; digits_back p (e - 1) m });
     c \<leftarrow> rd m q;
     Some (if c = 0 then None else Some q) }"

subsection \<open>Searching in strings\<close>

text \<open>Is \<open>ch\<close> one of the characters of the string at \<open>cp\<close>?\<close>

function char_in :: "nat \<Rightarrow> byte \<Rightarrow> mem \<Rightarrow> bool option" where
  "char_in cp ch m = (case rd m cp of None \<Rightarrow> None
     | Some c \<Rightarrow> if c = 0 then Some False else if c = ch then Some True else char_in (cp + 1) ch m)"
  by pat_completeness auto
termination
  by (relation "measure (\<lambda>(cp, ch, m). length m - cp)") (auto dest: rd_SomeD)

function stridx_loop :: "nat \<Rightarrow> nat \<Rightarrow> nat \<Rightarrow> mem \<Rightarrow> int option" where
  "stridx_loop s1 s2 ip m = (case rd m ip of None \<Rightarrow> None
     | Some ch \<Rightarrow> if ch = 0 then Some 0
         else (case char_in s1 ch m of None \<Rightarrow> None
           | Some found \<Rightarrow> if found then Some (int ip - int s2 + 1) else stridx_loop s1 s2 (ip + 1) m))"
  by pat_completeness auto
termination
  by (relation "measure (\<lambda>(s1, s2, ip, m). length m - ip)") (auto dest: rd_SomeD)

text \<open>The loop backwards looks at \<open>*ip\<close> before it compares \<open>ip\<close> with the start of the string.\<close>

fun strldx_loop :: "nat \<Rightarrow> nat \<Rightarrow> nat \<Rightarrow> mem \<Rightarrow> int option" where
  "strldx_loop s1 s2 0 m = None"
| "strldx_loop s1 s2 (Suc ip) m = (case rd m ip of None \<Rightarrow> None
     | Some ch \<Rightarrow> if ch = 0 \<or> ip < s2 then Some 0
         else (case char_in s1 ch m of None \<Rightarrow> None
           | Some found \<Rightarrow> if found then Some (int ip - int s2 + 1) else strldx_loop s1 s2 ip m))"

text \<open>\<open>while (*cp != EOS && *cp == *ip) { cp++; ip++; }\<close> returns both pointers.\<close>

function match_run :: "nat \<Rightarrow> nat \<Rightarrow> mem \<Rightarrow> (nat \<times> nat) option" where
  "match_run cp ip m = (case rd m cp of None \<Rightarrow> None
     | Some c \<Rightarrow> if c = 0 then Some (cp, ip)
         else (case rd m ip of None \<Rightarrow> None
           | Some d \<Rightarrow> if c = d then match_run (cp + 1) (ip + 1) m else Some (cp, ip)))"
  by pat_completeness auto
termination
  by (relation "measure (\<lambda>(cp, ip, m). length m - cp)") (auto dest: rd_SomeD)

declare char_in.simps [simp del] stridx_loop.simps [simp del] match_run.simps [simp del]

lemma match_run_mono: "match_run cp ip m = Some (cp', ip') \<Longrightarrow> cp \<le> cp' \<and> ip \<le> ip'"
proof (induction cp ip m rule: match_run.induct)
  case (1 cp ip m)
  show ?case
  proof (cases "\<exists>c. rd m cp = Some c \<and> c \<noteq> 0 \<and> rd m ip = Some c")
    case True
    then obtain c where c: "rd m cp = Some c" "c \<noteq> 0" "rd m ip = Some c" by blast
    with "1.prems" have "match_run (cp + 1) (ip + 1) m = Some (cp', ip')" by (subst (asm) match_run.simps) simp
    with "1.IH" [OF c(1,2,3) refl] show ?thesis by simp
  next
    case False
    with "1.prems" show ?thesis
      by (subst (asm) match_run.simps) (auto split: option.splits if_splits)
  qed
qed

text \<open>After a match that fails half way \<open>ip\<close> stays where the match ended; the loop goes on behind it.\<close>

function strstr_loop :: "nat \<Rightarrow> nat \<Rightarrow> byte \<Rightarrow> nat \<Rightarrow> mem \<Rightarrow> int option" where
  "strstr_loop s1 s2 first ip m = (case rd m ip of None \<Rightarrow> None
     | Some ch \<Rightarrow> if ch = 0 then Some 0
         else if ch = first then
           (case match_run s1 ip m of None \<Rightarrow> None
            | Some (cp, ip') \<Rightarrow> (case rd m cp of None \<Rightarrow> None
                | Some c \<Rightarrow> if c = 0 then Some (int ip - int s2 + 1) else strstr_loop s1 s2 first (ip' + 1) m))
         else strstr_loop s1 s2 first (ip + 1) m)"
  by pat_completeness auto
termination
proof (relation "measure (\<lambda>(s1, s2, first, ip, m). length m - ip)", goal_cases)
  case (2 s1 s2 first ip m ch x cp ip' c)
  then have "ip < length m" "ip \<le> ip'" using match_run_mono [of s1 ip m cp ip'] by (auto dest: rd_SomeD)
  then show ?case by simp
qed (auto dest: rd_SomeD)

fun strlstr_loop :: "nat \<Rightarrow> nat \<Rightarrow> byte \<Rightarrow> nat \<Rightarrow> mem \<Rightarrow> int option" where
  "strlstr_loop s1 s2 first 0 m = None"
| "strlstr_loop s1 s2 first (Suc ip) m = (case rd m ip of None \<Rightarrow> None
     | Some ch \<Rightarrow> if ch = 0 \<or> ip < s2 then Some 0
         else if ch = first then
           (case match_run s1 ip m of None \<Rightarrow> None
            | Some (cp, ip') \<Rightarrow> (case rd m cp of None \<Rightarrow> None
                | Some c \<Rightarrow> if c = 0 then Some (int ip - int s2 + 1) else strlstr_loop s1 s2 first ip m))
         else strlstr_loop s1 s2 first ip m)"

declare strstr_loop.simps [simp del]

definition stridx :: "nat \<Rightarrow> nat \<Rightarrow> mem \<Rightarrow> int option" where
  "stridx s1 s2 m = stridx_loop s1 s2 s2 m"

definition strldx :: "nat \<Rightarrow> nat \<Rightarrow> mem \<Rightarrow> int option" where
  "strldx s1 s2 m = do { len \<leftarrow> strlen s2 m; strldx_loop s1 s2 (s2 + nat len) m }"

definition strstr :: "nat \<Rightarrow> nat \<Rightarrow> mem \<Rightarrow> int option" where
  "strstr s1 s2 m = do {
     first \<leftarrow> rd m s1;
     (if first = 0 then Some 1 else strstr_loop s1 s2 first s2 m) }"

definition strlstr :: "nat \<Rightarrow> nat \<Rightarrow> mem \<Rightarrow> int option" where
  "strlstr s1 s2 m = do {
     first \<leftarrow> rd m s1;
     (if first = 0 then Some 1
      else do { len \<leftarrow> strlen s2 m; strlstr_loop s1 s2 first (s2 + nat len) m }) }"

subsection \<open>\<open>binop\<close>: the checks of the types\<close>

definition check_bool :: "int \<Rightarrow> int \<Rightarrow> int \<Rightarrow> unit cl" where
  "check_bool opcode typ1 typ2 =
     (if typ1 = OT_BOOL \<or> typ2 = OT_BOOL then
        if opcode \<in> {OP_ADD, OP_SUB, OP_MUL, OP_DIV, OP_POW} then
          cl_error (E_UERR (Msg ''Illegal boolean operand in arithmetic expression''))
        else if opcode \<in> {OP_MAX, OP_MIN, OP_MOD, OP_RADIX, OP_ATAN2, OP_STRIDX, OP_STRLDX, OP_STRSTR, OP_STRLSTR} then
          cl_error (E_UERR (Msg ''Intrinsic function called with illegal boolean argument''))
        else ret ()
      else ret ())"

text \<open>The operands of an arithmetic operator: whichever of them is a string, the message shows \<open>o1\<close>.\<close>

definition check_types :: "int \<Rightarrow> operand \<Rightarrow> int \<Rightarrow> int \<Rightarrow> int cl" where
  "check_types opcode o1 typ1 typ2 =
     (let typecode = (if typ1 = OT_REAL \<or> typ2 = OT_REAL then OT_REAL else OT_INT) in
      if opcode = OP_ADD then ret typecode
      else if opcode = OP_CONCAT then ret OT_STRING
      else if opcode = OP_RADIX then
        (if typ2 \<noteq> OT_INT then cl_error (E_UERR (Msg ''Radix: second arg must be integer radix''))
         else ret OT_STRING)
      else if opcode \<in> {OP_STRIDX, OP_STRLDX, OP_STRSTR, OP_STRLSTR} then
        (if typ1 \<noteq> OT_STRING \<or> typ2 \<noteq> OT_STRING then
           cl_error (E_UERR (Msg ''stridx: both arguments must be of type string''))
         else ret OT_INT)
      else if opcode \<in> {OP_SUB, OP_MUL, OP_DIV, OP_POW, OP_MAX, OP_MIN, OP_MOD, OP_ATAN2} then
        (if typ1 = OT_STRING \<or> typ2 = OT_STRING then badstrop o1 else ret typecode)
      else cl_error (E_IERR (Badsw opcode)))"

subsection \<open>\<open>binop\<close>: operations on strings\<close>

text \<open>The string in \<open>res\<close> becomes the result.\<close>

definition push_res :: "clenv \<Rightarrow> unit cl" where
  "push_res E = pushv E (set_v_s (resbuf E) ((uninit E)\<lparr>o_type := OT_STRING\<rparr>))"

definition push_index :: "clenv \<Rightarrow> (mem \<Rightarrow> int option) \<Rightarrow> unit cl" where
  "push_index E f =
     bindc (memget f) (\<lambda>i. pushv E (set_v_i (to_int i) ((uninit E)\<lparr>o_type := OT_INT\<rparr>)))"

definition string_plus_int :: "clenv \<Rightarrow> operand \<Rightarrow> operand \<Rightarrow> unit cl" where
  "string_plus_int E o1 o2 =
     (let o1sp = v_s o1; res = resbuf E in
      bindc (memget (strint o1sp 1)) (\<lambda>cp.
      case cp of
        Some cp \<Rightarrow>
          thenc (memop (strncpy res o1sp (int cp - int o1sp)))
          (bindc (memget (atoi cp)) (\<lambda>n.
          let newnum = to_int (n + VALU_int E o2) in
          bindc (memget (strlen cp)) (\<lambda>len.
          thenc (memop (put_str (res + (cp - o1sp)) (fmt_0d (nat len) newnum)))
          (guard (0 \<le> newnum) (E_UERR (Msg ''String + integer expression produces''))))))
      | None \<Rightarrow>
          thenc (memop (strcpy res o1sp))
          (bindc (memget (skip_str res)) (\<lambda>e. memop (put_str (e - 1) (fmt_d (VALU_int E o2)))))))"

definition string_add :: "clenv \<Rightarrow> operand \<Rightarrow> operand \<Rightarrow> int \<Rightarrow> int \<Rightarrow> unit cl" where
  "string_add E o1 o2 typ1 typ2 =
     (if typ1 \<noteq> OT_STRING then cl_error (E_UERR (Msg ''Illegal expression of the form 'number + string' ''))
      else if typ2 = OT_STRING then
        thenc (memop (strcpy (resbuf E) (v_s o1))) (memop (strcat (resbuf E) (v_s o2)))
      else if typ2 = OT_REAL then cl_error (E_UERR Strplusreal)
      else string_plus_int E o1 o2)"

text \<open>An operand that is not a string goes through the stack, where the cast makes one of it.\<close>

definition to_string :: "clenv \<Rightarrow> operand \<Rightarrow> operand cl" where
  "to_string E o1 = thenc (pushv E o1) (thenc (opcast E OT_STRING) (popop E))"

definition string_concat :: "clenv \<Rightarrow> operand \<Rightarrow> operand \<Rightarrow> int \<Rightarrow> int \<Rightarrow> unit cl" where
  "string_concat E o1 o2 typ1 typ2 =
     bindc (if typ1 \<noteq> OT_STRING then
              thenc (if typ2 = OT_STRING then memop (strcpy (s2buf E) (v_s o2)) else ret ()) (to_string E o1)
            else ret o1) (\<lambda>o1.
     thenc (memop (strcpy (resbuf E) (v_s o1)))
     (bindc (if typ2 \<noteq> OT_STRING then to_string E o2 else ret o2) (\<lambda>o2.
     if typ1 \<noteq> OT_STRING \<and> typ2 = OT_STRING then memop (strcat (resbuf E) (s2buf E))
     else memop (strcat (resbuf E) (v_s o2)))))"

text \<open>The characters of a C string.\<close>

function cstr_of :: "nat \<Rightarrow> mem \<Rightarrow> byte list option" where
  "cstr_of p m = (case rd m p of None \<Rightarrow> None
     | Some c \<Rightarrow> if c = 0 then Some [] else (case cstr_of (p + 1) m of None \<Rightarrow> None | Some cs \<Rightarrow> Some (c # cs)))"
  by pat_completeness auto
termination
  by (relation "measure (\<lambda>(p, m). length m - p)") (auto dest: rd_SomeD)

declare cstr_of.simps [simp del]

definition string_radix :: "clenv \<Rightarrow> operand \<Rightarrow> operand \<Rightarrow> int \<Rightarrow> unit cl" where
  "string_radix E o1 o2 typ1 =
     bindc (if typ1 = OT_STRING then
              bindc (memget (cstr_of (v_s o1))) (\<lambda>str.
              case scan_ld E str of Some x \<Rightarrow> ret x | None \<Rightarrow> cl_error (E_UERR (Msg ''Cannot coerce to integer'')))
            else if typ1 = OT_REAL then ret (to_long (f_to_long (fl E) (v_r o1)))
            else ret (v_i o1)) (\<lambda>lval.
     memop (put_str (resbuf E) (fmt_radix E (v_i o2) lval)))"

definition binop_string :: "clenv \<Rightarrow> int \<Rightarrow> operand \<Rightarrow> operand \<Rightarrow> int \<Rightarrow> int \<Rightarrow> unit cl" where
  "binop_string E opcode o1 o2 typ1 typ2 =
     (if opcode = OP_STRIDX then push_index E (stridx (v_s o1) (v_s o2))
      else if opcode = OP_STRLDX then push_index E (strldx (v_s o1) (v_s o2))
      else if opcode = OP_STRSTR then push_index E (strstr (v_s o1) (v_s o2))
      else if opcode = OP_STRLSTR then push_index E (strlstr (v_s o1) (v_s o2))
      else
        thenc (if opcode = OP_ADD then string_add E o1 o2 typ1 typ2
               else if opcode = OP_CONCAT then string_concat E o1 o2 typ1 typ2
               else if opcode = OP_RADIX then string_radix E o1 o2 typ1
               else ret ())
        (push_res E))"

subsection \<open>\<open>binop\<close>: arithmetic\<close>

definition int_result :: "clenv \<Rightarrow> int \<Rightarrow> operand" where
  "int_result E x = set_v_i x ((uninit E)\<lparr>o_type := OT_INT\<rparr>)"

definition real_result :: "clenv \<Rightarrow> int \<Rightarrow> operand" where
  "real_result E x = set_v_r x ((uninit E)\<lparr>o_type := OT_REAL\<rparr>)"

definition op_div :: "clenv \<Rightarrow> operand \<Rightarrow> operand \<Rightarrow> bool \<Rightarrow> operand cl" where
  "op_div E o1 o2 real =
     (if real then
        (if f_eq (fl E) (VALU E o2) (f_of_int (fl E) 0) then cl_error (E_UERR Fdivzero)
         else ret (real_result E (f_div (fl E) (VALU E o1) (VALU E o2))))
      else if v_i o2 = 0 then cl_error (E_UERR Idivzero)
      else if v_i o1 = - 2147483648 \<and> v_i o2 = - 1 then crash
      else ret (int_result E (c_div (v_i o1) (v_i o2))))"

text \<open>There is no test for a zero divisor here.\<close>

definition op_mod :: "clenv \<Rightarrow> operand \<Rightarrow> operand \<Rightarrow> bool \<Rightarrow> operand cl" where
  "op_mod E o1 o2 real =
     (if real then
        let x1 = VALU E o1; x2 = VALU E o2 in
        ret (real_result E (f_sub (fl E) x1
          (f_mul (fl E) (f_of_int (fl E) (to_int (f_to_int (fl E) (f_div (fl E) x1 x2)))) x2)))
      else if v_i o2 = 0 \<or> v_i o1 = - 2147483648 \<and> v_i o2 = - 1 then crash
      else ret (int_result E (c_mod (v_i o1) (v_i o2))))"

definition op_pow :: "clenv \<Rightarrow> operand \<Rightarrow> operand \<Rightarrow> bool \<Rightarrow> operand cl" where
  "op_pow E o1 o2 real =
     (let F = fl E; val1 = VALU E o1; val2 = VALU E o2;
        neg = (o_type o2 = OT_INT \<and> f_lt F val1 (f_of_int F 0));
        sign = f_of_int F (if neg \<and> c_mod (v_i o2) 2 \<noteq> 0 then - 1 else 1);
        dresult = f_mul F sign (f_pow F (if neg then f_neg F val1 else val1) val2)
      in ret (if real then real_result E dresult
              else int_result E (to_int (f_to_int F (f_add F dresult (f_mul F (f_half F) sign))))))"

definition op_maxmin :: "clenv \<Rightarrow> bool \<Rightarrow> operand \<Rightarrow> operand \<Rightarrow> bool \<Rightarrow> operand cl" where
  "op_maxmin E mx o1 o2 real =
     (let greater = (if real then f_lt (fl E) (VALU E o2) (VALU E o1) else v_i o2 < v_i o1);
          less = (if real then f_lt (fl E) (VALU E o1) (VALU E o2) else v_i o1 < v_i o2)
      in ret (if (if mx then greater else less) then o1 else o2))"

definition op_arith :: "clenv \<Rightarrow> (int \<Rightarrow> int \<Rightarrow> int) \<Rightarrow> (int \<Rightarrow> int \<Rightarrow> int) \<Rightarrow> operand \<Rightarrow> operand \<Rightarrow> bool \<Rightarrow> operand cl" where
  "op_arith E fop iop o1 o2 real =
     ret (if real then real_result E (fop (VALU E o1) (VALU E o2)) else int_result E (to_int (iop (v_i o1) (v_i o2))))"

definition binop_num :: "clenv \<Rightarrow> int \<Rightarrow> bool \<Rightarrow> operand \<Rightarrow> operand \<Rightarrow> operand cl" where
  "binop_num E opcode real o1 o2 =
     (if opcode = OP_ADD then op_arith E (f_add (fl E)) (+) o1 o2 real
      else if opcode = OP_SUB then op_arith E (f_sub (fl E)) (-) o1 o2 real
      else if opcode = OP_MUL then op_arith E (f_mul (fl E)) (*) o1 o2 real
      else if opcode = OP_DIV then op_div E o1 o2 real
      else if opcode = OP_POW then op_pow E o1 o2 real
      else if opcode = OP_MAX then op_maxmin E True o1 o2 real
      else if opcode = OP_MIN then op_maxmin E False o1 o2 real
      else if opcode = OP_MOD then op_mod E o1 o2 real
      else if opcode = OP_ATAN2 then ret (real_result E (f_atan2 (fl E) (VALU E o1) (VALU E o2)))
      else cl_error (E_IERR (Badsw opcode)))"

subsection \<open>\<open>binop\<close> and \<open>binexp\<close>\<close>

definition binop_body :: "clenv \<Rightarrow> int \<Rightarrow> operand \<Rightarrow> operand \<Rightarrow> unit cl" where
  "binop_body E opcode o1 o2 =
     (let typ1 = OT_BASIC (o_type o1); typ2 = OT_BASIC (o_type o2) in
      if opindef o1 \<or> opindef o2 then pushv E (setopindef (uninit E))
      else
        thenc (check_bool opcode typ1 typ2)
        (bindc (check_types opcode o1 typ1 typ2) (\<lambda>typecode.
        if typ1 = OT_STRING \<or> typ2 = OT_STRING \<or> typecode = OT_STRING then binop_string E opcode o1 o2 typ1 typ2
        else bindc (binop_num E opcode (typecode = OT_REAL) o1 o2) (pushv E))))"

definition binop :: "clenv \<Rightarrow> int \<Rightarrow> unit cl" where
  "binop E opcode = bindc (popop E) (\<lambda>o2. bindc (popop E) (\<lambda>o1. binop_body E opcode o1 o2))"

definition bool_result :: "clenv \<Rightarrow> bool \<Rightarrow> operand" where
  "bool_result E b = set_v_i (if b then 1 else 0) ((uninit E)\<lparr>o_type := OT_BOOL\<rparr>)"

text \<open>The relations, for two strings on the result of \<open>strcmp\<close>, otherwise on \<open>double\<close> values.\<close>

definition rel_result :: "clenv \<Rightarrow> int \<Rightarrow> operand \<Rightarrow> operand \<Rightarrow> int option \<Rightarrow> bool cl" where
  "rel_result E opcode o1 o2 strres =
     (let x1 = VALU E o1; x2 = VALU E o2; F = fl E in
      if opcode = OP_LT then ret (case strres of Some d \<Rightarrow> d < 0 | None \<Rightarrow> f_lt F x1 x2)
      else if opcode = OP_GT then ret (case strres of Some d \<Rightarrow> d > 0 | None \<Rightarrow> f_lt F x2 x1)
      else if opcode = OP_LE then ret (case strres of Some d \<Rightarrow> d \<le> 0 | None \<Rightarrow> f_le F x1 x2)
      else if opcode = OP_GE then ret (case strres of Some d \<Rightarrow> d \<ge> 0 | None \<Rightarrow> f_le F x2 x1)
      else if opcode = OP_EQ then
        ret (if opindef o1 \<or> opindef o2 then opindef o1 = opindef o2
             else (case strres of Some d \<Rightarrow> d = 0 | None \<Rightarrow> f_eq F x1 x2))
      else if opcode = OP_NE then
        ret (if opindef o1 \<or> opindef o2 then opindef o1 \<noteq> opindef o2
             else (case strres of Some d \<Rightarrow> d \<noteq> 0 | None \<Rightarrow> \<not> f_eq F x1 x2))
      else if opcode = OP_OR then ret (v_i o1 \<noteq> 0 \<or> v_i o2 \<noteq> 0)
      else if opcode = OP_AND then ret (v_i o1 \<noteq> 0 \<and> v_i o2 \<noteq> 0)
      else cl_error (E_IERR (Badsw opcode)))"

definition binexp_body :: "clenv \<Rightarrow> int \<Rightarrow> operand \<Rightarrow> operand \<Rightarrow> operand cl" where
  "binexp_body E opcode o1 o2 =
     (let typ1 = OT_BASIC (o_type o1); typ2 = OT_BASIC (o_type o2) in
      if (typ1 \<noteq> OT_BOOL \<or> typ2 \<noteq> OT_BOOL) \<and> (opcode = OP_OR \<or> opcode = OP_AND) then
        cl_error (E_UERR (Msg ''Non-boolean operand in a boolean expression''))
      else if opcode \<noteq> OP_EQ \<and> opcode \<noteq> OP_NE \<and> (opindef o1 \<or> opindef o2) then
        ret (setopindef ((uninit E)\<lparr>o_type := OT_BOOL\<rparr>))
      else
        bindc (if typ1 = OT_STRING \<and> typ2 = OT_STRING then
                 bindc (memget (strcmp (v_s o1) (v_s o2))) (\<lambda>d. ret (Some d))
               else if typ1 = OT_STRING \<or> typ2 = OT_STRING then badstrop o1
               else ret None) (\<lambda>strres.
        bindc (rel_result E opcode o1 o2 strres) (\<lambda>b. ret (bool_result E b))))"

definition binexp :: "clenv \<Rightarrow> int \<Rightarrow> unit cl" where
  "binexp E opcode = bindc (popop E) (\<lambda>o2. bindc (popop E) (\<lambda>o1. bindc (binexp_body E opcode o1 o2) (pushv E)))"

end
