(* ===== verification/Cl_Arith.thy ===== *)
theory Cl_Arith
  imports Cl_Binop
begin

text \<open>
  What \<open>binop\<close> and \<open>binexp\<close> do to the values on the operand stack: arithmetic and relations on
  integers, and the operations with an indefinite operand.
\<close>

lemma uninit_ok: "bufs_ok E m \<Longrightarrow> length (junk_raw E) = 8"
  by (simp add: bufs_ok_def)

lemma int_result_ok:
  "bufs_ok E m \<Longrightarrow> in_range CINT x \<Longrightarrow> op_ok (int_result E x) \<and> val_of m' (int_result E x) (AInt x)"
  by (simp add: int_result_def op_ok_def uninit_def uninit_ok in_range_def [of XSHORT])

lemma bool_result_ok:
  "bufs_ok E m \<Longrightarrow> op_ok (bool_result E b) \<and> val_of m' (bool_result E b) (ABool (if b then 1 else 0))"
  by (simp add: bool_result_def op_ok_def uninit_def uninit_ok in_range_def)

lemma real_result_ok: "op_ok (real_result E x) \<and> val_of m' (real_result E x) (AReal (dbl x))"
  by (simp add: real_result_def op_ok_def in_range_def)

text \<open>An operation that pops two operands and pushes a scalar.\<close>

lemma pop2_push:
  assumes "ostack E s (b # a # as)" "\<not> is_str c"
    "\<And>o1 o2 s'. val_of (mm s) o1 a \<Longrightarrow> val_of (mm s) o2 b \<Longrightarrow> op_ok o1 \<Longrightarrow> op_ok o2 \<Longrightarrow> mm s' = mm s \<Longrightarrow>
       \<exists>r. k o1 o2 s' = pushv E r s' \<and> op_ok r \<and> val_of (mm s) r c"
  shows "\<exists>s'. bindc (popop E) (\<lambda>o2. bindc (popop E) (\<lambda>o1. k o1 o2)) s = Ret () s' \<and> ostack E s' (c # as) \<and> os_step E s s'"
proof -
  obtain o2 o1 s1 s2 where p: "popop E s = Ret o2 s1" "popop E s1 = Ret o1 s2" "ostack E s2 as"
    "val_of (mm s) o1 a" "val_of (mm s) o2 b" "op_ok o1" "op_ok o2"
    "s2 = s\<lparr>topos := topos s - int (aop_cells b) - int (aop_cells a)\<rparr>" using opst.pop2 [OF assms(1)] by blast
  obtain r where r: "k o1 o2 s2 = pushv E r s2" "op_ok r" "val_of (mm s2) r c"
    using assms(3) [OF p(4-7), of s2] p(8) by auto
  have "topos s2 + int (aop_cells c) < topcs s2" "src_ok E s2 r c"
    using ostack_room [OF assms(1)] aop_cells_ge [of a] aop_cells_ge [of b] p(8) assms(2)
    by (auto simp: aop_cells_scalar src_ok_def is_str_def)
  from pushv_step [OF p(3) r(3,2) this(2,1)] obtain m' where
    m': "pushv E r s2 = Ret () (pushed E s2 c m')" "ostack E (pushed E s2 c m') (c # as)" "os_step E s2 (pushed E s2 c m')" by blast
  moreover have "os_step E s (pushed E s2 c m')" using m'(3) by (simp add: p(8))
  ultimately show ?thesis using p(1,2) r(1) m'(1,2) by (intro exI [of _ "pushed E s2 c m'"]) (simp add: cl_simps)
qed

text \<open>An operation that pops two operands and raises an error, or crashes.\<close>

lemma pop2_end:
  assumes "ostack E s (b # a # as)"
  shows "\<exists>o1 o2 s'. bindc (popop E) (\<lambda>o2. bindc (popop E) (\<lambda>o1. k o1 o2)) s = k o1 o2 s' \<and> ostack E s' as
    \<and> val_of (mm s) o1 a \<and> val_of (mm s) o2 b \<and> op_ok o1 \<and> op_ok o2
    \<and> s' = s\<lparr>topos := topos s - int (aop_cells b) - int (aop_cells a)\<rparr>"
proof -
  obtain o2 o1 s1 s2 where p: "popop E s = Ret o2 s1" "popop E s1 = Ret o1 s2" "ostack E s2 as"
    "val_of (mm s) o1 a" "val_of (mm s) o2 b" "op_ok o1" "op_ok o2"
    "s2 = s\<lparr>topos := topos s - int (aop_cells b) - int (aop_cells a)\<rparr>" using opst.pop2 [OF assms(1)] by blast
  then show ?thesis by (intro exI [of _ o1] exI [of _ o2] exI [of _ s2]) (simp add: cl_simps)
qed

lemma not_indef [simp]: "val_of m op (AInt x) \<Longrightarrow> \<not> opindef op" "val_of m op (AStr str) \<Longrightarrow> \<not> opindef op"
  "val_of m op (ABool x) \<Longrightarrow> \<not> opindef op" "val_of m op (AReal x) \<Longrightarrow> \<not> opindef op"
  using val_of_indef by blast+

subsection \<open>Integers\<close>

text \<open>The result of an integer operation; \<open>None\<close> is a fault.\<close>

definition int_op :: "int \<Rightarrow> int \<Rightarrow> int \<Rightarrow> (clerr + int) option" where
  "int_op opcode x y =
     (if opcode = OP_ADD then Some (Inr (to_int (x + y)))
      else if opcode = OP_SUB then Some (Inr (to_int (x - y)))
      else if opcode = OP_MUL then Some (Inr (to_int (x * y)))
      else if opcode = OP_DIV then
        (if y = 0 then Some (Inl (E_UERR Idivzero))
         else if x = - 2147483648 \<and> y = - 1 then None else Some (Inr (c_div x y)))
      else if opcode = OP_MOD then
        (if y = 0 \<or> x = - 2147483648 \<and> y = - 1 then None else Some (Inr (c_mod x y)))
      else if opcode = OP_MAX then Some (Inr (max x y))
      else Some (Inr (min x y)))"

lemma c_div_bounds:
  assumes "in_range CINT x" "in_range CINT y" "y \<noteq> 0" "\<not> (x = - 2147483648 \<and> y = - 1)"
  shows "in_range CINT (c_div x y)"
proof -
  have x: "\<bar>x\<bar> \<le> 2147483648" using assms(1) by (auto simp: in_range_def)
  have q: "\<bar>x\<bar> div \<bar>y\<bar> \<le> \<bar>x\<bar>" using zdiv_mono2 [of "\<bar>x\<bar>" 1 "\<bar>y\<bar>"] assms(3) by simp
  have q0: "0 \<le> \<bar>x\<bar> div \<bar>y\<bar>" using assms(3) by (simp add: pos_imp_zdiv_nonneg_iff)
  have abs: "\<bar>c_div x y\<bar> \<le> \<bar>x\<bar> div \<bar>y\<bar>"
    using q0 by (auto simp: c_div_def abs_mult sgn_if)
  show ?thesis
  proof (cases "c_div x y = 2147483648")
    case False
    with abs q x show ?thesis by (auto simp: in_range_def)
  next
    case True
    then have big: "2147483648 \<le> \<bar>x\<bar> div \<bar>y\<bar>" using abs by simp
    then have xm: "x = - 2147483648" using q x assms(1) by (auto simp: in_range_def)
    have "\<bar>y\<bar> = 1"
    proof (rule ccontr)
      assume "\<bar>y\<bar> \<noteq> 1"
      then have "2 \<le> \<bar>y\<bar>" using assms(3) by linarith
      then have "\<bar>x\<bar> div \<bar>y\<bar> \<le> \<bar>x\<bar> div 2" by (intro zdiv_mono2) auto
      with big xm show False by simp
    qed
    then have "y = 1" using assms(4) xm by (cases "y < 0") auto
    then show ?thesis using True xm by (simp add: c_div_def)
  qed
qed

lemma c_mod_sgn: "c_mod x y = sgn x * (\<bar>x\<bar> mod \<bar>y\<bar>)"
proof (cases "y = 0")
  case False
  have "y * (sgn x * sgn y * (\<bar>x\<bar> div \<bar>y\<bar>)) = sgn x * (\<bar>y\<bar> * (\<bar>x\<bar> div \<bar>y\<bar>))"
    by (simp add: abs_sgn algebra_simps)
  moreover have "x = sgn x * \<bar>x\<bar>" by (simp add: abs_sgn mult.commute sgn_mult_self_eq)
  ultimately have "c_mod x y = sgn x * (\<bar>x\<bar> - \<bar>y\<bar> * (\<bar>x\<bar> div \<bar>y\<bar>))"
    by (simp add: c_mod_def c_div_def right_diff_distrib)
  then show ?thesis by (simp add: minus_mult_div_eq_mod)
qed (simp add: c_mod_def c_div_def mult_sgn_abs)

lemma c_mod_bounds:
  assumes "in_range CINT y" "y \<noteq> 0"
  shows "in_range CINT (c_mod x y)"
proof -
  have "0 \<le> \<bar>x\<bar> mod \<bar>y\<bar>" "\<bar>x\<bar> mod \<bar>y\<bar> < \<bar>y\<bar>" using assms(2) by simp_all
  then have "\<bar>c_mod x y\<bar> < \<bar>y\<bar>" by (auto simp: c_mod_sgn abs_mult sgn_if)
  then show ?thesis using assms(1) by (auto simp: in_range_def)
qed

lemma int_op_range:
  "int_op opcode x y = Some (Inr z) \<Longrightarrow> in_range CINT x \<Longrightarrow> in_range CINT y \<Longrightarrow> in_range CINT z"
  using to_int_range c_div_bounds [of x y] c_mod_bounds [of y x]
  by (auto simp: int_op_def max_def min_def split: if_splits)

abbreviation int_opcodes :: "int set" where
  "int_opcodes \<equiv> {OP_ADD, OP_SUB, OP_MUL, OP_DIV, OP_MAX, OP_MIN, OP_MOD}"

lemma binop_body_int:
  assumes "opcode \<in> int_opcodes" "val_of m o1 (AInt x)" "val_of m o2 (AInt y)"
  shows "binop_body E opcode o1 o2 = bindc (binop_num E opcode False o1 o2) (pushv E)"
proof (rule ext)
  fix s
  have t: "o_type o1 = 1" "o_type o2 = 1" "\<not> opindef o1" "\<not> opindef o2" using assms(2,3) by auto
  then show "binop_body E opcode o1 o2 s = bindc (binop_num E opcode False o1 o2) (pushv E) s"
    using assms(1) by (auto simp: binop_body_def Let_def check_bool_def check_types_def cl_simps)
qed

lemma binop_num_simps:
  "binop_num E OP_ADD False o1 o2 = ret (int_result E (to_int (v_i o1 + v_i o2)))"
  "binop_num E OP_SUB False o1 o2 = ret (int_result E (to_int (v_i o1 - v_i o2)))"
  "binop_num E OP_MUL False o1 o2 = ret (int_result E (to_int (v_i o1 * v_i o2)))"
  "binop_num E OP_DIV False o1 o2 = op_div E o1 o2 False"
  "binop_num E OP_MOD False o1 o2 = op_mod E o1 o2 False"
  "binop_num E OP_MAX False o1 o2 = ret (if v_i o2 < v_i o1 then o1 else o2)"
  "binop_num E OP_MIN False o1 o2 = ret (if v_i o1 < v_i o2 then o1 else o2)"
  by (simp_all add: binop_num_def op_arith_def op_maxmin_def)

lemma binop_num_int:
  assumes "opcode \<in> int_opcodes" "val_of m o1 (AInt x)" "val_of m o2 (AInt y)"
  shows "case int_op opcode x y of None \<Rightarrow> binop_num E opcode False o1 o2 s = Fault
    | Some (Inl e) \<Rightarrow> binop_num E opcode False o1 o2 s = Raise e s
    | Some (Inr z) \<Rightarrow> (\<exists>r. binop_num E opcode False o1 o2 s = Ret r s
        \<and> (r = int_result E z \<or> r = o1 \<and> z = x \<or> r = o2 \<and> z = y))"
proof -
  have v: "v_i o1 = x" "v_i o2 = y" using assms(2,3) by auto
  from assms(1) consider "opcode = OP_ADD" | "opcode = OP_SUB" | "opcode = OP_MUL" | "opcode = OP_DIV"
    | "opcode = OP_MAX" | "opcode = OP_MIN" | "opcode = OP_MOD" by auto
  then show ?thesis
    by cases (simp_all add: int_op_def binop_num_simps op_div_def op_mod_def crash_def v max_def min_def)
qed

text \<open>
  \<open>binop\<close> on two integers replaces them by the sum, difference, product, quotient, maximum,
  minimum or remainder in 32-bit arithmetic (the quotient rounded towards zero) and keeps the values
  below them.
\<close>

lemma binop_int_value:
  assumes "ostack E s (AInt y # AInt x # as)" "bufs_ok E (mm s)" "opcode \<in> int_opcodes"
    "int_op opcode x y = Some (Inr z)"
  shows "\<exists>s'. binop E opcode s = Ret () s' \<and> ostack E s' (AInt z # as) \<and> bufs_ok E (mm s') \<and> os_step E s s'"
proof -
  have "\<exists>s'. binop E opcode s = Ret () s' \<and> ostack E s' (AInt z # as) \<and> os_step E s s'"
    unfolding binop_def
  proof (rule pop2_push [OF assms(1)])
    show "\<not> is_str (AInt z)" by (simp add: is_str_def)
  next
    fix o1 o2 s'
    assume v: "val_of (mm s) o1 (AInt x)" "val_of (mm s) o2 (AInt y)" and ok: "op_ok o1" "op_ok o2"
    have "in_range CINT x" "in_range CINT y" using v v_i_range [OF ok(1)] v_i_range [OF ok(2)] by auto
    then have z: "in_range CINT z" using int_op_range [OF assms(4)] by blast
    obtain r where "binop_num E opcode False o1 o2 s' = Ret r s'"
      "r = int_result E z \<or> r = o1 \<and> z = x \<or> r = o2 \<and> z = y"
      using binop_num_int [OF assms(3) v, of E s'] assms(4) by auto
    with v ok int_result_ok [OF assms(2) z]
    show "\<exists>r. binop_body E opcode o1 o2 s' = pushv E r s' \<and> op_ok r \<and> val_of (mm s) r (AInt z)"
      unfolding binop_body_int [OF assms(3) v] by (intro exI [of _ r]) (auto simp: cl_simps)
  qed
  then show ?thesis using bufs_ok_in_stack [OF assms(2) os_step_in_stack] by blast
qed

lemma binop_int_error:
  assumes "ostack E s (AInt y # AInt x # as)" "opcode \<in> int_opcodes" "int_op opcode x y = Some (Inl e)"
  shows "\<exists>s'. binop E opcode s = Raise e s' \<and> ostack E s' as \<and> os_step E s s'"
proof -
  obtain o1 o2 s' where p: "binop E opcode s = binop_body E opcode o1 o2 s'" "ostack E s' as"
    "val_of (mm s) o1 (AInt x)" "val_of (mm s) o2 (AInt y)" "s' = s\<lparr>topos := topos s - 3 - 3\<rparr>"
    unfolding binop_def using pop2_end [OF assms(1)] by fastforce
  have "binop_num E opcode False o1 o2 s' = Raise e s'"
    using binop_num_int [OF assms(2) p(3,4), of E s'] assms(3) by simp
  with p show ?thesis using binop_body_int [OF assms(2) p(3,4)] by (auto simp: cl_simps)
qed

lemma binop_int_crash:
  assumes "ostack E s (AInt y # AInt x # as)" "opcode \<in> int_opcodes" "int_op opcode x y = None"
  shows "binop E opcode s = Fault"
proof -
  obtain o1 o2 s' where p: "binop E opcode s = binop_body E opcode o1 o2 s'"
    "val_of (mm s) o1 (AInt x)" "val_of (mm s) o2 (AInt y)"
    unfolding binop_def using pop2_end [OF assms(1)] by blast
  have "binop_num E opcode False o1 o2 s' = Fault" using binop_num_int [OF assms(2) p(2,3), of E s'] assms(3) by simp
  with p show ?thesis using binop_body_int [OF assms(2) p(2,3)] by (simp add: bindc_def)
qed

text \<open>
  C32: The operations on two integers pop both and push the result, in 32-bit arithmetic; a division by
  zero raises its error with the operands popped; a remainder by zero, and a quotient or remainder that
  does not fit, are not an error of the CL but a fault of the processor.
\<close>

theorem binop_int:
  assumes "ostack E s (AInt y # AInt x # as)" "bufs_ok E (mm s)" "opcode \<in> int_opcodes"
  shows "case int_op opcode x y of
      Some (Inr z) \<Rightarrow> \<exists>s'. binop E opcode s = Ret () s' \<and> ostack E s' (AInt z # as) \<and> bufs_ok E (mm s') \<and> os_step E s s'
    | Some (Inl e) \<Rightarrow> \<exists>s'. binop E opcode s = Raise e s' \<and> ostack E s' as \<and> os_step E s s'
    | None \<Rightarrow> binop E opcode s = Fault"
  using binop_int_value [OF assms] binop_int_error [OF assms(1,3)] binop_int_crash [OF assms(1,3)]
  by (auto split: option.split sum.split)

lemma demo_two:
  assumes "in_range CINT x" "in_range CINT y"
  shows "\<exists>s. cl_ok demo_env s [AInt y, AInt x] \<and> topos s = 5 \<and> topcs s = 16"
proof -
  obtain s where s: "cl_ok demo_env s [AInt x]" "topos s = 2" "topcs s = 16"
    using demo_int [OF demo_bufs _ assms(1)] by (auto simp: demo_state_def)
  then show ?thesis using demo_int [OF s(1) _ assms(2)] by simp
qed

theorem binop_int_witness:
  "(\<exists>s s'. ostack demo_env s [AInt 3, AInt (- 7)] \<and> binop demo_env OP_DIV s = Ret () s' \<and> ostack demo_env s' [AInt (- 2)])
   \<and> (\<exists>s. ostack demo_env s [AInt 0, AInt 1] \<and> (\<exists>s'. binop demo_env OP_DIV s = Raise (E_UERR Idivzero) s') \<and> binop demo_env OP_MOD s = Fault)"
proof (rule conjI)
  obtain s where s: "ostack demo_env s [AInt 3, AInt (- 7)]" "bufs_ok demo_env (mm s)"
    using demo_two [of "- 7" 3] by (auto simp: in_range_def cl_ok_def)
  have "int_op OP_DIV (- 7) 3 = Some (Inr (- 2))" by (simp add: int_op_def c_div_def)
  with binop_int [OF s, of OP_DIV] s(1)
  show "\<exists>s s'. ostack demo_env s [AInt 3, AInt (- 7)] \<and> binop demo_env OP_DIV s = Ret () s' \<and> ostack demo_env s' [AInt (- 2)]"
    by auto
next
  obtain s where s: "ostack demo_env s [AInt 0, AInt 1]" "bufs_ok demo_env (mm s)"
    using demo_two [of 1 0] by (auto simp: in_range_def cl_ok_def)
  have "int_op OP_DIV 1 0 = Some (Inl (E_UERR Idivzero))" "int_op OP_MOD 1 0 = None" by (simp_all add: int_op_def)
  with binop_int [OF s, of OP_DIV] binop_int [OF s, of OP_MOD] s(1)
  show "\<exists>s. ostack demo_env s [AInt 0, AInt 1] \<and> (\<exists>s'. binop demo_env OP_DIV s = Raise (E_UERR Idivzero) s') \<and> binop demo_env OP_MOD s = Fault"
    by auto
qed

subsection \<open>Indefinite operands\<close>

text \<open>
  An operation with an indefinite operand gives an indefinite result, whatever the operation and
  the other operand are; the type that goes with it is whatever the uninitialised result held.
\<close>

theorem binop_indef:
  assumes "ostack E s (b # a # as)" "bufs_ok E (mm s)" "a = AIndef t \<or> b = AIndef t"
  shows "\<exists>s'. binop E opcode s = Ret () s' \<and> ostack E s' (AIndef (to_short (or (junk_type E) 4)) # as) \<and> os_step E s s'"
proof -
  have "\<exists>s'. binop E opcode s = Ret () s' \<and> ostack E s' (AIndef (to_short (or (junk_type E) 4)) # as)
      \<and> os_step E s s'"
    unfolding binop_def
  proof (rule pop2_push [OF assms(1)])
    fix o1 o2 s'
    assume v: "val_of (mm s) o1 a" "val_of (mm s) o2 b"
    then have "opindef o1 \<or> opindef o2" using val_of_indef assms(3) by blast
    moreover have "op_ok (setopindef (uninit E))"
      using assms(2) by (intro setopindef_ok) (simp add: uninit_def uninit_ok)
    moreover have "val_of (mm s) (setopindef (uninit E)) (AIndef (to_short (or (junk_type E) 4)))"
      using setopindef_val [of "mm s" "uninit E"] by (simp add: uninit_def)
    ultimately show "\<exists>r. binop_body E opcode o1 o2 s' = pushv E r s' \<and> op_ok r
        \<and> val_of (mm s) r (AIndef (to_short (or (junk_type E) 4)))"
      by (intro exI [of _ "setopindef (uninit E)"]) (simp add: binop_body_def Let_def)
  qed (simp add: is_str_def)
  then show ?thesis by blast
qed

lemma demo_indef: "\<exists>s. ostack demo_env s [AInt 3, AIndef 5] \<and> bufs_ok demo_env (mm s)"
proof -
  have v: "val_of (mm demo_state) \<lparr>o_type = 5, o_raw = replicate 8 0\<rparr> (AIndef 5)"
    by (simp add: bit_iff_odd)
  have ok: "op_ok \<lparr>o_type = 5, o_raw = replicate 8 0\<rparr>" by (simp add: op_ok_def in_range_def)
  obtain s where s: "cl_ok demo_env s [AIndef 5]" "topos s = 2" "topcs s = 16"
    using demo_push [OF demo_bufs v ok] by (auto simp: demo_state_def is_str_def)
  then show ?thesis using demo_int [OF s(1), of 3] by (auto simp: in_range_def cl_ok_def)
qed

theorem binop_indef_witness:
  "\<exists>s s'. ostack demo_env s [AInt 3, AIndef 5] \<and> binop demo_env OP_ADD s = Ret () s' \<and> ostack demo_env s' [AIndef 4]"
proof -
  obtain s where s: "ostack demo_env s [AInt 3, AIndef 5]" "bufs_ok demo_env (mm s)" using demo_indef by blast
  have "to_short (or (junk_type demo_env) 4) = 4" by (simp add: demo_env_def)
  with binop_indef [OF s, of 5 OP_ADD] s show ?thesis by auto
qed

subsection \<open>Relations\<close>

text \<open>Comparing two \<open>int\<close> values as \<open>double\<close> values is comparing them.\<close>

definition int_floats :: "fops \<Rightarrow> bool" where
  "int_floats F \<longleftrightarrow> (\<forall>x y. in_range CINT x \<and> in_range CINT y \<longrightarrow>
     f_lt F (f_of_int F x) (f_of_int F y) = (x < y) \<and> f_le F (f_of_int F x) (f_of_int F y) = (x \<le> y)
     \<and> f_eq F (f_of_int F x) (f_of_int F y) = (x = y) \<and> f_to_int F (f_of_int F x) = x)"

definition rel_op :: "int \<Rightarrow> int \<Rightarrow> int \<Rightarrow> bool" where
  "rel_op opcode x y = (if opcode = OP_LT then x < y else if opcode = OP_GT then x > y
     else if opcode = OP_LE then x \<le> y else if opcode = OP_GE then x \<ge> y
     else if opcode = OP_EQ then x = y else x \<noteq> y)"

lemma binexp_body_rel:
  assumes "opcode \<in> {OP_LT, OP_GT, OP_LE, OP_GE, OP_EQ, OP_NE}" "\<not> opindef o1" "\<not> opindef o2"
    "OT_BASIC (o_type o1) \<noteq> OT_STRING" "OT_BASIC (o_type o2) \<noteq> OT_STRING"
  shows "binexp_body E opcode o1 o2 s = bindc (rel_result E opcode o1 o2 None) (\<lambda>b. ret (bool_result E b)) s"
  using assms by (auto simp: binexp_body_def Let_def cl_simps)

lemma rel_result_int:
  assumes "opcode \<in> {OP_LT, OP_GT, OP_LE, OP_GE, OP_EQ, OP_NE}" "val_of m o1 (AInt x)" "val_of m o2 (AInt y)"
    "op_ok o1" "op_ok o2" "int_floats (fl E)"
  shows "rel_result E opcode o1 o2 None s = Ret (rel_op opcode x y) s"
proof -
  have r: "in_range CINT x" "in_range CINT y" using assms(2-5) v_i_range by auto
  have V: "VALU E o1 = f_of_int (fl E) x" "VALU E o2 = f_of_int (fl E) y" using assms(2,3) by (auto simp: VALU_def)
  have F: "f_lt (fl E) (f_of_int (fl E) u) (f_of_int (fl E) v) = (u < v)"
    "f_le (fl E) (f_of_int (fl E) u) (f_of_int (fl E) v) = (u \<le> v)"
    "f_eq (fl E) (f_of_int (fl E) u) (f_of_int (fl E) v) = (u = v)"
    if "in_range CINT u" "in_range CINT v" for u v
    using assms(6) that by (auto simp: int_floats_def)
  have "\<not> opindef o1" "\<not> opindef o2" using assms(2,3) by auto
  moreover from assms(1) consider "opcode = OP_LT" | "opcode = OP_GT" | "opcode = OP_LE" | "opcode = OP_GE"
    | "opcode = OP_EQ" | "opcode = OP_NE" by auto
  then show ?thesis
    by cases (use r calculation in \<open>simp_all add: rel_result_def rel_op_def V F\<close>)
qed

text \<open>
  The relations on two integers, which the code evaluates in \<open>double\<close> arithmetic, leave the truth
  value of the relation.
\<close>

lemma binexp_int:
  assumes "ostack E s (AInt y # AInt x # as)" "bufs_ok E (mm s)" "int_floats (fl E)"
    "opcode \<in> {OP_LT, OP_GT, OP_LE, OP_GE, OP_EQ, OP_NE}"
  shows "\<exists>s'. binexp E opcode s = Ret () s' \<and> ostack E s' (ABool (if rel_op opcode x y then 1 else 0) # as)
    \<and> bufs_ok E (mm s') \<and> os_step E s s'"
proof -
  let ?b = "rel_op opcode x y"
  have "\<exists>s'. binexp E opcode s = Ret () s' \<and> ostack E s' (ABool (if ?b then 1 else 0) # as)
      \<and> os_step E s s'"
    unfolding binexp_def
  proof (rule pop2_push [OF assms(1)])
    fix o1 o2 s'
    assume v: "val_of (mm s) o1 (AInt x)" "val_of (mm s) o2 (AInt y)" and ok: "op_ok o1" "op_ok o2"
    have "binexp_body E opcode o1 o2 s' = Ret (bool_result E ?b) s'"
      using binexp_body_rel [OF assms(4), of o1 o2 E s'] rel_result_int [OF assms(4) v ok assms(3), of s'] v
      by (simp add: cl_simps)
    with bool_result_ok [OF assms(2), of ?b "mm s"]
    show "\<exists>r. bindc (binexp_body E opcode o1 o2) (pushv E) s' = pushv E r s' \<and> op_ok r
        \<and> val_of (mm s) r (ABool (if ?b then 1 else 0))"
      by (intro exI [of _ "bool_result E ?b"]) (simp add: cl_simps)
  qed (simp add: is_str_def)
  then show ?thesis using bufs_ok_in_stack [OF assms(2) os_step_in_stack] by blast
qed

lemma binexp_bool:
  assumes "ostack E s (ABool y # ABool x # as)" "bufs_ok E (mm s)" "opcode = OP_OR \<or> opcode = OP_AND"
  shows "\<exists>s'. binexp E opcode s = Ret () s' \<and> os_step E s s'
    \<and> ostack E s' (ABool (if (if opcode = OP_OR then x \<noteq> 0 \<or> y \<noteq> 0 else x \<noteq> 0 \<and> y \<noteq> 0) then 1 else 0) # as)"
proof -
  let ?b = "if opcode = OP_OR then x \<noteq> 0 \<or> y \<noteq> 0 else x \<noteq> 0 \<and> y \<noteq> 0"
  have "\<exists>s'. binexp E opcode s = Ret () s' \<and> ostack E s' (ABool (if ?b then 1 else 0) # as) \<and> os_step E s s'"
    unfolding binexp_def
  proof (rule pop2_push [OF assms(1)])
    fix o1 o2 s'
    assume v: "val_of (mm s) o1 (ABool x)" "val_of (mm s) o2 (ABool y)"
    then have "\<not> opindef o1" "\<not> opindef o2" by auto
    then have "binexp_body E opcode o1 o2 s' = Ret (bool_result E ?b) s'"
      using assms(3) v by (auto simp: binexp_body_def rel_result_def Let_def cl_simps)
    with bool_result_ok [OF assms(2), of ?b "mm s"]
    show "\<exists>r. bindc (binexp_body E opcode o1 o2) (pushv E) s' = pushv E r s' \<and> op_ok r
        \<and> val_of (mm s) r (ABool (if ?b then 1 else 0))"
      by (intro exI [of _ "bool_result E ?b"]) (simp add: cl_simps)
  qed (simp add: is_str_def)
  then show ?thesis by blast
qed

lemma demo_floats: "int_floats (fl demo_env)"
proof -
  have "signed (take_bit 64 x) = x" if "in_range CINT x" for x
    using that by (simp add: signed_def signed_take_bit_take_bit in_range_def signed_take_bit_int_eq_self)
  then show ?thesis by (simp add: int_floats_def demo_env_def demo_fops_def)
qed

end
