(* ===== verification/Cl_Strings.thy ===== *)
theory Cl_Strings
  imports Cl_Arith
begin

text \<open>
  The operations of \<open>binop\<close> and \<open>binexp\<close> on strings: concatenation, which converts operands on the
  stack while strings lie in the space that this overwrites, the sum of a string and an integer, the
  comparison, and the searches.
\<close>

subsection \<open>Concatenation\<close>

text \<open>A popped string, in the free part of the stack, goes to a buffer.\<close>

lemma copy_to_buf:
  assumes "ostack E s as" "bufs_ok E (mm s)" "locals_ok E (mm s)" "buf_ok E (mm s) p n" "kstr_at (mm s) q str"
    "length str < n" "q + length str < p \<or> p + n \<le> q"
  shows "\<exists>m'. strcpy p q (mm s) = Some m' \<and> kstr_at m' p str \<and> same_outside p (p + n) (mm s) m'
    \<and> ostack E (s\<lparr>mm := m'\<rparr>) as \<and> bufs_ok E m' \<and> locals_ok E m'"
proof -
  let ?m = "blit (mm s) p (str @ [0])"
  have fit: "p + length str < length (mm s)" "p + n \<le> length (mm s)" and out: "outside E p n"
    using assms(4,6) by (auto simp: buf_ok_def)
  have "strcpy p q (mm s) = Some ?m"
    unfolding strcpy_def using assms(5-7) fit by (intro copy_string_correct) auto
  moreover have "kstr_at ?m p str" using assms(5) fit by (intro kstr_at_new) (auto simp: kstr_at_def)
  moreover have so: "same_outside p (p + n) (mm s) ?m" using assms(6) fit by (intro same_outside_blit) auto
  moreover note ostack_outside [OF assms(1) so out] bufs_ok_write [OF assms(2,4) so]
  moreover have "length ?m = length (mm s)" using so by (simp add: same_outside_def)
  ultimately show ?thesis using locals_ok_write [OF assms(3)] by blast
qed

text \<open>An operand that has been popped goes through the stack to become a string.\<close>

lemma to_string_correct:
  assumes "ostack E s as" "bufs_ok E (mm s)" "val_of (mm s) op a" "op_ok op" "\<not> is_str a"
    "abs_cast (fl E) 3 a = Inr (AStr str)" "length str < SZ_LINE" "0 \<notin> set str"
    "topos s + int (aop_cells (AStr str)) < topcs s"
  shows "\<exists>op' s'. to_string E op s = Ret op' s' \<and> val_of (mm s') op' (AStr str) \<and> ostack E s' as \<and> op_ok op'
    \<and> keeps E (mm s) (mm s') \<and> topos s' = topos s \<and> only_os s s'
    \<and> stk E \<le> v_s op' \<and> v_s op' + length str < stk E + 8 * nat (stacksiz E) \<and> v_s op' = stk E + 8 * (nat (topos s + 1) + 2)"
proof -
  have cells: "aop_cells a = 3" using aop_cells_scalar [OF assms(5)] .
  have src: "src_ok E s op a" "topos s + int (aop_cells a) < topcs s"
    using assms(5,9) cells by (auto simp: src_ok_def is_str_def)
  obtain m1 where m1: "pushv E op s = Ret () (pushed E s a m1)" "ostack E (pushed E s a m1) (a # as)" "in_stack E (mm s) m1"
    using pushv_correct [OF assms(1,3,4) src] by blast
  let ?s1 = "pushed E s a m1"
  have b1: "bufs_ok E (mm ?s1)" using bufs_ok_in_stack [OF assms(2) m1(3)] by simp
  obtain s2 where s2: "opcast E 3 ?s1 = Ret () s2" "ostack E s2 (AStr str # as)" "keeps E (mm ?s1) (mm s2)" "only_os ?s1 s2"
    using opcast_value [OF m1(2) b1 _ assms(6)] assms(7-9) cells by auto
  have "basos s2 = basos s" using s2(4) by (auto simp: only_os_def pushed_def)
  then have t2: "topos s2 = topos s + int (aop_cells (AStr str))"
    using ostack_height [OF s2(2)] ostack_height [OF assms(1)] by simp
  from popop_correct [OF s2(2)] obtain op' where op':
    "popop E s2 = Ret op' (s2\<lparr>topos := topos s\<rparr>)" "val_of (mm s2) op' (AStr str)" "op_ok op'"
    "v_s op' = stk E + 8 * (nat (topos s2 + 1) - aop_cells (AStr str) + 2)" "ostack E (s2\<lparr>topos := topos s\<rparr>) as"
    using t2 by auto
  have "to_string E op s = Ret op' (s2\<lparr>topos := topos s\<rparr>)"
    using m1(1) s2(1) op'(1) by (simp add: to_string_def cl_simps)
  moreover have "keeps E (mm s) (mm (s2\<lparr>topos := topos s\<rparr>))"
    using keeps_trans [OF keeps_in_stack [OF m1(3)], of "mm s2"] s2(3) by simp
  moreover have "only_os s (s2\<lparr>topos := topos s\<rparr>)"
    using s2(4) by (simp add: only_os_def pushed_def)
  moreover have "v_s op' + length str < stk E + 8 * nat (stacksiz E)"
  proof -
    have "nat (topos s2 + 1) \<le> nat (stacksiz E)" using ostack_room [OF s2(2)] by auto
    moreover have "length str + 1 \<le> 8 * btoi (length str + 1)" by (rule btoi_bounds)
    moreover have "aop_cells (AStr str) \<le> nat (topos s2 + 1)" using t2 ostack_room [OF assms(1)] by auto
    ultimately show ?thesis using op'(4) by simp
  qed
  moreover have "v_s op' = stk E + 8 * (nat (topos s + 1) + 2)"
    using op'(4) t2 ostack_room [OF assms(1)] by (simp add: nat_add_distrib)
  ultimately show ?thesis using op' by (intro exI [of _ op'] exI [of _ "s2\<lparr>topos := topos s\<rparr>"]) auto
qed

definition instk :: "clenv \<Rightarrow> nat \<Rightarrow> byte list \<Rightarrow> bool" where
  "instk E q str \<longleftrightarrow> stk E \<le> q \<and> q + length str < stk E + 8 * nat (stacksiz E)"

lemma instk_apart: "instk E q str \<Longrightarrow> outside E p n \<Longrightarrow> 0 < n \<Longrightarrow> q + length str < p \<or> p + n \<le> q"
  by (auto simp: instk_def outside_def)

lemma res_ok: "locals_ok E m \<Longrightarrow> buf_ok E m (resbuf E) (2 * SZ_LINE)" "locals_ok E m \<Longrightarrow> buf_ok E m (s2buf E) SZ_LINE"
  "locals_ok E m \<Longrightarrow> buf_ok E m (sbuf E) SZ_LINE"
  by (simp_all add: locals_ok_def)

lemma strcpy_res:
  assumes "cl_ok E s as" "kstr_at (mm s) q str" "instk E q str" "buf_ok E (mm s) p n" "length str < n"
  shows "\<exists>m'. strcpy p q (mm s) = Some m' \<and> kstr_at m' p str \<and> same_outside p (p + n) (mm s) m' \<and> cl_ok E (s\<lparr>mm := m'\<rparr>) as"
proof -
  have "q + length str < p \<or> p + n \<le> q"
    using instk_apart [OF assms(3)] assms(4,5) by (auto simp: buf_ok_def)
  with copy_to_buf [of E s as p n q str] assms show ?thesis by (auto simp: cl_ok_def)
qed

lemma strcat_res:
  assumes "cl_ok E s as" "kstr_at (mm s) (resbuf E) a" "kstr_at (mm s) q b" "length a + length b < 2 * SZ_LINE"
    "q + length b < resbuf E \<or> resbuf E + 2 * SZ_LINE \<le> q"
  shows "\<exists>m'. strcat (resbuf E) q (mm s) = Some m' \<and> kstr_at m' (resbuf E) (a @ b) \<and> cl_ok E (s\<lparr>mm := m'\<rparr>) as"
proof -
  let ?r = "resbuf E" and ?m = "blit (mm s) (resbuf E + length a) (b @ [0])"
  have buf: "buf_ok E (mm s) ?r (2 * SZ_LINE)" using assms(1) by (simp add: cl_ok_def locals_ok_def)
  have fit: "?r + 2 * SZ_LINE \<le> length (mm s)" "outside E ?r (2 * SZ_LINE)" using buf by (auto simp: buf_ok_def)
  have c: "?r + length a + length b < length (mm s)" "q + length b < ?r \<or> ?r + length a + length b < q"
    using assms(4,5) fit by auto
  note sc = strcat_correct [OF assms(2,3) c]
  have so: "same_outside ?r (?r + 2 * SZ_LINE) (mm s) ?m" using assms(4) fit by (intro same_outside_blit) auto
  have "cl_ok E (s\<lparr>mm := ?m\<rparr>) as"
    using ostack_outside [OF _ so fit(2)] bufs_ok_write [OF _ buf so] locals_ok_write assms(1) so
    by (auto simp: cl_ok_def same_outside_def)
  with sc show ?thesis by blast
qed

text \<open>The two popped operands, with the places of their strings.\<close>

lemma pop2_instk:
  assumes "ostack E s (b # a # as)"
  shows "\<exists>o1 o2 s'. bindc (popop E) (\<lambda>o2. bindc (popop E) (\<lambda>o1. k o1 o2)) s = k o1 o2 s' \<and> ostack E s' as
    \<and> val_of (mm s) o1 a \<and> val_of (mm s) o2 b \<and> op_ok o1 \<and> op_ok o2
    \<and> s' = s\<lparr>topos := topos s - int (aop_cells b) - int (aop_cells a)\<rparr>
    \<and> (\<forall>str. a = AStr str \<longrightarrow> instk E (v_s o1) str) \<and> (\<forall>str. b = AStr str \<longrightarrow> instk E (v_s o2) str)"
proof -
  have in_stk: "instk E (stk E + 8 * (nat (topos u + 1) - aop_cells (AStr str) + 2)) str"
    if "ostack E u (AStr str # cs)" for u str cs
  proof -
    have "nat (topos u + 1) \<le> nat (stacksiz E)" using ostack_room [OF that] by auto
    moreover have "aop_cells (AStr str) \<le> nat (topos u + 1)" using that by (simp add: ostack_def)
    moreover have "length str + 1 \<le> 8 * btoi (length str + 1)" by (rule btoi_bounds)
    ultimately show ?thesis by (simp add: instk_def)
  qed
  let ?s1 = "s\<lparr>topos := topos s - int (aop_cells b)\<rparr>"
  obtain o2 where o2: "popop E s = Ret o2 ?s1" "val_of (mm s) o2 b" "op_ok o2" "ostack E ?s1 (a # as)"
      "\<forall>str. b = AStr str \<longrightarrow> instk E (v_s o2) str"
    using popop_correct [OF assms] in_stk assms by metis
  let ?s2 = "?s1\<lparr>topos := topos ?s1 - int (aop_cells a)\<rparr>"
  obtain o1 where o1: "popop E ?s1 = Ret o1 ?s2" "val_of (mm ?s1) o1 a" "op_ok o1" "ostack E ?s2 as"
      "\<forall>str. a = AStr str \<longrightarrow> instk E (v_s o1) str"
    using popop_correct [OF o2(4)] in_stk o2(4) by metis
  from o1 o2 show ?thesis by (intro exI [of _ o1] exI [of _ o2] exI [of _ ?s2]) (simp add: cl_simps)
qed

lemma val_of_scalar: "val_of m op a \<Longrightarrow> \<not> is_str a \<Longrightarrow> val_of m' op a"
  by (cases a) (auto simp: is_str_def)

text \<open>A value that has a form as a string, short enough for the buffers of the casts.\<close>

definition has_text :: "fops \<Rightarrow> aop \<Rightarrow> byte list \<Rightarrow> bool" where
  "has_text F a str \<longleftrightarrow> abs_cast F 3 a = Inr (AStr str) \<and> length str < SZ_LINE \<and> 0 \<notin> set str"

lemma has_text_type: "has_text F a str \<Longrightarrow> val_of m op a \<Longrightarrow> OT_BASIC (o_type op) = 3 \<longleftrightarrow> is_str a"
  by (cases a) (auto simp: has_text_def is_str_def OT_BASIC_def split: if_splits)

lemma has_text_str: "has_text F (AStr str) str' \<Longrightarrow> str' = str"
  by (simp add: has_text_def)

definition concat1 :: "clenv \<Rightarrow> operand \<Rightarrow> operand \<Rightarrow> bool \<Rightarrow> bool \<Rightarrow> operand cl" where
  "concat1 E o1 o2 t1 t2 =
     (if t1 then thenc (if t2 then memop (strcpy (s2buf E) (v_s o2)) else ret ()) (to_string E o1) else ret o1)"

text \<open>The first operand becomes a string, and the second is saved if that would overwrite it.\<close>

lemma concat1_correct:
  assumes "cl_ok E s as" "val_of (mm s) o1 a" "val_of (mm s) o2 b" "op_ok o1" "has_text (fl E) a sa" "has_text (fl E) b sb"
    "\<forall>str. a = AStr str \<longrightarrow> instk E (v_s o1) str" "\<forall>str. b = AStr str \<longrightarrow> instk E (v_s o2) str"
    "topos s + int (aop_cells (AStr sa)) < topcs s"
  shows "\<exists>op' s'. concat1 E o1 o2 (\<not> is_str a) (is_str b) s = Ret op' s' \<and> cl_ok E s' as \<and> only_os s s' \<and> topos s' = topos s
    \<and> kstr_at (mm s') (v_s op') sa \<and> instk E (v_s op') sa
    \<and> (is_str b \<longrightarrow> (if is_str a then kstr_at (mm s') (v_s o2) sb \<and> instk E (v_s o2) sb
                     else kstr_at (mm s') (s2buf E) sb))"
proof (cases "is_str a")
  case True
  then show ?thesis
    using assms by (auto simp: concat1_def is_str_def has_text_def intro!: exI [of _ o1] exI [of _ s])
next
  case False
  have s2: "buf_ok E (mm s) (s2buf E) SZ_LINE" using assms(1) by (simp add: cl_ok_def locals_ok_def)
  obtain m1 where m1: "(if is_str b then memop (strcpy (s2buf E) (v_s o2)) else ret ()) s = Ret () (s\<lparr>mm := m1\<rparr>)"
      "cl_ok E (s\<lparr>mm := m1\<rparr>) as" "is_str b \<longrightarrow> kstr_at m1 (s2buf E) sb" "length m1 = length (mm s)"
  proof (cases "is_str b")
    case True
    then have b: "b = AStr sb" using assms(6) has_text_str by (auto simp: is_str_def)
    then have "kstr_at (mm s) (v_s o2) sb" "instk E (v_s o2) sb" "length sb < SZ_LINE"
      using assms(3,6,8) by (auto simp: has_text_def)
    from strcpy_res [OF assms(1) this(1,2) s2 this(3)] True that show thesis
      by (auto simp: memop_def same_outside_def)
  next
    case False
    then show thesis using that [of "mm s"] assms(1) by simp
  qed
  let ?s = "s\<lparr>mm := m1\<rparr>"
  have v: "val_of (mm ?s) o1 a" using val_of_scalar [OF assms(2) False] by simp
  have "topos ?s + int (aop_cells (AStr sa)) < topcs ?s" using assms(9) by simp
  with to_string_correct [of E ?s as o1 a sa] m1(2) v assms(4,5) False obtain op' s' where
    t: "to_string E o1 ?s = Ret op' s'" "val_of (mm s') op' (AStr sa)" "ostack E s' as" "keeps E m1 (mm s')"
      "topos s' = topos s" "only_os ?s s'" "stk E \<le> v_s op'" "v_s op' + length sa < stk E + 8 * nat (stacksiz E)"
    unfolding cl_ok_def has_text_def by auto
  have "cl_ok E s' as"
    using m1(2) t(3,4) keeps_bufs keeps_locals by (auto simp: cl_ok_def)
  moreover have "is_str b \<longrightarrow> kstr_at (mm s') (s2buf E) sb"
    using keeps_buf [OF t(4), of "s2buf E" SZ_LINE sb] m1(2,3) assms(6) by (auto simp: cl_ok_def locals_ok_def has_text_def)
  ultimately show ?thesis
    using m1(1) t False by (intro exI [of _ op'] exI [of _ s']) (auto simp: concat1_def cl_simps instk_def only_os_def)
qed

definition concat2 :: "clenv \<Rightarrow> operand \<Rightarrow> operand \<Rightarrow> bool \<Rightarrow> bool \<Rightarrow> unit cl" where
  "concat2 E o1 o2 t1 t2 =
     thenc (memop (strcpy (resbuf E) (v_s o1)))
     (bindc (if \<not> t2 then to_string E o2 else ret o2) (\<lambda>o2.
     if t1 \<and> t2 then memop (strcat (resbuf E) (s2buf E)) else memop (strcat (resbuf E) (v_s o2))))"

lemma string_concat_split:
  "string_concat E o1 o2 typ1 typ2 = bindc (concat1 E o1 o2 (typ1 \<noteq> 3) (typ2 = 3)) (\<lambda>o1. concat2 E o1 o2 (typ1 \<noteq> 3) (typ2 = 3))"
  by (simp add: string_concat_def concat1_def concat2_def)

text \<open>The second operand becomes a string, unless it is one, and is appended to the first in \<open>res\<close>.\<close>

lemma concat2_correct:
  assumes "cl_ok E s as" "kstr_at (mm s) (v_s o1) sa" "instk E (v_s o1) sa" "length sa < SZ_LINE"
    "op_ok o2" "has_text (fl E) b sb" "\<not> is_str b \<longrightarrow> val_of (mm s) o2 b"
    "is_str b \<longrightarrow> (if t1 then kstr_at (mm s) (s2buf E) sb else kstr_at (mm s) (v_s o2) sb \<and> instk E (v_s o2) sb)"
    "topos s + int (aop_cells (AStr sb)) < topcs s"
  shows "\<exists>s'. concat2 E o1 o2 t1 (is_str b) s = Ret () s' \<and> cl_ok E s' as \<and> only_os s s' \<and> topos s' = topos s
    \<and> kstr_at (mm s') (resbuf E) (sa @ sb)"
proof -
  have sb: "length sb < SZ_LINE" and loc: "locals_ok E (mm s)" using assms(1,6) by (auto simp: has_text_def cl_ok_def)
  have ap: "apart (resbuf E) (2 * SZ_LINE) (s2buf E) SZ_LINE" using loc by (simp add: locals_ok_def)
  obtain m1 where m1: "strcpy (resbuf E) (v_s o1) (mm s) = Some m1" "kstr_at m1 (resbuf E) sa"
      "same_outside (resbuf E) (resbuf E + 2 * SZ_LINE) (mm s) m1" "cl_ok E (s\<lparr>mm := m1\<rparr>) as"
    using strcpy_res [OF assms(1-3) res_ok(1) [OF loc]] assms(4) by auto
  let ?s1 = "s\<lparr>mm := m1\<rparr>"
  have len: "length sa + length sb < 2 * SZ_LINE" using assms(4) sb by simp
  have buf1: "buf_ok E m1 (resbuf E) (2 * SZ_LINE)" using m1(4) by (simp add: cl_ok_def locals_ok_def)
  show ?thesis
  proof (cases "is_str b")
    case True
    let ?q = "if t1 then s2buf E else v_s o2"
    have q: "kstr_at (mm s) ?q sb" using assms(8) True by auto
    have away: "?q + length sb < resbuf E \<or> resbuf E + 2 * SZ_LINE \<le> ?q"
    proof (cases t1)
      case True
      then show ?thesis using ap sb by (auto simp: apart_def)
    next
      case False
      then have "instk E ?q sb" using assms(8) \<open>is_str b\<close> by auto
      then show ?thesis using instk_apart [of E ?q sb "resbuf E" "2 * SZ_LINE"] buf1 by (simp add: buf_ok_def)
    qed
    have q1: "kstr_at (mm ?s1) ?q sb" using kstr_at_outside [OF q m1(3)] away by simp
    have r1: "kstr_at (mm ?s1) (resbuf E) sa" using m1(2) by simp
    from strcat_res [OF m1(4) r1 q1 len away] obtain m2 where
      "strcat (resbuf E) ?q m1 = Some m2" "kstr_at m2 (resbuf E) (sa @ sb)" "cl_ok E (s\<lparr>mm := m2\<rparr>) as" by auto
    with True m1(1) show ?thesis
      by (intro exI [of _ "s\<lparr>mm := m2\<rparr>"]) (auto simp: concat2_def cl_simps memop_def only_os_def)
  next
    case False
    have v: "val_of (mm ?s1) o2 b" using val_of_scalar [OF _ False] assms(7) False by blast
    have "topos ?s1 + int (aop_cells (AStr sb)) < topcs ?s1" using assms(9) by simp
    with to_string_correct [of E ?s1 as o2 b sb] m1(4) v assms(5,6) False obtain op' s2 where
      t: "to_string E o2 ?s1 = Ret op' s2" "val_of (mm s2) op' (AStr sb)" "ostack E s2 as" "keeps E m1 (mm s2)"
        "topos s2 = topos s" "only_os ?s1 s2" "instk E (v_s op') sb"
      unfolding cl_ok_def has_text_def instk_def by auto
    have ok2: "cl_ok E s2 as" using m1(4) t(3,4) keeps_bufs keeps_locals by (auto simp: cl_ok_def)
    have r2: "kstr_at (mm s2) (resbuf E) sa" using keeps_buf [OF t(4) buf1 m1(2)] assms(4) by simp
    have q2: "kstr_at (mm s2) (v_s op') sb" using t(2) by simp
    have away: "v_s op' + length sb < resbuf E \<or> resbuf E + 2 * SZ_LINE \<le> v_s op'"
      using instk_apart [OF t(7), of "resbuf E" "2 * SZ_LINE"] buf1 by (simp add: buf_ok_def)
    from strcat_res [OF ok2 r2 q2 len away] obtain m3 where
      "strcat (resbuf E) (v_s op') (mm s2) = Some m3" "kstr_at m3 (resbuf E) (sa @ sb)" "cl_ok E (s2\<lparr>mm := m3\<rparr>) as" by auto
    with False m1(1) t(1,5,6) show ?thesis
      by (intro exI [of _ "s2\<lparr>mm := m3\<rparr>"]) (auto simp: concat2_def cl_simps memop_def only_os_def)
  qed
qed

text \<open>A string in one of the buffers is pushed.\<close>

lemma push_buf_correct:
  assumes "cl_ok E s as" "kstr_at (mm s) p str" "buf_ok E (mm s) p n" "length str < n" "topos s + int (aop_cells (AStr str)) < topcs s"
    "o_type op = OT_STRING"
  shows "\<exists>s'. pushv E (set_v_s p op) s = Ret () s' \<and> cl_ok E s' (AStr str # as) \<and> only_os s s'"
proof -
  let ?op = "set_v_s p op"
  have o: "ostack E s as" "bufs_ok E (mm s)" "locals_ok E (mm s)" using assms(1) by (auto simp: cl_ok_def)
  have out: "outside E p n" using assms(3) by (simp add: buf_ok_def)
  have ok: "op_ok ?op" using assms(6) by (simp add: in_range_def)
  have "p < 2 ^ 63" using assms(2) o(1) by (simp add: kstr_at_def ostack_def lay_ok_def)
  moreover have "set_v_s p ?op = ?op" by (simp add: set_v_s_def)
  ultimately obtain m' where
    m': "pushv E (set_v_s p op) s = Ret () (pushed E s (AStr str) m')" "ostack E (pushed E s (AStr str) m') (AStr str # as)"
      "keeps E (mm s) m'" using push_outside_string [OF o(1,2) assms(2) out assms(4) ok _ _ assms(5)] assms(6) by auto
  with keeps_bufs [OF o(2)] keeps_locals [OF o(3)] show ?thesis
    by (intro exI [of _ "pushed E s (AStr str) m'"]) (auto simp: cl_ok_def only_os_def pushed_def)
qed

lemma push_res_correct:
  assumes "cl_ok E s as" "kstr_at (mm s) (resbuf E) str" "length str < 2 * SZ_LINE" "topos s + int (aop_cells (AStr str)) < topcs s"
  shows "\<exists>s'. push_res E s = Ret () s' \<and> cl_ok E s' (AStr str # as) \<and> only_os s s'"
proof -
  have "buf_ok E (mm s) (resbuf E) (2 * SZ_LINE)" using assms(1) by (simp add: cl_ok_def locals_ok_def)
  from push_buf_correct [OF assms(1,2) this assms(3,4), of "(uninit E)\<lparr>o_type := OT_STRING\<rparr>"] show ?thesis
    by (simp add: push_res_def)
qed

text \<open>
  C33: \<open>binop\<close> concatenates the texts of the two operands, whichever of them are strings, and although
  both the cast of an operand and the result overwrite the space where popped strings lie.
\<close>

theorem binop_concat:
  assumes "cl_ok E s (b # a # as)" "has_text (fl E) a sa" "has_text (fl E) b sb"
    "int (sum_list (map aop_cells as)) + basos s + int (aop_cells (AStr (sa @ sb))) < topcs s"
  shows "\<exists>s'. binop E OP_CONCAT s = Ret () s' \<and> cl_ok E s' (AStr (sa @ sb) # as) \<and> only_os s s'"
proof -
  have os: "ostack E s (b # a # as)" using assms(1) by (simp add: cl_ok_def)
  obtain o1 o2 s1 where p: "binop E OP_CONCAT s = binop_body E OP_CONCAT o1 o2 s1" "ostack E s1 as"
      "val_of (mm s) o1 a" "val_of (mm s) o2 b" "op_ok o1" "op_ok o2"
      "s1 = s\<lparr>topos := topos s - int (aop_cells b) - int (aop_cells a)\<rparr>"
      "\<forall>str. a = AStr str \<longrightarrow> instk E (v_s o1) str" "\<forall>str. b = AStr str \<longrightarrow> instk E (v_s o2) str"
    unfolding binop_def using pop2_instk [OF os] by blast
  have mm1: "mm s1 = mm s" "topcs s1 = topcs s" "basos s1 = basos s" using p(7) by auto
  have ok1: "cl_ok E s1 as" using assms(1) p(2) mm1 by (simp add: cl_ok_def)
  have top: "topos s1 = basos s + int (sum_list (map aop_cells as))" using ostack_height [OF p(2)] mm1 by simp
  have "btoi (length sa + 1) \<le> btoi (length (sa @ sb) + 1)" "btoi (length sb + 1) \<le> btoi (length (sa @ sb) + 1)"
    by (auto simp: btoi_def intro: div_le_mono)
  then have room: "topos s1 + int (aop_cells (AStr sa)) < topcs s1" "topos s1 + int (aop_cells (AStr sb)) < topcs s1"
      "topos s1 + int (aop_cells (AStr (sa @ sb))) < topcs s1"
    using assms(4) top mm1 by auto
  obtain op1 s2 where c1: "concat1 E o1 o2 (\<not> is_str a) (is_str b) s1 = Ret op1 s2" "cl_ok E s2 as" "only_os s1 s2"
      "topos s2 = topos s1" "kstr_at (mm s2) (v_s op1) sa" "instk E (v_s op1) sa"
      "is_str b \<longrightarrow> (if is_str a then kstr_at (mm s2) (v_s o2) sb \<and> instk E (v_s o2) sb else kstr_at (mm s2) (s2buf E) sb)"
    using concat1_correct [OF ok1 _ _ p(5) assms(2,3) p(8,9) room(1)] p(3,4) mm1(1) by auto
  have la: "length sa < SZ_LINE" "length sb < SZ_LINE" using assms(2,3) by (auto simp: has_text_def)
  have src2: "is_str b \<longrightarrow> (if \<not> is_str a then kstr_at (mm s2) (s2buf E) sb else kstr_at (mm s2) (v_s o2) sb \<and> instk E (v_s o2) sb)"
    using c1(7) by auto
  have val2: "\<not> is_str b \<longrightarrow> val_of (mm s2) o2 b" using val_of_scalar [OF p(4)] by blast
  have room2: "topos s2 + int (aop_cells (AStr sb)) < topcs s2" using c1(3,4) room(2) by (simp add: only_os_def)
  obtain s3 where c2: "concat2 E op1 o2 (\<not> is_str a) (is_str b) s2 = Ret () s3" "cl_ok E s3 as" "only_os s2 s3"
      "topos s3 = topos s2" "kstr_at (mm s3) (resbuf E) (sa @ sb)"
    using concat2_correct [OF c1(2,5,6) la(1) p(6) assms(3) val2 src2 room2] by blast
  have t: "OT_BASIC (o_type o1) = 3 \<longleftrightarrow> is_str a" "OT_BASIC (o_type o2) = 3 \<longleftrightarrow> is_str b"
    using has_text_type [OF assms(2) p(3)] has_text_type [OF assms(3) p(4)] by simp_all
  have ni: "\<not> opindef o1" "\<not> opindef o2"
    using val_of_indef [OF p(3)] val_of_indef [OF p(4)] assms(2,3) by (auto simp: has_text_def split: if_splits)
  obtain s4 where c4: "push_res E s3 = Ret () s4" "cl_ok E s4 (AStr (sa @ sb) # as)" "only_os s3 s4"
    using push_res_correct [OF c2(2,5)] la room(3) c1(3,4) c2(3,4) by (auto simp: only_os_def)
  have "binop_body E OP_CONCAT o1 o2 s1 = Ret () s4"
    using c1(1) c2(1) c4(1) ni t
    by (simp add: binop_body_def Let_def check_bool_def check_types_def cl_simps binop_string_def string_concat_split)
  moreover have "only_os s s4" using p(7) c1(3) c2(3) c4(3) by (simp add: only_os_def)
  ultimately show ?thesis using p(1) c4(2) by auto
qed

theorem binop_concat_witness:
  "\<exists>s s'. cl_ok demo_env s [AInt 7, AInt 42] \<and> binop demo_env OP_CONCAT s = Ret () s' \<and> cl_ok demo_env s' [AStr [52, 50, 55]]"
proof -
  obtain s where s: "cl_ok demo_env s [AInt 7, AInt 42]" "topos s = 5" "topcs s = 16"
    using demo_two [of 42 7] by (auto simp: in_range_def)
  have "basos s = - 1" using ostack_height s by (fastforce simp: cl_ok_def)
  moreover have "has_text (fl demo_env) (AInt 42) [52, 50]" "has_text (fl demo_env) (AInt 7) [55]"
    by (simp_all add: has_text_def fmt_d_def dec_digits.simps)
  ultimately show ?thesis using binop_concat [OF s(1), of "[52, 50]" "[55]"] s by (auto simp: btoi_def)
qed

end
