(* ===== verification/Cl_Search.thy ===== *)
theory Cl_Search
  imports Cl_Strings
begin

text \<open>
  The string searches of \<open>binop\<close>, and the relations of \<open>binexp\<close> on strings.
\<close>

subsection \<open>Sets of characters\<close>

lemma char_in_correct: "kstr_at m p cs \<Longrightarrow> ch \<noteq> 0 \<Longrightarrow> char_in p ch m = Some (ch \<in> set cs)"
proof (induction cs arbitrary: p)
  case Nil
  then show ?case by (subst char_in.simps) simp
next
  case (Cons c cs)
  then have "char_in (p + 1) ch m = Some (ch \<in> set cs)" by simp
  with Cons.prems show ?case by (subst char_in.simps) auto
qed

text \<open>The index, from one, of the first character that satisfies a predicate; zero if there is none.\<close>

fun first_index :: "('a \<Rightarrow> bool) \<Rightarrow> 'a list \<Rightarrow> nat" where
  "first_index P [] = 0"
| "first_index P (x # xs) = (if P x then 1 else if first_index P xs = 0 then 0 else Suc (first_index P xs))"

definition last_index :: "('a \<Rightarrow> bool) \<Rightarrow> 'a list \<Rightarrow> nat" where
  "last_index P xs = (if first_index P (rev xs) = 0 then 0 else length xs + 1 - first_index P (rev xs))"

lemma first_index_bound: "first_index P xs \<le> length xs"
  by (induction xs) auto

lemma last_index_snoc: "last_index P (xs @ [x]) = (if P x then length xs + 1 else last_index P xs)"
  using first_index_bound [of P "rev xs"] by (auto simp: last_index_def)

lemma stridx_loop_correct:
  "kstr_at m s1 cs \<Longrightarrow> kstr_at m ip str \<Longrightarrow> s2 \<le> ip \<Longrightarrow>
   stridx_loop s1 s2 ip m = Some (let i = first_index (\<lambda>c. c \<in> set cs) str in if i = 0 then 0 else int i + int ip - int s2)"
proof (induction str arbitrary: ip)
  case Nil
  then show ?case by (subst stridx_loop.simps) simp
next
  case (Cons c str)
  let ?i = "first_index (\<lambda>c. c \<in> set cs) str"
  have "stridx_loop s1 s2 (Suc ip) m = Some (let i = ?i in if i = 0 then 0 else int i + int (Suc ip) - int s2)"
    using Cons.IH [of "Suc ip"] Cons.prems by simp
  moreover have "char_in s1 c m = Some (c \<in> set cs)" using Cons.prems by (intro char_in_correct) auto
  ultimately show ?case using Cons.prems by (subst stridx_loop.simps) (auto simp: Let_def)
qed

lemma kstr_nth: "kstr_at m p str \<Longrightarrow> i < length str \<Longrightarrow> p + i < length m \<and> m ! (p + i) = str ! i \<and> str ! i \<noteq> 0"
proof (induction str arbitrary: p i)
  case (Cons c str)
  show ?case
  proof (cases i)
    case 0
    with Cons.prems show ?thesis by simp
  next
    case (Suc j)
    with Cons.prems Cons.IH [of "Suc p" j] show ?thesis by simp
  qed
qed simp

lemma strldx_loop_correct:
  assumes "kstr_at m s1 cs" "kstr_at m s2 str" "0 < s2" "k \<le> length str"
  shows "strldx_loop s1 s2 (s2 + k) m = Some (int (last_index (\<lambda>c. c \<in> set cs) (take k str)))"
  using assms(4)
proof (induction k)
  case 0
  obtain q where q: "s2 = Suc q" using assms(3) by (cases s2) auto
  have "q < length m" using assms(2) q by (simp add: kstr_at_def)
  then show ?case using q by (simp add: last_index_def)
next
  case (Suc k)
  then have c: "s2 + k < length m" "m ! (s2 + k) = str ! k" "str ! k \<noteq> 0" using kstr_nth [OF assms(2), of k] by auto
  have "char_in s1 (str ! k) m = Some (str ! k \<in> set cs)" using assms(1) c(3) by (rule char_in_correct)
  moreover have "take (Suc k) str = take k str @ [str ! k]" using Suc.prems by (simp add: take_Suc_conv_app_nth)
  ultimately show ?case using Suc c by (simp add: last_index_snoc min_absorb2)
qed

text \<open>
  \<open>stridx\<close> gives the index of the first, \<open>strldx\<close> of the last character of a string that is in a set,
  or zero.
\<close>

theorem stridx_strldx_correct:
  assumes "kstr_at m s1 cs" "kstr_at m s2 str" "0 < s2"
  shows "stridx s1 s2 m = Some (int (first_index (\<lambda>c. c \<in> set cs) str))
    \<and> strldx s1 s2 m = Some (int (last_index (\<lambda>c. c \<in> set cs) str))"
proof
  show "stridx s1 s2 m = Some (int (first_index (\<lambda>c. c \<in> set cs) str))"
    using stridx_loop_correct [OF assms(1,2), of s2] by (simp add: stridx_def Let_def)
  show "strldx s1 s2 m = Some (int (last_index (\<lambda>c. c \<in> set cs) str))"
    using strldx_loop_correct [OF assms, of "length str"] strlen_correct [OF assms(2)] by (simp add: strldx_def)
qed

theorem stridx_strldx_correct_witness:
  "stridx 5 1 [0, 65, 66, 65, 0, 65, 67, 0] = Some (int (first_index (\<lambda>c. c \<in> set [65, 67]) [65, 66, 65 :: byte]))
   \<and> strldx 5 1 [0, 65, 66, 65, 0, 65, 67, 0] = Some (int (last_index (\<lambda>c. c \<in> set [65, 67]) [65, 66, 65 :: byte]))"
  by (rule stridx_strldx_correct) simp_all

subsection \<open>Substrings\<close>

definition occurs :: "byte list \<Rightarrow> byte list \<Rightarrow> nat \<Rightarrow> bool" where
  "occurs pat str i \<longleftrightarrow> take (length pat) (drop i str) = pat"

lemma match_run_correct:
  "kstr_at m cp pat \<Longrightarrow> kstr_at m ip str \<Longrightarrow>
   \<exists>cp' ip'. match_run cp ip m = Some (cp', ip') \<and> cp' < length m \<and> (m ! cp' = 0 \<longleftrightarrow> take (length pat) str = pat)"
proof (induction pat arbitrary: cp ip str)
  case Nil
  then show ?case by (subst match_run.simps) auto
next
  case (Cons c pat)
  show ?case
  proof (cases str)
    case Nil
    with Cons.prems show ?thesis by (subst match_run.simps) auto
  next
    case str: (Cons d str')
    show ?thesis
    proof (cases "c = d")
      case True
      then obtain cp' ip' where "match_run (cp + 1) (ip + 1) m = Some (cp', ip')" "cp' < length m"
        "m ! cp' = 0 \<longleftrightarrow> take (length pat) str' = pat"
        using Cons.IH [of "cp + 1" "ip + 1" str'] Cons.prems str by auto
      with Cons.prems str True show ?thesis by (subst match_run.simps) auto
    next
      case False
      with Cons.prems str show ?thesis by (subst match_run.simps) auto
    qed
  qed
qed

lemma kstr_at_drop_nth: "kstr_at m p str \<Longrightarrow> k \<le> length str \<Longrightarrow> kstr_at m (p + k) (drop k str)"
  using kstr_at_drop [of m p "take k str" "drop k str"] by simp

lemma strlstr_loop_correct:
  assumes "kstr_at m s1 pat" "pat \<noteq> []" "kstr_at m s2 str" "0 < s2" "k \<le> length str"
  shows "\<exists>r. strlstr_loop s1 s2 (hd pat) (s2 + k) m = Some r
    \<and> (r = 0 \<and> (\<forall>j < k. \<not> occurs pat str j) \<or> (\<exists>i < k. r = int i + 1 \<and> occurs pat str i \<and> (\<forall>j. i < j \<and> j < k \<longrightarrow> \<not> occurs pat str j)))"
  using assms(5)
proof (induction k)
  case 0
  obtain q where q: "s2 = Suc q" using assms(4) by (cases s2) auto
  have "q < length m" using assms(3) q by (simp add: kstr_at_def)
  then show ?case using q by simp
next
  case (Suc k)
  have c: "s2 + k < length m" "m ! (s2 + k) = str ! k" "str ! k \<noteq> 0" using kstr_nth [OF assms(3), of k] Suc.prems by auto
  obtain r where r: "strlstr_loop s1 s2 (hd pat) (s2 + k) m = Some r"
    "r = 0 \<and> (\<forall>j < k. \<not> occurs pat str j) \<or> (\<exists>i < k. r = int i + 1 \<and> occurs pat str i \<and> (\<forall>j. i < j \<and> j < k \<longrightarrow> \<not> occurs pat str j))"
    using Suc by auto
  have hd_occ: "occurs pat str k \<Longrightarrow> str ! k = hd pat"
    using assms(2) Suc.prems by (cases pat) (auto simp: occurs_def Cons_nth_drop_Suc [symmetric])
  show ?case
  proof (cases "str ! k = hd pat \<and> occurs pat str k")
    case True
    obtain cp' ip' where m': "match_run s1 (s2 + k) m = Some (cp', ip')" "cp' < length m" "m ! cp' = 0"
      using match_run_correct [OF assms(1) kstr_at_drop_nth [OF assms(3), of k]] True Suc.prems
      by (auto simp: occurs_def)
    have "strlstr_loop s1 s2 (hd pat) (s2 + Suc k) m = Some (int k + 1)"
      using c True m' by simp
    with True show ?thesis by (intro exI [of _ "int k + 1"]) (auto simp: less_Suc_eq)
  next
    case False
    then have no: "\<not> occurs pat str k" using hd_occ by blast
    obtain cp' ip' where m': "match_run s1 (s2 + k) m = Some (cp', ip')" "cp' < length m" "m ! cp' \<noteq> 0"
      using match_run_correct [OF assms(1) kstr_at_drop_nth [OF assms(3), of k]] no Suc.prems
      by (auto simp: occurs_def)
    have "strlstr_loop s1 s2 (hd pat) (s2 + Suc k) m = Some r"
      using c m' r(1) by simp
    with no r(2) show ?thesis by (intro exI [of _ r]) (auto simp: less_Suc_eq)
  qed
qed

text \<open>
  \<open>strlstr\<close> gives the index of the last occurrence of a pattern, or zero if there is none.
\<close>

theorem strlstr_correct:
  assumes "kstr_at m s1 pat" "pat \<noteq> []" "kstr_at m s2 str" "0 < s2"
  shows "\<exists>r. strlstr s1 s2 m = Some r
    \<and> (r = 0 \<and> (\<forall>j < length str. \<not> occurs pat str j)
       \<or> (\<exists>i < length str. r = int i + 1 \<and> occurs pat str i \<and> (\<forall>j. i < j \<and> j < length str \<longrightarrow> \<not> occurs pat str j)))"
proof -
  have "rd m s1 = Some (hd pat)" "hd pat \<noteq> 0" using assms(1,2) by (cases pat; auto)+
  then have "strlstr s1 s2 m = strlstr_loop s1 s2 (hd pat) (s2 + length str) m"
    using strlen_correct [OF assms(3)] by (simp add: strlstr_def)
  with strlstr_loop_correct [OF assms, of "length str"] show ?thesis by simp
qed

theorem strlstr_correct_witness:
  "\<exists>r. strlstr 5 1 [0, 65, 66, 65, 0, 65, 0] = Some r
    \<and> (r = 0 \<and> (\<forall>j < length [65, 66, 65 :: byte]. \<not> occurs [65] [65, 66, 65] j)
       \<or> (\<exists>i < length [65, 66, 65 :: byte]. r = int i + 1 \<and> occurs [65] [65, 66, 65] i
            \<and> (\<forall>j. i < j \<and> j < length [65, 66, 65 :: byte] \<longrightarrow> \<not> occurs [65] [65, 66, 65] j)))"
  by (rule strlstr_correct) simp_all

text \<open>What \<open>match_run\<close> went over is the same in both places.\<close>

lemma match_run_end:
  assumes "match_run cp ip m = Some (cp', ip')" "rd m cp' = Some 0" "kstr_at m cp pat" "ip \<le> length m"
  shows "ip + length pat \<le> length m \<and> (\<forall>j < length pat. m ! (ip + j) = pat ! j)"
  using assms
proof (induction pat arbitrary: cp ip)
  case Nil
  then show ?case
    by (subst (asm) match_run.simps) (auto split: option.splits if_splits)
next
  case (Cons c pat)
  show ?case
  proof (cases "rd m ip = Some c")
    case True
    with Cons.prems have "match_run (Suc cp) (Suc ip) m = Some (cp', ip')" by (subst (asm) match_run.simps) simp
    moreover have len: "ip < length m" and c: "m ! ip = c" using True by (auto dest: rd_SomeD)
    ultimately have ih: "Suc ip + length pat \<le> length m" "\<forall>j < length pat. m ! (Suc ip + j) = pat ! j"
      using Cons.IH [of "Suc cp" "Suc ip"] Cons.prems by auto
    have "m ! (ip + j) = (c # pat) ! j" if "j < length (c # pat)" for j
      using that ih(2) c by (cases j) auto
    with ih(1) show ?thesis by simp
  next
    case False
    with Cons.prems have "cp' = cp" by (subst (asm) match_run.simps) (auto split: option.splits if_splits)
    with Cons.prems show ?thesis by simp
  qed
qed

lemma strstr_loop_sound:
  assumes "kstr_at m s1 pat"
  shows "strstr_loop s1 s2 fc ip m = Some r \<Longrightarrow> r \<noteq> 0 \<Longrightarrow>
     \<exists>k. ip \<le> k \<and> r = int k - int s2 + 1 \<and> k + length pat \<le> length m \<and> (\<forall>j < length pat. m ! (k + j) = pat ! j)"
  using assms
proof (induction s1 s2 fc ip m rule: strstr_loop.induct)
  case (1 s1 s2 fc ip m)
  obtain ch where ch: "rd m ip = Some ch" "ch \<noteq> 0"
    using "1.prems" by (subst (asm) strstr_loop.simps) (auto split: option.splits if_splits)
  show ?case
  proof (cases "ch = fc")
    case False
    with "1.prems"(1) ch have "strstr_loop s1 s2 fc (ip + 1) m = Some r" by (subst (asm) strstr_loop.simps) simp
    from "1.IH"(2) [OF ch False this "1.prems"(2,3)] show ?thesis by (auto simp: Suc_le_eq)
  next
    case True
    obtain cp ip' c where m': "match_run s1 ip m = Some (cp, ip')" "rd m cp = Some c"
      using "1.prems"(1) ch True by (subst (asm) strstr_loop.simps) (auto split: option.splits)
    show ?thesis
    proof (cases "c = 0")
      case True
      with "1.prems"(1) ch \<open>ch = fc\<close> m' have "r = int ip - int s2 + 1" by (subst (asm) strstr_loop.simps) simp
      with match_run_end [OF m'(1) _ "1.prems"(3)] m'(2) True ch show ?thesis by (intro exI [of _ ip]) (auto dest: rd_SomeD)
    next
      case False
      with "1.prems"(1) ch \<open>ch = fc\<close> m' have "strstr_loop s1 s2 fc (ip' + 1) m = Some r"
        by (subst (asm) strstr_loop.simps) simp
      moreover have "ip \<le> ip'" using match_run_mono [OF m'(1)] by simp
      ultimately show ?thesis
        using "1.IH"(1) [OF ch \<open>ch = fc\<close> m'(1) refl m'(2) False _ "1.prems"(2,3)] by fastforce
    qed
  qed
qed

text \<open>
  where \<open>strstr\<close> says that the pattern is, it is.
\<close>

theorem strstr_sound:
  assumes "kstr_at m s1 pat" "pat \<noteq> []" "strstr s1 s2 m = Some r" "r \<noteq> 0"
  shows "\<exists>k. r = int k + 1 \<and> s2 + k + length pat \<le> length m \<and> (\<forall>j < length pat. m ! (s2 + k + j) = pat ! j)"
proof -
  have "rd m s1 = Some (hd pat)" "hd pat \<noteq> 0" using assms(1,2) by (cases pat; auto)+
  then have "strstr_loop s1 s2 (hd pat) s2 m = Some r" using assms(3) by (simp add: strstr_def)
  from strstr_loop_sound [OF assms(1) this assms(4)] obtain k where
    "s2 \<le> k" "r = int k - int s2 + 1" "k + length pat \<le> length m" "\<forall>j < length pat. m ! (k + j) = pat ! j" by blast
  then show ?thesis by (intro exI [of _ "k - s2"]) auto
qed

theorem strstr_sound_witness:
  "\<exists>k. (2 :: int) = int k + 1 \<and> 1 + k + length [66 :: byte] \<le> length [0, 65, 66, 0, 66, 0 :: byte]
     \<and> (\<forall>j < length [66 :: byte]. [0, 65, 66, 0, 66, 0 :: byte] ! (1 + k + j) = [66] ! j)"
  by (rule strstr_sound [of _ 4]) (simp_all add: strstr_def strstr_loop.simps match_run.simps)

text \<open>
  but \<open>strstr\<close> does not go back after a partial match: it finds no \<open>ab\<close> in \<open>aab\<close>, where
  \<open>strlstr\<close> finds it; and a partial match at the end of the string takes it past that end, so that it
  finds \<open>b\<close> of the string behind, and faults if there is none.
\<close>

theorem strstr_misses:
  "strstr 5 1 [0, 97, 97, 98, 0, 97, 98, 0] = Some 0
   \<and> strlstr 5 1 [0, 97, 97, 98, 0, 97, 98, 0] = Some 2
   \<and> occurs [97, 98] [97, 97, 98] 1
   \<and> strstr 3 0 [98, 97, 0, 97, 98, 0] = Some 4
   \<and> strstr 1 5 [0, 97, 98, 0, 0, 97, 0] = None"
  by code_simp

end
