(* ===== verification/Cl_Unop.thy ===== *)
theory Cl_Unop
  imports Cl_Search
begin

text \<open>
  \<open>pkg/cl/unop.c\<close>: the unary operations on the operand on top of the stack.  What they ask the rest of
  the system about a name (whether a file, task, package, parameter or variable is there, the value of
  a variable, the name of a file on the host) is a parameter, and so are the number of items of the last
  scan and whether abbreviations are enabled.
\<close>

abbreviation OP_ABS :: int where "OP_ABS \<equiv> 1"
abbreviation OP_ACCESS :: int where "OP_ACCESS \<equiv> 2"
abbreviation OP_COS :: int where "OP_COS \<equiv> 3"
abbreviation OP_DEFTASK :: int where "OP_DEFTASK \<equiv> 4"
abbreviation OP_DEFPAR :: int where "OP_DEFPAR \<equiv> 5"
abbreviation OP_DEFPAC :: int where "OP_DEFPAC \<equiv> 6"
abbreviation OP_DEFVAR :: int where "OP_DEFVAR \<equiv> 7"
abbreviation OP_ENVGET :: int where "OP_ENVGET \<equiv> 8"
abbreviation OP_EXP :: int where "OP_EXP \<equiv> 9"
abbreviation OP_FRAC :: int where "OP_FRAC \<equiv> 10"
abbreviation OP_IMACCESS :: int where "OP_IMACCESS \<equiv> 11"
abbreviation OP_INT :: int where "OP_INT \<equiv> 12"
abbreviation OP_LOG :: int where "OP_LOG \<equiv> 13"
abbreviation OP_LOG10 :: int where "OP_LOG10 \<equiv> 14"
abbreviation OP_NSCAN :: int where "OP_NSCAN \<equiv> 15"
abbreviation OP_MINUS :: int where "OP_MINUS \<equiv> 16"
abbreviation OP_MKTEMP :: int where "OP_MKTEMP \<equiv> 17"
abbreviation OP_NINT :: int where "OP_NINT \<equiv> 18"
abbreviation OP_OSFN :: int where "OP_OSFN \<equiv> 19"
abbreviation OP_REAL :: int where "OP_REAL \<equiv> 20"
abbreviation OP_SIN :: int where "OP_SIN \<equiv> 21"
abbreviation OP_SQRT :: int where "OP_SQRT \<equiv> 22"
abbreviation OP_STR :: int where "OP_STR \<equiv> 23"
abbreviation OP_SUBSTR :: int where "OP_SUBSTR \<equiv> 24"
abbreviation OP_TAN :: int where "OP_TAN \<equiv> 25"
abbreviation OP_STRLEN :: int where "OP_STRLEN \<equiv> 26"
abbreviation OP_ISINDEF :: int where "OP_ISINDEF \<equiv> 27"
abbreviation OP_STRLWR :: int where "OP_STRLWR \<equiv> 28"
abbreviation OP_STRUPR :: int where "OP_STRUPR \<equiv> 29"

abbreviation OP_NOT :: int where "OP_NOT \<equiv> 3"

abbreviation MAX_LONG :: int where "MAX_LONG \<equiv> 2147483647"
abbreviation INDEFL :: int where "INDEFL \<equiv> 2147483649"
abbreviation SZ_PATHNAME :: nat where "SZ_PATHNAME \<equiv> 511"

record sysenv =
  q_test :: "int \<Rightarrow> byte list \<Rightarrow> int"
  q_name :: "int \<Rightarrow> byte list \<Rightarrow> byte list option"
  q_nscan :: int
  q_abbrev :: bool

text \<open>The characters of the C library, for \<open>char\<close> arguments in the C locale.\<close>

definition c_tolower :: "byte \<Rightarrow> byte" where
  "c_tolower c = (if 65 \<le> sint c \<and> sint c \<le> 90 then c + 32 else c)"

definition c_toupper :: "byte \<Rightarrow> byte" where
  "c_toupper c = (if 97 \<le> sint c \<and> sint c \<le> 122 then c - 32 else c)"

text \<open>A copy with every character changed, ended by EOS.\<close>

function map_str :: "(byte \<Rightarrow> byte) \<Rightarrow> nat \<Rightarrow> nat \<Rightarrow> mem \<Rightarrow> mem option" where
  "map_str f to src m = (case rd m src of None \<Rightarrow> None
     | Some ch \<Rightarrow> if ch = 0 then wr m to 0
         else (case wr m to (f ch) of None \<Rightarrow> None | Some m' \<Rightarrow> map_str f (to + 1) (src + 1) m'))"
  by pat_completeness auto
termination
  by (relation "measure (\<lambda>(f, to, src, m). length m - src)") (auto dest!: rd_SomeD wr_SomeD)

declare map_str.simps [simp del]

text \<open>The three variables one of which holds the result: \<open>iresult\<close>, \<open>rresult\<close>, \<open>sresult\<close>.\<close>

datatype uval = Iresult int | Rresult int | Sresult nat

subsection \<open>\<open>unop\<close>: the type of the result\<close>

definition real_opcodes :: "int set" where
  "real_opcodes = {OP_COS, OP_EXP, OP_LOG, OP_LOG10, OP_SIN, OP_SQRT, OP_REAL, OP_TAN, OP_FRAC}"

definition test_opcodes :: "int set" where
  "test_opcodes = {OP_ACCESS, OP_IMACCESS, OP_DEFPAC, OP_DEFPAR, OP_DEFVAR, OP_DEFTASK}"

definition name_opcodes :: "int set" where
  "name_opcodes = {OP_ENVGET, OP_MKTEMP, OP_OSFN}"

definition unop_type :: "int \<Rightarrow> int \<Rightarrow> operand \<Rightarrow> int cl" where
  "unop_type opcode in_type o1 =
     (if opcode \<in> {OP_ABS, OP_MINUS, OP_INT, OP_NINT} \<union> real_opcodes then
        (if in_type = OT_STRING \<and> opcode \<noteq> OP_INT \<and> opcode \<noteq> OP_REAL then badstrop o1
         else ret (if opcode \<in> {OP_ABS, OP_MINUS} then in_type
                   else if opcode \<in> {OP_INT, OP_NINT} then OT_INT else OT_REAL))
      else if opcode \<in> {OP_STRLEN, OP_STRLWR, OP_STRUPR} \<union> test_opcodes \<union> name_opcodes then
        (if in_type \<noteq> OT_STRING then cl_error (E_UERR (Msg ''operand must be of type string''))
         else ret (if opcode = OP_STRLEN then OT_INT else if opcode \<in> test_opcodes then OT_BOOL else OT_STRING))
      else if opcode = OP_STR then ret OT_STRING
      else if opcode = OP_ISINDEF then ret OT_BOOL
      else cl_error (E_IERR (Badsw opcode)))"

text \<open>The values \<open>ival\<close> and \<open>rval\<close> of the operand.\<close>

definition unop_input :: "clenv \<Rightarrow> int \<Rightarrow> int \<Rightarrow> operand \<Rightarrow> (int \<times> int) cl" where
  "unop_input E opcode in_type o1 =
     (let zero = f_of_int (fl E) 0; big = f_of_int (fl E) MAX_LONG in
      if in_type = OT_BOOL then
        (if opcode = OP_STR then ret (v_i o1, zero)
         else if opcode = OP_MINUS then cl_error (E_UERR (Msg ''Arithmetic negation of a boolean operand''))
         else if opcode \<noteq> OP_ISINDEF then
           cl_error (E_UERR (Msg ''Intrinsic function called with illegal boolean argument''))
         else ret (0, zero))
      else if in_type = OT_INT then ret (v_i o1, f_of_int (fl E) (v_i o1))
      else if in_type = OT_REAL then
        (let rval = v_r o1 in
         ret (if f_lt (fl E) big rval \<or> f_lt (fl E) big (f_neg (fl E) rval) then INDEFL
              else to_long (f_to_long (fl E) rval), rval))
      else if in_type = OT_STRING then ret (0, zero)
      else cl_error (E_IERR (Badsw opcode)))"

subsection \<open>\<open>unop\<close>: the operations\<close>

definition lit_INDEF :: "byte list" where
  "lit_INDEF = [73, 78, 68, 69, 70]"

definition op_frac :: "fops \<Rightarrow> int \<Rightarrow> int" where
  "op_frac F rval =
     (let whole = (\<lambda>x. f_of_int F (to_int (f_to_int F x))) in
      if f_lt F rval (f_of_int F 0) then
        let r = f_neg F rval in f_neg F (f_sub F r (whole r))
      else f_sub F rval (whole rval))"

text \<open>A function of the mathematical library, after the test of its argument.\<close>

definition op_math :: "clenv \<Rightarrow> int \<Rightarrow> int \<Rightarrow> uval cl" where
  "op_math E opcode rval =
     (let zero = f_of_int (fl E) 0 in
      if opcode = OP_LOG \<and> f_le (fl E) rval zero then cl_error (E_UERR (Msg ''log of a negative or zero argument''))
      else if opcode = OP_LOG10 \<and> f_le (fl E) rval zero then
        cl_error (E_UERR (Msg ''log10 of a negative or zero argument''))
      else if opcode = OP_SQRT \<and> f_lt (fl E) rval zero then cl_error (E_UERR (Msg ''sqrt of a negative number''))
      else ret (Rresult (f_math (fl E) opcode rval)))"

text \<open>
  The operations on a string.  The local arrays \<open>fname\<close> and \<open>sbuf\<close> are the one buffer \<open>sbuf\<close>, and so is
  the place where \<open>envget\<close> leaves the value that it finds; one operation uses one of them.
\<close>

definition op_on_string :: "clenv \<Rightarrow> sysenv \<Rightarrow> int \<Rightarrow> operand \<Rightarrow> uval cl" where
  "op_on_string E Q opcode o1 =
     (if opcode \<in> test_opcodes then
        bindc (memget (cstr_of (v_s o1))) (\<lambda>str. ret (Iresult (q_test Q opcode str)))
      else if opcode \<in> name_opcodes then
        bindc (memget (cstr_of (v_s o1))) (\<lambda>str.
        case q_name Q opcode str of
          None \<Rightarrow> cl_error (E_UERR (Msg ''Environment variable not found''))
        | Some name \<Rightarrow> thenc (memop (put_str (sbuf E) (take SZ_PATHNAME name))) (ret (Sresult (sbuf E))))
      else if opcode = OP_STRLEN then bindc (memget (strlen (v_s o1))) (\<lambda>n. ret (Iresult n))
      else
        thenc (memop (map_str (if opcode = OP_STRLWR then c_tolower else c_toupper) (sbuf E) (v_s o1)))
        (ret (Sresult (sbuf E))))"

definition coerce_string :: "clenv \<Rightarrow> bool \<Rightarrow> operand \<Rightarrow> uval cl" where
  "coerce_string E real o1 =
     bindc (memget (cstr_of (v_s o1))) (\<lambda>str.
     if real then
       (case scan_lf E str of Some x \<Rightarrow> ret (Rresult x) | None \<Rightarrow> cl_error (E_UERR (Msg ''Cannot coerce string to real'')))
     else
       (case scan_ld E str of Some x \<Rightarrow> ret (Iresult x) | None \<Rightarrow> cl_error (E_UERR (Msg ''Cannot coerce string to int''))))"

definition unop_value :: "clenv \<Rightarrow> sysenv \<Rightarrow> int \<Rightarrow> int \<Rightarrow> operand \<Rightarrow> int \<Rightarrow> int \<Rightarrow> uval cl" where
  "unop_value E Q opcode in_type o1 ival rval =
     (let F = fl E; zero = f_of_int F 0 in
      if opcode = OP_ABS then
        ret (if in_type = OT_REAL then Rresult (if f_lt F rval zero then f_neg F rval else rval)
             else Iresult (if ival < 0 then - ival else ival))
      else if opcode = OP_MINUS then
        ret (if in_type = OT_REAL then Rresult (f_neg F rval) else Iresult (- ival))
      else if opcode = OP_INT then
        (if in_type = OT_STRING then coerce_string E False o1 else ret (Iresult ival))
      else if opcode = OP_REAL then
        (if in_type = OT_STRING then coerce_string E True o1 else ret (Rresult rval))
      else if opcode = OP_NINT then
        ret (Iresult (if in_type = OT_REAL then f_nint F rval else ival))
      else if opcode = OP_FRAC then ret (Rresult (op_frac F rval))
      else if opcode \<in> real_opcodes then op_math E opcode rval
      else if opcode = OP_ISINDEF then
        (if in_type = OT_STRING then
           bindc (memget (cstr_of (v_s o1))) (\<lambda>str. ret (Iresult (if str = lit_INDEF then 1 else 0)))
         else ret (Iresult (if opindef o1 then 1 else 0)))
      else if opcode = OP_STR then bindc (to_string E o1) (\<lambda>o2. ret (Sresult (v_s o2)))
      else op_on_string E Q opcode o1)"

definition unop_result :: "clenv \<Rightarrow> int \<Rightarrow> uval \<Rightarrow> operand cl" where
  "unop_result E out_type v =
     (let result = (uninit E)\<lparr>o_type := out_type\<rparr> in
      case v of
        Iresult x \<Rightarrow> if out_type = OT_BOOL \<or> out_type = OT_INT then ret (set_v_i (to_int x) result) else crash
      | Rresult x \<Rightarrow> if out_type = OT_REAL then ret (set_v_r x result) else crash
      | Sresult p \<Rightarrow> if out_type = OT_STRING then ret (set_v_s p result) else crash)"

definition unop_body :: "clenv \<Rightarrow> sysenv \<Rightarrow> int \<Rightarrow> operand \<Rightarrow> unit cl" where
  "unop_body E Q opcode o1 =
     (if opindef o1 \<and> opcode \<noteq> OP_ISINDEF then pushv E (setopindef ((uninit E)\<lparr>o_type := OT_INT\<rparr>))
      else
        let in_type = (if opindef o1 then OT_BOOL else o_type o1) in
        bindc (unop_type opcode in_type o1) (\<lambda>out_type.
        bindc (unop_input E opcode in_type o1) (\<lambda>(ival, rval).
        bindc (unop_value E Q opcode in_type o1 ival rval) (\<lambda>v.
        bindc (unop_result E out_type v) (pushv E)))))"

definition unop :: "clenv \<Rightarrow> sysenv \<Rightarrow> int \<Rightarrow> unit cl" where
  "unop E Q opcode = bindc (popop E) (unop_body E Q opcode)"

subsection \<open>\<open>unexp\<close>\<close>

definition unexp_body :: "clenv \<Rightarrow> int \<Rightarrow> operand \<Rightarrow> unit cl" where
  "unexp_body E opcode o1 =
     (let result = (uninit E)\<lparr>o_type := OT_BOOL\<rparr> in
      if opindef o1 then pushv E (setopindef result)
      else if opcode = OP_NOT then
        (if o_type o1 \<noteq> OT_BOOL then cl_error (E_UERR (Msg ''Boolean negation of a non-boolean operand''))
         else pushv E (set_v_i (if v_i o1 = 0 then 1 else 0) result))
      else cl_error (E_IERR (Badsw opcode)))"

definition unexp :: "clenv \<Rightarrow> int \<Rightarrow> unit cl" where
  "unexp E opcode = bindc (popop E) (unexp_body E opcode)"

end
