(* ===== verification/Cl_Unary.thy ===== *)
theory Cl_Unary
  imports Cl_Unop
begin

text \<open>
  What \<open>unop\<close> and \<open>unexp\<close> do to the value on top of the operand stack.
\<close>

text \<open>An operation that pops an operand and pushes a scalar.\<close>

lemma pop1_push:
  assumes "ostack E s (a # as)" "\<not> is_str c"
    "\<And>op s'. val_of (mm s) op a \<Longrightarrow> op_ok op \<Longrightarrow> mm s' = mm s \<Longrightarrow>
       \<exists>r. k op s' = pushv E r s' \<and> op_ok r \<and> val_of (mm s) r c"
  shows "\<exists>s'. bindc (popop E) k s = Ret () s' \<and> ostack E s' (c # as) \<and> os_step E s s'"
proof -
  obtain op where p: "popop E s = Ret op (s\<lparr>topos := topos s - int (aop_cells a)\<rparr>)" "val_of (mm s) op a" "op_ok op"
    "ostack E (s\<lparr>topos := topos s - int (aop_cells a)\<rparr>) as" using opst.pop [OF assms(1)] by blast
  let ?s = "s\<lparr>topos := topos s - int (aop_cells a)\<rparr>"
  obtain r where r: "k op ?s = pushv E r ?s" "op_ok r" "val_of (mm ?s) r c"
    using assms(3) [OF p(2,3), of ?s] by auto
  have "topos ?s + int (aop_cells c) < topcs ?s" "src_ok E ?s r c"
    using ostack_room [OF assms(1)] aop_cells_ge [of a] assms(2) by (auto simp: aop_cells_scalar src_ok_def is_str_def)
  from pushv_step [OF p(4) r(3,2) this(2,1)] obtain m' where
    "pushv E r ?s = Ret () (pushed E ?s c m')" "ostack E (pushed E ?s c m') (c # as)" "os_step E ?s (pushed E ?s c m')"
    by blast
  with p(1) r(1) show ?thesis by (intro exI [of _ "pushed E ?s c m'"]) (simp add: cl_simps)
qed

text \<open>
  every unary operation but \<open>isindef\<close> leaves an indefinite integer in place of an indefinite
  operand; \<open>isindef\<close> tells the two apart.
\<close>

theorem unop_indef:
  assumes "ostack E s (AIndef t # as)" "bufs_ok E (mm s)"
  shows "\<exists>s'. unop E Q opcode s = Ret () s' \<and> os_step E s s'
    \<and> ostack E s' ((if opcode = OP_ISINDEF then ABool 1 else AIndef 5) # as)"
proof -
  let ?c = "if opcode = OP_ISINDEF then ABool 1 else AIndef 5"
  have "\<exists>s'. bindc (popop E) (unop_body E Q opcode) s = Ret () s' \<and> ostack E s' (?c # as) \<and> os_step E s s'"
  proof (rule pop1_push [OF assms(1)])
    fix op s'
    assume v: "val_of (mm s) op (AIndef t)" and ok: "op_ok op"
    then have i: "opindef op" using val_of_indef by blast
    show "\<exists>r. unop_body E Q opcode op s' = pushv E r s' \<and> op_ok r \<and> val_of (mm s) r ?c"
    proof (cases "opcode = OP_ISINDEF")
      case True
      let ?r = "set_v_i 1 ((uninit E)\<lparr>o_type := OT_BOOL\<rparr>)"
      have "unop_body E Q opcode op s' = pushv E ?r s'"
        using True i by (simp add: unop_body_def unop_type_def unop_input_def unop_value_def unop_result_def
            cl_simps Let_def real_opcodes_def test_opcodes_def name_opcodes_def)
      moreover have "op_ok ?r \<and> val_of (mm s) ?r (ABool 1)"
        using bool_result_ok [OF assms(2), of True "mm s"] by (simp add: bool_result_def)
      ultimately show ?thesis using True by auto
    next
      case False
      let ?u = "(uninit E)\<lparr>o_type := OT_INT\<rparr>"
      have "op_ok (setopindef ?u)" using assms(2) by (intro setopindef_ok) (simp add: uninit_def uninit_ok)
      moreover have "val_of (mm s) (setopindef ?u) (AIndef 5)"
        using setopindef_val [of "mm s" ?u] by (simp add: to_short_id in_range_def)
      ultimately show ?thesis using False i by (intro exI [of _ "setopindef ?u"]) (simp add: unop_body_def)
    qed
  qed (simp add: is_str_def)
  then show ?thesis by (auto simp: unop_def)
qed

subsection \<open>Numbers and truth values\<close>

lemma opcode_sets:
  "opcode \<in> real_opcodes \<longleftrightarrow> opcode \<in> {3, 9, 13, 14, 21, 22, 20, 25, 10}"
  "opcode \<in> test_opcodes \<longleftrightarrow> opcode \<in> {2, 11, 6, 5, 7, 4}"
  "opcode \<in> name_opcodes \<longleftrightarrow> opcode \<in> {8, 17, 19}"
  by (simp_all add: real_opcodes_def test_opcodes_def name_opcodes_def)

definition un_int :: "int \<Rightarrow> int \<Rightarrow> int" where
  "un_int opcode x = (if opcode = OP_ABS then to_int \<bar>x\<bar> else if opcode = OP_MINUS then to_int (- x) else x)"

lemma unop_body_int:
  assumes "opcode \<in> {OP_ABS, OP_MINUS, OP_INT, OP_NINT}" "val_of m op (AInt x)" "in_range CINT x"
  shows "unop_body E Q opcode op = pushv E (int_result E (un_int opcode x))"
proof (rule ext)
  fix s
  have v: "o_type op = 1" "v_i op = x" "\<not> opindef op" using assms(2) by auto
  have x: "to_int x = x" using assms(3) by (simp add: in_range_def)
  have "opcode = OP_ABS \<or> opcode = OP_MINUS \<or> opcode = OP_INT \<or> opcode = OP_NINT" using assms(1) by auto
  then show "unop_body E Q opcode op s = pushv E (int_result E (un_int opcode x)) s"
    by (elim disjE)
       (simp_all add: unop_body_def unop_type_def unop_input_def unop_value_def unop_result_def int_result_def un_int_def
        opcode_sets v x cl_simps Let_def)
qed

text \<open>
  \<open>abs\<close>, the change of sign, \<open>int\<close> and \<open>nint\<close> of an integer, in 32-bit arithmetic.
\<close>

theorem unop_int:
  assumes "ostack E s (AInt x # as)" "bufs_ok E (mm s)" "opcode \<in> {OP_ABS, OP_MINUS, OP_INT, OP_NINT}" "in_range CINT x"
  shows "\<exists>s'. unop E Q opcode s = Ret () s' \<and> ostack E s' (AInt (un_int opcode x) # as) \<and> os_step E s s'"
  unfolding unop_def
proof (rule pop1_push [OF assms(1)])
  fix op s'
  assume v: "val_of (mm s) op (AInt x)"
  have "in_range CINT (un_int opcode x)" using to_int_range assms(4) by (simp add: un_int_def)
  with int_result_ok [OF assms(2)] unop_body_int [OF assms(3) v assms(4)]
  show "\<exists>r. unop_body E Q opcode op s' = pushv E r s' \<and> op_ok r \<and> val_of (mm s) r (AInt (un_int opcode x))"
    by (intro exI [of _ "int_result E (un_int opcode x)"]) simp
qed (simp add: is_str_def)

text \<open>
  the negation of a truth value, and the error for anything else that is not indefinite.
\<close>

theorem unexp_not:
  assumes "ostack E s (a # as)" "bufs_ok E (mm s)"
  shows "case a of
      ABool x \<Rightarrow> (\<exists>s'. unexp E OP_NOT s = Ret () s' \<and> ostack E s' (ABool (if x = 0 then 1 else 0) # as) \<and> os_step E s s')
    | AIndef t \<Rightarrow> (\<exists>s'. unexp E OP_NOT s = Ret () s' \<and> ostack E s' (AIndef 4 # as) \<and> os_step E s s')
    | _ \<Rightarrow> (\<exists>s'. unexp E OP_NOT s = Raise (E_UERR (Msg ''Boolean negation of a non-boolean operand'')) s' \<and> ostack E s' as \<and> os_step E s s')"
proof -
  let ?u = "(uninit E)\<lparr>o_type := OT_BOOL\<rparr>"
  have err: "\<exists>s'. unexp E OP_NOT s = Raise (E_UERR (Msg ''Boolean negation of a non-boolean operand'')) s' \<and> ostack E s' as \<and> os_step E s s'"
    if a: "\<forall>x. a \<noteq> ABool x" "\<forall>t. a \<noteq> AIndef t"
  proof -
    obtain op where "popop E s = Ret op (s\<lparr>topos := topos s - int (aop_cells a)\<rparr>)" "val_of (mm s) op a"
      "ostack E (s\<lparr>topos := topos s - int (aop_cells a)\<rparr>) as" using opst.pop [OF assms(1)] by blast
    moreover from this a have "\<not> opindef op" "o_type op \<noteq> 0" using val_of_indef by (blast, cases a) auto
    ultimately show ?thesis by (auto simp: unexp_def unexp_body_def cl_simps Let_def)
  qed
  have len: "length (o_raw ?u) = 8" using assms(2) by (simp add: uninit_def uninit_ok)
  show ?thesis
  proof (cases a)
    case (ABool x)
    have "\<exists>s'. unexp E OP_NOT s = Ret () s' \<and> ostack E s' (ABool (if x = 0 then 1 else 0) # as) \<and> os_step E s s'"
      unfolding unexp_def
    proof (rule pop1_push [OF assms(1)])
      fix op s'
      assume "val_of (mm s) op a"
      then have "unexp_body E OP_NOT op s' = pushv E (bool_result E (x = 0)) s'"
        using ABool by (auto simp: unexp_body_def bool_result_def Let_def)
      with bool_result_ok [OF assms(2), of "x = 0"]
      show "\<exists>r. unexp_body E OP_NOT op s' = pushv E r s' \<and> op_ok r \<and> val_of (mm s) r (ABool (if x = 0 then 1 else 0))" by blast
    qed (simp add: is_str_def)
    with ABool show ?thesis by simp
  next
    case (AIndef t)
    have "\<exists>s'. unexp E OP_NOT s = Ret () s' \<and> ostack E s' (AIndef 4 # as) \<and> os_step E s s'"
      unfolding unexp_def
    proof (rule pop1_push [OF assms(1)])
      fix op s'
      assume "val_of (mm s) op a"
      then have "opindef op" using AIndef val_of_indef by blast
      moreover have "val_of (mm s) (setopindef ?u) (AIndef 4)" using setopindef_val [of "mm s" ?u] by simp
      ultimately show "\<exists>r. unexp_body E OP_NOT op s' = pushv E r s' \<and> op_ok r \<and> val_of (mm s) r (AIndef 4)"
        using setopindef_ok [OF len] by (intro exI [of _ "setopindef ?u"]) (simp add: unexp_body_def Let_def)
    qed (simp add: is_str_def)
    with AIndef show ?thesis by simp
  qed (use err in auto)
qed

subsection \<open>Strings\<close>

lemma map_str_correct:
  assumes "kstr_at m src str" "to + length str < length m" "to + length str < src \<or> src + length str < to"
  shows "map_str f to src m = Some (blit m to (map f str @ [0]))"
  using assms
proof (induction str arbitrary: src to m)
  case Nil
  then show ?case by (subst map_str.simps) (simp add: list_update_blit)
next
  case (Cons c str)
  let ?m = "blit m to [f c]"
  have lt: "to < length m" using Cons.prems by simp
  have "kstr_at ?m (src + 1) str"
    using Cons.prems by (intro kstr_at_blit) auto
  then have "map_str f (to + 1) (src + 1) ?m = Some (blit ?m (to + 1) (map f str @ [0]))"
    using Cons.prems lt by (intro Cons.IH) (auto simp: blit_simps)
  also have "blit ?m (to + 1) (map f str @ [0]) = blit m to (map f (c # str) @ [0])"
    using blit_blit_append [of to "[f c]" "map f str @ [0]" m] Cons.prems by simp
  finally show ?case
    using Cons.prems lt by (subst map_str.simps) (simp add: list_update_blit)
qed

text \<open>The popped operand is copied, with its characters changed, to \<open>sbuf\<close>.\<close>

lemma map_str_sbuf:
  assumes "cl_ok E s as" "kstr_at (mm s) q str" "instk E q str" "length str < SZ_LINE" "\<And>c. c \<noteq> 0 \<Longrightarrow> f c \<noteq> 0"
  shows "\<exists>m'. map_str f (sbuf E) q (mm s) = Some m' \<and> kstr_at m' (sbuf E) (map f str) \<and> cl_ok E (s\<lparr>mm := m'\<rparr>) as"
proof -
  let ?p = "sbuf E" and ?m = "blit (mm s) (sbuf E) (map f str @ [0])"
  have loc: "locals_ok E (mm s)" using assms(1) by (simp add: cl_ok_def)
  then have buf: "buf_ok E (mm s) ?p SZ_LINE" by (simp add: locals_ok_def)
  then have fit: "?p + length str < length (mm s)" and out: "outside E ?p SZ_LINE" using assms(4) by (auto simp: buf_ok_def)
  have "?p + length str < q \<or> q + length str < ?p"
    using instk_apart [OF assms(3) out] assms(4) by auto
  from map_str_correct [OF assms(2) fit this] have "map_str f ?p q (mm s) = Some ?m" .
  moreover have "f c \<noteq> 0" if "c \<in> set str" for c
    using that assms(2) by (intro assms(5)) (auto simp: kstr_at_def)
  then have "0 \<notin> set (map f str)" by force
  then have "kstr_at ?m ?p (map f str)" using fit by (intro kstr_at_new) auto
  moreover have so: "same_outside ?p (?p + SZ_LINE) (mm s) ?m" using assms(4) fit by (intro same_outside_blit) auto
  then have "cl_ok E (s\<lparr>mm := ?m\<rparr>) as"
    using ostack_outside [OF _ so out] bufs_ok_write [OF _ buf so] locals_ok_write assms(1)
    by (auto simp: cl_ok_def same_outside_def)
  ultimately show ?thesis by blast
qed

lemma pop1_instk:
  assumes "ostack E s (AStr str # as)"
  shows "\<exists>op. popop E s = Ret op (s\<lparr>topos := topos s - int (aop_cells (AStr str))\<rparr>) \<and> op_ok op \<and> instk E (v_s op) str
    \<and> val_of (mm s) op (AStr str) \<and> ostack E (s\<lparr>topos := topos s - int (aop_cells (AStr str))\<rparr>) as"
proof -
  obtain op where op: "popop E s = Ret op (s\<lparr>topos := topos s - int (aop_cells (AStr str))\<rparr>)" "val_of (mm s) op (AStr str)"
    "op_ok op" "v_s op = stk E + 8 * (nat (topos s + 1) - aop_cells (AStr str) + 2)"
    "ostack E (s\<lparr>topos := topos s - int (aop_cells (AStr str))\<rparr>) as"
    using popop_correct [OF assms] by metis
  have "nat (topos s + 1) \<le> nat (stacksiz E)" using ostack_room [OF assms] by auto
  moreover have "aop_cells (AStr str) \<le> nat (topos s + 1)" using assms by (simp add: ostack_def)
  moreover have "length str + 1 \<le> 8 * btoi (length str + 1)" by (rule btoi_bounds)
  ultimately have "instk E (v_s op) str" using op(4) by (simp add: instk_def)
  with op show ?thesis by blast
qed

lemma case_ops_nonzero: "c \<noteq> 0 \<Longrightarrow> c_tolower c \<noteq> 0" "c \<noteq> 0 \<Longrightarrow> c_toupper c \<noteq> 0"
proof -
  have r: "- 128 \<le> sint c" "sint c < 128" using sint_greater_eq [of c] sint_less [of c] by simp_all
  have s0: "x = 0 \<longleftrightarrow> sint x = 0" for x :: byte using sint_byte_inj [of x 0] by auto
  have "sint (c + 32) = sint c + 32" if "65 \<le> sint c" "sint c \<le> 90"
    using that by (subst sint_word_ariths) (simp add: signed_take_bit_int_eq_self)
  then show "c \<noteq> 0 \<Longrightarrow> c_tolower c \<noteq> 0" by (auto simp: c_tolower_def s0 [of "c + 32"])
  have "sint (c - 32) = sint c - 32" if "97 \<le> sint c" "sint c \<le> 122"
    using that by (subst sint_word_ariths) (simp add: signed_take_bit_int_eq_self)
  then show "c \<noteq> 0 \<Longrightarrow> c_toupper c \<noteq> 0" by (auto simp: c_toupper_def s0 [of "c - 32"])
qed

text \<open>
  \<open>strlwr\<close> and \<open>strupr\<close> replace a string that fits in a line by the same string in lower or upper
  case.
\<close>

theorem unop_case:
  assumes "cl_ok E s (AStr str # as)" "length str < SZ_LINE" "opcode = OP_STRLWR \<or> opcode = OP_STRUPR"
  shows "\<exists>s'. unop E Q opcode s = Ret () s' \<and> only_os s s'
    \<and> cl_ok E s' (AStr (map (if opcode = OP_STRLWR then c_tolower else c_toupper) str) # as)"
proof -
  let ?f = "if opcode = OP_STRLWR then c_tolower else c_toupper" and ?s = "s\<lparr>topos := topos s - int (aop_cells (AStr str))\<rparr>"
  obtain op where op: "popop E s = Ret op ?s" "op_ok op" "instk E (v_s op) str" "val_of (mm s) op (AStr str)" "ostack E ?s as"
    using pop1_instk [of E s str as] assms(1) by (auto simp: cl_ok_def)
  have ok: "cl_ok E ?s as" "kstr_at (mm ?s) (v_s op) str" using assms(1) op(4,5) by (auto simp: cl_ok_def)
  obtain m' where m': "map_str ?f (sbuf E) (v_s op) (mm ?s) = Some m'" "kstr_at m' (sbuf E) (map ?f str)" "cl_ok E (?s\<lparr>mm := m'\<rparr>) as"
    using map_str_sbuf [OF ok op(3) assms(2), of ?f] case_ops_nonzero by (cases "opcode = OP_STRLWR") auto
  have "topos ?s + int (aop_cells (AStr (map ?f str))) < topcs ?s"
    using ostack_room [of E s "AStr str # as"] assms(1) by (auto simp: cl_ok_def)
  then obtain s' where s': "pushv E (set_v_s (sbuf E) ((uninit E)\<lparr>o_type := OT_STRING\<rparr>)) (?s\<lparr>mm := m'\<rparr>) = Ret () s'"
      "cl_ok E s' (AStr (map ?f str) # as)" "only_os (?s\<lparr>mm := m'\<rparr>) s'"
    using push_buf_correct [OF m'(3), of "sbuf E" "map ?f str" SZ_LINE "(uninit E)\<lparr>o_type := OT_STRING\<rparr>"] m'(2,3) assms(2) by (auto simp: cl_ok_def locals_ok_def)
  have t: "o_type op = 3" "\<not> opindef op" using op(4) by auto
  have "unop E Q opcode s = Ret () s'"
    using assms(3) op(1) t m'(1) s'(1)
    by (auto simp: unop_def unop_body_def unop_type_def unop_input_def unop_value_def op_on_string_def unop_result_def
        opcode_sets cl_simps memop_def Let_def)
  moreover have "only_os s s'" using s'(3) by (simp add: only_os_def)
  ultimately show ?thesis using s'(2) by blast
qed

lemma to_string_str:
  assumes "ostack E s as" "val_of (mm s) op (AStr str)" "op_ok op" "src_ok E s op (AStr str)"
    "topos s + int (aop_cells (AStr str)) < topcs s"
  shows "\<exists>op' s'. to_string E op s = Ret op' s' \<and> val_of (mm s') op' (AStr str) \<and> ostack E s' as \<and> op_ok op'
    \<and> keeps E (mm s) (mm s') \<and> topos s' = topos s \<and> only_os s s' \<and> v_s op' = stk E + 8 * (nat (topos s + 1) + 2)"
proof -
  obtain m1 where m1: "pushv E op s = Ret () (pushed E s (AStr str) m1)" "ostack E (pushed E s (AStr str) m1) (AStr str # as)"
      "in_stack E (mm s) m1"
    using pushv_correct [OF assms] by blast
  let ?s1 = "pushed E s (AStr str) m1"
  have "opcast E 3 ?s1 = Ret () ?s1" using opcast_same [OF m1(2)] by (simp add: basic_type_def)
  moreover obtain op' where "popop E ?s1 = Ret op' (?s1\<lparr>topos := topos s\<rparr>)" "val_of m1 op' (AStr str)" "op_ok op'"
      "v_s op' = stk E + 8 * (nat (topos ?s1 + 1) - aop_cells (AStr str) + 2)" "ostack E (?s1\<lparr>topos := topos s\<rparr>) as"
    using popop_correct [OF m1(2)] by auto
  moreover have "nat (topos ?s1 + 1) - aop_cells (AStr str) = nat (topos s + 1)"
    using ostack_room [OF assms(1)] by (simp add: nat_add_distrib)
  ultimately show ?thesis
    using m1(1) keeps_in_stack [OF m1(3)]
    by (intro exI [of _ op'] exI [of _ "?s1\<lparr>topos := topos s\<rparr>"]) (simp add: to_string_def cl_simps only_os_def pushed_def)
qed

lemma src_ok_popped: "v_s op = stk E + 8 * (nat (topos s + 1) + 2) \<Longrightarrow> src_ok E s op a"
  by (simp add: src_ok_def)

lemma to_string_any:
  assumes "ostack E s as" "bufs_ok E (mm s)" "val_of (mm s) op a" "op_ok op" "src_ok E s op a" "has_text (fl E) a str"
    "topos s + int (aop_cells (AStr str)) < topcs s"
  shows "\<exists>op' s'. to_string E op s = Ret op' s' \<and> val_of (mm s') op' (AStr str) \<and> ostack E s' as \<and> op_ok op'
    \<and> keeps E (mm s) (mm s') \<and> topos s' = topos s \<and> only_os s s' \<and> v_s op' = stk E + 8 * (nat (topos s + 1) + 2)"
proof (cases "is_str a")
  case True
  then have "a = AStr str" using assms(6) has_text_str by (auto simp: is_str_def)
  with to_string_str assms show ?thesis by blast
next
  case False
  then show ?thesis
    using to_string_correct [OF assms(1-4) False, of str] assms(6,7) unfolding has_text_def by blast
qed

lemma unop_str:
  assumes "cl_ok E s (a # as)" "has_text (fl E) a str" "topos s - int (aop_cells a) + int (aop_cells (AStr str)) < topcs s"
  shows "\<exists>s'. unop E Q OP_STR s = Ret () s' \<and> cl_ok E s' (AStr str # as) \<and> only_os s s'"
proof -
  let ?s = "s\<lparr>topos := topos s - int (aop_cells a)\<rparr>" and ?u = "(uninit E)\<lparr>o_type := OT_STRING\<rparr>"
  have os: "ostack E s (a # as)" and bo: "bufs_ok E (mm ?s)" and loc: "locals_ok E (mm s)" using assms(1) by (auto simp: cl_ok_def)
  obtain op where op: "popop E s = Ret op ?s" "val_of (mm ?s) op a" "op_ok op" "ostack E ?s as"
    "\<forall>str. a = AStr str \<longrightarrow> v_s op = stk E + 8 * (nat (topos s + 1) - aop_cells a + 2)"
    using popop_correct [OF os] by auto
  have "nat (topos ?s + 1) = nat (topos s + 1) - aop_cells a" using os by auto
  then have src: "src_ok E ?s op a" using op(5) unfolding src_ok_def by (metis add_le_cancel_left nat_le_linear order.refl)
  have room: "topos ?s + int (aop_cells (AStr str)) < topcs ?s" using assms(3) by simp
  obtain op' s1 where t: "to_string E op ?s = Ret op' s1" "val_of (mm s1) op' (AStr str)" "ostack E s1 as"
    "keeps E (mm ?s) (mm s1)" "topos s1 = topos ?s" "only_os ?s s1" "v_s op' = stk E + 8 * (nat (topos ?s + 1) + 2)"
    using to_string_any [OF op(4) bo op(2,3) src assms(2) room] by blast
  have b1: "bufs_ok E (mm s1)" and l1: "locals_ok E (mm s1)" using keeps_bufs [OF bo t(4)] keeps_locals [OF _ t(4)] loc by auto
  let ?r = "set_v_s (v_s op') ?u"
  have small: "v_s op' < 2 ^ 63" using t(2,3) by (simp add: kstr_at_def ostack_def lay_ok_def)
  have v: "val_of (mm s1) ?r (AStr str)" using t(2) small by simp
  have ok: "op_ok ?r" by (simp add: in_range_def)
  have srcr: "src_ok E s1 ?r (AStr str)" using t(5,7) small by (intro src_ok_popped) simp
  have "topos s1 + int (aop_cells (AStr str)) < topcs s1" using room t(5,6) by (simp add: only_os_def)
  from pushv_correct [OF t(3) v ok srcr this] obtain m' where m': "pushv E ?r s1 = Ret () (pushed E s1 (AStr str) m')"
    "ostack E (pushed E s1 (AStr str) m') (AStr str # as)" "in_stack E (mm s1) m'" by blast
  have ni: "\<not> opindef op" using val_of_indef [OF op(2)] assms(2) by (auto simp: has_text_def split: if_splits)
  have ty: "o_type op \<in> {0, 1, 2, 3}" using op(2) assms(2) by (cases a) (auto simp: has_text_def split: if_splits)
  have "unop E Q OP_STR s = Ret () (pushed E s1 (AStr str) m')"
    using op(1) ni ty t(1) m'(1)
    by (auto simp: unop_def unop_body_def unop_type_def unop_input_def unop_value_def unop_result_def opcode_sets cl_simps Let_def)
  moreover have "cl_ok E (pushed E s1 (AStr str) m') (AStr str # as)"
    using m'(2) keeps_bufs [OF b1 keeps_in_stack] keeps_locals [OF l1 keeps_in_stack] m'(3) by (simp add: cl_ok_def)
  moreover have "only_os s (pushed E s1 (AStr str) m')" using t(6) by (simp add: only_os_def pushed_def)
  ultimately show ?thesis by blast
qed

lemma unop_strlen:
  assumes "ostack E s (AStr str # as)" "bufs_ok E (mm s)" "length str < 2147483648"
  shows "\<exists>s'. unop E Q OP_STRLEN s = Ret () s' \<and> ostack E s' (AInt (int (length str)) # as) \<and> os_step E s s'"
  unfolding unop_def
proof (rule pop1_push [OF assms(1)])
  fix op s'
  assume v: "val_of (mm s) op (AStr str)" and mm: "mm (s' :: clm) = mm s"
  then have t: "o_type op = 3" "\<not> opindef op" "kstr_at (mm s') (v_s op) str" by auto
  have n: "in_range CINT (int (length str))" using assms(3) by (simp add: in_range_def)
  have "unop_body E Q OP_STRLEN op s' = pushv E (int_result E (int (length str))) s'"
    using t n strlen_correct [OF t(3)]
    by (simp add: unop_body_def unop_type_def unop_input_def unop_value_def op_on_string_def unop_result_def int_result_def
        opcode_sets cl_simps memget_def Let_def in_range_def)
  with int_result_ok [OF assms(2) n]
  show "\<exists>r. unop_body E Q OP_STRLEN op s' = pushv E r s' \<and> op_ok r \<and> val_of (mm s) r (AInt (int (length str)))" by blast
qed (simp add: is_str_def)

text \<open>
  \<open>str\<close> replaces a value by its text, also where it was a string already, and \<open>strlen\<close> a string by
  its length.
\<close>

theorem unop_str_strlen:
  assumes "cl_ok E s (a # as)" "has_text (fl E) a str" "topos s - int (aop_cells a) + int (aop_cells (AStr str)) < topcs s"
  shows "\<exists>s1 s2. unop E Q OP_STR s = Ret () s1 \<and> cl_ok E s1 (AStr str # as) \<and> only_os s s1
    \<and> unop E Q OP_STRLEN s1 = Ret () s2 \<and> ostack E s2 (AInt (int (length str)) # as)"
proof -
  obtain s1 where s1: "unop E Q OP_STR s = Ret () s1" "cl_ok E s1 (AStr str # as)" "only_os s s1"
    using unop_str [OF assms] by blast
  have "length str < 2147483648" using assms(2) by (simp add: has_text_def)
  with unop_strlen [of E s1 str as Q] s1 show ?thesis by (auto simp: cl_ok_def)
qed

subsection \<open>On the small machine\<close>

definition demo_Q :: sysenv where
  "demo_Q = \<lparr>q_test = (\<lambda>opcode name. 0), q_name = (\<lambda>opcode name. Some name), q_nscan = 0, q_abbrev = True\<rparr>"

lemma demo_str: "\<exists>s. cl_ok demo_env s [AStr [65]] \<and> topos s = 3 \<and> topcs s = 16 \<and> basos s = - 1"
proof -
  have room: "topos demo_state + int (aop_cells (AStr [65])) < topcs demo_state" by (simp add: demo_state_def btoi_def)
  from pushv_correct [OF demo_ok demo_op_ok room] obtain m' where
    "ostack demo_env (pushed demo_env demo_state (AStr [65]) m') [AStr [65]]" "in_stack demo_env (mm demo_state) m'" by blast
  moreover have "bufs_ok demo_env (mm demo_state)" "locals_ok demo_env (mm demo_state)" using demo_bufs by (auto simp: cl_ok_def)
  ultimately show ?thesis
    using keeps_bufs [OF _ keeps_in_stack] keeps_locals [OF _ keeps_in_stack]
    by (intro exI [of _ "pushed demo_env demo_state (AStr [65]) m'"]) (auto simp: cl_ok_def pushed_def demo_state_def btoi_def)
qed

lemma demo_scalar:
  assumes "\<not> is_str a" "val_of (mm demo_state) op a" "op_ok op"
  shows "\<exists>s. cl_ok demo_env s [a] \<and> topos s = 2 \<and> topcs s = 16"
  using demo_push [OF demo_bufs assms(2,3,1)] by (simp add: demo_state_def)

lemma demo_indef_top: "\<exists>s. cl_ok demo_env s [AIndef 5] \<and> topos s = 2 \<and> topcs s = 16"
  by (rule demo_scalar [of _ "\<lparr>o_type = 5, o_raw = replicate 8 0\<rparr>"]) (simp_all add: is_str_def op_ok_def in_range_def bit_iff_odd)

lemma demo_bool: "\<exists>s. cl_ok demo_env s [ABool 1] \<and> topos s = 2 \<and> topcs s = 16"
  by (rule demo_scalar [of _ "set_v_i 1 \<lparr>o_type = 0, o_raw = replicate 8 0\<rparr>"])
     (simp_all add: is_str_def op_ok_def in_range_def)

theorem unop_indef_witness:
  "\<exists>s s'. ostack demo_env s [AIndef 5] \<and> unop demo_env demo_Q OP_ISINDEF s = Ret () s' \<and> ostack demo_env s' [ABool 1]"
proof -
  obtain s where s: "ostack demo_env s [AIndef 5]" "bufs_ok demo_env (mm s)" using demo_indef_top by (auto simp: cl_ok_def)
  from unop_indef [OF s, of demo_Q OP_ISINDEF] s(1) show ?thesis by auto
qed

theorem unop_int_witness:
  "\<exists>s s'. ostack demo_env s [AInt 7] \<and> unop demo_env demo_Q OP_MINUS s = Ret () s' \<and> ostack demo_env s' [AInt (- 7)]"
proof -
  obtain s where s: "ostack demo_env s [AInt 7]" "bufs_ok demo_env (mm s)" using demo_7 by (auto simp: cl_ok_def)
  from unop_int [OF s, of OP_MINUS demo_Q] s(1) show ?thesis by (auto simp: un_int_def in_range_def)
qed

theorem unexp_not_witness:
  "\<exists>s s'. ostack demo_env s [ABool 1] \<and> unexp demo_env OP_NOT s = Ret () s' \<and> ostack demo_env s' [ABool 0]"
proof -
  obtain s where s: "ostack demo_env s [ABool 1]" "bufs_ok demo_env (mm s)" using demo_bool by (auto simp: cl_ok_def)
  from unexp_not [OF s] s(1) show ?thesis by auto
qed

theorem unop_case_witness:
  "\<exists>s s'. cl_ok demo_env s [AStr [65]] \<and> unop demo_env demo_Q OP_STRLWR s = Ret () s' \<and> cl_ok demo_env s' [AStr [97]]"
proof -
  obtain s where s: "cl_ok demo_env s [AStr [65]]" using demo_str by auto
  from unop_case [OF s, of OP_STRLWR demo_Q] s show ?thesis by (auto simp: c_tolower_def)
qed

theorem unop_str_strlen_witness:
  "\<exists>s s1 s2. cl_ok demo_env s [AInt 7] \<and> unop demo_env demo_Q OP_STR s = Ret () s1 \<and> cl_ok demo_env s1 [AStr [55]]
    \<and> unop demo_env demo_Q OP_STRLEN s1 = Ret () s2 \<and> ostack demo_env s2 [AInt 1]"
proof -
  obtain s where s: "cl_ok demo_env s [AInt 7]" "topos s = 2" "topcs s = 16" using demo_7 by auto
  have "has_text (fl demo_env) (AInt 7) [55]" by (simp add: has_text_def fmt_d_def dec_digits.simps)
  from unop_str_strlen [OF s(1) this, of demo_Q] s show ?thesis by (auto simp: btoi_def)
qed

end
