(* ===== verification/Cl_Intrinsic.thy ===== *)
theory Cl_Intrinsic
  imports Cl_Unary
begin

text \<open>
  The intrinsic functions, from \<open>pkg/cl/gram.c\<close>: the look-up of a name that may be abbreviated, and the
  call of the operation that it stands for.
\<close>

subsection \<open>\<open>keyword\<close>\<close>

abbreviation KWBAD :: int where "KWBAD \<equiv> - 1"
abbreviation KWAMBIG :: int where "KWAMBIG \<equiv> - 2"

text \<open>
  The loop with abbreviations enabled: \<open>strncmp (s, kentry, strlen (s))\<close> is zero if \<open>s\<close> is a prefix of
  the entry.
\<close>

fun abbrev_loop :: "byte list list \<Rightarrow> byte list \<Rightarrow> nat \<Rightarrow> int \<Rightarrow> int" where
  "abbrev_loop [] s i cand = cand"
| "abbrev_loop (kentry # tbl) s i cand =
     (if take (length s) kentry = s then
        (if length kentry = length s then int i
         else abbrev_loop tbl s (i + 1) (if cand = KWBAD then int i else KWAMBIG))
      else abbrev_loop tbl s (i + 1) cand)"

fun exact_loop :: "byte list list \<Rightarrow> byte list \<Rightarrow> nat \<Rightarrow> int" where
  "exact_loop [] s i = KWBAD"
| "exact_loop (kentry # tbl) s i = (if s = kentry then int i else exact_loop tbl s (i + 1))"

definition keyword :: "bool \<Rightarrow> byte list list \<Rightarrow> byte list \<Rightarrow> int" where
  "keyword abbrev tbl s = (if abbrev then abbrev_loop tbl s 0 KWBAD else exact_loop tbl s 0)"

subsection \<open>\<open>intrfunc\<close>\<close>

datatype intr = UNOP int | BINOP int | MULTOP int

definition bytes :: "string \<Rightarrow> byte list" where
  "bytes str = map (\<lambda>c. word_of_nat (of_char c)) str"

definition ifnames :: "byte list list" where
  "ifnames = map bytes
    [''abs'', ''access'', ''atan2'', ''cos'', ''defpac'', ''defpar'', ''deftask'', ''envget'',
     ''exp'', ''frac'', ''int'', ''log'', ''log10'', ''nscan'', ''max'', ''min'',
     ''mod'', ''nint'', ''osfn'', ''radix'', ''real'', ''sin'', ''sqrt'', ''str'',
     ''substr'', ''tan'', ''mktemp'', ''stridx'', ''strlen'', ''imaccess'', ''defvar'', ''strldx'',
     ''strstr'', ''strlwr'', ''strupr'', ''isindef'', ''strlstr'']"

definition optbl :: "intr list" where
  "optbl =
    [UNOP OP_ABS, UNOP OP_ACCESS, BINOP OP_ATAN2, UNOP OP_COS,
     UNOP OP_DEFPAC, UNOP OP_DEFPAR, UNOP OP_DEFTASK, UNOP OP_ENVGET,
     UNOP OP_EXP, UNOP OP_FRAC, UNOP OP_INT, UNOP OP_LOG,
     UNOP OP_LOG10, MULTOP OP_NSCAN, MULTOP OP_MAX, MULTOP OP_MIN,
     BINOP OP_MOD, UNOP OP_NINT, UNOP OP_OSFN, BINOP OP_RADIX,
     UNOP OP_REAL, UNOP OP_SIN, UNOP OP_SQRT, UNOP OP_STR,
     MULTOP OP_SUBSTR, UNOP OP_TAN, UNOP OP_MKTEMP, BINOP OP_STRIDX,
     UNOP OP_STRLEN, UNOP OP_IMACCESS, UNOP OP_DEFVAR, BINOP OP_STRLDX,
     BINOP OP_STRSTR, UNOP OP_STRLWR, UNOP OP_STRUPR, UNOP OP_ISINDEF,
     BINOP OP_STRLSTR]"

text \<open>\<open>while (--nargs) binop (op);\<close>\<close>

fun binop_times :: "clenv \<Rightarrow> int \<Rightarrow> nat \<Rightarrow> unit cl" where
  "binop_times E opcode 0 = ret ()"
| "binop_times E opcode (Suc n) = thenc (binop E opcode) (binop_times E opcode n)"

text \<open>
  \<open>substr\<close>: the characters from the first to the second index, backwards if the second is smaller; the
  indices are not checked.
\<close>

definition pop_int :: "clenv \<Rightarrow> int cl" where
  "pop_int E = thenc (opcast E OT_INT) (bindc (popop E) (\<lambda>o1. ret (v_i o1)))"

fun reverse_loop :: "nat \<Rightarrow> nat \<Rightarrow> int \<Rightarrow> nat \<Rightarrow> nat \<Rightarrow> mem \<Rightarrow> mem option" where
  "reverse_loop sb str subi0 i 0 m = Some m"
| "reverse_loop sb str subi0 i (Suc k) m = do {
     p \<leftarrow> padd str (subi0 - int i - 1);
     c \<leftarrow> rd m p;
     m \<leftarrow> wr m (sb + i) c;
     reverse_loop sb str subi0 (i + 1) k m }"

definition substr_copy :: "nat \<Rightarrow> nat \<Rightarrow> int \<Rightarrow> int \<Rightarrow> mem \<Rightarrow> mem option" where
  "substr_copy sb str subi0 subi1 m =
     (let n = (if subi1 \<ge> subi0 then to_int (subi1 - subi0 + 1) else to_int (subi0 - subi1 + 1)) in
      do {
        m \<leftarrow> (if subi1 \<ge> subi0 then do { p \<leftarrow> padd str (subi0 - 1); strncpy sb p n m }
              else reverse_loop sb str subi0 0 (nat n) m);
        q \<leftarrow> padd sb n;
        wr m q 0 })"

definition op_substr :: "clenv \<Rightarrow> unit cl" where
  "op_substr E =
     bindc (pop_int E) (\<lambda>subi1.
     bindc (pop_int E) (\<lambda>subi0.
     thenc (opcast E OT_STRING)
     (bindc (popop E) (\<lambda>o1.
     thenc (memop (substr_copy (sbuf E) (v_s o1) subi0 subi1))
     (pushv E (set_v_s (sbuf E) o1))))))"

definition multop :: "clenv \<Rightarrow> sysenv \<Rightarrow> int \<Rightarrow> int \<Rightarrow> unit cl" where
  "multop E Q opcode nargs =
     (if opcode = OP_NSCAN then
        (if nargs > 0 then cl_error (E_UERR (Msg ''nscan has no arguments''))
         else pushv E (set_v_i (q_nscan Q) ((uninit E)\<lparr>o_type := OT_INT\<rparr>)))
      else if opcode = OP_MAX \<or> opcode = OP_MIN then
        (if nargs \<le> 0 then cl_error (E_UERR (Msg ''function requires at least one argument''))
         else binop_times E opcode (nat nargs - 1))
      else if opcode = OP_SUBSTR then
        (if nargs \<noteq> 3 then cl_error (E_UERR (Msg ''substr requires 3 arguments'')) else op_substr E)
      else cl_error (E_IERR (Badsw opcode)))"

definition intrfunc :: "clenv \<Rightarrow> sysenv \<Rightarrow> byte list \<Rightarrow> int \<Rightarrow> unit cl" where
  "intrfunc E Q fname nargs =
     (let i = keyword (q_abbrev Q) ifnames fname in
      if i = KWBAD then cl_error (E_UERR (Msg ''unknown function''))
      else if i = KWAMBIG then cl_error (E_UERR (Msg ''ambiguous function''))
      else
        (case optbl ! nat i of
           UNOP opcode \<Rightarrow>
             if nargs \<noteq> 1 then cl_error (E_UERR (Msg ''function requires exactly one argument'')) else unop E Q opcode
         | BINOP opcode \<Rightarrow>
             if nargs \<noteq> 2 then cl_error (E_UERR (Msg ''function requires exactly two arguments'')) else binop E opcode
         | MULTOP opcode \<Rightarrow> multop E Q opcode nargs))"

subsection \<open>The look-up of a name\<close>

definition begin_with :: "byte list \<Rightarrow> byte list list \<Rightarrow> nat list" where
  "begin_with s tbl = filter (\<lambda>j. take (length s) (tbl ! j) = s) [0..<length tbl]"

definition first_at :: "byte list \<Rightarrow> byte list list \<Rightarrow> nat" where
  "first_at s tbl = length (takeWhile (\<lambda>k. k \<noteq> s) tbl)"

lemma begin_with_Cons:
  "begin_with s (k # tbl) = (if take (length s) k = s then [0] else []) @ map Suc (begin_with s tbl)"
  unfolding begin_with_def
  by (simp add: upt_conv_Cons map_Suc_upt [symmetric] filter_map comp_def del: upt_Suc)

lemma prefix_same: "take (length s) k = s \<Longrightarrow> length k = length s \<longleftrightarrow> k = s"
  by (metis take_all_iff order.refl)

lemma abbrev_loop_correct:
  "abbrev_loop tbl s i cand =
     (if s \<in> set tbl then int (i + first_at s tbl)
      else case begin_with s tbl of [] \<Rightarrow> cand | [j] \<Rightarrow> (if cand = KWBAD then int (i + j) else KWAMBIG) | _ \<Rightarrow> KWAMBIG)"
proof (induction tbl arbitrary: i cand)
  case Nil
  then show ?case by (simp add: begin_with_def)
next
  case (Cons k tbl)
  show ?case
  proof (cases "take (length s) k = s")
    case False
    then have "k \<noteq> s" by auto
    with False Cons.IH [of "Suc i" cand] show ?thesis
      by (auto simp: begin_with_Cons first_at_def split: list.splits)
  next
    case True
    show ?thesis
    proof (cases "k = s")
      case True
      then show ?thesis by (simp add: first_at_def)
    next
      case False
      with True Cons.IH [of "Suc i" "if cand = KWBAD then int i else KWAMBIG"] show ?thesis
        by (auto simp: prefix_same begin_with_Cons first_at_def split: list.splits)
    qed
  qed
qed

lemma exact_loop_correct: "exact_loop tbl s i = (if s \<in> set tbl then int (i + first_at s tbl) else KWBAD)"
  by (induction tbl arbitrary: i) (auto simp: first_at_def)

text \<open>
  C34: \<open>keyword\<close> returns the index of the entry that equals the name; with abbreviations enabled and
  no such entry, the index of the one entry that begins with it, and otherwise it tells an unknown
  name from an ambiguous one.
\<close>

theorem keyword_correct:
  "keyword abbrev tbl s =
     (if s \<in> set tbl then int (first_at s tbl)
      else if abbrev then case begin_with s tbl of [] \<Rightarrow> KWBAD | [j] \<Rightarrow> int j | _ \<Rightarrow> KWAMBIG
      else KWBAD)"
  by (auto simp: keyword_def abbrev_loop_correct exact_loop_correct split: list.splits)

subsection \<open>\<open>max\<close> and \<open>min\<close> of many operands\<close>

definition fold_op :: "int \<Rightarrow> int list \<Rightarrow> int" where
  "fold_op opcode xs = (if opcode = OP_MAX then Max (set xs) else Min (set xs))"

lemma fold_op_Cons: "xs \<noteq> [] \<Longrightarrow> fold_op opcode (x # xs) = (if opcode = OP_MAX then max x (fold_op opcode xs) else min x (fold_op opcode xs))"
  by (simp add: fold_op_def)

lemma binop_times_correct:
  assumes "ostack E s (AInt y # map AInt xs @ as)" "bufs_ok E (mm s)" "opcode = OP_MAX \<or> opcode = OP_MIN"
  shows "\<exists>s'. binop_times E opcode (length xs) s = Ret () s' \<and> ostack E s' (AInt (fold_op opcode (y # xs)) # as) \<and> os_step E s s'"
  using assms(1,2)
proof (induction xs arbitrary: y s)
  case Nil
  then show ?case by (intro exI [of _ s]) (simp add: fold_op_def)
next
  case (Cons x xs)
  let ?z = "if opcode = OP_MAX then max x y else min x y"
  have "int_op opcode x y = Some (Inr ?z)" using assms(3) by (auto simp: int_op_def)
  from binop_int_value [OF Cons.prems(1) [simplified] Cons.prems(2) _ this] assms(3) obtain s1 where
    s1: "binop E opcode s = Ret () s1" "ostack E s1 (AInt ?z # map AInt xs @ as)" "bufs_ok E (mm s1)" "os_step E s s1" by auto
  obtain s2 where s2: "binop_times E opcode (length xs) s1 = Ret () s2" "ostack E s2 (AInt (fold_op opcode (?z # xs)) # as)"
    "os_step E s1 s2" using Cons.IH [OF s1(2,3)] by blast
  have "fold_op opcode (?z # xs) = fold_op opcode (y # x # xs)"
    by (cases "xs = []") (auto simp: fold_op_def max.commute max.left_commute min.commute min.left_commute)
  then show ?case using s1(1) s2 os_step_trans [OF s1(4) s2(3)] by (intro exI [of _ s2]) (auto simp: cl_simps)
qed

lemma name_codes:
  "keyword ab ifnames (bytes ''max'') = 14" "keyword ab ifnames (bytes ''min'') = 15" "keyword ab ifnames (bytes ''substr'') = 24"
  by (cases ab; simp add: keyword_def ifnames_def bytes_def)+

text \<open>
  the intrinsic functions \<open>max\<close> and \<open>min\<close> of any number of integers leave the greatest and the
  least of them.
\<close>

theorem intrfunc_max_min:
  assumes "ostack E s (map AInt (y # xs) @ as)" "bufs_ok E (mm s)"
  shows "(\<exists>s'. intrfunc E Q (bytes ''max'') (int (length (y # xs))) s = Ret () s'
            \<and> ostack E s' (AInt (Max (set (y # xs))) # as) \<and> os_step E s s')
    \<and> (\<exists>s'. intrfunc E Q (bytes ''min'') (int (length (y # xs))) s = Ret () s'
            \<and> ostack E s' (AInt (Min (set (y # xs))) # as) \<and> os_step E s s')"
proof -
  have s: "ostack E s (AInt y # map AInt xs @ as)" using assms(1) by simp
  have f: "fold_op OP_MAX (y # xs) = Max (set (y # xs))" "fold_op OP_MIN (y # xs) = Min (set (y # xs))"
    by (simp_all add: fold_op_def)
  have i: "intrfunc E Q (bytes ''max'') (int (length (y # xs))) = binop_times E OP_MAX (length xs)"
    "intrfunc E Q (bytes ''min'') (int (length (y # xs))) = binop_times E OP_MIN (length xs)"
    by (simp_all add: intrfunc_def name_codes optbl_def multop_def nat_add_distrib)
  from binop_times_correct [OF s assms(2), of OP_MAX] binop_times_correct [OF s assms(2), of OP_MIN]
  show ?thesis unfolding i f by simp
qed

subsection \<open>\<open>substr\<close>\<close>

lemma strncpy_loop_prefix:
  assumes "kstr_at m ip str" "n \<le> length str" "op + n \<le> length m" "op \<le> ip \<or> ip + length str < op"
  shows "strncpy_loop ip op (int n) m = Some (op + n, - 1, blit m op (take n str))"
  using assms
proof (induction n arbitrary: ip op m str)
  case 0
  then show ?case by (subst strncpy_loop.simps) simp
next
  case (Suc n)
  then obtain c rest where str: "str = c # rest" by (cases str) auto
  let ?m = "blit m op [c]"
  have lt: "op < length m" using Suc.prems by simp
  have "kstr_at ?m (ip + 1) rest" using Suc.prems str by (intro kstr_at_blit) auto
  then have "strncpy_loop (ip + 1) (op + 1) (int n) ?m = Some (op + 1 + n, - 1, blit ?m (op + 1) (take n rest))"
    using Suc.prems lt str by (intro Suc.IH) (auto simp: blit_simps)
  also have "blit ?m (op + 1) (take n rest) = blit m op (take (Suc n) str)"
    using blit_blit_append [of op "[c]" "take n rest" m] Suc.prems str by simp
  finally show ?case
    using Suc.prems lt str by (subst strncpy_loop.simps) (simp add: list_update_blit)
qed

lemma strncpy_prefix:
  assumes "kstr_at m ip str" "n \<le> length str" "op + n \<le> length m" "op \<le> ip \<or> ip + length str < op"
  shows "strncpy op ip (int n) m = Some (blit m op (take n str))"
  using strncpy_loop_prefix [OF assms] by (simp add: strncpy_def zero_loop.simps)

lemma reverse_loop_correct:
  assumes "kstr_at m p str" "k + i \<le> j" "j \<le> length str" "sb + i + k \<le> length m" "sb + i + k \<le> p \<or> p + length str < sb"
  shows "reverse_loop sb p (int j) i k m = Some (blit m (sb + i) (take k (drop i (rev (take j str)))))"
  using assms
proof (induction k arbitrary: i m)
  case 0
  then show ?case by simp
next
  case (Suc k)
  let ?m = "blit m (sb + i) [str ! (j - i - 1)]"
  have lt: "sb + i < length m" using Suc.prems by simp
  have pa: "padd p (int j - int i - 1) = Some (p + (j - i - 1))"
    using Suc.prems(2) by (simp add: padd_def)
  have c: "rd m (p + (j - i - 1)) = Some (str ! (j - i - 1))"
    using kstr_nth [OF Suc.prems(1), of "j - i - 1"] Suc.prems by simp
  have "kstr_at ?m p str" using Suc.prems by (intro kstr_at_blit) auto
  then have ih: "reverse_loop sb p (int j) (Suc i) k ?m = Some (blit ?m (sb + Suc i) (take k (drop (Suc i) (rev (take j str)))))"
    using Suc.prems lt by (intro Suc.IH) (auto simp: blit_simps)
  have rv: "take (Suc k) (drop i (rev (take j str))) = str ! (j - i - 1) # take k (drop (Suc i) (rev (take j str)))"
    using Suc.prems by (subst Cons_nth_drop_Suc [symmetric]) (auto simp: rev_nth min_absorb2)
  have "blit ?m (sb + Suc i) (take k (drop (Suc i) (rev (take j str)))) = blit m (sb + i) (take (Suc k) (drop i (rev (take j str))))"
    using blit_blit_append [of "sb + i" "[str ! (j - i - 1)]" "take k (drop (Suc i) (rev (take j str)))" m] Suc.prems
    unfolding rv by simp
  with ih pa c lt show ?case by (simp add: list_update_blit)
qed

definition substr_of :: "byte list \<Rightarrow> nat \<Rightarrow> nat \<Rightarrow> byte list" where
  "substr_of str i j =
     (if i \<le> j then take (j - i + 1) (drop (i - 1) str) else rev (take (i - j + 1) (drop (j - 1) str)))"

lemma length_substr_of: "1 \<le> i \<Longrightarrow> 1 \<le> j \<Longrightarrow> i \<le> length str \<Longrightarrow> j \<le> length str \<Longrightarrow>
    length (substr_of str i j) = (if i \<le> j then j - i + 1 else i - j + 1)"
  by (auto simp: substr_of_def)

lemma wr_after_blit: "p + length xs < length m \<Longrightarrow> wr (blit m p xs) (p + length xs) c = Some (blit m p (xs @ [c]))"
  using blit_blit_append [of p xs "[c]" m] by (simp add: list_update_blit blit_simps)

lemma substr_copy_correct:
  assumes "kstr_at m p str" "1 \<le> i" "1 \<le> j" "i \<le> length str" "j \<le> length str" "length str < 2147483648"
    "sb + length str < length m" "sb + length str < p \<or> p + length str < sb"
  shows "substr_copy sb p (int i) (int j) m = Some (blit m sb (substr_of str i j @ [0]))"
proof -
  let ?r = "substr_of str i j"
  note len = length_substr_of [OF assms(2-5)]
  have fit: "sb + length ?r < length m" using assms(2-7) by (auto simp: len)
  have "wr (blit m sb ?r) (sb + length ?r) 0 = Some (blit m sb (?r @ [0]))" using wr_after_blit [OF fit] by simp
  moreover have "padd sb (int (length ?r)) = Some (sb + length ?r)" by (simp add: padd_def)
  moreover have "if i \<le> j
    then to_int (int j - int i + 1) = int (length ?r) \<and> padd p (int i - 1) = Some (p + (i - 1))
      \<and> strncpy sb (p + (i - 1)) (int (length ?r)) m = Some (blit m sb ?r)
    else to_int (int i - int j + 1) = int (length ?r) \<and> reverse_loop sb p (int i) 0 (length ?r) m = Some (blit m sb ?r)"
  proof (cases "i \<le> j")
    case True
    have "kstr_at m (p + (i - 1)) (drop (i - 1) str)" using kstr_at_drop_nth [OF assms(1), of "i - 1"] assms(4) by simp
    then have "strncpy sb (p + (i - 1)) (int (length ?r)) m = Some (blit m sb (take (length ?r) (drop (i - 1) str)))"
      using True assms(2-5,8) fit by (intro strncpy_prefix) (auto simp: len)
    with True assms(2,5,6) show ?thesis by (auto simp: len padd_def substr_of_def)
  next
    case False
    have "take (length ?r) (rev (take i str)) = ?r"
      using False assms(2-5) by (auto simp: len take_rev substr_of_def drop_take min_absorb2 Suc_diff_le intro!: arg_cong [where f = rev])
    moreover have "reverse_loop sb p (int i) 0 (length ?r) m = Some (blit m (sb + 0) (take (length ?r) (drop 0 (rev (take i str)))))"
      using False assms fit by (intro reverse_loop_correct) (auto simp: len)
    ultimately show ?thesis using False assms(2-6) by (auto simp: len)
  qed
  ultimately show ?thesis by (auto simp: substr_copy_def Let_def split: if_splits)
qed

lemma pop_int_correct:
  assumes "ostack E s (AInt x # as)"
  shows "pop_int E s = Ret x (s\<lparr>topos := topos s - 3\<rparr>) \<and> ostack E (s\<lparr>topos := topos s - 3\<rparr>) as"
proof -
  have "opcast E OT_INT s = Ret () s" using opcast_same [OF assms] by (simp add: basic_type_def)
  moreover obtain op where "popop E s = Ret op (s\<lparr>topos := topos s - 3\<rparr>)" "v_i op = x" "ostack E (s\<lparr>topos := topos s - 3\<rparr>) as"
    using popop_correct [OF assms] by auto
  ultimately show ?thesis by (simp add: pop_int_def cl_simps)
qed

text \<open>
  C35: \<open>substr\<close> takes the part of a string between two indices, counted from one, and backwards if the
  first is greater.
\<close>

theorem intrfunc_substr:
  assumes "cl_ok E s (AInt (int j) # AInt (int i) # AStr str # as)" "1 \<le> i" "1 \<le> j" "i \<le> length str" "j \<le> length str"
    "length str < SZ_LINE"
  shows "\<exists>s'. intrfunc E Q (bytes ''substr'') 3 s = Ret () s' \<and> cl_ok E s' (AStr (substr_of str i j) # as) \<and> only_os s s'"
proof -
  have ok: "ostack E s (AInt (int j) # AInt (int i) # AStr str # as)" "bufs_ok E (mm s)" "locals_ok E (mm s)"
    using assms(1) by (auto simp: cl_ok_def)
  let ?s1 = "s\<lparr>topos := topos s - 3\<rparr>"
  let ?s2 = "?s1\<lparr>topos := topos ?s1 - 3\<rparr>"
  note p1 = pop_int_correct [OF ok(1)]
  note p2 = pop_int_correct [OF p1 [THEN conjunct2]]
  have o2: "ostack E ?s2 (AStr str # as)" using p2 by simp
  have c3: "opcast E OT_STRING ?s2 = Ret () ?s2" using opcast_same [OF o2] by (simp add: basic_type_def)
  let ?s3 = "?s2\<lparr>topos := topos ?s2 - int (aop_cells (AStr str))\<rparr>"
  obtain op where op: "popop E ?s2 = Ret op ?s3" "instk E (v_s op) str" "val_of (mm ?s2) op (AStr str)" "ostack E ?s3 as"
    using pop1_instk [OF o2] by blast
  let ?r = "substr_of str i j" and ?p = "sbuf E"
  let ?m = "blit (mm s) ?p (?r @ [0])"
  have buf: "buf_ok E (mm s) ?p SZ_LINE" using ok(3) by (simp add: locals_ok_def)
  then have fit: "?p + length str < length (mm s)" "?p + SZ_LINE \<le> length (mm s)" and out: "outside E ?p SZ_LINE"
    using assms(6) by (auto simp: buf_ok_def)
  have k: "kstr_at (mm s) (v_s op) str" using op(3) by simp
  have "?p + length str < v_s op \<or> v_s op + length str < ?p"
    using instk_apart [OF op(2) out] assms(6) by auto
  then have "substr_copy ?p (v_s op) (int i) (int j) (mm s) = Some ?m"
    using substr_copy_correct [OF k assms(2-5)] assms(6) fit(1) by simp
  then have c4: "memop (substr_copy ?p (v_s op) (int i) (int j)) ?s3 = Ret () (?s3\<lparr>mm := ?m\<rparr>)" by (simp add: memop_def)
  have len: "length ?r \<le> length str" using length_substr_of [OF assms(2-5)] assms(2-5) by (simp split: if_splits)
  have "0 \<notin> set ?r" using k assms(2-5)
    by (auto simp: kstr_at_def substr_of_def dest!: in_set_takeD in_set_dropD split: if_splits)
  then have r: "kstr_at ?m ?p ?r" using len fit assms(6) by (intro kstr_at_new) auto
  have so: "same_outside ?p (?p + SZ_LINE) (mm ?s3) ?m" using len assms(6) fit by (simp, intro same_outside_blit) auto
  have ok4: "cl_ok E (?s3\<lparr>mm := ?m\<rparr>) as"
    using ostack_outside [OF op(4) so out] bufs_ok_write [OF ok(2) buf] locals_ok_write [OF ok(3)] so
    by (simp add: cl_ok_def same_outside_def)
  have "btoi (length ?r + 1) \<le> btoi (length str + 1)" using len by (auto simp: btoi_def intro: div_le_mono)
  then have "topos ?s3 + int (aop_cells (AStr ?r)) < topcs ?s3" using ostack_room [OF ok(1)] by simp
  then obtain s' where s': "pushv E (set_v_s ?p op) (?s3\<lparr>mm := ?m\<rparr>) = Ret () s'" "cl_ok E s' (AStr ?r # as)"
    "only_os (?s3\<lparr>mm := ?m\<rparr>) s'"
    using push_buf_correct [OF ok4, of ?p ?r SZ_LINE op] r len assms(6) op(3) ok4 by (auto simp: cl_ok_def locals_ok_def)
  have "intrfunc E Q (bytes ''substr'') 3 s = op_substr E s"
    by (simp add: intrfunc_def name_codes optbl_def multop_def)
  also have "\<dots> = Ret () s'"
    using p1 p2 c3 op(1) c4 s'(1) by (simp add: op_substr_def cl_simps)
  finally show ?thesis using s'(2,3) by (auto simp: only_os_def)
qed

subsection \<open>On the small machine\<close>

theorem intrfunc_max_min_witness:
  "\<exists>s s'. ostack demo_env s [AInt 3, AInt 5] \<and> intrfunc demo_env demo_Q (bytes ''max'') 2 s = Ret () s' \<and> ostack demo_env s' [AInt 5]"
proof -
  obtain s where s: "ostack demo_env s (map AInt [3, 5] @ [])" "bufs_ok demo_env (mm s)"
    using demo_two [of 5 3] by (auto simp: in_range_def cl_ok_def)
  from intrfunc_max_min [OF s, of demo_Q] s(1) show ?thesis by auto
qed

theorem intrfunc_substr_witness:
  "\<exists>s s'. cl_ok demo_env s [AInt 1, AInt 1, AStr [65]] \<and> intrfunc demo_env demo_Q (bytes ''substr'') 3 s = Ret () s'
    \<and> cl_ok demo_env s' [AStr [65]]"
proof -
  obtain s0 where s0: "cl_ok demo_env s0 [AStr [65]]" "topos s0 = 3" "topcs s0 = 16" using demo_str by auto
  obtain s1 where s1: "cl_ok demo_env s1 [AInt 1, AStr [65]]" "topos s1 = 6" "topcs s1 = 16"
    using demo_int [OF s0(1), of 1] s0 by (auto simp: in_range_def)
  obtain s where s: "cl_ok demo_env s [AInt (int 1), AInt (int 1), AStr [65]]"
    using demo_int [OF s1(1), of 1] s1 by (auto simp: in_range_def)
  from intrfunc_substr [OF s, of demo_Q] s show ?thesis by (auto simp: substr_of_def)
qed

end
