(* ===== verification/Cl_Print.thy ===== *)
theory Cl_Print
  imports Cl_Intrinsic
begin

text \<open>
  The printing of an operand, from \<open>pkg/cl/operand.c\<close>.  The local buffers are lists of characters with
  the size of the array: what does not fit is a fault.  The output of the task is a list that grows.
\<close>

abbreviation MAXPROMPT :: nat where "MAXPROMPT \<equiv> 2048"

definition sprop :: "clenv \<Rightarrow> operand \<Rightarrow> byte list cl" where
  "sprop E op =
     (if opundef op then cl_error (E_IERR (Msg ''can not print an undefined operand''))
      else if opindef op then ret lit_INDEF
      else if OT_BASIC (o_type op) = OT_BOOL then
        memget (cstr_of (if v_i op = 0 then falsestr E else truestr E))
      else if OT_BASIC (o_type op) = OT_INT then ret (fmt_d (v_i op))
      else if OT_BASIC (o_type op) = OT_REAL then
        (let line = f_fmt_g (fl E) (v_r op) in ret (if 46 \<in> set line then line else line @ [46]))
      else memget (cstr_of (v_s op)))"

text \<open>The loop that copies to \<open>newstr\<close>; \<open>n\<close> is \<open>new - newstr\<close>.\<close>

fun nl_escape :: "nat \<Rightarrow> byte list \<Rightarrow> byte list" where
  "nl_escape n [] = []"
| "nl_escape n (c # cs) =
     (if n < SZ_LINE - 1 then
        (if c = 10 then 92 # 110 # nl_escape (n + 2) cs else c # nl_escape (n + 1) cs)
      else [])"

definition fprop :: "clenv \<Rightarrow> operand \<Rightarrow> unit cl" where
  "fprop E op =
     bindc (sprop E op) (\<lambda>outstr.
     if MAXPROMPT < length outstr then crash
     else
       let newstr = nl_escape 0 outstr in
       if SZ_LINE \<le> length newstr then crash
       else modify (\<lambda>s. s\<lparr>tout := tout s @ newstr\<rparr>))"

definition tprintf :: "byte list \<Rightarrow> unit cl" where
  "tprintf line = modify (\<lambda>s. s\<lparr>tout := tout s @ line\<rparr>)"

definition o_immed :: "clenv \<Rightarrow> unit cl" where
  "o_immed E = bindc (popop E) (\<lambda>op. thenc (fprop E op) (tprintf [10]))"

text \<open>The text of a value.\<close>

definition print_text :: "fops \<Rightarrow> aop \<Rightarrow> byte list" where
  "print_text F a = (case a of
     AInt x \<Rightarrow> fmt_d x
   | ABool x \<Rightarrow> if x = 0 then lit_no else lit_yes
   | AReal r \<Rightarrow> (let line = f_fmt_g F r in if 46 \<in> set line then line else line @ [46])
   | AStr str \<Rightarrow> str
   | AIndef t \<Rightarrow> lit_INDEF)"

definition escaped :: "byte list \<Rightarrow> byte list" where
  "escaped line = concat (map (\<lambda>c. if c = 10 then [92, 110] else [c]) line)"

lemma nl_escape_escaped: "n + length (escaped line) < SZ_LINE \<Longrightarrow> nl_escape n line = escaped line"
  by (induction line arbitrary: n) (auto simp: escaped_def)

lemma cstr_of_correct: "kstr_at m p str \<Longrightarrow> cstr_of p m = Some str"
proof (induction str arbitrary: p)
  case Nil
  then show ?case by (subst cstr_of.simps) simp
next
  case (Cons c str)
  then show ?case by (subst cstr_of.simps) auto
qed

lemma sprop_correct:
  assumes "val_of (mm s) op a" "\<not> opundef op" "bufs_ok E (mm s)"
  shows "sprop E op s = Ret (print_text (fl E) a) s"
proof -
  have t: "cstr_of (truestr E) (mm s) = Some lit_yes" "cstr_of (falsestr E) (mm s) = Some lit_no"
    using assms(3) cstr_of_correct by (auto simp: bufs_ok_def)
  show ?thesis
  proof (cases a)
    case (AIndef ty)
    then have "opindef op" using val_of_indef [OF assms(1)] by blast
    with assms(2) AIndef show ?thesis by (simp add: sprop_def print_text_def)
  next
    case (AStr str)
    then show ?thesis
      using assms(1,2) cstr_of_correct [of "mm s" "v_s op" str] not_indef(2) [of "mm s" op str]
      by (simp add: sprop_def print_text_def memget_def)
  qed (use assms(1,2) t not_indef in \<open>auto simp: sprop_def print_text_def memget_def Let_def\<close>)
qed

lemma val_of_undef: "val_of m op a \<Longrightarrow> opundef op \<longleftrightarrow> (\<exists>t. a = AIndef t \<and> bit t 3)"
proof -
  have "\<not> bit (0 :: int) 3" "\<not> bit (1 :: int) 3" "\<not> bit (2 :: int) 3" "\<not> bit (3 :: int) 3"
    by (simp_all add: bit_iff_odd)
  then show "val_of m op a \<Longrightarrow> opundef op \<longleftrightarrow> (\<exists>t. a = AIndef t \<and> bit t 3)"
    by (cases a) (auto simp: opundef_def)
qed

text \<open>A value whose text fits in the two buffers.\<close>

definition printable :: "fops \<Rightarrow> aop \<Rightarrow> bool" where
  "printable F a \<longleftrightarrow> length (print_text F a) \<le> MAXPROMPT \<and> length (escaped (print_text F a)) < SZ_LINE
     \<and> (\<forall>t. a = AIndef t \<longrightarrow> \<not> bit t 3)"

text \<open>
  Printing pops the value on top of the stack and puts its text, with every line feed written as a
  backslash and an \<open>n\<close>, and a line feed on the output.
\<close>

lemma o_immed_prints:
  assumes "ostack E s (a # as)" "bufs_ok E (mm s)" "printable (fl E) a"
  shows "\<exists>s'. o_immed E s = Ret () s' \<and> ostack E s' as \<and> mm s' = mm s \<and> pc s' = pc s
    \<and> topcs s' = topcs s \<and> basos s' = basos s \<and> tout s' = tout s @ escaped (print_text (fl E) a) @ [10]"
proof -
  let ?s = "s\<lparr>topos := topos s - int (aop_cells a)\<rparr>"
  obtain op where op: "popop E s = Ret op ?s" "val_of (mm ?s) op a" "ostack E ?s as"
    using popop_correct [OF assms(1)] by auto
  have "\<not> opundef op" using val_of_undef [OF op(2)] assms(3) by (auto simp: printable_def)
  then have "sprop E op ?s = Ret (print_text (fl E) a) ?s" using sprop_correct [OF op(2)] assms(2) by simp
  moreover have "nl_escape 0 (print_text (fl E) a) = escaped (print_text (fl E) a)"
    using assms(3) by (intro nl_escape_escaped) (simp add: printable_def)
  ultimately have "fprop E op ?s = Ret () (?s\<lparr>tout := tout s @ escaped (print_text (fl E) a)\<rparr>)"
    using assms(3) by (simp add: fprop_def cl_simps Let_def printable_def)
  with op(1) have "o_immed E s = Ret () (?s\<lparr>tout := tout s @ escaped (print_text (fl E) a) @ [10]\<rparr>)"
    by (simp add: o_immed_def tprintf_def cl_simps)
  with op(3) show ?thesis by (auto simp: ostack_def lay_ok_def)
qed

lemma nl_escape_at_end: "10 \<notin> set cs \<Longrightarrow> n + length cs < SZ_LINE - 1 \<Longrightarrow> nl_escape n (cs @ [10]) = cs @ [92, 110]"
  by (induction cs arbitrary: n) auto

text \<open>
  the test for the end of \<open>newstr\<close> leaves no room for a line feed, which takes two characters: a
  string with one in the last place but one puts the EOS behind the array.
\<close>

theorem fprop_overrun:
  assumes "val_of (mm s) op (AStr (cs @ [10]))" "10 \<notin> set cs" "length cs = SZ_LINE - 2"
  shows "fprop E op s = Fault"
proof -
  have "\<not> opundef op" "\<not> opindef op" "OT_BASIC (o_type op) = 3"
    using val_of_undef [OF assms(1)] val_of_indef [OF assms(1)] assms(1) by auto
  then have "sprop E op s = Ret (cs @ [10]) s"
    using assms(1) cstr_of_correct [of "mm s" "v_s op" "cs @ [10]"] by (simp add: sprop_def memget_def)
  moreover have "nl_escape 0 (cs @ [10]) = cs @ [92, 110]" using assms(2,3) by (intro nl_escape_at_end) auto
  ultimately show ?thesis using assms(3) by (simp add: fprop_def cl_simps Let_def crash_def)
qed

theorem fprop_overrun_witness:
  "fprop demo_env (set_v_s 0 \<lparr>o_type = 3, o_raw = []\<rparr>) (demo_state\<lparr>mm := replicate 1021 97 @ [10, 0]\<rparr>) = Fault"
proof (rule fprop_overrun)
  have "kstr_at (replicate 1021 97 @ [10, 0]) 0 (replicate 1021 97 @ [10 :: byte])"
    by (simp add: kstr_at_def slice_def)
  then show "val_of (mm (demo_state\<lparr>mm := replicate 1021 97 @ [10, 0]\<rparr>)) (set_v_s 0 \<lparr>o_type = 3, o_raw = []\<rparr>)
      (AStr (replicate 1021 97 @ [10]))"
    by (simp)
qed (simp_all)

end
