(* ===== verification/Cl_Code.thy ===== *)
theory Cl_Code
  imports Cl_Print
begin

text \<open>
  The code of the CL: \<open>compile\<close> of \<open>pkg/cl/compile.c\<close>, which puts instructions into the stack array,
  the instructions of \<open>opcodes.c\<close> that work on the operand stack and the program counter, and the
  interpreter \<open>run\<close> of \<open>exec.c\<close>.  The instructions that work on tasks, parameters, pipes and streams
  are a parameter of the interpreter, and so is what makes it leave its loop besides \<open>END\<close>.
\<close>

subsection \<open>Opcodes\<close>

abbreviation ABSARGSET :: int where "ABSARGSET \<equiv> 1"
abbreviation ADD :: int where "ADD \<equiv> 2"
abbreviation ADDASSIGN :: int where "ADDASSIGN \<equiv> 3"
abbreviation ADDPIPE :: int where "ADDPIPE \<equiv> 4"
abbreviation ALLAPPEND :: int where "ALLAPPEND \<equiv> 5"
abbreviation ALLREDIR :: int where "ALLREDIR \<equiv> 6"
abbreviation I_AND :: int where "I_AND \<equiv> 7"
abbreviation APPENDOUT :: int where "APPENDOUT \<equiv> 8"
abbreviation ASSIGN :: int where "ASSIGN \<equiv> 9"
abbreviation BIFF :: int where "BIFF \<equiv> 10"
abbreviation CALL :: int where "CALL \<equiv> 11"
abbreviation CASE :: int where "CASE \<equiv> 12"
abbreviation CHSIGN :: int where "CHSIGN \<equiv> 13"
abbreviation CONCAT :: int where "CONCAT \<equiv> 14"
abbreviation DEFAULT :: int where "DEFAULT \<equiv> 15"
abbreviation DIV :: int where "DIV \<equiv> 16"
abbreviation DIVASSIGN :: int where "DIVASSIGN \<equiv> 17"
abbreviation END :: int where "END \<equiv> 18"
abbreviation EQ :: int where "EQ \<equiv> 19"
abbreviation EXEC :: int where "EXEC \<equiv> 20"
abbreviation FSCAN :: int where "FSCAN \<equiv> 21"
abbreviation FSCANF :: int where "FSCANF \<equiv> 22"
abbreviation GE :: int where "GE \<equiv> 23"
abbreviation GOTO :: int where "GOTO \<equiv> 24"
abbreviation GETPIPE :: int where "GETPIPE \<equiv> 25"
abbreviation GT :: int where "GT \<equiv> 26"
abbreviation IMMED :: int where "IMMED \<equiv> 27"
abbreviation INDIRABSSET :: int where "INDIRABSSET \<equiv> 28"
abbreviation INDIRPOSSET :: int where "INDIRPOSSET \<equiv> 29"
abbreviation INDXINCR :: int where "INDXINCR \<equiv> 30"
abbreviation INSPECT :: int where "INSPECT \<equiv> 31"
abbreviation INTRINSIC :: int where "INTRINSIC \<equiv> 32"
abbreviation LE :: int where "LE \<equiv> 33"
abbreviation LT :: int where "LT \<equiv> 34"
abbreviation MUL :: int where "MUL \<equiv> 35"
abbreviation MULASSIGN :: int where "MULASSIGN \<equiv> 36"
abbreviation NE :: int where "NE \<equiv> 37"
abbreviation I_NOT :: int where "I_NOT \<equiv> 38"
abbreviation I_OR :: int where "I_OR \<equiv> 39"
abbreviation OSESC :: int where "OSESC \<equiv> 40"
abbreviation POSARGSET :: int where "POSARGSET \<equiv> 41"
abbreviation POW :: int where "POW \<equiv> 42"
abbreviation PRINT :: int where "PRINT \<equiv> 43"
abbreviation PUSHCONST :: int where "PUSHCONST \<equiv> 44"
abbreviation PUSHINDEX :: int where "PUSHINDEX \<equiv> 45"
abbreviation PUSHPARAM :: int where "PUSHPARAM \<equiv> 46"
abbreviation REDIR :: int where "REDIR \<equiv> 47"
abbreviation REDIRIN :: int where "REDIRIN \<equiv> 48"
abbreviation RMPIPES :: int where "RMPIPES \<equiv> 49"
abbreviation RETURN :: int where "RETURN \<equiv> 50"
abbreviation SCAN :: int where "SCAN \<equiv> 51"
abbreviation SCANF :: int where "SCANF \<equiv> 52"
abbreviation SUB :: int where "SUB \<equiv> 53"
abbreviation SUBASSIGN :: int where "SUBASSIGN \<equiv> 54"
abbreviation SWITCH :: int where "SWITCH \<equiv> 55"
abbreviation SWOFF :: int where "SWOFF \<equiv> 56"
abbreviation SWON :: int where "SWON \<equiv> 57"
abbreviation FIXLANGUAGE :: int where "FIXLANGUAGE \<equiv> 58"
abbreviation GSREDIR :: int where "GSREDIR \<equiv> 59"
abbreviation CATASSIGN :: int where "CATASSIGN \<equiv> 60"

text \<open>The opcodes by what \<open>compile\<close> expects after them.\<close>

definition string_ops :: "int set" where
  "string_ops = {ABSARGSET, ADDASSIGN, ASSIGN, CALL, CATASSIGN, DIVASSIGN, GETPIPE, GSREDIR, INDIRABSSET, INSPECT,
     INTRINSIC, OSESC, MULASSIGN, PUSHPARAM, SUBASSIGN, SWOFF, SWON}"

definition plain_ops :: "int set" where
  "plain_ops = {ADD, ALLAPPEND, ALLREDIR, I_AND, APPENDOUT, CHSIGN, CONCAT, DEFAULT, DIV, END, EQ, EXEC, FSCAN, FSCANF,
     GE, GT, IMMED, LE, LT, MUL, NE, I_NOT, I_OR, POW, PRINT, REDIR, REDIRIN, RETURN, SCAN, SCANF, SUB, FIXLANGUAGE}"

definition int_ops :: "int set" where
  "int_ops = {ADDPIPE, BIFF, GOTO, INDIRPOSSET, PUSHINDEX, POSARGSET, RMPIPES}"

subsection \<open>\<open>compile\<close>\<close>

text \<open>The variable arguments.\<close>

datatype carg = CNone | CStr nat | COp operand | CInt int | CInts int int

abbreviation ERR :: int where "ERR \<equiv> - 1"

text \<open>
  \<open>comstr\<close> copies a string to a cell and returns the number of cells it takes.
\<close>

definition comstr :: "nat \<Rightarrow> nat \<Rightarrow> mem \<Rightarrow> (int \<times> mem) option" where
  "comstr str loc m = do {
     len \<leftarrow> strlen str m;
     m' \<leftarrow> copy_string str loc m;
     Some (int (btoi (nat len + 1)), m') }"

definition memres :: "(mem \<Rightarrow> ('a \<times> mem) option) \<Rightarrow> 'a cl" where
  "memres f = (\<lambda>s. case f (mm s) of None \<Rightarrow> Fault | Some (a, m) \<Rightarrow> Ret a (s\<lparr>mm := m\<rparr>))"

definition at_cell :: "clenv \<Rightarrow> int \<Rightarrow> (nat \<Rightarrow> 'a cl) \<Rightarrow> 'a cl" where
  "at_cell E i f = (case cell E i of None \<Rightarrow> crash | Some p \<Rightarrow> f p)"

definition add_length :: "clenv \<Rightarrow> int \<Rightarrow> int \<Rightarrow> unit cl" where
  "add_length E cep n =
     bindc (get_cell E (cep + 1)) (\<lambda>len. set_cell E (cep + 1) (len + word_of_int n))"

text \<open>The constant is copied behind the instruction, and its string behind that.\<close>

definition compile_const :: "clenv \<Rightarrow> int \<Rightarrow> operand \<Rightarrow> int cl" where
  "compile_const E cep op =
     at_cell E (cep + 2) (\<lambda>dp.
     thenc (memop (store_operand dp op))
     (thenc (add_length E cep OPSIZ)
     (if OT_BASIC (o_type op) = OT_STRING then
        bindc (memres (comstr (v_s op) (dp + 16))) (\<lambda>status.
        if status \<noteq> ERR then
          thenc (memop (\<lambda>m. case load_operand dp m of None \<Rightarrow> None
                            | Some op' \<Rightarrow> store_operand dp (set_v_s (dp + 16) op') m))
          (thenc (add_length E cep status) (ret status))
        else ret status)
      else ret 0)))"

definition compile_args :: "clenv \<Rightarrow> int \<Rightarrow> int \<Rightarrow> carg \<Rightarrow> int cl" where
  "compile_args E cep opcode arg =
     (if opcode \<in> string_ops then
        (case arg of
           CStr sp \<Rightarrow>
             bindc (at_cell E (cep + 2) (\<lambda>q. memres (comstr sp q))) (\<lambda>status.
             thenc (if status \<noteq> ERR then add_length E cep status else ret ()) (ret status))
         | _ \<Rightarrow> crash)
      else if opcode = PUSHCONST then (case arg of COp op \<Rightarrow> compile_const E cep op | _ \<Rightarrow> crash)
      else if opcode \<in> plain_ops then ret 0
      else if opcode \<in> int_ops then
        (case arg of
           CInt x \<Rightarrow> thenc (set_cell E (cep + 2) (word_of_int x)) (thenc (add_length E cep 1) (ret 0))
         | _ \<Rightarrow> crash)
      else if opcode = SWITCH then thenc (add_length E cep 1) (ret 0)
      else if opcode = CASE then
        (case arg of CInt x \<Rightarrow> thenc (add_length E cep x) (ret 0) | _ \<Rightarrow> crash)
      else if opcode = INDXINCR then
        (case arg of
           CInts x y \<Rightarrow>
             thenc (add_length E cep 2)
             (thenc (set_cell E (cep + 2) (word_of_int x)) (thenc (set_cell E (cep + 3) (word_of_int y)) (ret 0)))
         | _ \<Rightarrow> crash)
      else cl_error (E_IERR (Badsw opcode)))"

definition compile :: "clenv \<Rightarrow> int \<Rightarrow> carg \<Rightarrow> int cl" where
  "compile E opcode arg =
     bindc (gets (\<lambda>s. pc s > topcs s - 20)) (\<lambda>collision.
     if collision then thenc (eprintf (Msg ''INTERNAL ERROR: pc/topcs collision'')) (ret ERR)
     else
       bindc (gets pc) (\<lambda>cep.
       thenc (set_cell E cep (word_of_int opcode))
       (thenc (set_cell E (cep + 1) 2)
       (bindc (compile_args E cep opcode arg) (\<lambda>status.
       if status \<noteq> ERR then
         bindc (get_cell E (cep + 1)) (\<lambda>len.
         thenc (modify (\<lambda>s. s\<lparr>pc := pc s + sint len\<rparr>)) (ret cep))
       else ret ERR)))))"

subsection \<open>The instructions\<close>

record clops =
  x_op :: "int \<Rightarrow> nat \<Rightarrow> unit cl"
  x_leave :: "int \<Rightarrow> clm \<Rightarrow> bool"

definition o_pushconst :: "clenv \<Rightarrow> nat \<Rightarrow> unit cl" where
  "o_pushconst E argp =
     bindc (memget (load_operand argp)) (\<lambda>op.
     if opundef op then cl_error (E_UERR (Msg ''illegal constant'')) else pushv E op)"

definition arg_int :: "nat \<Rightarrow> int cl" where
  "arg_int argp = memget (\<lambda>m. map_option to_int (cload XLONG m argp))"

definition goto_by :: "clenv \<Rightarrow> int \<Rightarrow> unit cl" where
  "goto_by E n =
     thenc (modify (\<lambda>s. s\<lparr>pc := pc s + n\<rparr>))
     (bindc (gets pc) (\<lambda>p.
     if p \<ge> stacksiz E then cl_error (E_IERR (Msg ''pc set wildly during goto'')) else ret ()))"

definition o_dogoto :: "clenv \<Rightarrow> nat \<Rightarrow> unit cl" where
  "o_dogoto E argp = bindc (arg_int argp) (goto_by E)"

definition o_biff :: "clenv \<Rightarrow> nat \<Rightarrow> unit cl" where
  "o_biff E argp =
     thenc (opcast E OT_BOOL)
     (bindc (popop E) (\<lambda>op.
     if v_i op = 0 \<or> opindef op then
       bindc (arg_int argp) (\<lambda>n. modify (\<lambda>s. s\<lparr>pc := pc s + n\<rparr>))
     else ret ()))"

definition o_intrinsic :: "clenv \<Rightarrow> sysenv \<Rightarrow> nat \<Rightarrow> unit cl" where
  "o_intrinsic E Q argp =
     bindc (popop E) (\<lambda>op.
     bindc (memget (cstr_of argp)) (\<lambda>funcname. intrfunc E Q funcname (v_i op)))"

text \<open>
  The table of instructions; the null pointers at \<open>CASE\<close> and \<open>DEFAULT\<close>, and what is not in the table,
  crash.
\<close>

definition binop_code :: "int \<Rightarrow> int option" where
  "binop_code opcode = map_of [(ADD, OP_ADD), (SUB, OP_SUB), (MUL, OP_MUL), (DIV, OP_DIV), (POW, OP_POW), (CONCAT, OP_CONCAT)] opcode"

definition binexp_code :: "int \<Rightarrow> int option" where
  "binexp_code opcode = map_of [(LT, OP_LT), (GT, OP_GT), (LE, OP_LE), (GE, OP_GE), (EQ, OP_EQ), (NE, OP_NE),
     (I_OR, OP_OR), (I_AND, OP_AND)] opcode"

definition opcodetbl :: "clenv \<Rightarrow> sysenv \<Rightarrow> clops \<Rightarrow> int \<Rightarrow> nat \<Rightarrow> unit cl" where
  "opcodetbl E Q X opcode argp =
     (case binop_code opcode of Some c \<Rightarrow> binop E c
      | None \<Rightarrow>
     (case binexp_code opcode of Some c \<Rightarrow> binexp E c
      | None \<Rightarrow>
        if opcode = 0 then cl_error (E_IERR (Msg ''undefined opcode''))
        else if opcode = I_NOT then unexp E OP_NOT
        else if opcode = CHSIGN then unop E Q OP_MINUS
        else if opcode = PUSHCONST then o_pushconst E argp
        else if opcode = BIFF then o_biff E argp
        else if opcode = GOTO then o_dogoto E argp
        else if opcode = IMMED then o_immed E
        else if opcode = INTRINSIC then o_intrinsic E Q argp
        else if opcode = END then ret ()
        else if opcode = CASE \<or> opcode = DEFAULT \<or> opcode < 0 \<or> CATASSIGN < opcode then crash
        else x_op X opcode argp))"

text \<open>One turn of the loop of \<open>run\<close>, and the loop with a bound on its turns.\<close>

definition run_step :: "clenv \<Rightarrow> sysenv \<Rightarrow> clops \<Rightarrow> int cl" where
  "run_step E Q X =
     bindc (gets pc) (\<lambda>cp.
     bindc (get_cell E cp) (\<lambda>op.
     let opcode = to_int (sint op) in
     bindc (get_cell E (cp + 1)) (\<lambda>len.
     thenc (modify (\<lambda>s. s\<lparr>pc := pc s + sint len\<rparr>))
     (thenc (at_cell E (cp + 2) (opcodetbl E Q X opcode)) (ret opcode)))))"

fun run :: "clenv \<Rightarrow> sysenv \<Rightarrow> clops \<Rightarrow> nat \<Rightarrow> clm \<Rightarrow> unit clres option" where
  "run E Q X 0 s = None"
| "run E Q X (Suc n) s = (case run_step E Q X s of
      Ret opcode s' \<Rightarrow> if opcode = END \<or> x_leave X opcode s' then Some (Ret () s') else run E Q X n s'
    | Raise e s' \<Rightarrow> Some (Raise e s')
    | Fault \<Rightarrow> Some Fault)"

end
