(* ===== verification/Cl_Compile.thy ===== *)
theory Cl_Compile
  imports Cl_Code
begin

text \<open>
  The code that the parser of the CL emits for expressions and statements, and what it does when it runs.
\<close>

text \<open>Updates of different registers, in the order of the record.\<close>

lemma clm_update_order [simp]:
  fixes s :: clm
  shows "s\<lparr>topcs := t, mm := m\<rparr> = s\<lparr>mm := m, topcs := t\<rparr>" "s\<lparr>pc := p, mm := m\<rparr> = s\<lparr>mm := m, pc := p\<rparr>"
    "s\<lparr>pc := p, topcs := t\<rparr> = s\<lparr>topcs := t, pc := p\<rparr>"
  by simp_all

subsection \<open>Instructions in the stack array\<close>

definition cellw :: "clenv \<Rightarrow> mem \<Rightarrow> nat \<Rightarrow> memel" where
  "cellw E m i = word_of_int (cdec XLONG (slice m (stk E + 8 * i) 8))"

abbreviation cells :: "clenv \<Rightarrow> nat \<Rightarrow> nat \<Rightarrow> mem \<Rightarrow> mem \<Rightarrow> bool" where
  "cells E a b m m' \<equiv> same_outside (stk E + 8 * a) (stk E + 8 * b) m m'"

lemma cellw_same:
  assumes "cells E a b m m'" "i < a \<or> b \<le> i" "stk E + 8 * i + 8 \<le> length m"
  shows "cellw E m' i = cellw E m i"
  unfolding cellw_def
  by (subst slice_same [OF same_outside_on [OF assms(1), of "stk E + 8 * i + 8" "stk E + 8 * i"]]) (use assms in auto)

lemma cells_mono: "cells E a b m m' \<Longrightarrow> a' \<le> a \<Longrightarrow> b \<le> b' \<Longrightarrow> cells E a' b' m m'"
  by (rule same_outside_mono) auto

lemma cells_trans: "cells E a b m m' \<Longrightarrow> cells E a b m' m'' \<Longrightarrow> cells E a b m m''"
  by (rule same_outside_trans)

lemma cells_length: "cells E a b m m' \<Longrightarrow> length m' = length m"
  by (simp add: same_outside_def)

text \<open>
  Room for code: the array in memory, and \<open>pc\<close> and the operand stack below the control stack.  Code may be put over
  what an earlier command left of the operand stack: \<open>main\<close> sets \<open>pc\<close> back before a command is parsed, and \<open>topos\<close> only
  afterwards.
\<close>

definition code_ok :: "clenv \<Rightarrow> clm \<Rightarrow> bool" where
  "code_ok E s \<longleftrightarrow> stk E + 8 * nat (stacksiz E) \<le> length (mm s) \<and> length (mm s) < 2 ^ 63
     \<and> - 1 \<le> topos s \<and> topos s < topcs s \<and> 0 \<le> pc s \<and> pc s \<le> topcs s \<and> topcs s \<le> stacksiz E
     \<and> stacksiz E < 2147483648"

lemma code_ok_cell:
  assumes "code_ok E s" "int i < stacksiz E"
  shows "stk E + 8 * i + 8 \<le> length (mm s)"
proof -
  have "i + 1 \<le> nat (stacksiz E)" using assms(2) by linarith
  then show ?thesis using assms(1) by (simp add: code_ok_def)
qed

lemma set_cellw:
  assumes "code_ok E s" "int i < stacksiz E"
  shows "\<exists>m'. set_cell E (int i) v s = Ret () (s\<lparr>mm := m'\<rparr>) \<and> cellw E m' i = v \<and> cells E i (i + 1) (mm s) m'"
  using set_cell_correct [of "int i" E s v] code_ok_cell [OF assms] by (auto simp: cellw_def algebra_simps)

lemma get_cellw:
  assumes "stk E + 8 * i + 8 \<le> length (mm s)"
  shows "get_cell E (int i) s = Ret (cellw E (mm s) i) s"
  using assms by (simp add: get_cell_def memget_def cell_def cellw_def)

lemma code_ok_mm: "code_ok E s \<Longrightarrow> length m' = length (mm s) \<Longrightarrow> code_ok E (s\<lparr>mm := m'\<rparr>)"
  by (simp add: code_ok_def)

datatype instr = Op int | OpInt int int | PushC operand

fun ilen :: "instr \<Rightarrow> nat" where
  "ilen (Op c) = 2"
| "ilen (OpInt c x) = 3"
| "ilen (PushC op) = 4"

fun instr_at :: "clenv \<Rightarrow> mem \<Rightarrow> nat \<Rightarrow> instr \<Rightarrow> bool" where
  "instr_at E m p (Op c) \<longleftrightarrow> cellw E m p = word_of_int c \<and> cellw E m (p + 1) = 2"
| "instr_at E m p (OpInt c x) \<longleftrightarrow> cellw E m p = word_of_int c \<and> cellw E m (p + 1) = 3 \<and> cellw E m (p + 2) = word_of_int x"
| "instr_at E m p (PushC op) \<longleftrightarrow> cellw E m p = word_of_int PUSHCONST \<and> cellw E m (p + 1) = 4
     \<and> load_operand (stk E + 8 * (p + 2)) m = Some op"

lemma instr_at_same:
  assumes "instr_at E m p i" "cells E a b m m'" "p + ilen i \<le> a \<or> b \<le> p" "stk E + 8 * (p + ilen i) \<le> length m"
  shows "instr_at E m' p i"
proof -
  have c: "cellw E m' j = cellw E m j" if "p \<le> j" "j < p + ilen i" for j
    using that assms(3,4) by (intro cellw_same [OF assms(2)]) auto
  show ?thesis
  proof (cases i)
    case (PushC op)
    have "same_on (stk E + 8 * (p + 2)) (stk E + 8 * (p + 2) + 16) m m'"
      using assms(2-4) PushC by (intro same_outside_on [OF assms(2)]) auto
    with assms(1,4) c PushC show ?thesis
      by (auto intro: load_operand_same)
  qed (use assms(1) c in auto)
qed

fun instr_ok :: "instr \<Rightarrow> bool" where
  "instr_ok (Op c) \<longleftrightarrow> c \<in> plain_ops"
| "instr_ok (OpInt c x) \<longleftrightarrow> c \<in> int_ops \<and> in_range CINT x"
| "instr_ok (PushC op) \<longleftrightarrow> op_ok op \<and> OT_BASIC (o_type op) \<noteq> OT_STRING"

fun emit :: "clenv \<Rightarrow> instr \<Rightarrow> int cl" where
  "emit E (Op c) = compile E c CNone"
| "emit E (OpInt c x) = compile E c (CInt x)"
| "emit E (PushC op) = compile E PUSHCONST (COp op)"

subsection \<open>\<open>compile\<close> puts an instruction at the program counter\<close>

lemma op_classes:
  "\<forall>c \<in> plain_ops. c \<notin> string_ops \<and> c \<noteq> PUSHCONST"
  "\<forall>c \<in> int_ops. c \<notin> string_ops \<and> c \<notin> plain_ops \<and> c \<noteq> PUSHCONST"
  "PUSHCONST \<notin> string_ops"
  by code_simp+

lemma compile_head:
  assumes "code_ok E s" "pc s + 20 \<le> topcs s"
  shows "\<exists>m1. compile E opcode arg s =
       bindc (compile_args E (pc s) opcode arg) (\<lambda>status.
         if status \<noteq> ERR then
           bindc (get_cell E (pc s + 1)) (\<lambda>len. thenc (modify (\<lambda>s. s\<lparr>pc := pc s + sint len\<rparr>)) (ret (pc s)))
         else ret ERR) (s\<lparr>mm := m1\<rparr>)
     \<and> cellw E m1 (nat (pc s)) = word_of_int opcode \<and> cellw E m1 (nat (pc s) + 1) = 2
     \<and> cells E (nat (pc s)) (nat (pc s) + 2) (mm s) m1"
proof -
  let ?p = "nat (pc s)"
  have p: "int ?p = pc s" "int (?p + 1) = pc s + 1" "int (?p + 1) < stacksiz E" using assms by (auto simp: code_ok_def)
  obtain m0 where m0: "set_cell E (pc s) (word_of_int opcode) s = Ret () (s\<lparr>mm := m0\<rparr>)" "cellw E m0 ?p = word_of_int opcode"
    "cells E ?p (?p + 1) (mm s) m0" using set_cellw [OF assms(1), of ?p] p by auto
  have ok0: "code_ok E (s\<lparr>mm := m0\<rparr>)" using code_ok_mm [OF assms(1)] cells_length [OF m0(3)] by simp
  obtain m1 where m1: "set_cell E (pc s + 1) 2 (s\<lparr>mm := m0\<rparr>) = Ret () (s\<lparr>mm := m1\<rparr>)" "cellw E m1 (?p + 1) = 2"
    "cells E (?p + 1) (?p + 2) m0 m1" using set_cellw [OF ok0 p(3), of 2] unfolding p(2) by auto
  have "cellw E m1 ?p = cellw E m0 ?p"
    using code_ok_cell [OF ok0, of ?p] p by (intro cellw_same [OF m1(3)]) auto
  moreover have "cells E ?p (?p + 2) (mm s) m1"
    by (rule cells_trans [OF cells_mono [OF m0(3)] cells_mono [OF m1(3)]]) auto
  ultimately show ?thesis
    using m0(1,2) m1(1,2) assms(2) by (intro exI [of _ m1]) (simp add: compile_def cl_simps)
qed

lemma add_length_correct:
  assumes "code_ok E s" "int (p + 1) < stacksiz E"
  shows "\<exists>m'. add_length E (int p) n s = Ret () (s\<lparr>mm := m'\<rparr>) \<and> cellw E m' (p + 1) = cellw E (mm s) (p + 1) + word_of_int n
    \<and> cells E (p + 1) (p + 2) (mm s) m'"
proof -
  have i: "int p + 1 = int (p + 1)" by simp
  have "get_cell E (int (p + 1)) s = Ret (cellw E (mm s) (p + 1)) s"
    using code_ok_cell [OF assms] by (intro get_cellw)
  with set_cellw [OF assms, of "cellw E (mm s) (p + 1) + word_of_int n"] show ?thesis
    unfolding add_length_def i by (auto simp: cl_simps)
qed

text \<open>The end of \<open>compile\<close>: the program counter advances by the length of the instruction.\<close>

lemma compile_tail:
  assumes "code_ok E s" "pc s + 20 \<le> topcs s" "mm s' = m'" "s' = s\<lparr>mm := m'\<rparr>" "cells E (nat (pc s)) b (mm s) m'"
    "cellw E m' (nat (pc s) + 1) = word_of_int (int n)" "n < 20"
  shows "bindc (get_cell E (pc s + 1)) (\<lambda>len. thenc (modify (\<lambda>s. s\<lparr>pc := pc s + sint len\<rparr>)) (ret (pc s))) s'
    = Ret (pc s) (s\<lparr>mm := m', pc := pc s + int n\<rparr>)"
proof -
  let ?p = "nat (pc s)"
  have p: "int (?p + 1) = pc s + 1" "int (?p + 1) < stacksiz E" using assms(1,2) by (auto simp: code_ok_def)
  have ok: "code_ok E s'" using code_ok_mm [OF assms(1)] cells_length [OF assms(5)] assms(4) by simp
  have "get_cell E (int (?p + 1)) s' = Ret (cellw E (mm s') (?p + 1)) s'"
    using code_ok_cell [OF ok p(2)] by (intro get_cellw)
  moreover have "sint (word_of_int (int n) :: memel) = int n"
    using assms(7) by (simp add: signed_of_nat signed_take_bit_int_eq_self)
  ultimately show ?thesis using assms(3,4,6) unfolding p(1) by (simp add: cl_simps)
qed

lemma emit_correct:
  assumes "code_ok E s" "pc s + 20 \<le> topcs s" "instr_ok i"
  shows "\<exists>m'. emit E i s = Ret (pc s) (s\<lparr>mm := m', pc := pc s + int (ilen i)\<rparr>)
    \<and> instr_at E m' (nat (pc s)) i \<and> cells E (nat (pc s)) (nat (pc s) + ilen i) (mm s) m'"
proof -
  let ?p = "nat (pc s)"
  have p: "int ?p = pc s" "int (?p + 2) = pc s + 2" using assms by (auto simp: code_ok_def)
  have lt: "int ?p < stacksiz E" "int (?p + 1) < stacksiz E" "int (?p + 2) < stacksiz E" "int (?p + 3) < stacksiz E"
    using assms by (auto simp: code_ok_def)
  show ?thesis
  proof (cases i)
    case (Op c)
    obtain m1 where h: "cellw E m1 ?p = word_of_int c" "cellw E m1 (?p + 1) = 2" "cells E ?p (?p + 2) (mm s) m1"
      "compile E c CNone s = bindc (compile_args E (pc s) c CNone) (\<lambda>status.
         if status \<noteq> ERR then
           bindc (get_cell E (pc s + 1)) (\<lambda>len. thenc (modify (\<lambda>s. s\<lparr>pc := pc s + sint len\<rparr>)) (ret (pc s)))
         else ret ERR) (s\<lparr>mm := m1\<rparr>)" using compile_head [OF assms(1,2)] by blast
    have "compile_args E (pc s) c CNone = ret 0" using assms(3) Op op_classes by (simp add: compile_args_def)
    with h compile_tail [OF assms(1,2) _ refl h(3), of 2] Op show ?thesis by (auto simp: cl_simps)
  next
    case (OpInt c x)
    obtain m1 where h: "cellw E m1 ?p = word_of_int c" "cellw E m1 (?p + 1) = 2" "cells E ?p (?p + 2) (mm s) m1"
      "compile E c (CInt x) s = bindc (compile_args E (pc s) c (CInt x)) (\<lambda>status.
         if status \<noteq> ERR then
           bindc (get_cell E (pc s + 1)) (\<lambda>len. thenc (modify (\<lambda>s. s\<lparr>pc := pc s + sint len\<rparr>)) (ret (pc s)))
         else ret ERR) (s\<lparr>mm := m1\<rparr>)" using compile_head [OF assms(1,2)] by blast
    have ok1: "code_ok E (s\<lparr>mm := m1\<rparr>)" using code_ok_mm [OF assms(1)] cells_length [OF h(3)] by simp
    obtain m2 where m2: "set_cell E (pc s + 2) (word_of_int x) (s\<lparr>mm := m1\<rparr>) = Ret () (s\<lparr>mm := m2\<rparr>)"
      "cellw E m2 (?p + 2) = word_of_int x" "cells E (?p + 2) (?p + 2 + 1) m1 m2"
      using set_cellw [OF ok1 lt(3), of "word_of_int x"] unfolding p(2) by fastforce
    have ok2: "code_ok E (s\<lparr>mm := m2\<rparr>)" using code_ok_mm [OF assms(1)] cells_length [OF h(3)] cells_length [OF m2(3)] by simp
    obtain m3 where m3: "add_length E (pc s) 1 (s\<lparr>mm := m2\<rparr>) = Ret () (s\<lparr>mm := m3\<rparr>)"
      "cellw E m3 (?p + 1) = cellw E m2 (?p + 1) + 1" "cells E (?p + 1) (?p + 2) m2 m3"
      using add_length_correct [OF ok2 lt(2), of 1] unfolding p(1) by auto
    note fit = code_ok_cell [OF assms(1)] and len = cells_length [OF h(3)] cells_length [OF m2(3)]
    have c: "cellw E m2 ?p = word_of_int c" "cellw E m2 (?p + 1) = 2"
      using cellw_same [OF m2(3), of ?p] cellw_same [OF m2(3), of "?p + 1"] h fit [OF lt(1)] fit [OF lt(2)] len by auto
    then have c3: "cellw E m3 ?p = word_of_int c" "cellw E m3 (?p + 1) = 3" "cellw E m3 (?p + 2) = word_of_int x"
      using cellw_same [OF m3(3), of ?p] cellw_same [OF m3(3), of "?p + 2"] m2 m3 fit [OF lt(1)] fit [OF lt(3)] len by auto
    have fr: "cells E ?p (?p + 3) (mm s) m3"
      by (rule cells_trans [OF cells_mono [OF h(3)] cells_trans [OF cells_mono [OF m2(3)] cells_mono [OF m3(3)]]]) auto
    have "compile_args E (pc s) c (CInt x) (s\<lparr>mm := m1\<rparr>) = Ret 0 (s\<lparr>mm := m3\<rparr>)"
      using assms(3) OpInt op_classes m2(1) m3(1) by (simp add: compile_args_def cl_simps)
    with h(4) compile_tail [OF assms(1,2) _ refl fr, of 3] OpInt c3 fr show ?thesis by (auto simp: cl_simps)
  next
    case (PushC op)
    obtain m1 where h: "cellw E m1 ?p = word_of_int PUSHCONST" "cellw E m1 (?p + 1) = 2" "cells E ?p (?p + 2) (mm s) m1"
      "compile E PUSHCONST (COp op) s = bindc (compile_args E (pc s) PUSHCONST (COp op)) (\<lambda>status.
         if status \<noteq> ERR then
           bindc (get_cell E (pc s + 1)) (\<lambda>len. thenc (modify (\<lambda>s. s\<lparr>pc := pc s + sint len\<rparr>)) (ret (pc s)))
         else ret ERR) (s\<lparr>mm := m1\<rparr>)" using compile_head [OF assms(1,2)] by blast
    let ?d = "stk E + 8 * (?p + 2)"
    note fit = code_ok_cell [OF assms(1)] and len1 = cells_length [OF h(3)]
    have d: "?d + 16 \<le> length m1" "?d + 16 = stk E + 8 * (?p + 4)" using fit [OF lt(4)] len1 by auto
    have "op_ok op" using assms(3) PushC by simp
    then obtain m2 where
      m2: "store_operand ?d op m1 = Some m2" "load_operand ?d m2 = Some op" "cells E (?p + 2) (?p + 4) m1 m2"
      using load_store_operand [OF _ d(1), of op] unfolding d(2) by blast
    note len2 = cells_length [OF m2(3)]
    have ok2: "code_ok E (s\<lparr>mm := m2\<rparr>)" using code_ok_mm [OF assms(1)] len1 len2 by simp
    obtain m3 where m3: "add_length E (pc s) 2 (s\<lparr>mm := m2\<rparr>) = Ret () (s\<lparr>mm := m3\<rparr>)"
      "cellw E m3 (?p + 1) = cellw E m2 (?p + 1) + 2" "cells E (?p + 1) (?p + 2) m2 m3"
      using add_length_correct [OF ok2 lt(2), of 2] unfolding p(1) by auto
    have c: "cellw E m2 ?p = word_of_int PUSHCONST" "cellw E m2 (?p + 1) = 2"
      using cellw_same [OF m2(3), of ?p] cellw_same [OF m2(3), of "?p + 1"] h fit [OF lt(1)] fit [OF lt(2)] len1 by auto
    have l3: "load_operand ?d m3 = Some op"
      using load_operand_same [OF m2(2) same_outside_on [OF m3(3), of "?d + 16" ?d]] fit [OF lt(4)] len1 len2 by simp
    have c3: "cellw E m3 ?p = word_of_int PUSHCONST" "cellw E m3 (?p + 1) = 4"
      using cellw_same [OF m3(3), of ?p] c m3 fit [OF lt(1)] len1 len2 by auto
    have fr: "cells E ?p (?p + 4) (mm s) m3"
      by (rule cells_trans [OF cells_mono [OF h(3)] cells_trans [OF cells_mono [OF m2(3)] cells_mono [OF m3(3)]]]) auto
    have "at_cell E (pc s + 2) f = f ?d" for f :: "nat \<Rightarrow> int cl"
      using assms(1) by (simp add: at_cell_def cell_def nat_add_distrib code_ok_def)
    then have "compile_args E (pc s) PUSHCONST (COp op) (s\<lparr>mm := m1\<rparr>) = Ret 0 (s\<lparr>mm := m3\<rparr>)"
      using assms(3) PushC op_classes m2(1) m3(1) by (simp add: compile_args_def compile_const_def cl_simps memop_def)
    with h(4) compile_tail [OF assms(1,2) _ refl fr, of 4] PushC c3 l3 fr show ?thesis by (auto simp: cl_simps)
  qed
qed

subsection \<open>Expressions and statements\<close>

text \<open>
  The expressions of the grammar over constants that are not strings, and the statements that need no
  parameters: \<open>= expr\<close>, \<open>if\<close>, \<open>if ... else\<close> and sequences.  The rules of \<open>grammar.y\<close> call \<open>compile\<close>, and
  keep the addresses of the branches that are to be filled in on the control stack.
\<close>

datatype expr = Const operand | Neg expr | Not expr | Bin int expr expr

datatype stmt = Immed expr | If expr stmt | IfElse expr stmt stmt | Seq stmt stmt | Skip

fun emit_expr :: "clenv \<Rightarrow> expr \<Rightarrow> unit cl" where
  "emit_expr E (Const op) = thenc (compile E PUSHCONST (COp op)) (ret ())"
| "emit_expr E (Neg e) = thenc (emit_expr E e) (thenc (compile E CHSIGN CNone) (ret ()))"
| "emit_expr E (Not e) = thenc (emit_expr E e) (thenc (compile E I_NOT CNone) (ret ()))"
| "emit_expr E (Bin c a b) = thenc (emit_expr E a) (thenc (emit_expr E b) (thenc (compile E c CNone) (ret ())))"

text \<open>\<open>push (compile (...))\<close>, and \<open>coderef (a)->c_args = pc - a - 3\<close>.\<close>

definition push_addr :: "clenv \<Rightarrow> int cl \<Rightarrow> unit cl" where
  "push_addr E f = bindc f (\<lambda>a. pushmem E (word_of_int a))"

definition patch :: "clenv \<Rightarrow> int \<Rightarrow> unit cl" where
  "patch E a = bindc (gets pc) (\<lambda>p. set_cell E (a + 2) (word_of_int (p - a - 3)))"

fun emit_stmt :: "clenv \<Rightarrow> stmt \<Rightarrow> unit cl" where
  "emit_stmt E (Immed e) = thenc (emit_expr E e) (thenc (compile E IMMED CNone) (ret ()))"
| "emit_stmt E (If e t) =
     thenc (emit_expr E e)
     (thenc (push_addr E (compile E BIFF (CInt 0)))
     (thenc (emit_stmt E t)
     (bindc (popmem E) (\<lambda>biffaddr. patch E (sint biffaddr)))))"
| "emit_stmt E (IfElse e t f) =
     thenc (emit_expr E e)
     (thenc (push_addr E (compile E BIFF (CInt 0)))
     (thenc (emit_stmt E t)
     (bindc (popmem E) (\<lambda>biffaddr.
     thenc (push_addr E (compile E GOTO (CInt 0)))
     (thenc (patch E (sint biffaddr))
     (thenc (emit_stmt E f)
     (bindc (popmem E) (\<lambda>gotoaddr. patch E (sint gotoaddr)))))))))"
| "emit_stmt E (Seq a b) = thenc (emit_stmt E a) (emit_stmt E b)"
| "emit_stmt E Skip = ret ()"

text \<open>The code that this comes to.\<close>

fun ecode :: "expr \<Rightarrow> instr list" where
  "ecode (Const op) = [PushC op]"
| "ecode (Neg e) = ecode e @ [Op CHSIGN]"
| "ecode (Not e) = ecode e @ [Op I_NOT]"
| "ecode (Bin c a b) = ecode a @ ecode b @ [Op c]"

definition clen :: "instr list \<Rightarrow> nat" where
  "clen is = sum_list (map ilen is)"

lemma clen_simps [simp]: "clen [] = 0" "clen (i # is) = ilen i + clen is" "clen (is @ js) = clen is + clen js"
  by (simp_all add: clen_def)

fun scode :: "stmt \<Rightarrow> instr list" where
  "scode (Immed e) = ecode e @ [Op IMMED]"
| "scode (If e t) = ecode e @ OpInt BIFF (int (clen (scode t))) # scode t"
| "scode (IfElse e t f) = ecode e @ OpInt BIFF (int (clen (scode t)) + 3) # scode t
     @ OpInt GOTO (int (clen (scode f))) # scode f"
| "scode (Seq a b) = scode a @ scode b"
| "scode Skip = []"

fun code_at :: "clenv \<Rightarrow> mem \<Rightarrow> nat \<Rightarrow> instr list \<Rightarrow> bool" where
  "code_at E m p [] \<longleftrightarrow> True"
| "code_at E m p (i # is) \<longleftrightarrow> instr_at E m p i \<and> code_at E m (p + ilen i) is"

lemma code_at_append: "code_at E m p (is @ js) \<longleftrightarrow> code_at E m p is \<and> code_at E m (p + clen is) js"
  by (induction "is" arbitrary: p) (auto simp: add.assoc)

lemma code_at_same:
  "code_at E m p is \<Longrightarrow> cells E a b m m' \<Longrightarrow> p + clen is \<le> a \<or> b \<le> p \<Longrightarrow> stk E + 8 * (p + clen is) \<le> length m
   \<Longrightarrow> code_at E m' p is"
proof (induction "is" arbitrary: p)
  case (Cons i "is")
  have c: "instr_at E m p i" "code_at E m (p + ilen i) is" "p + ilen i \<le> a \<or> b \<le> p" "p + ilen i + clen is \<le> a \<or> b \<le> p + ilen i"
    "stk E + 8 * (p + ilen i) \<le> length m" "stk E + 8 * (p + ilen i + clen is) \<le> length m"
    using Cons.prems by (simp_all, arith+)
  from instr_at_same [OF c(1) Cons.prems(2) c(3,5)] Cons.IH [OF c(2) Cons.prems(2) c(4,6)] show ?case by simp
qed simp

subsection \<open>Emitting expressions\<close>

fun expr_ok :: "expr \<Rightarrow> bool" where
  "expr_ok (Const op) \<longleftrightarrow> instr_ok (PushC op)"
| "expr_ok (Neg e) \<longleftrightarrow> expr_ok e"
| "expr_ok (Not e) \<longleftrightarrow> expr_ok e"
| "expr_ok (Bin c a b) \<longleftrightarrow> c \<in> {ADD, SUB, MUL, DIV, LT, GT, LE, GE, EQ, NE, I_OR, I_AND} \<and> expr_ok a \<and> expr_ok b"

fun emit_all :: "clenv \<Rightarrow> instr list \<Rightarrow> unit cl" where
  "emit_all E [] = ret ()"
| "emit_all E (i # is) = thenc (emit E i) (emit_all E is)"

lemma thenc_assoc: "thenc (thenc f g) h = thenc f (thenc g h)"
  by (rule ext) (simp add: thenc_def bindc_def split: clres.split)

lemma thenc_ret: "thenc (Ret a) f = f" "thenc (f :: unit cl) (Ret ()) = f"
  by (rule ext, simp add: thenc_def bindc_def split: clres.split)+

lemma emit_all_append: "emit_all E (is @ js) = thenc (emit_all E is) (emit_all E js)"
  by (induction "is") (simp_all add: thenc_assoc thenc_ret)

lemma emit_expr_all: "emit_expr E e = emit_all E (ecode e)"
  by (induction e) (simp_all add: emit_all_append)

lemma expr_code_ok: "expr_ok e \<Longrightarrow> \<forall>i \<in> set (ecode e). instr_ok i"
proof (induction e)
  case (Bin c a b)
  then have "c \<in> plain_ops" by (auto simp: plain_ops_def)
  with Bin show ?case by auto
qed (auto simp: plain_ops_def)

text \<open>Compiling: the code is there, the program counter behind it, and nothing else has changed.\<close>

lemma emit_all_correct:
  assumes "code_ok E s" "pc s + int (clen is) + 20 \<le> topcs s" "\<forall>i \<in> set is. instr_ok i"
  shows "\<exists>m'. emit_all E is s = Ret () (s\<lparr>mm := m', pc := pc s + int (clen is)\<rparr>)
    \<and> code_at E m' (nat (pc s)) is \<and> cells E (nat (pc s)) (nat (pc s) + clen is) (mm s) m'"
  using assms
proof (induction "is" arbitrary: s)
  case Nil
  then show ?case by (intro exI [of _ "mm s"]) simp
next
  case (Cons i "is")
  let ?p = "nat (pc s)"
  have p0: "0 \<le> pc s" using Cons.prems(1) by (simp add: code_ok_def)
  obtain m1 where m1: "emit E i s = Ret (pc s) (s\<lparr>mm := m1, pc := pc s + int (ilen i)\<rparr>)" "instr_at E m1 ?p i"
    "cells E ?p (?p + ilen i) (mm s) m1" using emit_correct [of E s i] Cons.prems by auto
  let ?s = "s\<lparr>mm := m1, pc := pc s + int (ilen i)\<rparr>"
  have p1: "nat (pc ?s) = ?p + ilen i" using p0 by (simp add: nat_add_distrib)
  have ok: "code_ok E ?s" using Cons.prems cells_length [OF m1(3)] by (auto simp: code_ok_def)
  obtain m2 where m2: "emit_all E is ?s = Ret () (?s\<lparr>mm := m2, pc := pc ?s + int (clen is)\<rparr>)"
    "code_at E m2 (?p + ilen i) is" "cells E (?p + ilen i) (?p + ilen i + clen is) m1 m2"
    using Cons.IH [OF ok] Cons.prems p1 by auto
  have "?p + ilen i \<le> nat (stacksiz E)" using Cons.prems by (auto simp: code_ok_def)
  then have "stk E + 8 * (?p + ilen i) \<le> length m1"
    using Cons.prems(1) cells_length [OF m1(3)] by (simp add: code_ok_def)
  then have "instr_at E m2 ?p i" using instr_at_same [OF m1(2) m2(3)] by simp
  moreover have "cells E ?p (?p + clen (i # is)) (mm s) m2"
    by (rule cells_trans [OF cells_mono [OF m1(3)] cells_mono [OF m2(3)]]) auto
  ultimately show ?case using m1(1) m2(1,2) by (intro exI [of _ m2]) (simp add: cl_simps add.assoc)
qed

subsection \<open>Emitting statements\<close>

text \<open>The control stack while code is compiled: its top is the cell \<open>t\<close>.\<close>

lemma pushmem_cell:
  assumes "code_ok E s" "topcs s = int (Suc t)" "pc s \<le> int t" "topos s < int t"
  shows "\<exists>m'. pushmem E v s = Ret () (s\<lparr>mm := m', topcs := int t\<rparr>) \<and> cellw E m' t = v \<and> cells E t (t + 1) (mm s) m'"
proof -
  have ok: "code_ok E (s\<lparr>topcs := int t\<rparr>)" "int t < stacksiz E" "topos s < int t" using assms by (auto simp: code_ok_def)
  from set_cellw [OF ok(1,2), of v] obtain m' where
    "set_cell E (int t) v (s\<lparr>topcs := int t\<rparr>) = Ret () (s\<lparr>mm := m', topcs := int t\<rparr>)" "cellw E m' t = v"
    "cells E t (t + 1) (mm s) m'" by auto
  with assms(2) ok(3) show ?thesis by (intro exI [of _ m']) (simp add: pushmem_def cl_simps)
qed

lemma popmem_cell:
  assumes "code_ok E s" "topcs s = int t" "int t < stacksiz E"
  shows "popmem E s = Ret (cellw E (mm s) t) (s\<lparr>topcs := int (Suc t)\<rparr>)"
proof -
  have "get_cell E (int t) (s\<lparr>topcs := int (Suc t)\<rparr>) = Ret (cellw E (mm s) t) (s\<lparr>topcs := int (Suc t)\<rparr>)"
    using code_ok_cell [OF assms(1,3)] by (subst get_cellw) auto
  then show ?thesis using assms(2,3) by (simp add: popmem_def cl_simps add.commute)
qed

lemma patch_branch:
  assumes "code_ok E s" "instr_at E (mm s) a (OpInt c x)" "int a + 3 \<le> pc s"
  shows "\<exists>m'. patch E (int a) s = Ret () (s\<lparr>mm := m'\<rparr>) \<and> instr_at E m' a (OpInt c (pc s - int a - 3))
    \<and> cells E (a + 2) (a + 3) (mm s) m'"
proof -
  have i: "int a + 2 = int (a + 2)" "int (a + 2) < stacksiz E" using assms(1,3) by (auto simp: code_ok_def)
  obtain m' where m': "set_cell E (int (a + 2)) (word_of_int (pc s - int a - 3)) s = Ret () (s\<lparr>mm := m'\<rparr>)"
    "cellw E m' (a + 2) = word_of_int (pc s - int a - 3)" "cells E (a + 2) (a + 2 + 1) (mm s) m'"
    using set_cellw [OF assms(1) i(2)] by blast
  have "stk E + 8 * (a + 1) + 8 \<le> length (mm s)" using code_ok_cell [OF assms(1), of "a + 1"] i(2) by simp
  then have "cellw E m' a = cellw E (mm s) a" "cellw E m' (a + 1) = cellw E (mm s) (a + 1)"
    by (auto intro!: cellw_same [OF m'(3)])
  with m' assms(2) show ?thesis unfolding patch_def i(1) by (intro exI [of _ m']) (simp add: cl_simps numeral_eq_Suc)
qed

lemma sint_addr: "int a < 2147483648 \<Longrightarrow> sint (word_of_int (int a) :: memel) = int a"
  by (simp add: signed_of_nat signed_take_bit_int_eq_self)

lemma branch_push:
  assumes "code_ok E s" "pc s = int p" "topcs s = int (Suc t)" "p + 20 \<le> t" "c = BIFF \<or> c = GOTO" "topos s < int t"
  shows "\<exists>m'. push_addr E (compile E c (CInt 0)) s = Ret () (s\<lparr>mm := m', pc := int (p + 3), topcs := int t\<rparr>)
    \<and> instr_at E m' p (OpInt c 0) \<and> cellw E m' t = word_of_int (int p) \<and> cells E p (Suc t) (mm s) m'
    \<and> code_ok E (s\<lparr>mm := m', pc := int (p + 3), topcs := int t\<rparr>)"
proof -
  have "instr_ok (OpInt c 0)" using assms(5) by (auto simp: int_ops_def in_range_def)
  with emit_correct [OF assms(1), of "OpInt c 0"] assms(2-4) obtain m1 where
    m1: "compile E c (CInt 0) s = Ret (int p) (s\<lparr>mm := m1, pc := int (p + 3)\<rparr>)" "instr_at E m1 p (OpInt c 0)"
      "cells E p (p + 3) (mm s) m1" by auto
  let ?s = "s\<lparr>mm := m1, pc := int (p + 3)\<rparr>"
  have ok: "code_ok E ?s" using assms(1-4) cells_length [OF m1(3)] by (auto simp: code_ok_def)
  obtain m2 where m2: "pushmem E (word_of_int (int p)) ?s = Ret () (?s\<lparr>mm := m2, topcs := int t\<rparr>)"
    "cellw E m2 t = word_of_int (int p)" "cells E t (t + 1) m1 m2"
    using pushmem_cell [OF ok, of t] assms(3,4,6) by auto
  have len: "stk E + 8 * (p + 3) \<le> length m1"
    using code_ok_cell [OF ok, of "p + 2"] assms(1,3,4) by (simp add: code_ok_def)
  have "instr_at E m2 p (OpInt c 0)" using assms(4) len by (intro instr_at_same [OF m1(2) m2(3)]) auto
  moreover have "cells E p (Suc t) (mm s) m2"
    using assms(4) by (intro cells_trans [OF cells_mono [OF m1(3)] cells_mono [OF m2(3)]]) auto
  moreover have "code_ok E (?s\<lparr>mm := m2, topcs := int t\<rparr>)" using ok assms(3,4,6) cells_length [OF m2(3)] by (auto simp: code_ok_def)
  ultimately show ?thesis using m1(1) m2(1,2) by (intro exI [of _ m2]) (simp add: push_addr_def cl_simps)
qed

fun depth :: "stmt \<Rightarrow> nat" where
  "depth (Immed e) = 0"
| "depth (If e t) = Suc (depth t)"
| "depth (IfElse e t f) = Suc (max (depth t) (depth f))"
| "depth (Seq a b) = max (depth a) (depth b)"
| "depth Skip = 0"

fun stmt_ok :: "stmt \<Rightarrow> bool" where
  "stmt_ok (Immed e) \<longleftrightarrow> expr_ok e"
| "stmt_ok (If e t) \<longleftrightarrow> expr_ok e \<and> stmt_ok t"
| "stmt_ok (IfElse e t f) \<longleftrightarrow> expr_ok e \<and> stmt_ok t \<and> stmt_ok f"
| "stmt_ok (Seq a b) \<longleftrightarrow> stmt_ok a \<and> stmt_ok b"
| "stmt_ok Skip \<longleftrightarrow> True"

end
