(* ===== verification/Cl_Emit.thy ===== *)
theory Cl_Emit
  imports Cl_Compile
begin

text \<open>
  What the parser emits for a statement is the code of the statement: the branches that are filled in
  from the control stack go to the right places, also when conditional statements are nested.
\<close>

lemma code_ok_fit: "code_ok E s \<Longrightarrow> int n \<le> topcs s \<Longrightarrow> stk E + 8 * n \<le> length (mm s)"
proof -
  assume ok: "code_ok E s" "int n \<le> topcs s"
  then have "n \<le> nat (stacksiz E)" by (auto simp: code_ok_def)
  with ok(1) show ?thesis by (simp add: code_ok_def)
qed

lemma emit_expr_correct:
  assumes "code_ok E s" "pc s = int p" "topcs s = int t" "p + clen (ecode e) + 20 \<le> t" "expr_ok e"
  shows "\<exists>m'. emit_expr E e s = Ret () (s\<lparr>mm := m', pc := int (p + clen (ecode e))\<rparr>) \<and> code_at E m' p (ecode e)
    \<and> cells E p (p + clen (ecode e)) (mm s) m' \<and> code_ok E (s\<lparr>mm := m', pc := int (p + clen (ecode e))\<rparr>)"
proof -
  have "pc s + int (clen (ecode e)) + 20 \<le> topcs s" using assms(2-4) by simp
  from emit_all_correct [OF assms(1) this expr_code_ok [OF assms(5)]] assms(2) obtain m' where
    m': "emit_expr E e s = Ret () (s\<lparr>mm := m', pc := int (p + clen (ecode e))\<rparr>)" "code_at E m' p (ecode e)"
      "cells E p (p + clen (ecode e)) (mm s) m'" by (auto simp: emit_expr_all)
  moreover have "code_ok E (s\<lparr>mm := m', pc := int (p + clen (ecode e))\<rparr>)"
    using assms(1-4) cells_length [OF m'(3)] by (auto simp: code_ok_def)
  ultimately show ?thesis by blast
qed

text \<open>The condition and the branch over it, which is left to be filled in.\<close>

lemma emit_cond:
  assumes "code_ok E s" "pc s = int p" "topcs s = int (Suc t)" "p + clen (ecode e) + 20 \<le> t" "expr_ok e" "q = p + clen (ecode e)" "topos s < int t"
  shows "\<exists>m'. thenc (emit_expr E e) (thenc (push_addr E (compile E BIFF (CInt 0))) k) s
      = k (s\<lparr>mm := m', topcs := int t, pc := int (q + 3)\<rparr>)
    \<and> code_at E m' p (ecode e) \<and> instr_at E m' q (OpInt BIFF 0) \<and> cellw E m' t = word_of_int (int q)
    \<and> cells E p (Suc t) (mm s) m' \<and> code_ok E (s\<lparr>mm := m', topcs := int t, pc := int (q + 3)\<rparr>)"
proof -
  have r: "p + clen (ecode e) + 20 \<le> Suc t" using assms(4) by simp
  obtain m1 where m1: "emit_expr E e s = Ret () (s\<lparr>mm := m1, pc := int q\<rparr>)" "code_at E m1 p (ecode e)"
    "cells E p q (mm s) m1" "code_ok E (s\<lparr>mm := m1, pc := int q\<rparr>)"
    using emit_expr_correct [OF assms(1-3) r assms(5)] assms(6) by blast
  let ?s1 = "s\<lparr>mm := m1, pc := int q\<rparr>"
  have "pc ?s1 = int q" "topcs ?s1 = int (Suc t)" "q + 20 \<le> t" "topos ?s1 < int t" using assms by auto
  from branch_push [OF m1(4) this(1-3) _ this(4), of BIFF] obtain m2 where
    m2: "push_addr E (compile E BIFF (CInt 0)) ?s1 = Ret () (s\<lparr>mm := m2, topcs := int t, pc := int (q + 3)\<rparr>)"
      "instr_at E m2 q (OpInt BIFF 0)" "cellw E m2 t = word_of_int (int q)" "cells E q (Suc t) m1 m2"
      "code_ok E (s\<lparr>mm := m2, topcs := int t, pc := int (q + 3)\<rparr>)" by auto
  have "code_at E m2 p (ecode e)"
    using code_ok_fit [OF m1(4), of q] assms(3,4,6) by (intro code_at_same [OF m1(2) m2(4)]) auto
  moreover have "cells E p (Suc t) (mm s) m2"
    using assms(4,6) by (intro cells_trans [OF cells_mono [OF m1(3)] cells_mono [OF m2(4)]]) auto
  ultimately show ?thesis using m1(1) m2 by (intro exI [of _ m2]) (simp add: cl_simps)
qed

text \<open>A branch is filled in from the control stack.\<close>

lemma pop_branch:
  assumes "code_ok E s" "topcs s = int t" "int t < stacksiz E" "cellw E (mm s) t = word_of_int (int a)" "int a + 3 \<le> pc s"
  shows "bindc (popmem E) (\<lambda>b. k (sint b)) s = k (int a) (s\<lparr>topcs := int (Suc t)\<rparr>)"
proof -
  have "int a < 2147483648" using assms(1,5) by (auto simp: code_ok_def)
  then show ?thesis using popmem_cell [OF assms(1-3)] assms(4) sint_addr [of a] by (simp add: cl_simps)
qed

text \<open>What holds after a statement has been emitted at \<open>p\<close>, below the control stack at \<open>t\<close>.\<close>

definition emitted :: "clenv \<Rightarrow> instr list \<Rightarrow> nat \<Rightarrow> nat \<Rightarrow> clm \<Rightarrow> unit clres \<Rightarrow> bool" where
  "emitted E is p t s r \<longleftrightarrow> (\<exists>m'. r = Ret () (s\<lparr>mm := m', pc := int (p + clen is)\<rparr>) \<and> code_at E m' p is
     \<and> cells E p t (mm s) m' \<and> code_ok E (s\<lparr>mm := m', pc := int (p + clen is)\<rparr>))"

lemma emit_if:
  assumes "code_ok E s" "pc s = int p" "topcs s = int (Suc t)" "expr_ok e" "p + clen (scode (If e st)) + 20 \<le> t" "topos s < int t"
    and body: "\<And>u. code_ok E u \<Longrightarrow> pc u = int (p + clen (ecode e) + 3) \<Longrightarrow> topcs u = int t \<Longrightarrow> topos u = topos s \<Longrightarrow>
      emitted E (scode st) (p + clen (ecode e) + 3) t u (emit_stmt E st u)"
  shows "emitted E (scode (If e st)) p (Suc t) s (emit_stmt E (If e st) s)"
proof -
  let ?q = "p + clen (ecode e)" and ?n = "clen (scode st)"
  have r: "?q + 20 \<le> t" using assms(5) by simp
  obtain m2 where m2: "emit_stmt E (If e st) s = thenc (emit_stmt E st) (bindc (popmem E) (\<lambda>b. patch E (sint b)))
        (s\<lparr>mm := m2, topcs := int t, pc := int (?q + 3)\<rparr>)"
      "code_at E m2 p (ecode e)" "instr_at E m2 ?q (OpInt BIFF 0)" "cellw E m2 t = word_of_int (int ?q)"
      "cells E p (Suc t) (mm s) m2" "code_ok E (s\<lparr>mm := m2, topcs := int t, pc := int (?q + 3)\<rparr>)"
    using emit_cond [OF assms(1-3) r assms(4) refl assms(6), of "thenc (emit_stmt E st) (bindc (popmem E) (\<lambda>b. patch E (sint b)))"]
    by auto
  let ?s2 = "s\<lparr>mm := m2, topcs := int t, pc := int (?q + 3)\<rparr>"
  obtain m3 where m3: "emit_stmt E st ?s2 = Ret () (?s2\<lparr>mm := m3, pc := int (?q + 3 + ?n)\<rparr>)" "code_at E m3 (?q + 3) (scode st)"
    "cells E (?q + 3) t m2 m3" "code_ok E (?s2\<lparr>mm := m3, pc := int (?q + 3 + ?n)\<rparr>)"
    using body [OF m2(6)] by (auto simp: emitted_def)
  let ?s3 = "s\<lparr>mm := m3, topcs := int t, pc := int (?q + 3 + ?n)\<rparr>"
  have ok3: "code_ok E ?s3" using m3(4) by simp
  have fit: "stk E + 8 * (?q + 3 + ?n) \<le> length m3" "length m3 = length m2" "int t < stacksiz E" "stk E + 8 * t + 8 \<le> length m2"
    using code_ok_fit [OF ok3, of "?q + 3 + ?n"] code_ok_fit [OF assms(1), of "Suc t"] assms(1,3,5) cells_length [OF m3(3)]
      cells_length [OF m2(5)] by (auto simp: code_ok_def)
  have "cellw E m3 t = word_of_int (int ?q)" using cellw_same [OF m3(3), of t] fit m2(4) by simp
  then have pop: "bindc (popmem E) (\<lambda>b. patch E (sint b)) ?s3 = patch E (int ?q) (?s3\<lparr>topcs := int (Suc t)\<rparr>)"
    using pop_branch [OF ok3, of t ?q "patch E"] fit by simp
  let ?s4 = "s\<lparr>mm := m3, pc := int (?q + 3 + ?n)\<rparr>"
  have s4: "?s3\<lparr>topcs := int (Suc t)\<rparr> = ?s4" using assms(3) by simp
  have ok4: "code_ok E ?s4" using ok3 assms(1,3) by (auto simp: code_ok_def)
  have "instr_at E m3 ?q (OpInt BIFF 0)" using fit by (intro instr_at_same [OF m2(3) m3(3)]) auto
  then obtain m4 where m4: "patch E (int ?q) ?s4 = Ret () (?s4\<lparr>mm := m4\<rparr>)" "instr_at E m4 ?q (OpInt BIFF (int ?n))"
    "cells E (?q + 2) (?q + 3) m3 m4"
    using patch_branch [OF ok4, of ?q BIFF 0] by auto
  have "code_at E m3 p (ecode e)" using fit by (intro code_at_same [OF m2(2) m3(3)]) auto
  then have "code_at E m4 p (ecode e)" using fit by (intro code_at_same [OF _ m4(3)]) auto
  moreover have "code_at E m4 (?q + 3) (scode st)" using fit by (intro code_at_same [OF m3(2) m4(3)]) auto
  ultimately have "code_at E m4 p (scode (If e st))" using m4(2) by (simp add: code_at_append)
  moreover have "cells E p (Suc t) (mm s) m4"
    using assms(5) by (intro cells_trans [OF m2(5) cells_trans [OF cells_mono [OF m3(3)] cells_mono [OF m4(3)]]]) auto
  moreover have "emit_stmt E (If e st) s = Ret () (s\<lparr>mm := m4, pc := int (p + clen (scode (If e st)))\<rparr>)"
    using m2(1) m3(1) pop s4 m4(1) by (simp add: cl_simps add.assoc)
  moreover have "code_ok E (s\<lparr>mm := m4, pc := int (p + clen (scode (If e st)))\<rparr>)"
    using ok4 cells_length [OF m4(3)] by (simp add: code_ok_def add.assoc)
  ultimately show ?thesis unfolding emitted_def by blast
qed

text \<open>The \<open>else\<close> part: from where the first branch is popped to where the second one is filled in.\<close>

definition emit_else :: "clenv \<Rightarrow> stmt \<Rightarrow> unit cl" where
  "emit_else E st = bindc (popmem E) (\<lambda>biffaddr.
     thenc (push_addr E (compile E GOTO (CInt 0)))
     (thenc (patch E (sint biffaddr))
     (thenc (emit_stmt E st)
     (bindc (popmem E) (\<lambda>gotoaddr. patch E (sint gotoaddr))))))"

lemma emit_else_correct:
  assumes "code_ok E s" "pc s = int g" "topcs s = int t" "int t < stacksiz E" "cellw E (mm s) t = word_of_int (int q)"
    "instr_at E (mm s) q (OpInt BIFF 0)" "q + 3 \<le> g" "g + 3 + clen (scode st) + 20 \<le> t"
    and body: "\<And>u. code_ok E u \<Longrightarrow> pc u = int (g + 3) \<Longrightarrow> topcs u = int t \<Longrightarrow> topos u = topos s \<Longrightarrow> emitted E (scode st) (g + 3) t u (emit_stmt E st u)"
  shows "\<exists>m'. emit_else E st s = Ret () (s\<lparr>mm := m', topcs := int (Suc t), pc := int (g + 3 + clen (scode st))\<rparr>)
    \<and> instr_at E m' q (OpInt BIFF (int (g - q))) \<and> code_at E m' g (OpInt GOTO (int (clen (scode st))) # scode st)
    \<and> (\<forall>lo is. code_at E (mm s) lo is \<longrightarrow> lo + clen is \<le> q \<or> q + 3 \<le> lo \<and> lo + clen is \<le> g \<longrightarrow> code_at E m' lo is)
    \<and> cells E (q + 2) (Suc t) (mm s) m' \<and> code_ok E (s\<lparr>mm := m', topcs := int (Suc t), pc := int (g + 3 + clen (scode st))\<rparr>)"
proof -
  let ?n = "clen (scode st)" and ?s0 = "s\<lparr>topcs := int (Suc t)\<rparr>"
  have ok0: "code_ok E ?s0" "pc ?s0 = int g" "topcs ?s0 = int (Suc t)" using assms(1-4,8) by (auto simp: code_ok_def)
  have room: "g + 20 \<le> t" using assms(8) by simp
  have top: "topos ?s0 < int t" using assms(1,3) by (simp add: code_ok_def)
  obtain m1 where m1: "push_addr E (compile E GOTO (CInt 0)) ?s0 = Ret () (s\<lparr>mm := m1, topcs := int t, pc := int (g + 3)\<rparr>)"
    "instr_at E m1 g (OpInt GOTO 0)" "cellw E m1 t = word_of_int (int g)" "cells E g (Suc t) (mm s) m1"
    "code_ok E (s\<lparr>mm := m1, topcs := int t, pc := int (g + 3)\<rparr>)"
    using branch_push [OF ok0 room _ top, of GOTO] by auto
  let ?s1 = "s\<lparr>mm := m1, topcs := int t, pc := int (g + 3)\<rparr>"
  have fit: "stk E + 8 * (g + 3 + ?n) \<le> length (mm s)" "stk E + 8 * t + 8 \<le> length (mm s)" "length m1 = length (mm s)"
    using code_ok_fit [OF ok0(1), of "g + 3 + ?n"] code_ok_fit [OF ok0(1), of "Suc t"] assms(8) cells_length [OF m1(4)] by auto
  have "instr_at E m1 q (OpInt BIFF 0)" using assms(7) fit by (intro instr_at_same [OF assms(6) m1(4)]) auto
  then obtain m2 where m2: "patch E (int q) ?s1 = Ret () (?s1\<lparr>mm := m2\<rparr>)" "instr_at E m2 q (OpInt BIFF (int (g - q)))"
    "cells E (q + 2) (q + 3) m1 m2" using patch_branch [OF m1(5), of q BIFF 0] assms(7) by (auto simp: of_nat_diff)
  have len2: "length m2 = length m1" using cells_length [OF m2(3)] .
  have ok2: "code_ok E (?s1\<lparr>mm := m2\<rparr>)" using m1(5) len2 by (simp add: code_ok_def)
  obtain m3 where m3: "emit_stmt E st (?s1\<lparr>mm := m2\<rparr>) = Ret () (?s1\<lparr>mm := m3, pc := int (g + 3 + ?n)\<rparr>)"
    "code_at E m3 (g + 3) (scode st)" "cells E (g + 3) t m2 m3" "code_ok E (?s1\<lparr>mm := m3, pc := int (g + 3 + ?n)\<rparr>)"
    using body [OF ok2] by (auto simp: emitted_def)
  let ?s3 = "s\<lparr>mm := m3, topcs := int t, pc := int (g + 3 + ?n)\<rparr>" and ?s4 = "s\<lparr>mm := m3, topcs := int (Suc t), pc := int (g + 3 + ?n)\<rparr>"
  have ok3: "code_ok E ?s3" using m3(4) by simp
  have len3: "length m3 = length (mm s)" using cells_length [OF m3(3)] len2 fit(3) by simp
  have "cellw E m2 t = cellw E m1 t" using fit assms(7,8) by (intro cellw_same [OF m2(3)]) auto
  moreover have "cellw E m3 t = cellw E m2 t" using fit len2 by (intro cellw_same [OF m3(3)]) auto
  ultimately have c3: "cellw E m3 t = word_of_int (int g)" using m1(3) by simp
  have pop3: "bindc (popmem E) (\<lambda>b. patch E (sint b)) ?s3 = patch E (int g) ?s4"
    using pop_branch [OF ok3, of t g "patch E"] c3 assms(4) by simp
  have ok4: "code_ok E ?s4" using ok3 ok0 assms(8) by (auto simp: code_ok_def)
  have i2: "instr_at E m2 g (OpInt GOTO 0)" using assms(7) fit by (intro instr_at_same [OF m1(2) m2(3)]) auto
  have "instr_at E m3 g (OpInt GOTO 0)" using fit len2 by (intro instr_at_same [OF i2 m3(3)]) auto
  then obtain m4 where m4: "patch E (int g) ?s4 = Ret () (?s4\<lparr>mm := m4\<rparr>)" "instr_at E m4 g (OpInt GOTO (int ?n))"
    "cells E (g + 2) (g + 3) m3 m4" using patch_branch [OF ok4, of g GOTO 0] by auto
  have pop0: "emit_else E st s = thenc (push_addr E (compile E GOTO (CInt 0)))
     (thenc (patch E (int q)) (thenc (emit_stmt E st) (bindc (popmem E) (\<lambda>b. patch E (sint b))))) ?s0"
    unfolding emit_else_def using pop_branch [OF assms(1,3,4,5)] assms(2,7) by simp
  have run: "emit_else E st s = Ret () (?s4\<lparr>mm := m4\<rparr>)"
    using pop0 m1(1) m2(1) m3(1) pop3 m4(1) by (simp add: cl_simps)
  have keep: "code_at E m4 lo is"
    if "code_at E (mm s) lo is" "lo + clen is \<le> q \<or> q + 3 \<le> lo \<and> lo + clen is \<le> g" for lo "is"
  proof -
    have g: "lo + clen is \<le> g" "stk E + 8 * (lo + clen is) \<le> length (mm s)" using that(2) assms(7) fit by auto
    have "code_at E m1 lo is" using g by (intro code_at_same [OF that(1) m1(4)]) auto
    then have "code_at E m2 lo is" using g that(2) fit by (intro code_at_same [OF _ m2(3)]) auto
    then have "code_at E m3 lo is" using g fit len2 by (intro code_at_same [OF _ m3(3)]) auto
    then show ?thesis using g len3 by (intro code_at_same [OF _ m4(3)]) auto
  qed
  have "instr_at E m3 q (OpInt BIFF (int (g - q)))" using assms(7) fit len2 by (intro instr_at_same [OF m2(2) m3(3)]) auto
  then have "instr_at E m4 q (OpInt BIFF (int (g - q)))" using assms(7) fit len3 by (intro instr_at_same [OF _ m4(3)]) auto
  moreover have "code_at E m4 (g + 3) (scode st)" using fit len3 by (intro code_at_same [OF m3(2) m4(3)]) auto
  moreover have "cells E (q + 2) (Suc t) (mm s) m4"
    using assms(7,8)
    by (intro cells_trans [OF cells_mono [OF m1(4)] cells_trans [OF cells_mono [OF m2(3)] cells_trans [OF cells_mono [OF m3(3)] cells_mono [OF m4(3)]]]]) auto
  moreover have "code_ok E (?s4\<lparr>mm := m4\<rparr>)" using ok4 cells_length [OF m4(3)] by (simp add: code_ok_def)
  ultimately show ?thesis using run m4(2) keep by (intro exI [of _ m4]) auto
qed

lemma emit_ifelse:
  assumes "code_ok E s" "pc s = int p" "topcs s = int (Suc t)" "expr_ok e" "p + clen (scode (IfElse e st st')) + 20 \<le> t" "topos s < int t"
    and body: "\<And>u. code_ok E u \<Longrightarrow> pc u = int (p + clen (ecode e) + 3) \<Longrightarrow> topcs u = int t \<Longrightarrow> topos u = topos s \<Longrightarrow>
      emitted E (scode st) (p + clen (ecode e) + 3) t u (emit_stmt E st u)"
    and body': "\<And>u g. code_ok E u \<Longrightarrow> pc u = int (g + 3) \<Longrightarrow> topcs u = int t \<Longrightarrow> topos u = topos s \<Longrightarrow> g = p + clen (ecode e) + 3 + clen (scode st) \<Longrightarrow>
      emitted E (scode st') (g + 3) t u (emit_stmt E st' u)"
  shows "emitted E (scode (IfElse e st st')) p (Suc t) s (emit_stmt E (IfElse e st st') s)"
proof -
  let ?q = "p + clen (ecode e)" and ?g = "p + clen (ecode e) + 3 + clen (scode st)"
  let ?fin = "?g + 3 + clen (scode st')"
  have r: "?q + 20 \<le> t" using assms(5) by simp
  have split: "emit_stmt E (IfElse e st st') = thenc (emit_expr E e)
     (thenc (push_addr E (compile E BIFF (CInt 0))) (thenc (emit_stmt E st) (emit_else E st')))"
    by (simp add: emit_else_def)
  obtain m2 where m2: "emit_stmt E (IfElse e st st') s = thenc (emit_stmt E st) (emit_else E st')
        (s\<lparr>mm := m2, topcs := int t, pc := int (?q + 3)\<rparr>)"
      "code_at E m2 p (ecode e)" "instr_at E m2 ?q (OpInt BIFF 0)" "cellw E m2 t = word_of_int (int ?q)"
      "cells E p (Suc t) (mm s) m2" "code_ok E (s\<lparr>mm := m2, topcs := int t, pc := int (?q + 3)\<rparr>)"
    using emit_cond [OF assms(1-3) r assms(4) refl assms(6), of "thenc (emit_stmt E st) (emit_else E st')"] unfolding split by auto
  let ?s2 = "s\<lparr>mm := m2, topcs := int t, pc := int (?q + 3)\<rparr>"
  obtain m3 where m3: "emit_stmt E st ?s2 = Ret () (?s2\<lparr>mm := m3, pc := int ?g\<rparr>)" "code_at E m3 (?q + 3) (scode st)"
    "cells E (?q + 3) t m2 m3" "code_ok E (?s2\<lparr>mm := m3, pc := int ?g\<rparr>)"
    using body [OF m2(6)] by (auto simp: emitted_def)
  let ?s3 = "s\<lparr>mm := m3, topcs := int t, pc := int ?g\<rparr>"
  have ok3: "code_ok E ?s3" using m3(4) by simp
  have fit: "stk E + 8 * ?g \<le> length m3" "length m3 = length m2" "int t < stacksiz E" "stk E + 8 * t + 8 \<le> length m2"
    using code_ok_fit [OF ok3, of ?g] code_ok_fit [OF assms(1), of "Suc t"] assms(1,3,5) cells_length [OF m3(3)]
      cells_length [OF m2(5)] by (auto simp: code_ok_def)
  have q: "cellw E m3 t = word_of_int (int ?q)" using cellw_same [OF m3(3), of t] fit m2(4) by simp
  have i: "instr_at E m3 ?q (OpInt BIFF 0)" using fit by (intro instr_at_same [OF m2(3) m3(3)]) auto
  have e: "code_at E m3 p (ecode e)" using fit by (intro code_at_same [OF m2(2) m3(3)]) auto
  have p3: "pc ?s3 = int ?g" "topcs ?s3 = int t" and mm3: "mm ?s3 = m3" by simp_all
  have q3: "cellw E (mm ?s3) t = word_of_int (int ?q)" and i3: "instr_at E (mm ?s3) ?q (OpInt BIFF 0)" using q i by simp_all
  have room: "?g + 3 + clen (scode st') + 20 \<le> t" "?q + 3 \<le> ?g" using assms(5) by auto
  have b: "emitted E (scode st') (?g + 3) t u (emit_stmt E st' u)"
    if "code_ok E u" "pc u = int (?g + 3)" "topcs u = int t" "topos u = topos ?s3" for u
    using body' [OF that(1-3) _ refl] that(4) by simp
  obtain m4 where m4: "emit_else E st' ?s3 = Ret () (?s3\<lparr>mm := m4, topcs := int (Suc t), pc := int ?fin\<rparr>)"
    "instr_at E m4 ?q (OpInt BIFF (int (?g - ?q)))" "code_at E m4 ?g (OpInt GOTO (int (clen (scode st'))) # scode st')"
    "\<forall>lo is. code_at E m3 lo is \<longrightarrow> lo + clen is \<le> ?q \<or> ?q + 3 \<le> lo \<and> lo + clen is \<le> ?g \<longrightarrow> code_at E m4 lo is"
    "cells E (?q + 2) (Suc t) m3 m4" "code_ok E (?s3\<lparr>mm := m4, topcs := int (Suc t), pc := int ?fin\<rparr>)"
    using emit_else_correct [OF ok3 p3 fit(3) q3 i3 room(2,1) b] unfolding mm3 by blast
  have d: "int (?g - ?q) = int (clen (scode st)) + 3" by simp
  have "code_at E m4 p (ecode e)" "code_at E m4 (?q + 3) (scode st)" using m4(4) e m3(2) by auto
  then have "code_at E m4 p (scode (IfElse e st st'))" using m4(2,3) unfolding d by (simp add: code_at_append)
  moreover have "cells E p (Suc t) (mm s) m4"
    by (intro cells_trans [OF m2(5) cells_trans [OF cells_mono [OF m3(3)] cells_mono [OF m4(5)]]]) auto
  moreover have "emit_stmt E (IfElse e st st') s = Ret () (s\<lparr>mm := m4, pc := int (p + clen (scode (IfElse e st st')))\<rparr>)"
    using m2(1) m3(1) m4(1) assms(3) by (simp add: cl_simps algebra_simps)
  moreover have "code_ok E (s\<lparr>mm := m4, pc := int (p + clen (scode (IfElse e st st')))\<rparr>)"
    using m4(6) assms(3) by (simp add: code_ok_def algebra_simps)
  ultimately show ?thesis unfolding emitted_def by blast
qed

lemma emitted_all:
  assumes "code_ok E s" "pc s = int p" "topcs s = int t" "p + clen is + 20 \<le> t" "\<forall>i \<in> set is. instr_ok i"
  shows "emitted E is p t s (emit_all E is s)"
proof -
  obtain m' where m': "emit_all E is s = Ret () (s\<lparr>mm := m', pc := int (p + clen is)\<rparr>)" "code_at E m' p is"
    "cells E p (p + clen is) (mm s) m'"
    using emit_all_correct [OF assms(1) _ assms(5)] assms(2-4) by auto
  have "code_ok E (s\<lparr>mm := m', pc := int (p + clen is)\<rparr>)" using assms cells_length [OF m'(3)] by (auto simp: code_ok_def)
  then show ?thesis using m' cells_mono [OF m'(3) order_refl, of t] assms(4) unfolding emitted_def by auto
qed

lemma emit_immed: "emit_stmt E (Immed e) = emit_all E (scode (Immed e))"
  by (simp add: emit_expr_all emit_all_append)

lemma immed_code_ok: "expr_ok e \<Longrightarrow> \<forall>i \<in> set (scode (Immed e)). instr_ok i"
  using expr_code_ok [of e] by (auto simp: plain_ops_def)

lemma emitted_seq:
  assumes "emitted E is p t s (f s)" "\<And>u. code_ok E u \<Longrightarrow> pc u = int (p + clen is) \<Longrightarrow> topcs u = topcs s \<Longrightarrow> topos u = topos s \<Longrightarrow>
      emitted E js (p + clen is) t u (g u)" "stk E + 8 * (p + clen is) \<le> length (mm s)"
  shows "emitted E (is @ js) p t s (thenc f g s)"
proof -
  obtain m1 where m1: "f s = Ret () (s\<lparr>mm := m1, pc := int (p + clen is)\<rparr>)" "code_at E m1 p is" "cells E p t (mm s) m1"
    "code_ok E (s\<lparr>mm := m1, pc := int (p + clen is)\<rparr>)" using assms(1) by (auto simp: emitted_def)
  obtain m2 where m2: "g (s\<lparr>mm := m1, pc := int (p + clen is)\<rparr>) = Ret () (s\<lparr>mm := m2, pc := int (p + clen is + clen js)\<rparr>)"
    "code_at E m2 (p + clen is) js" "cells E (p + clen is) t m1 m2" "code_ok E (s\<lparr>mm := m2, pc := int (p + clen is + clen js)\<rparr>)"
    using assms(2) [OF m1(4)] by (auto simp: emitted_def)
  have "code_at E m2 p is" using assms(3) cells_length [OF m1(3)] by (intro code_at_same [OF m1(2) m2(3)]) auto
  moreover have "cells E p t (mm s) m2" by (intro cells_trans [OF m1(3) cells_mono [OF m2(3)]]) auto
  ultimately show ?thesis
    using m1(1) m2 unfolding emitted_def by (intro exI [of _ m2]) (simp add: cl_simps code_at_append add.assoc)
qed

lemma emit_stmt_code:
  assumes "code_ok E s" "pc s = int p" "topcs s = int t" "p + clen (scode st) + depth st + 20 \<le> t" "stmt_ok st"
    "topos s + int (depth st) < int t"
  shows "emitted E (scode st) p t s (emit_stmt E st s)"
  using assms
proof (induction st arbitrary: s p t)
  case (Immed e)
  then show ?case unfolding emit_immed by (intro emitted_all immed_code_ok) auto
next
  case (If e st)
  obtain t' where t': "t = Suc t'" using If.prems(4) by (cases t) auto
  show ?case unfolding t'
  proof (rule emit_if)
    show "emitted E (scode st) (p + clen (ecode e) + 3) t' u (emit_stmt E st u)"
      if "code_ok E u" "pc u = int (p + clen (ecode e) + 3)" "topcs u = int t'" "topos u = topos s" for u
      using that If.prems(4-6) t' by (intro If.IH) auto
  qed (use If.prems t' in auto)
next
  case (IfElse e st st')
  obtain t' where t': "t = Suc t'" using IfElse.prems(4) by (cases t) auto
  show ?case unfolding t'
  proof (rule emit_ifelse)
    show "emitted E (scode st) (p + clen (ecode e) + 3) t' u (emit_stmt E st u)"
      if "code_ok E u" "pc u = int (p + clen (ecode e) + 3)" "topcs u = int t'" "topos u = topos s" for u
      using that IfElse.prems(4-6) t' by (intro IfElse.IH(1)) auto
    show "emitted E (scode st') (g + 3) t' u (emit_stmt E st' u)"
      if "code_ok E u" "pc u = int (g + 3)" "topcs u = int t'" "topos u = topos s" "g = p + clen (ecode e) + 3 + clen (scode st)" for u g
      using that IfElse.prems(4-6) t' by (intro IfElse.IH(2)) auto
  qed (use IfElse.prems t' in auto)
next
  case (Seq a b)
  have "stk E + 8 * (p + clen (scode a)) \<le> length (mm s)"
    using code_ok_fit [OF Seq.prems(1), of "p + clen (scode a)"] Seq.prems(3,4) by auto
  moreover have "emitted E (scode a) p t s (emit_stmt E a s)" using Seq.prems by (intro Seq.IH(1)) auto
  moreover have "emitted E (scode b) (p + clen (scode a)) t u (emit_stmt E b u)"
    if "code_ok E u" "pc u = int (p + clen (scode a))" "topcs u = topcs s" "topos u = topos s" for u
    using that Seq.prems by (intro Seq.IH(2)) auto
  ultimately show ?case using emitted_seq [of E "scode a" p t s "emit_stmt E a" "scode b" "emit_stmt E b"] by simp
next
  case Skip
  have "s\<lparr>pc := int p\<rparr> = s" using Skip.prems(2) by simp
  with Skip.prems(1) show ?case unfolding emitted_def by (intro exI [of _ "mm s"]) simp
qed

end
