(* ===== verification/Cl_Run.thy ===== *)
theory Cl_Run
  imports Cl_Emit
begin

text \<open>
  What the interpreter of the CL does with the code of an expression: the turns of its loop as a relation,
  the meaning of expressions over integers and truth values, and the proof that the code computes it.
\<close>

subsection \<open>Turns of the interpreter\<close>

inductive exec :: "clenv \<Rightarrow> sysenv \<Rightarrow> clops \<Rightarrow> nat \<Rightarrow> clm \<Rightarrow> clm \<Rightarrow> bool" for E Q X where
  stop: "exec E Q X 0 s s"
| turn: "run_step E Q X s = Ret c u \<Longrightarrow> c \<noteq> END \<Longrightarrow> \<not> x_leave X c u \<Longrightarrow> exec E Q X n u s' \<Longrightarrow> exec E Q X (Suc n) s s'"

inductive_cases exec_SucE: "exec E Q X (Suc n) s s'"

lemma exec_trans: "exec E Q X n s u \<Longrightarrow> exec E Q X k u s' \<Longrightarrow> exec E Q X (n + k) s s'"
  by (induction rule: exec.induct) (auto intro: exec.intros)

lemma run_exec: "exec E Q X n s s' \<Longrightarrow> run E Q X (n + k) s = run E Q X k s'"
  by (induction rule: exec.induct) auto

lemma exec_stops: "exec E Q X n s u \<Longrightarrow> run_step E Q X u = Raise e s' \<Longrightarrow> n < k \<Longrightarrow> run E Q X k s = Some (Raise e s')"
  using run_exec [of E Q X n s u "Suc (k - n - 1)"] by simp

lemma exec_ends: "exec E Q X n s u \<Longrightarrow> run_step E Q X u = Ret END s' \<Longrightarrow> n < k \<Longrightarrow> run E Q X k s = Some (Ret () s')"
  using run_exec [of E Q X n s u "Suc (k - n - 1)"] by simp

lemma run_mono: "run E Q X n s = Some r \<Longrightarrow> run E Q X (n + k) s = Some r"
  by (induction n arbitrary: s) (auto split: clres.splits if_splits)

fun opc :: "instr \<Rightarrow> int" where
  "opc (Op c) = c"
| "opc (OpInt c x) = c"
| "opc (PushC op) = PUSHCONST"

lemma to_int_opcode: "c \<in> plain_ops \<union> int_ops \<union> {PUSHCONST} \<Longrightarrow> to_int (sint (word_of_int c :: memel)) = c"
  by (auto simp: plain_ops_def int_ops_def)

lemma opc_class: "instr_ok i \<Longrightarrow> opc i \<in> plain_ops \<union> int_ops \<union> {PUSHCONST}"
  by (cases i) auto

lemma instr_at_head:
  "instr_at E m p i \<Longrightarrow> cellw E m p = word_of_int (opc i) \<and> cellw E m (p + 1) = word_of_int (int (ilen i))"
  by (cases i) auto

lemma ilen_bounds: "2 \<le> ilen i" "ilen i \<le> 4"
  by (cases i, auto)+

lemma fetch:
  assumes "instr_at E (mm s) p i" "instr_ok i" "pc s = int p" "stk E + 8 * (p + ilen i) \<le> length (mm s)"
  shows "run_step E Q X s = thenc (opcodetbl E Q X (opc i) (stk E + 8 * (p + 2))) (ret (opc i)) (s\<lparr>pc := int (p + ilen i)\<rparr>)"
proof -
  note h = instr_at_head [OF assms(1)]
  have "stk E + 8 * p + 8 \<le> length (mm s)" "stk E + 8 * (p + 1) + 8 \<le> length (mm s)"
    using assms(4) ilen_bounds(1) [of i] by auto
  note cells = this [THEN get_cellw]
  have "sint (word_of_int (int (ilen i)) :: memel) = int (ilen i)" by (cases i) auto
  moreover have "cell E (int p + 2) = Some (stk E + 8 * (p + 2))" by (simp add: cell_def nat_add_distrib)
  ultimately show ?thesis
    using h cells to_int_opcode [OF opc_class [OF assms(2)]] assms(3)
    by (simp add: run_step_def cl_simps at_cell_def Let_def add.commute)
qed


subsection \<open>The meaning of expressions\<close>

text \<open>A value, an error of the CL, or a fault of the processor.\<close>

datatype outcome = Value aop | Error clerr | Crash

definition const_val :: "operand \<Rightarrow> aop option" where
  "const_val op = (if o_type op = OT_INT then Some (AInt (v_i op))
     else if o_type op = OT_BOOL then Some (ABool (v_i op)) else None)"

definition truth :: "bool \<Rightarrow> aop" where
  "truth b = ABool (if b then 1 else 0)"

definition num_codes :: "(int \<times> int) list" where
  "num_codes = [(ADD, OP_ADD), (SUB, OP_SUB), (MUL, OP_MUL), (DIV, OP_DIV)]"

definition rel_codes :: "(int \<times> int) list" where
  "rel_codes = [(LT, OP_LT), (GT, OP_GT), (LE, OP_LE), (GE, OP_GE), (EQ, OP_EQ), (NE, OP_NE)]"

fun apply_bin :: "int \<Rightarrow> aop \<Rightarrow> aop \<Rightarrow> outcome option" where
  "apply_bin c (AInt x) (AInt y) =
     (case map_of num_codes c of
        Some opcode \<Rightarrow> Some (case int_op opcode x y of
            Some (Inr z) \<Rightarrow> Value (AInt z) | Some (Inl e) \<Rightarrow> Error e | None \<Rightarrow> Crash)
      | None \<Rightarrow> map_option (\<lambda>opcode. Value (truth (rel_op opcode x y))) (map_of rel_codes c))"
| "apply_bin c (ABool x) (ABool y) =
     (if c = I_OR then Some (Value (truth (x \<noteq> 0 \<or> y \<noteq> 0)))
      else if c = I_AND then Some (Value (truth (x \<noteq> 0 \<and> y \<noteq> 0))) else None)"
| "apply_bin c u v = None"

text \<open>Values of both operands, or the first error.\<close>

definition bind_val :: "outcome option \<Rightarrow> (aop \<Rightarrow> outcome option) \<Rightarrow> outcome option" where
  "bind_val r f = (case r of Some (Value a) \<Rightarrow> f a | _ \<Rightarrow> r)"

fun negate :: "aop \<Rightarrow> outcome option" where
  "negate (AInt x) = Some (Value (AInt (to_int (- x))))"
| "negate a = None"

fun not_val :: "aop \<Rightarrow> outcome option" where
  "not_val (ABool x) = Some (Value (truth (x = 0)))"
| "not_val a = Some (Error (E_UERR (Msg ''Boolean negation of a non-boolean operand'')))"

fun eval :: "expr \<Rightarrow> outcome option" where
  "eval (Const op) = map_option Value (const_val op)"
| "eval (Neg e) = bind_val (eval e) negate"
| "eval (Not e) = bind_val (eval e) not_val"
| "eval (Bin c a b) = bind_val (eval a) (\<lambda>u. bind_val (eval b) (apply_bin c u))"

fun int_ok :: "aop \<Rightarrow> bool" where
  "int_ok (AInt x) \<longleftrightarrow> in_range CINT x"
| "int_ok (ABool x) \<longleftrightarrow> True"
| "int_ok a \<longleftrightarrow> False"

lemma bind_val_Value: "bind_val r f = Some (Value a) \<longleftrightarrow> (\<exists>u. r = Some (Value u) \<and> f u = Some (Value a))"
  by (auto simp: bind_val_def split: option.splits outcome.splits)

lemma int_ok_truth [simp]: "int_ok (truth b)"
  by (simp add: truth_def)

lemma apply_bin_ok: "apply_bin c u v = Some (Value a) \<Longrightarrow> int_ok u \<Longrightarrow> int_ok v \<Longrightarrow> int_ok a"
proof (induction c u v rule: apply_bin.induct)
  case (1 c x y)
  then show ?case
  proof (cases "map_of num_codes c")
    case (Some opcode)
    with 1(1) obtain z where "int_op opcode x y = Some (Inr z)" "a = AInt z" by (auto split: option.splits sum.splits)
    with 1(2,3) show ?thesis by (auto intro: int_op_range)
  qed auto
qed (auto split: if_splits)

lemma eval_ok: "eval e = Some (Value a) \<Longrightarrow> expr_ok e \<Longrightarrow> int_ok a"
proof (induction e arbitrary: a)
  case (Const op)
  then show ?case by (auto simp: const_val_def v_i_range split: if_splits)
next
  case (Neg e)
  then obtain u where "eval e = Some (Value u)" "negate u = Some (Value a)" by (auto simp: bind_val_Value)
  then show ?case by (cases u) (auto simp: to_int_range)
next
  case (Not e)
  then obtain u where "eval e = Some (Value u)" "not_val u = Some (Value a)" by (auto simp: bind_val_Value)
  then show ?case by (cases u) auto
next
  case (Bin c x y)
  then show ?case by (auto simp: bind_val_Value intro: apply_bin_ok)
qed

fun need :: "expr \<Rightarrow> nat" where
  "need (Const op) = 1"
| "need (Neg e) = need e"
| "need (Not e) = need e"
| "need (Bin c a b) = max (need a) (Suc (need b))"


subsection \<open>Running the code of an expression\<close>

definition quiet :: "clops \<Rightarrow> bool" where
  "quiet X \<longleftrightarrow> (\<forall>c s. x_leave X c s \<longrightarrow> c = EXEC)"

text \<open>
  From \<open>s\<close>, in at most \<open>k\<close> turns, the interpreter is at \<open>q\<close> with the value on top of the stack, or an
  instruction raises the error.
\<close>

definition leads :: "clenv \<Rightarrow> sysenv \<Rightarrow> clops \<Rightarrow> nat \<Rightarrow> outcome \<Rightarrow> aop list \<Rightarrow> nat \<Rightarrow> clm \<Rightarrow> bool" where
  "leads E Q X k r as q s = (case r of
     Value a \<Rightarrow> \<exists>n \<le> k. \<exists>s'. exec E Q X n s s' \<and> ostack E s' (a # as) \<and> os_step E (s\<lparr>pc := int q\<rparr>) s'
   | Error e \<Rightarrow> \<exists>n < k. \<exists>u s'. exec E Q X n s u \<and> run_step E Q X u = Raise e s' \<and> tout s' = tout s
   | Crash \<Rightarrow> \<exists>n < k. \<exists>u. exec E Q X n s u \<and> run_step E Q X u = Fault)"

lemma os_step_pc: "os_step E (s\<lparr>pc := q\<rparr>) u \<Longrightarrow> os_step E (u\<lparr>pc := q'\<rparr>) s' \<Longrightarrow> os_step E (s\<lparr>pc := q'\<rparr>) s'"
  unfolding os_step_def only_os_def by (auto intro: same_outside_trans)

lemma leads_trans:
  assumes "leads E Q X k (Value a) as q s"
    "\<And>u. ostack E u (a # as) \<Longrightarrow> os_step E (s\<lparr>pc := int q\<rparr>) u \<Longrightarrow> leads E Q X k' r as' q' u"
  shows "leads E Q X (k + k') r as' q' s"
proof -
  obtain n u where u: "n \<le> k" "exec E Q X n s u" "ostack E u (a # as)" "os_step E (s\<lparr>pc := int q\<rparr>) u"
    using assms(1) by (auto simp: leads_def)
  note l = assms(2) [OF u(3,4)]
  show ?thesis
  proof (cases r)
    case (Error e)
    with l obtain n' w s' where w: "n' < k'" "exec E Q X n' u w" "run_step E Q X w = Raise e s'" "tout s' = tout u"
      by (auto simp: leads_def)
    from exec_trans [OF u(2) w(2)] w u show ?thesis
      unfolding leads_def Error outcome.case by (intro exI [of _ "n + n'"] conjI exI [of _ w] exI [of _ s']) (auto simp: os_step_def only_os_def)
  next
    case (Value b)
    with l obtain n' s' where w: "n' \<le> k'" "exec E Q X n' u s'" "ostack E s' (b # as')" "os_step E (u\<lparr>pc := int q'\<rparr>) s'"
      by (auto simp: leads_def)
    from exec_trans [OF u(2) w(2)] w u os_step_pc [OF u(4) w(4)] show ?thesis
      unfolding leads_def Value outcome.case by (intro exI [of _ "n + n'"] conjI exI [of _ s']) auto
  next
    case Crash
    with l obtain n' w where w: "n' < k'" "exec E Q X n' u w" "run_step E Q X w = Fault" by (auto simp: leads_def)
    from exec_trans [OF u(2) w(2)] w u show ?thesis
      unfolding leads_def Crash outcome.case by (intro exI [of _ "n + n'"] conjI exI [of _ w]) auto
  qed
qed

lemma leads_err: "leads E Q X k r as q s \<Longrightarrow> \<forall>a. r \<noteq> Value a \<Longrightarrow> k \<le> k' \<Longrightarrow> leads E Q X k' r as' q' s"
  unfolding leads_def by (cases r) (auto intro: less_le_trans)

lemma ostack_pc [simp]: "ostack E (s\<lparr>pc := q\<rparr>) as \<longleftrightarrow> ostack E s as"
  by (simp add: ostack_def lay_ok_def)

lemma bufs_step: "os_step E s s' \<Longrightarrow> bufs_ok E (mm s) \<Longrightarrow> bufs_ok E (mm s')"
  by (meson keeps_bufs keeps_in_stack os_step_in_stack)

text \<open>An instruction in the code, which lies below the base of the operand stack.\<close>

definition code_in :: "clenv \<Rightarrow> clm \<Rightarrow> nat \<Rightarrow> instr list \<Rightarrow> bool" where
  "code_in E s p is \<longleftrightarrow> code_at E (mm s) p is \<and> int (p + clen is) \<le> basos s + 1"

lemma code_in_append: "code_in E s p (is @ js) \<Longrightarrow> code_in E s p is \<and> code_in E s (p + clen is) js"
  by (simp add: code_in_def code_at_append add.assoc)

lemma code_in_step:
  assumes "code_in E s p is" "ostack E s as" "os_step E (s\<lparr>pc := q\<rparr>) s'"
  shows "code_in E s' p is"
proof -
  have l: "p + clen is \<le> nat (basos s + 1)" "nat (basos s + 1) \<le> nat (stacksiz E)"
    using assms(1,2) by (auto simp: code_in_def ostack_def lay_ok_def)
  then have "stk E + 8 * (p + clen is) \<le> length (mm s)" using assms(2) by (auto simp: ostack_def lay_ok_def)
  moreover have "cells E (nat (basos s + 1)) (nat (stacksiz E)) (mm s) (mm s')" using assms(3) by (simp add: os_step_def)
  ultimately have "code_at E (mm s') p is" using assms(1) l(1) unfolding code_in_def by (blast intro: code_at_same)
  then show ?thesis using assms(1,3) by (simp add: code_in_def os_step_def only_os_def)
qed

lemma fetch_in:
  assumes "code_in E s p (i # is)" "instr_ok i" "pc s = int p" "ostack E s as"
  shows "run_step E Q X s = thenc (opcodetbl E Q X (opc i) (stk E + 8 * (p + 2))) (ret (opc i)) (s\<lparr>pc := int (p + ilen i)\<rparr>)"
proof -
  have "p + ilen i \<le> nat (stacksiz E)" using assms(1,4) by (auto simp: code_in_def ostack_def lay_ok_def)
  then have "stk E + 8 * (p + ilen i) \<le> length (mm s)" using assms(4) by (simp add: ostack_def lay_ok_def)
  with assms show ?thesis by (intro fetch) (auto simp: code_in_def)
qed

lemma exec_op:
  assumes "code_in E s p (i # is)" "instr_ok i" "pc s = int p" "ostack E s as" "quiet X" "opc i \<notin> {END, EXEC}"
    "opcodetbl E Q X (opc i) (stk E + 8 * (p + 2)) (s\<lparr>pc := int (p + ilen i)\<rparr>) = Ret () s'"
  shows "exec E Q X 1 s s'"
proof -
  have "run_step E Q X s = Ret (opc i) s'" using fetch_in [OF assms(1-4)] assms(7) by (simp add: cl_simps)
  moreover have "\<not> x_leave X (opc i) s'" using assms(5,6) by (auto simp: quiet_def)
  ultimately show ?thesis using assms(6) turn [OF _ _ _ stop] by simp
qed

lemma leads_op:
  assumes "code_in E s p (i # is)" "instr_ok i" "pc s = int p" "ostack E s as" "quiet X" "opc i \<notin> {END, EXEC}"
    "opcodetbl E Q X (opc i) (stk E + 8 * (p + 2)) (s\<lparr>pc := int (p + ilen i)\<rparr>) = Ret () s'"
    "ostack E s' (a # as')" "os_step E (s\<lparr>pc := int (p + ilen i)\<rparr>) s'"
  shows "leads E Q X 1 (Value a) as' (p + ilen i) s"
  using exec_op [OF assms(1-7)] assms(8,9) by (auto simp: leads_def)

lemma leads_raise:
  assumes "code_in E s p (i # is)" "instr_ok i" "pc s = int p" "ostack E s as"
    "opcodetbl E Q X (opc i) (stk E + 8 * (p + 2)) (s\<lparr>pc := int (p + ilen i)\<rparr>) = Raise e s'" "tout s' = tout s"
  shows "leads E Q X 1 (Error e) as' q s"
proof -
  have "run_step E Q X s = Raise e s'" using fetch_in [OF assms(1-4)] assms(5) by (simp add: cl_simps)
  then show ?thesis using assms(6) stop [of E Q X s] unfolding leads_def by auto
qed


lemma leads_fault:
  assumes "code_in E s p (i # is)" "instr_ok i" "pc s = int p" "ostack E s as"
    "opcodetbl E Q X (opc i) (stk E + 8 * (p + 2)) (s\<lparr>pc := int (p + ilen i)\<rparr>) = Fault"
  shows "leads E Q X 1 Crash as' q s"
proof -
  have "run_step E Q X s = Fault" using fetch_in [OF assms(1-4)] assms(5) by (simp add: thenc_def bindc_def)
  then show ?thesis using stop [of E Q X s] unfolding leads_def by auto
qed

lemma table_num: "map_of num_codes c = Some opcode \<Longrightarrow>
    binop_code c = Some opcode \<and> opcode \<in> int_opcodes \<and> c \<in> plain_ops \<and> c \<notin> {END, EXEC}"
  by (auto simp: num_codes_def binop_code_def plain_ops_def split: if_splits)

lemma table_rel: "map_of rel_codes c = Some opcode \<Longrightarrow> binop_code c = None \<and> binexp_code c = Some opcode
    \<and> opcode \<in> {OP_LT, OP_GT, OP_LE, OP_GE, OP_EQ, OP_NE} \<and> c \<in> plain_ops \<and> c \<notin> {END, EXEC}"
  by (auto simp: rel_codes_def binop_code_def binexp_code_def plain_ops_def split: if_splits)

lemma leads_const:
  assumes "code_in E s p (PushC op # is)" "instr_ok (PushC op)" "pc s = int p" "ostack E s as" "quiet X"
    "const_val op = Some a" "topos s + 3 < topcs s"
  shows "leads E Q X 1 (Value a) as (p + 4) s"
proof -
  let ?s = "s\<lparr>pc := int (p + 4)\<rparr>"
  have a: "val_of (mm s) op a" "\<not> is_str a" "aop_cells a = 3" "\<not> opundef op"
    using assms(6) val_of_undef [of "mm s" op a] by (auto simp: const_val_def is_str_def opundef_def split: if_splits)
  have "src_ok E ?s op a" using a(2) by (cases a) (auto simp: src_ok_def is_str_def)
  then obtain m' where m': "pushv E op ?s = Ret () (pushed E ?s a m')" "ostack E (pushed E ?s a m') (a # as)"
    "os_step E ?s (pushed E ?s a m')"
    using pushv_step [of E ?s as op a] assms(2,4,7) a by auto
  have "opcodetbl E Q X PUSHCONST (stk E + 8 * (p + 2)) = o_pushconst E (stk E + 8 * (p + 2))"
    by (simp add: opcodetbl_def binop_code_def binexp_code_def)
  moreover have "load_operand (stk E + 8 * (p + 2)) (mm ?s) = Some op" using assms(1) by (simp add: code_in_def)
  ultimately have "opcodetbl E Q X PUSHCONST (stk E + 8 * (p + 2)) ?s = Ret () (pushed E ?s a m')"
    using m'(1) a(4) by (simp add: o_pushconst_def cl_simps memget_def)
  then show ?thesis using leads_op [OF assms(1-5), of Q "pushed E ?s a m'" a as] m' by simp
qed

lemma leads_neg:
  assumes "code_in E s p (Op CHSIGN # is)" "pc s = int p" "ostack E s (AInt x # as)" "bufs_ok E (mm s)" "quiet X" "in_range CINT x"
  shows "leads E Q X 1 (Value (AInt (to_int (- x)))) as (p + 2) s"
proof -
  let ?s = "s\<lparr>pc := int (p + 2)\<rparr>"
  obtain s' where s': "unop E Q OP_MINUS ?s = Ret () s'" "ostack E s' (AInt (un_int OP_MINUS x) # as)" "os_step E ?s s'"
    using unop_int [of E ?s x as OP_MINUS Q] assms(3,4,6) by auto
  have "opcodetbl E Q X CHSIGN (stk E + 8 * (p + 2)) = unop E Q OP_MINUS"
    by (simp add: opcodetbl_def binop_code_def binexp_code_def)
  moreover have "un_int OP_MINUS x = to_int (- x)" by (simp add: un_int_def)
  moreover have "instr_ok (Op CHSIGN)" by (simp add: plain_ops_def)
  ultimately show ?thesis using leads_op [OF assms(1) _ assms(2,3,5), of Q s'] s' by simp
qed

lemma leads_not:
  assumes "code_in E s p (Op I_NOT # is)" "pc s = int p" "ostack E s (a # as)" "bufs_ok E (mm s)" "quiet X"
    "not_val a = Some r" "int_ok a"
  shows "leads E Q X 1 r as (p + 2) s"
proof -
  let ?s = "s\<lparr>pc := int (p + 2)\<rparr>" and ?arg = "stk E + 8 * (p + 2)"
  have t: "opcodetbl E Q X I_NOT ?arg = unexp E OP_NOT" by (simp add: opcodetbl_def binop_code_def binexp_code_def)
  have i: "instr_ok (Op I_NOT)" by (simp add: plain_ops_def)
  have u: "ostack E ?s (a # as)" "bufs_ok E (mm ?s)" using assms(3,4) by simp_all
  show ?thesis
  proof (cases a)
    case (ABool x)
    then obtain s' where s': "unexp E OP_NOT ?s = Ret () s'" "ostack E s' (ABool (if x = 0 then 1 else 0) # as)" "os_step E ?s s'"
      using unexp_not [OF u] by auto
    then show ?thesis using leads_op [OF assms(1) i assms(2,3,5), of Q s'] t assms(6) ABool by (auto simp: truth_def)
  next
    case (AInt x)
    then obtain s' where s': "unexp E OP_NOT ?s = Raise (E_UERR (Msg ''Boolean negation of a non-boolean operand'')) s'" "os_step E ?s s'"
      using unexp_not [OF u] by auto
    moreover from s'(2) have "tout s' = tout s" by (simp add: os_step_def only_os_def)
    ultimately show ?thesis using leads_raise [OF assms(1) i assms(2,3), of Q X _ s'] t assms(6) AInt by auto
  qed (use assms(7) in auto)
qed

lemma leads_bin:
  assumes "code_in E s p (Op c # is)" "pc s = int p" "ostack E s (v # u # as)" "bufs_ok E (mm s)" "quiet X"
    "int_floats (fl E)" "apply_bin c u v = Some r"
  shows "leads E Q X 1 r as (p + 2) s"
proof -
  let ?s = "s\<lparr>pc := int (p + 2)\<rparr>" and ?arg = "stk E + 8 * (p + 2)"
  have bufs: "bufs_ok E (mm ?s)" and st: "ostack E ?s (v # u # as)" using assms(3,4) by simp_all
  consider (num) x y opcode where "u = AInt x" "v = AInt y" "map_of num_codes c = Some opcode"
      "r = (case int_op opcode x y of Some (Inr z) \<Rightarrow> Value (AInt z) | Some (Inl e) \<Rightarrow> Error e | None \<Rightarrow> Crash)"
    | (rel) x y opcode where "u = AInt x" "v = AInt y" "map_of rel_codes c = Some opcode" "r = Value (truth (rel_op opcode x y))"
    | (log) x y where "u = ABool x" "v = ABool y" "c = I_OR \<or> c = I_AND"
      "r = Value (truth (if c = I_OR then x \<noteq> 0 \<or> y \<noteq> 0 else x \<noteq> 0 \<and> y \<noteq> 0))"
    using assms(7) by (cases "(c, u, v)" rule: apply_bin.cases) (auto split: option.splits if_splits)
  then show ?thesis
  proof cases
    case num
    note t = table_num [OF num(3)]
    then have tb: "opcodetbl E Q X c ?arg = binop E opcode" by (simp add: opcodetbl_def)
    have i: "instr_ok (Op c)" "opc (Op c) \<notin> {END, EXEC}" using t by auto
    consider (val) w where "int_op opcode x y = Some (Inr w)" | (err) e where "int_op opcode x y = Some (Inl e)"
      | (crash) "int_op opcode x y = None" by (metis option.exhaust sum.exhaust)
    then show ?thesis
    proof cases
      case val
      then obtain s' where "binop E opcode ?s = Ret () s'" "ostack E s' (AInt w # as)" "os_step E ?s s'"
        using binop_int_value [of E ?s y x as opcode w] st bufs num t by auto
      then show ?thesis using leads_op [OF assms(1) i(1) assms(2,3,5) i(2), of Q s'] tb num val by simp
    next
      case err
      then obtain s' where "binop E opcode ?s = Raise e s'" "os_step E ?s s'"
        using binop_int_error [of E ?s y x as opcode e] st num t by auto
      then show ?thesis using leads_raise [OF assms(1) i(1) assms(2,3), of Q X e s'] tb num err
        by (auto simp: os_step_def only_os_def)
    next
      case crash
      then have "binop E opcode ?s = Fault" using binop_int_crash [of E ?s y x as opcode] st num t by auto
      then show ?thesis using leads_fault [OF assms(1) i(1) assms(2,3), of Q X] tb num crash by auto
    qed
  next
    case rel
    note t = table_rel [OF rel(3)]
    then have tb: "opcodetbl E Q X c ?arg = binexp E opcode" by (simp add: opcodetbl_def)
    obtain s' where "binexp E opcode ?s = Ret () s'" "ostack E s' (ABool (if rel_op opcode x y then 1 else 0) # as)" "os_step E ?s s'"
      using binexp_int [of E ?s y x as opcode] st bufs rel t assms(6) by auto
    then show ?thesis using leads_op [OF assms(1) _ assms(2,3,5), of Q s'] tb t rel by (simp add: truth_def)
  next
    case log
    let ?op = "if c = I_OR then OP_OR else OP_AND"
    have tb: "opcodetbl E Q X c ?arg = binexp E ?op" using log(3) by (auto simp: opcodetbl_def binop_code_def binexp_code_def)
    have op: "?op = OP_OR \<or> ?op = OP_AND" by simp
    have eq: "(?op = OP_OR) = (c = I_OR)" by simp
    obtain s' where "binexp E ?op ?s = Ret () s'" "os_step E ?s s'"
      "ostack E s' (ABool (if (if c = I_OR then x \<noteq> 0 \<or> y \<noteq> 0 else x \<noteq> 0 \<and> y \<noteq> 0) then 1 else 0) # as)"
      using binexp_bool [OF st [unfolded log(1,2)] bufs op] unfolding eq by blast
    moreover have "c \<in> plain_ops" "c \<notin> {END, EXEC}" using log(3) by (auto simp: plain_ops_def)
    ultimately show ?thesis using leads_op [OF assms(1) _ assms(2,3,5), of Q s'] tb log(4) by (simp add: truth_def)
  qed
qed

lemma bind_val_cases:
  assumes "bind_val r f = Some x"
  obtains (err) "r = Some x" "\<forall>a. x \<noteq> Value a" | (val) u where "r = Some (Value u)" "f u = Some x"
  using assms by (auto simp: bind_val_def split: option.splits outcome.splits)

lemma after_step:
  assumes "ostack E s as" "bufs_ok E (mm s)" "os_step E (s\<lparr>pc := q\<rparr>) u" "ostack E u (a # as)" "int_ok a"
  shows "bufs_ok E (mm u)" "pc u = q" "topcs u = topcs s" "topos u = topos s + 3" "basos u = basos s" "tout u = tout s"
proof -
  have o: "os_step E (s\<lparr>pc := q\<rparr>) u" "only_os (s\<lparr>pc := q\<rparr>) u" using assms(3) by (auto simp: os_step_def)
  then show "bufs_ok E (mm u)" "pc u = q" "topcs u = topcs s" "basos u = basos s" "tout u = tout s"
    using bufs_step [OF o(1)] assms(2) by (auto simp: only_os_def)
  moreover have "aop_cells a = 3" using assms(5) by (cases a) auto
  ultimately show "topos u = topos s + 3" using ostack_height [OF assms(4)] ostack_height [OF assms(1)] by simp
qed

lemma leads_unary:
  assumes "code_in E s p (ecode e @ [Op c])" "ostack E s as" "bufs_ok E (mm s)" "expr_ok e"
    "bind_val (eval e) f = Some r"
    "\<And>q. eval e = Some q \<Longrightarrow> leads E Q X (length (ecode e)) q as (p + clen (ecode e)) s"
    "\<And>u a. code_in E u (p + clen (ecode e)) [Op c] \<Longrightarrow> pc u = int (p + clen (ecode e)) \<Longrightarrow> ostack E u (a # as) \<Longrightarrow>
       bufs_ok E (mm u) \<Longrightarrow> int_ok a \<Longrightarrow> f a = Some r \<Longrightarrow> leads E Q X 1 r as (p + clen (ecode e) + 2) u"
  shows "leads E Q X (length (ecode e) + 1) r as (p + clen (ecode e) + 2) s"
  using assms(5)
proof (cases rule: bind_val_cases)
  case err
  show ?thesis by (rule leads_err [OF assms(6) [OF err(1)] err(2)]) simp
next
  case (val a)
  have ok: "int_ok a" using eval_ok [OF val(1) assms(4)] .
  show ?thesis
  proof (rule leads_trans [OF assms(6) [OF val(1)]])
    fix u assume u: "ostack E u (a # as)" "os_step E (s\<lparr>pc := int (p + clen (ecode e))\<rparr>) u"
    note f = after_step [OF assms(2,3) u(2,1) ok]
    show "leads E Q X 1 r as (p + clen (ecode e) + 2) u"
      using code_in_append [OF code_in_step [OF assms(1,2) u(2)]] f u ok val by (intro assms(7)) auto
  qed
qed

lemma eval_leads:
  assumes "code_in E s p (ecode e)" "pc s = int p" "ostack E s as" "bufs_ok E (mm s)"
    "topos s + 3 * int (need e) < topcs s" "expr_ok e" "int_floats (fl E)" "quiet X" "eval e = Some r"
  shows "leads E Q X (length (ecode e)) r as (p + clen (ecode e)) s"
  using assms(1-6,9)
proof (induction e arbitrary: s p as r)
  case (Const op)
  then obtain a where a: "const_val op = Some a" "r = Value a" by auto
  then show ?case using leads_const [of E s p op "[]" as X a Q] Const.prems assms(8) by simp
next
  case (Neg e)
  have c: "code_in E s p (ecode e @ [Op CHSIGN])" and b: "bind_val (eval e) negate = Some r" using Neg.prems by simp_all
  have "leads E Q X (length (ecode e) + 1) r as (p + clen (ecode e) + 2) s"
  proof (rule leads_unary [OF c Neg.prems(3,4) _ b])
    show "leads E Q X (length (ecode e)) q as (p + clen (ecode e)) s" if "eval e = Some q" for q
      using Neg.prems code_in_append [OF c] that by (intro Neg.IH) auto
    fix u a
    assume u: "code_in E u (p + clen (ecode e)) [Op CHSIGN]" "pc u = int (p + clen (ecode e))" "ostack E u (a # as)"
      "bufs_ok E (mm u)" "int_ok a" "negate a = Some r"
    then show "leads E Q X 1 r as (p + clen (ecode e) + 2) u"
      using leads_neg [OF u(1,2) _ u(4) assms(8)] by (cases a) auto
  qed (use Neg.prems in auto)
  then show ?case by (simp add: add.assoc)
next
  case (Not e)
  have c: "code_in E s p (ecode e @ [Op I_NOT])" and b: "bind_val (eval e) not_val = Some r" using Not.prems by simp_all
  have "leads E Q X (length (ecode e) + 1) r as (p + clen (ecode e) + 2) s"
  proof (rule leads_unary [OF c Not.prems(3,4) _ b])
    show "leads E Q X (length (ecode e)) q as (p + clen (ecode e)) s" if "eval e = Some q" for q
      using Not.prems code_in_append [OF c] that by (intro Not.IH) auto
    fix u a
    assume u: "code_in E u (p + clen (ecode e)) [Op I_NOT]" "pc u = int (p + clen (ecode e))" "ostack E u (a # as)"
      "bufs_ok E (mm u)" "int_ok a" "not_val a = Some r"
    then show "leads E Q X 1 r as (p + clen (ecode e) + 2) u"
      using leads_not [OF u(1-4) assms(8) u(6,5)] by simp
  qed (use Not.prems in auto)
  then show ?case by (simp add: add.assoc)
next
  case (Bin c a b)
  let ?q = "p + clen (ecode a)"
  have code: "code_in E s p (ecode a @ ecode b @ [Op c])" using Bin.prems(1) by simp
  have room: "topos s + 3 * int (need a) < topcs s" "topos s + 3 + 3 * int (need b) < topcs s"
    using Bin.prems(5) by (auto simp: max_def split: if_splits)
  have ok: "expr_ok a" "expr_ok b" using Bin.prems(6) by simp_all
  have ea: "leads E Q X (length (ecode a)) ra as ?q s" if "eval a = Some ra" for ra
    using code_in_append [OF code] by (intro Bin.IH(1) Bin.prems(2-4) room(1) ok(1) that) simp
  have "bind_val (eval a) (\<lambda>u. bind_val (eval b) (apply_bin c u)) = Some r" using Bin.prems by simp
  then show ?case
  proof (cases rule: bind_val_cases)
    case err
    show ?thesis by (rule leads_err [OF ea [OF err(1)] err(2)]) simp
  next
    case (val x)
    have okx: "int_ok x" using eval_ok [OF val(1) ok(1)] .
    have "leads E Q X (length (ecode a) + (length (ecode b) + 1)) r as (?q + clen (ecode b) + 2) s"
    proof (rule leads_trans [OF ea [OF val(1)]])
      fix u assume u: "ostack E u (x # as)" "os_step E (s\<lparr>pc := int ?q\<rparr>) u"
      note f = after_step [OF Bin.prems(3,4) u(2,1) okx]
      have cu: "code_in E u ?q (ecode b @ [Op c])"
        using code_in_append [OF code_in_step [OF code Bin.prems(3) u(2)]] by simp
      show "leads E Q X (length (ecode b) + 1) r as (?q + clen (ecode b) + 2) u" 
        using val(2)
      proof (cases rule: bind_val_cases)
        case err
        have "leads E Q X (length (ecode b)) r (x # as) (?q + clen (ecode b)) u"
          using code_in_append [OF cu] f room(2) by (intro Bin.IH(2) u(1) ok(2) err(1)) simp_all
        then show ?thesis by (rule leads_err [OF _ err(2)]) simp
      next
        case (val y)
        have oky: "int_ok y" using eval_ok [OF val(1) ok(2)] .
        show ?thesis
        proof (rule leads_trans)
          show "leads E Q X (length (ecode b)) (Value y) (x # as) (?q + clen (ecode b)) u"
            using code_in_append [OF cu] f room(2) by (intro Bin.IH(2) u(1) ok(2) val(1)) simp_all
          fix w assume w: "ostack E w (y # x # as)" "os_step E (u\<lparr>pc := int (?q + clen (ecode b))\<rparr>) w"
          note g = after_step [OF u(1) f(1) w(2,1) oky]
          show "leads E Q X 1 r as (?q + clen (ecode b) + 2) w"
            by (rule leads_bin [OF conjunct2 [OF code_in_append [OF code_in_step [OF cu u(1) w(2)]]] g(2) w(1) g(1) assms(8,7) val(2)])
        qed
      qed
    qed
    then show ?thesis by (simp add: add.assoc)
  qed
qed

end
