(* ===== verification/Cl_Command.thy ===== *)
theory Cl_Command
  imports Cl_Run
begin

text \<open>
  A command of the CL from the parser's rules to the output: the meaning of statements, the proof that
  their code has it, the turn of \<open>main\<close> that compiles a command and runs it, and the types of commands.
\<close>

subsection \<open>The meaning of statements\<close>

datatype ending = Done | Failed clerr | Crashed

definition value_line :: "fops \<Rightarrow> aop \<Rightarrow> byte list" where
  "value_line F a = escaped (print_text F a) @ [10]"

text \<open>What a statement writes, and how it ends.\<close>

fun sem :: "fops \<Rightarrow> stmt \<Rightarrow> (byte list \<times> ending) option" where
  "sem F (Immed e) = (case eval e of
      Some (Value a) \<Rightarrow> Some (value_line F a, Done)
    | Some (Error x) \<Rightarrow> Some ([], Failed x)
    | Some Crash \<Rightarrow> Some ([], Crashed)
    | None \<Rightarrow> None)"
| "sem F (If e t) = (case eval e of
      Some (Value (ABool b)) \<Rightarrow> if b \<noteq> 0 then sem F t else Some ([], Done)
    | Some (Error x) \<Rightarrow> Some ([], Failed x)
    | Some Crash \<Rightarrow> Some ([], Crashed)
    | _ \<Rightarrow> None)"
| "sem F (IfElse e t f) = (case eval e of
      Some (Value (ABool b)) \<Rightarrow> if b \<noteq> 0 then sem F t else sem F f
    | Some (Error x) \<Rightarrow> Some ([], Failed x)
    | Some Crash \<Rightarrow> Some ([], Crashed)
    | _ \<Rightarrow> None)"
| "sem F (Seq a b) = (case sem F a of
      Some (out, Done) \<Rightarrow> map_option (\<lambda>(out', r). (out @ out', r)) (sem F b)
    | r \<Rightarrow> r)"
| "sem F Skip = Some ([], Done)"

fun sneed :: "stmt \<Rightarrow> nat" where
  "sneed (Immed e) = need e"
| "sneed (If e t) = max (need e) (sneed t)"
| "sneed (IfElse e t f) = max (need e) (max (sneed t) (sneed f))"
| "sneed (Seq a b) = max (sneed a) (sneed b)"
| "sneed Skip = 1"

lemma need_pos: "1 \<le> need e" "1 \<le> sneed st"
proof -
  show e: "1 \<le> need e" for e by (induction e) auto
  show "1 \<le> sneed st" by (induction st) (use e in \<open>auto simp: le_max_iff_disj\<close>)
qed

text \<open>The registers and the code after some turns that wrote \<open>out\<close>.\<close>

definition wrote :: "clenv \<Rightarrow> byte list \<Rightarrow> nat \<Rightarrow> clm \<Rightarrow> clm \<Rightarrow> bool" where
  "wrote E out q s s' \<longleftrightarrow> pc s' = int q \<and> topcs s' = topcs s \<and> basos s' = basos s \<and> tout s' = tout s @ out
     \<and> cells E (nat (basos s + 1)) (nat (stacksiz E)) (mm s) (mm s')"

definition ends :: "clenv \<Rightarrow> sysenv \<Rightarrow> clops \<Rightarrow> nat \<Rightarrow> byte list \<Rightarrow> ending \<Rightarrow> aop list \<Rightarrow> nat \<Rightarrow> clm \<Rightarrow> bool" where
  "ends E Q X k out r as q s = (case r of
     Done \<Rightarrow> \<exists>n \<le> k. \<exists>s'. exec E Q X n s s' \<and> ostack E s' as \<and> wrote E out q s s'
   | Failed e \<Rightarrow> \<exists>n < k. \<exists>u s'. exec E Q X n s u \<and> run_step E Q X u = Raise e s' \<and> tout s' = tout s @ out
   | Crashed \<Rightarrow> \<exists>n < k. \<exists>u. exec E Q X n s u \<and> run_step E Q X u = Fault)"

lemma wrote_trans: "wrote E out q s u \<Longrightarrow> wrote E out' q' u s' \<Longrightarrow> wrote E (out @ out') q' s s'"
  unfolding wrote_def by (auto intro: same_outside_trans)

lemma wrote_step: "os_step E (s\<lparr>pc := int q\<rparr>) u \<Longrightarrow> wrote E [] q s u"
  by (simp add: wrote_def os_step_def only_os_def)

lemma wrote_bufs: "wrote E out q s u \<Longrightarrow> bufs_ok E (mm s) \<Longrightarrow> bufs_ok E (mm u)"
  by (meson keeps_bufs keeps_in_stack same_outside_mono wrote_def le_add1 add_le_cancel_left mult_le_mono2 le_refl)

lemma wrote_code: "code_in E s p is \<Longrightarrow> ostack E s as \<Longrightarrow> wrote E out q s u \<Longrightarrow> code_in E u p is"
  using code_in_step [of E s p "is" as "pc s" "u\<lparr>pc := pc s, tout := tout s, last_task_frame := last_task_frame s, eprinted := eprinted s\<rparr>"]
  by (simp add: code_in_def wrote_def os_step_def only_os_def)

lemma wrote_topos: "ostack E s as \<Longrightarrow> ostack E u as \<Longrightarrow> wrote E out q s u \<Longrightarrow> topos u = topos s"
  by (simp add: ostack_height wrote_def)

lemma ends_trans:
  assumes "exec E Q X n s u" "wrote E out q s u" "n \<le> k" "ends E Q X k' out' r as q' u"
  shows "ends E Q X (k + k') (out @ out') r as q' s"
proof (cases r)
  case Done
  with assms(4) obtain n' s' where w: "n' \<le> k'" "exec E Q X n' u s'" "ostack E s' as" "wrote E out' q' u s'"
    by (auto simp: ends_def)
  with exec_trans [OF assms(1) w(2)] wrote_trans [OF assms(2) w(4)] assms(3) show ?thesis
    unfolding ends_def Done ending.case by (intro exI [of _ "n + n'"] conjI exI [of _ s']) auto
next
  case (Failed e)
  with assms(4) obtain n' w s' where w: "n' < k'" "exec E Q X n' u w" "run_step E Q X w = Raise e s'" "tout s' = tout u @ out'"
    by (auto simp: ends_def)
  with exec_trans [OF assms(1) w(2)] assms(2,3) show ?thesis
    unfolding ends_def Failed ending.case by (intro exI [of _ "n + n'"] conjI exI [of _ w] exI [of _ s']) (auto simp: wrote_def)
next
  case Crashed
  with assms(4) obtain n' w where w: "n' < k'" "exec E Q X n' u w" "run_step E Q X w = Fault"
    by (auto simp: ends_def)
  with exec_trans [OF assms(1) w(2)] assms(2,3) show ?thesis
    unfolding ends_def Crashed ending.case by (intro exI [of _ "n + n'"] conjI exI [of _ w]) (auto simp: wrote_def)
qed

lemma ends_stop: "exec E Q X n s u \<Longrightarrow> wrote E out q s u \<Longrightarrow> n \<le> k \<Longrightarrow> ostack E u as \<Longrightarrow> ends E Q X k out Done as q s"
  by (auto simp: ends_def)

text \<open>The states in which a piece of code starts.\<close>

definition starts :: "clenv \<Rightarrow> clm \<Rightarrow> nat \<Rightarrow> instr list \<Rightarrow> aop list \<Rightarrow> nat \<Rightarrow> bool" where
  "starts E s p is as n \<longleftrightarrow> code_in E s p is \<and> pc s = int p \<and> ostack E s as \<and> bufs_ok E (mm s)
     \<and> topos s + 3 * int n < topcs s"

lemma starts_after:
  assumes "starts E s p is as n" "code_in E s q js" "wrote E out q s u" "ostack E u as"
  shows "starts E u q js as n"
  using assms wrote_code [of E s q js as out q u] wrote_bufs [of E out q s u] wrote_topos [of E s as u out q]
  by (auto simp: starts_def wrote_def)

lemma starts_less: "starts E s p is as n \<Longrightarrow> n' \<le> n \<Longrightarrow> starts E s p is as n'"
  by (auto simp: starts_def)

lemma starts_prefix: "starts E s p (is @ js) as n \<Longrightarrow> starts E s p is as n"
  using code_in_append by (auto simp: starts_def)

subsection \<open>Branches\<close>

lemma branch_arg:
  assumes "instr_at E m p (OpInt c x)" "in_range CINT x" "stk E + 8 * (p + 3) \<le> length m"
  shows "map_option to_int (cload XLONG m (stk E + 8 * (p + 2))) = Some x"
proof -
  let ?v = "cdec XLONG (slice m (stk E + 8 * (p + 2)) 8)"
  have "cload XLONG m (stk E + 8 * (p + 2)) = Some ?v" using assms(3) by (simp add: cload_Some)
  moreover have "?v = x"
  proof -
    have "in_range XLONG ?v" by (rule cdec_in_range) (use assms(3) in \<open>auto simp: length_slice min_def\<close>)
    moreover have "(word_of_int ?v :: memel) = word_of_int x" using assms(1) by (simp add: cellw_def)
    then have "sint (word_of_int ?v :: memel) = sint (word_of_int x :: memel)" by simp
    ultimately show ?thesis using assms(2)
      by (simp add: in_range_def signed_of_int signed_take_bit_int_eq_self)
  qed
  ultimately show ?thesis using assms(2) by (simp add: in_range_def)
qed

lemma ends_fail:
  assumes "leads E Q X k r as' q s" "k \<le> k'"
  shows "r = Error x \<Longrightarrow> ends E Q X k' [] (Failed x) as q' s" "r = Crash \<Longrightarrow> ends E Q X k' [] Crashed as q' s"
proof -
  show "ends E Q X k' [] (Failed x) as q' s" if "r = Error x"
  proof -
    obtain n u s' where "n < k" "exec E Q X n s u" "run_step E Q X u = Raise x s'" "tout s' = tout s"
      using assms(1) \<open>r = Error x\<close> by (auto simp: leads_def)
    with assms(2) show ?thesis unfolding ends_def ending.case by (intro exI [of _ n] exI [of _ u] exI [of _ s'] conjI) auto
  qed
  show "ends E Q X k' [] Crashed as q' s" if "r = Crash"
  proof -
    obtain n u where "n < k" "exec E Q X n s u" "run_step E Q X u = Fault" using assms(1) \<open>r = Crash\<close> by (auto simp: leads_def)
    with assms(2) show ?thesis unfolding ends_def ending.case by (intro exI [of _ n] exI [of _ u] conjI) auto
  qed
qed

text \<open>The machine: the interpreter goes on, and the floating point numbers hold the integers.\<close>

definition machine :: "clenv \<Rightarrow> clops \<Rightarrow> bool" where
  "machine E X \<longleftrightarrow> quiet X \<and> int_floats (fl E) \<and> stacksiz E < 2147483648"

lemma starts_leads:
  assumes "machine E X" "starts E s p (ecode e @ is) as (need e)" "expr_ok e" "eval e = Some r"
  shows "leads E Q X (length (ecode e)) r as (p + clen (ecode e)) s"
  using assms starts_prefix [OF assms(2)]
  by (intro eval_leads) (auto simp: machine_def starts_def)

text \<open>The value of a condition or of a printed expression is on top of the stack.\<close>

lemma starts_value:
  assumes "machine E X" "starts E s p (ecode e @ is) as n" "need e \<le> n" "expr_ok e" "eval e = Some (Value a)"
  shows "\<exists>k \<le> length (ecode e). \<exists>u. exec E Q X k s u \<and> wrote E [] (p + clen (ecode e)) s u \<and> ostack E u (a # as)
    \<and> bufs_ok E (mm u) \<and> code_in E u (p + clen (ecode e)) is \<and> topos u = topos s + 3 \<and> int_ok a"
proof -
  obtain k u where u: "k \<le> length (ecode e)" "exec E Q X k s u" "ostack E u (a # as)" "os_step E (s\<lparr>pc := int (p + clen (ecode e))\<rparr>) u"
    using starts_leads [where Q = Q, OF assms(1) starts_less [OF assms(2,3)] assms(4,5)] by (auto simp: leads_def)
  have c: "code_in E s p (ecode e @ is)" "ostack E s as" "bufs_ok E (mm s)" using assms(2) by (simp_all add: starts_def)
  have ok: "int_ok a" using eval_ok [OF assms(5,4)] .
  note after_step [OF c(2,3) u(4,3) ok] code_in_append [OF code_in_step [OF c(1,2) u(4)]]
  with u wrote_step [OF u(4)] ok show ?thesis by blast
qed

lemma top_bool:
  assumes "ostack E s (ABool b # as)"
  shows "\<exists>op. popop E s = Ret op (s\<lparr>topos := topos s - 3\<rparr>) \<and> v_i op = b \<and> \<not> opindef op \<and> ostack E (s\<lparr>topos := topos s - 3\<rparr>) as"
  using popop_correct [OF assms] not_indef by fastforce

lemma biff_step:
  assumes "code_in E u q (OpInt BIFF (int n) # is)" "pc u = int q" "ostack E u (ABool b # as)" "quiet X" "int n < 2147483648"
  shows "\<exists>w. exec E Q X 1 u w \<and> wrote E [] (if b \<noteq> 0 then q + 3 else q + 3 + n) u w \<and> ostack E w as"
proof -
  let ?s = "u\<lparr>pc := int (q + 3)\<rparr>" and ?arg = "stk E + 8 * (q + 2)"
  let ?w = "u\<lparr>topos := topos u - 3, pc := int (if b \<noteq> 0 then q + 3 else q + 3 + n)\<rparr>"
  have r: "in_range CINT (int n)" using assms(5) by (simp add: in_range_def)
  have i: "instr_ok (OpInt BIFF (int n))" using r by (simp add: int_ops_def)
  have st: "ostack E ?s (ABool b # as)" using assms(3) by simp
  obtain op where op: "popop E ?s = Ret op (?s\<lparr>topos := topos ?s - 3\<rparr>)" "v_i op = b" "\<not> opindef op"
    "ostack E (?s\<lparr>topos := topos ?s - 3\<rparr>) as" using top_bool [OF st] by blast
  have "q + 3 \<le> nat (stacksiz E)" using assms(1,3) by (auto simp: code_in_def ostack_def lay_ok_def)
  then have "stk E + 8 * (q + 3) \<le> length (mm u)" using assms(3) by (simp add: ostack_def lay_ok_def)
  then have arg: "map_option to_int (cload XLONG (mm u) ?arg) = Some (int n)"
    using assms(1) r by (intro branch_arg [of E "mm u" q BIFF]) (auto simp: code_in_def)
  have cast: "opcast E OT_BOOL ?s = Ret () ?s" by (rule opcast_same [OF st]) (simp add: basic_type_def)
  have "opcodetbl E Q X BIFF ?arg = o_biff E ?arg" by (simp add: opcodetbl_def binop_code_def binexp_code_def)
  then have "opcodetbl E Q X BIFF ?arg ?s = Ret () ?w"
    using cast op(1-3) arg by (auto simp: o_biff_def cl_simps arg_int_def memget_def add.assoc)
  then have "exec E Q X 1 u ?w" using exec_op [OF assms(1) i assms(2,3,4), of Q ?w] by simp
  moreover have "ostack E ?w as" using op(4) by (simp add: ostack_def lay_ok_def)
  ultimately show ?thesis by (intro exI [of _ ?w]) (simp add: wrote_def)
qed

lemma goto_step:
  assumes "code_in E u q (OpInt GOTO (int n) # is)" "pc u = int q" "ostack E u as" "quiet X" "int n < 2147483648"
    "n \<le> clen is" "topos u + 3 < topcs u"
  shows "\<exists>w. exec E Q X 1 u w \<and> wrote E [] (q + 3 + n) u w \<and> ostack E w as"
proof -
  let ?s = "u\<lparr>pc := int (q + 3)\<rparr>" and ?arg = "stk E + 8 * (q + 2)" and ?w = "u\<lparr>pc := int (q + 3 + n)\<rparr>"
  have r: "in_range CINT (int n)" using assms(5) by (simp add: in_range_def)
  have i: "instr_ok (OpInt GOTO (int n))" using r by (simp add: int_ops_def)
  have "q + 3 \<le> nat (stacksiz E)" using assms(1,3) by (auto simp: code_in_def ostack_def lay_ok_def)
  then have "stk E + 8 * (q + 3) \<le> length (mm u)" using assms(3) by (simp add: ostack_def lay_ok_def)
  then have arg: "map_option to_int (cload XLONG (mm u) ?arg) = Some (int n)"
    using assms(1) r by (intro branch_arg [of E "mm u" q GOTO]) (auto simp: code_in_def)
  have "int (q + 3 + n) < stacksiz E"
    using assms(1,3,6,7) by (auto simp: code_in_def ostack_def lay_ok_def)
  moreover have "opcodetbl E Q X GOTO ?arg = o_dogoto E ?arg" by (simp add: opcodetbl_def binop_code_def binexp_code_def)
  ultimately have "opcodetbl E Q X GOTO ?arg ?s = Ret () ?w"
    using arg by (auto simp: o_dogoto_def goto_by_def cl_simps arg_int_def memget_def)
  then have "exec E Q X 1 u ?w" using exec_op [OF assms(1) i assms(2,3,4), of Q ?w] by simp
  then show ?thesis using assms(3) by (intro exI [of _ ?w]) (simp add: wrote_def)
qed

lemma length_dec_digits: "n < 10 ^ Suc k \<Longrightarrow> length (dec_digits n) \<le> Suc k"
proof (induction k arbitrary: n)
  case 0
  then show ?case by (subst dec_digits.simps) simp
next
  case (Suc k)
  then have "n div 10 < 10 ^ Suc k" by (simp add: less_mult_imp_div_less mult.commute)
  from Suc.IH [OF this] show ?case by (subst dec_digits.simps) simp
qed

lemma length_escaped: "length (escaped line) \<le> 2 * length line"
  by (induction line) (auto simp: escaped_def)

lemma printable_int_ok: "int_ok a \<Longrightarrow> printable F a"
proof -
  assume ok: "int_ok a"
  have "length (print_text F a) \<le> 11 \<and> (\<forall>t. a \<noteq> AIndef t)"
  proof (cases a)
    case (AInt x)
    with ok have "- 2147483648 \<le> x" "x < 2147483648" by (simp_all add: in_range_def)
    then have "nat \<bar>x\<bar> < 10 ^ Suc 9" by simp
    from length_dec_digits [OF this] have "length (dec_digits (nat \<bar>x\<bar>)) \<le> 10" by simp
    then have "length (fmt_d x) \<le> 11" by (auto simp: fmt_d_def)
    with AInt show ?thesis by (simp add: print_text_def)
  qed (use ok in \<open>simp_all add: print_text_def lit_yes_def lit_no_def\<close>)
  with length_escaped [of "print_text F a"] show ?thesis by (auto simp: printable_def)
qed

lemma immed_step:
  assumes "code_in E u q (Op IMMED # is)" "pc u = int q" "ostack E u (a # as)" "bufs_ok E (mm u)" "quiet X" "int_ok a"
  shows "\<exists>w. exec E Q X 1 u w \<and> wrote E (value_line (fl E) a) (q + 2) u w \<and> ostack E w as"
proof -
  let ?s = "u\<lparr>pc := int (q + 2)\<rparr>" and ?arg = "stk E + 8 * (q + 2)"
  obtain w where w: "o_immed E ?s = Ret () w" "ostack E w as" "mm w = mm u" "pc w = int (q + 2)" "topcs w = topcs u"
    "basos w = basos u" "tout w = tout u @ value_line (fl E) a"
    using o_immed_prints [of E ?s a as] assms(3,4) printable_int_ok [OF assms(6)] by (auto simp: value_line_def)
  have "opcodetbl E Q X IMMED ?arg = o_immed E" by (simp add: opcodetbl_def binop_code_def binexp_code_def)
  moreover have "instr_ok (Op IMMED)" by (simp add: plain_ops_def)
  ultimately have "exec E Q X 1 u w" using exec_op [OF assms(1) _ assms(2,3,5), of Q w] w(1) by simp
  with w show ?thesis by (intro exI [of _ w]) (simp add: wrote_def)
qed

lemma cond_step:
  assumes "machine E X" "starts E s p (ecode e @ OpInt BIFF (int n) # is) as N" "need e \<le> N" "expr_ok e"
    "eval e = Some (Value (ABool b))" "n \<le> clen is"
  shows "\<exists>k \<le> length (ecode e) + 1. \<exists>w. exec E Q X k s w
    \<and> wrote E [] (if b \<noteq> 0 then p + clen (ecode e) + 3 else p + clen (ecode e) + 3 + n) s w \<and> ostack E w as"
proof -
  let ?q = "p + clen (ecode e)"
  obtain k u where u: "k \<le> length (ecode e)" "exec E Q X k s u" "wrote E [] ?q s u" "ostack E u (ABool b # as)"
    "code_in E u ?q (OpInt BIFF (int n) # is)"
    using starts_value [where Q = Q, OF assms(1-5)] by auto
  have "int (?q + 3 + n) \<le> basos u + 1" using u(5) assms(6) by (simp add: code_in_def)
  then have n: "int n < 2147483648" using u(4) assms(1) by (auto simp: ostack_def lay_ok_def machine_def)
  have pc: "pc u = int ?q" and q: "quiet X" using u(3) assms(1) by (simp_all add: wrote_def machine_def)
  obtain w where w: "exec E Q X 1 u w" "wrote E [] (if b \<noteq> 0 then ?q + 3 else ?q + 3 + n) u w" "ostack E w as"
    using biff_step [OF u(5) pc u(4) q n] by blast
  from exec_trans [OF u(2) w(1)] wrote_trans [OF u(3) w(2)] w(3) u(1) show ?thesis
    by (intro exI [of _ "k + 1"] exI [of _ w] conjI) auto
qed

lemma ends_immed:
  assumes "machine E X" "expr_ok e" "starts E s p (scode (Immed e)) as (need e)" "sem (fl E) (Immed e) = Some (out, r)"
  shows "ends E Q X (length (scode (Immed e))) out r as (p + clen (scode (Immed e))) s"
proof -
  let ?q = "p + clen (ecode e)"
  have st: "starts E s p (ecode e @ [Op IMMED]) as (need e)" using assms(3) by simp
  obtain v where v: "eval e = Some v" using assms(4) by (auto split: option.splits)
  show ?thesis
  proof (cases v)
    case (Value a)
    obtain k u where u: "k \<le> length (ecode e)" "exec E Q X k s u" "wrote E [] ?q s u" "ostack E u (a # as)"
      "bufs_ok E (mm u)" "code_in E u ?q [Op IMMED]" "int_ok a"
      using starts_value [where Q = Q, OF assms(1) st order_refl assms(2) v [unfolded Value]] by auto
    have pc: "pc u = int ?q" and q: "quiet X" using u(3) assms(1) by (simp_all add: wrote_def machine_def)
    obtain w where w: "exec E Q X 1 u w" "wrote E (value_line (fl E) a) (?q + 2) u w" "ostack E w as"
      using immed_step [OF u(6) pc u(4,5) q u(7)] by blast
    have "out = value_line (fl E) a" "r = Done" using assms(4) v Value by simp_all
    then show ?thesis
      using ends_stop [OF exec_trans [OF u(2) w(1)] wrote_trans [OF u(3) w(2)] _ w(3), of "length (scode (Immed e))"] u(1)
      by (simp add: add.assoc)
  next
    case (Error x)
    with assms(4) v ends_fail(1) [OF starts_leads [where Q = Q, OF assms(1) st assms(2) v]] show ?thesis by auto
  next
    case Crash
    with assms(4) v ends_fail(2) [OF starts_leads [where Q = Q, OF assms(1) st assms(2) v]] show ?thesis by auto
  qed
qed

text \<open>A condition that does not yield a truth value but an error.\<close>

lemma cond_fails:
  assumes "machine E X" "starts E s p (ecode e @ is) as N" "need e \<le> N" "expr_ok e" "eval e = Some v"
    "v = Error x \<and> r = Failed x \<or> v = Crash \<and> r = Crashed" "length (ecode e) \<le> k"
  shows "ends E Q X k [] r as q s"
proof -
  note l = starts_leads [where Q = Q, OF assms(1) starts_less [OF assms(2,3)] assms(4,5)]
  from assms(6) ends_fail [OF l assms(7)] show ?thesis unfolding ends_def by (elim disjE conjE) auto
qed

lemma ends_mono:
  assumes "ends E Q X k out r as q s" "k \<le> k'" "r = Done \<Longrightarrow> q' = q"
  shows "ends E Q X k' out r as q' s"
proof (cases r)
  case Done
  with assms show ?thesis unfolding ends_def by (auto intro: le_trans)
qed (use assms(1,2) in \<open>unfold ends_def, force\<close>)+

lemma ends_if:
  assumes "machine E X" "expr_ok e" "starts E s p (scode (If e st)) as N" "sneed (If e st) \<le> N"
    "sem (fl E) (If e st) = Some (out, r)"
    and body: "\<And>u. starts E u (p + clen (ecode e) + 3) (scode st) as N \<Longrightarrow> sem (fl E) st = Some (out, r) \<Longrightarrow>
      ends E Q X (length (scode st)) out r as (p + clen (ecode e) + 3 + clen (scode st)) u"
  shows "ends E Q X (length (scode (If e st))) out r as (p + clen (scode (If e st))) s"
proof -
  let ?q = "p + clen (ecode e)" and ?n = "clen (scode st)"
  have st: "starts E s p (ecode e @ OpInt BIFF (int ?n) # scode st) as N" using assms(3) by simp
  have code: "code_in E s (?q + 3) (scode st)"
    using code_in_append [of E s p "ecode e" "OpInt BIFF (int ?n) # scode st"] st by (simp add: starts_def code_in_def)
  have ne: "need e \<le> N" using assms(4) by simp
  obtain v where v: "eval e = Some v" using assms(5) by (auto split: option.splits)
  show ?thesis
  proof (cases "\<exists>b. v = Value (ABool b)")
    case True
    then obtain b where b: "eval e = Some (Value (ABool b))" using v by blast
    obtain k w where w: "k \<le> length (ecode e) + 1" "exec E Q X k s w"
      "wrote E [] (if b \<noteq> 0 then ?q + 3 else ?q + 3 + ?n) s w" "ostack E w as"
      using cond_step [where Q = Q, OF assms(1) st ne assms(2) b] by auto
    show ?thesis
    proof (cases "b = 0")
      case True
      with b assms(5) have "out = []" "r = Done" by simp_all
      with ends_stop [OF w(2) w(3) _ w(4), of "length (scode (If e st))"] w(1) True show ?thesis by (simp add: add.assoc)
    next
      case False
      then have "sem (fl E) st = Some (out, r)" "wrote E [] (?q + 3) s w" using b assms(5) w(3) by simp_all
      from ends_trans [OF w(2) this(2) w(1) body [OF starts_after [OF st code this(2) w(4)] this(1)]]
      show ?thesis by (simp add: add.assoc)
    qed
  next
    case False
    with v assms(5) have "out = []" "\<exists>x. v = Error x \<and> r = Failed x \<or> v = Crash \<and> r = Crashed"
      by (auto split: outcome.splits aop.splits)
    with cond_fails [where Q = Q, OF assms(1) st ne assms(2) v] show ?thesis by auto
  qed
qed

lemma ends_ifelse:
  assumes "machine E X" "expr_ok e" "starts E s p (scode (IfElse e st st')) as N" "sneed (IfElse e st st') \<le> N"
    "sem (fl E) (IfElse e st st') = Some (out, r)"
    and body: "\<And>u. starts E u (p + clen (ecode e) + 3) (scode st) as N \<Longrightarrow> sem (fl E) st = Some (out, r) \<Longrightarrow>
      ends E Q X (length (scode st)) out r as (p + clen (ecode e) + 3 + clen (scode st)) u"
    and body': "\<And>u. starts E u (p + clen (ecode e) + 3 + clen (scode st) + 3) (scode st') as N \<Longrightarrow> sem (fl E) st' = Some (out, r) \<Longrightarrow>
      ends E Q X (length (scode st')) out r as (p + clen (ecode e) + 3 + clen (scode st) + 3 + clen (scode st')) u"
  shows "ends E Q X (length (scode (IfElse e st st'))) out r as (p + clen (scode (IfElse e st st'))) s"
proof -
  let ?q = "p + clen (ecode e)" and ?n = "clen (scode st)" and ?n' = "clen (scode st')"
  let ?g = "?q + 3 + ?n" and ?rest = "scode st @ OpInt GOTO (int ?n') # scode st'"
  have st: "starts E s p (ecode e @ OpInt BIFF (int (?n + 3)) # ?rest) as N" using assms(3) by simp
  have c: "code_in E s ?q (OpInt BIFF (int (?n + 3)) # ?rest)" using code_in_append st by (auto simp: starts_def)
  then have "code_in E s (?q + 3) ?rest" by (simp add: code_in_def)
  note code = code_in_append [OF this]
  then have els: "code_in E s (?g + 3) (scode st')" by (simp add: code_in_def add.assoc)
  have ne: "need e \<le> N" using assms(4) by simp
  have le: "?n + 3 \<le> clen ?rest" by simp
  obtain v where v: "eval e = Some v" using assms(5) by (auto split: option.splits)
  show ?thesis
  proof (cases "\<exists>b. v = Value (ABool b)")
    case True
    then obtain b where b: "eval e = Some (Value (ABool b))" using v by blast
    obtain k w where w: "k \<le> length (ecode e) + 1" "exec E Q X k s w"
      "wrote E [] (if b \<noteq> 0 then ?q + 3 else ?q + 3 + (?n + 3)) s w" "ostack E w as"
      using cond_step [where Q = Q, OF assms(1) st ne assms(2) b le] by blast
    show ?thesis
    proof (cases "b = 0")
      case True
      then have "sem (fl E) st' = Some (out, r)" "wrote E [] (?g + 3) s w" using b assms(5) w(3) by (simp_all add: add.assoc)
      from ends_trans [OF w(2) this(2) w(1) body' [OF starts_after [OF st els this(2) w(4)] this(1)]]
      have "ends E Q X (length (ecode e) + 1 + length (scode st')) out r as (?g + 3 + ?n') s" by simp
      then show ?thesis by (rule ends_mono) simp_all
    next
      case False
      then have sm: "sem (fl E) st = Some (out, r)" and w3: "wrote E [] (?q + 3) s w" using b assms(5) w(3) by simp_all
      note st1 = starts_after [OF st conjunct1 [OF code] w3 w(4)]
      note run1 = ends_trans [OF w(2) w3 w(1) body [OF st1 sm]]
      show ?thesis
      proof (cases "r = Done")
        case True
        then obtain j x where x: "j \<le> length (ecode e) + 1 + length (scode st)" "exec E Q X j s x" "ostack E x as" "wrote E out ?g s x"
          using run1 by (auto simp: ends_def)
        have cg: "code_in E x ?g (OpInt GOTO (int ?n') # scode st')" and room: "topos x + 3 < topcs x"
          using starts_after [OF st conjunct2 [OF code] x(4,3)] need_pos(1) [of e] ne by (auto simp: starts_def)
        have n: "int ?n' < 2147483648" using cg x(3) assms(1) by (auto simp: code_in_def ostack_def lay_ok_def machine_def)
        have pc: "pc x = int ?g" and q: "quiet X" using x(4) assms(1) by (simp_all add: wrote_def machine_def)
        obtain y where y: "exec E Q X 1 x y" "wrote E [] (?g + 3 + ?n') x y" "ostack E y as"
          using goto_step [OF cg pc x(3) q n order_refl room] by blast
        from ends_stop [OF exec_trans [OF x(2) y(1)] wrote_trans [OF x(4) y(2)] _ y(3), of "length (scode (IfElse e st st'))"]
        show ?thesis using x(1) True by (simp add: add.assoc)
      next
        case False
        show ?thesis by (rule ends_mono [OF run1 [unfolded append_Nil]]) (simp_all add: False)
      qed
    qed
  next
    case False
    with v assms(5) have "out = []" "\<exists>x. v = Error x \<and> r = Failed x \<or> v = Crash \<and> r = Crashed"
      by (auto split: outcome.splits aop.splits)
    with cond_fails [where Q = Q, OF assms(1) st ne assms(2) v] show ?thesis by auto
  qed
qed

lemma stmt_ends:
  assumes "machine E X" "stmt_ok st" "starts E s p (scode st) as N" "sneed st \<le> N" "sem (fl E) st = Some (out, r)"
  shows "ends E Q X (length (scode st)) out r as (p + clen (scode st)) s"
  using assms(2-5)
proof (induction st arbitrary: s p out r)
  case (Immed e)
  then show ?case using ends_immed [OF assms(1) _ starts_less] by simp
next
  case (If e st)
  then show ?case by (intro ends_if [OF assms(1)] If.IH) auto
next
  case (IfElse e st st')
  then show ?case by (intro ends_ifelse [OF assms(1)] IfElse.IH) auto
next
  case (Seq a b)
  let ?q = "p + clen (scode a)"
  have st: "starts E s p (scode a @ scode b) as N" using Seq.prems(2) by simp
  have ok: "stmt_ok a" "stmt_ok b" "sneed a \<le> N" "sneed b \<le> N" using Seq.prems by simp_all
  obtain outa ra where sa: "sem (fl E) a = Some (outa, ra)" using Seq.prems(4) by (auto split: option.splits)
  note ea = Seq.IH(1) [OF ok(1) starts_prefix [OF st] ok(3) sa]
  show ?case
  proof (cases "ra = Done")
    case True
    then obtain outb where sb: "sem (fl E) b = Some (outb, r)" "out = outa @ outb" using Seq.prems(4) sa by auto
    obtain k u where u: "k \<le> length (scode a)" "exec E Q X k s u" "ostack E u as" "wrote E outa ?q s u"
      using ea True by (auto simp: ends_def)
    have "code_in E s ?q (scode b)" using code_in_append st by (auto simp: starts_def)
    from ends_trans [OF u(2) u(4) u(1) Seq.IH(2) [OF ok(2) starts_after [OF st this u(4) u(3)] ok(4) sb(1)]] sb(2)
    show ?thesis by (simp add: add.assoc)
  next
    case False
    then have "out = outa" "r = ra" using Seq.prems(4) sa by (cases ra; simp)+
    with ea False show ?thesis by (auto elim: ends_mono)
  qed
next
  case Skip
  then have "out = []" "r = Done" by simp_all
  then show ?case using Skip.prems(2) ends_stop [OF stop, of E "[]" p s 0 as Q X]
    by (simp add: starts_def wrote_def)
qed

subsection \<open>A command: compiled, and run\<close>

text \<open>
  What the parser does with a command: the code of the statement and \<open>END\<close>.  Then \<open>main\<close> discards the
  compiler temporaries, sets the operand stack above the code and the program counter back to its start.
\<close>

definition parse_command :: "clenv \<Rightarrow> stmt \<Rightarrow> unit cl" where
  "parse_command E st = thenc (emit_stmt E st) (thenc (compile E END CNone) (ret ()))"

definition enter :: "int \<Rightarrow> int \<Rightarrow> clm \<Rightarrow> clm" where
  "enter bascode cs s = s\<lparr>topcs := cs, topos := pc s - 1, basos := pc s - 1, pc := bascode\<rparr>"

definition command :: "clenv \<Rightarrow> sysenv \<Rightarrow> clops \<Rightarrow> int \<Rightarrow> int \<Rightarrow> nat \<Rightarrow> stmt \<Rightarrow> clm \<Rightarrow> unit clres option" where
  "command E Q X bascode cs n st s = (case parse_command E st s of
     Ret _ s' \<Rightarrow> run E Q X n (enter bascode cs s')
   | Raise e s' \<Rightarrow> Some (Raise e s')
   | Fault \<Rightarrow> Some Fault)"

text \<open>Room for the code, the control stack of the parser and the operands.\<close>

definition room :: "nat \<Rightarrow> nat \<Rightarrow> stmt \<Rightarrow> bool" where
  "room p t st \<longleftrightarrow> p + clen (scode st) + depth st + 20 \<le> t \<and> p + clen (scode st) + 3 * sneed st + 2 \<le> t"

lemma parse_command_code:
  assumes "code_ok E s" "pc s = int p" "topcs s = int t" "room p t st" "stmt_ok st" "topos s + int (depth st) < int t"
  shows "\<exists>m'. parse_command E st s = Ret () (s\<lparr>mm := m', pc := int (p + clen (scode st) + 2)\<rparr>)
    \<and> code_at E m' p (scode st @ [Op END]) \<and> cells E p t (mm s) m'"
proof -
  let ?q = "p + clen (scode st)"
  have r: "?q + depth st + 20 \<le> t" using assms(4) by (simp add: room_def)
  obtain m1 where m1: "emit_stmt E st s = Ret () (s\<lparr>mm := m1, pc := int ?q\<rparr>)" "code_at E m1 p (scode st)"
    "cells E p t (mm s) m1" "code_ok E (s\<lparr>mm := m1, pc := int ?q\<rparr>)"
    using emit_stmt_code [OF assms(1-3) r assms(5,6)] by (auto simp: emitted_def)
  let ?s1 = "s\<lparr>mm := m1, pc := int ?q\<rparr>"
  have i: "instr_ok (Op END)" by (simp add: plain_ops_def)
  have "pc ?s1 + 20 \<le> topcs ?s1" using r assms(3) by simp
  from emit_correct [OF m1(4) this i] obtain m2 where
    m2: "compile E END CNone ?s1 = Ret (int ?q) (?s1\<lparr>mm := m2, pc := int ?q + 2\<rparr>)" "instr_at E m2 ?q (Op END)"
      "cells E ?q (?q + 2) m1 m2" by (auto simp: nat_int_add)
  have "stk E + 8 * ?q \<le> length m1" using code_ok_fit [OF m1(4), of ?q] r assms(3) by simp
  then have "code_at E m2 p (scode st)" by (intro code_at_same [OF m1(2) m2(3)]) auto
  moreover have "cells E p t (mm s) m2" using r by (intro cells_trans [OF m1(3) cells_mono [OF m2(3)]]) auto
  ultimately show ?thesis using m1(1) m2(1,2)
    by (intro exI [of _ m2]) (simp add: parse_command_def cl_simps code_at_append add.commute)
qed

lemma end_step:
  assumes "code_in E s q [Op END]" "pc s = int q" "ostack E s as"
  shows "run_step E Q X s = Ret END (s\<lparr>pc := int (q + 2)\<rparr>)"
proof -
  have i: "instr_ok (Op END)" by (simp add: plain_ops_def)
  show ?thesis using fetch_in [OF assms(1) i assms(2,3), of Q X]
    by (simp add: opcodetbl_def binop_code_def binexp_code_def cl_simps)
qed

lemma entered:
  assumes "code_ok E s" "bufs_ok E (mm s)" "pc s = int p" "topcs s = int t" "room p t st"
    "code_at E m' p (scode st @ [Op END])" "cells E p t (mm s) m'"
    "u = enter (int p) (int t) (s\<lparr>mm := m', pc := int (p + clen (scode st) + 2)\<rparr>)"
  shows "starts E u p (scode st @ [Op END]) [] (sneed st)" "tout u = tout s"
proof -
  have t: "p + clen (scode st) + 3 * sneed st + 2 \<le> t" "t \<le> nat (stacksiz E)" using assms(1,4,5) by (auto simp: room_def code_ok_def)
  have "in_stack E (mm s) m'" using t by (intro same_outside_mono [OF assms(7)]) auto
  then have "bufs_ok E m'" by (intro keeps_bufs [OF assms(2)] keeps_in_stack)
  moreover have "mm u = m'" using assms(8) by (simp add: enter_def)
  moreover have "ostack E u []"
    using assms(1,4,8) t need_pos(2) [of st] cells_length [OF assms(7)] by (auto simp: ostack_def lay_ok_def code_ok_def enter_def)
  moreover have "code_in E u p (scode st @ [Op END])" using assms(6,8) by (simp add: code_in_def enter_def)
  ultimately show "starts E u p (scode st @ [Op END]) [] (sneed st)" using assms(8) t(1)
    by (auto simp: starts_def enter_def)
  show "tout u = tout s" using assms(8) by (simp add: enter_def)
qed

lemma run_core:
  assumes "machine E X" "starts E u p (scode st @ [Op END]) [] (sneed st)" "stmt_ok st"
    "sem (fl E) st = Some (out, r)" "length (scode st) < n"
  shows "case r of
      Done \<Rightarrow> \<exists>s'. run E Q X n u = Some (Ret () s') \<and> tout s' = tout u @ out \<and> ostack E s' []
    | Failed e \<Rightarrow> \<exists>s'. run E Q X n u = Some (Raise e s') \<and> tout s' = tout u @ out
    | Crashed \<Rightarrow> run E Q X n u = Some Fault"
proof -
  let ?q = "p + clen (scode st)"
  note e = stmt_ends [where Q = Q, OF assms(1,3) starts_prefix [OF assms(2)] order_refl assms(4)]
  show ?thesis
  proof (cases r)
    case Done
    then obtain k v where v: "k \<le> length (scode st)" "exec E Q X k u v" "ostack E v []" "wrote E out ?q u v"
      using e by (auto simp: ends_def)
    have "code_in E u ?q [Op END]" using code_in_append assms(2) by (auto simp: starts_def)
    then have code: "code_in E v ?q [Op END]" using wrote_code [OF _ _ v(4)] assms(2) by (auto simp: starts_def)
    have pc: "pc v = int ?q" using v(4) by (simp add: wrote_def)
    have "run E Q X n u = Some (Ret () (v\<lparr>pc := int (?q + 2)\<rparr>))"
      using v(1) assms(5) by (intro exec_ends [OF v(2) end_step [OF code pc v(3)]]) simp
    then show ?thesis using Done v(3,4) by (simp add: wrote_def)
  next
    case (Failed x)
    then obtain k v s' where v: "k < length (scode st)" "exec E Q X k u v" "run_step E Q X v = Raise x s'" "tout s' = tout u @ out"
      using e by (auto simp: ends_def)
    with assms(5) exec_stops [OF v(2,3), of n] show ?thesis using Failed by simp
  next
    case Crashed
    then obtain k v where v: "k < length (scode st)" "exec E Q X k u v" "run_step E Q X v = Fault" using e by (auto simp: ends_def)
    have "run E Q X n u = Some Fault" using run_exec [OF v(2), of "Suc (n - k - 1)"] v(1,3) assms(5) by simp
    then show ?thesis using Crashed by simp
  qed
qed

lemma command_enters:
  assumes "code_ok E s" "bufs_ok E (mm s)" "pc s = int p" "topcs s = int t" "room p t st" "stmt_ok st" "topos s + int (depth st) < int t"
  shows "\<exists>u. (\<forall>n. command E Q X (int p) (int t) n st s = run E Q X n u)
    \<and> starts E u p (scode st @ [Op END]) [] (sneed st) \<and> tout u = tout s"
proof -
  obtain m' where m': "parse_command E st s = Ret () (s\<lparr>mm := m', pc := int (p + clen (scode st) + 2)\<rparr>)"
    "code_at E m' p (scode st @ [Op END])" "cells E p t (mm s) m'"
    using parse_command_code [OF assms(1,3-7)] by blast
  from entered [OF assms(1-5) m'(2,3) refl] m'(1) show ?thesis
    by (intro exI [of _ "enter (int p) (int t) (s\<lparr>mm := m', pc := int (p + clen (scode st) + 2)\<rparr>)"]) (simp add: command_def)
qed

text \<open>
  C4: A command of the CL is compiled and run as it means: the parser's code, with its branches filled in
  from the control stack, is run by the interpreter in at most as many turns as it has instructions; it
  writes the lines that the statement stands for, and stops at \<open>END\<close> with an empty operand stack, or at
  the first error, with what was written before it.  The command may be any one of a task: the code begins at the base of the
  task's code, while \<open>topos\<close> may still be where the previous command left it, as long as the parser's entries on the
  control stack, one for each open condition, stay above it.
\<close>

theorem command_correct:
  assumes "machine E X" "code_ok E s" "bufs_ok E (mm s)" "pc s = int p" "topcs s = int t" "room p t st" "stmt_ok st"
    "sem (fl E) st = Some (out, r)" "length (scode st) < n" "topos s + int (depth st) < int t"
  shows "case r of
      Done \<Rightarrow> \<exists>s'. command E Q X (int p) (int t) n st s = Some (Ret () s') \<and> tout s' = tout s @ out \<and> ostack E s' []
    | Failed e \<Rightarrow> \<exists>s'. command E Q X (int p) (int t) n st s = Some (Raise e s') \<and> tout s' = tout s @ out
    | Crashed \<Rightarrow> command E Q X (int p) (int t) n st s = Some Fault"
proof -
  obtain u where u: "\<forall>n. command E Q X (int p) (int t) n st s = run E Q X n u"
    "starts E u p (scode st @ [Op END]) [] (sneed st)" "tout u = tout s"
    using command_enters [OF assms(2-7,10)] by blast
  from run_core [where Q = Q, OF assms(1) u(2) assms(7-9)] show ?thesis unfolding u(1) [rule_format] u(3) .
qed

subsection \<open>Types\<close>

datatype ty = TInt | TBool

fun type_of :: "expr \<Rightarrow> ty option" where
  "type_of (Const op) = (if o_type op = OT_INT then Some TInt else if o_type op = OT_BOOL then Some TBool else None)"
| "type_of (Neg e) = (if type_of e = Some TInt then Some TInt else None)"
| "type_of (Not e) = (if type_of e = Some TBool then Some TBool else None)"
| "type_of (Bin c a b) =
     (if type_of a = Some TInt \<and> type_of b = Some TInt then
        (if c \<in> {ADD, SUB, MUL, DIV} then Some TInt
         else if c \<in> {LT, GT, LE, GE, EQ, NE} then Some TBool else None)
      else if type_of a = Some TBool \<and> type_of b = Some TBool \<and> c \<in> {I_OR, I_AND} then Some TBool
      else None)"

fun typed :: "stmt \<Rightarrow> bool" where
  "typed (Immed e) \<longleftrightarrow> type_of e \<noteq> None"
| "typed (If e t) \<longleftrightarrow> type_of e = Some TBool \<and> typed t"
| "typed (IfElse e t f) \<longleftrightarrow> type_of e = Some TBool \<and> typed t \<and> typed f"
| "typed (Seq a b) \<longleftrightarrow> typed a \<and> typed b"
| "typed Skip \<longleftrightarrow> True"

fun has_type :: "outcome \<Rightarrow> ty \<Rightarrow> bool" where
  "has_type (Value (AInt x)) t \<longleftrightarrow> t = TInt"
| "has_type (Value (ABool x)) t \<longleftrightarrow> t = TBool"
| "has_type (Value a) t \<longleftrightarrow> False"
| "has_type (Error e) t \<longleftrightarrow> e = E_UERR Idivzero"
| "has_type Crash t \<longleftrightarrow> True"

lemma has_type_int: "has_type (Value a) TInt \<longleftrightarrow> (\<exists>x. a = AInt x)"
  by (cases a) auto

lemma has_type_bool: "has_type (Value a) TBool \<longleftrightarrow> (\<exists>x. a = ABool x)"
  by (cases a) auto

lemma bind_val_typed:
  assumes "r = Some v" "has_type v t" "\<And>a. v = Value a \<Longrightarrow> has_type v t \<Longrightarrow> \<exists>w. f a = Some w \<and> has_type w t'"
  shows "\<exists>w. bind_val r f = Some w \<and> has_type w t'"
  using assms by (cases v) (auto simp: bind_val_def)

lemma int_op_error: "int_op opcode x y = Some (Inl e) \<Longrightarrow> e = E_UERR Idivzero"
  by (auto simp: int_op_def split: if_splits)

lemma apply_num_typed:
  assumes "c \<in> {ADD, SUB, MUL, DIV}"
  shows "\<exists>w. apply_bin c (AInt x) (AInt y) = Some w \<and> has_type w TInt"
proof -
  obtain opcode where "map_of num_codes c = Some opcode" using assms by (auto simp: num_codes_def)
  then show ?thesis using int_op_error [of opcode x y] by (auto split: option.split sum.split)
qed

lemma apply_rel_typed: "c \<in> {LT, GT, LE, GE, EQ, NE} \<Longrightarrow> \<exists>w. apply_bin c (AInt x) (AInt y) = Some w \<and> has_type w TBool"
  by (auto simp: num_codes_def rel_codes_def truth_def)

lemma apply_log_typed: "c \<in> {I_OR, I_AND} \<Longrightarrow> \<exists>w. apply_bin c (ABool x) (ABool y) = Some w \<and> has_type w TBool"
  by (auto simp: truth_def)

lemma eval_typed: "type_of e = Some t \<Longrightarrow> \<exists>v. eval e = Some v \<and> has_type v t"
proof (induction e arbitrary: t)
  case (Const op)
  then show ?case by (auto simp: const_val_def split: if_splits)
next
  case (Neg e)
  then obtain v where "eval e = Some v" "has_type v TInt" "t = TInt" by (auto split: if_splits)
  then show ?case by (auto simp: has_type_int intro!: bind_val_typed)
next
  case (Not e)
  then obtain v where "eval e = Some v" "has_type v TBool" "t = TBool" by (auto split: if_splits)
  then show ?case by (auto simp: has_type_bool truth_def intro!: bind_val_typed)
next
  case (Bin c a b)
  then obtain s where s: "type_of a = Some s" "type_of b = Some s"
    "s = TInt \<and> (c \<in> {ADD, SUB, MUL, DIV} \<and> t = TInt \<or> c \<in> {LT, GT, LE, GE, EQ, NE} \<and> t = TBool)
     \<or> s = TBool \<and> c \<in> {I_OR, I_AND} \<and> t = TBool"
    by (auto split: if_splits)
  obtain v w where v: "eval a = Some v" "has_type v s" and w: "eval b = Some w" "has_type w s"
    using Bin.IH s(1,2) by blast
  have "\<exists>z. apply_bin c x y = Some z \<and> has_type z t" if "has_type (Value x) s" "has_type (Value y) s" for x y
    using s(3)
  proof (elim disjE conjE)
    assume "s = TInt" "c \<in> {ADD, SUB, MUL, DIV}" "t = TInt"
    then show ?thesis using that apply_num_typed [of c] by (auto simp: has_type_int)
  next
    assume "s = TInt" "c \<in> {LT, GT, LE, GE, EQ, NE}" "t = TBool"
    moreover from this that obtain x' y' where "x = AInt x'" "y = AInt y'" by (auto simp: has_type_int)
    ultimately show ?thesis using apply_rel_typed [of c x' y'] by simp
  next
    assume "s = TBool" "c \<in> {I_OR, I_AND}" "t = TBool"
    moreover from this that obtain x' y' where "x = ABool x'" "y = ABool y'" by (auto simp: has_type_bool)
    ultimately show ?thesis using apply_log_typed [of c x' y'] by simp
  qed
  then show ?case unfolding eval.simps using w by (intro bind_val_typed [OF v] bind_val_typed [OF w]) auto
qed

lemma eval_bool: "type_of e = Some TBool \<Longrightarrow> (\<exists>b. eval e = Some (Value (ABool b))) \<or> eval e = Some (Error (E_UERR Idivzero)) \<or> eval e = Some Crash"
  using eval_typed [of e TBool] by (auto simp: has_type_bool elim: has_type.elims)

lemma sem_typed: "typed st \<Longrightarrow> \<exists>out r. sem F st = Some (out, r) \<and> (r = Done \<or> r = Failed (E_UERR Idivzero) \<or> r = Crashed)"
proof (induction st)
  case (Immed e)
  then obtain t where "type_of e = Some t" by auto
  with eval_typed obtain v where "eval e = Some v" "has_type v t" by blast
  then show ?case by (cases v) auto
next
  case (If e st)
  then show ?case using eval_bool [of e] by auto
next
  case (IfElse e st st')
  then show ?case using eval_bool [of e] by auto
next
  case (Seq a b)
  then obtain o1 r1 o2 r2 where "sem F a = Some (o1, r1)" "r1 = Done \<or> r1 = Failed (E_UERR Idivzero) \<or> r1 = Crashed"
    "sem F b = Some (o2, r2)" "r2 = Done \<or> r2 = Failed (E_UERR Idivzero) \<or> r2 = Crashed" by auto
  then show ?case by auto
qed auto

text \<open>
  C5: A command that is well typed goes wrong in no other way than by a division by zero, or the fault
  of the processor at a quotient that does not fit: no operation meets operands of the wrong type, neither
  stack overflows or underflows, and the program counter does not leave the code.
\<close>

theorem command_type_safe:
  assumes "machine E X" "code_ok E s" "bufs_ok E (mm s)" "pc s = int p" "topcs s = int t" "room p t st" "stmt_ok st"
    "typed st" "command E Q X (int p) (int t) n st s = Some (Raise e s')" "topos s + int (depth st) < int t"
  shows "e = E_UERR Idivzero"
proof -
  obtain u where u: "\<forall>n. command E Q X (int p) (int t) n st s = run E Q X n u"
    "starts E u p (scode st @ [Op END]) [] (sneed st)" using command_enters [OF assms(2-7,10)] by blast
  obtain out r where r: "sem (fl E) st = Some (out, r)" "r = Done \<or> r = Failed (E_UERR Idivzero) \<or> r = Crashed"
    using sem_typed [OF assms(8)] by blast
  let ?k = "Suc (length (scode st))"
  have "run E Q X (n + ?k) u = Some (Raise e s')" using assms(9) u(1) run_mono by metis
  with run_core [where Q = Q, OF assms(1) u(2) assms(7) r(1), of "n + ?k"] r(2) show ?thesis by auto
qed

text \<open>
  C6: Running a well typed command ends: the interpreter stops within one turn more than the command has
  instructions, and more turns than that do not change how it ends.
\<close>

theorem command_terminates:
  assumes "machine E X" "code_ok E s" "bufs_ok E (mm s)" "pc s = int p" "topcs s = int t" "room p t st" "stmt_ok st" "typed st"
    "topos s + int (depth st) < int t"
  shows "\<exists>r. \<forall>n > length (scode st). command E Q X (int p) (int t) n st s = Some r"
proof -
  obtain u where u: "\<forall>n. command E Q X (int p) (int t) n st s = run E Q X n u"
    "starts E u p (scode st @ [Op END]) [] (sneed st)" using command_enters [OF assms(2-7,9)] by blast
  obtain out r where r: "sem (fl E) st = Some (out, r)" using sem_typed [OF assms(8)] by blast
  let ?k = "Suc (length (scode st))"
  obtain x where "run E Q X ?k u = Some x"
    using run_core [where Q = Q, OF assms(1) u(2) assms(7) r(1), of ?k] by (auto split: ending.splits)
  then have "run E Q X n u = Some x" if "length (scode st) < n" for n
    using that run_mono [of E Q X ?k u x "n - ?k"] by simp
  with u(1) show ?thesis by auto
qed

subsection \<open>A machine with room for a command\<close>

definition demo_code_env :: clenv where
  "demo_code_env = demo_env\<lparr>stacksiz := 64, truestr := 512, falsestr := 516, numstr := 521\<rparr>"

text \<open>The operand stack is where an earlier command left it, above the place where the code begins.\<close>

definition demo_code_state :: clm where
  "demo_code_state = demo_state\<lparr>mm := replicate 512 0 @ [121, 101, 115, 0, 110, 111, 0] @ replicate 1100 0, topcs := 64, topos := 20, basos := 20\<rparr>"

definition demo_ops :: clops where
  "demo_ops = \<lparr>x_op = \<lambda>opcode argp. crash, x_leave = \<lambda>opcode s. False\<rparr>"

definition cint :: "int \<Rightarrow> operand" where
  "cint x = set_v_i x \<lparr>o_type = OT_INT, o_raw = replicate 8 0\<rparr>"

lemma cint_ok: "in_range CINT x \<Longrightarrow> instr_ok (PushC (cint x))" "in_range CINT x \<Longrightarrow> const_val (cint x) = Some (AInt x)"
  by (simp_all add: cint_def op_ok_def const_val_def set_v_i_def v_i_def cdec_cenc in_range_def)

text \<open>\<open>if (1 < 2) = 7 / d\<close>\<close>

definition demo_stmt :: "int \<Rightarrow> stmt" where
  "demo_stmt d = If (Bin LT (Const (cint 1)) (Const (cint 2))) (Immed (Bin DIV (Const (cint 7)) (Const (cint d))))"

lemma demo_machine:
  "machine demo_code_env demo_ops" "code_ok demo_code_env demo_code_state" "bufs_ok demo_code_env (mm demo_code_state)"
  "pc demo_code_state = int 0" "topcs demo_code_state = int 64" "tout demo_code_state = []"
proof -
  show "machine demo_code_env demo_ops"
    using demo_floats by (simp add: machine_def quiet_def demo_ops_def demo_code_env_def demo_env_def)
  show "code_ok demo_code_env demo_code_state"
    by (simp add: code_ok_def demo_code_env_def demo_code_state_def demo_env_def demo_state_def)
  show "bufs_ok demo_code_env (mm demo_code_state)"
    by (simp add: bufs_ok_def demo_code_env_def demo_code_state_def demo_env_def nth_append outside_def apart_def
        lit_yes_def lit_no_def)
qed (simp_all add: demo_code_state_def demo_state_def)

lemma demo_stmt_ok:
  assumes "in_range CINT d"
  shows "room 0 64 (demo_stmt d)" "stmt_ok (demo_stmt d)" "typed (demo_stmt d)" "length (scode (demo_stmt d)) = 8"
    "topos demo_code_state + int (depth (demo_stmt d)) < int 64"
  using cint_ok [of d] cint_ok [of 1] cint_ok [of 2] cint_ok [of 7] assms
  by (simp_all add: demo_stmt_def room_def in_range_def cint_def demo_code_state_def)

lemma demo_sem:
  "sem (fl demo_code_env) (demo_stmt 2) = Some ([51, 10], Done)"
  "sem (fl demo_code_env) (demo_stmt 0) = Some ([], Failed (E_UERR Idivzero))"
  by (simp_all add: demo_stmt_def cint_ok in_range_def bind_val_def num_codes_def rel_codes_def rel_op_def truth_def
      int_op_def c_div_def value_line_def print_text_def escaped_def fmt_d_def dec_digits.simps)

theorem command_correct_witness:
  "\<exists>s'. command demo_code_env demo_Q demo_ops 0 64 9 (demo_stmt 2) demo_code_state = Some (Ret () s') \<and> tout s' = [51, 10]"
proof -
  have "in_range CINT 2" by (simp add: in_range_def)
  note d = demo_stmt_ok [OF this]
  show ?thesis
    using command_correct [where Q = demo_Q, OF demo_machine(1-5) d(1,2) demo_sem(1) _ d(5), of 9] d(4) demo_machine(6) by auto
qed

theorem command_type_safe_witness:
  "\<exists>e s'. command demo_code_env demo_Q demo_ops 0 64 9 (demo_stmt 0) demo_code_state = Some (Raise e s') \<and> e = E_UERR Idivzero"
proof -
  have "in_range CINT 0" by (simp add: in_range_def)
  note d = demo_stmt_ok [OF this]
  obtain u where u: "\<forall>n. command demo_code_env demo_Q demo_ops (int 0) (int 64) n (demo_stmt 0) demo_code_state = run demo_code_env demo_Q demo_ops n u"
    "starts demo_code_env u 0 (scode (demo_stmt 0) @ [Op END]) [] (sneed (demo_stmt 0))"
    using command_enters [OF demo_machine(2-5) d(1,2,5)] by blast
  obtain e s' where e: "command demo_code_env demo_Q demo_ops (int 0) (int 64) 9 (demo_stmt 0) demo_code_state = Some (Raise e s')"
    using run_core [where Q = demo_Q, OF demo_machine(1) u(2) d(2) demo_sem(2), of 9] d(4) u(1) by auto
  from command_type_safe [OF demo_machine(1-5) d(1-3) e d(5)] e show ?thesis by auto
qed

theorem command_terminates_witness:
  "\<exists>r. \<forall>n > 8. command demo_code_env demo_Q demo_ops 0 64 n (demo_stmt 0) demo_code_state = Some r"
proof -
  have "in_range CINT 0" by (simp add: in_range_def)
  note d = demo_stmt_ok [OF this]
  show ?thesis using command_terminates [where Q = demo_Q, OF demo_machine(1-5) d(1-3,5)] d(4) by simp
qed

end
