(* ===== verification/Mk_Char.thy ===== *)
theory Mk_Char
  imports Spp_Strings
begin

text \<open>
  Character input of \<open>mkpkg\<close>, from \<open>unix/boot/mkpkg/char.c\<close>: characters and strings are pushed back into
  the input, and macro references are expanded in it by \<open>Mk_Macro\<close>.  The buffer of pushed back strings is byte
  memory with indices for pointers; what is left of the file is a list of bytes.
\<close>

abbreviation SZ_PBSTK :: nat where "SZ_PBSTK \<equiv> 50"
abbreviation SZ_PBBUF :: nat where "SZ_PBBUF \<equiv> 2048"
abbreviation SZ_FNAME :: nat where "SZ_FNAME \<equiv> 255"
abbreviation EOF :: int where "EOF \<equiv> - 1"

record pushback =
  pb_ip :: nat
  pb_op :: nat
  npb :: nat
  pbstk :: "nat list"
  pbbuf :: mem

record mkctx =
  cx_file :: "byte list"
  cx_pb :: "pushback option"
  pbchar :: int
  cx_pushback :: int
  lineno :: int
  typed_in :: "byte list"

text \<open>\<open>fatals\<close> ends the program; everything else that goes wrong is a fault.\<close>

datatype mkerr = Fatal | Fault

type_synonym 'a mk = "mkerr + 'a"

definition bindm :: "'a mk \<Rightarrow> ('a \<Rightarrow> 'b mk) \<Rightarrow> 'b mk" where
  "bindm r f = (case r of Inl e \<Rightarrow> Inl e | Inr a \<Rightarrow> f a)"

lemma bindm_simps [simp]: "bindm (Inr a) f = f a" "bindm (Inl e) f = Inl e"
  by (simp_all add: bindm_def)

subsection \<open>Pushing back\<close>

text \<open>\<open>malloc\<close> leaves the stack and the buffer as they are: any bytes.\<close>

definition mk_pbbuf :: "pushback \<Rightarrow> pushback" where
  "mk_pbbuf junk = junk\<lparr>npb := 0, pb_ip := 0, pb_op := 0\<rparr>"

fun push_copy :: "byte list \<Rightarrow> nat \<Rightarrow> mem \<Rightarrow> int \<Rightarrow> (nat \<times> mem \<times> int) mk" where
  "push_copy [] op buf ln = Inl Fault"
| "push_copy (ch # ip) op buf ln =
     (if length buf \<le> op then Inl Fault
      else
        let buf = buf[op := ch]; op = op + 1 in
        if ch = 0 then Inr (op, buf, ln)
        else
          let ln = (if ch = 10 then ln - 1 else ln) in
          if SZ_PBBUF \<le> op then Inr (op, buf, ln) else push_copy ip op buf ln)"

definition m_pushstr :: "pushback \<Rightarrow> byte list \<Rightarrow> mkctx \<Rightarrow> mkctx mk" where
  "m_pushstr junk str cx =
     (let pb = (case cx_pb cx of None \<Rightarrow> mk_pbbuf junk | Some pb \<Rightarrow> pb) in
      if length (pbstk pb) < npb pb + 2 then Inl Fault
      else
        bindm (push_copy (str @ [0]) (pb_op pb) (pbbuf pb) (lineno cx)) (\<lambda>(op, buf, ln).
        let pb = pb\<lparr>pbstk := (pbstk pb)[npb pb := pb_ip pb, npb pb + 1 := pb_op pb], npb := npb pb + 2,
                    pb_ip := pb_op pb, pb_op := op, pbbuf := buf\<rparr> in
        if SZ_PBSTK \<le> npb pb + 2 \<or> SZ_PBBUF \<le> pb_op pb then Inl Fatal
        else Inr (cx\<lparr>cx_pb := Some pb, cx_pushback := cx_pushback cx + 1, lineno := ln\<rparr>)))"

definition m_ungetc :: "pushback \<Rightarrow> int \<Rightarrow> mkctx \<Rightarrow> mkctx mk" where
  "m_ungetc junk ch cx =
     (let cx = (if ch = 10 then cx\<lparr>lineno := lineno cx - 1\<rparr> else cx) in
      bindm (if pbchar cx \<noteq> 0 then
               (let ps = word_of_int (pbchar cx) in m_pushstr junk (if ps = 0 then [] else [ps]) cx)
             else Inr cx)
        (\<lambda>cx. Inr (cx\<lparr>pbchar := ch\<rparr>)))"

definition pb_cancel :: "mkctx \<Rightarrow> mkctx" where
  "pb_cancel cx = cx\<lparr>cx_pushback := 0, pbchar := 0,
     cx_pb := map_option (\<lambda>pb. pb\<lparr>npb := 0, pb_ip := 0, pb_op := 0\<rparr>) (cx_pb cx)\<rparr>"

subsection \<open>Reading a character\<close>

definition k_getc :: "mkctx \<Rightarrow> int \<times> mkctx" where
  "k_getc cx = (case cx_file cx of [] \<Rightarrow> (EOF, cx) | c # cs \<Rightarrow> (uint c, cx\<lparr>cx_file := cs\<rparr>))"

definition count_line :: "int \<times> mkctx \<Rightarrow> int \<times> mkctx" where
  "count_line r = (fst r, if fst r = 10 then (snd r)\<lparr>lineno := lineno (snd r) + 1\<rparr> else snd r)"

function m_rawgetc :: "mkctx \<Rightarrow> (int \<times> mkctx) mk" where
  "m_rawgetc cx =
     (if pbchar cx \<noteq> 0 then Inr (count_line (pbchar cx, cx\<lparr>pbchar := 0\<rparr>))
      else if cx_pushback cx = 0 then Inr (count_line (k_getc cx))
      else
        (case cx_pb cx of None \<Rightarrow> Inl Fault
         | Some pb \<Rightarrow>
             (case rd (pbbuf pb) (pb_ip pb) of None \<Rightarrow> Inl Fault
              | Some ch \<Rightarrow>
                  let pb = pb\<lparr>pb_ip := pb_ip pb + 1\<rparr> in
                  if ch \<noteq> 0 then Inr (count_line (sint ch, cx\<lparr>cx_pb := Some pb\<rparr>))
                  else if npb pb < 2 \<or> length (pbstk pb) < npb pb then Inl Fault
                  else
                    let n = npb pb - 2;
                        pb = pb\<lparr>pb_op := pbstk pb ! (n + 1), pb_ip := pbstk pb ! n, npb := n\<rparr>
                    in m_rawgetc (cx\<lparr>cx_pb := Some pb, cx_pushback := (if n = 0 then 0 else cx_pushback cx)\<rparr>))))"
  by pat_completeness auto
termination
  by (relation "measure (\<lambda>cx. case cx_pb cx of None \<Rightarrow> 0 | Some pb \<Rightarrow> npb pb)") auto

declare m_rawgetc.simps [simp del]

subsection \<open>What is to be read\<close>

text \<open>The strings on the stack, the one on top first, each with what is left of it.\<close>

fun pb_rep :: "mem \<Rightarrow> nat list \<Rightarrow> nat \<Rightarrow> nat \<Rightarrow> nat \<Rightarrow> byte list list \<Rightarrow> bool" where
  "pb_rep buf stk n ip op [] \<longleftrightarrow> n = 0 \<and> op = 0"
| "pb_rep buf stk n ip op (s # ss) \<longleftrightarrow> 2 \<le> n \<and> n \<le> length stk \<and> kstr_at buf ip s \<and> ip + length s < op
     \<and> stk ! (n - 1) \<le> ip \<and> pb_rep buf stk (n - 2) (stk ! (n - 2)) (stk ! (n - 1)) ss"

definition pb_ok :: "pushback \<Rightarrow> bool" where
  "pb_ok pb \<longleftrightarrow> length (pbbuf pb) = SZ_PBBUF + 1 \<and> length (pbstk pb) = SZ_PBSTK
     \<and> pb_op pb < SZ_PBBUF \<and> npb pb + 2 < SZ_PBSTK"

definition cx_strs :: "mkctx \<Rightarrow> byte list list \<Rightarrow> bool" where
  "cx_strs cx ss \<longleftrightarrow> (case cx_pb cx of None \<Rightarrow> ss = [] \<and> cx_pushback cx = 0
     | Some pb \<Rightarrow> pb_ok pb \<and> pb_rep (pbbuf pb) (pbstk pb) (npb pb) (pb_ip pb) (pb_op pb) ss
         \<and> 0 \<le> cx_pushback cx \<and> (cx_pushback cx = 0 \<longleftrightarrow> ss = []))"

text \<open>Reading takes the first character of the strings, or of the file when there is none.\<close>

fun pull :: "byte list list \<Rightarrow> byte list \<Rightarrow> int \<times> byte list list \<times> byte list" where
  "pull [] [] = (EOF, [], [])"
| "pull [] (c # f) = (uint c, [], f)"
| "pull ((c # s) # ss) f = (sint c, s # ss, f)"
| "pull ([] # ss) f = pull ss f"

definition unread :: "mkctx \<Rightarrow> byte list list \<Rightarrow> int list" where
  "unread cx ss = (if pbchar cx \<noteq> 0 then [pbchar cx] else []) @ map sint (concat ss) @ map uint (cx_file cx)"

subsection \<open>Correctness\<close>

lemma cx_strs_upd [simp]:
  "cx_strs (cx\<lparr>lineno := l\<rparr>) ss = cx_strs cx ss" "cx_strs (cx\<lparr>pbchar := c\<rparr>) ss = cx_strs cx ss"
  "cx_strs (cx\<lparr>typed_in := t\<rparr>) ss = cx_strs cx ss" "cx_strs (cx\<lparr>cx_file := f\<rparr>) ss = cx_strs cx ss"
  by (simp_all add: cx_strs_def cong: option.case_cong)

lemma pb_rep_n: "pb_rep buf stk n ip op ss \<Longrightarrow> n = 2 * length ss"
  by (induction ss arbitrary: n ip op) auto

definition newlines :: "byte list \<Rightarrow> int" where
  "newlines s = int (count_list s 10)"

lemma newlines_simps [simp]: "newlines [] = 0" "newlines (c # s) = (if c = 10 then 1 else 0) + newlines s"
  by (simp_all add: newlines_def)

lemma m_rawgetc_pbchar:
  "cx_strs cx ss \<Longrightarrow> pbchar cx \<noteq> 0 \<Longrightarrow> \<exists>cx'. m_rawgetc cx = Inr (pbchar cx, cx') \<and> cx_strs cx' ss \<and> pbchar cx' = 0
    \<and> cx_file cx' = cx_file cx \<and> typed_in cx' = typed_in cx \<and> lineno cx' = lineno cx + (if pbchar cx = 10 then 1 else 0)"
  by (simp add: m_rawgetc.simps [of cx] count_line_def cx_strs_def split: option.splits)

lemma m_rawgetc_pull:
  assumes "cx_strs cx ss" "pbchar cx = 0" "pull ss (cx_file cx) = (c, ss', f')"
  shows "\<exists>cx'. m_rawgetc cx = Inr (c, cx') \<and> cx_strs cx' ss' \<and> pbchar cx' = 0 \<and> cx_file cx' = f'
    \<and> typed_in cx' = typed_in cx \<and> lineno cx' = lineno cx + (if c = 10 then 1 else 0)"
  using assms
proof (induction ss arbitrary: cx)
  case Nil
  then have "cx_pushback cx = 0" by (auto simp: cx_strs_def split: option.splits)
  with Nil show ?case
    by (cases "cx_file cx")
       (auto simp: m_rawgetc.simps [of cx] count_line_def k_getc_def cx_strs_def split: option.splits)
next
  case (Cons s ss)
  obtain pb where pb: "cx_pb cx = Some pb" "pb_ok pb" "pb_rep (pbbuf pb) (pbstk pb) (npb pb) (pb_ip pb) (pb_op pb) (s # ss)"
    "0 < cx_pushback cx" using Cons.prems by (auto simp: cx_strs_def split: option.splits)
  show ?case
  proof (cases s)
    case (Cons a s')
    let ?pb = "pb\<lparr>pb_ip := pb_ip pb + 1\<rparr>"
    have c: "rd (pbbuf pb) (pb_ip pb) = Some a" "a \<noteq> 0" using pb(3) Cons by auto
    have "pb_rep (pbbuf ?pb) (pbstk ?pb) (npb ?pb) (pb_ip ?pb) (pb_op ?pb) (s' # ss)" "pb_ok ?pb"
      using pb(2,3) Cons by (auto simp: pb_ok_def)
    moreover have "m_rawgetc cx = Inr (count_line (sint a, cx\<lparr>cx_pb := Some ?pb\<rparr>))"
      using Cons.prems(2) pb c by (simp add: m_rawgetc.simps [of cx])
    ultimately show ?thesis using Cons.prems pb(4) Cons
      by (auto simp: count_line_def cx_strs_def)
  next
    case Nil
    let ?n = "npb pb - 2"
    let ?pb = "pb\<lparr>pb_ip := pb_ip pb + 1, pb_op := pbstk pb ! (?n + 1), pb_ip := pbstk pb ! ?n, npb := ?n\<rparr>"
    let ?cx = "cx\<lparr>cx_pb := Some ?pb, cx_pushback := (if ?n = 0 then 0 else cx_pushback cx)\<rparr>"
    have c: "rd (pbbuf pb) (pb_ip pb) = Some 0" "2 \<le> npb pb" "npb pb \<le> length (pbstk pb)" using pb(3) Nil by auto
    have n: "?n + 1 = npb pb - 1" using c(2) by simp
    have rep: "pb_rep (pbbuf pb) (pbstk pb) ?n (pbstk pb ! ?n) (pbstk pb ! (?n + 1)) ss" using pb(3) unfolding n by simp
    have "pbstk pb ! (?n + 1) < pb_op pb" using pb(3) Nil unfolding n by auto
    then have "pb_ok ?pb" using pb(2) c(2) by (auto simp: pb_ok_def)
    moreover have "?n = 0 \<longleftrightarrow> ss = []" using pb_rep_n [OF rep] by auto
    ultimately have st: "cx_strs ?cx ss" using rep pb(4) by (auto simp: cx_strs_def)
    have "m_rawgetc cx = m_rawgetc ?cx"
      using Cons.prems(2) pb(1,4) c by (subst m_rawgetc.simps) (simp add: Let_def)
    with Cons.IH [OF st] Cons.prems Nil show ?thesis by simp
  qed
qed

lemma pull_unread:
  "pull ss f = (c, ss', f') \<Longrightarrow> case map sint (concat ss) @ map uint f of [] \<Rightarrow> c = EOF \<and> ss' = [] \<and> f' = []
     | x # p \<Rightarrow> c = x \<and> map sint (concat ss') @ map uint f' = p"
  by (induction ss f rule: pull.induct) auto

lemma push_copy_correct:
  assumes "length buf = SZ_PBBUF + 1" "op < SZ_PBBUF" "0 \<notin> set s"
  shows "if op + length s < SZ_PBBUF then push_copy (s @ [0]) op buf ln = Inr (op + length s + 1, blit buf op (s @ [0]), ln - newlines s)
    else \<exists>buf' ln'. push_copy (s @ [0]) op buf ln = Inr (SZ_PBBUF, buf', ln')"
  using assms
proof (induction s arbitrary: op buf ln)
  case Nil
  then show ?case by (simp add: blit_def upd_conv_take_nth_drop)
next
  case (Cons c s)
  let ?ln = "if c = 10 then ln - 1 else ln"
  show ?case
  proof (cases "SZ_PBBUF \<le> op + 1")
    case True
    with Cons.prems show ?thesis by simp
  next
    case False
    have "blit (buf[op := c]) (op + 1) (s @ [0]) = blit buf op (c # s @ [0])"
      using Cons.prems by (simp add: blit_def take_Suc_conv_app_nth drop_update_cancel upd_conv_take_nth_drop add.commute)
    moreover have "push_copy ((c # s) @ [0]) op buf ln = push_copy (s @ [0]) (op + 1) (buf[op := c]) ?ln"
      using Cons.prems False by simp
    moreover have "?ln - newlines s = ln - newlines (c # s)" by simp
    ultimately show ?thesis using Cons.IH [of "buf[op := c]" "op + 1" ?ln] Cons.prems False
      by (simp only: list.size) (auto simp del: newlines_simps)
  qed
qed

definition pb_used :: "mkctx \<Rightarrow> nat" where
  "pb_used cx = (case cx_pb cx of None \<Rightarrow> 0 | Some pb \<Rightarrow> pb_op pb)"

definition junk_ok :: "pushback \<Rightarrow> bool" where
  "junk_ok junk \<longleftrightarrow> length (pbbuf junk) = SZ_PBBUF + 1 \<and> length (pbstk junk) = SZ_PBSTK"


lemma kstr_atD: "kstr_at buf ip s \<Longrightarrow> ip + length s < length buf" by (simp add: kstr_at_def)

lemma kstr_at_cong:
  assumes "kstr_at buf ip s" "length buf' = length buf" "\<And>i. i \<le> ip + length s \<Longrightarrow> buf' ! i = buf ! i"
  shows "kstr_at buf' ip s"
proof -
  have "slice buf' ip (Suc (length s)) = slice buf ip (Suc (length s))"
    using assms(2,3) kstr_atD [OF assms(1)] by (intro nth_equalityI) (auto simp: slice_simps)
  then show ?thesis using assms(1,2) by (simp add: kstr_at_def)
qed

lemma pb_rep_frame:
  assumes "pb_rep buf stk n ip op ss" "length buf' = length buf" "\<And>i. i < op \<Longrightarrow> buf' ! i = buf ! i"
    "length stk' = length stk" "\<And>i. i < n \<Longrightarrow> stk' ! i = stk ! i"
  shows "pb_rep buf' stk' n ip op ss"
  using assms
proof (induction ss arbitrary: n ip op)
  case (Cons s ss)
  have "kstr_at buf' ip s" using Cons.prems by (auto intro: kstr_at_cong)
  moreover have "pb_rep buf' stk' (n - 2) (stk ! (n - 2)) (stk ! (n - 1)) ss"
    using Cons.prems by (intro Cons.IH) auto
  ultimately show ?case using Cons.prems by auto
qed simp

text \<open>A pushed string is read before everything else that was pushed; too much of it is fatal.\<close>

definition room :: "mkctx \<Rightarrow> byte list list \<Rightarrow> byte list \<Rightarrow> bool" where
  "room cx ss str \<longleftrightarrow> length ss < 23 \<and> pb_used cx + length str + 1 < SZ_PBBUF"

lemma m_pushstr_correct:
  assumes "cx_strs cx ss" "junk_ok junk" "0 \<notin> set str"
  shows "if room cx ss str
    then \<exists>cx'. m_pushstr junk str cx = Inr cx' \<and> cx_strs cx' (str # ss) \<and> cx_file cx' = cx_file cx \<and> pbchar cx' = pbchar cx
      \<and> typed_in cx' = typed_in cx
      \<and> lineno cx' = lineno cx - newlines str \<and> pb_used cx' = pb_used cx + length str + 1
    else m_pushstr junk str cx = Inl Fatal"
proof -
  define pb where "pb = (case cx_pb cx of None \<Rightarrow> mk_pbbuf junk | Some pb \<Rightarrow> pb)"
  have pb: "pb_ok pb" "pb_rep (pbbuf pb) (pbstk pb) (npb pb) (pb_ip pb) (pb_op pb) ss" "pb_op pb = pb_used cx"
    "0 \<le> cx_pushback cx"
    using assms(1,2) by (auto simp: pb_def cx_strs_def pb_ok_def junk_ok_def mk_pbbuf_def pb_used_def split: option.splits)
  note push = m_pushstr_def [of junk str cx, folded pb_def, unfolded Let_def]
  have n: "npb pb = 2 * length ss" by (rule pb_rep_n [OF pb(2)])
  have len: "length (pbbuf pb) = 2049" "length (pbstk pb) = 50" "pb_op pb < 2048" "npb pb + 2 < 50"
    using pb(1) by (auto simp: pb_ok_def)
  note copy = push_copy_correct [of "pbbuf pb" "pb_op pb" str "lineno cx", OF _ _ assms(3)]
  show ?thesis
  proof (cases "pb_op pb + length str < SZ_PBBUF")
    case False
    then obtain buf' ln' where c: "push_copy (str @ [0]) (pb_op pb) (pbbuf pb) (lineno cx) = Inr (SZ_PBBUF, buf', ln')"
      using copy len by auto
    have "m_pushstr junk str cx = Inl Fatal"
      using len by (simp add: push c)
    with False pb(3) show ?thesis by (simp add: room_def)
  next
    case True
    let ?buf = "blit (pbbuf pb) (pb_op pb) (str @ [0])"
    let ?stk = "(pbstk pb)[npb pb := pb_ip pb, npb pb + 1 := pb_op pb]"
    have c: "push_copy (str @ [0]) (pb_op pb) (pbbuf pb) (lineno cx) = Inr (pb_op pb + length str + 1, ?buf, lineno cx - newlines str)"
      using copy len True by auto
    show ?thesis
    proof (cases "room cx ss str")
      case False
      with True pb(3) n have "SZ_PBSTK \<le> npb pb + 4 \<or> SZ_PBBUF \<le> pb_op pb + length str + 1" by (auto simp: room_def)
      then have "m_pushstr junk str cx = Inl Fatal" using len by (auto simp: push c)
      with False show ?thesis by simp
    next
      case R: True
      then have R': "npb pb + 4 < SZ_PBSTK" "pb_op pb + length str + 1 < SZ_PBBUF" using n pb(3) by (auto simp: room_def)
      have "pb_rep ?buf ?stk (npb pb) (pb_ip pb) (pb_op pb) ss"
        by (rule pb_rep_frame [OF pb(2)]) (use len True in \<open>auto simp: nth_blit blit_simps\<close>)
      moreover have "kstr_at ?buf (pb_op pb) str"
        using len True assms(3) by (auto simp: kstr_at_def slice_simps blit_simps slice_blit_same [where bs = "str @ [0]", simplified])
      ultimately have rep: "pb_rep ?buf ?stk (npb pb + 2) (pb_op pb) (pb_op pb + length str + 1) (str # ss)"
        using len by simp
      let ?cx = "cx\<lparr>cx_pb := Some (pb\<lparr>pbstk := ?stk, npb := npb pb + 2, pb_ip := pb_op pb, pb_op := pb_op pb + length str + 1, pbbuf := ?buf\<rparr>),
        cx_pushback := cx_pushback cx + 1, lineno := lineno cx - newlines str\<rparr>"
      have "m_pushstr junk str cx = Inr ?cx"
        using R' len by (simp add: push c del: One_nat_def)
      moreover have "cx_strs ?cx (str # ss)"
        using rep R len n pb(3,4) True by (auto simp: cx_strs_def pb_ok_def room_def blit_simps)
      ultimately show ?thesis using R pb(3) by (auto simp: pb_used_def)
    qed
  qed
qed


text \<open>A character pushed back is the next to be read; one that waits already becomes a string.\<close>

lemma m_ungetc_correct:
  assumes "cx_strs cx ss" "junk_ok junk" "- 128 \<le> pbchar cx" "pbchar cx < 128"
  shows "if pbchar cx = 0 \<or> room cx ss [word_of_int (pbchar cx)]
    then \<exists>cx' ss'. m_ungetc junk ch cx = Inr cx' \<and> cx_strs cx' ss' \<and> cx_file cx' = cx_file cx \<and> typed_in cx' = typed_in cx
      \<and> pbchar cx' = ch \<and> ss' = (if pbchar cx = 0 then ss else [word_of_int (pbchar cx)] # ss)
      \<and> lineno cx' = lineno cx - (if ch = 10 then 1 else 0) - (if pbchar cx = 10 then 1 else 0)
    else m_ungetc junk ch cx = Inl Fatal"
proof (cases "pbchar cx = 0")
  case True
  with assms(1) show ?thesis by (auto simp: m_ungetc_def cx_strs_def split: option.splits)
next
  case False
  let ?cx = "if ch = 10 then cx\<lparr>lineno := lineno cx - 1\<rparr> else cx"
  let ?c = "word_of_int (pbchar cx) :: byte"
  have s: "sint ?c = pbchar cx" using assms(3,4) by (simp add: sint_sbintrunc' signed_take_bit_id)
  then have c: "?c \<noteq> 0" "?c = 10 \<longleftrightarrow> pbchar cx = 10" using False by auto
  have 1: "cx_strs ?cx ss" "room ?cx ss [?c] \<longleftrightarrow> room cx ss [?c]" using assms(1) by (simp_all add: room_def pb_used_def cong: option.case_cong)
  show ?thesis using m_pushstr_correct [OF 1(1) assms(2), of "[?c]"] False c 1(2)
    by (auto simp: m_ungetc_def)
qed

end
