(* ===== verification/Mk_Dlist.thy ===== *)
theory Mk_Dlist
  imports Prelude
begin

text \<open>
  The doubly linked list of the two caches of \<open>mkpkg\<close>: the elements are the slots of a static array, and
  a pointer is the index of a slot or null.  The code is the same in \<open>unix/boot/mkpkg/fdcache.c\<close> and
  \<open>fncache.c\<close>; what an element holds besides the links is a type parameter.
\<close>

record 'e slot =
  uplnk :: "nat option"
  dnlnk :: "nat option"
  ent :: 'e

record 'e dlist =
  slots :: "'e slot list"
  l_head :: "nat option"
  l_tail :: "nat option"

definition set_slot :: "nat \<Rightarrow> ('e slot \<Rightarrow> 'e slot) \<Rightarrow> 'e dlist \<Rightarrow> 'e dlist" where
  "set_slot i f L = L\<lparr>slots := (slots L)[i := f (slots L ! i)]\<rparr>"

definition dl_unlink :: "nat \<Rightarrow> 'e dlist \<Rightarrow> 'e dlist" where
  "dl_unlink i L =
     (let L = (if l_head L = Some i then L\<lparr>l_head := dnlnk (slots L ! i)\<rparr> else L);
          L = (if l_tail L = Some i then L\<lparr>l_tail := uplnk (slots L ! i)\<rparr> else L);
          L = (case uplnk (slots L ! i) of None \<Rightarrow> L
               | Some u \<Rightarrow> set_slot u (\<lambda>s. s\<lparr>dnlnk := dnlnk (slots L ! i)\<rparr>) L)
      in case dnlnk (slots L ! i) of None \<Rightarrow> L
         | Some d \<Rightarrow> set_slot d (\<lambda>s. s\<lparr>uplnk := uplnk (slots L ! i)\<rparr>) L)"

definition dl_tohead :: "nat \<Rightarrow> 'e dlist \<Rightarrow> 'e dlist option" where
  "dl_tohead i L =
     (if l_head L \<noteq> Some i then
        let L = set_slot i (\<lambda>s. s\<lparr>uplnk := None, dnlnk := l_head L\<rparr>) L in
        (case l_head L of None \<Rightarrow> None
         | Some h \<Rightarrow> Some ((set_slot h (\<lambda>s. s\<lparr>uplnk := Some i\<rparr>) L)\<lparr>l_head := Some i\<rparr>))
      else Some L)"

definition dl_totail :: "nat \<Rightarrow> 'e dlist \<Rightarrow> 'e dlist option" where
  "dl_totail i L =
     (if l_tail L \<noteq> Some i then
        let L = set_slot i (\<lambda>s. s\<lparr>uplnk := l_tail L, dnlnk := None\<rparr>) L in
        (case l_tail L of None \<Rightarrow> None
         | Some t \<Rightarrow> Some ((set_slot t (\<lambda>s. s\<lparr>dnlnk := Some i\<rparr>) L)\<lparr>l_tail := Some i\<rparr>))
      else Some L)"

text \<open>The scan from the head; on a list with a cycle it need not end.\<close>

partial_function (option) dl_find :: "('e \<Rightarrow> bool) \<Rightarrow> 'e dlist \<Rightarrow> nat option \<Rightarrow> nat option option" where
  "dl_find P L p = (case p of None \<Rightarrow> Some None
     | Some i \<Rightarrow> if P (ent (slots L ! i)) then Some (Some i) else dl_find P L (dnlnk (slots L ! i)))"

subsection \<open>Well-formed lists\<close>

definition fst_or :: "nat list \<Rightarrow> nat option \<Rightarrow> nat option" where
  "fst_or is d = (case is of [] \<Rightarrow> d | i # _ \<Rightarrow> Some i)"

definition lst_or :: "nat list \<Rightarrow> nat option \<Rightarrow> nat option" where
  "lst_or is u = (if is = [] then u else Some (last is))"

fun dseg :: "'e slot list \<Rightarrow> nat option \<Rightarrow> nat list \<Rightarrow> nat option \<Rightarrow> bool" where
  "dseg sl u [] d \<longleftrightarrow> True"
| "dseg sl u (i # is) d \<longleftrightarrow> i < length sl \<and> uplnk (sl ! i) = u \<and> dnlnk (sl ! i) = fst_or is d \<and> dseg sl (Some i) is d"

text \<open>The list consists of the slots \<open>is\<close>, in this order.\<close>

definition dl_rep :: "'e dlist \<Rightarrow> nat list \<Rightarrow> bool" where
  "dl_rep L is \<longleftrightarrow> distinct is \<and> l_head L = fst_or is None \<and> l_tail L = lst_or is None \<and> dseg (slots L) None is None"

lemma or_simps [simp]:
  "fst_or [] d = d" "fst_or (i # is) d = Some i" "lst_or [] u = u" "lst_or (is @ [i]) u = Some i" "lst_or [i] u = Some i"
  by (simp_all add: fst_or_def lst_or_def)

lemma fst_or_append: "fst_or (is @ js) d = fst_or is (fst_or js d)"
  by (cases "is") simp_all

lemma lst_or_Cons: "lst_or (i # is) u = lst_or is (Some i)"
  by (simp add: lst_or_def)

lemma lst_or_append: "lst_or (is @ js) u = lst_or js (lst_or is u)"
  by (simp add: lst_or_def)

lemma dseg_append: "dseg sl u (is @ js) d \<longleftrightarrow> dseg sl u is (fst_or js d) \<and> dseg sl (lst_or is u) js d"
  by (induction "is" arbitrary: u) (auto simp: fst_or_append lst_or_Cons)

lemma dseg_range: "dseg sl u is d \<Longrightarrow> set is \<subseteq> {..<length sl}"
  by (induction "is" arbitrary: u) auto

text \<open>The slots outside of the segment do not matter, nor does what an element holds.\<close>

definition same_links :: "nat set \<Rightarrow> 'e slot list \<Rightarrow> 'f slot list \<Rightarrow> bool" where
  "same_links A sl sl' \<longleftrightarrow> length sl' = length sl \<and> (\<forall>i \<in> A. uplnk (sl' ! i) = uplnk (sl ! i) \<and> dnlnk (sl' ! i) = dnlnk (sl ! i))"

lemma dseg_same: "dseg sl u is d \<Longrightarrow> same_links (set is) sl sl' \<Longrightarrow> dseg sl' u is d"
  by (induction "is" arbitrary: u) (auto simp: same_links_def)

lemma same_links_update: "i \<notin> A \<Longrightarrow> same_links A sl (sl[i := s])"
  unfolding same_links_def by (metis length_list_update nth_list_update_neq)

text \<open>The last link of a segment, and the first one, redirected.\<close>

lemma dseg_last:
  assumes "dseg sl u (is @ [i]) d" "distinct (is @ [i])"
  shows "dseg (sl[i := (sl ! i)\<lparr>dnlnk := d'\<rparr>]) u (is @ [i]) d'"
proof -
  have d: "dseg sl u is (Some i)" "i < length sl" "uplnk (sl ! i) = lst_or is u" using assms(1) by (simp_all add: dseg_append)
  have "same_links (set is) sl (sl[i := (sl ! i)\<lparr>dnlnk := d'\<rparr>])" using assms(2) by (intro same_links_update) simp
  from dseg_same [OF d(1) this] d(2,3) show ?thesis by (simp add: dseg_append)
qed

lemma dseg_first:
  assumes "dseg sl u (i # is) d" "distinct (i # is)"
  shows "dseg (sl[i := (sl ! i)\<lparr>uplnk := u'\<rparr>]) u' (i # is) d"
proof -
  have "same_links (set is) sl (sl[i := (sl ! i)\<lparr>uplnk := u'\<rparr>])" using assms(2) by (intro same_links_update) simp
  with dseg_same [of sl "Some i" "is" d] assms show ?thesis by auto
qed


subsection \<open>Unlinking and linking at the head\<close>

lemma dl_unlink_slots:
  "slots (dl_unlink i L) = (let u = uplnk (slots L ! i); d = dnlnk (slots L ! i);
      sl = (case u of None \<Rightarrow> slots L | Some k \<Rightarrow> (slots L)[k := (slots L ! k)\<lparr>dnlnk := d\<rparr>])
    in case dnlnk (sl ! i) of None \<Rightarrow> sl | Some k \<Rightarrow> sl[k := (sl ! k)\<lparr>uplnk := uplnk (sl ! i)\<rparr>])"
  by (simp add: dl_unlink_def set_slot_def Let_def split: option.split)

lemma dl_unlink_ends:
  "l_head (dl_unlink i L) = (if l_head L = Some i then dnlnk (slots L ! i) else l_head L)"
  "l_tail (dl_unlink i L) = (if l_tail L = Some i then uplnk (slots L ! i) else l_tail L)"
  by (simp_all add: dl_unlink_def set_slot_def Let_def split: option.split)

lemma dl_unlink_links:
  assumes "dl_rep L (xs @ i # ys)"
  shows "dl_rep (dl_unlink i L) (xs @ ys)"
proof -
  let ?sl = "slots L"
  have dis: "distinct (xs @ i # ys)" "i \<notin> set xs" "i \<notin> set ys" "distinct xs" "distinct ys" "set xs \<inter> set ys = {}"
    and seg: "dseg ?sl None xs (Some i)" "i < length ?sl" "uplnk (?sl ! i) = lst_or xs None" "dnlnk (?sl ! i) = fst_or ys None"
      "dseg ?sl (Some i) ys None"
    and ends: "l_head L = fst_or (xs @ i # ys) None" "l_tail L = lst_or (xs @ i # ys) None"
    using assms by (auto simp: dl_rep_def dseg_append)
  define sl1 where "sl1 = (case lst_or xs None of None \<Rightarrow> ?sl | Some k \<Rightarrow> ?sl[k := (?sl ! k)\<lparr>dnlnk := fst_or ys None\<rparr>])"
  define sl2 where "sl2 = (case fst_or ys None of None \<Rightarrow> sl1 | Some k \<Rightarrow> sl1[k := (sl1 ! k)\<lparr>uplnk := lst_or xs None\<rparr>])"
  have i1: "sl1 ! i = ?sl ! i"
  proof (cases xs rule: rev_cases)
    case (snoc zs k)
    then have "k \<noteq> i" using dis by auto
    with snoc show ?thesis by (simp add: sl1_def)
  qed (simp add: sl1_def)
  have sl: "slots (dl_unlink i L) = sl2"
    unfolding dl_unlink_slots Let_def seg(3,4) sl1_def [symmetric] i1 sl2_def ..
  have x1: "dseg sl1 None xs (fst_or ys None)"
  proof (cases xs rule: rev_cases)
    case (snoc zs k)
    with dseg_last [OF seg(1) [unfolded snoc]] dis show ?thesis by (simp add: sl1_def)
  qed simp
  have y1: "dseg sl1 (Some i) ys None"
  proof (cases xs rule: rev_cases)
    case (snoc zs k)
    then have "k \<notin> set ys" using dis by auto
    with dseg_same [OF seg(5) same_links_update] snoc show ?thesis by (simp add: sl1_def)
  qed (use seg(5) in \<open>simp add: sl1_def\<close>)
  have x2: "dseg sl2 None xs (fst_or ys None)"
  proof (cases ys)
    case (Cons k zs)
    then have "k \<notin> set xs" using dis by auto
    with dseg_same [OF x1 same_links_update] Cons show ?thesis by (simp add: sl2_def)
  qed (use x1 in \<open>simp add: sl2_def\<close>)
  have y2: "dseg sl2 (lst_or xs None) ys None"
  proof (cases ys)
    case (Cons k zs)
    have "distinct (k # zs)" using dis Cons by simp
    from dseg_first [OF y1 [unfolded Cons] this, of "lst_or xs None"] show ?thesis by (simp only: sl2_def Cons or_simps option.case)
  qed simp
  have "l_head (dl_unlink i L) = fst_or (xs @ ys) None"
    using ends(1) seg(4) dis(2) by (cases xs) (auto simp: dl_unlink_ends)
  moreover have "l_tail (dl_unlink i L) = lst_or (xs @ ys) None"
  proof (cases ys rule: rev_cases)
    case Nil
    with ends(2) seg(3) show ?thesis by (simp add: dl_unlink_ends)
  next
    case (snoc zs k)
    then have "k \<noteq> i" using dis by auto
    with ends(2) snoc show ?thesis by (simp add: dl_unlink_ends lst_or_def)
  qed
  ultimately show ?thesis using dis x2 y2 sl by (simp add: dl_rep_def dseg_append)
qed

lemma dl_tohead_links:
  assumes "dl_rep L is" "is \<noteq> []" "i \<notin> set is" "i < length (slots L)"
  shows "\<exists>L'. dl_tohead i L = Some L' \<and> dl_rep L' (i # is)"
proof -
  let ?sl = "slots L"
  obtain h ys where h: "is = h # ys" using assms(2) by (cases "is") auto
  have l: "l_head L = Some h" "l_tail L = lst_or is None" "dseg ?sl None (h # ys) None" "distinct (h # ys)" "h \<noteq> i" "i \<notin> set (h # ys)"
    using assms h by (auto simp: dl_rep_def)
  let ?s1 = "?sl[i := (?sl ! i)\<lparr>uplnk := None, dnlnk := Some h\<rparr>]"
  let ?s2 = "?s1[h := (?s1 ! h)\<lparr>uplnk := Some i\<rparr>]"
  have run: "dl_tohead i L = Some (L\<lparr>slots := ?s2, l_head := Some i\<rparr>)"
    using l by (simp add: dl_tohead_def set_slot_def Let_def)
  have "dseg ?s1 None (h # ys) None" by (rule dseg_same [OF l(3) same_links_update [OF l(6)]])
  from dseg_first [OF this l(4)] have "dseg ?s2 (Some i) (h # ys) None" .
  moreover have "?s2 ! i = (?sl ! i)\<lparr>uplnk := None, dnlnk := Some h\<rparr>" using l(5) assms(4) by simp
  ultimately have "dseg ?s2 None (i # h # ys) None" using assms(4) by (subst dseg.simps(2)) (simp del: dseg.simps)
  with run assms h l show ?thesis by (intro exI [of _ "L\<lparr>slots := ?s2, l_head := Some i\<rparr>"]) (simp del: dseg.simps add: dl_rep_def lst_or_def)
qed

text \<open>What the elements hold stays.\<close>

definition ents :: "'e dlist \<Rightarrow> 'e list" where
  "ents L = map ent (slots L)"

lemma ents_set_slot: "ent (f (slots L ! i)) = ent (slots L ! i) \<Longrightarrow> ents (set_slot i f L) = ents L"
  by (cases "i < length (slots L)") (auto simp: ents_def set_slot_def map_update intro: list_update_same_conv [THEN iffD2] list_update_beyond)

lemma ents_ends [simp]: "ents (L\<lparr>l_head := h\<rparr>) = ents L" "ents (L\<lparr>l_tail := h\<rparr>) = ents L"
  by (simp_all add: ents_def)

lemma ents_unlink [simp]: "ents (dl_unlink i L) = ents L"
  by (simp add: dl_unlink_def Let_def ents_set_slot split: option.split)

lemma ents_tohead: "dl_tohead i L = Some L' \<Longrightarrow> ents L' = ents L"
  by (auto simp: dl_tohead_def Let_def ents_set_slot split: if_splits option.splits)


lemma length_unlink [simp]: "length (slots (dl_unlink i L)) = length (slots L)"
  using ents_unlink [of i L] by (metis ents_def length_map)

lemma length_tohead: "dl_tohead i L = Some L' \<Longrightarrow> length (slots L') = length (slots L)"
  using ents_tohead [of i L L'] by (metis ents_def length_map)

lemma ent_ents: "i < length (slots L) \<Longrightarrow> ent (slots L ! i) = ents L ! i"
  by (simp add: ents_def)

definition set_ent :: "nat \<Rightarrow> ('e \<Rightarrow> 'e) \<Rightarrow> 'e dlist \<Rightarrow> 'e dlist" where
  "set_ent i g = set_slot i (\<lambda>s. s\<lparr>ent := g (ent s)\<rparr>)"

lemma set_ent_rep [simp]: "dl_rep (set_ent i g L) is \<longleftrightarrow> dl_rep L is"
proof -
  let ?L = "set_ent i g L"
  have e: "uplnk (slots ?L ! j) = uplnk (slots L ! j)" "dnlnk (slots ?L ! j) = dnlnk (slots L ! j)" for j
    by (cases "j = i"; cases "i < length (slots L)"; simp add: set_ent_def set_slot_def list_update_beyond)+
  have "length (slots ?L) = length (slots L)" by (simp add: set_ent_def set_slot_def)
  with e have "same_links A (slots L) (slots ?L)" "same_links A (slots ?L) (slots L)" for A by (simp_all add: same_links_def)
  then have "dseg (slots ?L) u is d \<longleftrightarrow> dseg (slots L) u is d" for u d using dseg_same by blast
  then show ?thesis by (simp add: dl_rep_def set_ent_def set_slot_def)
qed

lemma ents_set_ent: "i < length (slots L) \<Longrightarrow> ents (set_ent i g L) = (ents L)[i := g (ents L ! i)]"
  by (simp add: ents_def set_ent_def set_slot_def map_update)

lemma length_set_ent [simp]: "length (slots (set_ent i g L)) = length (slots L)"
  by (simp add: set_ent_def set_slot_def)

lemma length_ents [simp]: "length (ents L) = length (slots L)"
  by (simp add: ents_def)

text \<open>All slots are in the list, and hold the entries \<open>es\<close>, the most recent one first.\<close>

definition dl_holds :: "'e dlist \<Rightarrow> 'e list \<Rightarrow> bool" where
  "dl_holds L es \<longleftrightarrow> (\<exists>is. dl_rep L is \<and> set is = {..<length (slots L)} \<and> es = map (\<lambda>i. ent (slots L ! i)) is)"

lemma dl_rep_range: "dl_rep L is \<Longrightarrow> set is \<subseteq> {..<length (slots L)}"
  by (auto simp: dl_rep_def dest: dseg_range)

lemma dl_access:
  assumes "dl_rep L (xs @ i # ys)" "xs @ ys \<noteq> []"
  shows "\<exists>L'. dl_tohead i (dl_unlink i L) = Some L' \<and> dl_rep L' (i # xs @ ys) \<and> ents L' = ents L"
proof -
  have "i < length (slots L)" "i \<notin> set (xs @ ys)" using dl_rep_range [OF assms(1)] assms(1) by (auto simp: dl_rep_def)
  from dl_tohead_links [OF dl_unlink_links [OF assms(1)] assms(2) this(2)] this(1) ents_tohead show ?thesis by fastforce
qed

lemma dl_holds_front:
  assumes "dl_rep L (xs @ i # ys)" "set (xs @ i # ys) = {..<length (slots L)}" "xs @ ys \<noteq> []"
  shows "\<exists>L'. dl_tohead i (dl_unlink i L) = Some L' \<and> ent (slots L' ! i) = ent (slots L ! i) \<and> i < length (slots L')
    \<and> dl_holds (set_ent i g L') (g (ent (slots L ! i)) # map (\<lambda>j. ent (slots L ! j)) (xs @ ys))"
proof -
  obtain L' where L': "dl_tohead i (dl_unlink i L) = Some L'" "dl_rep L' (i # xs @ ys)" "ents L' = ents L"
    using dl_access [OF assms(1,3)] by blast
  have len: "length (slots L') = length (slots L)" using L'(3) by (metis ents_def length_map)
  have e: "ent (slots L' ! j) = ent (slots L ! j)" if "j < length (slots L)" for j
    using L'(3) that len by (simp add: ent_ents)
  have r: "j < length (slots L)" if "j \<in> set (xs @ i # ys)" for j using assms(2) that by auto
  have "i \<notin> set (xs @ ys)" using assms(1) by (simp add: dl_rep_def)
  then have o: "map (\<lambda>j. ent (slots (set_ent i g L') ! j)) (xs @ ys) = map (\<lambda>j. ent (slots L ! j)) (xs @ ys)"
  proof (intro map_cong refl)
    fix j assume j: "j \<in> set (xs @ ys)"
    with \<open>i \<notin> set (xs @ ys)\<close> have "j \<noteq> i" by blast
    with e [of j] r [of j] j show "ent (slots (set_ent i g L') ! j) = ent (slots L ! j)" by (auto simp: set_ent_def set_slot_def)
  qed
  have "dl_holds (set_ent i g L') (g (ent (slots L ! i)) # map (\<lambda>j. ent (slots L ! j)) (xs @ ys))"
    unfolding dl_holds_def
  proof (intro exI conjI)
    show "dl_rep (set_ent i g L') (i # xs @ ys)" using L'(2) by simp
    show "set (i # xs @ ys) = {..<length (slots (set_ent i g L'))}" using assms(2) len by (auto simp: set_ent_def set_slot_def)
    show "g (ent (slots L ! i)) # map (\<lambda>j. ent (slots L ! j)) (xs @ ys) = map (\<lambda>j. ent (slots (set_ent i g L') ! j)) (i # xs @ ys)"
      using o e [of i] r len by (simp add: set_ent_def set_slot_def)
  qed
  with L'(1) e [of i] r [of i] len show ?thesis by auto
qed

lemma dl_find_seg: "dseg (slots L) u is None \<Longrightarrow> dl_find P L (fst_or is None) = Some (List.find (\<lambda>i. P (ent (slots L ! i))) is)"
proof (induction "is" arbitrary: u)
  case Nil
  then show ?case by (simp add: dl_find.simps)
next
  case (Cons i "is")
  then show ?case by (subst dl_find.simps) auto
qed

text \<open>The scan ends, with the first slot whose entry is looked for.\<close>

lemma dl_find_holds:
  assumes "dl_holds L es"
  shows "\<exists>is. dl_rep L is \<and> set is = {..<length (slots L)} \<and> es = map (\<lambda>i. ent (slots L ! i)) is
    \<and> dl_find P L (l_head L) = Some (List.find (\<lambda>i. P (ent (slots L ! i))) is)"
proof -
  obtain "is" where i: "dl_rep L is" "set is = {..<length (slots L)}" "es = map (\<lambda>i. ent (slots L ! i)) is"
    using assms by (auto simp: dl_holds_def)
  then show ?thesis using dl_find_seg [of L None "is" P] by (auto simp: dl_rep_def)
qed

subsection \<open>Least recently used\<close>

text \<open>What an access does to the entries: a hit moves its entry to the front, a miss replaces the last one.\<close>

definition lru_hit :: "('e \<Rightarrow> bool) \<Rightarrow> ('e \<Rightarrow> 'e) \<Rightarrow> 'e list \<Rightarrow> 'e list" where
  "lru_hit P g es = (case dropWhile (\<lambda>e. \<not> P e) es of [] \<Rightarrow> es | e # rest \<Rightarrow> g e # takeWhile (\<lambda>e. \<not> P e) es @ rest)"

lemma lru_hit_append: "P e \<Longrightarrow> \<forall>x \<in> set as. \<not> P x \<Longrightarrow> lru_hit P g (as @ e # bs) = g e # as @ bs"
  by (simp add: lru_hit_def dropWhile_append2 takeWhile_append2)

lemma find_split:
  "List.find P is = Some i \<Longrightarrow> \<exists>xs ys. is = xs @ i # ys \<and> P i \<and> (\<forall>x \<in> set xs. \<not> P x)"
proof (induction "is")
  case (Cons j "is")
  show ?case
  proof (cases "P j")
    case True
    with Cons.prems show ?thesis by (intro exI [of _ "[]"] exI [of _ "is"]) auto
  next
    case False
    with Cons obtain xs ys where "is = xs @ i # ys" "P i" "\<forall>x \<in> set xs. \<not> P x" by auto
    with False show ?thesis by (intro exI [of _ "j # xs"] exI [of _ ys]) auto
  qed
qed simp

lemma find_after: "\<forall>x \<in> set xs. \<not> P x \<Longrightarrow> List.find P (xs @ ys) = List.find P ys"
  by (induction xs) auto

lemma dl_hit:
  assumes "dl_holds L es" "2 \<le> length es" "dl_find P L (l_head L) = Some (Some i)"
  shows "\<exists>L' e. dl_tohead i (dl_unlink i L) = Some L' \<and> List.find P es = Some e \<and> ent (slots L' ! i) = e \<and> i < length (slots L')
    \<and> dl_holds (set_ent i g L') (lru_hit P g es)"
proof -
  let ?f = "\<lambda>i. ent (slots L ! i)"
  obtain "is" where r: "dl_rep L is" "set is = {..<length (slots L)}" "es = map ?f is"
    "List.find (\<lambda>i. P (?f i)) is = Some i" using dl_find_holds [OF assms(1), of P] assms(3) by auto
  obtain xs ys where xs: "is = xs @ i # ys" "P (?f i)" "\<forall>x \<in> set xs. \<not> P (?f x)" using find_split [OF r(4)] by auto
  have ne: "xs @ ys \<noteq> []" using assms(2) r(3) xs(1) by auto
  obtain L' where L': "dl_tohead i (dl_unlink i L) = Some L'" "ent (slots L' ! i) = ?f i" "i < length (slots L')"
    "dl_holds (set_ent i g L') (g (?f i) # map ?f (xs @ ys))"
    using dl_holds_front [OF r(1,2) [unfolded xs(1)] ne] by blast
  have es: "es = map ?f xs @ ?f i # map ?f ys" using r(3) xs(1) by simp
  have "\<forall>e \<in> set (map ?f xs). \<not> P e" using xs(3) by simp
  then have "List.find P es = Some (?f i)" "lru_hit P g es = g (?f i) # map ?f (xs @ ys)"
    unfolding es using xs(2) find_after [of "map ?f xs" P] by (simp_all add: lru_hit_append)
  with L' show ?thesis by auto
qed

lemma dl_missed:
  assumes "dl_holds L es" "2 \<le> length es" "dl_find P L (l_head L) = Some None"
  shows "List.find P es = None \<and> (\<exists>i L'. l_tail L = Some i \<and> dl_tohead i (dl_unlink i L) = Some L'
    \<and> ent (slots L' ! i) = last es \<and> i < length (slots L') \<and> dl_holds (set_ent i g L') (g (last es) # butlast es))"
proof -
  let ?f = "\<lambda>i. ent (slots L ! i)"
  obtain "is" where r: "dl_rep L is" "set is = {..<length (slots L)}" "es = map ?f is"
    "List.find (\<lambda>i. P (?f i)) is = None" using dl_find_holds [OF assms(1), of P] assms(3) by auto
  obtain xs i where xs: "is = xs @ [i]" using assms(2) r(3) by (cases "is" rule: rev_cases) auto
  have ne: "xs @ [] \<noteq> []" using assms(2) r(3) xs by auto
  obtain L' where L': "dl_tohead i (dl_unlink i L) = Some L'" "ent (slots L' ! i) = ?f i" "i < length (slots L')"
    "dl_holds (set_ent i g L') (g (?f i) # map ?f (xs @ []))"
    using dl_holds_front [OF r(1,2) [unfolded xs] ne] by blast
  moreover have "l_tail L = Some i" using r(1) xs by (simp add: dl_rep_def)
  moreover have "last es = ?f i" "butlast es = map ?f xs" using r(3) xs by simp_all
  moreover have "List.find P es = None" using r(3,4) by (auto simp: find_None_iff)
  ultimately show ?thesis by auto
qed

lemma dl_find_ends: "dl_holds L es \<Longrightarrow> dl_find P L (l_head L) \<noteq> None"
  using dl_find_holds by fastforce

lemma length_holds: "dl_holds L es \<Longrightarrow> length es = length (slots L)"
  unfolding dl_holds_def dl_rep_def using distinct_card by fastforce


subsection \<open>Clearing a cache\<close>

text \<open>The loop that links the slots from the second one on at the head, and clears what they hold.\<close>

fun dl_link_all :: "('e \<Rightarrow> 'e) \<Rightarrow> nat list \<Rightarrow> 'e dlist \<Rightarrow> 'e dlist option" where
  "dl_link_all blank [] L = Some L"
| "dl_link_all blank (i # is) L = (case dl_tohead i L of None \<Rightarrow> None
     | Some L \<Rightarrow> dl_link_all blank is (set_ent i blank L))"

definition dl_init :: "('e \<Rightarrow> 'e) \<Rightarrow> nat \<Rightarrow> 'e dlist \<Rightarrow> 'e dlist option" where
  "dl_init blank n L =
     (let L = L\<lparr>l_head := Some 0, l_tail := Some 0\<rparr>;
          L = set_ent 0 blank (set_slot 0 (\<lambda>s. s\<lparr>uplnk := None, dnlnk := None\<rparr>) L)
      in dl_link_all blank [1..<n] L)"

lemma dl_link_all_reps:
  assumes "dl_rep L (rev [0..<k])" "0 < k" "k \<le> n" "length (slots L) = n"
    "\<forall>j < k. blank (ents L ! j) = ents L ! j" "\<And>x. blank (blank x) = blank x"
  shows "\<exists>L'. dl_link_all blank [k..<n] L = Some L' \<and> dl_rep L' (rev [0..<n])
    \<and> length (slots L') = n \<and> (\<forall>j < n. blank (ents L' ! j) = ents L' ! j)"
  using assms(1-5)
proof (induction "n - k" arbitrary: k L)
  case 0
  then show ?case by simp
next
  case (Suc m)
  then have k: "k < n" by simp
  have "rev [0..<k] \<noteq> []" "k \<notin> set (rev [0..<k])" using Suc.prems(2) by auto
  then obtain L1 where L1: "dl_tohead k L = Some L1" "dl_rep L1 (k # rev [0..<k])" 
    using dl_tohead_links [OF Suc.prems(1)] k Suc.prems(4) by auto
  let ?L = "set_ent k blank L1"
  have len: "length (slots L1) = n" using length_tohead [OF L1(1)] Suc.prems(4) by simp
  have e: "ents ?L ! j = (if j = k then blank (ents L ! j) else ents L ! j)" if "j < n" for j
    using that ents_tohead [OF L1(1)] len k Suc.prems(4) by (simp add: ents_set_ent)
  have "\<forall>j < Suc k. blank (ents ?L ! j) = ents ?L ! j" using e k Suc.prems(5) assms(6) by (auto simp: less_Suc_eq)
  moreover have "dl_rep ?L (rev [0..<Suc k])" using L1(2) by simp
  moreover have "length (slots ?L) = n" using len by simp
  moreover have "m = n - Suc k" using Suc.hyps(2) by simp
  moreover have "[k..<n] = k # [Suc k..<n]" using k by (simp add: upt_rec)
  ultimately show ?case using Suc.hyps(1) [of "Suc k" ?L] k L1(1) by simp
qed

lemma dl_init_holds:
  assumes "length (slots L) = n" "0 < n" "\<And>x. blank (blank x) = blank x"
  shows "\<exists>L' es. dl_init blank n L = Some L' \<and> dl_holds L' es \<and> (\<forall>e \<in> set es. blank e = e) \<and> length (slots L') = n"
proof -
  let ?base = "L\<lparr>l_head := Some 0, l_tail := Some 0\<rparr>"
  let ?L = "set_ent 0 blank (set_slot 0 (\<lambda>s. s\<lparr>uplnk := None, dnlnk := None\<rparr>) ?base)"
  have "dl_rep ?L (rev [0..<1])" unfolding set_ent_rep using assms by (simp add: dl_rep_def set_slot_def)
  moreover have len: "length (slots (set_slot 0 (\<lambda>s. s\<lparr>uplnk := None, dnlnk := None\<rparr>) ?base)) = n" using assms by (simp add: set_slot_def)
  moreover have "length (slots ?L) = n" using len by simp
  moreover have "\<forall>j < 1. blank (ents ?L ! j) = ents ?L ! j"
    using len assms(2,3) by (simp add: ents_set_ent)
  ultimately obtain L' where L': "dl_link_all blank [1..<n] ?L = Some L'" "dl_rep L' (rev [0..<n])"
    "length (slots L') = n" "\<forall>j < n. blank (ents L' ! j) = ents L' ! j"
    using dl_link_all_reps [of ?L 1 n blank] assms(2,3) by auto
  let ?es = "map (\<lambda>i. ent (slots L' ! i)) (rev [0..<n])"
  have "\<forall>e \<in> set ?es. blank e = e" using L'(3,4) by (auto simp: ent_ents)
  moreover have "dl_holds L' ?es" using L'(2,3) unfolding dl_holds_def by (intro exI [of _ "rev [0..<n]"]) auto
  moreover have "dl_init blank n L = Some L'" using L'(1) by (simp add: dl_init_def)
  ultimately show ?thesis using L'(3) by blast
qed

subsection \<open>A service behind a cache\<close>

text \<open>A sequence of look-ups, each in the state that the one before leaves.\<close>

fun run_all :: "('k \<Rightarrow> 's \<Rightarrow> ('v \<times> 's) option) \<Rightarrow> 'k list \<Rightarrow> 's \<Rightarrow> ('v list \<times> 's) option" where
  "run_all f [] s = Some ([], s)"
| "run_all f (k # ks) s = (case f k s of None \<Rightarrow> None
     | Some (v, s') \<Rightarrow> map_option (\<lambda>(vs, t). (v # vs, t)) (run_all f ks s'))"

text \<open>
  The contract of both caches: in a good state a look-up of a key that the cache serves does not fail, has
  the result of the service, and leaves a good state.
\<close>

locale cached =
  fixes lookup :: "'k \<Rightarrow> 's \<Rightarrow> ('v \<times> 's) option" and good :: "'s \<Rightarrow> bool" and service :: "'k \<Rightarrow> 'v" and served :: "'k \<Rightarrow> bool"
  assumes lookup_good: "good s \<Longrightarrow> served k \<Longrightarrow> \<exists>s'. lookup k s = Some (service k, s') \<and> good s'"
begin

lemma run_all_service: "good s \<Longrightarrow> \<forall>k \<in> set ks. served k \<Longrightarrow> \<exists>s'. run_all lookup ks s = Some (map service ks, s') \<and> good s'"
proof (induction ks arbitrary: s)
  case (Cons k ks)
  then obtain s1 where s1: "lookup k s = Some (service k, s1)" "good s1"
    using lookup_good [OF Cons.prems(1), of k] by auto
  from Cons.IH [OF s1(2)] Cons.prems(2) s1(1) show ?case by auto
qed simp

end

end
