(* ===== verification/Mk_Fdcache.thy ===== *)
theory Mk_Fdcache
  imports Mk_Dlist
begin

text \<open>
  The cache of file dates of \<open>mkpkg\<close>, from \<open>unix/boot/mkpkg/fdcache.c\<close>.  The dates of the host are a
  parameter; the listing that \<open>m_fdinit\<close> prints is left out.
\<close>

abbreviation MAX_FILES :: nat where "MAX_FILES \<equiv> 20"
abbreviation SZ_NAME :: nat where "SZ_NAME \<equiv> 32"

record fdent =
  fd_nrefs :: int
  fd_sum :: int
  fdate :: int
  fd_fname :: "byte list"

record fdcache =
  fd_list :: "fdent dlist"
  fd_hits :: int
  fd_misses :: int

definition fd_unlink :: "nat \<Rightarrow> fdent dlist \<Rightarrow> fdent dlist" where
  "fd_unlink = dl_unlink"

definition fd_tohead :: "nat \<Rightarrow> fdent dlist \<Rightarrow> fdent dlist option" where
  "fd_tohead = dl_tohead"

fun chksum_loop :: "int \<Rightarrow> byte list \<Rightarrow> int" where
  "chksum_loop sm [] = sm"
| "chksum_loop sm (c # s) = chksum_loop (to_int (sm + sint c)) s"

definition fd_chksum :: "byte list \<Rightarrow> int" where
  "fd_chksum s = chksum_loop 0 s"

definition fd_matches :: "byte list \<Rightarrow> fdent \<Rightarrow> bool" where
  "fd_matches fname fd \<longleftrightarrow> fd_sum fd = fd_chksum fname \<and> fname = fd_fname fd"

definition m_fdate :: "(byte list \<Rightarrow> int) \<Rightarrow> byte list \<Rightarrow> fdcache \<Rightarrow> (int \<times> fdcache) option" where
  "m_fdate os_fdate fname c =
     (case dl_find (fd_matches fname) (fd_list c) (l_head (fd_list c)) of
        None \<Rightarrow> None
      | Some (Some fd) \<Rightarrow>
          (case fd_tohead fd (fd_unlink fd (fd_list c)) of None \<Rightarrow> None
           | Some L \<Rightarrow> Some (fdate (ent (slots L ! fd)),
               c\<lparr>fd_list := set_ent fd (\<lambda>e. e\<lparr>fd_nrefs := to_int (fd_nrefs e + 1)\<rparr>) L, fd_hits := to_int (fd_hits c + 1)\<rparr>))
      | Some None \<Rightarrow>
          let c = c\<lparr>fd_misses := to_int (fd_misses c + 1)\<rparr> in
          if SZ_NAME < length fname then Some (os_fdate fname, c)
          else
            (case l_tail (fd_list c) of None \<Rightarrow> None
             | Some fd \<Rightarrow>
                 (case fd_tohead fd (fd_unlink fd (fd_list c)) of None \<Rightarrow> None
                  | Some L \<Rightarrow>
                      let L = set_ent fd (\<lambda>e. e\<lparr>fd_fname := take SZ_NAME fname, fd_sum := fd_chksum fname,
                                                fdate := os_fdate fname, fd_nrefs := 1\<rparr>) L
                      in Some (fdate (ent (slots L ! fd)), c\<lparr>fd_list := L\<rparr>))))"

definition fd_blank :: "fdent \<Rightarrow> fdent" where
  "fd_blank e = e\<lparr>fd_fname := [], fd_sum := - 1, fd_nrefs := 0\<rparr>"

definition m_fdinit :: "bool \<Rightarrow> fdcache \<Rightarrow> fdcache option" where
  "m_fdinit debug c =
     (let c = (if debug then c\<lparr>fd_hits := 0, fd_misses := 0\<rparr> else c)
      in map_option (\<lambda>L. c\<lparr>fd_list := L\<rparr>) (dl_init fd_blank MAX_FILES (fd_list c)))"

text \<open>The static cache before its first use.\<close>

definition fd_static :: fdcache where
  "fd_static = \<lparr>fd_list = \<lparr>slots = replicate MAX_FILES \<lparr>uplnk = None, dnlnk = None,
       ent = \<lparr>fd_nrefs = 0, fd_sum = 0, fdate = 0, fd_fname = []\<rparr>\<rparr>, l_head = None, l_tail = None\<rparr>,
     fd_hits = 0, fd_misses = 0\<rparr>"

subsection \<open>The cache is a list of entries, the one used last at its head\<close>

text \<open>The reference: what a look-up does to the list of entries.\<close>

definition fd_access :: "(byte list \<Rightarrow> int) \<Rightarrow> byte list \<Rightarrow> fdent list \<Rightarrow> int \<times> fdent list" where
  "fd_access os_fdate fname es =
     (case List.find (fd_matches fname) es of
        Some e \<Rightarrow> (fdate e, lru_hit (fd_matches fname) (\<lambda>e. e\<lparr>fd_nrefs := to_int (fd_nrefs e + 1)\<rparr>) es)
      | None \<Rightarrow> (os_fdate fname,
          if SZ_NAME < length fname then es
          else (last es)\<lparr>fd_fname := fname, fd_sum := fd_chksum fname, fdate := os_fdate fname, fd_nrefs := 1\<rparr> # butlast es))"

definition fd_holds :: "fdcache \<Rightarrow> fdent list \<Rightarrow> bool" where
  "fd_holds c es \<longleftrightarrow> dl_holds (fd_list c) es \<and> length es = MAX_FILES"

lemma m_fdate_access:
  assumes "fd_holds c es"
  shows "\<exists>c'. m_fdate os_fdate fname c = Some (fst (fd_access os_fdate fname es), c')
    \<and> fd_holds c' (snd (fd_access os_fdate fname es))"
proof -
  let ?P = "fd_matches fname"
  have h: "dl_holds (fd_list c) es" "2 \<le> length es" "length es = MAX_FILES" using assms by (auto simp: fd_holds_def)
  obtain r where r: "dl_find ?P (fd_list c) (l_head (fd_list c)) = Some r" using dl_find_ends [OF h(1)] by auto
  show ?thesis
  proof (cases r)
    case (Some i)
    let ?g = "\<lambda>e. e\<lparr>fd_nrefs := to_int (fd_nrefs e + 1)\<rparr>"
    obtain L' e where L': "dl_tohead i (dl_unlink i (fd_list c)) = Some L'" "List.find ?P es = Some e" "ent (slots L' ! i) = e"
      "i < length (slots L')" "dl_holds (set_ent i ?g L') (lru_hit ?P ?g es)" using dl_hit [OF h(1,2) r [unfolded Some]] by blast
    moreover have "length (lru_hit ?P ?g es) = length es"
      using length_holds [OF L'(5)] length_holds [OF h(1)] length_tohead [OF L'(1)] by (simp add: set_ent_def set_slot_def)
    ultimately show ?thesis using r Some h(3)
      by (simp add: m_fdate_def fd_access_def fd_holds_def fd_tohead_def fd_unlink_def)
  next
    case None
    note m = dl_missed [OF h(1,2) r [unfolded None]]
    show ?thesis
    proof (cases "SZ_NAME < length fname")
      case True
      then show ?thesis using r None m h by (simp add: m_fdate_def fd_access_def fd_holds_def)
    next
      case False
      let ?g = "\<lambda>e. e\<lparr>fd_fname := take SZ_NAME fname, fd_sum := fd_chksum fname, fdate := os_fdate fname, fd_nrefs := 1\<rparr>"
      obtain i L' where L': "l_tail (fd_list c) = Some i" "dl_tohead i (dl_unlink i (fd_list c)) = Some L'"
        "ent (slots L' ! i) = last es" "i < length (slots L')" "dl_holds (set_ent i ?g L') (?g (last es) # butlast es)" using m by blast
      then show ?thesis using r None m L' h False
        by (simp add: m_fdate_def fd_access_def fd_holds_def fd_tohead_def fd_unlink_def Let_def set_ent_def set_slot_def)
    qed
  qed
qed


fun fd_accesses :: "(byte list \<Rightarrow> int) \<Rightarrow> byte list list \<Rightarrow> fdent list \<Rightarrow> int list \<times> fdent list" where
  "fd_accesses os_fdate [] es = ([], es)"
| "fd_accesses os_fdate (f # fs) es =
     (let (v, es1) = fd_access os_fdate f es; (vs, es2) = fd_accesses os_fdate fs es1 in (v # vs, es2))"

text \<open>
  C37: The date cache implements a list of at most twenty entries in the order of their last use, over every
  sequence of calls: a hit moves its entry to the front and counts the reference, a miss takes the date of
  the host and replaces the entry not used for the longest time, unless the name is too long; the links of
  the list stay intact.
\<close>

theorem m_fdate_lru:
  assumes "fd_holds c es"
  shows "\<exists>c'. run_all (m_fdate os_fdate) fnames c = Some (fst (fd_accesses os_fdate fnames es), c')
    \<and> fd_holds c' (snd (fd_accesses os_fdate fnames es))"
  using assms
proof (induction fnames arbitrary: c es)
  case (Cons f fs)
  obtain c1 where c1: "m_fdate os_fdate f c = Some (fst (fd_access os_fdate f es), c1)" "fd_holds c1 (snd (fd_access os_fdate f es))"
    using m_fdate_access [OF Cons.prems] by blast
  from Cons.IH [OF c1(2)] c1(1) show ?case by (auto simp: case_prod_beta)
qed simp
subsection \<open>The cache does not change the dates\<close>

definition fd_good :: "(byte list \<Rightarrow> int) \<Rightarrow> fdcache \<Rightarrow> bool" where
  "fd_good date c \<longleftrightarrow> (\<exists>es. fd_holds c es \<and> (\<forall>e \<in> set es. fd_sum e = fd_chksum (fd_fname e) \<longrightarrow> fdate e = date (fd_fname e)))"

lemma lru_hit_set: "set (lru_hit P g es) \<subseteq> set es \<union> g ` {e \<in> set es. P e}"
proof (cases "dropWhile (\<lambda>e. \<not> P e) es")
  case (Cons e rest)
  have "P e" using Cons hd_dropWhile [of "\<lambda>e. \<not> P e" es] by simp
  moreover have "set (e # rest) \<subseteq> set es" using Cons set_dropWhileD [of _ "\<lambda>e. \<not> P e" es] by (metis subsetI)
  moreover have "set (takeWhile (\<lambda>e. \<not> P e) es) \<subseteq> set es" using set_takeWhileD by fastforce
  ultimately show ?thesis using Cons by (auto simp: lru_hit_def)
next
  case Nil
  then show ?thesis unfolding lru_hit_def by (simp only: list.case) blast
qed

lemma m_fdate_good:
  assumes "fd_good date c"
  shows "\<exists>c'. m_fdate date fname c = Some (date fname, c') \<and> fd_good date c'"
proof -
  obtain es where es: "fd_holds c es" "\<forall>e \<in> set es. fd_sum e = fd_chksum (fd_fname e) \<longrightarrow> fdate e = date (fd_fname e)"
    using assms by (auto simp: fd_good_def)
  obtain c' where c': "m_fdate date fname c = Some (fst (fd_access date fname es), c')" "fd_holds c' (snd (fd_access date fname es))"
    using m_fdate_access [OF es(1)] by blast
  have "fst (fd_access date fname es) = date fname
    \<and> (\<forall>e \<in> set (snd (fd_access date fname es)). fd_sum e = fd_chksum (fd_fname e) \<longrightarrow> fdate e = date (fd_fname e))"
  proof (cases "List.find (fd_matches fname) es")
    case None
    have "set (butlast es) \<subseteq> set es" using in_set_butlastD by fast
    with None es(2) show ?thesis by (auto simp: fd_access_def)
  next
    case (Some e)
    then have e: "e \<in> set es" "fd_matches fname e" by (auto simp: find_Some_iff)
    then have "fdate e = date fname" using es(2) by (auto simp: fd_matches_def)
    moreover have "\<forall>x \<in> set (lru_hit (fd_matches fname) (\<lambda>e. e\<lparr>fd_nrefs := to_int (fd_nrefs e + 1)\<rparr>) es).
        fd_sum x = fd_chksum (fd_fname x) \<longrightarrow> fdate x = date (fd_fname x)"
      using lru_hit_set [of "fd_matches fname" _ es] es(2) by fastforce
    ultimately show ?thesis using Some by (simp add: fd_access_def)
  qed
  with c' show ?thesis by (auto simp: fd_good_def)
qed

interpretation fd: cached "m_fdate date" "fd_good date" date "\<lambda>_. True" for date
  by unfold_locales (rule m_fdate_good)

lemma m_fdinit_good:
  assumes "length (slots (fd_list c)) = MAX_FILES"
  shows "\<exists>c'. m_fdinit debug c = Some c' \<and> fd_good date c'"
proof -
  have "fd_blank (fd_blank e) = fd_blank e" for e by (simp add: fd_blank_def)
  then obtain L es where L: "dl_init fd_blank MAX_FILES (fd_list c) = Some L" "dl_holds L es" "\<forall>e \<in> set es. fd_blank e = e"
      "length (slots L) = MAX_FILES" using dl_init_holds [OF assms, of fd_blank] by auto
  have "\<forall>e \<in> set es. fd_sum e \<noteq> fd_chksum (fd_fname e)"
    using L(3) by (metis fd_blank_def fd_chksum_def chksum_loop.simps(1) fdent.select_convs(2,4) fdent.surjective fdent.update_convs(1,2,4) one_neq_neg_one neg_equal_0_iff_equal zero_neq_one)
  then have "fd_good date (c1\<lparr>fd_list := L\<rparr>)" for c1
    using L(2,4) length_holds [OF L(2)] unfolding fd_good_def fd_holds_def by (intro exI [of _ es]) auto
  with L(1) show ?thesis by (auto simp: m_fdinit_def)
qed

text \<open>
  C36: \<open>m_fdate\<close> is functionally equivalent to \<open>os_fdate\<close>, as its comment says, as long as the dates of the
  host do not change: from a cache that \<open>m_fdinit\<close> has cleared, every sequence of calls, whatever the names
  and their lengths, runs to its end and returns the dates of the host.
\<close>

theorem m_fdate_transparent:
  assumes "length (slots (fd_list c)) = MAX_FILES"
  shows "\<exists>c1 c2. m_fdinit debug c = Some c1 \<and> run_all (m_fdate os_fdate) fnames c1 = Some (map os_fdate fnames, c2)"
proof -
  obtain c1 where "m_fdinit debug c = Some c1" "fd_good os_fdate c1" using m_fdinit_good [OF assms] by blast
  with fd.run_all_service [of os_fdate c1 fnames] show ?thesis by auto
qed

theorem m_fdate_transparent_witness:
  "\<exists>c1 c2. m_fdinit False fd_static = Some c1
     \<and> run_all (m_fdate (int \<circ> length)) [[97], [98, 99], [97]] c1 = Some (map (int \<circ> length) [[97 :: byte], [98, 99], [97]], c2)"
  by (rule m_fdate_transparent) (simp add: fd_static_def)

theorem m_fdate_lru_witness:
  "\<exists>c es c'. fd_holds c es \<and> run_all (m_fdate (int \<circ> length)) [[97], [98, 99]] c = Some (fst (fd_accesses (int \<circ> length) [[97], [98, 99]] es), c')"
proof -
  obtain c es where "fd_holds c es"
    using m_fdinit_good [of fd_static False "\<lambda>_. 0"] by (auto simp: fd_static_def fd_good_def)
  with m_fdate_lru [OF this, of "int \<circ> length" "[[97], [98, 99]]"] show ?thesis by blast
qed

end
