(* ===== verification/Mk_Fncache.thy ===== *)
theory Mk_Fncache
  imports Mk_Fdcache
begin

text \<open>
  The cache of system file names of \<open>mkpkg\<close>, from \<open>unix/boot/mkpkg/fncache.c\<close>, and the search for a system
  file, \<open>os_sysfile\<close> of \<open>unix/boot/bootlib/ossysfile.c\<close>.  The output buffer of the caller is a list of bytes;
  a store behind its end is a fault.  \<open>irafpath\<close>, the environment and the access to files are the host.
\<close>

record syshost =
  irafpath :: "byte list \<Rightarrow> byte list"
  pkglibs :: "byte list option"
  os_access :: "byte list \<Rightarrow> bool"

definition cstr :: "byte list \<Rightarrow> byte list" where
  "cstr buf = takeWhile (\<lambda>c. c \<noteq> 0) buf"

definition lib_sep :: "byte \<Rightarrow> bool" where
  "lib_sep c \<longleftrightarrow> c = 32 \<or> 9 \<le> c \<and> c \<le> 13 \<or> c = 44"

text \<open>The loop over the package libraries; \<open>ip\<close> is what is left of the list.\<close>

function lib_loop :: "syshost \<Rightarrow> byte list \<Rightarrow> byte list \<Rightarrow> byte list \<Rightarrow> (int \<times> byte list) option" where
  "lib_loop H sysfile ip fname =
     (if ip = [] then Some (- 1, fname)
      else
        let ip = dropWhile lib_sep ip;
            path = takeWhile (\<lambda>c. \<not> lib_sep c) ip @ sysfile;
            ip = dropWhile (\<lambda>c. \<not> lib_sep c) ip
        in if length fname < length path + 1 then None
           else
             let fname = blit fname 0 (path @ [0]) in
             if os_access H path then Some (int (length path), fname) else lib_loop H sysfile ip fname)"
  by pat_completeness auto
termination
proof (relation "measure (\<lambda>(H, sysfile, ip, fname). length ip)", simp, goal_cases)
  case (1 H sysfile ip fname x path y)
  let ?a = "dropWhile lib_sep ip"
  show ?case
  proof (cases ip)
    case (Cons c cs)
    have "length (dropWhile (\<lambda>c. \<not> lib_sep c) ?a) \<le> length ?a" "length ?a \<le> length ip" by (rule length_dropWhile_le)+
    moreover have "length (dropWhile (\<lambda>c. \<not> lib_sep c) ?a) < length ip"
    proof (cases "lib_sep c")
      case True
      with Cons length_dropWhile_le [of lib_sep cs] calculation(1) show ?thesis by simp
    next
      case False
      with Cons length_dropWhile_le [of "\<lambda>c. \<not> lib_sep c" cs] show ?thesis by simp
    qed
    with 1 show ?thesis by simp
  qed (use 1 in simp)
qed

declare lib_loop.simps [simp del]

definition os_sysfile :: "syshost \<Rightarrow> byte list \<Rightarrow> byte list \<Rightarrow> int \<Rightarrow> (int \<times> byte list) option" where
  "os_sysfile H sysfile fname maxch =
     (if maxch < 1 \<or> length fname < nat maxch then None
      else
        let fname = blit fname 0 (take (nat maxch) (irafpath H sysfile @ replicate (nat maxch) 0));
            fname = fname[nat (maxch - 1) := 0]
        in if cstr fname \<noteq> sysfile then Some (int (length (cstr fname)), fname)
           else (case pkglibs H of None \<Rightarrow> Some (- 1, fname) | Some files \<Rightarrow> lib_loop H sysfile files fname))"

subsection \<open>The cache\<close>

abbreviation SZ_LNAME :: nat where "SZ_LNAME \<equiv> 32"
abbreviation SZ_FNSLOT :: nat where "SZ_FNSLOT \<equiv> 32"

record fnent =
  fn_nrefs :: int
  fn_sum :: int
  fn_lname :: "byte list"
  fn_fname :: "byte list"

record fncache =
  fn_list :: "fnent dlist"
  fn_hits :: int
  fn_misses :: int

definition fn_unlink :: "nat \<Rightarrow> fnent dlist \<Rightarrow> fnent dlist" where
  "fn_unlink = dl_unlink"

definition fn_tohead :: "nat \<Rightarrow> fnent dlist \<Rightarrow> fnent dlist option" where
  "fn_tohead = dl_tohead"

definition fn_chksum :: "byte list \<Rightarrow> int" where
  "fn_chksum s = chksum_loop 0 s"

text \<open>The copy of a string, of which \<open>ip\<close> with its EOS is left, to \<open>out\<close> from \<open>op\<close> on; the result is \<open>op\<close>.\<close>

fun fn_copy :: "byte list \<Rightarrow> nat \<Rightarrow> byte list \<Rightarrow> nat \<Rightarrow> (nat \<times> byte list) option" where
  "fn_copy ip 0 out op = Some (op, out)"
| "fn_copy [] (Suc n) out op = None"
| "fn_copy (c # ip) (Suc n) out op =
     (if length out \<le> op then None
      else if c = 0 then Some (op + 1, out[op := c])
      else fn_copy ip n (out[op := c]) (op + 1))"

definition fn_strncpy :: "byte list \<Rightarrow> byte list \<Rightarrow> int \<Rightarrow> (int \<times> byte list) option" where
  "fn_strncpy out s maxch = map_option (\<lambda>(op, out). (int op - 1, out)) (fn_copy (s @ [0]) (nat maxch) out 0)"

definition fn_matches :: "byte list \<Rightarrow> fnent \<Rightarrow> bool" where
  "fn_matches lname fn \<longleftrightarrow> fn_sum fn = fn_chksum lname \<and> lname = fn_lname fn"

definition m_sysfile :: "syshost \<Rightarrow> byte list \<Rightarrow> byte list \<Rightarrow> int \<Rightarrow> fncache \<Rightarrow> ((int \<times> byte list) \<times> fncache) option" where
  "m_sysfile H lname fname maxch c =
     (case dl_find (fn_matches lname) (fn_list c) (l_head (fn_list c)) of
        None \<Rightarrow> None
      | Some (Some fn) \<Rightarrow>
          (case fn_tohead fn (fn_unlink fn (fn_list c)) of None \<Rightarrow> None
           | Some L \<Rightarrow>
               map_option (\<lambda>r. (r, c\<lparr>fn_list := set_ent fn (\<lambda>e. e\<lparr>fn_nrefs := to_int (fn_nrefs e + 1)\<rparr>) L, fn_hits := to_int (fn_hits c + 1)\<rparr>))
                 (fn_strncpy fname (fn_fname (ent (slots L ! fn))) maxch))
      | Some None \<Rightarrow>
          let c = c\<lparr>fn_misses := to_int (fn_misses c + 1)\<rparr> in
          (case os_sysfile H lname fname maxch of None \<Rightarrow> None
           | Some (fnlen, fname) \<Rightarrow>
               if fnlen > int SZ_FNSLOT \<or> length lname > SZ_LNAME then Some ((fnlen, fname), c)
               else
                 (case l_tail (fn_list c) of None \<Rightarrow> None
                  | Some fn \<Rightarrow>
                      (case fn_tohead fn (fn_unlink fn (fn_list c)) of None \<Rightarrow> None
                       | Some L \<Rightarrow>
                           if SZ_FNSLOT < length (cstr fname) then None
                           else Some ((fnlen, fname), c\<lparr>fn_list := set_ent fn
                             (\<lambda>e. e\<lparr>fn_lname := lname, fn_fname := cstr fname, fn_sum := fn_chksum lname, fn_nrefs := 1\<rparr>) L\<rparr>)))))"

definition fn_blank :: "fnent \<Rightarrow> fnent" where
  "fn_blank e = e\<lparr>fn_lname := [], fn_sum := - 1, fn_nrefs := 0\<rparr>"

text \<open>
  In the listing that \<open>m_fninit\<close> prints when it is called with the debug flag, every name is put between angle brackets
  in an array of \<open>SZ_FNSLOT + 1\<close> bytes: the listing is a fault if a name in the list is too long for that.
\<close>

definition fn_listing :: "fncache \<Rightarrow> nat option option" where
  "fn_listing c = dl_find (\<lambda>e. SZ_FNSLOT < length (fn_lname e) + 2) (fn_list c) (l_head (fn_list c))"

definition m_fninit :: "bool \<Rightarrow> fncache \<Rightarrow> fncache option" where
  "m_fninit debug c =
     (if debug \<and> fn_listing c \<noteq> Some None then None
      else
        let c = (if debug then c\<lparr>fn_hits := 0, fn_misses := 0\<rparr> else c)
        in map_option (\<lambda>L. c\<lparr>fn_list := L\<rparr>) (dl_init fn_blank MAX_FILES (fn_list c)))"

definition fn_static :: fncache where
  "fn_static = \<lparr>fn_list = \<lparr>slots = replicate MAX_FILES \<lparr>uplnk = None, dnlnk = None,
       ent = \<lparr>fn_nrefs = 0, fn_sum = 0, fn_lname = [], fn_fname = []\<rparr>\<rparr>, l_head = None, l_tail = None\<rparr>,
     fn_hits = 0, fn_misses = 0\<rparr>"


subsection \<open>The cache does not change what is found\<close>

definition fn_holds :: "fncache \<Rightarrow> fnent list \<Rightarrow> bool" where
  "fn_holds c es \<longleftrightarrow> dl_holds (fn_list c) es \<and> length es = MAX_FILES"

lemma fn_copy_correct:
  "0 \<notin> set s \<Longrightarrow> length s < n \<Longrightarrow> op + length s < length out \<Longrightarrow>
   fn_copy (s @ [0]) n out op = Some (op + length s + 1, blit out op (s @ [0]))"
proof (induction s arbitrary: n out op)
  case Nil
  then show ?case by (cases n) (simp_all add: blit_def upd_conv_take_nth_drop)
next
  case (Cons c s)
  then obtain k where k: "n = Suc k" by (cases n) auto
  have "blit (out[op := c]) (op + 1) (s @ [0]) = blit out op (c # s @ [0])"
    using Cons.prems by (simp add: blit_def take_Suc_conv_app_nth drop_update_cancel upd_conv_take_nth_drop add.commute)
  with Cons k show ?case by simp
qed

lemma cstr_blit: "0 \<notin> set s \<Longrightarrow> cstr (blit out 0 (s @ [0])) = s"
proof -
  assume "0 \<notin> set s"
  then have "\<And>x. x \<in> set s \<Longrightarrow> x \<noteq> 0" by auto
  then show ?thesis unfolding cstr_def blit_def by (simp add: takeWhile_append2)
qed

lemma cstr_nonzero: "0 \<notin> set (cstr b)"
  unfolding cstr_def using set_takeWhileD by fastforce

text \<open>The copy when there is no room for all of it: no EOS is written.\<close>

lemma fn_copy_short:
  "0 \<notin> set s \<Longrightarrow> n \<le> length s \<Longrightarrow> op + n \<le> length out \<Longrightarrow> fn_copy (s @ [0]) n out op = Some (op + n, blit out op (take n s))"
proof (induction s arbitrary: n out op)
  case Nil
  then show ?case by (simp add: blit_def)
next
  case (Cons c s)
  show ?case
  proof (cases n)
    case 0
    then show ?thesis by (simp add: blit_def)
  next
    case (Suc k)
    have "blit (out[op := c]) (op + 1) (take k s) = blit out op (c # take k s)"
      using Cons.prems Suc by (simp add: blit_def take_Suc_conv_app_nth drop_update_cancel upd_conv_take_nth_drop add.commute)
    with Cons Suc show ?thesis by simp
  qed
qed

lemma fn_strncpy_short:
  assumes "0 \<notin> set s" "0 \<le> maxch" "maxch \<le> int (length s)" "nat maxch \<le> length out"
  shows "fn_strncpy out s maxch = Some (maxch - 1, blit out 0 (take (nat maxch) s))"
  using fn_copy_short [OF assms(1), of "nat maxch" 0 out] assms(2-4) by (simp add: fn_strncpy_def nat_le_iff)

lemma fn_strncpy_correct:
  assumes "0 \<notin> set s" "int (length s) < maxch" "nat maxch \<le> length out"
  shows "fn_strncpy out s maxch = Some (int (length s), blit out 0 (s @ [0]))"
  using fn_copy_correct [OF assms(1), of "nat maxch" 0 out] assms(2,3) by (simp add: fn_strncpy_def)

text \<open>A hit, and a miss whose result goes into the cache.\<close>

lemma m_sysfile_found:
  assumes "fn_holds c es" "List.find (fn_matches lname) es = Some e"
  shows "\<exists>c'. m_sysfile H lname fname maxch c = map_option (\<lambda>r. (r, c')) (fn_strncpy fname (fn_fname e) maxch)
    \<and> fn_holds c' (lru_hit (fn_matches lname) (\<lambda>e. e\<lparr>fn_nrefs := to_int (fn_nrefs e + 1)\<rparr>) es)"
proof -
  let ?P = "fn_matches lname" and ?g = "\<lambda>e. e\<lparr>fn_nrefs := to_int (fn_nrefs e + 1)\<rparr>"
  have h: "dl_holds (fn_list c) es" "2 \<le> length es" using assms(1) by (auto simp: fn_holds_def)
  obtain r where r: "dl_find ?P (fn_list c) (l_head (fn_list c)) = Some r" using dl_find_ends [OF h(1)] by auto
  with dl_missed [OF h] assms(2) obtain i where i: "r = Some i" by (cases r) auto
  obtain L' where L': "dl_tohead i (dl_unlink i (fn_list c)) = Some L'" "ent (slots L' ! i) = e"
    "dl_holds (set_ent i ?g L') (lru_hit ?P ?g es)" using dl_hit [OF h r [unfolded i], of ?g] assms(2) by auto
  have "length (lru_hit ?P ?g es) = MAX_FILES"
    using length_holds [OF L'(3)] length_holds [OF h(1)] length_tohead [OF L'(1)] assms(1) by (simp add: fn_holds_def)
  then show ?thesis using r i L'
    by (intro exI [of _ "c\<lparr>fn_list := set_ent i ?g L', fn_hits := to_int (fn_hits c + 1)\<rparr>"])
       (simp add: m_sysfile_def fn_holds_def fn_tohead_def fn_unlink_def)
qed

lemma m_sysfile_hit:
  assumes "fn_holds c es" "List.find (fn_matches lname) es = Some e"
    "0 \<notin> set (fn_fname e)" "int (length (fn_fname e)) < maxch" "nat maxch \<le> length fname"
  shows "\<exists>c'. m_sysfile H lname fname maxch c = Some ((int (length (fn_fname e)), blit fname 0 (fn_fname e @ [0])), c')
    \<and> fn_holds c' (lru_hit (fn_matches lname) (\<lambda>e. e\<lparr>fn_nrefs := to_int (fn_nrefs e + 1)\<rparr>) es)"
  using m_sysfile_found [OF assms(1,2), of H fname maxch] fn_strncpy_correct [OF assms(3-5)] by auto

lemma m_sysfile_miss:
  assumes "fn_holds c es" "List.find (fn_matches lname) es = None" "os_sysfile H lname fname maxch = Some (nc, b)"
  shows "if nc > int SZ_FNSLOT \<or> length lname > SZ_LNAME then
      \<exists>c'. m_sysfile H lname fname maxch c = Some ((nc, b), c') \<and> fn_holds c' es
    else if SZ_FNSLOT < length (cstr b) then m_sysfile H lname fname maxch c = None
    else \<exists>c'. m_sysfile H lname fname maxch c = Some ((nc, b), c')
      \<and> fn_holds c' ((last es)\<lparr>fn_lname := lname, fn_fname := cstr b, fn_sum := fn_chksum lname, fn_nrefs := 1\<rparr> # butlast es)"
proof -
  let ?P = "fn_matches lname"
  let ?g = "\<lambda>e. e\<lparr>fn_lname := lname, fn_fname := cstr b, fn_sum := fn_chksum lname, fn_nrefs := 1\<rparr>"
  have h: "dl_holds (fn_list c) es" "2 \<le> length es" "length es = MAX_FILES" using assms(1) by (auto simp: fn_holds_def)
  obtain r where r: "dl_find ?P (fn_list c) (l_head (fn_list c)) = Some r" using dl_find_ends [OF h(1)] by auto
  with dl_hit [OF h(1,2)] assms(2) have n: "r = None" by (cases r) fastforce+
  obtain i L' where L': "l_tail (fn_list c) = Some i" "dl_tohead i (dl_unlink i (fn_list c)) = Some L'"
    "dl_holds (set_ent i ?g L') (?g (last es) # butlast es)" using dl_missed [OF h(1,2) r [unfolded n]] by blast
  show ?thesis using r n L' assms(3) h by (auto simp: m_sysfile_def fn_holds_def fn_tohead_def fn_unlink_def)
qed

text \<open>The search finds the file \<open>p\<close>, and its name fits into the buffer.\<close>

definition serves :: "syshost \<Rightarrow> byte list \<Rightarrow> int \<Rightarrow> byte list \<Rightarrow> byte list \<Rightarrow> bool" where
  "serves H fname maxch lname p \<longleftrightarrow>
     (\<exists>b. os_sysfile H lname fname maxch = Some (int (length p), b) \<and> cstr b = p \<and> int (length p) < maxch)"

text \<open>A call of \<open>m_sysfile\<close>: the name, and the buffer and the size that the caller passes.\<close>

type_synonym syscall = "byte list \<times> byte list \<times> int"

definition lookup_sysfile :: "syshost \<Rightarrow> syscall \<Rightarrow> fncache \<Rightarrow> ((int \<times> byte list) \<times> fncache) option" where
  "lookup_sysfile H = (\<lambda>(lname, fname, maxch) c.
     map_option (\<lambda>((nc, b), c'). ((nc, cstr b), c')) (m_sysfile H lname fname maxch c))"

text \<open>The cache has for each of its names the file \<open>path lname\<close>.\<close>

definition fn_good :: "(byte list \<Rightarrow> byte list) \<Rightarrow> fncache \<Rightarrow> bool" where
  "fn_good path c \<longleftrightarrow> (\<exists>es. fn_holds c es
     \<and> (\<forall>e \<in> set es. fn_sum e = fn_chksum (fn_lname e) \<longrightarrow> fn_fname e = path (fn_lname e)))"

lemma serves_room: "serves H fname maxch lname p \<Longrightarrow> nat maxch \<le> length fname \<and> 0 \<notin> set p"
  by (auto simp: serves_def os_sysfile_def cstr_nonzero split: if_splits)

lemma lookup_good:
  assumes "fn_good path c" "serves H fname maxch lname (path lname)"
  shows "\<exists>c'. lookup_sysfile H (lname, fname, maxch) c = Some ((int (length (path lname)), path lname), c') \<and> fn_good path c'"
proof -
  let ?p = "path lname"
  obtain es where es: "fn_holds c es"
    "\<forall>e \<in> set es. fn_sum e = fn_chksum (fn_lname e) \<longrightarrow> fn_fname e = path (fn_lname e)"
    using assms(1) by (auto simp: fn_good_def)
  obtain b where b: "os_sysfile H lname fname maxch = Some (int (length ?p), b)" "cstr b = ?p" "int (length ?p) < maxch"
    using assms(2) by (auto simp: serves_def)
  show ?thesis
  proof (cases "List.find (fn_matches lname) es")
    case (Some e)
    then have e: "e \<in> set es" "fn_matches lname e" by (auto simp: find_Some_iff)
    then have "fn_fname e = ?p" using es(2) by (auto simp: fn_matches_def)
    then obtain c' where c': "m_sysfile H lname fname maxch c = Some ((int (length ?p), blit fname 0 (?p @ [0])), c')"
      "fn_holds c' (lru_hit (fn_matches lname) (\<lambda>e. e\<lparr>fn_nrefs := to_int (fn_nrefs e + 1)\<rparr>) es)"
      using m_sysfile_hit [OF es(1) Some, of maxch fname H] b(3) serves_room [OF assms(2)] by auto
    moreover have "fn_good path c'"
      unfolding fn_good_def using c'(2) lru_hit_set [of "fn_matches lname" _ es] es(2) by fastforce
    ultimately show ?thesis using serves_room [OF assms(2)] by (simp add: lookup_sysfile_def cstr_blit)
  next
    case None
    have "\<forall>e \<in> set ((last es)\<lparr>fn_lname := lname, fn_fname := ?p, fn_sum := fn_chksum lname, fn_nrefs := 1\<rparr> # butlast es).
        fn_sum e = fn_chksum (fn_lname e) \<longrightarrow> fn_fname e = path (fn_lname e)"
      using es(2) in_set_butlastD by fastforce
    note new = this and m = m_sysfile_miss [OF es(1) None b(1)]
    show ?thesis
    proof (cases "int (length ?p) > int SZ_FNSLOT \<or> length lname > SZ_LNAME")
      case True
      with m es b(2) show ?thesis by (auto simp: lookup_sysfile_def fn_good_def)
    next
      case False
      with m b(2) obtain c' where c': "m_sysfile H lname fname maxch c = Some ((int (length ?p), b), c')"
        "fn_holds c' ((last es)\<lparr>fn_lname := lname, fn_fname := ?p, fn_sum := fn_chksum lname, fn_nrefs := 1\<rparr> # butlast es)"
        by (auto split: if_splits)
      from c'(2) new have "fn_good path c'" unfolding fn_good_def by blast
      with c'(1) b(2) show ?thesis by (simp add: lookup_sysfile_def)
    qed
  qed
qed

interpretation fn: cached "lookup_sysfile H" "fn_good path" "\<lambda>(l, fname, maxch). (int (length (path l)), path l)"
    "\<lambda>(l, fname, maxch). serves H fname maxch l (path l)" for H path
  by unfold_locales (auto dest: lookup_good)

lemma m_fninit_holds:
  assumes "length (slots (fn_list c)) = MAX_FILES" "debug \<longrightarrow> fn_listing c = Some None"
  shows "\<exists>c' es. m_fninit debug c = Some c' \<and> fn_holds c' es \<and> (\<forall>e \<in> set es. fn_sum e \<noteq> fn_chksum (fn_lname e) \<and> fn_lname e = [])"
proof -
  have "fn_blank (fn_blank e) = fn_blank e" for e by (simp add: fn_blank_def)
  then obtain L es where L: "dl_init fn_blank MAX_FILES (fn_list c) = Some L" "dl_holds L es" "\<forall>e \<in> set es. fn_blank e = e"
      "length (slots L) = MAX_FILES" using dl_init_holds [OF assms(1), of fn_blank] by auto
  have "fn_sum e = - 1 \<and> fn_lname e = []" if "e \<in> set es" for e
  proof -
    have "fn_sum (fn_blank e) = - 1" "fn_lname (fn_blank e) = []" by (simp_all add: fn_blank_def)
    then show ?thesis using L(3) that by simp
  qed
  then have "\<forall>e \<in> set es. fn_sum e \<noteq> fn_chksum (fn_lname e) \<and> fn_lname e = []" by (simp add: fn_chksum_def)
  moreover have "fn_holds (c1\<lparr>fn_list := L\<rparr>) es" for c1 :: fncache using L(2,4) length_holds [OF L(2)] by (simp add: fn_holds_def)
  ultimately show ?thesis using L(1) assms(2) by (auto simp: m_fninit_def)
qed

text \<open>The listing overruns its array as soon as a name of 31 or 32 characters is in the cache.\<close>

lemma m_fninit_overrun:
  assumes "fn_holds c es" "e \<in> set es" "SZ_FNSLOT - 2 < length (fn_lname e)"
  shows "m_fninit True c = None"
proof -
  let ?P = "\<lambda>e. SZ_FNSLOT < length (fn_lname e) + 2"
  have h: "dl_holds (fn_list c) es" "2 \<le> length es" using assms(1) by (auto simp: fn_holds_def)
  have "List.find ?P es \<noteq> None" using assms(2,3) by (auto simp: find_None_iff)
  then have "dl_find ?P (fn_list c) (l_head (fn_list c)) \<noteq> Some None" using dl_missed [OF h, of ?P] by auto
  then show ?thesis by (simp add: m_fninit_def fn_listing_def)
qed

text \<open>
  C38: \<open>m_sysfile\<close> is functionally equivalent to \<open>os_sysfile\<close>, as its comment says, for the files that exist
  and whose names no caller's buffer cuts short.  The calls may pass buffers of different sizes; for each of them
  \<open>os_sysfile\<close> is to find the file with its whole name, so that the name is the same in every call.  Then from a
  cleared cache every sequence of such calls runs to its end, and leaves for each the name and the length that
  \<open>os_sysfile\<close> gives.  Where a buffer is too small for the name the equivalence does not hold (the next theorem).
\<close>

theorem m_sysfile_transparent:
  assumes "length (slots (fn_list c)) = MAX_FILES" "debug \<longrightarrow> fn_listing c = Some None"
    "\<forall>(lname, fname, maxch) \<in> set calls. serves H fname maxch lname (path lname)"
  shows "\<exists>c1 c2. m_fninit debug c = Some c1
    \<and> run_all (lookup_sysfile H) calls c1 = Some (map (\<lambda>(lname, fname, maxch). (int (length (path lname)), path lname)) calls, c2)"
proof -
  obtain c1 es where "m_fninit debug c = Some c1" "fn_holds c1 es" "\<forall>e \<in> set es. fn_sum e \<noteq> fn_chksum (fn_lname e)"
    using m_fninit_holds [OF assms(1,2)] by blast
  moreover from this(2,3) have "fn_good path c1" by (auto simp: fn_good_def)
  ultimately show ?thesis using fn.run_all_service [OF _ assms(3), of c1] by blast
qed

text \<open>
  C39: A name that is in the cache is copied to the caller's buffer without an EOS when it has as many characters as
  the caller has room for, or more: the first \<open>maxch\<close> bytes of the buffer are then characters of the name, and the
  result is one less than the characters copied.  (\<open>os_sysfile\<close> cuts the name and puts an EOS behind it.)
\<close>

theorem m_sysfile_hit_unterminated:
  assumes "fn_holds c es" "List.find (fn_matches lname) es = Some e" "0 \<notin> set (fn_fname e)"
    "1 \<le> maxch" "maxch \<le> int (length (fn_fname e))" "nat maxch \<le> length fname"
  shows "\<exists>b c'. m_sysfile H lname fname maxch c = Some ((maxch - 1, b), c')
    \<and> take (nat maxch) b = take (nat maxch) (fn_fname e) \<and> drop (nat maxch) b = drop (nat maxch) fname
    \<and> 0 \<notin> set (take (nat maxch) b)"
proof -
  let ?b = "blit fname 0 (take (nat maxch) (fn_fname e))"
  have n: "nat maxch \<le> length (fn_fname e)" using assms(5) by simp
  have b: "take (nat maxch) ?b = take (nat maxch) (fn_fname e)" "drop (nat maxch) ?b = drop (nat maxch) fname"
    using n assms(6) by (simp_all add: blit_def min_absorb2)
  have "fn_strncpy fname (fn_fname e) maxch = Some (maxch - 1, ?b)"
    using fn_strncpy_short [OF assms(3) _ assms(5,6)] assms(4) by simp
  moreover have "0 \<notin> set (take (nat maxch) (fn_fname e))" using assms(3) in_set_takeD by fastforce
  ultimately show ?thesis using m_sysfile_found [OF assms(1,2), of H fname maxch] b by auto
qed

text \<open>
  C40: A search that fails is remembered as one that succeeded: \<open>os_sysfile\<close> returns ERR, which is not
  greater than the size of a slot, and what it left in the buffer goes into the cache as the name of the
  file; the second look-up returns the length of that.  If it left more than a slot holds, the slot is
  overrun.
\<close>

theorem m_sysfile_failure_cached:
  assumes "fn_holds c es" "\<forall>e \<in> set es. fn_lname e \<noteq> lname" "os_sysfile H lname fname maxch = Some (- 1, b)"
    "length lname \<le> SZ_LNAME" "int (length (cstr b)) < maxch"
  shows "if SZ_FNSLOT < length (cstr b) then m_sysfile H lname fname maxch c = None
    else \<exists>c1 c2 b2. m_sysfile H lname fname maxch c = Some ((- 1, b), c1)
      \<and> m_sysfile H lname fname maxch c1 = Some ((int (length (cstr b)), b2), c2) \<and> cstr b2 = cstr b"
proof -
  have none: "List.find (fn_matches lname) es = None" using assms(2) by (auto simp: find_None_iff fn_matches_def)
  show ?thesis
  proof (cases "SZ_FNSLOT < length (cstr b)")
    case True
    with m_sysfile_miss [OF assms(1) none assms(3)] assms(4) show ?thesis by (simp split: if_splits)
  next
    case False
    let ?e = "(last es)\<lparr>fn_lname := lname, fn_fname := cstr b, fn_sum := fn_chksum lname, fn_nrefs := 1\<rparr>"
    obtain c1 where c1: "m_sysfile H lname fname maxch c = Some ((- 1, b), c1)" "fn_holds c1 (?e # butlast es)"
      using m_sysfile_miss [OF assms(1) none assms(3)] assms(4) False by (auto split: if_splits)
    have "List.find (fn_matches lname) (?e # butlast es) = Some ?e" by (simp add: fn_matches_def)
    moreover have "nat maxch \<le> length fname" using assms(3) by (auto simp: os_sysfile_def split: if_splits)
    ultimately obtain c2 where
      "m_sysfile H lname fname maxch c1 = Some ((int (length (cstr b)), blit fname 0 (cstr b @ [0])), c2)"
      using m_sysfile_hit [OF c1(2), of lname ?e maxch fname H] cstr_nonzero [of b] assms(5) by auto
    with c1(1) False cstr_blit [OF cstr_nonzero, of fname b] show ?thesis by auto
  qed
qed


text \<open>A host where the file of one character is in the library and no other is.\<close>

definition demo_host :: syshost where
  "demo_host = \<lparr>irafpath = (\<lambda>s. if s = [97] then [108, 47, 97] else s), pkglibs = None, os_access = (\<lambda>p. False)\<rparr>"

lemma demo_search_runs:
  "os_sysfile demo_host [97] (replicate 8 1) 8 = Some (3, [108, 47, 97, 0, 0, 0, 0, 0])"
  "os_sysfile demo_host [98] (replicate 8 1) 8 = Some (- 1, [98, 0, 0, 0, 0, 0, 0, 0])"
  "cstr [108, 47, 97, 0, 0, 0, 0, 0] = [108, 47, 97]" "cstr [98, 0, 0, 0, 0, 0, 0, 0] = [98]"
  by code_simp+

lemma demo_search: "serves demo_host (replicate 8 1) 8 [97] [108, 47, 97]"
  unfolding serves_def using demo_search_runs(1,3) by (intro exI [of _ "[108, 47, 97, 0, 0, 0, 0, 0]"]) simp

lemma demo_search_6: "os_sysfile demo_host [97] (replicate 9 1) 6 = Some (3, [108, 47, 97, 0, 0, 0, 1, 1, 1])"
  "cstr [108, 47, 97, 0, 0, 0, 1, 1, 1] = [108, 47, 97]"
  by code_simp+

theorem m_sysfile_transparent_witness:
  "\<exists>c1 c2. m_fninit True fn_static = Some c1
    \<and> run_all (lookup_sysfile demo_host) [([97], replicate 8 1, 8), ([97], replicate 9 1, 6)] c1
      = Some ([(3, [108, 47, 97]), (3, [108, 47, 97])], c2)"
proof -
  have "serves demo_host (replicate 9 1) 6 [97] [108, 47, 97]"
    unfolding serves_def using demo_search_6 by (intro exI [of _ "[108, 47, 97, 0, 0, 0, 1, 1, 1]"]) simp
  moreover have "fn_listing fn_static = Some None" by (simp add: fn_listing_def fn_static_def dl_find.simps)
  ultimately show ?thesis
    using m_sysfile_transparent [of fn_static True "[([97], replicate 8 1, 8), ([97], replicate 9 1, 6)]" demo_host "\<lambda>_. [108, 47, 97]"]
      demo_search by (simp add: fn_static_def)
qed

theorem m_sysfile_hit_unterminated_witness:
  "\<exists>c es b c'. fn_holds c es \<and> m_sysfile demo_host [97] [1, 1, 1, 1] 2 c = Some ((1, b), c') \<and> take 2 b = [108, 47]"
proof -
  obtain c0 es0 where c0: "fn_holds c0 es0" "\<forall>e \<in> set es0. fn_lname e = []"
    using m_fninit_holds [of fn_static False] by (auto simp: fn_static_def)
  then have none: "List.find (fn_matches [97]) es0 = None" by (auto simp: find_None_iff fn_matches_def)
  let ?e = "(last es0)\<lparr>fn_lname := [97], fn_fname := [108, 47, 97], fn_sum := fn_chksum [97], fn_nrefs := 1\<rparr>"
  obtain c where c: "fn_holds c (?e # butlast es0)"
    using m_sysfile_miss [OF c0(1) none demo_search_runs(1)] demo_search_runs(3) by (auto split: if_splits)
  have "List.find (fn_matches [97]) (?e # butlast es0) = Some ?e" by (simp add: fn_matches_def)
  from m_sysfile_hit_unterminated [OF c this, of 2 "[1, 1, 1, 1]" demo_host] c show ?thesis by auto
qed

theorem m_sysfile_failure_cached_witness:
  "\<exists>c c1 c2 b1 b2. m_fninit False fn_static = Some c \<and> m_sysfile demo_host [98] (replicate 8 1) 8 c = Some ((- 1, b1), c1)
    \<and> m_sysfile demo_host [98] (replicate 8 1) 8 c1 = Some ((1, b2), c2)"
proof -
  obtain c es where c: "m_fninit False fn_static = Some c" "fn_holds c es" "\<forall>e \<in> set es. fn_lname e = []"
    using m_fninit_holds [of fn_static False] by (auto simp: fn_static_def)
  then have "\<forall>e \<in> set es. fn_lname e \<noteq> [98]" by simp
  from m_sysfile_failure_cached [OF c(2) this demo_search_runs(2)] c(1) demo_search_runs(4) show ?thesis by auto
qed

end
