(* ===== verification/Mk_Macro.thy ===== *)
theory Mk_Macro
  imports Mk_Char Mk_Fncache Libc_Ctype
begin

text \<open>
  The macros of \<open>mkpkg\<close>: the string buffer (\<open>putstr\<close> of \<open>char.c\<close>), the symbol table (\<open>putsym\<close>, \<open>getsym\<close>,
  \<open>mklower\<close> of \<open>tok.c\<close>), and the reading of characters with their references \<open>$(name)\<close> expanded (\<open>m_getc\<close>).
\<close>

subsection \<open>The string buffer and the symbol table\<close>

abbreviation SZ_SBUF :: nat where "SZ_SBUF \<equiv> 10240"
abbreviation MAX_SYMBOLS :: nat where "MAX_SYMBOLS \<equiv> 256"

text \<open>Strings and symbols are pointers into \<open>sbuf\<close>; a symbol is a name and a value.\<close>

record mksyms =
  sbuf :: mem
  cp :: nat
  symtab :: "(nat \<times> nat) list"

fun putstr_copy :: "byte list \<Rightarrow> nat \<Rightarrow> mem \<Rightarrow> (nat \<times> mem) mk" where
  "putstr_copy [] op buf = Inl Fault"
| "putstr_copy (c # ip) op buf =
     (if length buf \<le> op then Inl Fault
      else
        let buf = buf[op := c]; op = op + 1 in
        if c = 0 then Inr (op, buf) else if SZ_SBUF \<le> op then Inl Fatal else putstr_copy ip op buf)"

definition putstr :: "byte list \<Rightarrow> mksyms \<Rightarrow> (nat \<times> mksyms) mk" where
  "putstr s st =
     (let start = cp st in
      bindm (putstr_copy (s @ [0]) (cp st) (sbuf st)) (\<lambda>(op, buf). Inr (start, st\<lparr>cp := op, sbuf := buf\<rparr>)))"

fun lower_loop :: "int \<Rightarrow> byte list \<Rightarrow> byte list" where
  "lower_loop n [] = []"
| "lower_loop n (c # ip) =
     (if n - 1 \<ge> 0
      then (if isupper (sint c) then word_of_int (tolower (sint c)) else c) # lower_loop (n - 1) ip
      else [])"

definition mklower :: "byte list \<Rightarrow> byte list" where
  "mklower s = lower_loop (int SZ_FNAME) s"

definition putsym :: "byte list \<Rightarrow> byte list \<Rightarrow> mksyms \<Rightarrow> mksyms mk" where
  "putsym name val st =
     (if MAX_SYMBOLS \<le> length (symtab st) then Inl Fault
      else
        bindm (putstr (mklower name) st) (\<lambda>(s_name, st).
        bindm (putstr val st) (\<lambda>(s_value, st).
        let st = st\<lparr>symtab := symtab st @ [(s_name, s_value)]\<rparr> in
        if MAX_SYMBOLS \<le> length (symtab st) then Inl Fatal else Inr st)))"

definition str_at :: "mem \<Rightarrow> nat \<Rightarrow> byte list option" where
  "str_at m p = (if 0 \<in> set (drop p m) then Some (takeWhile (\<lambda>c. c \<noteq> 0) (drop p m)) else None)"

text \<open>The table is searched from its end; the last argument is the table in reverse.\<close>

fun getsym_loop :: "mem \<Rightarrow> byte list \<Rightarrow> (nat \<times> nat) list \<Rightarrow> nat option mk" where
  "getsym_loop buf symbol [] = Inr None"
| "getsym_loop buf symbol ((s_name, s_value) # sp) =
     (case rd buf s_name of None \<Rightarrow> Inl Fault
      | Some c \<Rightarrow>
          if c = (case symbol of [] \<Rightarrow> 0 | ch # _ \<Rightarrow> ch)
          then (case str_at buf s_name of None \<Rightarrow> Inl Fault
                | Some s \<Rightarrow> if s = symbol then Inr (Some s_value) else getsym_loop buf symbol sp)
          else getsym_loop buf symbol sp)"

definition getsym :: "byte list \<Rightarrow> mksyms \<Rightarrow> nat option mk" where
  "getsym name st = getsym_loop (sbuf st) (mklower name) (rev (symtab st))"

subsection \<open>Macros\<close>

abbreviation SZ_CMD :: nat where "SZ_CMD \<equiv> 2048"

text \<open>
  What a macro reference looks at: the symbol table, the environment, the files of the host, and whether the
  \<open>mkpkg\<close> file is itself the standard input.  \<open>me_symbol\<close> is what the automatic array \<open>symbol\<close>, which a definition in a
  directive is read into, held before.
\<close>

record mkenv =
  me_syms :: mksyms
  me_getenv :: "byte list \<Rightarrow> byte list option"
  me_file :: "byte list \<Rightarrow> byte list option"
  me_stdin :: bool
  me_symbol :: "byte list"

text \<open>The extraction of the name, into \<open>name\<close> at \<open>op\<close>; the truth value tells that the parenthesis is missing.\<close>

function read_name :: "nat \<Rightarrow> mem \<Rightarrow> mkctx \<Rightarrow> (mem \<times> bool \<times> mkctx) mk" where
  "read_name op name cx =
     (case m_rawgetc cx of Inl e \<Rightarrow> Inl e
      | Inr (ch, cx) \<Rightarrow>
          if length name \<le> op then Inl Fault
          else
            let c = word_of_int ch; name = name[op := c] in
            if c = 41 then Inr (name[op := 0], False, cx)
            else if c = 10 \<or> sint c = EOF then
              (if length name \<le> op + 1 then Inl Fault else Inr (name[op := 10, op + 1 := 0], True, cx))
            else read_name (op + 1) name cx)"
  by pat_completeness auto
termination
  by (relation "measure (\<lambda>(op, name, cx). length name - op)") auto

declare read_name.simps [simp del]

fun drop_blanks_end :: "byte list \<Rightarrow> byte list" where
  "drop_blanks_end lbuf = rev (dropWhile (\<lambda>c. isspace (sint c)) (rev lbuf))"

definition fgets_line :: "nat \<Rightarrow> byte list \<Rightarrow> byte list \<times> byte list" where
  "fgets_line n inp =
     (let l = takeWhile (\<lambda>c. c \<noteq> 10) inp; l = (if length l < length inp then l @ [10] else l); l = take (n - 1) l
      in (l, drop (length l) inp))"

text \<open>The value of the macro \<open>name\<close>, and what is left of the standard input.\<close>

definition macro_value :: "mkenv \<Rightarrow> byte list \<Rightarrow> byte list \<Rightarrow> (byte list \<times> byte list) mk" where
  "macro_value E name inp =
     (let c = (case name of [] \<Rightarrow> 0 | c # _ \<Rightarrow> c) in
      if c = 63 then
        (if me_stdin E then Inr (tl name, inp)
         else if inp = [] then Inr (takeWhile (\<lambda>c. c \<noteq> 10) name, inp)
         else (let (l, inp) = fgets_line SZ_CMD inp in Inr (takeWhile (\<lambda>c. c \<noteq> 10) (cstr l), inp)))
      else if c = 64 then
        (case me_file E (tl name) of None \<Rightarrow> Inr (tl name, inp)
         | Some txt \<Rightarrow> Inr (cstr (drop_blanks_end (map (\<lambda>c. if isspace (uint c) then 32 else c) (take SZ_CMD txt))), inp))
      else
        bindm (getsym name (me_syms E)) (\<lambda>v.
        case v of
          Some p \<Rightarrow> (case str_at (sbuf (me_syms E)) p of None \<Rightarrow> Inl Fault | Some val \<Rightarrow> Inr (val, inp))
        | None \<Rightarrow> Inr (case me_getenv E name of None \<Rightarrow> name | Some val \<Rightarrow> val, inp)))"

definition untab :: "int \<Rightarrow> int" where
  "untab ch = (if ch = 9 then 32 else ch)"

text \<open>One turn of the loop of \<open>m_getc\<close>: the character it returns, or the context in which the next turn begins.\<close>

definition getc_turn :: "mkenv \<Rightarrow> pushback \<Rightarrow> mkctx \<Rightarrow> (int \<times> mkctx + mkctx) mk" where
  "getc_turn E junk cx =
     bindm (m_rawgetc cx) (\<lambda>(ch, cx).
     if ch \<noteq> 36 then Inr (Inl (untab ch, cx))
     else
       bindm (m_rawgetc cx) (\<lambda>(nch, cx).
       if nch = 36 then Inr (Inl (nch, cx))
       else if nch \<noteq> 40 then bindm (m_ungetc junk nch cx) (\<lambda>cx. Inr (Inl (untab ch, cx)))
       else
         bindm (read_name 0 (replicate (SZ_FNAME + 1) 0) cx) (\<lambda>(name, missing, cx).
         bindm (if missing then Inr (cstr name, typed_in cx) else macro_value E (cstr name) (typed_in cx)) (\<lambda>(val, inp).
         bindm (m_pushstr junk val (cx\<lparr>typed_in := inp\<rparr>)) (\<lambda>cx. Inr (Inr cx))))))"

partial_function (option) m_getc :: "mkenv \<Rightarrow> pushback \<Rightarrow> mkctx \<Rightarrow> (int \<times> mkctx) mk option" where
  "m_getc E junk cx =
     (case getc_turn E junk cx of
        Inl e \<Rightarrow> Some (Inl e)
      | Inr (Inl r) \<Rightarrow> Some (Inr r)
      | Inr (Inr cx) \<Rightarrow> m_getc E junk cx)"

declare m_getc.simps [code]

subsection \<open>The symbol table is a map\<close>

lemma isupper_iff:
  assumes "- 2147483648 \<le> c" "c < 2147483648"
  shows "isupper c \<longleftrightarrow> 65 \<le> c \<and> c \<le> 90"
  unfolding isupper_def
proof (rule ascii_table [OF _ assms])
  show "list_all (\<lambda>k. ct_class ct_U (int k) = (65 \<le> int k \<and> int k \<le> 90)) [0..<128]" by code_simp
qed auto

definition sym_at :: "mem \<Rightarrow> nat \<Rightarrow> nat \<Rightarrow> byte list \<Rightarrow> bool" where
  "sym_at buf hi p s \<longleftrightarrow> kstr_at buf p s \<and> p + length s < hi"

definition syms_rep :: "mksyms \<Rightarrow> (byte list \<times> byte list) list \<Rightarrow> bool" where
  "syms_rep st l \<longleftrightarrow> length (sbuf st) = SZ_SBUF \<and> cp st \<le> SZ_SBUF \<and> length (symtab st) < MAX_SYMBOLS
     \<and> list_all2 (\<lambda>(n, v) (s, t). sym_at (sbuf st) (cp st) n s \<and> sym_at (sbuf st) (cp st) v t) (symtab st) l"

lemma str_at_kstr: "kstr_at m p s \<Longrightarrow> str_at m p = Some s"
proof (induction s arbitrary: p)
  case (Cons c s)
  have "str_at m (Suc p) = Some s" using Cons by simp
  with Cons.prems show ?case by (auto simp: str_at_def Cons_nth_drop_Suc [symmetric] split: if_splits)
qed (auto simp: str_at_def Cons_nth_drop_Suc [symmetric])

lemma rd_kstr: "kstr_at m p s \<Longrightarrow> rd m p = Some (case s of [] \<Rightarrow> 0 | c # _ \<Rightarrow> c)"
  by (cases s) auto

lemma getsym_loop_correct:
  assumes "list_all2 (\<lambda>(n, v) (s, t). sym_at buf hi n s \<and> sym_at buf hi v t) tab l"
  shows "\<exists>r. getsym_loop buf q tab = Inr r \<and> (case r of None \<Rightarrow> map_of l q = None | Some p \<Rightarrow> \<exists>t. map_of l q = Some t \<and> sym_at buf hi p t)"
  using assms
proof (induction tab l rule: list_all2_induct)
  case (Cons x tab y l)
  obtain n v s t where x: "x = (n, v)" "y = (s, t)" by (cases x; cases y)
  have k: "kstr_at buf n s" "sym_at buf hi v t" using Cons.hyps x by (auto simp: sym_at_def)
  show ?case
  proof (cases "s = q")
    case True
    then show ?thesis using x k rd_kstr [OF k(1)] str_at_kstr [OF k(1)] by auto
  next
    case False
    then have "getsym_loop buf q (x # tab) = getsym_loop buf q tab"
      using x rd_kstr [OF k(1)] str_at_kstr [OF k(1)] by simp
    with Cons.IH x False show ?thesis by (auto cong: option.case_cong)
  qed
qed simp

lemma getsym_correct:
  assumes "syms_rep st l"
  shows "\<exists>r. getsym name st = Inr r \<and> (case r of None \<Rightarrow> map_of (rev l) (mklower name) = None
    | Some p \<Rightarrow> \<exists>t. map_of (rev l) (mklower name) = Some t \<and> str_at (sbuf st) p = Some t)"
proof -
  have "list_all2 (\<lambda>(n, v) (s, t). sym_at (sbuf st) (cp st) n s \<and> sym_at (sbuf st) (cp st) v t) (rev (symtab st)) (rev l)"
    using assms by (simp add: syms_rep_def)
  from getsym_loop_correct [OF this] show ?thesis
    unfolding getsym_def sym_at_def using str_at_kstr by (fastforce split: option.splits)
qed

lemma putstr_copy_correct:
  assumes "length buf = SZ_SBUF" "op + length s < SZ_SBUF" "0 \<notin> set s"
  shows "putstr_copy (s @ [0]) op buf = Inr (op + length s + 1, blit buf op (s @ [0]))"
  using assms
proof (induction s arbitrary: op buf)
  case Nil
  then show ?case by (simp add: blit_def upd_conv_take_nth_drop)
next
  case (Cons c s)
  have "blit (buf[op := c]) (op + 1) (s @ [0]) = blit buf op (c # s @ [0])"
    using Cons.prems by (simp add: blit_def take_Suc_conv_app_nth drop_update_cancel upd_conv_take_nth_drop add.commute)
  with Cons.IH [of "buf[op := c]" "op + 1"] Cons.prems show ?case by simp
qed

lemma sym_at_blit:
  "sym_at buf hi p s \<Longrightarrow> hi + length bs \<le> length buf \<Longrightarrow> hi \<le> hi' \<Longrightarrow> sym_at (blit buf hi bs) hi' p s"
  unfolding sym_at_def by (auto intro: kstr_at_blit)

lemma putstr_correct:
  assumes "length (sbuf st) = SZ_SBUF" "cp st + length s < SZ_SBUF" "0 \<notin> set s"
  shows "putstr s st = Inr (cp st, st\<lparr>cp := cp st + length s + 1, sbuf := blit (sbuf st) (cp st) (s @ [0])\<rparr>)"
  using putstr_copy_correct [OF assms] by (simp add: putstr_def)

lemma kstr_at_put: "p + length s < length buf \<Longrightarrow> 0 \<notin> set s \<Longrightarrow> kstr_at (blit buf p (s @ [0])) p s"
  using slice_blit_same [of p "s @ [0]" buf] by (simp add: kstr_at_def blit_simps)

lemma lower_loop_nz: "0 \<notin> set s \<Longrightarrow> 0 \<notin> set (lower_loop n s)"
proof (induction s arbitrary: n)
  case (Cons c s)
  have "(word_of_int (tolower (sint c)) :: byte) \<noteq> 0" if "isupper (sint c)"
  proof
    assume "(word_of_int (tolower (sint c)) :: byte) = 0"
    then have "uint (word_of_int (tolower (sint c)) :: byte) = uint (0 :: byte)" by (rule arg_cong)
    then have "(sint c + 32) mod 256 = 0" unfolding uint_word_of_int_byte tolower_def by (simp add: add.commute)
    with that isupper_iff [of "sint c"] show False by (simp add: mod_pos_pos_trivial)
  qed
  with Cons show ?case by auto
qed simp

lemma length_lower_loop: "length (lower_loop n s) \<le> length s"
  by (induction n s rule: lower_loop.induct) auto

lemma putsym_correct:
  assumes "syms_rep st l" "0 \<notin> set name" "0 \<notin> set val" "length (symtab st) < MAX_SYMBOLS - 1"
    "cp st + length (mklower name) + length val + 1 < SZ_SBUF"
  shows "\<exists>st'. putsym name val st = Inr st' \<and> syms_rep st' (l @ [(mklower name, val)])
    \<and> cp st' = cp st + length (mklower name) + length val + 2 \<and> length (symtab st') = length (symtab st) + 1
    \<and> take (cp st) (sbuf st') = take (cp st) (sbuf st) \<and> take (length (symtab st)) (symtab st') = symtab st"
proof -
  let ?n = "mklower name"
  have nz: "0 \<notin> set ?n" unfolding mklower_def by (rule lower_loop_nz [OF assms(2)])
  have st: "length (sbuf st) = SZ_SBUF" "cp st \<le> SZ_SBUF"
    "list_all2 (\<lambda>(n, v) (s, t). sym_at (sbuf st) (cp st) n s \<and> sym_at (sbuf st) (cp st) v t) (symtab st) l"
    using assms(1) by (auto simp: syms_rep_def)
  let ?b1 = "blit (sbuf st) (cp st) (?n @ [0])"
  let ?c1 = "cp st + length ?n + 1"
  let ?b2 = "blit ?b1 ?c1 (val @ [0])"
  let ?c2 = "?c1 + length val + 1"
  let ?st' = "st\<lparr>cp := ?c2, sbuf := ?b2, symtab := symtab st @ [(cp st, ?c1)]\<rparr>"
  have len: "length ?b1 = SZ_SBUF" "length ?b2 = SZ_SBUF" using st assms(5) by (simp_all add: blit_simps)
  have 1: "sym_at ?b1 ?c1 (cp st) ?n" using st(1) assms(5) nz by (simp add: sym_at_def kstr_at_put)
  have 2: "sym_at ?b2 ?c2 (cp st) ?n" by (rule sym_at_blit [OF 1]) (use len assms(5) in auto)
  have 3: "sym_at ?b2 ?c2 ?c1 val" using len assms(3,5) by (simp add: sym_at_def kstr_at_put)
  have up: "sym_at ?b2 ?c2 p s" if "sym_at (sbuf st) (cp st) p s" for p s
    by (rule sym_at_blit [OF sym_at_blit [OF that]]) (use st len assms(5) in auto)
  have "list_all2 (\<lambda>(n, v) (s, t). sym_at ?b2 ?c2 n s \<and> sym_at ?b2 ?c2 v t) (symtab st) l"
    using st(3) by (rule list_all2_mono) (use up in fastforce)
  then have "syms_rep ?st' (l @ [(?n, val)])"
    using 2 3 len assms(4,5) by (auto simp: syms_rep_def list_all2_appendI)
  moreover have "putsym name val st = Inr ?st'"
  proof -
    have p1: "putstr ?n st = Inr (cp st, st\<lparr>cp := ?c1, sbuf := ?b1\<rparr>)"
      by (rule putstr_correct [OF st(1) _ nz]) (use assms(5) in simp)
    have p2: "putstr val (st\<lparr>cp := ?c1, sbuf := ?b1\<rparr>) = Inr (?c1, st\<lparr>cp := ?c1, sbuf := ?b1\<rparr>\<lparr>cp := ?c2, sbuf := ?b2\<rparr>)"
      by (subst putstr_correct [OF _ _ assms(3)]) (use assms(5) len in simp_all)
    show ?thesis using assms(4) by (simp add: putsym_def p1 p2 [simplified])
  qed
  moreover have "take (cp st) ?b2 = take (cp st) (sbuf st)"
    using st(1) assms(5) by (simp add: blit_def)
  ultimately show ?thesis by (intro exI [of _ ?st']) simp
qed


definition symbol_value :: "mksyms \<Rightarrow> byte list \<Rightarrow> byte list option" where
  "symbol_value st name = (case getsym name st of Inr (Some p) \<Rightarrow> str_at (sbuf st) p | _ \<Rightarrow> None)"

lemma symbol_value_correct: "syms_rep st l \<Longrightarrow> symbol_value st name = map_of (rev l) (mklower name)"
  using getsym_correct [of st l name] by (auto simp: symbol_value_def split: option.splits)

lemma sym_at_take:
  assumes "sym_at buf hi p s" "take hi buf' = take hi buf" "length buf' = length buf"
  shows "sym_at buf' hi p s"
proof -
  have "buf' ! i = buf ! i" if "i \<le> p + length s" for i
  proof -
    have "i < hi" using that assms(1) by (simp add: sym_at_def)
    then show ?thesis using arg_cong [OF assms(2), of "\<lambda>l. l ! i"] by simp
  qed
  then show ?thesis using assms(1,3) by (auto simp: sym_at_def intro: kstr_at_cong)
qed

lemma syms_rep_restore:
  assumes "syms_rep st l" "syms_rep st' l'" "take (cp st) (sbuf st') = take (cp st) (sbuf st)"
    "take (length (symtab st)) (symtab st') = symtab st"
  shows "syms_rep (st'\<lparr>cp := cp st, symtab := take (length (symtab st)) (symtab st')\<rparr>) l"
proof -
  have len: "length (sbuf st') = length (sbuf st)" using assms(1,2) by (simp add: syms_rep_def)
  have "list_all2 (\<lambda>(n, v) (s, t). sym_at (sbuf st') (cp st) n s \<and> sym_at (sbuf st') (cp st) v t) (symtab st) l"
    using assms(1) unfolding syms_rep_def
    by (elim conjE list_all2_mono) (use sym_at_take [OF _ assms(3) len] in fastforce)
  then show ?thesis using assms(1,4) len by (simp add: syms_rep_def)
qed

text \<open>
  C19: a symbol that \<open>putsym\<close> defines is found by \<open>getsym\<close>, in whatever case it is asked for, and shadows the
  symbols of the same name; all others keep their values.  When \<open>cp\<close> and \<open>nsymbols\<close> are restored, as \<open>do_call\<close>
  does when it returns, every symbol has the value that it had before.
\<close>

theorem getsym_putsym:
  assumes "syms_rep st l" "0 \<notin> set name" "0 \<notin> set val" "length (symtab st) < MAX_SYMBOLS - 1"
    "cp st + length (mklower name) + length val + 1 < SZ_SBUF"
  shows "\<exists>st'. putsym name val st = Inr st'
    \<and> (\<forall>q. symbol_value st' q = (if mklower q = mklower name then Some val else symbol_value st q))
    \<and> (\<forall>q. symbol_value (st'\<lparr>cp := cp st, symtab := take (length (symtab st)) (symtab st')\<rparr>) q = symbol_value st q)"
proof -
  obtain st' where st': "putsym name val st = Inr st'" "syms_rep st' (l @ [(mklower name, val)])"
    "take (cp st) (sbuf st') = take (cp st) (sbuf st)" "take (length (symtab st)) (symtab st') = symtab st"
    using putsym_correct [OF assms] by auto
  note rep = syms_rep_restore [OF assms(1) st'(2-4)]
  show ?thesis
    using st'(1) by (auto simp: symbol_value_correct [OF assms(1)] symbol_value_correct [OF st'(2)] symbol_value_correct [OF rep])
qed

text \<open>An empty symbol table, and the symbol \<open>XFLAGS\<close> in it.\<close>

definition demo_syms :: mksyms where
  "demo_syms = \<lparr>sbuf = replicate SZ_SBUF 7, cp = 0, symtab = []\<rparr>"

lemma demo_syms_rep: "syms_rep demo_syms []"
  by (simp add: syms_rep_def demo_syms_def)

theorem getsym_putsym_witness:
  "\<exists>st'. putsym [88, 70] [45, 79] demo_syms = Inr st' \<and> symbol_value st' [120, 70] = Some [45, 79]"
proof -
  have l: "mklower [88, 70] = mklower [120, 70]" by code_simp
  then show ?thesis
    using getsym_putsym [OF demo_syms_rep, of "[88, 70]" "[45, 79]"]
    by (fastforce simp: demo_syms_def mklower_def intro: le_less_trans [OF length_lower_loop])
qed

end
