(* ===== verification/Mk_Getc.thy ===== *)
theory Mk_Getc imports Mk_Macro Libc_Strings
begin

text \<open>
  What \<open>m_getc\<close> reads: a specification of the expansion of references on the flat input, without the stack
  of pushed back strings, and the proof that the code implements it and always ends.
\<close>

subsection \<open>How much is left to read\<close>

text \<open>
  Every reference that is expanded makes what is left to read smaller in this measure: a character of a string
  weighs more than all that may be pushed back above it.
\<close>

abbreviation depth_weight :: "nat \<Rightarrow> nat" where "depth_weight d \<equiv> 2048 ^ (24 - d)"

fun strs_weight :: "byte list list \<Rightarrow> nat" where
  "strs_weight [] = 0"
| "strs_weight (s # ss) = length s * depth_weight (length ss + 1) + strs_weight ss"

definition weight :: "byte list list \<Rightarrow> byte list \<Rightarrow> nat" where
  "weight ss f = strs_weight ss + length f * depth_weight 0"

lemma weight_pull:
  "pull ss f = (c, ss', f') \<Longrightarrow> (concat ss = [] \<and> f = [] \<and> c = EOF \<and> ss' = [] \<and> f' = [])
     \<or> weight ss' f' + depth_weight (length ss') \<le> weight ss f \<and> map sint (concat ss) @ map uint f = c # map sint (concat ss') @ map uint f'
       \<and> set (concat ss') \<union> set f' \<subseteq> set (concat ss) \<union> set f"
proof (induction ss f rule: pull.induct)
  case (3 a s ss f)
  then have "depth_weight (length ss') \<le> depth_weight (length ss + 1)" by (auto intro: power_increasing)
  then show ?case using 3 by (auto simp: weight_def)
qed (auto simp: weight_def)

lemma cx_strs_depth: "cx_strs cx ss \<Longrightarrow> length ss \<le> 23"
proof -
  assume "cx_strs cx ss"
  then have "cx_pb cx = None \<and> ss = [] \<or> (\<exists>pb. cx_pb cx = Some pb \<and> pb_ok pb \<and> npb pb = 2 * length ss)"
    by (auto simp: cx_strs_def dest: pb_rep_n split: option.splits)
  then show ?thesis by (auto simp: pb_ok_def)
qed

lemma weight_push:
  assumes "length ss < 23" "length v < 2048"
  shows "weight (v # ss) f < weight ss f + depth_weight (length ss)"
proof -
  have "depth_weight (length ss) = 2048 * depth_weight (length ss + 1)"
    using assms(1) by (simp add: Suc_diff_le flip: power_Suc)
  then show ?thesis using assms(2) by (simp add: weight_def)
qed


subsection \<open>The name of a macro\<close>

definition name_char :: "int \<Rightarrow> bool" where
  "name_char c \<longleftrightarrow> (word_of_int c :: byte) \<notin> {41, 10, 255}"

lemma cstr_app0 [simp]: "cstr (xs @ 0 # ys) = cstr xs"
  by (induction xs) (auto simp: cstr_def)

lemma sint_byte_eof: "sint (c :: byte) = EOF \<longleftrightarrow> c = 255"
  using sint_byte_inj [of c 255] by simp

text \<open>
  What \<open>read_name\<close> has done: the characters \<open>nm\<close> of the name and the character \<open>t\<close> that ends it are read, unless
  the input ended first; it runs over the end of \<open>name\<close> when there are too many.
\<close>

definition name_ends :: "mkctx \<Rightarrow> byte list list \<Rightarrow> int list \<Rightarrow> bool \<Rightarrow> mkctx \<Rightarrow> byte list list \<Rightarrow> bool" where
  "name_ends cx ss nm missing cx' ss' \<longleftrightarrow> missing \<and> unread cx ss = nm \<and> unread cx' ss' = []
     \<or> (\<exists>t. unread cx ss = nm @ t # unread cx' ss' \<and> word_of_int t \<in> (if missing then {10, 255} else {41 :: byte})
          \<and> weight ss' (cx_file cx') + depth_weight (length ss') \<le> weight ss (cx_file cx))"

definition name_read :: "nat \<Rightarrow> mem \<Rightarrow> mkctx \<Rightarrow> byte list list \<Rightarrow> (mem \<times> bool \<times> mkctx) mk \<Rightarrow> bool" where
  "name_read op name cx ss r \<longleftrightarrow> (case r of
       Inl e \<Rightarrow> e = Fault \<and> (\<exists>nm q. unread cx ss = nm @ q \<and> list_all name_char nm \<and> length name \<le> op + length nm + 1)
     | Inr (name', missing, cx') \<Rightarrow> \<exists>nm ss'. list_all name_char nm \<and> cx_strs cx' ss' \<and> pbchar cx' = 0 \<and> typed_in cx' = typed_in cx
         \<and> cstr name' = cstr (take op name @ map word_of_int nm @ (if missing then [10] else []))
         \<and> name_ends cx ss nm missing cx' ss')"

lemma name_read_InlI:
  "unread cx ss = nm @ q \<Longrightarrow> list_all name_char nm \<Longrightarrow> length name \<le> op + length nm + 1 \<Longrightarrow> name_read op name cx ss (Inl Fault)"
  by (auto simp: name_read_def)

lemma name_read_InrI:
  "list_all name_char nm \<Longrightarrow> cx_strs cx' ss' \<Longrightarrow> pbchar cx' = 0 \<Longrightarrow> typed_in cx' = typed_in cx \<Longrightarrow>
   cstr name' = cstr (take op name @ map word_of_int nm @ (if missing then [10] else [])) \<Longrightarrow>
   name_ends cx ss nm missing cx' ss' \<Longrightarrow> name_read op name cx ss (Inr (name', missing, cx'))"
  unfolding name_read_def by (simp only: sum.case prod.case) blast

lemma name_read_step:
  assumes "name_read (op + 1) (name[op := word_of_int c]) cx1 ss1 r" "op < length name" "name_char c"
    "unread cx ss = c # unread cx1 ss1" "weight ss1 (cx_file cx1) \<le> weight ss (cx_file cx)" "typed_in cx1 = typed_in cx"
  shows "name_read op name cx ss r"
proof (cases r)
  case (Inl e)
  then obtain nm q where "e = Fault" "unread cx1 ss1 = nm @ q" "list_all name_char nm" "length name \<le> op + 1 + length nm + 1"
    using assms(1) by (auto simp: name_read_def)
  with Inl assms(3,4) show ?thesis using name_read_InlI [of cx ss "c # nm" q name op] by simp
next
  case (Inr x)
  obtain name' missing cx' where x: "x = (name', missing, cx')" by (cases x)
  have t: "take (op + 1) (name[op := word_of_int c]) = take op name @ [word_of_int c]"
    using assms(2) by (simp add: take_Suc_conv_app_nth)
  obtain nm ss' where nm: "list_all name_char nm" "cx_strs cx' ss'" "pbchar cx' = 0" "typed_in cx' = typed_in cx1"
    "cstr name' = cstr ((take op name @ [word_of_int c]) @ map word_of_int nm @ (if missing then [10] else []))"
    "name_ends cx1 ss1 nm missing cx' ss'"
    using assms(1) unfolding name_read_def t Inr x by auto
  have "name_ends cx ss (c # nm) missing cx' ss'" using nm(6) assms(4,5) by (fastforce simp: name_ends_def)
  with nm assms(3,6) show ?thesis
    unfolding Inr x by (intro name_read_InrI [of "c # nm" _ ss']) simp_all
qed

lemma m_rawgetc_first:
  assumes "cx_strs cx ss" "pbchar cx = 0"
  obtains c cx1 ss1 where "m_rawgetc cx = Inr (c, cx1)" "cx_strs cx1 ss1" "pbchar cx1 = 0" "typed_in cx1 = typed_in cx"
    "unread cx ss = [] \<and> c = EOF \<and> unread cx1 ss1 = [] \<or> unread cx ss = c # unread cx1 ss1
      \<and> weight ss1 (cx_file cx1) + depth_weight (length ss1) \<le> weight ss (cx_file cx)"
proof -
  obtain c ss1 f1 where p: "pull ss (cx_file cx) = (c, ss1, f1)" by (cases "pull ss (cx_file cx)")
  from m_rawgetc_pull [OF assms p] obtain cx1 where cx1: "m_rawgetc cx = Inr (c, cx1)" "cx_strs cx1 ss1" "pbchar cx1 = 0"
    "cx_file cx1 = f1" "typed_in cx1 = typed_in cx" by blast
  show ?thesis by (rule that [OF cx1(1,2,3,5)]) (use weight_pull [OF p] assms(2) cx1(3,4) in \<open>auto simp: unread_def\<close>)
qed

lemma read_name_correct:
  assumes "cx_strs cx ss" "pbchar cx = 0" "op \<le> length name"
  shows "name_read op name cx ss (read_name op name cx)"
  using assms
proof (induction "length name - op" arbitrary: op name cx ss)
  case 0
  obtain c cx1 where "m_rawgetc cx = Inr (c, cx1)" using m_rawgetc_first [OF 0(2,3)] by metis
  with 0 have "read_name op name cx = Inl Fault" by (simp add: read_name.simps [of op])
  moreover have "name_read op name cx ss (Inl Fault)"
    using 0 by (intro name_read_InlI [of _ _ "[]"]) auto
  ultimately show ?case by simp
next
  case (Suc n)
  obtain c cx1 ss1 where cx1: "m_rawgetc cx = Inr (c, cx1)" "cx_strs cx1 ss1" "pbchar cx1 = 0" "typed_in cx1 = typed_in cx"
    and pc: "unread cx ss = [] \<and> c = EOF \<and> unread cx1 ss1 = [] \<or> unread cx ss = c # unread cx1 ss1
      \<and> weight ss1 (cx_file cx1) + depth_weight (length ss1) \<le> weight ss (cx_file cx)"
    using m_rawgetc_first [OF Suc.prems(1,2)] by metis
  let ?c = "word_of_int c :: byte"
  have op: "op < length name" using Suc.hyps(2) by simp
  have "?c = 41 \<or> (?c = 10 \<or> ?c = 255) \<or> name_char c" unfolding name_char_def by auto
  then consider (close) "?c = 41" | (broken) "?c = 10 \<or> ?c = 255" | (more) "name_char c" by argo
  then show ?case
  proof cases
    case close
    then have "name_ends cx ss [] False cx1 ss1" using pc by (auto simp: name_ends_def)
    moreover have "cstr (name[op := 0]) = cstr (take op name)" using op by (simp add: upd_conv_take_nth_drop)
    moreover have "read_name op name cx = Inr (name[op := 0], False, cx1)"
      using close op cx1(1) by (simp add: read_name.simps [of op])
    ultimately show ?thesis using cx1 by (simp add: name_read_InrI [of "[]" _ ss1])
  next
    case broken
    show ?thesis
    proof (cases "op + 1 < length name")
      case True
      then have "read_name op name cx = Inr (name[op := 10, op + 1 := 0], True, cx1)"
        using broken op cx1(1) by (auto simp: read_name.simps [of op] sint_byte_eof)
      moreover have "name_ends cx ss [] True cx1 ss1" using broken pc by (elim disjE) (simp_all add: name_ends_def)
      moreover have "name[op := 10, op + 1 := 0] = (take op name @ [10]) @ 0 # drop (op + 2) name"
        using True op by (simp add: upd_conv_take_nth_drop take_Suc_conv_app_nth nth_list_update)
      then have "cstr (name[op := 10, op + 1 := 0]) = cstr (take op name @ [10])" by (simp only: cstr_app0)
      ultimately show ?thesis using cx1 by (simp add: name_read_InrI [of "[]" _ ss1])
    next
      case False
      then have "read_name op name cx = Inl Fault"
        using broken op cx1(1) by (auto simp: read_name.simps [of op] sint_byte_eof)
      with False show ?thesis using name_read_InlI [of cx ss "[]" "unread cx ss"] by simp
    qed
  next
    case more
    then have c: "?c \<noteq> 41" "?c \<noteq> 10" "sint ?c \<noteq> EOF" "c \<noteq> EOF" by (auto simp: name_char_def sint_byte_eof)
    have "read_name op name cx = read_name (op + 1) (name[op := ?c]) cx1"
      using c op cx1(1) by (subst read_name.simps) (simp add: Let_def)
    moreover have "name_read (op + 1) (name[op := ?c]) cx1 ss1 (read_name (op + 1) (name[op := ?c]) cx1)"
      using Suc.hyps(1) [of "name[op := ?c]" "op + 1" cx1 ss1] Suc.hyps(2) cx1 op by simp
    ultimately show ?thesis using pc c more op cx1(4) by (auto intro: name_read_step)
  qed
qed


subsection \<open>What \<open>m_getc\<close> reads\<close>

text \<open>The character that is returned, and what is left of the input, when there is no reference at its start.\<close>

inductive returns :: "int list \<Rightarrow> int \<Rightarrow> int list \<Rightarrow> bool" where
  at_end: "returns [] EOF []"
| plain: "c \<noteq> 36 \<Longrightarrow> returns (c # p) (untab c) p"
| dollars: "returns (36 # 36 # p) 36 p"
| dollar_end: "returns [36] 36 [EOF]"
| dollar: "c \<noteq> 36 \<Longrightarrow> c \<noteq> 40 \<Longrightarrow> returns (36 # c # p) 36 (if c = 0 then p else c # p)"

text \<open>
  One reference is replaced by its value.  What an unclosed one stands for is the text after the parenthesis; the
  end of the input counts as the end of a line.
\<close>

inductive expands :: "mkenv \<Rightarrow> byte list \<times> int list \<Rightarrow> byte list \<times> int list \<Rightarrow> bool" for E where
  reference: "list_all name_char nm \<Longrightarrow> word_of_int t = (41 :: byte) \<Longrightarrow>
     macro_value E (cstr (map word_of_int nm)) i = Inr (v, i') \<Longrightarrow>
     expands E (i, 36 # 40 # nm @ t # p) (i', map sint v @ p)"
| unclosed: "list_all name_char nm \<Longrightarrow> word_of_int t \<in> {10, 255 :: byte} \<Longrightarrow>
     expands E (i, 36 # 40 # nm @ t # p) (i, map sint (cstr (map word_of_int nm @ [10])) @ p)"
| unfinished: "list_all name_char nm \<Longrightarrow>
     expands E (i, 36 # 40 # nm) (i, map sint (cstr (map word_of_int nm @ [10])))"

definition has_paren :: "mkctx \<Rightarrow> byte list list \<Rightarrow> bool" where
  "has_paren cx ss \<longleftrightarrow> (\<exists>t \<in> set (unread cx ss). word_of_int t = (41 :: byte))"

definition todo :: "mkctx \<Rightarrow> byte list list \<Rightarrow> nat \<times> nat" where
  "todo cx ss = (if has_paren cx ss then (1, weight ss (cx_file cx)) else (0, length (unread cx ss)))"

definition mkenv_ok :: "mkenv \<Rightarrow> bool" where
  "mkenv_ok E \<longleftrightarrow> (\<exists>l. syms_rep (me_syms E) l) \<and> (\<forall>n v. me_getenv E n = Some v \<longrightarrow> 0 \<notin> set v)"

lemma macro_value_total:
  assumes "mkenv_ok E" "0 \<notin> set name"
  shows "\<exists>v i'. macro_value E name i = Inr (v, i') \<and> 0 \<notin> set v"
proof -
  obtain l where l: "syms_rep (me_syms E) l" using assms(1) by (auto simp: mkenv_ok_def)
  obtain r where r: "getsym name (me_syms E) = Inr r"
    "r \<noteq> None \<Longrightarrow> \<exists>v. str_at (sbuf (me_syms E)) (the r) = Some v"
    using getsym_correct [OF l, of name] by (auto split: option.splits)
  have nz: "str_at m p = Some v \<Longrightarrow> 0 \<notin> set v" for m p v by (auto simp: str_at_def split: if_splits dest: set_takeWhileD)
  have "0 \<notin> set (tl name)" using assms(2) by (cases name) auto
  moreover have "0 \<notin> set (takeWhile P (s :: byte list))" if "0 \<notin> set s" for P s using that by (auto dest: set_takeWhileD)
  ultimately show ?thesis
    using assms r nz by (auto simp: cstr_nonzero macro_value_def Let_def mkenv_ok_def split: option.splits prod.splits)
qed

text \<open>How \<open>m_getc\<close> ends when \<open>p\<close> is what is to be read and \<open>i\<close> what is left of the standard input.\<close>

definition getc_final :: "mkenv \<Rightarrow> byte list \<Rightarrow> int list \<Rightarrow> (int \<times> mkctx) mk \<Rightarrow> bool" where
  "getc_final E i p r \<longleftrightarrow> (case r of
       Inl Fault \<Rightarrow> \<exists>nm q. p = 36 # 40 # nm @ q \<and> list_all name_char nm \<and> 255 \<le> length nm
     | Inl Fatal \<Rightarrow> \<exists>cx1 ss1 v i'. expands E (i, p) (i', map sint v @ unread cx1 ss1) \<and> cx_strs cx1 ss1 \<and> \<not> room cx1 ss1 v
     | Inr (c, cx') \<Rightarrow> \<exists>ss'. cx_strs cx' ss' \<and> returns p c (unread cx' ss') \<and> typed_in cx' = i)"

text \<open>What a turn of the loop does.\<close>

definition turn_result :: "mkenv \<Rightarrow> mkctx \<Rightarrow> byte list list \<Rightarrow> (int \<times> mkctx + mkctx) mk \<Rightarrow> bool" where
  "turn_result E cx ss r \<longleftrightarrow> (case r of
       Inl e \<Rightarrow> getc_final E (typed_in cx) (unread cx ss) (Inl e)
     | Inr (Inl x) \<Rightarrow> getc_final E (typed_in cx) (unread cx ss) (Inr x)
     | Inr (Inr cx') \<Rightarrow> \<exists>ss'. cx_strs cx' ss' \<and> pbchar cx' = 0 \<and> expands E (typed_in cx, unread cx ss) (typed_in cx', unread cx' ss')
         \<and> (pbchar cx = 0 \<longrightarrow> (todo cx' ss', todo cx ss) \<in> less_than <*lex*> less_than))"

lemma m_rawgetc_next:
  assumes "cx_strs cx ss"
  obtains c cx1 ss1 where "m_rawgetc cx = Inr (c, cx1)" "cx_strs cx1 ss1" "pbchar cx1 = 0" "typed_in cx1 = typed_in cx"
    "unread cx ss = [] \<and> c = EOF \<and> unread cx1 ss1 = [] \<or> unread cx ss = c # unread cx1 ss1
      \<and> (pbchar cx = 0 \<longrightarrow> weight ss1 (cx_file cx1) \<le> weight ss (cx_file cx))"
proof (cases "pbchar cx = 0")
  case True
  show ?thesis
  proof (rule m_rawgetc_first [OF assms True])
    fix c cx1 ss1
    assume *: "m_rawgetc cx = Inr (c, cx1)" "cx_strs cx1 ss1" "pbchar cx1 = 0" "typed_in cx1 = typed_in cx"
      "unread cx ss = [] \<and> c = EOF \<and> unread cx1 ss1 = [] \<or> unread cx ss = c # unread cx1 ss1
        \<and> weight ss1 (cx_file cx1) + depth_weight (length ss1) \<le> weight ss (cx_file cx)"
    show ?thesis by (rule that [OF *(1-4)]) (use *(5) in auto)
  qed
next
  case False
  with m_rawgetc_pbchar [OF assms] obtain cx1 where "m_rawgetc cx = Inr (pbchar cx, cx1)" "cx_strs cx1 ss" "pbchar cx1 = 0"
    "cx_file cx1 = cx_file cx" "typed_in cx1 = typed_in cx" by blast
  with False show ?thesis by (intro that [of "pbchar cx" cx1 ss]) (auto simp: unread_def)
qed


text \<open>Pushing the value of a reference back.\<close>

lemma push_value:
  assumes "cx_strs cx2 ss2" "pbchar cx2 = 0" "junk_ok junk" "0 \<notin> set v"
    "expands E (typed_in cx, unread cx ss) (i', map sint v @ unread cx2 ss2)"
    "\<And>cx'. cx_strs cx' (v # ss2) \<Longrightarrow> pbchar cx' = 0 \<Longrightarrow> cx_file cx' = cx_file cx2 \<Longrightarrow> room cx2 ss2 v \<Longrightarrow>
       unread cx' (v # ss2) = map sint v @ unread cx2 ss2 \<Longrightarrow>
       pbchar cx = 0 \<Longrightarrow> (todo cx' (v # ss2), todo cx ss) \<in> less_than <*lex*> less_than"
  shows "turn_result E cx ss (bindm (m_pushstr junk v (cx2\<lparr>typed_in := i'\<rparr>)) (\<lambda>cx. Inr (Inr cx)))"
proof -
  let ?cx2 = "cx2\<lparr>typed_in := i'\<rparr>"
  have c: "cx_strs ?cx2 ss2" "unread ?cx2 ss2 = unread cx2 ss2" "room ?cx2 ss2 v = room cx2 ss2 v"
    using assms(1) by (simp_all add: unread_def room_def pb_used_def)
  note push = m_pushstr_correct [OF c(1) assms(3,4)]
  show ?thesis
  proof (cases "room cx2 ss2 v")
    case True
    then obtain cx' where cx': "m_pushstr junk v ?cx2 = Inr cx'" "cx_strs cx' (v # ss2)" "cx_file cx' = cx_file cx2"
      "pbchar cx' = 0" "typed_in cx' = i'" using push c(3) assms(2) by auto
    have p: "unread cx' (v # ss2) = map sint v @ unread cx2 ss2" using cx' assms(2) by (simp add: unread_def)
    show ?thesis using cx' p assms(5) assms(6) [OF cx'(2,4,3) True p] by (auto simp: turn_result_def getc_final_def)
  next
    case False
    then have "m_pushstr junk v ?cx2 = Inl Fatal" using push c(3) by simp
    with False assms(1,5) show ?thesis by (auto simp: turn_result_def getc_final_def)
  qed
qed

lemma todo_less:
  assumes "unread cx ss = 36 # 40 # nm @ u @ unread cx2 ss2" "list_all name_char nm"
    "unread cx' (v # ss2) = map sint v @ unread cx2 ss2" "cx_file cx' = cx_file cx2"
    "missing \<longrightarrow> v = cstr (map word_of_int nm @ [10])" "room cx2 ss2 v"
    "u = [] \<and> missing \<and> unread cx2 ss2 = [] \<or> (\<exists>t. u = [t] \<and> word_of_int t \<in> (if missing then {10, 255} else {41 :: byte})
       \<and> weight ss2 (cx_file cx2) + depth_weight (length ss2) \<le> weight ss (cx_file cx))"
  shows "(todo cx' (v # ss2), todo cx ss) \<in> less_than <*lex*> less_than"
proof -
  have w: "weight (v # ss2) (cx_file cx') < weight ss2 (cx_file cx2) + depth_weight (length ss2)"
    using assms(4,6) weight_push [of ss2 v "cx_file cx2"] by (simp add: room_def)
  have nm: "\<forall>t \<in> set nm. word_of_int t \<noteq> (41 :: byte)" using assms(2) by (auto simp: list_all_iff name_char_def)
  have v: "\<forall>b \<in> set v. b \<noteq> 41" "length v \<le> length nm + 1" if missing
  proof -
    have "set (cstr (map word_of_int nm @ [10])) \<subseteq> set (map word_of_int nm @ [10 :: byte])"
      unfolding cstr_def by (auto dest: set_takeWhileD)
    then show "\<forall>b \<in> set v. b \<noteq> 41" using that assms(5) nm by fastforce
    have "length (cstr (map word_of_int nm @ [10 :: byte])) \<le> length (map word_of_int nm @ [10 :: byte])"
      unfolding cstr_def by (rule length_takeWhile_le)
    then show "length v \<le> length nm + 1" using that assms(5) by simp
  qed
  show ?thesis
  proof (cases "has_paren cx ss")
    case True
    then have "u \<noteq> []" using assms(1,7) nm by (auto simp: has_paren_def)
    with True assms(7) w show ?thesis by (auto simp: todo_def)
  next
    case False
    then have m: missing using assms(1,7) by (auto simp: has_paren_def split: if_splits)
    have "\<not> has_paren cx' (v # ss2)" using False v(1) [OF m] assms(1,3) by (auto simp: has_paren_def)
    moreover have "length (unread cx' (v # ss2)) < length (unread cx ss)" using assms(1,3) v(2) [OF m] by simp
    ultimately show ?thesis using False by (simp add: todo_def)
  qed
qed


lemma turn_reference:
  assumes "cx_strs cx1 ss1" "pbchar cx1 = 0" "junk_ok junk" "mkenv_ok E" "typed_in cx1 = typed_in cx"
    "unread cx ss = 36 # 40 # unread cx1 ss1" "pbchar cx = 0 \<Longrightarrow> weight ss1 (cx_file cx1) \<le> weight ss (cx_file cx)"
  shows "turn_result E cx ss (bindm (read_name 0 (replicate (SZ_FNAME + 1) 0) cx1) (\<lambda>(name, missing, cx).
     bindm (if missing then Inr (cstr name, typed_in cx) else macro_value E (cstr name) (typed_in cx)) (\<lambda>(val, inp).
     bindm (m_pushstr junk val (cx\<lparr>typed_in := inp\<rparr>)) (\<lambda>cx. Inr (Inr cx)))))"
    (is "turn_result E cx ss (bindm ?r ?f)")
proof (cases ?r)
  case (Inl e)
  with read_name_correct [OF assms(1,2), of 0 "replicate (SZ_FNAME + 1) 0"] assms(6)
  show ?thesis by (auto simp: name_read_def turn_result_def getc_final_def)
next
  case (Inr x)
  obtain name missing cx2 where x: "x = (name, missing, cx2)" by (cases x)
  obtain nm ss2 where nm: "list_all name_char nm" "cx_strs cx2 ss2" "pbchar cx2 = 0" "typed_in cx2 = typed_in cx1"
    "cstr name = cstr (map word_of_int nm @ (if missing then [10] else []))" "name_ends cx1 ss1 nm missing cx2 ss2"
    using read_name_correct [OF assms(1,2), of 0 "replicate (SZ_FNAME + 1) 0"] unfolding Inr x by (auto simp: name_read_def)
  obtain u where u: "unread cx ss = 36 # 40 # nm @ u @ unread cx2 ss2"
    "u = [] \<and> missing \<and> unread cx2 ss2 = [] \<or> (\<exists>t. u = [t] \<and> word_of_int t \<in> (if missing then {10, 255} else {41 :: byte})
       \<and> weight ss2 (cx_file cx2) + depth_weight (length ss2) \<le> weight ss1 (cx_file cx1))"
    using nm(6) assms(6) unfolding name_ends_def by (elim disjE exE conjE) (fastforce+)
  show ?thesis
  proof (cases missing)
    case True
    have e: "expands E (typed_in cx, unread cx ss) (typed_in cx2, map sint (cstr name) @ unread cx2 ss2)"
      using u True nm(1,4,5) assms(5) by (auto intro: expands.intros)
    show ?thesis
      unfolding Inr x bindm_simps prod.case if_P [OF True]
      by (rule push_value [OF nm(2,3) assms(3) cstr_nonzero e],
        rule todo_less [OF u(1) nm(1), where missing = missing], use u(2) assms(7) nm(5) True in auto)
  next
    case False
    obtain v i' where v: "macro_value E (cstr name) (typed_in cx2) = Inr (v, i')" "0 \<notin> set v"
      using macro_value_total [OF assms(4) cstr_nonzero] by blast
    have e: "expands E (typed_in cx, unread cx ss) (i', map sint v @ unread cx2 ss2)"
      using u False nm(1,4,5) assms(5) v by (auto intro: expands.intros)
    show ?thesis
      unfolding Inr x bindm_simps prod.case if_not_P [OF False] v(1)
      by (rule push_value [OF nm(2,3) assms(3) v(2) e],
        rule todo_less [OF u(1) nm(1), where missing = missing], use u(2) assms(7) nm(5) False in auto)
  qed
qed

lemma turn_correct:
  assumes "cx_strs cx ss" "junk_ok junk" "mkenv_ok E"
  shows "turn_result E cx ss (getc_turn E junk cx)"
proof -
  obtain c cx1 ss1 where cx1: "m_rawgetc cx = Inr (c, cx1)" "cx_strs cx1 ss1" "pbchar cx1 = 0" "typed_in cx1 = typed_in cx"
    and c: "unread cx ss = [] \<and> c = EOF \<and> unread cx1 ss1 = [] \<or> unread cx ss = c # unread cx1 ss1
      \<and> (pbchar cx = 0 \<longrightarrow> weight ss1 (cx_file cx1) \<le> weight ss (cx_file cx))"
    using m_rawgetc_next [OF assms(1)] by metis
  show ?thesis
  proof (cases "c = 36")
    case False
    then have "returns (unread cx ss) (untab c) (unread cx1 ss1)"
      using c by (auto intro: returns.intros simp: untab_def [of EOF])
    with False cx1 show ?thesis by (auto simp: getc_turn_def turn_result_def getc_final_def)
  next
    case True
    then have p: "unread cx ss = 36 # unread cx1 ss1" "pbchar cx = 0 \<longrightarrow> weight ss1 (cx_file cx1) \<le> weight ss (cx_file cx)"
      using c by auto
    obtain n cx2 ss2 where cx2: "m_rawgetc cx1 = Inr (n, cx2)" "cx_strs cx2 ss2" "pbchar cx2 = 0" "typed_in cx2 = typed_in cx1"
      and n: "unread cx1 ss1 = [] \<and> n = EOF \<and> unread cx2 ss2 = [] \<or> unread cx1 ss1 = n # unread cx2 ss2
        \<and> (pbchar cx1 = 0 \<longrightarrow> weight ss2 (cx_file cx2) \<le> weight ss1 (cx_file cx1))"
      using m_rawgetc_next [OF cx1(2)] by metis
    consider (dollar) "n = 36" | (paren) "n = 40" | (other) "n \<noteq> 36" "n \<noteq> 40" by blast
    then show ?thesis
    proof cases
      case dollar
      then have "returns (unread cx ss) 36 (unread cx2 ss2)" using n p by (auto intro: returns.intros)
      with dollar True cx1 cx2 show ?thesis by (auto simp: getc_turn_def turn_result_def getc_final_def)
    next
      case paren
      have "turn_result E cx ss (bindm (read_name 0 (replicate (SZ_FNAME + 1) 0) cx2) (\<lambda>(name, missing, cx).
        bindm (if missing then Inr (cstr name, typed_in cx) else macro_value E (cstr name) (typed_in cx)) (\<lambda>(val, inp).
        bindm (m_pushstr junk val (cx\<lparr>typed_in := inp\<rparr>)) (\<lambda>cx. Inr (Inr cx)))))"
        by (rule turn_reference [OF cx2(2,3) assms(2,3)]) (use n p paren cx1 cx2 in auto)
      with paren True cx1 cx2 show ?thesis by (simp add: getc_turn_def)
    next
      case other
      obtain cx3 where cx3: "m_ungetc junk n cx2 = Inr cx3" "cx_strs cx3 ss2" "cx_file cx3 = cx_file cx2" "typed_in cx3 = typed_in cx2"
        "pbchar cx3 = n" using m_ungetc_correct [OF cx2(2) assms(2), of n] cx2(3) by auto
      have "unread cx3 ss2 = (if n = 0 then [] else [n]) @ unread cx2 ss2" using cx3 cx2(3) by (simp add: unread_def)
      then have "returns (unread cx ss) 36 (unread cx3 ss2)"
        using n p other returns.dollar [of n "unread cx2 ss2"] returns.dollar_end by auto
      with other True cx1 cx2 cx3 show ?thesis by (auto simp: getc_turn_def turn_result_def getc_final_def untab_def)
    qed
  qed
qed


text \<open>What \<open>m_getc\<close> comes to.\<close>

definition getc_result :: "mkenv \<Rightarrow> byte list \<times> int list \<Rightarrow> (int \<times> mkctx) mk \<Rightarrow> bool" where
  "getc_result E ip r \<longleftrightarrow> (\<exists>i p. (expands E)\<^sup>*\<^sup>* ip (i, p) \<and> getc_final E i p r)"

lemma getc_turn_cases:
  assumes "cx_strs cx ss" "junk_ok junk" "mkenv_ok E"
  shows "(\<exists>r. m_getc E junk cx = Some r \<and> getc_result E (typed_in cx, unread cx ss) r)
    \<or> (\<exists>cx' ss'. m_getc E junk cx = m_getc E junk cx' \<and> cx_strs cx' ss' \<and> pbchar cx' = 0
         \<and> expands E (typed_in cx, unread cx ss) (typed_in cx', unread cx' ss')
         \<and> (pbchar cx = 0 \<longrightarrow> (todo cx' ss', todo cx ss) \<in> less_than <*lex*> less_than))"
proof -
  note t = turn_correct [OF assms] and g = m_getc.simps [of E junk cx]
  show ?thesis
  proof (cases "getc_turn E junk cx")
    case (Inl e)
    with t have "getc_result E (typed_in cx, unread cx ss) (Inl e)"
      unfolding getc_result_def turn_result_def by auto
    with Inl g show ?thesis by simp
  next
    case (Inr x)
    show ?thesis
    proof (cases x)
      case L: (Inl r)
      with Inr t have "getc_result E (typed_in cx, unread cx ss) (Inr r)"
        unfolding getc_result_def turn_result_def by (cases r) (auto intro!: exI [of _ "typed_in cx"] exI [of _ "unread cx ss"])
      with Inr L g show ?thesis by simp
    next
      case (Inr cx')
      with \<open>getc_turn E junk cx = Inr x\<close> t g show ?thesis by (auto simp: turn_result_def)
    qed
  qed
qed

lemma getc_result_step:
  "expands E ip ip' \<Longrightarrow> getc_result E ip' r \<Longrightarrow> getc_result E ip r"
  unfolding getc_result_def by (meson converse_rtranclp_into_rtranclp)

lemma m_getc_loop:
  assumes "cx_strs cx ss" "junk_ok junk" "mkenv_ok E" "pbchar cx = 0"
  shows "\<exists>r. m_getc E junk cx = Some r \<and> getc_result E (typed_in cx, unread cx ss) r"
  using assms
proof (induction "todo cx ss" arbitrary: cx ss rule: wf_induct_rule [OF wf_lex_prod [OF wf_less_than wf_less_than]])
  case 1
  from getc_turn_cases [OF 1(2-4)] show ?case
  proof (elim disjE exE conjE)
    fix cx' ss'
    assume *: "m_getc E junk cx = m_getc E junk cx'" "cx_strs cx' ss'" "pbchar cx' = 0"
      "expands E (typed_in cx, unread cx ss) (typed_in cx', unread cx' ss')"
      "pbchar cx = 0 \<longrightarrow> (todo cx' ss', todo cx ss) \<in> less_than <*lex*> less_than"
    with 1 have "\<exists>r. m_getc E junk cx' = Some r \<and> getc_result E (typed_in cx', unread cx' ss') r" by blast
    with * show ?thesis by (auto intro: getc_result_step)
  qed blast
qed

text \<open>
  C7: \<open>m_getc\<close> always returns, or ends the program.  It replaces the references at the start of the input by
  their values, one after the other, and then returns the first character that is left, with what follows it
  still to be read; the stack of pushed back strings is invisible.  It is fatal when a value does not fit on the
  stack, as happens when a macro refers to itself; and a name of 255 characters is written past the end of
  \<open>name\<close>, which is the only fault.
\<close>

theorem m_getc_correct:
  assumes "cx_strs cx ss" "junk_ok junk" "mkenv_ok E"
  shows "\<exists>r i p. m_getc E junk cx = Some r \<and> (expands E)\<^sup>*\<^sup>* (typed_in cx, unread cx ss) (i, p) \<and> (case r of
       Inl Fault \<Rightarrow> \<exists>nm q. p = 36 # 40 # nm @ q \<and> list_all name_char nm \<and> 255 \<le> length nm
     | Inl Fatal \<Rightarrow> \<exists>cx1 ss1 v i'. expands E (i, p) (i', map sint v @ unread cx1 ss1) \<and> cx_strs cx1 ss1 \<and> \<not> room cx1 ss1 v
     | Inr (c, cx') \<Rightarrow> \<exists>ss'. cx_strs cx' ss' \<and> returns p c (unread cx' ss') \<and> typed_in cx' = i)"
  using getc_turn_cases [OF assms]
proof (elim disjE exE conjE)
  fix r assume "m_getc E junk cx = Some r" "getc_result E (typed_in cx, unread cx ss) r"
  then show ?thesis unfolding getc_result_def getc_final_def by blast
next
  fix cx' ss'
  assume *: "m_getc E junk cx = m_getc E junk cx'" "cx_strs cx' ss'" "pbchar cx' = 0"
    "expands E (typed_in cx, unread cx ss) (typed_in cx', unread cx' ss')"
  from m_getc_loop [OF *(2) assms(2,3) *(3)] obtain r where "m_getc E junk cx' = Some r"
    "getc_result E (typed_in cx, unread cx ss) r" using getc_result_step [OF *(4)] by blast
  with *(1) show ?thesis unfolding getc_result_def getc_final_def by auto
qed


text \<open>A macro whose value is a reference, at the start of a line.\<close>

definition demo_junk :: pushback where
  "demo_junk = \<lparr>pb_ip = 0, pb_op = 0, npb = 0, pbstk = replicate SZ_PBSTK 0, pbbuf = replicate (SZ_PBBUF + 1) 1\<rparr>"

definition demo_env :: mkenv where
  "demo_env = \<lparr>me_syms = demo_syms, me_getenv = (\<lambda>n. if n = [97] then Some [36, 40, 98, 41] else None),
     me_file = (\<lambda>_. None), me_stdin = False, me_symbol = replicate (SZ_FNAME + 1) 0\<rparr>"

definition demo_cx :: mkctx where
  "demo_cx = \<lparr>cx_file = [36, 40, 97, 41, 10], cx_pb = None, pbchar = 0, cx_pushback = 0, lineno = 1, typed_in = []\<rparr>"

lemma demo_cx_ok: "cx_strs demo_cx []" "junk_ok demo_junk" "mkenv_ok demo_env"
  using demo_syms_rep by (auto simp: cx_strs_def demo_cx_def junk_ok_def demo_junk_def mkenv_ok_def demo_env_def)

theorem m_getc_correct_witness:
  "\<exists>r i p. m_getc demo_env demo_junk demo_cx = Some r \<and> (expands demo_env)\<^sup>*\<^sup>* ([], map uint (cx_file demo_cx)) (i, p)"
proof -
  have "typed_in demo_cx = []" "unread demo_cx [] = map uint (cx_file demo_cx)"
    by (simp_all add: demo_cx_def unread_def)
  then show ?thesis using m_getc_correct [OF demo_cx_ok] by metis
qed

end
