(* ===== verification/Mk_Library.thy ===== *)
theory Mk_Library
  imports Mk_Macro
begin

text \<open>
  The list of the modules of a library and their dates, from \<open>unix/boot/mkpkg/scanlib.c\<close>: a hash table with open
  addressing whose keys are strings in a buffer, and the scan of a Unix archive that fills it.
\<close>

abbreviation MAX_LIBFILES :: nat where "MAX_LIBFILES \<equiv> 8192"

record mlb =
  mlb_sbuf :: mem
  mlb_op :: nat
  mlb_index :: "nat list"
  mlb_fdate :: "int list"
  mlb_modified :: bool

subsection \<open>The hash table\<close>

text \<open>The sum wraps as an \<open>int\<close>; the index that is negative then lies before the table.\<close>

definition mlb_hash :: "byte list \<Rightarrow> int" where
  "mlb_hash modname = foldl (\<lambda>hashval c. to_int (hashval + (hashval + sint c))) 0 modname"

datatype slot = Found nat | Empty nat | Overflow

definition first_char :: "byte list \<Rightarrow> byte" where
  "first_char s = (case s of [] \<Rightarrow> 0 | c # _ \<Rightarrow> c)"

text \<open>The search for a module: its slot, or the first free one.\<close>

function mlb_search :: "mlb \<Rightarrow> byte list \<Rightarrow> nat \<Rightarrow> nat \<Rightarrow> slot mk" where
  "mlb_search t modname start i =
     (if MAX_LIBFILES \<le> i \<or> length (mlb_index t) \<le> i \<or> MAX_LIBFILES \<le> start then Inl Fault
      else if mlb_index t ! i = 0 then Inr (Empty i)
      else
        (case str_at (mlb_sbuf t) (mlb_index t ! i) of None \<Rightarrow> Inl Fault
         | Some ip \<Rightarrow>
             if first_char ip = first_char modname \<and> take (length modname) modname = take (length modname) ip
             then Inr (Found i)
             else
               let i = (if MAX_LIBFILES \<le> i + 1 then 0 else i + 1) in
               if i = start then Inr Overflow else mlb_search t modname start i))"
  by pat_completeness auto
termination
proof (relation "measure (\<lambda>(t, modname, start, i). if start \<le> i then MAX_LIBFILES - i + start else start - i)", simp, goal_cases)
  case (1 t modname start i ip x)
  then show ?case by (cases "MAX_LIBFILES \<le> i + 1"; cases "start \<le> i") auto
qed

declare mlb_search.simps [simp del]

abbreviation OK :: int where "OK \<equiv> 0"
abbreviation ERR :: int where "ERR \<equiv> - 1"

definition mlb_setdate :: "byte list \<Rightarrow> int \<Rightarrow> mlb \<Rightarrow> (int \<times> mlb) mk" where
  "mlb_setdate modname fd t =
     (if modname = [] \<or> fd \<le> 0 then Inr (ERR, t)
      else
        let keylen = length modname; start = c_mod (mlb_hash modname) (int MAX_LIBFILES); t = t\<lparr>mlb_modified := True\<rparr> in
        if start < 0 then Inl Fault
        else
          bindm (mlb_search t modname (nat start) (nat start)) (\<lambda>r.
          case r of
            Found i \<Rightarrow> Inr (OK, t\<lparr>mlb_fdate := (mlb_fdate t)[i := fd]\<rparr>)
          | Overflow \<Rightarrow> Inr (ERR, t)
          | Empty i \<Rightarrow>
              if SZ_SBUF \<le> mlb_op t + keylen + 1 then Inr (ERR, t)
              else Inr (OK, t\<lparr>mlb_index := (mlb_index t)[i := mlb_op t], mlb_fdate := (mlb_fdate t)[i := fd],
                mlb_sbuf := blit (mlb_sbuf t) (mlb_op t) (modname @ [0]), mlb_op := mlb_op t + (keylen + 1)\<rparr>)))"

definition mlb_getdate :: "byte list \<Rightarrow> mlb \<Rightarrow> int mk" where
  "mlb_getdate modname t =
     (if modname = [] then Inr 0
      else
        let start = c_mod (mlb_hash modname) (int MAX_LIBFILES) in
        if start < 0 then Inl Fault
        else
          bindm (mlb_search t modname (nat start) (nat start)) (\<lambda>r.
          case r of Found i \<Rightarrow> (if length (mlb_fdate t) \<le> i then Inl Fault else Inr (mlb_fdate t ! i)) | _ \<Rightarrow> Inr 0))"

text \<open>The name of the object file, in a buffer of \<open>SZ_FNAME + 1\<close> bytes.\<close>

definition makeobj :: "byte list \<Rightarrow> byte list mk" where
  "makeobj fname =
     (let base = (if 46 \<in> set fname then rev (tl (dropWhile (\<lambda>c. c \<noteq> 46) (rev fname))) else fname) in
      if SZ_FNAME < length fname \<or> SZ_FNAME < length base + 2 then Inl Fault else Inr (base @ [46, 111]))"

definition h_ardate :: "byte list \<Rightarrow> mlb \<Rightarrow> int mk" where
  "h_ardate fname t = bindm (makeobj fname) (\<lambda>obj. mlb_getdate obj t)"

subsection \<open>The scan of an archive\<close>

text \<open>\<open>sscanf (s, "%ld", &x)\<close>: the new value of \<open>x\<close>, and whether a number was found.\<close>

definition scan_digits :: "byte list \<Rightarrow> byte list" where
  "scan_digits s = takeWhile (\<lambda>c. isdigit (sint c)) s"

definition sscanf_ld :: "int \<Rightarrow> byte list \<Rightarrow> int \<times> bool" where
  "sscanf_ld x s =
     (let s = dropWhile (\<lambda>c. isspace (sint c)) s;
          neg = (first_char s = 45);
          s = (if neg \<or> first_char s = 43 then tl s else s);
          ds = scan_digits s;
          n = foldl (\<lambda>n c. 10 * n + (sint c - 48)) 0 ds
      in if ds = [] then (x, False)
         else (if neg then max (- (2 ^ 63)) (- n) else min (2 ^ 63 - 1) n, True))"

abbreviation SZ_ARHDR :: nat where "SZ_ARHDR \<equiv> 60"
abbreviation "AR_date \<equiv> 16 :: nat"
abbreviation "AR_size \<equiv> 48 :: nat"
abbreviation "AR_fmag \<equiv> 58 :: nat"

definition ARMAG :: "byte list" where "ARMAG = [33, 60, 97, 114, 99, 104, 62, 10]"
definition ARFMAG :: "byte list" where "ARFMAG = [96, 10]"

definition ar_modname :: "byte list \<Rightarrow> byte list mk" where
  "ar_modname arf =
     (let ip = dropWhile (\<lambda>c. c = 32) arf; name = takeWhile (\<lambda>c. c \<noteq> 32 \<and> c \<noteq> 47) ip in
      if length name = length ip then Inl Fault else Inr (cstr name))"

text \<open>The variables of the loop: the place in the file, \<open>fd\<close>, and the table.\<close>

type_synonym ar_state = "nat \<times> int \<times> mlb"

definition scan_entry :: "int \<Rightarrow> byte list \<Rightarrow> int \<Rightarrow> mlb \<Rightarrow> (int \<times> mlb) mk" where
  "scan_entry mtime arf fd t =
     bindm (ar_modname arf) (\<lambda>modname.
     if modname = [] then Inr (fd, t)
     else
       let fd = fst (sscanf_ld fd (drop AR_date arf)); fd = (if fd = 0 then mtime else fd) in
       bindm (mlb_setdate modname fd t) (\<lambda>(_, t). Inr (fd, t)))"

definition scan_turn :: "byte list \<Rightarrow> int \<Rightarrow> ar_state \<Rightarrow> (int \<times> mlb + ar_state) mk" where
  "scan_turn file mtime = (\<lambda>(pos, fd, t).
     (let got = slice file pos SZ_ARHDR; arf = got @ replicate (SZ_ARHDR - length got) 0; pos = pos + length got in
      if got = [] then Inr (Inl (OK, t))
      else if slice arf AR_fmag 2 \<noteq> ARFMAG then Inr (Inl (ERR, t))
      else
        bindm (scan_entry mtime arf fd t) (\<lambda>(fd, t).
        case sscanf_ld 0 (drop AR_size arf) of
          (len, False) \<Rightarrow> Inr (Inl (ERR, t))
        | (len, True) \<Rightarrow>
            let len = (if odd len then len + 1 else len) in
            Inr (Inr (if int pos + len < 0 then pos else nat (int pos + len), fd, t)))))"

partial_function (option) scan_loop :: "byte list \<Rightarrow> int \<Rightarrow> ar_state \<Rightarrow> (int \<times> mlb) mk option" where
  "scan_loop file mtime s =
     (case scan_turn file mtime s of
        Inl e \<Rightarrow> Some (Inl e)
      | Inr (Inl r) \<Rightarrow> Some (Inr r)
      | Inr (Inr s) \<Rightarrow> scan_loop file mtime s)"

declare scan_loop.simps [code]

text \<open>The library of that name, its date, and the value of \<open>fd\<close> before it is set.\<close>

definition h_scanlibrary :: "(byte list \<times> int) option \<Rightarrow> int \<Rightarrow> mlb \<Rightarrow> (int \<times> mlb) mk option" where
  "h_scanlibrary lib fd t =
     (let t = t\<lparr>mlb_modified := False, mlb_op := 1, mlb_index := replicate MAX_LIBFILES 0\<rparr> in
      case lib of
        None \<Rightarrow> Some (Inr (OK, t))
      | Some (file, mtime) \<Rightarrow>
          if take 8 file \<noteq> ARMAG then Some (Inr (ERR, t)) else scan_loop file mtime (8, fd, t))"

subsection \<open>The table is a map\<close>

definition module_at :: "mlb \<Rightarrow> nat \<Rightarrow> byte list \<Rightarrow> bool" where
  "module_at t j k \<longleftrightarrow> j < MAX_LIBFILES \<and> mlb_index t ! j \<noteq> 0 \<and> sym_at (mlb_sbuf t) (mlb_op t) (mlb_index t ! j) k"

definition home :: "byte list \<Rightarrow> nat" where
  "home k = nat (mlb_hash k) mod MAX_LIBFILES"

definition probe :: "byte list \<Rightarrow> nat \<Rightarrow> nat" where
  "probe k d = (home k + d) mod MAX_LIBFILES"

text \<open>A module stands behind a run of slots that are taken, from its home on, and only once.\<close>

definition mlb_ok :: "mlb \<Rightarrow> bool" where
  "mlb_ok t \<longleftrightarrow> length (mlb_sbuf t) = SZ_SBUF \<and> length (mlb_index t) = MAX_LIBFILES \<and> length (mlb_fdate t) = MAX_LIBFILES
     \<and> 1 \<le> mlb_op t \<and> mlb_op t < SZ_SBUF \<and> 2 * card {j. j < MAX_LIBFILES \<and> mlb_index t ! j \<noteq> 0} < mlb_op t
     \<and> (\<forall>j < MAX_LIBFILES. mlb_index t ! j \<noteq> 0 \<longrightarrow> (\<exists>k d. module_at t j k \<and> d < MAX_LIBFILES \<and> j = probe k d
          \<and> (\<forall>e < d. mlb_index t ! probe k e \<noteq> 0)))
     \<and> (\<forall>i j k. module_at t i k \<longrightarrow> module_at t j k \<longrightarrow> i = j)"

definition mlb_rep :: "mlb \<Rightarrow> (byte list \<Rightarrow> int option) \<Rightarrow> bool" where
  "mlb_rep t m \<longleftrightarrow> mlb_ok t \<and> (\<forall>k v. m k = Some v \<longleftrightarrow> (\<exists>j. module_at t j k \<and> mlb_fdate t ! j = v))"

text \<open>What is asked of the name of a module: its hash is not negative, and it does not begin another name.\<close>

definition mod_key :: "byte list \<Rightarrow> (byte list \<Rightarrow> int option) \<Rightarrow> bool" where
  "mod_key k m \<longleftrightarrow> k \<noteq> [] \<and> 0 \<notin> set k \<and> 0 \<le> mlb_hash k \<and> (\<forall>k' \<in> dom m. take (length k) k' = k \<longrightarrow> k' = k)"

lemma home_less: "home k < MAX_LIBFILES"
  by (simp add: home_def)

lemma probe_less [simp]: "probe k d < MAX_LIBFILES" "\<not> MAX_LIBFILES \<le> probe k d"
  by (simp_all add: probe_def not_le)

lemma probe_if: "d \<le> MAX_LIBFILES \<Longrightarrow> probe k d = (if home k + d < MAX_LIBFILES then home k + d else home k + d - MAX_LIBFILES)"
  using home_less [of k] by (auto simp: probe_def le_mod_geq)

lemma probe_0: "probe k 0 = home k"
  by (simp add: probe_if home_less)

lemma probe_Suc: "d < MAX_LIBFILES \<Longrightarrow> probe k (Suc d) = (if MAX_LIBFILES \<le> probe k d + 1 then 0 else probe k d + 1)"
  using home_less [of k] by (simp add: probe_if) arith

lemma probe_inj: "d < MAX_LIBFILES \<Longrightarrow> e < MAX_LIBFILES \<Longrightarrow> probe k d = probe k e \<Longrightarrow> d = e"
  using home_less [of k] by (auto simp: probe_if split: if_splits)

lemma probe_home: "d < MAX_LIBFILES \<Longrightarrow> probe k (Suc d) = home k \<longleftrightarrow> Suc d = MAX_LIBFILES"
  using home_less [of k] by (auto simp: probe_if)

lemma probe_onto: "j < MAX_LIBFILES \<Longrightarrow> \<exists>d < MAX_LIBFILES. j = probe k d"
  using home_less [of k]
  by (intro exI [of _ "if home k \<le> j then j - home k else j + MAX_LIBFILES - home k"]) (auto simp: probe_if)

lemma mlb_okD:
  "mlb_ok t \<Longrightarrow> j < MAX_LIBFILES \<Longrightarrow> mlb_index t ! j \<noteq> 0 \<Longrightarrow>
   \<exists>k d. module_at t j k \<and> d < MAX_LIBFILES \<and> j = probe k d \<and> (\<forall>e < d. mlb_index t ! probe k e \<noteq> 0)"
  by (simp add: mlb_ok_def)

lemma module_at_unique:
  assumes "module_at t j k" "module_at t j k'"
  shows "k = k'"
proof -
  have "str_at (mlb_sbuf t) (mlb_index t ! j) = Some k" "str_at (mlb_sbuf t) (mlb_index t ! j) = Some k'"
    using assms by (auto simp: module_at_def sym_at_def intro: str_at_kstr)
  then show ?thesis by simp
qed

text \<open>The outcome of a search.\<close>

definition search_result :: "mlb \<Rightarrow> byte list \<Rightarrow> slot \<Rightarrow> bool" where
  "search_result t k r \<longleftrightarrow> (case r of
       Found i \<Rightarrow> module_at t i k
     | Empty i \<Rightarrow> mlb_index t ! i = 0 \<and> (\<exists>d < MAX_LIBFILES. i = probe k d
         \<and> (\<forall>e < d. mlb_index t ! probe k e \<noteq> 0 \<and> \<not> module_at t (probe k e) k))
     | Overflow \<Rightarrow> \<forall>e < MAX_LIBFILES. mlb_index t ! probe k e \<noteq> 0 \<and> \<not> module_at t (probe k e) k)"

lemma mlb_search_correct:
  assumes "mlb_rep t m" "mod_key k m" "d < MAX_LIBFILES"
    "\<forall>e < d. mlb_index t ! probe k e \<noteq> 0 \<and> \<not> module_at t (probe k e) k"
  shows "\<exists>r. mlb_search t k (home k) (probe k d) = Inr r \<and> search_result t k r"
  using assms(3,4)
proof (induction "MAX_LIBFILES - d" arbitrary: d)
  case 0
  then show ?case by simp
next
  case (Suc n)
  let ?i = "probe k d"
  have ok: "mlb_ok t" "length (mlb_index t) = MAX_LIBFILES" "home k < MAX_LIBFILES" "\<not> MAX_LIBFILES \<le> home k"
    using assms(1) home_less [of k] by (auto simp: mlb_rep_def mlb_ok_def)
  show ?case
  proof (cases "mlb_index t ! ?i = 0")
    case True
    then have "mlb_search t k (home k) ?i = Inr (Empty ?i)" using ok by (simp add: mlb_search.simps [of t])
    then show ?thesis using True Suc.prems by (auto simp: search_result_def)
  next
    case False
    then obtain k' where k': "module_at t ?i k'" using mlb_okD [OF ok(1) probe_less(1)] by blast
    then have s: "str_at (mlb_sbuf t) (mlb_index t ! ?i) = Some k'" by (auto simp: module_at_def sym_at_def intro: str_at_kstr)
    have dom: "k' \<in> dom m" using assms(1) k' by (auto simp: mlb_rep_def)
    have nz: "k \<noteq> []" using assms(2) by (simp add: mod_key_def)
    have match: "first_char k' = first_char k \<and> take (length k) k = take (length k) k' \<longleftrightarrow> k' = k"
      using assms(2) dom nz unfolding mod_key_def by (metis order_refl take_all)
    show ?thesis
    proof (cases "k' = k")
      case True
      then have "mlb_search t k (home k) ?i = Inr (Found ?i)" using ok s False by (simp add: mlb_search.simps [of t])
      then show ?thesis using True k' by (auto simp: search_result_def)
    next
      case ne: False
      then have nm: "\<not> module_at t ?i k" using module_at_unique [OF k'] by blast
      have inv: "\<forall>e < Suc d. mlb_index t ! probe k e \<noteq> 0 \<and> \<not> module_at t (probe k e) k"
        using Suc.prems(2) False nm by (auto simp: less_Suc_eq)
      have r: "mlb_search t k (home k) ?i = (if probe k (Suc d) = home k then Inr Overflow else mlb_search t k (home k) (probe k (Suc d)))"
        using ok s False ne match by (subst mlb_search.simps) (simp only: Let_def probe_Suc [OF Suc.prems(1)] option.case if_False probe_less if_not_P match, simp)
      show ?thesis
      proof (cases "Suc d = MAX_LIBFILES")
        case True
        then show ?thesis using r inv probe_home [OF Suc.prems(1)] by (auto simp: search_result_def)
      next
        case False
        then show ?thesis using r inv probe_home [OF Suc.prems(1)] Suc.hyps Suc.prems(1) by auto
      qed
    qed
  qed
qed


lemma search_absent:
  assumes "mlb_rep t m" "search_result t k r" "\<And>i. r \<noteq> Found i"
  shows "m k = None"
proof (rule ccontr)
  assume "m k \<noteq> None"
  then obtain j where j: "module_at t j k" using assms(1) by (auto simp: mlb_rep_def)
  have ok: "mlb_ok t" using assms(1) by (simp add: mlb_rep_def)
  obtain k' d where d: "module_at t j k'" "d < MAX_LIBFILES" "j = probe k' d" "\<forall>e < d. mlb_index t ! probe k' e \<noteq> 0"
    using mlb_okD [OF ok, of j] j by (auto simp: module_at_def)
  have "k' = k" by (rule module_at_unique [OF d(1) j])
  note d = d(2-4) [unfolded this]
  show False
  proof (cases r)
    case (Found i)
    then show False using assms(3) by simp
  next
    case (Empty i)
    then obtain d' where d': "mlb_index t ! i = 0" "d' < MAX_LIBFILES" "i = probe k d'" "\<forall>e < d'. \<not> module_at t (probe k e) k"
      using assms(2) by (auto simp: search_result_def)
    have "\<not> d' < d" using d(3) d'(1,3) by auto
    moreover have "\<not> d < d'" using d'(4) j d(2) by auto
    moreover have "d \<noteq> d'" using j d(2) d'(1,3) by (auto simp: module_at_def)
    ultimately show False by simp
  next
    case Overflow
    then show False using assms(2) j d by (auto simp: search_result_def)
  qed
qed

lemma search_value:
  assumes "mlb_rep t m" "search_result t k r"
  shows "(case r of Found i \<Rightarrow> i < MAX_LIBFILES \<and> m k = Some (mlb_fdate t ! i) | _ \<Rightarrow> m k = None)"
proof (cases r)
  case (Found i)
  then have "module_at t i k" using assms(2) by (simp add: search_result_def)
  then have "m k = Some (mlb_fdate t ! i)" "i < MAX_LIBFILES" using assms(1) by (auto simp: mlb_rep_def module_at_def)
  with Found show ?thesis by simp
qed (use search_absent [OF assms] in auto)

lemma start_home: "0 \<le> mlb_hash k \<Longrightarrow> nat (c_mod (mlb_hash k) (int MAX_LIBFILES)) = home k \<and> 0 \<le> c_mod (mlb_hash k) (int MAX_LIBFILES)"
  by (simp add: home_def nat_mod_distrib)

lemma mlb_getdate_correct:
  assumes "mlb_rep t m" "mod_key k m"
  shows "mlb_getdate k t = Inr (case m k of None \<Rightarrow> 0 | Some v \<Rightarrow> v)"
proof -
  obtain r where r: "mlb_search t k (home k) (home k) = Inr r" "search_result t k r"
    using mlb_search_correct [OF assms, of 0] by (auto simp: probe_0)
  have h: "k \<noteq> []" "0 \<le> mlb_hash k" using assms(2) by (auto simp: mod_key_def)
  have "length (mlb_fdate t) = MAX_LIBFILES" using assms(1) by (simp add: mlb_rep_def mlb_ok_def)
  then show ?thesis using r(1) search_value [OF assms(1) r(2)] h start_home [OF h(2)]
    by (auto simp: mlb_getdate_def Let_def split: slot.splits)
qed

lemma mlb_rep_modified [simp]: "mlb_rep (t\<lparr>mlb_modified := b\<rparr>) m = mlb_rep t m"
  by (simp add: mlb_rep_def mlb_ok_def module_at_def)

lemma mlb_rep_redate:
  assumes "mlb_rep t m" "module_at t i k"
  shows "mlb_rep (t\<lparr>mlb_fdate := (mlb_fdate t)[i := v]\<rparr>) (m(k \<mapsto> v))"
proof -
  let ?t = "t\<lparr>mlb_fdate := (mlb_fdate t)[i := v]\<rparr>"
  have ok: "mlb_ok t" using assms(1) by (simp add: mlb_rep_def)
  have m: "module_at ?t j q = module_at t j q" for j q by (simp add: module_at_def)
  have "mlb_ok ?t" using ok by (simp add: mlb_ok_def m)
  moreover have "(m(k \<mapsto> v)) q = Some w \<longleftrightarrow> (\<exists>j. module_at t j q \<and> (mlb_fdate t)[i := v] ! j = w)" for q w
  proof (cases "q = k")
    case True
    have "module_at t j k \<longleftrightarrow> j = i" for j
    proof
      show "j = i" if "module_at t j k" using ok that assms(2) unfolding mlb_ok_def by blast
    qed (use assms(2) in simp)
    moreover have "(mlb_fdate t)[i := v] ! i = v" using ok assms(2) by (simp add: mlb_ok_def module_at_def)
    ultimately show ?thesis using True by auto
  next
    case False
    have "j \<noteq> i" if "module_at t j q" for j using that assms(2) module_at_unique False by blast
    then have "(\<exists>j. module_at t j q \<and> (mlb_fdate t)[i := v] ! j = w) \<longleftrightarrow> (\<exists>j. module_at t j q \<and> mlb_fdate t ! j = w)"
      by (metis nth_list_update_neq)
    then show ?thesis using False assms(1) by (simp add: mlb_rep_def)
  qed
  ultimately show ?thesis by (simp add: mlb_rep_def m)
qed


lemma mlb_rep_insert:
  assumes "mlb_rep t m" "k \<noteq> []" "0 \<notin> set k" "m k = None" "mlb_index t ! i = 0" "d < MAX_LIBFILES" "i = probe k d"
    "\<forall>e < d. mlb_index t ! probe k e \<noteq> 0" "mlb_op t + length k + 1 < SZ_SBUF"
  shows "mlb_rep (t\<lparr>mlb_index := (mlb_index t)[i := mlb_op t], mlb_fdate := (mlb_fdate t)[i := v],
    mlb_sbuf := blit (mlb_sbuf t) (mlb_op t) (k @ [0]), mlb_op := mlb_op t + (length k + 1)\<rparr>) (m(k \<mapsto> v))"
    (is "mlb_rep ?t _")
proof -
  have ok: "mlb_ok t" using assms(1) by (simp add: mlb_rep_def)
  then have len: "length (mlb_sbuf t) = SZ_SBUF" "length (mlb_index t) = MAX_LIBFILES" "length (mlb_fdate t) = MAX_LIBFILES" "1 \<le> mlb_op t"
    by (simp_all add: mlb_ok_def)
  have i: "i < MAX_LIBFILES" using assms(7) by simp
  have idx: "mlb_index ?t ! j = (if j = i then mlb_op t else mlb_index t ! j)" if "j < MAX_LIBFILES" for j using that len i by simp
  have new: "module_at ?t i k" using i len assms(3,9) by (simp add: module_at_def sym_at_def kstr_at_put)
  have old: "module_at ?t j q" if "module_at t j q" for j q
  proof -
    have "j \<noteq> i" using that assms(5) by (auto simp: module_at_def)
    then show ?thesis using that len assms(9) by (auto simp: module_at_def intro: sym_at_blit)
  qed
  have cases: "j = i \<and> q = k \<or> j \<noteq> i \<and> module_at t j q" if "module_at ?t j q" for j q
  proof (cases "j = i")
    case True
    then show ?thesis using that new module_at_unique by blast
  next
    case False
    have j: "j < MAX_LIBFILES" "mlb_index t ! j \<noteq> 0" using that False by (auto simp: module_at_def)
    then obtain q' where q': "module_at t j q'" using mlb_okD [OF ok] by blast
    then have "q' = q" using old that module_at_unique by blast
    with q' False show ?thesis by simp
  qed
  have absent: "\<not> module_at t j k" for j using assms(1,4) unfolding mlb_rep_def by (metis option.distinct(1))
  have "\<exists>q e. module_at ?t j q \<and> e < MAX_LIBFILES \<and> j = probe q e \<and> (\<forall>f < e. mlb_index ?t ! probe q f \<noteq> 0)"
    if j: "j < MAX_LIBFILES" "mlb_index ?t ! j \<noteq> 0" for j
  proof (cases "j = i")
    case True
    have "\<forall>f < d. mlb_index ?t ! probe k f \<noteq> 0" using assms(8) idx len(4) by simp
    with True new assms(6,7) show ?thesis by blast
  next
    case False
    then have "mlb_index t ! j \<noteq> 0" using j idx by simp
    then obtain q e where "module_at t j q" "e < MAX_LIBFILES" "j = probe q e" "\<forall>f < e. mlb_index t ! probe q f \<noteq> 0"
      using mlb_okD [OF ok j(1)] by blast
    moreover from this(4) have "\<forall>f < e. mlb_index ?t ! probe q f \<noteq> 0" using idx len(4) by simp
    ultimately show ?thesis using old by blast
  qed
  moreover have "j = j'" if "module_at ?t j q" "module_at ?t j' q" for j j' q
    using cases [OF that(1)] cases [OF that(2)] absent ok unfolding mlb_ok_def by blast
  moreover have "2 * card {j. j < MAX_LIBFILES \<and> mlb_index ?t ! j \<noteq> 0} < mlb_op ?t"
  proof -
    let ?S = "{j. j < MAX_LIBFILES \<and> mlb_index t ! j \<noteq> 0}"
    have "{j. j < MAX_LIBFILES \<and> mlb_index ?t ! j \<noteq> 0} = insert i ?S"
      using idx i len(4) by (auto split: if_splits)
    moreover have "card (insert i ?S) = Suc (card ?S)" using assms(5) by simp
    moreover have "2 * card ?S < mlb_op t" using ok by (simp add: mlb_ok_def)
    ultimately show ?thesis using assms(2) by (cases k) simp_all
  qed
  ultimately have "mlb_ok ?t" using len assms(9) unfolding mlb_ok_def by (simp add: blit_simps)
  moreover have "(m(k \<mapsto> v)) q = Some w \<longleftrightarrow> (\<exists>j. module_at ?t j q \<and> mlb_fdate ?t ! j = w)" for q w
  proof (cases "q = k")
    case True
    have "module_at ?t j k \<longleftrightarrow> j = i" for j using cases [of j k] new absent by blast
    then show ?thesis using True i len by auto
  next
    case False
    have "module_at ?t j q \<and> mlb_fdate ?t ! j = w \<longleftrightarrow> module_at t j q \<and> mlb_fdate t ! j = w" for j
      using cases [of j q] old [of j q] False absent new module_at_unique by auto
    then show ?thesis using False assms(1) by (simp add: mlb_rep_def)
  qed
  ultimately show ?thesis unfolding mlb_rep_def by blast
qed


text \<open>The table is never full: the string buffer is too small for that.\<close>

lemma search_no_overflow:
  assumes "mlb_rep t m" "search_result t k r"
  shows "r \<noteq> Overflow"
proof
  assume r: "r = Overflow"
  have "{j. j < MAX_LIBFILES \<and> mlb_index t ! j \<noteq> 0} = {..<MAX_LIBFILES}"
  proof -
    have "mlb_index t ! j \<noteq> 0" if "j < MAX_LIBFILES" for j
      using probe_onto [OF that, of k] assms(2) r by (auto simp: search_result_def)
    then show ?thesis by blast
  qed
  then have "card {j. j < MAX_LIBFILES \<and> mlb_index t ! j \<noteq> 0} = MAX_LIBFILES" by simp
  moreover have "2 * card {j. j < MAX_LIBFILES \<and> mlb_index t ! j \<noteq> 0} < mlb_op t" "mlb_op t < SZ_SBUF"
    using assms(1) unfolding mlb_rep_def mlb_ok_def by blast+
  ultimately show False by linarith
qed

lemma mlb_setdate_correct:
  assumes "mlb_rep t m" "mod_key k m" "0 < v" "m k \<noteq> None \<or> mlb_op t + length k + 1 < SZ_SBUF"
  shows "\<exists>t'. mlb_setdate k v t = Inr (OK, t') \<and> mlb_rep t' (m(k \<mapsto> v)) \<and> mlb_op t' \<le> mlb_op t + length k + 1"
proof -
  let ?t = "t\<lparr>mlb_modified := True\<rparr>"
  have rep: "mlb_rep ?t m" using assms(1) by simp
  obtain r where r: "mlb_search ?t k (home k) (home k) = Inr r" "search_result ?t k r"
    using mlb_search_correct [OF rep assms(2), of 0] by (auto simp: probe_0)
  have k: "k \<noteq> []" "0 \<notin> set k" "0 \<le> mlb_hash k" using assms(2) by (auto simp: mod_key_def)
  note val = search_value [OF rep r(2)]
  have set: "mlb_setdate k v t = (case r of
      Found i \<Rightarrow> Inr (OK, ?t\<lparr>mlb_fdate := (mlb_fdate ?t)[i := v]\<rparr>)
    | Overflow \<Rightarrow> Inr (ERR, ?t)
    | Empty i \<Rightarrow> if SZ_SBUF \<le> mlb_op ?t + length k + 1 then Inr (ERR, ?t)
        else Inr (OK, ?t\<lparr>mlb_index := (mlb_index ?t)[i := mlb_op ?t], mlb_fdate := (mlb_fdate ?t)[i := v],
          mlb_sbuf := blit (mlb_sbuf ?t) (mlb_op ?t) (k @ [0]), mlb_op := mlb_op ?t + (length k + 1)\<rparr>))"
  proof -
    have c: "\<not> (k = [] \<or> v \<le> 0)" using k(1) assms(3) by simp
    have h: "nat (c_mod (mlb_hash k) (int MAX_LIBFILES)) = home k" "\<not> c_mod (mlb_hash k) (int MAX_LIBFILES) < 0"
      using start_home [OF k(3)] by simp_all
    show ?thesis unfolding mlb_setdate_def Let_def if_not_P [OF c] h if_not_P [OF h(2)] r(1) bindm_simps by (rule refl)
  qed
  show ?thesis
  proof (cases r)
    case (Found i)
    then have "module_at ?t i k" using r(2) by (simp add: search_result_def)
    from mlb_rep_redate [OF rep this, of v] Found show ?thesis unfolding set by simp
  next
    case (Empty i)
    then obtain d where d: "mlb_index ?t ! i = 0" "d < MAX_LIBFILES" "i = probe k d" "\<forall>e < d. mlb_index ?t ! probe k e \<noteq> 0"
      using r(2) by (auto simp: search_result_def)
    have m: "m k = None" using val Empty by simp
    then have "mlb_op ?t + length k + 1 < SZ_SBUF" using assms(4) by simp
    from mlb_rep_insert [OF rep k(1,2) m d this, of v] this Empty show ?thesis unfolding set by simp
  next
    case Overflow
    then show ?thesis using search_no_overflow [OF rep r(2)] by simp
  qed
qed


subsection \<open>The scan of an archive\<close>

text \<open>
  A member of an archive: its header, with the name, the date and the size that it shows, and its contents, which
  are padded to an even length.  A member without a name is the symbol table of the archive.
\<close>

type_synonym ar_member = "byte list \<times> byte list \<times> int \<times> byte list"

definition ar_header :: "ar_member \<Rightarrow> bool" where
  "ar_header = (\<lambda>(arf, name, v, body). length arf = SZ_ARHDR \<and> slice arf AR_fmag 2 = ARFMAG \<and> ar_modname arf = Inr name
     \<and> sscanf_ld 0 (drop AR_date arf) = (v, True) \<and> sscanf_ld 0 (drop AR_size arf) = (int (length body), True))"

definition ar_bytes :: "ar_member \<Rightarrow> byte list" where
  "ar_bytes = (\<lambda>(arf, name, v, body). arf @ body @ (if odd (length body) then [10] else []))"

text \<open>The modules of an archive of date \<open>mtime\<close>, in the order of the archive.\<close>

definition ar_modules :: "int \<Rightarrow> ar_member list \<Rightarrow> (byte list \<times> int) list" where
  "ar_modules mtime ms = map (\<lambda>(arf, name, v, body). (name, if v = 0 then mtime else v)) (filter (\<lambda>(arf, name, v, body). name \<noteq> []) ms)"

lemma mod_key_mono: "mod_key k m' \<Longrightarrow> dom m \<subseteq> dom m' \<Longrightarrow> mod_key k m"
  unfolding mod_key_def by blast

lemma sscanf_ld_any: "sscanf_ld 0 s = (v, True) \<Longrightarrow> sscanf_ld x s = (v, True)"
  by (auto simp: sscanf_ld_def Let_def split: if_splits)

lemma scan_turn_member:
  assumes "file = pre @ ar_bytes (arf, name, v, body) @ rest" "ar_header (arf, name, v, body)"
  shows "scan_turn file mtime (length pre, fd, t) =
    bindm (scan_entry mtime arf fd t) (\<lambda>(fd, t). Inr (Inr (length (pre @ ar_bytes (arf, name, v, body)), fd, t)))"
proof -
  have h: "length arf = SZ_ARHDR" "slice arf AR_fmag 2 = ARFMAG" "sscanf_ld 0 (drop AR_size arf) = (int (length body), True)"
    using assms(2) by (auto simp: ar_header_def)
  have got: "slice file (length pre) SZ_ARHDR = arf" using assms(1) h(1) by (simp add: slice_def ar_bytes_def)
  have ne: "arf \<noteq> []" using h(1) by auto
  show ?thesis using ne h
    by (auto simp: scan_turn_def got ar_bytes_def nat_add_distrib intro!: arg_cong [where f = "bindm _"] split: prod.splits)
qed

lemma scan_loop_correct:
  assumes "file = pre @ concat (map ar_bytes ms)" "list_all ar_header ms" "mlb_rep t m"
    "\<And>k. k \<in> fst ` set (ar_modules mtime ms) \<Longrightarrow> mod_key k m'" "dom m \<union> fst ` set (ar_modules mtime ms) \<subseteq> dom m'"
    "\<forall>(k, v) \<in> set (ar_modules mtime ms). 0 < v"
    "mlb_op t + sum_list (map (\<lambda>(k, v). length k + 1) (ar_modules mtime ms)) < SZ_SBUF"
  shows "\<exists>t'. scan_loop file mtime (length pre, fd, t) = Some (Inr (OK, t')) \<and> mlb_rep t' (m ++ map_of (rev (ar_modules mtime ms)))"
  using assms
proof (induction ms arbitrary: pre fd t m)
  case Nil
  have "scan_turn file mtime (length pre, fd, t) = Inr (Inl (OK, t))"
    using Nil.prems(1) by (simp add: scan_turn_def Let_def slice_def)
  then show ?case using Nil.prems(3) by (subst scan_loop.simps) (simp add: ar_modules_def)
next
  case (Cons x ms)
  obtain arf name v body where x: "x = (arf, name, v, body)" by (cases x)
  let ?d = "if v = 0 then mtime else v"
  let ?es = "ar_modules mtime ms"
  have hd: "ar_header (arf, name, v, body)" using Cons.prems(2) x by simp
  have fl: "file = pre @ ar_bytes x @ concat (map ar_bytes ms)" "file = (pre @ ar_bytes x) @ concat (map ar_bytes ms)"
    using Cons.prems(1) by simp_all
  have es: "ar_modules mtime (x # ms) = (if name = [] then [] else [(name, ?d)]) @ ?es" by (simp add: ar_modules_def x)
  have nm: "ar_modname arf = Inr name" "sscanf_ld fd (drop AR_date arf) = (v, True)"
    using hd sscanf_ld_any [of _ v fd] by (auto simp: ar_header_def)
  obtain fd' t1 where t1: "scan_entry mtime arf fd t = Inr (fd', t1)"
    "mlb_rep t1 (m ++ map_of (if name = [] then [] else [(name, ?d)]))"
    "mlb_op t1 + sum_list (map (\<lambda>(k, v). length k + 1) ?es) < SZ_SBUF"
  proof (cases "name = []")
    case True
    with nm Cons.prems(3,7) es show ?thesis by (intro that [of fd t]) (auto simp: scan_entry_def)
  next
    case False
    have "mod_key name m" by (rule mod_key_mono [of _ m']) (use Cons.prems(4,5) es False in auto)
    moreover have "0 < ?d" using Cons.prems(6) es False by auto
    moreover have "mlb_op t + length name + 1 < SZ_SBUF" using Cons.prems(7) es False by simp
    ultimately obtain t' where t': "mlb_setdate name ?d t = Inr (OK, t')" "mlb_rep t' (m(name \<mapsto> ?d))"
      "mlb_op t' \<le> mlb_op t + length name + 1" using mlb_setdate_correct [OF Cons.prems(3)] by metis
    show ?thesis
      by (rule that [of ?d t']) (use t' nm False Cons.prems(7) es in \<open>auto simp: scan_entry_def Let_def\<close>)
  qed
  have "scan_turn file mtime (length pre, fd, t) = Inr (Inr (length (pre @ ar_bytes x), fd', t1))"
    using scan_turn_member [OF fl(1) [unfolded x] hd, of mtime fd t] t1(1) by (simp add: x)
  then have "scan_loop file mtime (length pre, fd, t) = scan_loop file mtime (length (pre @ ar_bytes x), fd', t1)"
    by (subst scan_loop.simps) simp
  moreover have "\<exists>t'. scan_loop file mtime (length (pre @ ar_bytes x), fd', t1) = Some (Inr (OK, t'))
      \<and> mlb_rep t' ((m ++ map_of (if name = [] then [] else [(name, ?d)])) ++ map_of (rev ?es))"
    by (rule Cons.IH [OF fl(2) _ t1(2) Cons.prems(4) _ _ t1(3)]) (use Cons.prems es in \<open>auto simp: x\<close>)
  ultimately show ?case by (cases "name = []") (simp_all add: es)
qed


lemma mlb_rep_cleared:
  assumes "length (mlb_sbuf t) = SZ_SBUF" "length (mlb_fdate t) = MAX_LIBFILES"
  shows "mlb_rep (t\<lparr>mlb_modified := False, mlb_op := 1, mlb_index := replicate MAX_LIBFILES 0\<rparr>) Map.empty"
proof -
  have "{j. j < MAX_LIBFILES \<and> replicate MAX_LIBFILES (0 :: nat) ! j \<noteq> 0} = {}" by auto
  then show ?thesis using assms by (auto simp: mlb_rep_def mlb_ok_def module_at_def)
qed

text \<open>
  C20: the scan of a well-formed archive enters all its modules, and \<open>h_ardate\<close> then gives the date of the last
  member that is the object file of a source file, or zero when there is none; the date of the library stands for
  a date of zero.  This holds as long as the names fit into the string buffer, no name begins another one, and
  no hash is negative.
\<close>

theorem h_scanlibrary_correct:
  assumes "list_all ar_header ms" "length (mlb_sbuf t) = SZ_SBUF" "length (mlb_fdate t) = MAX_LIBFILES"
    "\<forall>(k, v) \<in> set (ar_modules mtime ms). 0 < v \<and> mod_key k (map_of (ar_modules mtime ms))"
    "1 + sum_list (map (\<lambda>(k, v). length k + 1) (ar_modules mtime ms)) < SZ_SBUF"
  shows "\<exists>t'. h_scanlibrary (Some (ARMAG @ concat (map ar_bytes ms), mtime)) fd t = Some (Inr (OK, t'))
    \<and> (\<forall>fname obj. makeobj fname = Inr obj \<longrightarrow> mod_key obj (map_of (ar_modules mtime ms)) \<longrightarrow>
         h_ardate fname t' = Inr (case map_of (rev (ar_modules mtime ms)) obj of None \<Rightarrow> 0 | Some v \<Rightarrow> v))"
proof -
  let ?es = "ar_modules mtime ms"
  let ?t = "t\<lparr>mlb_modified := False, mlb_op := 1, mlb_index := replicate MAX_LIBFILES 0\<rparr>"
  let ?file = "ARMAG @ concat (map ar_bytes ms)"
  have a: "length ARMAG = 8" by (simp add: ARMAG_def)
  have "\<exists>t'. scan_loop ?file mtime (length ARMAG, fd, ?t) = Some (Inr (OK, t')) \<and> mlb_rep t' (Map.empty ++ map_of (rev ?es))"
    by (rule scan_loop_correct [OF refl assms(1) mlb_rep_cleared [OF assms(2,3)], where m' = "map_of ?es"])
       (use assms(4,5) in \<open>auto simp: dom_map_of_conv_image_fst\<close>)
  then obtain t' where t': "scan_loop ?file mtime (8, fd, ?t) = Some (Inr (OK, t'))" "mlb_rep t' (map_of (rev ?es))"
    using a by auto
  have "h_ardate fname t' = Inr (case map_of (rev ?es) obj of None \<Rightarrow> 0 | Some v \<Rightarrow> v)"
    if "makeobj fname = Inr obj" "mod_key obj (map_of ?es)" for fname obj
  proof -
    have "mod_key obj (map_of (rev ?es))" by (rule mod_key_mono [OF that(2)]) (simp add: dom_map_of_conv_image_fst)
    then show ?thesis using mlb_getdate_correct [OF t'(2)] that(1) by (simp add: h_ardate_def)
  qed
  moreover have "h_scanlibrary (Some (?file, mtime)) fd t = Some (Inr (OK, t'))"
    using t'(1) a by (simp add: h_scanlibrary_def)
  ultimately show ?thesis by blast
qed

text \<open>An archive of one member, \<open>a.o\<close>, of date 5 and two bytes long.\<close>

definition demo_member :: ar_member where
  "demo_member = ([97, 46, 111, 47] @ replicate 12 32 @ [53] @ replicate 31 32 @ [50] @ replicate 9 32 @ [96, 10], [97, 46, 111], 5, [1, 2])"

definition demo_mlb :: mlb where
  "demo_mlb = \<lparr>mlb_sbuf = replicate SZ_SBUF 0, mlb_op = 0, mlb_index = [], mlb_fdate = replicate MAX_LIBFILES 0, mlb_modified = False\<rparr>"

lemma demo_member_ok: "ar_header demo_member" "ar_modules 0 [demo_member] = [([97, 46, 111], 5)]"
  by code_simp+

theorem h_scanlibrary_correct_witness:
  "\<exists>t'. h_scanlibrary (Some (ARMAG @ concat (map ar_bytes [demo_member]), 0)) 0 demo_mlb = Some (Inr (OK, t'))
    \<and> h_ardate [97, 46, 99] t' = Inr 5"
proof -
  have h: "0 \<le> mlb_hash [97, 46, 111]" "makeobj [97, 46, 99] = Inr [97, 46, 111]" by code_simp+
  have "length (mlb_sbuf demo_mlb) = SZ_SBUF" "length (mlb_fdate demo_mlb) = MAX_LIBFILES" by (simp_all add: demo_mlb_def)
  moreover have "mod_key [97, 46, 111] (map_of [([97, 46, 111], 5)])" using h by (simp add: mod_key_def)
  ultimately obtain t' where t': "h_scanlibrary (Some (ARMAG @ concat (map ar_bytes [demo_member]), 0)) 0 demo_mlb = Some (Inr (OK, t'))"
    "\<forall>fname obj. makeobj fname = Inr obj \<longrightarrow> mod_key obj (map_of [([97, 46, 111], 5)]) \<longrightarrow>
       h_ardate fname t' = Inr (case map_of (rev [([97, 46, 111], 5)]) obj of None \<Rightarrow> 0 | Some v \<Rightarrow> v)"
    using h_scanlibrary_correct [of "[demo_member]" demo_mlb 0 0] by (auto simp: demo_member_ok)
  have "h_ardate [97, 46, 99] t' = Inr 5" using t'(2) h \<open>mod_key _ _\<close> by fastforce
  with t'(1) show ?thesis by blast
qed

text \<open>The hash of a name of 26 characters may be negative, and the search then begins before the table.\<close>

lemma mlb_getdate_long: "mlb_getdate (replicate 26 122) t = Inl Fault"
proof -
  have "c_mod (mlb_hash (replicate 26 122)) (int MAX_LIBFILES) < 0" by code_simp
  then show ?thesis by (simp add: mlb_getdate_def Let_def)
qed

text \<open>A member whose size is shown as \<open>-60\<close> sends the scan back to its own header, for ever.\<close>

definition bad_header :: "byte list" where
  "bad_header = [47] @ replicate 15 32 @ [53] @ replicate 31 32 @ [45, 54, 48] @ replicate 7 32 @ [96, 10]"

lemma bad_header_scan: "scan_turn (ARMAG @ bad_header) mtime (8, fd, t) = Inr (Inr (8, fd, t))"
proof -
  have "length bad_header = SZ_ARHDR" "slice (ARMAG @ bad_header) 8 SZ_ARHDR = bad_header" "slice bad_header AR_fmag 2 = ARFMAG"
    "ar_modname bad_header = Inr []" "sscanf_ld 0 (drop AR_size bad_header) = (- 60, True)" "bad_header \<noteq> []" by code_simp+
  then show ?thesis by (simp add: scan_turn_def scan_entry_def)
qed

lemma scan_loop_bad:
  "scan_loop f mt s = Some r \<Longrightarrow> f = ARMAG @ bad_header \<longrightarrow> (\<forall>fd t. s \<noteq> (8, fd, t))"
  by (erule scan_loop.raw_induct [rotated]) (auto simp: bad_header_scan, blast)

theorem scan_diverges: "h_scanlibrary (Some (ARMAG @ bad_header, mtime)) fd t = None"
  proof -
  have "scan_loop (ARMAG @ bad_header) mtime (8, fd, t') = None" for t'
    using scan_loop_bad [of "ARMAG @ bad_header" mtime "(8, fd, t')"] by (cases "scan_loop (ARMAG @ bad_header) mtime (8, fd, t')") auto
  then show ?thesis by (simp add: h_scanlibrary_def ARMAG_def)
qed

end
