(* ===== verification/Mk_Token.thy ===== *)
theory Mk_Token
  imports Mk_Getc Mk_Library
begin

text \<open>
  Strings, words and conditional directives of \<open>mkpkg\<close>, from \<open>unix/boot/mkpkg/tok.c\<close>.  The reading routines run
  on \<open>m_getc\<close>; an output buffer is the list of the bytes written to it, and its size is checked at every store.  The
  warnings that these routines print (\<open>warns\<close>: a closing quote, a parenthesis or an \<open>=\<close> is missing, a macro, a symbol or
  a file is not found, an \<open>$endif\<close> is unmatched) change no state, and their texts are not part of the model; \<open>warns\<close> does
  not look whether the text is skipped.
\<close>

subsection \<open>Sequencing\<close>

definition bindo :: "'a mk option \<Rightarrow> ('a \<Rightarrow> 'b mk option) \<Rightarrow> 'b mk option" where
  "bindo r f = (case r of None \<Rightarrow> None | Some (Inl e) \<Rightarrow> Some (Inl e) | Some (Inr a) \<Rightarrow> f a)"

definition returno :: "'a mk \<Rightarrow> 'a mk option" where
  "returno r = Some r"

lemma bindo_simps [simp]: "bindo (Some (Inr a)) f = f a" "bindo (Some (Inl e)) f = Some (Inl e)" "bindo None f = None"
  by (simp_all add: bindo_def)

text \<open>A loop whose turn gives the result or the state of the next turn.\<close>

partial_function (option) mk_loop :: "('s \<Rightarrow> ('a + 's) mk option) \<Rightarrow> 's \<Rightarrow> 'a mk option" where
  "mk_loop f s =
     (case f s of
        None \<Rightarrow> None
      | Some r \<Rightarrow> (case r of Inl e \<Rightarrow> Some (Inl e) | Inr (Inl a) \<Rightarrow> Some (Inr a) | Inr (Inr s) \<Rightarrow> mk_loop f s))"

declare mk_loop.simps [code]

definition bytes_of :: "string \<Rightarrow> byte list" where
  "bytes_of s = map of_char s"

subsection \<open>Strings\<close>

abbreviation ESCAPE :: int where "ESCAPE \<equiv> 92"
abbreviation SZ_COMMAND :: nat where "SZ_COMMAND \<equiv> 2047"

definition put_out :: "nat \<Rightarrow> byte list \<Rightarrow> int list \<Rightarrow> byte list mk" where
  "put_out sz out cs = (if length out + length cs \<le> sz then Inr (out @ map word_of_int cs) else Inl Fault)"

text \<open>The loop of \<open>getstr\<close>: \<open>n\<close> more characters are read into a buffer of \<open>sz\<close> bytes.\<close>

fun getstr_loop :: "mkenv \<Rightarrow> pushback \<Rightarrow> nat \<Rightarrow> int \<Rightarrow> nat \<Rightarrow> byte list \<Rightarrow> mkctx \<Rightarrow> (byte list \<times> mkctx) mk option" where
  "getstr_loop E junk sz delim 0 out cx = Some (Inr (out, cx))"
| "getstr_loop E junk sz delim (Suc n) out cx =
     bindo (m_getc E junk cx) (\<lambda>(ch, cx).
     if ch = delim then Some (Inr (out, cx))
     else if ch = ESCAPE then
       bindo (m_getc E junk cx) (\<lambda>(ch, cx).
       if ch = 10 then getstr_loop E junk sz delim n out cx
       else
         bindo (returno (put_out sz out (if ch = delim then [ch] else [ESCAPE, ch]))) (\<lambda>out.
         getstr_loop E junk sz delim n out cx))
     else if ch = 10 \<or> ch = EOF then
       (if sz \<le> length out then Some (Inl Fault)
        else bindo (returno (m_ungetc junk 10 cx)) (\<lambda>cx. Some (Inr (out, cx))))
     else bindo (returno (put_out sz out [ch])) (\<lambda>out. getstr_loop E junk sz delim n out cx))"

text \<open>The result is what is in front of the EOS in \<open>outstr\<close>, an array of \<open>sz\<close> bytes.\<close>

definition getstr :: "mkenv \<Rightarrow> pushback \<Rightarrow> nat \<Rightarrow> int \<Rightarrow> int \<Rightarrow> mkctx \<Rightarrow> (byte list \<times> mkctx) mk option" where
  "getstr E junk sz maxch delim cx =
     bindo (getstr_loop E junk sz delim (nat maxch) [] cx) (\<lambda>(out, cx).
     if sz \<le> length out then Some (Inl Fault) else Some (Inr (out, cx)))"

text \<open>\<open>while ((ch = m_getc (cx)) == ' ')\<close>: the first character that is not a blank.\<close>

definition skip_blanks :: "mkenv \<Rightarrow> pushback \<Rightarrow> mkctx \<Rightarrow> (int \<times> mkctx) mk option" where
  "skip_blanks E junk = mk_loop (\<lambda>cx. bindo (m_getc E junk cx) (\<lambda>(ch, cx). Some (Inr (if ch = 32 then Inr cx else Inl (ch, cx)))))"

text \<open>What the reading routines share: the context and the cache of system files.\<close>

record mkin =
  in_cx :: mkctx
  in_fn :: fncache

abbreviation SYSFILE_BEGIN :: int where "SYSFILE_BEGIN \<equiv> 60"
abbreviation SYSFILE_END :: int where "SYSFILE_END \<equiv> 62"

text \<open>
  A file name in angle brackets, in an output buffer \<open>buf\<close> with \<open>maxch\<close> characters: the path of the system
  file, or the name in its brackets again.
\<close>

definition sysfile_name :: "syshost \<Rightarrow> byte list \<Rightarrow> byte list \<Rightarrow> int \<Rightarrow> fncache \<Rightarrow> (byte list \<times> fncache) mk" where
  "sysfile_name H name buf maxch c =
     (case m_sysfile H name buf maxch c of
        None \<Rightarrow> Inl Fault
      | Some ((n, buf'), c) \<Rightarrow>
          if 0 < n then (if 0 \<in> set buf' then Inr (cstr buf', c) else Inl Fault)
          else if length buf \<le> length name + 2 then Inl Fault
          else Inr (60 # name @ [62], c))"

text \<open>\<open>getargs\<close>, with the old contents of its static buffer \<open>args\<close>.\<close>

definition getargs :: "syshost \<Rightarrow> mkenv \<Rightarrow> pushback \<Rightarrow> byte list \<Rightarrow> 'z mkin_scheme \<Rightarrow> (byte list \<times> 'z mkin_scheme) mk option" where
  "getargs H E junk args st =
     bindo (skip_blanks E junk (in_cx st)) (\<lambda>(ch, cx).
     let delim = (if ch = 40 then 41 else if ch = 34 \<or> ch = 39 then ch else if ch = SYSFILE_BEGIN then SYSFILE_END else 32) in
     bindo (returno (if delim = 32 then m_ungetc junk ch cx else Inr cx)) (\<lambda>cx.
     bindo (getstr E junk (SZ_COMMAND + 1) (int SZ_COMMAND) delim cx) (\<lambda>(tok, cx).
     let tokbuf = cstr tok in
     if length args \<le> length tokbuf then Some (Inl Fault)
     else if delim = SYSFILE_END then
       bindo (returno (sysfile_name H tokbuf (blit args 0 (tokbuf @ [0])) (int SZ_PBBUF) (in_fn st))) (\<lambda>(s, fn).
       Some (Inr (s, st\<lparr>in_cx := cx, in_fn := fn\<rparr>)))
     else Some (Inr (tokbuf, st\<lparr>in_cx := cx\<rparr>)))))"

text \<open>
  The name in front of the \<open>=\<close>, in a buffer of \<open>sz\<close> bytes; \<open>None\<close> when the line ends before.  The loop has no test for
  the end of the input and none for the end of the buffer: it goes on storing characters, and the store behind the
  buffer is the fault.  When the line ends, the warning prints the buffer, which has no EOS yet: the text goes on
  with what the buffer held before, and it is a fault if there is no EOS in that either.
\<close>

definition kw_turn :: "mkenv \<Rightarrow> pushback \<Rightarrow> nat \<Rightarrow> byte list \<times> mkctx \<Rightarrow> (byte list option \<times> mkctx + byte list \<times> mkctx) mk option" where
  "kw_turn E junk sz = (\<lambda>(out, cx).
     bindo (m_getc E junk cx) (\<lambda>(ch, cx).
     if ch = 61 then (if sz \<le> length out then Some (Inl Fault) else Some (Inr (Inl (Some (cstr out), cx))))
     else if ch = 32 then Some (Inr (Inr (out, cx)))
     else if ch = 10 then
       (if 0 \<notin> set out \<union> set (drop (length out) (take sz (me_symbol E))) then Some (Inl Fault)
        else bindo (returno (m_ungetc junk 10 cx)) (\<lambda>cx. Some (Inr (Inl (None, cx)))))
     else bindo (returno (put_out sz out [ch])) (\<lambda>out. Some (Inr (Inr (out, cx))))))"

text \<open>\<open>getkwvpair\<close>: the symbol and its value, or \<open>None\<close> for \<open>ERR\<close>.\<close>

definition getkwvpair :: "syshost \<Rightarrow> mkenv \<Rightarrow> pushback \<Rightarrow> byte list \<Rightarrow> 'z mkin_scheme \<Rightarrow>
    ((byte list \<times> byte list) option \<times> 'z mkin_scheme) mk option" where
  "getkwvpair H E junk args st =
     bindo (skip_blanks E junk (in_cx st)) (\<lambda>(ch, cx).
     if \<not> isalpha ch then bindo (returno (m_ungetc junk ch cx)) (\<lambda>cx. Some (Inr (None, st\<lparr>in_cx := cx\<rparr>)))
     else
       bindo (mk_loop (kw_turn E junk (SZ_FNAME + 1)) ([word_of_int ch], cx)) (\<lambda>(symbol, cx).
       case symbol of
         None \<Rightarrow> Some (Inr (None, st\<lparr>in_cx := cx\<rparr>))
       | Some symbol \<Rightarrow> bindo (getargs H E junk args (st\<lparr>in_cx := cx\<rparr>)) (\<lambda>(val, st). Some (Inr (Some (symbol, val), st)))))"

text \<open>
  \<open>getword\<close>: \<open>ip\<close> is the place in the string that \<open>str\<close> points to, \<open>maxch\<close> the room in \<open>outstr\<close>; the results are the
  word and the new place.
\<close>

function word_start :: "mem \<Rightarrow> nat \<Rightarrow> nat mk" where
  "word_start m ip =
     (case rd m ip of None \<Rightarrow> Inl Fault
      | Some c \<Rightarrow> if c \<noteq> 0 \<and> isspace (sint c) then word_start m (ip + 1) else Inr ip)"
  by pat_completeness auto
termination by (relation "measure (\<lambda>(m, ip). length m - ip)") (auto simp: rd_def split: if_splits)

fun word_copy :: "mem \<Rightarrow> nat \<Rightarrow> nat \<Rightarrow> byte list \<Rightarrow> (byte list \<times> nat) mk" where
  "word_copy m ip 0 out = Inr (out, ip)"
| "word_copy m ip (Suc n) out =
     (case rd m ip of None \<Rightarrow> Inl Fault
      | Some ch \<Rightarrow> if ch = 0 \<or> isspace (sint ch) then Inr (out, ip + 1) else word_copy m (ip + 1) n (out @ [ch]))"

definition getword :: "mem \<Rightarrow> nat \<Rightarrow> nat \<Rightarrow> (byte list \<times> nat) mk" where
  "getword m str maxch = bindm (word_start m str) (\<lambda>ip. word_copy m ip maxch [])"

text \<open>
  \<open>getcmd\<close>: \<open>buf\<close> is the array \<open>cmd\<close>, with the prefix in it, and \<open>op\<close> the place of the next store.  A dollar sign ends
  the command only after a blank, and at the start of the array the character before it is looked at.
\<close>

definition put_at :: "mem \<Rightarrow> nat \<Rightarrow> int list \<Rightarrow> mem mk" where
  "put_at buf op cs = (if op + length cs \<le> length buf then Inr (blit buf op (map word_of_int cs)) else Inl Fault)"

definition cmd_turn :: "mkenv \<Rightarrow> pushback \<Rightarrow> nat \<Rightarrow> nat \<times> mem \<times> mkctx \<Rightarrow> ((nat \<times> mem \<times> mkctx) + (nat \<times> mem \<times> mkctx)) mk option" where
  "cmd_turn E junk maxch = (\<lambda>(op, buf, cx).
     if maxch \<le> op then Some (Inr (Inl (op, buf, cx)))
     else
       bindo (m_getc E junk cx) (\<lambda>(ch, cx).
       if ch = EOF then Some (Inr (Inl (op, buf, cx)))
       else if ch = ESCAPE then
         bindo (m_getc E junk cx) (\<lambda>(ch, cx).
         if ch = 10 then Some (Inr (Inr (op, buf, cx)))
         else bindo (returno (put_at buf op [ESCAPE, ch])) (\<lambda>buf. Some (Inr (Inr (op + 2, buf, cx)))))
       else if ch = 10 then bindo (returno (put_at buf op [0])) (\<lambda>buf. Some (Inr (Inl (op, buf, cx))))
       else if ch = 36 \<and> op = 0 then Some (Inl Fault)
       else if ch = 36 \<and> buf ! (op - 1) = 32 then
         bindo (returno (m_ungetc junk ch cx)) (\<lambda>cx.
         bindo (returno (put_at buf op [0])) (\<lambda>buf. Some (Inr (Inl (op, buf, cx)))))
       else bindo (returno (put_at buf op [ch])) (\<lambda>buf. Some (Inr (Inr (op + 1, buf, cx))))))"

definition getcmd :: "mkenv \<Rightarrow> pushback \<Rightarrow> byte list \<Rightarrow> nat \<Rightarrow> mem \<Rightarrow> mkctx \<Rightarrow> (nat \<times> mem \<times> mkctx) mk option" where
  "getcmd E junk prefix maxch buf cx =
     bindo (returno (if length prefix < length buf then Inr (blit buf 0 (prefix @ [0])) else Inl Fault)) (\<lambda>buf.
     mk_loop (cmd_turn E junk maxch) (length prefix, buf, cx))"

subsection \<open>Symbols\<close>

abbreviation STOP :: int where "STOP \<equiv> 0"
abbreviation PASS :: int where "PASS \<equiv> 1"
abbreviation SZ_IFSTACK :: nat where "SZ_IFSTACK \<equiv> 50"
abbreviation SZ_PREDBUF :: nat where "SZ_PREDBUF \<equiv> 1024"
abbreviation MAX_ARGS :: nat where "MAX_ARGS \<equiv> 50"

text \<open>
  The state of the preprocessor; \<open>old_iflev\<close> is that of the calling context, if there is one.
\<close>

record mktok = mkin +
  tk_syms :: mksyms
  tk_fd :: fdcache
  ifstate :: "int list"
  iflev :: int
  exit_status :: int
  old_iflev :: "int option"

definition if_get :: "int \<Rightarrow> mktok \<Rightarrow> int mk" where
  "if_get i st = (if 0 \<le> i \<and> nat i < length (ifstate st) then Inr (ifstate st ! nat i) else Inl Fault)"

definition if_set :: "int \<Rightarrow> int \<Rightarrow> mktok \<Rightarrow> mktok mk" where
  "if_set i v st = (if 0 \<le> i \<and> nat i < length (ifstate st) then Inr (st\<lparr>ifstate := (ifstate st)[nat i := v]\<rparr>) else Inl Fault)"

definition tk_env :: "mkenv \<Rightarrow> mktok \<Rightarrow> mkenv" where
  "tk_env E st = E\<lparr>me_syms := tk_syms st\<rparr>"

definition do_set :: "syshost \<Rightarrow> mkenv \<Rightarrow> pushback \<Rightarrow> byte list \<Rightarrow> mktok \<Rightarrow> mktok mk option" where
  "do_set H E junk args st =
     bindo (getkwvpair H (tk_env E st) junk args st) (\<lambda>(kv, st).
     case kv of
       None \<Rightarrow> Some (Inr st)
     | Some (symbol, val) \<Rightarrow>
         bindo (returno (if_get (iflev st) st)) (\<lambda>state.
         if state = STOP then Some (Inr st)
         else bindo (returno (putsym symbol val (tk_syms st))) (\<lambda>syms. Some (Inr (st\<lparr>tk_syms := syms\<rparr>)))))"

subsection \<open>Conditional directives\<close>

text \<open>The wait for the parenthesis; a line feed or the end of the file is only warned about.\<close>

definition open_paren :: "mkenv \<Rightarrow> pushback \<Rightarrow> mkctx \<Rightarrow> mkctx mk option" where
  "open_paren E junk = mk_loop (\<lambda>cx. bindo (m_getc E junk cx) (\<lambda>(ch, cx). Some (Inr (if ch = 40 then Inl cx else Inr cx))))"

text \<open>
  The predicate: \<open>out\<close> is what is in \<open>buf\<close>, an array whose old contents are \<open>pbuf\<close>, and \<open>argv\<close> are the places where
  the arguments begin.
\<close>

definition pred_turn :: "syshost \<Rightarrow> mkenv \<Rightarrow> pushback \<Rightarrow> byte list \<Rightarrow> byte list \<times> nat list \<times> mktok \<Rightarrow>
    (byte list list \<times> mktok + byte list \<times> nat list \<times> mktok) mk option" where
  "pred_turn H E junk pbuf = (\<lambda>(out, argv, st).
     bindo (m_getc (tk_env E st) junk (in_cx st)) (\<lambda>(ch, cx).
     if ch = 41 then
       (if SZ_PREDBUF \<le> length out then Some (Inl Fault)
        else Some (Inr (Inl (map (\<lambda>a. cstr (drop a (out @ [0]))) argv, st\<lparr>in_cx := cx\<rparr>))))
     else if ch = ESCAPE then
       bindo (m_getc (tk_env E st) junk cx) (\<lambda>(ch, cx).
       if ch = 10 then Some (Inr (Inr (out, argv, st\<lparr>in_cx := cx\<rparr>)))
       else bindo (returno (put_out SZ_PREDBUF out [ch])) (\<lambda>out. Some (Inr (Inr (out, argv, st\<lparr>in_cx := cx\<rparr>)))))
     else if ch = 10 \<or> ch = EOF \<or> ch = 32 then Some (Inr (Inr (out, argv, st\<lparr>in_cx := cx\<rparr>)))
     else if ch = SYSFILE_BEGIN \<and> length out = last argv then
       bindo (getstr (tk_env E st) junk (SZ_COMMAND + 1) (int SZ_COMMAND) SYSFILE_END cx) (\<lambda>(tok, cx).
       bindo (returno (sysfile_name H (cstr tok) (drop (length out) pbuf) (int SZ_PREDBUF - int (length out)) (in_fn st))) (\<lambda>(s, fn).
       Some (Inr (Inr (out @ s, argv, st\<lparr>in_cx := cx, in_fn := fn\<rparr>)))))
     else if ch = 58 \<or> ch = 44 then
       bindo (returno (put_out SZ_PREDBUF out [0])) (\<lambda>out.
       if MAX_ARGS \<le> length argv then Some (Inl Fault)
       else Some (Inr (Inr (out, argv @ [length out], st\<lparr>in_cx := cx\<rparr>))))
     else bindo (returno (put_out SZ_PREDBUF out [ch])) (\<lambda>out. Some (Inr (Inr (out, argv, st\<lparr>in_cx := cx\<rparr>))))))"

definition read_predicate :: "syshost \<Rightarrow> mkenv \<Rightarrow> pushback \<Rightarrow> byte list \<Rightarrow> mktok \<Rightarrow> (byte list list \<times> mktok) mk option" where
  "read_predicate H E junk pbuf st =
     bindo (open_paren (tk_env E st) junk (in_cx st)) (\<lambda>cx.
     mk_loop (pred_turn H E junk pbuf) ([], [0], st\<lparr>in_cx := cx\<rparr>))"

text \<open>The comparison of a date with the dates of files, which come from the cache.\<close>

fun older_loop :: "(byte list \<Rightarrow> int) \<Rightarrow> int \<Rightarrow> byte list list \<Rightarrow> fdcache \<Rightarrow> (bool \<times> fdcache) mk" where
  "older_loop os_fdate fd [] c = Inr (False, c)"
| "older_loop os_fdate fd (f # fs) c =
     (case m_fdate os_fdate f c of None \<Rightarrow> Inl Fault
      | Some (altdate, c) \<Rightarrow> if altdate \<le> 0 \<or> fd < altdate then Inr (True, c) else older_loop os_fdate fd fs c)"

fun newer_loop :: "(byte list \<Rightarrow> int) \<Rightarrow> int \<Rightarrow> byte list list \<Rightarrow> fdcache \<Rightarrow> (bool \<times> fdcache) mk" where
  "newer_loop os_fdate fd [] c = Inr (False, c)"
| "newer_loop os_fdate fd (f # fs) c =
     (case m_fdate os_fdate f c of None \<Rightarrow> Inl Fault
      | Some (altdate, c) \<Rightarrow> if 0 < altdate \<and> fd > altdate then Inr (True, c) else newer_loop os_fdate fd fs c)"

text \<open>The value of a symbol, or of an environment variable.\<close>

definition sym_or_env :: "mkenv \<Rightarrow> byte list \<Rightarrow> mktok \<Rightarrow> byte list option mk" where
  "sym_or_env E name st =
     bindm (getsym name (tk_syms st)) (\<lambda>p.
     case p of
       None \<Rightarrow> Inr (me_getenv E name)
     | Some p \<Rightarrow> (case str_at (sbuf (tk_syms st)) p of None \<Rightarrow> Inl Fault | Some v \<Rightarrow> Inr (Some v)))"

text \<open>The statement that \<open>key\<close> names; \<open>argv\<close> is not empty, and \<open>argv[1]\<close> is not set when there is one argument.\<close>

definition eval_predicate :: "syshost \<Rightarrow> (byte list \<Rightarrow> int) \<Rightarrow> mkenv \<Rightarrow> byte list \<Rightarrow> byte list list \<Rightarrow> mktok \<Rightarrow> (bool \<times> mktok) mk" where
  "eval_predicate H os_fdate E key argv st =
     (if key = bytes_of ''def'' then bindm (sym_or_env E (argv ! 0) st) (\<lambda>v. Inr (v \<noteq> None, st))
      else if key = bytes_of ''eq'' then
        bindm (sym_or_env E (argv ! 0) st) (\<lambda>v.
        case v of None \<Rightarrow> Inr (False, st) | Some v \<Rightarrow> Inr (length argv = 1 \<or> v \<in> set (tl argv), st))
      else if key = bytes_of ''file'' then Inr (list_ex (os_access H) argv, st)
      else if key = bytes_of ''older'' \<or> key = bytes_of ''newer'' then
        (if length argv < 2 then Inl Fault
         else if \<not> os_access H (argv ! 1) then Inr (True, st)
         else
           let fd = os_fdate (argv ! 0) in
           if fd \<le> 0 then Inr (True, st)
           else
             bindm (if key = bytes_of ''older'' then older_loop os_fdate fd (tl argv) (tk_fd st) else newer_loop os_fdate fd (tl argv) (tk_fd st))
               (\<lambda>(b, c). Inr (b, st\<lparr>tk_fd := c\<rparr>)))
      else if key = bytes_of ''err'' then Inr (exit_status st \<noteq> 0, st)
      else Inr (False, st))"

definition do_if :: "syshost \<Rightarrow> (byte list \<Rightarrow> int) \<Rightarrow> mkenv \<Rightarrow> pushback \<Rightarrow> byte list \<Rightarrow> byte list \<Rightarrow> mktok \<Rightarrow> mktok mk option" where
  "do_if H os_fdate E junk pbuf keyword st =
     (let key = drop 3 keyword;
          negate = (first_char key = 110 \<and> take 5 key \<noteq> bytes_of ''newer'');
          key = (if negate then tl key else key)
      in
        bindo (read_predicate H E junk pbuf st) (\<lambda>(argv, st).
        let st = st\<lparr>iflev := iflev st + 1\<rparr> in
        bindo (returno (if_get (iflev st - 1) st)) (\<lambda>state.
        if state = STOP then returno (if_set (iflev st) STOP st)
        else
          bindo (returno (eval_predicate H os_fdate E key argv st)) (\<lambda>(bval, st).
          returno (if_set (iflev st) (if bval \<noteq> negate then PASS else STOP) st)))))"

definition do_else :: "mktok \<Rightarrow> mktok mk" where
  "do_else st =
     (if iflev st < 1 then Inr st
      else
        bindm (if iflev st > 1 then if_get (iflev st - 1) st else Inr PASS) (\<lambda>state.
        if state = STOP then Inr st
        else bindm (if_get (iflev st) st) (\<lambda>cur. if_set (iflev st) (if cur = PASS then STOP else PASS) st)))"

definition do_endif :: "mktok \<Rightarrow> mktok" where
  "do_endif st = st\<lparr>iflev := iflev st - 1\<rparr>"

definition do_end :: "mktok \<Rightarrow> mktok" where
  "do_end st = st\<lparr>iflev := (case old_iflev st of Some l \<Rightarrow> if l \<ge> 0 then l else 0 | None \<Rightarrow> 0)\<rparr>"

end
