(* ===== verification/Mk_Directive.thy ===== *)
theory Mk_Directive
  imports Mk_Token
begin

text \<open>
  What the reading routines of \<open>Mk_Token\<close> do with text that has no macro in it, and the conditional directives of
  \<open>mkpkg\<close> as operations on the list of the conditions that are open.
\<close>

subsection \<open>Plain text\<close>

lemma m_getc_plain:
  assumes "cx_strs cx ss" "unread cx ss = c # p" "c \<noteq> 36"
  shows "\<exists>cx' ss'. m_getc E junk cx = Some (Inr (untab c, cx')) \<and> cx_strs cx' ss' \<and> unread cx' ss' = p \<and> pbchar cx' = 0"
proof -
  obtain c' cx' ss' where *: "m_rawgetc cx = Inr (c', cx')" "cx_strs cx' ss'" "pbchar cx' = 0"
    "unread cx ss = [] \<and> c' = EOF \<and> unread cx' ss' = [] \<or> unread cx ss = c' # unread cx' ss'
      \<and> (pbchar cx = 0 \<longrightarrow> weight ss' (cx_file cx') \<le> weight ss (cx_file cx))"
    using m_rawgetc_next [OF assms(1)] by metis
  then have "m_getc E junk cx = Some (Inr (untab c', cx'))" "c' = c" "unread cx' ss' = p"
    using assms(2,3) by (auto simp: m_getc.simps [of E junk cx] getc_turn_def)
  with * show ?thesis by blast
qed

lemma m_getc_char:
  assumes "cx_strs cx ss" "unread cx ss = c # p" "c \<notin> {9, 36}"
  obtains cx' ss' where "m_getc E junk cx = Some (Inr (c, cx'))" "cx_strs cx' ss'" "unread cx' ss' = p"
proof -
  have "c \<noteq> 36" using assms(3) by simp
  from m_getc_plain [OF assms(1,2) this, of E junk] obtain cx' ss' where "m_getc E junk cx = Some (Inr (untab c, cx'))"
    "cx_strs cx' ss'" "unread cx' ss' = p" by blast
  moreover have "untab c = c" using assms(3) by (simp add: untab_def)
  ultimately show ?thesis using that by simp
qed

lemma m_getc_end:
  assumes "cx_strs cx ss" "unread cx ss = []"
  shows "\<exists>cx' ss'. m_getc E junk cx = Some (Inr (EOF, cx')) \<and> cx_strs cx' ss' \<and> unread cx' ss' = [] \<and> pbchar cx' = 0"
proof -
  obtain c' cx' ss' where *: "m_rawgetc cx = Inr (c', cx')" "cx_strs cx' ss'" "pbchar cx' = 0"
    "unread cx ss = [] \<and> c' = EOF \<and> unread cx' ss' = [] \<or> unread cx ss = c' # unread cx' ss'
      \<and> (pbchar cx = 0 \<longrightarrow> weight ss' (cx_file cx') \<le> weight ss (cx_file cx))"
    using m_rawgetc_next [OF assms(1)] by metis
  then have "m_getc E junk cx = Some (Inr (EOF, cx'))" "unread cx' ss' = []"
    using assms(2) by (auto simp: m_getc.simps [of E junk cx] getc_turn_def untab_def)
  with * show ?thesis by blast
qed

text \<open>A string between delimiters, in which the delimiter is escaped.\<close>

definition quote :: "int \<Rightarrow> int list \<Rightarrow> int list" where
  "quote delim t = concat (map (\<lambda>c. if c = delim then [ESCAPE, c] else [c]) t)"

definition plain_char :: "int \<Rightarrow> bool" where
  "plain_char c \<longleftrightarrow> c \<notin> {9, 10, 36, ESCAPE, EOF}"

lemma getstr_loop_quote:
  assumes "cx_strs cx ss" "unread cx ss = quote delim t @ delim # p" "list_all plain_char t" "plain_char delim"
    "length t < n" "length out + length t \<le> sz"
  shows "\<exists>cx' ss'. getstr_loop E junk sz delim n out cx = Some (Inr (out @ map word_of_int t, cx')) \<and> cx_strs cx' ss' \<and> unread cx' ss' = p"
  using assms
proof (induction t arbitrary: cx ss n out)
  case Nil
  then obtain k where n: "n = Suc k" by (cases n) auto
  obtain cx' ss' where "m_getc E junk cx = Some (Inr (delim, cx'))" "cx_strs cx' ss'" "unread cx' ss' = p"
    by (rule m_getc_char [OF Nil.prems(1), of delim p]) (use Nil.prems(2,4) in \<open>auto simp: quote_def plain_char_def\<close>)
  then show ?case by (auto simp: n)
next
  case (Cons c t)
  obtain k where n: "n = Suc k" using Cons.prems(5) by (cases n) auto
  have c: "plain_char c" using Cons.prems(3) by simp
  show ?case
  proof (cases "c = delim")
    case False
    then have p: "unread cx ss = c # quote delim t @ delim # p" using Cons.prems(2) by (simp add: quote_def)
    obtain cx1 ss1 where g: "m_getc E junk cx = Some (Inr (c, cx1))" "cx_strs cx1 ss1" "unread cx1 ss1 = quote delim t @ delim # p"
      by (rule m_getc_char [OF Cons.prems(1) p]) (use c in \<open>auto simp: plain_char_def\<close>)
    have "put_out sz out [c] = Inr (out @ [word_of_int c])" using Cons.prems(6) by (simp add: put_out_def)
    then have "getstr_loop E junk sz delim n out cx = getstr_loop E junk sz delim k (out @ [word_of_int c]) cx1"
      using False c g(1) by (simp add: n returno_def plain_char_def)
    then show ?thesis using Cons.IH [OF g(2,3), of k "out @ [word_of_int c]"] Cons.prems n by simp
  next
    case True
    then have p: "unread cx ss = ESCAPE # c # quote delim t @ delim # p" using Cons.prems(2) by (simp add: quote_def)
    obtain cx1 ss1 where g: "m_getc E junk cx = Some (Inr (ESCAPE, cx1))" "cx_strs cx1 ss1" "unread cx1 ss1 = c # quote delim t @ delim # p"
      by (rule m_getc_char [OF Cons.prems(1) p]) auto
    obtain cx2 ss2 where h: "m_getc E junk cx1 = Some (Inr (c, cx2))" "cx_strs cx2 ss2" "unread cx2 ss2 = quote delim t @ delim # p"
      by (rule m_getc_char [OF g(2,3)]) (use c in \<open>auto simp: plain_char_def\<close>)
    have "put_out sz out [c] = Inr (out @ [word_of_int c])" using Cons.prems(6) by (simp add: put_out_def)
    then have "getstr_loop E junk sz delim n out cx = getstr_loop E junk sz delim k (out @ [word_of_int c]) cx2"
      using True c g(1) h(1) by (simp add: n returno_def plain_char_def)
    then show ?thesis using Cons.IH [OF h(2,3), of k "out @ [word_of_int c]"] Cons.prems n by simp
  qed
qed

text \<open>
  \<open>getstr\<close> reads back a string that was written between delimiters, with a backslash in front of every
  delimiter in it, and leaves the input behind the closing delimiter.
\<close>

theorem getstr_quote:
  assumes "cx_strs cx ss" "unread cx ss = quote delim t @ delim # p" "list_all plain_char t" "plain_char delim"
    "int (length t) < maxch" "maxch < int sz"
  shows "\<exists>cx' ss'. getstr E junk sz maxch delim cx = Some (Inr (map word_of_int t, cx')) \<and> cx_strs cx' ss' \<and> unread cx' ss' = p"
proof -
  obtain cx' ss' where "getstr_loop E junk sz delim (nat maxch) [] cx = Some (Inr (map word_of_int t, cx'))" "cx_strs cx' ss'" "unread cx' ss' = p"
    using getstr_loop_quote [OF assms(1-4), of "nat maxch" "[]" sz E junk] assms(5,6) by (auto simp: zless_nat_eq_int_zless)
  then show ?thesis using assms(5,6) by (auto simp: getstr_def)
qed

text \<open>Every other escaped character takes two places of the buffer, but only one of \<open>maxch\<close>.\<close>

lemma getstr_loop_escapes:
  assumes "cx_strs cx ss" "unread cx ss = concat (replicate k [ESCAPE, 120]) @ p" "delim \<noteq> ESCAPE" "delim \<noteq> 120"
    "k \<le> n" "length out \<le> sz" "sz < length out + 2 * k"
  shows "getstr_loop E junk sz delim n out cx = Some (Inl Fault)"
  using assms
proof (induction k arbitrary: cx ss n out)
  case (Suc k)
  obtain m where n: "n = Suc m" using Suc.prems(5) by (cases n) auto
  let ?q = "concat (replicate k [ESCAPE, 120]) @ p"
  have p: "unread cx ss = ESCAPE # 120 # ?q" using Suc.prems(2) by simp
  obtain cx1 ss1 where g: "m_getc E junk cx = Some (Inr (ESCAPE, cx1))" "cx_strs cx1 ss1" "unread cx1 ss1 = 120 # ?q"
    by (rule m_getc_char [OF Suc.prems(1) p]) auto
  obtain cx2 ss2 where h: "m_getc E junk cx1 = Some (Inr (120, cx2))" "cx_strs cx2 ss2" "unread cx2 ss2 = ?q"
    by (rule m_getc_char [OF g(2,3)]) auto
  show ?case
  proof (cases "length out + 2 \<le> sz")
    case True
    then have "getstr_loop E junk sz delim n out cx = getstr_loop E junk sz delim m (out @ [92, 120]) cx2"
      using Suc.prems(3,4) g(1) h(1) by (simp add: n returno_def put_out_def)
    then show ?thesis using Suc.IH [OF h(2,3), of m "out @ [92, 120]"] Suc.prems n True by simp
  next
    case False
    then show ?thesis using Suc.prems(3,4) g(1) h(1) by (simp add: n returno_def put_out_def)
  qed
qed simp


subsection \<open>Loops\<close>


lemma mk_loop_post:
  fixes f :: "'s \<Rightarrow> ('a + 's) mk option"
  assumes "mk_loop f s = Some (Inr a)" "I s" "\<And>s s'. I s \<Longrightarrow> f s = Some (Inr (Inr s')) \<Longrightarrow> I s'"
    "\<And>s a. I s \<Longrightarrow> f s = Some (Inr (Inl a)) \<Longrightarrow> Q a"
  shows "Q a"
proof -
  have "mk_loop g s = Some r \<Longrightarrow> g = f \<longrightarrow> I s \<longrightarrow> (\<forall>a. r = Inr a \<longrightarrow> Q a)" for g s r
  proof (erule mk_loop.raw_induct [rotated])
    fix loop :: "('s \<Rightarrow> ('a + 's) mk option) \<Rightarrow> 's \<Rightarrow> 'a mk option" and g s r
    assume IH: "\<And>g s r. loop g s = Some r \<Longrightarrow> g = f \<longrightarrow> I s \<longrightarrow> (\<forall>a. r = Inr a \<longrightarrow> Q a)"
      and r: "(case g s of None \<Rightarrow> None | Some (Inl e) \<Rightarrow> Some (Inl e) | Some (Inr (Inl a)) \<Rightarrow> Some (Inr a)
        | Some (Inr (Inr s)) \<Rightarrow> loop g s) = Some r"
    show "g = f \<longrightarrow> I s \<longrightarrow> (\<forall>a. r = Inr a \<longrightarrow> Q a)"
    proof (intro impI allI)
      fix a assume *: "g = f" "I s" "r = Inr a"
      show "Q a"
      proof (cases "f s")
        case (Some x)
        show ?thesis
        proof (cases x)
          case (Inr y)
          then show ?thesis using Some * r assms(3,4) IH [of f] by (cases y) auto
        qed (use Some * r in auto)
      qed (use * r in auto)
    qed
  qed
  with assms(1,2) show ?thesis by blast
qed

lemma mk_loop_diverges:
  fixes f :: "'s \<Rightarrow> ('a + 's) mk option"
  assumes "I s" "\<And>s. I s \<Longrightarrow> \<exists>s'. f s = Some (Inr (Inr s')) \<and> I s'"
  shows "mk_loop f s = None"
proof -
  have "mk_loop g s = Some r \<Longrightarrow> g = f \<longrightarrow> \<not> I s" for g s r
  proof (erule mk_loop.raw_induct [rotated])
    fix loop :: "('s \<Rightarrow> ('a + 's) mk option) \<Rightarrow> 's \<Rightarrow> 'a mk option" and g s r
    assume IH: "\<And>g s r. loop g s = Some r \<Longrightarrow> g = f \<longrightarrow> \<not> I s"
      and r: "(case g s of None \<Rightarrow> None | Some (Inl e) \<Rightarrow> Some (Inl e) | Some (Inr (Inl a)) \<Rightarrow> Some (Inr a)
        | Some (Inr (Inr s)) \<Rightarrow> loop g s) = Some r"
    show "g = f \<longrightarrow> \<not> I s"
    proof (intro impI notI)
      assume "g = f" "I s"
      with assms(2) [of s] r IH [of f] show False by auto
    qed
  qed
  then have "mk_loop f s \<noteq> Some r" for r using assms(1) by blast
  then show ?thesis by (metis option.exhaust)
qed

text \<open>
  at the end of the input \<open>$if\<close> waits for its parenthesis for ever.
\<close>

theorem open_paren_diverges:
  assumes "cx_strs cx ss" "unread cx ss = []"
  shows "open_paren E junk cx = None"
  unfolding open_paren_def
proof (rule mk_loop_diverges [where I = "\<lambda>cx. \<exists>ss. cx_strs cx ss \<and> unread cx ss = []"])
  fix cx assume "\<exists>ss. cx_strs cx ss \<and> unread cx ss = []"
  then obtain ss where "cx_strs cx ss" "unread cx ss = []" by blast
  from m_getc_end [OF this, of E junk] obtain cx' ss' where
    "m_getc E junk cx = Some (Inr (EOF, cx'))" "cx_strs cx' ss'" "unread cx' ss' = []" by blast
  then show "\<exists>s'. bindo (m_getc E junk cx) (\<lambda>(ch, cx). Some (Inr (if ch = 40 then Inl cx else Inr cx))) = Some (Inr (Inr s'))
    \<and> (\<exists>ss. cx_strs s' ss \<and> unread s' ss = [])" by auto
qed (use assms in blast)

subsection \<open>The stack of conditions\<close>

text \<open>
  The conditions of the directives that are open, the innermost first; text is processed where all of them hold.
\<close>

definition if_rep :: "mktok \<Rightarrow> bool list \<Rightarrow> bool" where
  "if_rep st bs \<longleftrightarrow> length (ifstate st) = SZ_IFSTACK \<and> iflev st = int (length bs) \<and> length bs < SZ_IFSTACK
     \<and> (\<forall>k \<le> length bs. ifstate st ! k = (if list_all id (take k (rev bs)) then PASS else STOP))"

lemma if_rep_cons:
  "if_rep st (b # bs) \<longleftrightarrow> length (ifstate st) = SZ_IFSTACK \<and> iflev st = int (length bs) + 1 \<and> length bs + 1 < SZ_IFSTACK
     \<and> (\<forall>k \<le> length bs. ifstate st ! k = (if list_all id (take k (rev bs)) then PASS else STOP))
     \<and> ifstate st ! (length bs + 1) = (if b \<and> list_all id bs then PASS else STOP)"
  by (auto simp: if_rep_def le_Suc_eq all_conj_distrib)


lemma if_rep_get: "if_rep st bs \<Longrightarrow> if_get (iflev st) st = Inr (if list_all id bs then PASS else STOP)"
  by (simp add: if_rep_def if_get_def)

lemma if_rep_outer: "if_rep st (b # bs) \<Longrightarrow> if_get (iflev st - 1) st = Inr (if list_all id bs then PASS else STOP)"
  by (simp add: if_rep_cons if_get_def)

text \<open>The state of the conditions does not depend on the rest of the state.\<close>

definition same_ifs :: "mktok \<Rightarrow> mktok \<Rightarrow> bool" where
  "same_ifs st st' \<longleftrightarrow> ifstate st' = ifstate st \<and> iflev st' = iflev st"

lemma if_rep_same: "same_ifs st st' \<Longrightarrow> if_rep st' bs = if_rep st bs"
  by (simp add: same_ifs_def if_rep_def)

lemma if_rep_set:
  assumes "if_rep st (b # bs)"
  shows "\<exists>st'. if_set (iflev st) (if c \<and> list_all id bs then PASS else STOP) st = Inr st' \<and> if_rep st' (c # bs) \<and> tk_fd st' = tk_fd st"
proof -
  have "nat (iflev st) = length bs + 1" "length bs + 1 < length (ifstate st)" using assms by (auto simp: if_rep_cons)
  with assms show ?thesis by (auto simp: if_set_def if_rep_cons nth_list_update)
qed

lemma if_rep_push:
  assumes "if_rep st bs" "length bs + 1 < SZ_IFSTACK"
  shows "\<exists>st'. if_set (iflev st + 1) (if c \<and> list_all id bs then PASS else STOP) (st\<lparr>iflev := iflev st + 1\<rparr>) = Inr st'
    \<and> if_rep st' (c # bs) \<and> tk_fd st' = tk_fd st"
proof -
  have "nat (iflev st + 1) = length bs + 1" "length bs + 1 < length (ifstate st)" using assms by (auto simp: if_rep_def)
  with assms show ?thesis by (auto simp: if_set_def if_rep_def if_rep_cons nth_list_update)
qed

lemma bindo_Inr: "bindo r f = Some (Inr b) \<longleftrightarrow> (\<exists>a. r = Some (Inr a) \<and> f a = Some (Inr b))"
  by (simp add: bindo_def split: option.splits sum.splits)

lemma bindm_Inr: "bindm r f = Inr b \<longleftrightarrow> (\<exists>a. r = Inr a \<and> f a = Inr b)"
  by (simp add: bindm_def split: sum.splits)

lemma pred_turn_same:
  "pred_turn H E junk pbuf (out, argv, st) = Some (Inr (Inl (as, st'))) \<Longrightarrow> same_ifs st st' \<and> tk_fd st' = tk_fd st"
  "pred_turn H E junk pbuf (out, argv, st) = Some (Inr (Inr (out', argv', st'))) \<Longrightarrow> same_ifs st st' \<and> tk_fd st' = tk_fd st"
  by (auto simp: pred_turn_def bindo_Inr same_ifs_def split: prod.splits if_splits)

lemma read_predicate_same:
  assumes "read_predicate H E junk pbuf st = Some (Inr (argv, st'))"
  shows "same_ifs st st' \<and> tk_fd st' = tk_fd st"
proof -
  obtain cx where "mk_loop (pred_turn H E junk pbuf) ([], [0], st\<lparr>in_cx := cx\<rparr>) = Some (Inr (argv, st'))"
    using assms by (auto simp: read_predicate_def bindo_Inr)
  then have "(\<lambda>(argv, st'). same_ifs st st' \<and> tk_fd st' = tk_fd st) (argv, st')"
    by (rule mk_loop_post [where I = "\<lambda>(out, argv, st'). same_ifs st st' \<and> tk_fd st' = tk_fd st"])
       (auto simp: same_ifs_def dest!: pred_turn_same)
  then show ?thesis by simp
qed

lemma eval_predicate_same:
  "eval_predicate H os_fdate E key argv st = Inr (b, st') \<Longrightarrow> same_ifs st st'"
  unfolding eval_predicate_def Let_def same_ifs_def
  by (auto simp: bindm_Inr split: if_splits option.splits)

text \<open>
  C11: nested conditional directives.  Text is processed exactly where all conditions that are open hold:
  \<open>$else\<close> negates the innermost condition, \<open>$endif\<close> drops it.
\<close>

theorem do_else_endif_correct:
  assumes "if_rep st (b # bs)"
  shows "if_get (iflev st) st = Inr (if list_all id (b # bs) then PASS else STOP)
    \<and> (\<exists>st'. do_else st = Inr st' \<and> if_rep st' ((\<not> b) # bs)) \<and> if_rep (do_endif st) bs"
proof -
  have get: "if_get (iflev st) st = Inr (if list_all id (b # bs) then PASS else STOP)" by (rule if_rep_get [OF assms])
  have lev: "iflev st = int (length bs) + 1" using assms by (simp add: if_rep_cons)
  have "\<exists>st'. do_else st = Inr st' \<and> if_rep st' ((\<not> b) # bs)"
  proof (cases "list_all id bs")
    case True
    have "(if (if b then PASS else STOP) = PASS then STOP else PASS) = (if \<not> b \<and> list_all id bs then PASS else STOP)"
      using True by simp
    then have "do_else st = if_set (iflev st) (if \<not> b \<and> list_all id bs then PASS else STOP) st"
      using lev True get if_rep_outer [OF assms] by (auto simp: do_else_def)
    then show ?thesis using if_rep_set [OF assms] by metis
  next
    case False
    then have "bs \<noteq> []" by auto
    then have "do_else st = Inr st" using lev False if_rep_outer [OF assms] by (auto simp: do_else_def)
    then show ?thesis using assms False by (auto simp: if_rep_cons)
  qed
  moreover have "if_rep (do_endif st) bs" using assms by (auto simp: if_rep_cons if_rep_def do_endif_def)
  ultimately show ?thesis using get by blast
qed

definition if_keys :: "byte list set" where
  "if_keys = bytes_of ` {''def'', ''eq'', ''file'', ''older'', ''newer'', ''err''}"

lemma if_keys_not: "key \<in> if_keys \<Longrightarrow> first_char key = 110 \<longrightarrow> take 5 key = bytes_of ''newer''"
  "key \<in> if_keys \<Longrightarrow> take 5 (110 # key) \<noteq> bytes_of ''newer''"
  by (auto simp: if_keys_def bytes_of_def first_char_def)

text \<open>
  C10: \<open>$if\<close> and its negation \<open>$ifn\<close> open a condition, the value of the predicate; in text that is skipped the
  predicate is read but not evaluated, and the condition does not matter.
\<close>

theorem do_if_correct:
  assumes "if_rep st bs" "length bs + 1 < SZ_IFSTACK" "read_predicate H E junk pbuf st = Some (Inr (argv, st1))"
    "key \<in> if_keys" "keyword = bytes_of ''$if'' @ (if n then [110] else []) @ key"
    "list_all id bs \<Longrightarrow> eval_predicate H os_fdate E key argv (st1\<lparr>iflev := iflev st1 + 1\<rparr>) = Inr (b, st2)"
  shows "\<exists>st'. do_if H os_fdate E junk pbuf keyword st = Some (Inr st') \<and> if_rep st' ((b \<noteq> n) # bs)
    \<and> (\<not> list_all id bs \<longrightarrow> tk_fd st' = tk_fd st \<and> (\<forall>c. if_rep st' (c # bs)))"
proof -
  have k: "drop 3 keyword = (if n then [110] else []) @ key" using assms(5) by (simp add: bytes_of_def)
  have neg: "(first_char (drop 3 keyword) = 110 \<and> take 5 (drop 3 keyword) \<noteq> bytes_of ''newer'') = n"
    using if_keys_not [OF assms(4)] unfolding k by (cases n) (auto simp: first_char_def)
  have key: "(if n then tl (drop 3 keyword) else drop 3 keyword) = key" unfolding k by simp
  have same: "same_ifs st st1" "tk_fd st1 = tk_fd st" using read_predicate_same [OF assms(3)] by simp_all
  then have rep: "if_rep st1 bs" using assms(1) by (simp add: if_rep_same)
  have outer: "if_get (iflev st1) (st1\<lparr>iflev := iflev st1 + 1\<rparr>) = Inr (if list_all id bs then PASS else STOP)"
    using if_rep_get [OF rep] by (simp add: if_get_def split: if_splits)
  note do_if = do_if_def [of H os_fdate E junk pbuf keyword st, unfolded Let_def neg key assms(3)]
  show ?thesis
  proof (cases "list_all id bs")
    case True
    have ev: "eval_predicate H os_fdate E key argv (st1\<lparr>iflev := iflev st1 + 1\<rparr>) = Inr (b, st2)" by (rule assms(6) [OF True])
    have s2: "ifstate st2 = ifstate st1" "iflev st2 = iflev st1 + 1" using eval_predicate_same [OF ev] by (simp_all add: same_ifs_def)
    let ?st = "st2\<lparr>iflev := iflev st1\<rparr>"
    have rep2: "if_rep ?st bs" using rep s2 by (simp add: if_rep_def)
    have e: "st2\<lparr>iflev := iflev st1 + 1\<rparr> = st2" by (simp add: s2(2) [symmetric])
    obtain st' where st': "if_set (iflev st1 + 1) (if b \<noteq> n then PASS else STOP) st2 = Inr st'" "if_rep st' ((b \<noteq> n) # bs)"
      using if_rep_push [OF rep2 assms(2), of "b \<noteq> n"] True by (auto simp: e)
    have "do_if H os_fdate E junk pbuf keyword st = Some (Inr st')"
      unfolding do_if using outer True ev st'(1) s2 by (simp add: returno_def)
    with st'(2) True show ?thesis by blast
  next
    case False
    obtain st' where st': "if_set (iflev st1 + 1) STOP (st1\<lparr>iflev := iflev st1 + 1\<rparr>) = Inr st'" "if_rep st' (False # bs)"
      "tk_fd st' = tk_fd st1" using if_rep_push [OF rep assms(2), of False] by auto
    have "if_rep st' (c # bs)" for c using st'(2) False by (simp add: if_rep_cons)
    moreover have "do_if H os_fdate E junk pbuf keyword st = Some (Inr st')"
      unfolding do_if using outer False st'(1) by (simp add: returno_def)
    ultimately show ?thesis using st'(3) same(2) by auto
  qed
qed


subsection \<open>Examples\<close>

definition demo_tok :: mktok where
  "demo_tok = \<lparr>in_cx = demo_cx\<lparr>cx_file := [40, 97, 41]\<rparr>, in_fn = fn_static, tk_syms = demo_syms, tk_fd = fd_static,
     ifstate = replicate SZ_IFSTACK PASS, iflev = 1, exit_status = 0, old_iflev = None\<rparr>"

definition demo_sys :: syshost where
  "demo_sys = \<lparr>irafpath = id, pkglibs = None, os_access = (\<lambda>_. False)\<rparr>"

lemma unread_demo: "unread (demo_cx\<lparr>cx_file := f\<rparr>) [] = map uint f"
  by (simp add: unread_def demo_cx_def)

lemma demo_tok_rep: "if_rep demo_tok [True]"
  by (simp add: if_rep_cons demo_tok_def)

lemma demo_cx_file: "cx_strs (demo_cx\<lparr>cx_file := f\<rparr>) []"
  by (simp add: cx_strs_def demo_cx_def)

lemma demo_read:
  "\<exists>cx. read_predicate demo_sys demo_env demo_junk (replicate SZ_PREDBUF 0) demo_tok = Some (Inr ([[97]], demo_tok\<lparr>in_cx := cx\<rparr>))"
proof -
  let ?E = "tk_env demo_env demo_tok"
  obtain cx1 ss1 where 1: "m_getc ?E demo_junk (in_cx demo_tok) = Some (Inr (40, cx1))" "cx_strs cx1 ss1" "unread cx1 ss1 = [97, 41]"
    by (rule m_getc_char [OF demo_cx_file, of "[40, 97, 41]" 40 "[97, 41]"]) (simp_all add: unread_demo demo_tok_def)
  obtain cx2 ss2 where 2: "m_getc ?E demo_junk cx1 = Some (Inr (97, cx2))" "cx_strs cx2 ss2" "unread cx2 ss2 = [41]"
    by (rule m_getc_char [OF 1(2,3)]) auto
  obtain cx3 ss3 where 3: "m_getc ?E demo_junk cx2 = Some (Inr (41, cx3))"
    by (rule m_getc_char [OF 2(2,3)]) auto
  have E: "tk_env demo_env (demo_tok\<lparr>in_cx := cx\<rparr>) = ?E" for cx by (simp add: tk_env_def)
  have p: "open_paren ?E demo_junk (in_cx demo_tok) = Some (Inr cx1)"
    unfolding open_paren_def by (subst mk_loop.simps) (simp add: 1(1))
  have t1: "pred_turn demo_sys demo_env demo_junk (replicate SZ_PREDBUF 0) ([], [0], demo_tok\<lparr>in_cx := cx1\<rparr>)
    = Some (Inr (Inr ([97], [0], demo_tok\<lparr>in_cx := cx2\<rparr>)))"
    by (simp add: pred_turn_def E 2(1) put_out_def returno_def)
  have t2: "pred_turn demo_sys demo_env demo_junk (replicate SZ_PREDBUF 0) ([97], [0], demo_tok\<lparr>in_cx := cx2\<rparr>)
    = Some (Inr (Inl ([[97]], demo_tok\<lparr>in_cx := cx3\<rparr>)))"
    by (simp add: pred_turn_def E 3(1) cstr_def)
  show ?thesis
    unfolding read_predicate_def p bindo_simps
    by (subst mk_loop.simps, simp only: t1 option.case sum.case, subst mk_loop.simps, auto simp: t2)
qed

lemma demo_getsym: "(case sym_or_env demo_env [97] demo_tok of Inr (Some _) \<Rightarrow> True | _ \<Rightarrow> False)"
  by code_simp

lemma demo_sym: "\<exists>v. sym_or_env demo_env [97] (demo_tok\<lparr>in_cx := cx, iflev := l\<rparr>) = Inr (Some v)"
  using demo_getsym by (auto simp: sym_or_env_def split: sum.splits option.splits)

theorem do_if_correct_witness:
  "\<exists>st'. do_if demo_sys (\<lambda>_. 0) demo_env demo_junk (replicate SZ_PREDBUF 0) (bytes_of ''$ifndef'') demo_tok = Some (Inr st')
    \<and> if_rep st' [False, True]"
proof -
  obtain cx where r: "read_predicate demo_sys demo_env demo_junk (replicate SZ_PREDBUF 0) demo_tok = Some (Inr ([[97]], demo_tok\<lparr>in_cx := cx\<rparr>))"
    using demo_read by blast
  obtain st2 where e: "eval_predicate demo_sys (\<lambda>_. 0) demo_env (bytes_of ''def'') [[97]]
      (demo_tok\<lparr>in_cx := cx, iflev := iflev (demo_tok\<lparr>in_cx := cx\<rparr>) + 1\<rparr>) = Inr (True, st2)"
    using demo_sym [where cx = cx and l = "iflev (demo_tok\<lparr>in_cx := cx\<rparr>) + 1"] by (auto simp: eval_predicate_def)
  have "bytes_of ''def'' \<in> if_keys" "bytes_of ''$ifndef'' = bytes_of ''$if'' @ (if True then [110] else []) @ bytes_of ''def''"
    by (simp_all add: if_keys_def bytes_of_def)
  from do_if_correct [OF demo_tok_rep _ r this e] show ?thesis by auto
qed

theorem getstr_quote_witness:
  "\<exists>cx'. getstr demo_env demo_junk 11 10 34 (demo_cx\<lparr>cx_file := [97, 92, 34, 98, 34, 10]\<rparr>) = Some (Inr ([97, 34, 98], cx'))"
  using getstr_quote [of "demo_cx\<lparr>cx_file := [97, 92, 34, 98, 34, 10]\<rparr>" "[]" 34 "[97, 34, 98]" "[10]" 10 11 demo_env demo_junk] demo_cx_ok(1)
  by (auto simp: unread_demo quote_def plain_char_def)

theorem open_paren_diverges_witness: "open_paren demo_env demo_junk (demo_cx\<lparr>cx_file := []\<rparr>) = None"
  by (rule open_paren_diverges [of _ "[]"]) (use demo_cx_ok(1) in \<open>simp_all add: unread_demo\<close>)

theorem do_else_endif_correct_witness: "\<exists>st'. do_else demo_tok = Inr st' \<and> if_get 1 st' = Inr STOP"
proof -
  from do_else_endif_correct [OF demo_tok_rep] obtain st' where st': "do_else demo_tok = Inr st'" "if_rep st' [False]" by auto
  then have "iflev st' = 1" by (simp add: if_rep_def)
  with if_rep_get [OF st'(2)] st'(1) show ?thesis by auto
qed

end
