(* ===== verification/Mk_Ends.thy ===== *)
theory Mk_Ends
  imports Mk_Directive
begin

text \<open>
  The reading routines of \<open>Mk_Token\<close> whose loops count characters come to an end on every input: a measure of what is left
  to read, or of the room in the buffer, falls with every character that \<open>m_getc\<close> returns.  A loop that runs over the end
  of its buffer ends here with a fault.
\<close>

subsection \<open>The loops end\<close>

abbreviation todo_less_rel :: "((nat \<times> nat) \<times> nat \<times> nat) set" where "todo_less_rel \<equiv> less_than <*lex*> less_than"

lemma rawgetc_less:
  assumes "cx_strs cx ss" "m_rawgetc cx = Inr (c, cx')" "c \<noteq> EOF"
  shows "\<exists>ss'. cx_strs cx' ss' \<and> pbchar cx' = 0 \<and> (pbchar cx = 0 \<longrightarrow> (todo cx' ss', todo cx ss) \<in> todo_less_rel)"
proof (cases "pbchar cx = 0")
  case True
  obtain ss' where ss': "cx_strs cx' ss'" "pbchar cx' = 0" "unread cx ss = c # unread cx' ss'"
    "weight ss' (cx_file cx') + depth_weight (length ss') \<le> weight ss (cx_file cx)"
    using m_rawgetc_first [OF assms(1) True] assms(2,3) by (metis Pair_inject sum.inject(2))
  have "0 < depth_weight (length ss')" by simp
  then have "weight ss' (cx_file cx') < weight ss (cx_file cx)" using ss'(4) by linarith
  then have "(todo cx' ss', todo cx ss) \<in> todo_less_rel"
    using ss'(3) by (auto simp: todo_def has_paren_def)
  with ss' show ?thesis by blast
next
  case False
  with m_rawgetc_pbchar [OF assms(1)] assms(2) show ?thesis by auto
qed

lemma turn_plain:
  assumes "getc_turn E junk cx = Inr (Inl (c, cx'))" "c \<notin> {36, EOF}"
  shows "\<exists>ch. m_rawgetc cx = Inr (ch, cx') \<and> ch \<noteq> EOF"
  using assms by (auto simp: getc_turn_def bindm_Inr untab_def split: if_splits prod.splits)

lemma m_getc_less_0:
  assumes "cx_strs cx ss" "junk_ok junk" "mkenv_ok E" "pbchar cx = 0" "m_getc E junk cx = Some (Inr (c, cx'))" "c \<notin> {36, EOF}"
  shows "\<exists>ss'. cx_strs cx' ss' \<and> pbchar cx' = 0 \<and> (todo cx' ss', todo cx ss) \<in> todo_less_rel"
  using assms
proof (induction "todo cx ss" arbitrary: cx ss rule: wf_induct_rule [OF wf_lex_prod [OF wf_less_than wf_less_than]])
  case 1
  show ?case
  proof (cases "getc_turn E junk cx")
    case (Inl e)
    with 1 show ?thesis by (simp add: m_getc.simps [of E junk cx])
  next
    case (Inr x)
    show ?thesis
    proof (cases x)
      case L: (Inl y)
      with Inr 1 have "getc_turn E junk cx = Inr (Inl (c, cx'))" by (simp add: m_getc.simps [of E junk cx])
      from turn_plain [OF this 1(7)] show ?thesis using rawgetc_less [OF 1(2)] 1(5) by blast
    next
      case R: (Inr cx1)
      with Inr turn_correct [OF 1(2-4)] 1(5) obtain ss1 where ss1: "cx_strs cx1 ss1" "pbchar cx1 = 0"
        "(todo cx1 ss1, todo cx ss) \<in> todo_less_rel" by (auto simp: turn_result_def)
      have "m_getc E junk cx1 = Some (Inr (c, cx'))" using 1(6) Inr R by (simp add: m_getc.simps [of E junk cx])
      with 1(1) [OF ss1(3,1) 1(3,4) ss1(2) _ 1(7)] obtain ss' where "cx_strs cx' ss'" "pbchar cx' = 0"
        "(todo cx' ss', todo cx1 ss1) \<in> todo_less_rel" by blast
      moreover have "trans todo_less_rel" by (intro trans_lex_prod trans_less_than)
      ultimately show ?thesis using ss1(3) by (blast dest: transD)
    qed
  qed
qed


text \<open>A character other than a dollar sign leaves less to do, unless it was one that had been pushed back.\<close>

lemma m_getc_less:
  assumes "cx_strs cx ss" "junk_ok junk" "mkenv_ok E" "m_getc E junk cx = Some (Inr (c, cx'))" "c \<notin> {36, EOF}"
  shows "\<exists>ss'. cx_strs cx' ss' \<and> pbchar cx' = 0 \<and> (pbchar cx = 0 \<longrightarrow> (todo cx' ss', todo cx ss) \<in> todo_less_rel)"
proof (cases "pbchar cx = 0")
  case True
  with m_getc_less_0 [OF assms(1-3) True assms(4,5)] show ?thesis by blast
next
  case False
  show ?thesis
  proof (cases "getc_turn E junk cx")
    case (Inl e)
    with assms(4) show ?thesis by (simp add: m_getc.simps [of E junk cx])
  next
    case (Inr x)
    show ?thesis
    proof (cases x)
      case L: (Inl y)
      with Inr assms(4) have "getc_turn E junk cx = Inr (Inl (c, cx'))" by (simp add: m_getc.simps [of E junk cx])
      from turn_plain [OF this assms(5)] show ?thesis using rawgetc_less [OF assms(1)] by blast
    next
      case R: (Inr cx1)
      with Inr turn_correct [OF assms(1-3)] obtain ss1 where ss1: "cx_strs cx1 ss1" "pbchar cx1 = 0" by (auto simp: turn_result_def)
      have "m_getc E junk cx1 = Some (Inr (c, cx'))" using assms(4) Inr R by (simp add: m_getc.simps [of E junk cx])
      with m_getc_less_0 [OF ss1(1) assms(2,3) ss1(2) _ assms(5)] False show ?thesis by blast
    qed
  qed
qed

text \<open>A call of \<open>m_getc\<close> has an outcome, and after a character the input is well formed again.\<close>

lemma m_getc_outcome:
  assumes "cx_strs cx ss" "junk_ok junk" "mkenv_ok E"
  obtains e where "m_getc E junk cx = Some (Inl e)" | c cx' ss' where "m_getc E junk cx = Some (Inr (c, cx'))" "cx_strs cx' ss'"
proof -
  have "\<exists>r. m_getc E junk cx = Some r \<and> getc_result E (typed_in cx, unread cx ss) r"
    using getc_turn_cases [OF assms]
  proof (elim disjE exE conjE)
    fix cx' ss'
    assume *: "m_getc E junk cx = m_getc E junk cx'" "cx_strs cx' ss'" "pbchar cx' = 0"
      "expands E (typed_in cx, unread cx ss) (typed_in cx', unread cx' ss')"
    from m_getc_loop [OF *(2) assms(2,3) *(3)] show ?thesis using getc_result_step [OF *(4)] *(1) by auto
  qed blast
  then obtain r where r: "m_getc E junk cx = Some r" "getc_result E (typed_in cx, unread cx ss) r" by blast
  show ?thesis
  proof (cases r)
    case (Inl e)
    with r(1) that(1) show ?thesis by blast
  next
    case (Inr x)
    obtain c cx' where x: "x = (c, cx')" by (cases x)
    obtain ss' where "cx_strs cx' ss'" using r(2) unfolding Inr x getc_result_def getc_final_def by (simp only: sum.case prod.case) blast
    have "m_getc E junk cx = Some (Inr (c, cx'))" using r(1) Inr x by simp
    then show ?thesis by (rule that(2)) fact
  qed
qed

definition cx_good :: "mkctx \<Rightarrow> bool" where
  "cx_good cx \<longleftrightarrow> (\<exists>ss. cx_strs cx ss)"

text \<open>\<open>settles r\<close>: the computation ends, and leaves a well-formed input unless it ends the program or faults.\<close>

definition settles :: "('a \<Rightarrow> mkctx) \<Rightarrow> 'a mk option \<Rightarrow> bool" where
  "settles f r \<longleftrightarrow> (\<exists>x. r = Some x \<and> (\<forall>a. x = Inr a \<longrightarrow> cx_good (f a)))"

lemma settles_simps [simp]: "settles f (Some (Inr a)) = cx_good (f a)" "settles f (Some (Inl e))" "\<not> settles f None"
  by (simp_all add: settles_def)

lemma settles_bindo:
  assumes "settles f r" "\<And>a. r = Some (Inr a) \<Longrightarrow> cx_good (f a) \<Longrightarrow> settles g (k a)"
  shows "settles g (bindo r k)"
  using assms by (auto simp: settles_def bindo_def split: sum.splits)

lemma settles_m_getc:
  assumes "cx_good cx" "junk_ok junk" "mkenv_ok E"
  shows "settles snd (m_getc E junk cx)"
proof -
  obtain ss where "cx_strs cx ss" using assms(1) by (auto simp: cx_good_def)
  from m_getc_outcome [OF this assms(2,3)] show ?thesis by cases (auto simp: cx_good_def)
qed

lemma settles_Some: "(\<And>a. r = Inr a \<Longrightarrow> settles g (k a)) \<Longrightarrow> settles g (bindo (Some r) k)"
  by (cases r) auto

lemma settles_put_out: "(\<And>out'. put_out sz out cs = Inr out' \<Longrightarrow> settles g (k out')) \<Longrightarrow> settles g (bindo (returno (put_out sz out cs)) k)"
  by (auto simp: returno_def put_out_def)


lemma settles_m_ungetc:
  assumes "cx_good cx" "junk_ok junk" "\<And>cx'. cx_good cx' \<Longrightarrow> settles g (k cx')"
  shows "settles g (bindo (returno (m_ungetc junk ch cx)) k)"
proof -
  obtain ss where ss: "cx_strs cx ss" using assms(1) by (auto simp: cx_good_def)
  let ?cx = "if ch = 10 then cx\<lparr>lineno := lineno cx - 1\<rparr> else cx"
  let ?ps = "if word_of_int (pbchar ?cx) = (0 :: byte) then [] else [word_of_int (pbchar ?cx) :: byte]"
  have 1: "cx_strs ?cx ss" using ss by simp
  have "0 \<notin> set ?ps" by simp
  from m_pushstr_correct [OF 1 assms(2) this] have "m_pushstr junk ?ps ?cx = Inl Fatal \<or>
      (\<exists>cx'. m_pushstr junk ?ps ?cx = Inr cx' \<and> cx_strs cx' (?ps # ss))" by metis
  then have "m_ungetc junk ch cx = Inl Fatal \<or> (\<exists>cx'. m_ungetc junk ch cx = Inr cx' \<and> cx_good cx')"
    using 1 by (auto simp: m_ungetc_def Let_def cx_good_def)
  then show ?thesis using assms(3) by (auto simp: returno_def)
qed

lemma m_ungetc_good:
  assumes "cx_good cx" "junk_ok junk" "m_ungetc junk ch cx = Inr cx'"
  shows "cx_good cx'"
proof -
  have "settles id (bindo (returno (m_ungetc junk ch cx)) (\<lambda>cx. Some (Inr cx)))"
    by (rule settles_m_ungetc [OF assms(1,2)]) simp
  with assms(3) show ?thesis by (simp add: returno_def)
qed

lemma settles_getstr_loop:
  "cx_good cx \<Longrightarrow> junk_ok junk \<Longrightarrow> mkenv_ok E \<Longrightarrow> settles snd (getstr_loop E junk sz delim n out cx)"
proof (induction n arbitrary: out cx delim)
  case (Suc n)
  note getc = settles_bindo [OF settles_m_getc [OF _ Suc.prems(2,3)]]
  show ?case
    by (simp only: getstr_loop.simps, rule getc [OF Suc.prems(1)])
       (auto split: prod.splits intro!: getc settles_m_ungetc [OF _ Suc.prems(2)] settles_put_out Suc)
qed simp


text \<open>The strings on the stack are those of the context, so that what is left to do is a function of it.\<close>

lemma kstr_at_unique: "kstr_at m p s \<Longrightarrow> kstr_at m p s' \<Longrightarrow> s = s'"
  using str_at_kstr by (metis option.inject)

lemma pb_rep_unique: "pb_rep buf stk n ip op ss \<Longrightarrow> pb_rep buf stk n ip op ss' \<Longrightarrow> ss = ss'"
proof (induction ss arbitrary: n ip op ss')
  case Nil
  then show ?case by (cases ss') auto
next
  case (Cons s ss)
  then obtain t ts where t: "ss' = t # ts" by (cases ss') auto
  with Cons.prems have "s = t" using kstr_at_unique by auto
  moreover have "ss = ts" using Cons.prems t by (intro Cons.IH) auto
  ultimately show ?case using t by simp
qed

lemma cx_strs_unique: "cx_strs cx ss \<Longrightarrow> cx_strs cx ss' \<Longrightarrow> ss = ss'"
  by (auto simp: cx_strs_def intro: pb_rep_unique split: option.splits)

definition cx_todo :: "mkctx \<Rightarrow> nat \<times> nat \<times> nat" where
  "cx_todo cx = (if pbchar cx = 0 then 0 else 1, todo cx (THE ss. cx_strs cx ss))"

abbreviation cx_less :: "((nat \<times> nat \<times> nat) \<times> nat \<times> nat \<times> nat) set" where "cx_less \<equiv> less_than <*lex*> todo_less_rel"

lemma wf_cx_less: "wf cx_less"
  by (intro wf_lex_prod wf_less_than)

lemma cx_todo_eq: "cx_strs cx ss \<Longrightarrow> cx_todo cx = (if pbchar cx = 0 then 0 else 1, todo cx ss)"
  using cx_strs_unique [of cx] by (auto simp: cx_todo_def the_equality)

lemma m_getc_cx_less:
  assumes "cx_good cx" "junk_ok junk" "mkenv_ok E" "m_getc E junk cx = Some (Inr (c, cx'))" "c \<notin> {36, EOF}"
  shows "cx_good cx' \<and> (cx_todo cx', cx_todo cx) \<in> cx_less"
proof -
  obtain ss where ss: "cx_strs cx ss" using assms(1) by (auto simp: cx_good_def)
  with m_getc_less [OF ss assms(2-5)] show ?thesis
    by (cases "pbchar cx = 0") (auto simp: cx_good_def cx_todo_eq)
qed

lemma mk_loop_settles:
  assumes "I s" "wf R"
    "\<And>s. I s \<Longrightarrow> \<exists>x. f s = Some x \<and> (\<forall>a. x = Inr (Inl a) \<longrightarrow> cx_good (g a)) \<and> (\<forall>s'. x = Inr (Inr s') \<longrightarrow> I s' \<and> (s', s) \<in> R)"
  shows "settles g (mk_loop f s)"
  using assms(2,1)
proof (induction s rule: wf_induct_rule)
  case (less s)
  obtain x where x: "f s = Some x" "\<forall>a. x = Inr (Inl a) \<longrightarrow> cx_good (g a)" "\<forall>s'. x = Inr (Inr s') \<longrightarrow> I s' \<and> (s', s) \<in> R"
    using assms(3) [OF less.prems] by blast
  show ?case
  proof (cases x)
    case (Inl e)
    with x show ?thesis by (simp add: mk_loop.simps [of f s])
  next
    case (Inr y)
    with x less.IH show ?thesis by (cases y) (simp_all add: mk_loop.simps [of f s])
  qed
qed

lemma settles_skip_blanks:
  assumes "cx_good cx" "junk_ok junk" "mkenv_ok E"
  shows "settles snd (skip_blanks E junk cx)"
  unfolding skip_blanks_def
proof (rule mk_loop_settles [where I = cx_good and R = "inv_image cx_less cx_todo"])
  fix cx assume good: "cx_good cx"
  from settles_m_getc [OF good assms(2,3)] obtain x where x: "m_getc E junk cx = Some x" "\<forall>a. x = Inr a \<longrightarrow> cx_good (snd a)"
    by (auto simp: settles_def)
  show "\<exists>x. bindo (m_getc E junk cx) (\<lambda>(ch, cx). Some (Inr (if ch = 32 then Inr cx else Inl (ch, cx)))) = Some x
    \<and> (\<forall>a. x = Inr (Inl a) \<longrightarrow> cx_good (snd a)) \<and> (\<forall>s'. x = Inr (Inr s') \<longrightarrow> cx_good s' \<and> (s', cx) \<in> inv_image cx_less cx_todo)"
    using x m_getc_cx_less [OF good assms(2,3), of 32] by (cases x) (auto split: if_splits)
qed (use assms(1) wf_cx_less in auto)

lemma settles_getstr:
  assumes "cx_good cx" "junk_ok junk" "mkenv_ok E"
  shows "settles snd (getstr E junk sz maxch delim cx)"
  unfolding getstr_def by (rule settles_bindo [OF settles_getstr_loop [OF assms]]) auto

lemma settles_getargs:
  assumes "cx_good (in_cx st)" "junk_ok junk" "mkenv_ok E"
  shows "settles (\<lambda>(s, st). in_cx st) (getargs H E junk args st)"
  unfolding getargs_def Let_def
  by (rule settles_bindo [OF settles_skip_blanks [OF assms]])
     (auto simp: returno_def intro!: settles_bindo [OF settles_getstr] settles_Some assms(2,3) intro: m_ungetc_good [OF _ assms(2)] split: if_splits prod.splits sum.splits)


text \<open>A turn that ends, or goes on with less.\<close>

definition turn_ends :: "('s \<Rightarrow> bool) \<Rightarrow> ('s \<times> 's) set \<Rightarrow> ('a \<Rightarrow> mkctx) \<Rightarrow> 's \<Rightarrow> ('a + 's) mk option \<Rightarrow> bool" where
  "turn_ends I R g s r \<longleftrightarrow> (\<exists>x. r = Some x \<and> (\<forall>a. x = Inr (Inl a) \<longrightarrow> cx_good (g a)) \<and> (\<forall>s'. x = Inr (Inr s') \<longrightarrow> I s' \<and> (s', s) \<in> R))"

lemma turn_ends_simps [simp]:
  "turn_ends I R g s (Some (Inl e))" "turn_ends I R g s (Some (Inr (Inl a))) = cx_good (g a)"
  "turn_ends I R g s (Some (Inr (Inr s'))) \<longleftrightarrow> I s' \<and> (s', s) \<in> R"
  by (simp_all add: turn_ends_def)

lemma turn_ends_bindo:
  assumes "settles f r" "\<And>a. r = Some (Inr a) \<Longrightarrow> cx_good (f a) \<Longrightarrow> turn_ends I R g s (k a)"
  shows "turn_ends I R g s (bindo r k)"
  using assms by (auto simp: settles_def bindo_def turn_ends_def split: sum.splits)

lemma turn_ends_Some: "(\<And>a. r = Inr a \<Longrightarrow> turn_ends I R g s (k a)) \<Longrightarrow> turn_ends I R g s (bindo (Some r) k)"
  by (cases r) auto

lemma settles_kw_loop:
  assumes "cx_good cx" "junk_ok junk" "mkenv_ok E"
  shows "settles snd (mk_loop (kw_turn E junk sz) (out, cx))"
proof (rule mk_loop_settles [where I = "\<lambda>(out, cx). cx_good cx" and
    R = "inv_image (less_than <*lex*> cx_less) (\<lambda>(out, cx). (sz - length out, cx_todo cx))"], goal_cases)
  case (3 s)
  obtain out cx where s: "s = (out, cx)" and good: "cx_good cx" using 3 by (cases s) auto
  show ?case
    unfolding s kw_turn_def turn_ends_def [symmetric] prod.case returno_def
    by (rule turn_ends_bindo [OF settles_m_getc [OF good assms(2,3)]])
       (auto simp: put_out_def intro!: turn_ends_Some intro: m_ungetc_good [OF _ assms(2)] dest: m_getc_cx_less [OF good assms(2,3)] split: if_splits prod.splits)
qed (use assms(1) in \<open>auto intro!: wf_inv_image wf_lex_prod wf_cx_less\<close>)

lemma settles_getkwvpair:
  assumes "cx_good (in_cx st)" "junk_ok junk" "mkenv_ok E"
  shows "settles (\<lambda>(kv, st). in_cx st) (getkwvpair H E junk args st)"
  unfolding getkwvpair_def returno_def
  by (rule settles_bindo [OF settles_skip_blanks [OF assms]])
     (auto intro!: settles_Some settles_bindo [OF settles_kw_loop] settles_bindo [OF settles_getargs] assms(2,3)
        intro: m_ungetc_good [OF _ assms(2)] split: prod.splits option.splits)

text \<open>
  A \<open>$set\<close> comes to an end: with a result, with a fatal error, or with a fault.  The fault is not harmless: it stands
  for the end of the array \<open>symbol\<close>, over which the loop for the name runs when the input ends before the \<open>=\<close>
  (\<open>do_set_end_overruns\<close> in \<open>Mk_Set\<close>).
\<close>

lemma do_set_settles:
  assumes "cx_strs (in_cx st) ss" "junk_ok junk" "syms_rep (tk_syms st) l" "\<forall>n v. me_getenv E n = Some v \<longrightarrow> 0 \<notin> set v"
  shows "\<exists>r. do_set H E junk args st = Some r \<and> (\<forall>st'. r = Inr st' \<longrightarrow> (\<exists>ss'. cx_strs (in_cx st') ss'))"
proof -
  have good: "cx_good (in_cx st)" "mkenv_ok (tk_env E st)" using assms(1,3,4) by (auto simp: cx_good_def mkenv_ok_def tk_env_def)
  have "settles in_cx (do_set H E junk args st)"
    unfolding do_set_def returno_def
    by (rule settles_bindo [OF settles_getkwvpair [OF good(1) assms(2) good(2)]])
       (auto intro!: settles_Some split: prod.splits option.splits)
  then show ?thesis by (auto simp: settles_def cx_good_def)
qed

lemma settles_getcmd:
  assumes "cx_good cx" "junk_ok junk" "mkenv_ok E"
  shows "settles (\<lambda>(op, buf, cx). cx) (getcmd E junk prefix maxch buf cx)"
proof -
  have "settles (\<lambda>(op, buf, cx). cx) (mk_loop (cmd_turn E junk maxch) (op, buf, cx))" for op buf
  proof (rule mk_loop_settles [where I = "\<lambda>(op, buf, cx). cx_good cx" and
      R = "inv_image (less_than <*lex*> cx_less) (\<lambda>(op, buf, cx). (maxch - op, cx_todo cx))"], goal_cases)
    case (3 s)
    obtain op buf cx where s: "s = (op, buf, cx)" and good: "cx_good cx" using 3 by (cases s) auto
    have tr: "trans cx_less" by (intro trans_lex_prod trans_less_than)
    show ?case
    proof (cases "maxch \<le> op")
      case True
      then show ?thesis using good by (simp add: s cmd_turn_def)
    next
      case False
      have esc: "cx_good c1 \<and> (cx_todo c1, cx_todo cx) \<in> cx_less" if "m_getc E junk cx = Some (Inr (ESCAPE, c1))" for c1
        using m_getc_cx_less [OF good assms(2,3) that] by simp
      have nl: "cx_good c2 \<and> (cx_todo c2, cx_todo cx) \<in> cx_less" if "m_getc E junk cx = Some (Inr (ESCAPE, c1))" "m_getc E junk c1 = Some (Inr (10, c2))" for c1 c2
      proof -
        have 1: "cx_good c1" "(cx_todo c1, cx_todo cx) \<in> cx_less" using esc [OF that(1)] by auto
        have "cx_good c2 \<and> (cx_todo c2, cx_todo c1) \<in> cx_less" using m_getc_cx_less [OF 1(1) assms(2,3) that(2)] by simp
        with 1(2) tr show ?thesis by (blast dest: transD)
      qed
      have lt: "maxch - Suc (Suc op) < maxch - op" "maxch - Suc op < maxch - op" using False by arith+
      show ?thesis
        unfolding s cmd_turn_def turn_ends_def [symmetric] prod.case returno_def if_not_P [OF False]
        by (rule turn_ends_bindo [OF settles_m_getc [OF good assms(2,3)]])
           (use False in \<open>auto simp: lt intro!: turn_ends_Some turn_ends_bindo [OF settles_m_getc] assms(2,3)
              intro: m_ungetc_good [OF _ assms(2)] nl [THEN conjunct2] split: if_splits prod.splits\<close>)
    qed
  qed (use assms(1) in \<open>auto intro!: wf_inv_image wf_lex_prod wf_cx_less\<close>)
  then show ?thesis unfolding getcmd_def returno_def by (auto intro!: settles_Some split: if_splits)
qed


end
