(* ===== verification/Mk_Set.thy ===== *)
theory Mk_Set
  imports Mk_Ends
begin

text \<open>
  The directive \<open>$set\<close> of \<open>mkpkg\<close>, from the characters of the line to the symbol table, and what becomes of a \<open>$set\<close> that
  the end of the input cuts off.
\<close>

subsection \<open>Blanks, dollar signs and letters\<close>

lemma m_getc_fresh:
  assumes "cx_strs cx ss" "unread cx ss = c # p" "c \<notin> {9, 36}"
  obtains cx' ss' where "m_getc M junk cx = Some (Inr (c, cx'))" "cx_strs cx' ss'" "unread cx' ss' = p" "pbchar cx' = 0"
proof -
  have "c \<noteq> 36" "untab c = c" using assms(3) by (auto simp: untab_def)
  then show ?thesis using m_getc_plain [OF assms(1,2), of M junk] that by auto
qed

lemma m_ungetc_fresh:
  assumes "cx_strs cx ss" "pbchar cx = 0" "c \<noteq> 0"
  shows "\<exists>cx'. m_ungetc junk c cx = Inr cx' \<and> cx_strs cx' ss \<and> unread cx' ss = c # unread cx ss"
  using assms by (auto simp: m_ungetc_def unread_def)

lemma skip_blanks_fresh:
  assumes "cx_strs cx ss" "unread cx ss = replicate n 32 @ c # p" "c \<notin> {9, 32, 36}"
  shows "\<exists>cx' ss'. skip_blanks M junk cx = Some (Inr (c, cx')) \<and> cx_strs cx' ss' \<and> unread cx' ss' = p \<and> pbchar cx' = 0"
  using assms(1,2)
proof (induction n arbitrary: cx ss)
  case 0
  have "unread cx ss = c # p" using 0 by simp
  moreover have "c \<notin> {9, 36}" using assms(3) by simp
  ultimately obtain cx' ss' where g: "m_getc M junk cx = Some (Inr (c, cx'))" "cx_strs cx' ss'" "unread cx' ss' = p" "pbchar cx' = 0"
    using m_getc_fresh [OF 0(1)] by metis
  have "skip_blanks M junk cx = Some (Inr (c, cx'))"
    unfolding skip_blanks_def using assms(3) g(1) by (subst mk_loop.simps) simp
  with g show ?case by blast
next
  case (Suc n)
  have u: "unread cx ss = 32 # replicate n 32 @ c # p" using Suc.prems(2) by simp
  obtain cx' ss' where g: "m_getc M junk cx = Some (Inr (32, cx'))" "cx_strs cx' ss'" "unread cx' ss' = replicate n 32 @ c # p"
    by (rule m_getc_char [OF Suc.prems(1) u, of M junk]) simp
  have "skip_blanks M junk cx = skip_blanks M junk cx'"
    unfolding skip_blanks_def by (subst mk_loop.simps) (simp add: g(1))
  with Suc.IH [OF g(2,3)] show ?case by simp
qed

text \<open>A dollar sign in front of a character that is no macro reference; the character is pushed back.\<close>

lemma m_getc_dollar:
  assumes "cx_strs cx ss" "unread cx ss = 36 # c # p" "c \<notin> {0, 36, 40}"
  obtains cx' ss' where "m_getc M junk cx = Some (Inr (36, cx'))" "cx_strs cx' ss'" "unread cx' ss' = c # p"
proof -
  obtain cx1 ss1 where 1: "m_rawgetc cx = Inr (36, cx1)" "cx_strs cx1 ss1" "unread cx1 ss1 = c # p"
    using m_rawgetc_next [OF assms(1)] assms(2) by (metis list.inject list.distinct(1))
  obtain cx2 ss2 where 2: "m_rawgetc cx1 = Inr (c, cx2)" "cx_strs cx2 ss2" "pbchar cx2 = 0" "unread cx2 ss2 = p"
    using m_rawgetc_next [OF 1(2)] 1(3) by (metis list.inject list.distinct(1))
  obtain cx3 where 3: "m_ungetc junk c cx2 = Inr cx3" "cx_strs cx3 ss2" "unread cx3 ss2 = c # p"
    using m_ungetc_fresh [OF 2(2,3), of c junk] 2(4) assms(3) by auto
  have "m_getc M junk cx = Some (Inr (36, cx3))"
    using 1(1) 2(1) 3(1) assms(3) by (subst m_getc.simps) (simp add: getc_turn_def untab_def)
  then show ?thesis using 3(2,3) by (rule that)
qed

subsection \<open>Definitions of symbols\<close>

text \<open>The name: blanks anywhere in front of the \<open>=\<close> are dropped.\<close>

lemma kw_loop_name:
  assumes "cx_strs cx ss" "unread cx ss = map uint s @ 61 # p" "list_all plain_char (map uint s)" "61 \<notin> set s"
    "length out + length (filter (\<lambda>x. x \<noteq> 32) s) < sz"
  shows "\<exists>cx' ss'. mk_loop (kw_turn E junk sz) (out, cx) = Some (Inr (Some (cstr (out @ filter (\<lambda>x. x \<noteq> 32) s)), cx'))
    \<and> cx_strs cx' ss' \<and> unread cx' ss' = p"
  using assms
proof (induction s arbitrary: cx ss out)
  case Nil
  then have "unread cx ss = 61 # p" by simp
  from m_getc_char [OF Nil.prems(1) this, of E junk] obtain cx' ss' where
    "m_getc E junk cx = Some (Inr (61, cx'))" "cx_strs cx' ss'" "unread cx' ss' = p" by auto
  then show ?case using Nil.prems(5) by (subst mk_loop.simps) (auto simp: kw_turn_def)
next
  case (Cons c s)
  have p: "unread cx ss = uint c # map uint s @ 61 # p" using Cons.prems(2) by simp
  have c: "plain_char (uint c)" "uint c \<noteq> 61" using Cons.prems(3,4) word_uint_eq_iff [of c 61] by auto
  obtain cx1 ss1 where g: "m_getc E junk cx = Some (Inr (uint c, cx1))" "cx_strs cx1 ss1" "unread cx1 ss1 = map uint s @ 61 # p"
    by (rule m_getc_char [OF Cons.prems(1) p]) (use c in \<open>auto simp: plain_char_def\<close>)
  have b: "uint c = 32 \<longleftrightarrow> c = 32" using word_uint_eq_iff [of c 32] by simp
  let ?out = "if c = 32 then out else out @ [c]"
  have "kw_turn E junk sz (out, cx) = Some (Inr (Inr (?out, cx1)))"
    using g(1) c b Cons.prems(5) by (simp add: kw_turn_def plain_char_def put_out_def returno_def)
  then have "mk_loop (kw_turn E junk sz) (out, cx) = mk_loop (kw_turn E junk sz) (?out, cx1)"
    by (subst mk_loop.simps) simp
  then show ?case using Cons.IH [OF g(2,3), of ?out] Cons.prems by (cases "c = 32") simp_all
qed

lemma cstr_nz: "0 \<notin> set s \<Longrightarrow> cstr s = s"
  unfolding cstr_def by (rule takeWhile_eq_all_conv [THEN iffD2]) auto

lemma getargs_quoted:
  assumes "cx_strs (in_cx st) ss" "unread (in_cx st) ss = replicate k 32 @ delim # quote delim (map uint v) @ delim # p"
    "delim = 34 \<or> delim = 39" "list_all plain_char (map uint v)" "0 \<notin> set v" "length v < SZ_COMMAND" "length v < length args"
  shows "\<exists>cx' ss'. getargs H E junk args st = Some (Inr (v, st\<lparr>in_cx := cx'\<rparr>)) \<and> cx_strs cx' ss' \<and> unread cx' ss' = p"
proof -
  have d: "delim \<notin> {9, 32, 36}" "plain_char delim" using assms(3) by (auto simp: plain_char_def)
  obtain cx1 ss1 where g: "skip_blanks E junk (in_cx st) = Some (Inr (delim, cx1))" "cx_strs cx1 ss1"
    "unread cx1 ss1 = quote delim (map uint v) @ delim # p"
    using skip_blanks_fresh [OF assms(1,2) d(1)] by blast
  obtain cx2 ss2 where h: "getstr_loop E junk (SZ_COMMAND + 1) delim (nat (int SZ_COMMAND)) [] cx1 = Some (Inr (v, cx2))"
    "cx_strs cx2 ss2" "unread cx2 ss2 = p"
    using getstr_loop_quote [OF g(2,3) assms(4) d(2), of "nat (int SZ_COMMAND)" "[]" "SZ_COMMAND + 1" E junk] assms(6)
    by (auto simp: o_def)
  have "getstr E junk (SZ_COMMAND + 1) (int SZ_COMMAND) delim cx1 = Some (Inr (v, cx2))"
    unfolding getstr_def h(1) using assms(6) by simp
  then have "getargs H E junk args st = Some (Inr (v, st\<lparr>in_cx := cx2\<rparr>))"
    using assms(3,5,7) by (auto simp: getargs_def g(1) cstr_nz returno_def)
  with h(2,3) show ?thesis by blast
qed

text \<open>
  \<open>$set\<close> of a name to a string in quotes, as it stands in the file: blanks in front of the name, in it and in front of
  the string are allowed.
\<close>

lemma do_set_quoted:
  assumes "cx_strs (in_cx st) ss"
    "unread (in_cx st) ss = replicate n 32 @ map uint (c # s) @ 61 # replicate k 32 @ delim # quote delim (map uint v) @ delim # p"
    "delim = 34 \<or> delim = 39" "isalpha (uint c)" "list_all plain_char (map uint (c # s))" "61 \<notin> set s"
    "name = c # filter (\<lambda>x. x \<noteq> 32) s" "length name \<le> SZ_FNAME"
    "list_all plain_char (map uint v)" "length v < SZ_COMMAND" "length v < length args" "0 \<notin> set (c # s @ v)"
    "syms_rep (tk_syms st) l" "length (symtab (tk_syms st)) < MAX_SYMBOLS - 1"
    "cp (tk_syms st) + length (mklower name) + length v + 1 < SZ_SBUF" "if_get (iflev st) st = Inr state"
  shows "\<exists>st' ss'. do_set H E junk args st = Some (Inr st') \<and> cx_strs (in_cx st') ss' \<and> unread (in_cx st') ss' = p
    \<and> (\<forall>q. symbol_value (tk_syms st') q =
          (if state \<noteq> STOP \<and> mklower q = mklower name then Some v else symbol_value (tk_syms st) q))"
proof -
  let ?E = "tk_env E st"
  let ?rest = "map uint s @ 61 # replicate k 32 @ delim # quote delim (map uint v) @ delim # p"
  have p: "unread (in_cx st) ss = replicate n 32 @ uint c # ?rest" using assms(2) by simp
  have "\<not> isalpha 9" "\<not> isalpha 32" "\<not> isalpha 36" by code_simp+
  then have c: "uint c \<notin> {9, 32, 36}" using assms(4) by auto
  obtain cx1 ss1 where g: "skip_blanks ?E junk (in_cx st) = Some (Inr (uint c, cx1))" "cx_strs cx1 ss1" "unread cx1 ss1 = ?rest"
    using skip_blanks_fresh [OF assms(1) p c] by blast
  have nz: "0 \<notin> set name" using assms(7,12) by auto
  obtain cx2 ss2 where k: "mk_loop (kw_turn ?E junk (SZ_FNAME + 1)) ([c], cx1) = Some (Inr (Some name, cx2))" "cx_strs cx2 ss2"
    "unread cx2 ss2 = replicate k 32 @ delim # quote delim (map uint v) @ delim # p"
    using kw_loop_name [OF g(2,3) _ assms(6), of "[c]" "SZ_FNAME + 1" ?E junk] assms(5,7,8) cstr_nz [OF nz] by auto
  obtain cx3 ss3 where a: "getargs H ?E junk args (st\<lparr>in_cx := cx2\<rparr>) = Some (Inr (v, st\<lparr>in_cx := cx3\<rparr>))" "cx_strs cx3 ss3"
    "unread cx3 ss3 = p"
    using getargs_quoted [of "st\<lparr>in_cx := cx2\<rparr>" ss2 k delim v p args H ?E junk] k(2,3) assms(3,9-12) by auto
  have kv: "getkwvpair H ?E junk args st = Some (Inr (Some (name, v), st\<lparr>in_cx := cx3\<rparr>))"
    using assms(4) by (simp add: getkwvpair_def g(1) k(1) [simplified] a(1))
  have st: "if_get (iflev st) (st\<lparr>in_cx := cx3\<rparr>) = Inr state" using assms(16) by (simp add: if_get_def split: if_splits)
  obtain y where y: "putsym name v (tk_syms st) = Inr y" "syms_rep y (l @ [(mklower name, v)])"
    using putsym_correct [OF assms(13) nz _ assms(14,15)] assms(12) by auto
  show ?thesis
  proof (cases "state = STOP")
    case True
    then have "do_set H E junk args st = Some (Inr (st\<lparr>in_cx := cx3\<rparr>))" by (simp add: do_set_def kv returno_def st)
    with True a(2,3) show ?thesis by auto
  next
    case False
    then have "do_set H E junk args st = Some (Inr (st\<lparr>in_cx := cx3, tk_syms := y\<rparr>))"
      by (simp add: do_set_def kv returno_def st y(1))
    with False a(2,3) show ?thesis
      by (auto simp: symbol_value_correct [OF assms(13)] symbol_value_correct [OF y(2)])
  qed
qed

subsection \<open>A definition that the end of the input cuts off\<close>

text \<open>At the end of the input \<open>m_getc\<close> returns EOF again and again, and every time it is stored.\<close>

lemma kw_loop_end:
  assumes "cx_strs cx ss" "unread cx ss = []"
  shows "mk_loop (kw_turn E junk sz) (out, cx) = Some (Inl Fault)"
  using assms
proof (induction "sz - length out" arbitrary: out cx ss)
  case 0
  obtain cx1 where "m_getc E junk cx = Some (Inr (EOF, cx1))" using m_getc_end [OF 0(2,3)] by blast
  with 0(1) have "kw_turn E junk sz (out, cx) = Some (Inl Fault)" by (simp add: kw_turn_def put_out_def returno_def)
  then show ?case by (subst mk_loop.simps) simp
next
  case (Suc n)
  obtain cx1 ss1 where g: "m_getc E junk cx = Some (Inr (EOF, cx1))" "cx_strs cx1 ss1" "unread cx1 ss1 = []"
    using m_getc_end [OF Suc(3,4)] by blast
  have "length out + 1 \<le> sz" using Suc(2) by simp
  then have "kw_turn E junk sz (out, cx) = Some (Inr (Inr (out @ [word_of_int EOF], cx1)))"
    by (simp add: kw_turn_def g(1) put_out_def returno_def)
  then have "mk_loop (kw_turn E junk sz) (out, cx) = mk_loop (kw_turn E junk sz) (out @ [word_of_int EOF], cx1)"
    by (subst mk_loop.simps) simp
  also have "\<dots> = Some (Inl Fault)" using Suc(1) [OF _ g(2,3), of "out @ [word_of_int EOF]"] Suc(2) by simp
  finally show ?case .
qed

lemma kw_loop_cut:
  fixes s :: "byte list"
  assumes "cx_strs cx ss" "unread cx ss = map uint s" "list_all plain_char (map uint s)" "61 \<notin> set s"
  shows "mk_loop (kw_turn E junk sz) (out, cx) = Some (Inl Fault)"
  using assms
proof (induction s arbitrary: cx ss out)
  case Nil
  then show ?case using kw_loop_end by simp
next
  case (Cons c s)
  have p: "unread cx ss = uint c # map uint s" using Cons.prems(2) by simp
  have c: "plain_char (uint c)" "uint c \<noteq> 61" using Cons.prems(3,4) word_uint_eq_iff [of c 61] by auto
  obtain cx1 ss1 where g: "m_getc E junk cx = Some (Inr (uint c, cx1))" "cx_strs cx1 ss1" "unread cx1 ss1 = map uint s"
    by (rule m_getc_char [OF Cons.prems(1) p]) (use c in \<open>auto simp: plain_char_def\<close>)
  have "kw_turn E junk sz (out, cx) = Some (Inl Fault) \<or> (\<exists>out'. kw_turn E junk sz (out, cx) = Some (Inr (Inr (out', cx1))))"
    using g(1) c by (auto simp: kw_turn_def plain_char_def put_out_def returno_def)
  then show ?case
  proof (elim disjE exE)
    assume "kw_turn E junk sz (out, cx) = Some (Inl Fault)"
    then show ?thesis by (subst mk_loop.simps) simp
  next
    fix out'
    assume "kw_turn E junk sz (out, cx) = Some (Inr (Inr (out', cx1)))"
    then have "mk_loop (kw_turn E junk sz) (out, cx) = mk_loop (kw_turn E junk sz) (out', cx1)" by (subst mk_loop.simps) simp
    with Cons.IH [OF g(2,3)] Cons.prems(3,4) show ?thesis by simp
  qed
qed

text \<open>
  C15: when the input ends inside the name of a \<open>$set\<close>, in front of its \<open>=\<close>, the loop of \<open>getkwvpair\<close> does not end: it
  stores the end-of-file mark over and over, and runs over the end of the array \<open>symbol\<close>.
\<close>

theorem do_set_end_overruns:
  fixes c :: byte and s :: "byte list"
  assumes "cx_strs (in_cx st) ss" "unread (in_cx st) ss = replicate n 32 @ map uint (c # s)" "isalpha (uint c)"
    "list_all plain_char (map uint (c # s))" "61 \<notin> set s"
  shows "do_set H E junk args st = Some (Inl Fault)"
proof -
  have p: "unread (in_cx st) ss = replicate n 32 @ uint c # map uint s" using assms(2) by simp
  have "\<not> isalpha 9" "\<not> isalpha 32" "\<not> isalpha 36" by code_simp+
  then have c: "uint c \<notin> {9, 32, 36}" using assms(3) by auto
  obtain cx1 ss1 where g: "skip_blanks (tk_env E st) junk (in_cx st) = Some (Inr (uint c, cx1))" "cx_strs cx1 ss1"
    "unread cx1 ss1 = map uint s" using skip_blanks_fresh [OF assms(1) p c] by blast
  have "list_all plain_char (map uint s)" using assms(4) by simp
  from kw_loop_cut [OF g(2,3) this assms(5)] show ?thesis
    using assms(3) by (simp add: do_set_def getkwvpair_def g(1))
qed

theorem do_set_end_overruns_witness:
  "do_set demo_sys demo_env demo_junk [] (demo_tok\<lparr>in_cx := demo_cx\<lparr>cx_file := [32, 120]\<rparr>\<rparr>) = Some (Inl Fault)"
proof -
  have "isalpha (uint (120 :: byte))" by code_simp
  then show ?thesis
    by (intro do_set_end_overruns [of _ "[]" 1 120 "[]"]) (use demo_cx_ok(1) in \<open>simp_all add: unread_demo demo_tok_def plain_char_def\<close>)
qed

end
