(* ===== verification/Mk_Gettok.thy ===== *)
theory Mk_Gettok
  imports Mk_Set
begin

text \<open>
  The tokens of a \<open>mkpkg\<close> file and the directives, from \<open>unix/boot/mkpkg/tok.c\<close>.  What is asked of the host (the
  routines \<open>h_xc\<close>, \<open>h_copyfile\<close> and so on of \<open>host.c\<close>, \<open>os_cmd\<close> and \<open>os_delete\<close>) is recorded as a list of requests, and the
  warnings that the directives print themselves as a list of texts.  What is printed under the flags \<open>debug\<close> and
  \<open>verbose\<close> is not part of the model.
\<close>

subsection \<open>The state\<close>

datatype request =
    Os_cmd "byte list"
  | H_xc "byte list"
  | H_incheck "byte list" "byte list"
  | H_outcheck "byte list" "byte list"
  | H_copyfile "byte list" "byte list"
  | H_movefile "byte list" "byte list"
  | Os_delete "byte list"
  | H_purge "byte list"
  | Echo "byte list"

text \<open>
  The surroundings: the host, whose answer to a request may depend on what it did before; the options of the command
  line; and the old contents of the buffers \<open>args\<close>, \<open>buf\<close> of \<open>do_if\<close>, \<open>cmd\<close> and \<open>outstr\<close>.
\<close>

record tokenv =
  te_sys :: syshost
  te_env :: mkenv
  te_junk :: pushback
  te_fdate :: "byte list \<Rightarrow> int"
  te_run :: "request list \<Rightarrow> request \<Rightarrow> int"
  te_execute :: bool
  te_dbgout :: bool
  te_irafdir :: "byte list"
  te_args :: "byte list"
  te_pbuf :: "byte list"
  te_cmd :: mem
  te_outstr :: "byte list"

record mkrun =
  run_tok :: mktok
  requests :: "request list"
  warnings :: "byte list list"
  debug :: int
  verbose :: int

abbreviation INTERRUPT :: int where "INTERRUPT \<equiv> 503"
abbreviation SZ_PATHNAME :: nat where "SZ_PATHNAME \<equiv> 511"

definition run_env :: "tokenv \<Rightarrow> mkrun \<Rightarrow> mkenv" where
  "run_env E st = tk_env (te_env E) (run_tok st)"

definition run_cx :: "mkrun \<Rightarrow> mkctx" where
  "run_cx st = in_cx (run_tok st)"

definition set_cx :: "mkctx \<Rightarrow> mkrun \<Rightarrow> mkrun" where
  "set_cx cx st = st\<lparr>run_tok := (run_tok st)\<lparr>in_cx := cx\<rparr>\<rparr>"

definition on_tok :: "(mktok \<Rightarrow> mktok mk option) \<Rightarrow> mkrun \<Rightarrow> mkrun mk option" where
  "on_tok f st = bindo (f (run_tok st)) (\<lambda>t. Some (Inr (st\<lparr>run_tok := t\<rparr>)))"

definition cond_state :: "mkrun \<Rightarrow> int mk" where
  "cond_state st = if_get (iflev (run_tok st)) (run_tok st)"

text \<open>\<open>if (ifstate[iflev] == STOP) return;\<close>\<close>

definition unless_stop :: "mkrun \<Rightarrow> mkrun mk option \<Rightarrow> mkrun mk option" where
  "unless_stop st r = bindo (returno (cond_state st)) (\<lambda>s. if s = STOP then Some (Inr st) else r)"

definition ask :: "tokenv \<Rightarrow> request \<Rightarrow> mkrun \<Rightarrow> mkrun" where
  "ask E r st = st\<lparr>requests := requests st @ [r], run_tok := (run_tok st)\<lparr>exit_status := te_run E (requests st) r\<rparr>\<rparr>"

text \<open>\<open>warns\<close> of \<open>main.c\<close>: the message is put together in an array of \<open>SZ_LINE + 1\<close> bytes.\<close>

abbreviation SZ_LINE :: nat where "SZ_LINE \<equiv> 1023"

definition warns :: "string \<Rightarrow> byte list \<Rightarrow> string \<Rightarrow> mkrun \<Rightarrow> mkrun mk" where
  "warns before arg after st =
     (let errmsg = bytes_of before @ arg @ bytes_of after in
      if SZ_LINE < length errmsg then Inl Fault else Inr (st\<lparr>warnings := warnings st @ [errmsg]\<rparr>))"

text \<open>\<open>exit_status = ...; if (exit_status != OK) warns (...)\<close>\<close>

definition ask_warn :: "tokenv \<Rightarrow> request \<Rightarrow> string \<Rightarrow> byte list \<Rightarrow> mkrun \<Rightarrow> mkrun mk option" where
  "ask_warn E r before arg st =
     (let st = ask E r st in
      if exit_status (run_tok st) \<noteq> 0 then returno (warns before arg [] st) else Some (Inr st))"

text \<open>\<open>if (execute) ...; if (exit_status == INTERRUPT) fatals (...)\<close>\<close>

definition run_cmd :: "tokenv \<Rightarrow> request \<Rightarrow> mkrun \<Rightarrow> mkrun mk option" where
  "run_cmd E r st =
     (let st = (if te_execute E then ask E r st else st) in
      if exit_status (run_tok st) = INTERRUPT then Some (Inl Fatal) else Some (Inr st))"

subsection \<open>Commands for the host\<close>

definition esc_turn :: "mkenv \<Rightarrow> pushback \<Rightarrow> byte list \<times> mkctx \<Rightarrow> (byte list \<times> mkctx + byte list \<times> mkctx) mk option" where
  "esc_turn M junk = (\<lambda>(out, cx).
     if SZ_CMD \<le> length out then Some (Inr (Inl (out, cx)))
     else
       bindo (m_getc M junk cx) (\<lambda>(ch, cx).
       if ch = EOF then Some (Inr (Inl (out, cx)))
       else if ch = ESCAPE then
         bindo (m_getc M junk cx) (\<lambda>(ch, cx).
         if ch = 10 then Some (Inr (Inr (out, cx)))
         else bindo (returno (put_out (SZ_CMD + 1) out [ESCAPE, ch])) (\<lambda>out. Some (Inr (Inr (out, cx)))))
       else if ch = 10 then Some (Inr (Inl (out, cx)))
       else bindo (returno (put_out (SZ_CMD + 1) out [ch])) (\<lambda>out. Some (Inr (Inr (out, cx))))))"

definition do_osescape :: "tokenv \<Rightarrow> mkrun \<Rightarrow> mkrun mk option" where
  "do_osescape E st =
     bindo (m_getc (run_env E st) (te_junk E) (run_cx st)) (\<lambda>(ch, cx).
     if ch = 10 then Some (Inr (set_cx cx st))
     else
       bindo (if ch = 40 \<or> ch = 39 \<or> ch = 34
              then getstr (run_env E st) (te_junk E) (SZ_CMD + 1) (int SZ_CMD) (if ch = 40 then 41 else ch) cx
              else bindo (mk_loop (esc_turn (run_env E st) (te_junk E)) ([word_of_int ch], cx)) (\<lambda>(out, cx).
                   if SZ_CMD + 1 \<le> length out then Some (Inl Fault) else Some (Inr (out, cx))))
         (\<lambda>(cmd, cx). let st = set_cx cx st in unless_stop st (run_cmd E (Os_cmd (cstr cmd)) st)))"

text \<open>
  The command that \<open>getcmd\<close> read into \<open>cmd\<close>, which is looked at when it is run or printed.
\<close>

definition run_buf :: "tokenv \<Rightarrow> (byte list \<Rightarrow> request) \<Rightarrow> mem \<Rightarrow> mkrun \<Rightarrow> mkrun mk option" where
  "run_buf E r buf st =
     (if \<not> te_execute E \<and> verbose st = 0 then run_cmd E (r []) st
      else (case str_at buf 0 of None \<Rightarrow> Some (Inl Fault) | Some cmd \<Rightarrow> run_cmd E (r cmd) st))"

definition run_line :: "tokenv \<Rightarrow> (byte list \<Rightarrow> request) \<Rightarrow> byte list \<Rightarrow> mkrun \<Rightarrow> mkrun mk option" where
  "run_line E r prefix st =
     bindo (getcmd (run_env E st) (te_junk E) prefix SZ_CMD (te_cmd E) (run_cx st)) (\<lambda>(n, buf, cx).
     let st = set_cx cx st in unless_stop st (run_buf E r buf st))"

definition do_xc :: "tokenv \<Rightarrow> mkrun \<Rightarrow> mkrun mk option" where
  "do_xc E st =
     run_line E H_xc
       ((if te_irafdir E \<noteq> [] then bytes_of ''xc -r '' @ te_irafdir E else bytes_of ''xc'')
         @ (if debug st \<noteq> 0 then bytes_of '' -d'' else []) @ (if te_dbgout E then bytes_of '' -x'' else [])) st"

definition do_generic :: "tokenv \<Rightarrow> mkrun \<Rightarrow> mkrun mk option" where
  "do_generic E st = run_line E Os_cmd (bytes_of ''generic'') st"

subsection \<open>Operations on files\<close>

text \<open>\<open>getargs\<close>, and \<open>strcpy\<close> of its value into an array of \<open>sz\<close> bytes.\<close>

definition arg_string :: "tokenv \<Rightarrow> mkrun \<Rightarrow> (byte list \<times> mkrun) mk option" where
  "arg_string E st =
     bindo (getargs (te_sys E) (run_env E st) (te_junk E) (te_args E) (run_tok st)) (\<lambda>(s, t). Some (Inr (s, st\<lparr>run_tok := t\<rparr>)))"

definition arg_copy :: "tokenv \<Rightarrow> nat \<Rightarrow> mkrun \<Rightarrow> (byte list \<times> mkrun) mk option" where
  "arg_copy E sz st = bindo (arg_string E st) (\<lambda>(s, st). if sz \<le> length s then Some (Inl Fault) else Some (Inr (s, st)))"

definition two_args :: "tokenv \<Rightarrow> nat \<Rightarrow> mkrun \<Rightarrow> (byte list \<times> byte list \<times> mkrun) mk option" where
  "two_args E sz st =
     bindo (arg_copy E (SZ_FNAME + 1) st) (\<lambda>(a, st).
     bindo (arg_copy E sz st) (\<lambda>(b, st). Some (Inr (a, b, st))))"

definition do_incheck :: "tokenv \<Rightarrow> mkrun \<Rightarrow> mkrun mk option" where
  "do_incheck E st = bindo (two_args E (SZ_FNAME + 1) st) (\<lambda>(fname, dname, st).
     ask_warn E (H_incheck fname dname) ''error during checkin of '' fname st)"

definition do_outcheck :: "tokenv \<Rightarrow> mkrun \<Rightarrow> mkrun mk option" where
  "do_outcheck E st = bindo (two_args E (SZ_FNAME + 1) st) (\<lambda>(fname, dname, st).
     ask_warn E (H_outcheck fname dname) ''error during checkout of '' fname st)"

definition do_copyfile :: "tokenv \<Rightarrow> mkrun \<Rightarrow> mkrun mk option" where
  "do_copyfile E st =
     bindo (two_args E (SZ_FNAME + 1) st) (\<lambda>(old, new, st).
     unless_stop st (ask_warn E (H_copyfile old new) ''error making copy of '' old st))"

definition do_movefile :: "tokenv \<Rightarrow> mkrun \<Rightarrow> mkrun mk option" where
  "do_movefile E st =
     bindo (two_args E (SZ_PATHNAME + 1) st) (\<lambda>(old, new, st).
     unless_stop st
       (if new = [] then Some (Inl Fault)
        else
          let full = (if last new = 36 \<or> last new = 47 then new @ old else new) in
          if SZ_PATHNAME + 1 \<le> length full then Some (Inl Fault)
          else ask_warn E (H_movefile old full) ''error moving file '' old st))"

definition delete_turn :: "tokenv \<Rightarrow> mkrun \<Rightarrow> (mkrun + mkrun) mk option" where
  "delete_turn E st =
     bindo (arg_copy E (SZ_PATHNAME + 1) st) (\<lambda>(fname, st).
     if fname = [] then Some (Inr (Inl st))
     else
       bindo (returno (cond_state st)) (\<lambda>s.
       if s = STOP then Some (Inr (Inl st))
       else
         bindo (if te_execute E then ask_warn E (Os_delete fname) ''cannot delete file '' fname st else Some (Inr st)) (\<lambda>st.
         Some (Inr (Inr st)))))"

definition do_delete :: "tokenv \<Rightarrow> mkrun \<Rightarrow> mkrun mk option" where
  "do_delete E = mk_loop (delete_turn E)"

definition do_purge :: "tokenv \<Rightarrow> byte list \<Rightarrow> mkrun \<Rightarrow> mkrun mk option" where
  "do_purge E dname st = unless_stop st (ask_warn E (H_purge dname) ''error during purge of '' dname st)"

definition do_echo :: "tokenv \<Rightarrow> byte list \<Rightarrow> mkrun \<Rightarrow> mkrun mk option" where
  "do_echo E msg st =
     bindo (returno (cond_state st)) (\<lambda>s.
     Some (Inr (if s = PASS then st\<lparr>requests := requests st @ [Echo msg]\<rparr> else st)))"

definition do_debug :: "tokenv \<Rightarrow> mkrun \<Rightarrow> mkrun mk option" where
  "do_debug E st =
     bindo (arg_string E st) (\<lambda>(s, st).
     Some (Inr (if s = bytes_of ''off'' then st\<lparr>debug := 0\<rparr> else st\<lparr>debug := 1, verbose := verbose st + 1\<rparr>)))"

definition do_verbose :: "tokenv \<Rightarrow> mkrun \<Rightarrow> mkrun mk option" where
  "do_verbose E st = bindo (arg_string E st) (\<lambda>(s, st). Some (Inr (st\<lparr>verbose := (if s = bytes_of ''off'' then 0 else 1)\<rparr>)))"

subsection \<open>Directives\<close>

text \<open>
  The directives that execute another module or file, compile, link or keep lists of files are handed to the caller,
  with the state in which they were found.  In text that is skipped \<open>$call\<close>, \<open>$update\<close>, \<open>$goto\<close>, \<open>$include\<close> and \<open>$omake\<close>
  only read their arguments, which is modelled here (\<open>if_skipped\<close>); \<open>$special\<close> and \<open>$link\<close> are handed over there too:
  \<open>sf_scanlist\<close> does not test \<open>ifstate\<close>, and \<open>do_link\<close> tests it only after it has searched the special files.
\<close>

datatype ppresult = Did mkrun | Outside mkrun

definition did :: "mkrun mk option \<Rightarrow> ppresult mk option" where
  "did r = bindo r (\<lambda>st. Some (Inr (Did st)))"

definition begins :: "byte list \<Rightarrow> string \<Rightarrow> bool" where
  "begins token s = (take (length s) token = bytes_of s)"

definition if_skipped :: "mkrun \<Rightarrow> mkrun mk option \<Rightarrow> ppresult mk option" where
  "if_skipped st r = (if cond_state st = Inr STOP then did r else Some (Inr (Outside st)))"

definition skip_args :: "tokenv \<Rightarrow> mkrun \<Rightarrow> mkrun mk option" where
  "skip_args E st = bindo (arg_string E st) (\<lambda>(s, st). Some (Inr st))"

text \<open>The part of \<open>do_call\<close> in front of its test of \<open>ifstate\<close>: the name of the module, and the definitions behind it.\<close>

definition call_turn :: "tokenv \<Rightarrow> mkrun \<Rightarrow> (mkrun + mkrun) mk option" where
  "call_turn E st =
     bindo (getkwvpair (te_sys E) (run_env E st) (te_junk E) (te_args E) (run_tok st)) (\<lambda>(kv, t).
     let st = st\<lparr>run_tok := t\<rparr> in
     case kv of
       None \<Rightarrow> Some (Inr (Inl st))
     | Some (symbol, val) \<Rightarrow>
         if SZ_COMMAND < length val then Some (Inl Fault)
         else
           bindo (returno (cond_state st)) (\<lambda>s.
           if s = PASS then
             bindo (returno (putsym symbol val (tk_syms t))) (\<lambda>syms. Some (Inr (Inr (st\<lparr>run_tok := t\<lparr>tk_syms := syms\<rparr>\<rparr>))))
           else Some (Inr (Inr st))))"

definition call_args :: "tokenv \<Rightarrow> mkrun \<Rightarrow> mkrun mk option" where
  "call_args E st = bindo (arg_copy E (SZ_FNAME + 1) st) (\<lambda>(modspec, st). mk_loop (call_turn E) st)"

definition do_ppdir :: "tokenv \<Rightarrow> byte list \<Rightarrow> mkrun \<Rightarrow> ppresult mk option" where
  "do_ppdir E token st =
     (if begins token ''$if'' then
        did (on_tok (do_if (te_sys E) (te_fdate E) (te_env E) (te_junk E) (te_pbuf E) token) st)
      else if begins token ''$else'' then did (on_tok (\<lambda>t. returno (do_else t)) st)
      else if begins token ''$endif'' then did (on_tok (\<lambda>t. Some (Inr (do_endif t))) st)
      else if begins token ''$end'' then did (on_tok (\<lambda>t. Some (Inr (do_end t))) st)
      else if begins token ''$call'' then if_skipped st (call_args E st)
      else if begins token ''$echo'' then did (bindo (arg_string E st) (\<lambda>(s, st). do_echo E s st))
      else if begins token ''$goto'' \<or> begins token ''$include'' then if_skipped st (skip_args E st)
      else if begins token ''$set'' then
        did (on_tok (do_set (te_sys E) (te_env E) (te_junk E) (te_args E)) st)
      else if begins token ''$special'' then Some (Inr (Outside st))
      else if begins token ''$update'' then if_skipped st (call_args E st)
      else if begins token ''$checkin'' then did (do_incheck E st)
      else if begins token ''$checkout'' then did (do_outcheck E st)
      else if begins token ''$copy'' then did (do_copyfile E st)
      else if begins token ''$delete'' then did (do_delete E st)
      else if begins token ''$generic'' then did (do_generic E st)
      else if begins token ''$link'' then Some (Inr (Outside st))
      else if begins token ''$move'' then did (do_movefile E st)
      else if begins token ''$omake'' then if_skipped st (skip_args E st)
      else if begins token ''$purge'' then did (bindo (arg_string E st) (\<lambda>(s, st). do_purge E s st))
      else if begins token ''$xc'' then did (do_xc E st)
      else if begins token ''$debug'' then did (do_debug E st)
      else if begins token ''$verbose'' then did (do_verbose E st)
      else did (returno (warns ''illegal preprocessor directive `'' token [CHR 0x27] st)))"

subsection \<open>Tokens\<close>

datatype tok = TOK_FNAME | TOK_NEWLINE | TOK_BEGIN | TOK_END

datatype gotten = Got tok "byte list" mkrun | Directive "byte list" mkrun

definition skip_comment :: "pushback \<Rightarrow> mkctx \<Rightarrow> mkctx mk option" where
  "skip_comment junk cx =
     bindo (mk_loop (\<lambda>cx. returno (bindm (m_rawgetc cx) (\<lambda>(ch, cx). Inr (if ch = 10 \<or> ch = EOF then Inl cx else Inr cx)))) cx) (\<lambda>cx.
     returno (m_ungetc junk 10 cx))"

definition dir_turn :: "mkenv \<Rightarrow> pushback \<Rightarrow> byte list \<times> mkctx \<Rightarrow> (byte list \<times> mkctx + byte list \<times> mkctx) mk option" where
  "dir_turn M junk = (\<lambda>(out, cx).
     bindo (m_getc M junk cx) (\<lambda>(ch, cx).
     if ch = EOF then Some (Inr (Inl (out, cx)))
     else if islower ch then bindo (returno (put_out (SZ_COMMAND + 1) out [ch])) (\<lambda>out. Some (Inr (Inr (out, cx))))
     else if isupper ch then bindo (returno (put_out (SZ_COMMAND + 1) out [tolower ch])) (\<lambda>out. Some (Inr (Inr (out, cx))))
     else bindo (returno (m_ungetc junk ch cx)) (\<lambda>cx. Some (Inr (Inl (out, cx))))))"

text \<open>The token in \<open>outstr\<close>, unless it is in text that is skipped.\<close>

definition give :: "tok \<Rightarrow> byte list \<Rightarrow> mkrun \<Rightarrow> (gotten + mkrun) mk option" where
  "give token s st =
     bindo (returno (cond_state st)) (\<lambda>c. Some (Inr (if c = STOP then Inr st else Inl (Got token s st))))"

definition file_token :: "tokenv \<Rightarrow> nat \<Rightarrow> int \<Rightarrow> int \<Rightarrow> mkctx \<Rightarrow> mkrun \<Rightarrow> (gotten + mkrun) mk option" where
  "file_token E sz maxch delim cx st =
     bindo (getstr (run_env E st) (te_junk E) sz maxch delim cx) (\<lambda>(s, cx). give TOK_FNAME (cstr s) (set_cx cx st))"

text \<open>One turn through \<open>again\<close>; \<open>outstr\<close> is an array of \<open>sz\<close> bytes, of which two at least are there.\<close>

definition gettok_turn :: "tokenv \<Rightarrow> nat \<Rightarrow> int \<Rightarrow> mkrun \<Rightarrow> (gotten + mkrun) mk option" where
  "gettok_turn E sz maxch st =
     bindo (skip_blanks (run_env E st) (te_junk E) (run_cx st)) (\<lambda>(ch, cx).
     if ch = EOF then Some (Inr (Inl (Got TOK_END [] (set_cx cx st))))
     else if ch = 35 then bindo (skip_comment (te_junk E) cx) (\<lambda>cx. Some (Inr (Inr (set_cx cx st))))
     else if ch = 36 then
       bindo (mk_loop (dir_turn (run_env E st) (te_junk E)) ([36], cx)) (\<lambda>(tokbuf, cx).
       if SZ_COMMAND + 1 \<le> length tokbuf then Some (Inl Fault)
       else if begins tokbuf ''$exit'' then Some (Inr (Inl (Got TOK_END [36] (set_cx cx st))))
       else
         bindo (do_ppdir E tokbuf (set_cx cx st)) (\<lambda>r.
         Some (Inr (case r of Did st \<Rightarrow> Inr st | Outside st \<Rightarrow> Inl (Directive tokbuf st)))))
     else if ch = 33 then bindo (do_osescape E (set_cx cx st)) (\<lambda>st. Some (Inr (Inr st)))
     else if ch = 58 then give TOK_BEGIN [58] (set_cx cx st)
     else if ch = 59 then give TOK_END [59] (set_cx cx st)
     else if ch = 10 then give TOK_NEWLINE [10] (set_cx cx st)
     else if ch = SYSFILE_BEGIN then
       bindo (getstr (run_env E st) (te_junk E) (SZ_COMMAND + 1) (int SZ_COMMAND) SYSFILE_END cx) (\<lambda>(tokbuf, cx).
       bindo (returno (sysfile_name (te_sys E) (cstr tokbuf) ((te_outstr E)[0 := 60, 1 := 0]) maxch (in_fn (run_tok st)))) (\<lambda>(s, fn).
       give TOK_FNAME s (set_cx cx (st\<lparr>run_tok := (run_tok st)\<lparr>in_fn := fn\<rparr>\<rparr>))))
     else if ch = 39 \<or> ch = 34 then file_token E sz maxch ch cx st
     else if ch = ESCAPE then
       bindo (m_getc (run_env E st) (te_junk E) cx) (\<lambda>(ch, cx).
       if ch = 10 then Some (Inr (Inr (set_cx cx st)))
       else bindo (returno (m_ungetc (te_junk E) ch cx)) (\<lambda>cx. file_token E sz maxch 32 cx st))
     else bindo (returno (m_ungetc (te_junk E) ch cx)) (\<lambda>cx. file_token E sz maxch 32 cx st))"

definition gettok :: "tokenv \<Rightarrow> nat \<Rightarrow> int \<Rightarrow> mkrun \<Rightarrow> gotten mk option" where
  "gettok E sz maxch = mk_loop (gettok_turn E sz maxch)"

end
