(* ===== verification/Mk_Skip.thy ===== *)
theory Mk_Skip
  imports Mk_Gettok
begin

text \<open>
  Text that is skipped: what the tokens and directives of \<open>Mk_Gettok\<close> change as long as a condition fails.  That is the
  place in the input, the stack of conditions and the cache of file names; check-ins and check-outs are executed, the
  flags \<open>debug\<close> and \<open>verbose\<close> are set, and warnings are printed, as elsewhere.
\<close>

subsection \<open>What reading changes\<close>

definition read_only :: "'z mkin_scheme \<Rightarrow> 'z mkin_scheme \<Rightarrow> bool" where
  "read_only t t' \<longleftrightarrow> (\<exists>cx fn. t' = t\<lparr>in_cx := cx, in_fn := fn\<rparr>)"

lemma read_only_refl [intro]: "read_only t t"
  unfolding read_only_def by (metis mkin.surjective mkin.update_convs(1,2))

lemma read_only_cx [intro]: "read_only t (t\<lparr>in_cx := cx\<rparr>)"
  unfolding read_only_def by (rule exI [of _ cx], rule exI [of _ "in_fn t"]) simp

lemma read_only_cx_fn [intro]: "read_only t (t\<lparr>in_cx := cx, in_fn := fn\<rparr>)"
  unfolding read_only_def by blast

lemma read_only_trans: "read_only t t1 \<Longrightarrow> read_only t1 t2 \<Longrightarrow> read_only t t2"
proof -
  assume "read_only t t1" "read_only t1 t2"
  then obtain cx fn cx' fn' where "t1 = t\<lparr>in_cx := cx, in_fn := fn\<rparr>" "t2 = t1\<lparr>in_cx := cx', in_fn := fn'\<rparr>"
    unfolding read_only_def by blast
  then have "t2 = t\<lparr>in_cx := cx', in_fn := fn'\<rparr>" by simp
  then show ?thesis unfolding read_only_def by blast
qed

lemma read_only_upd:
  "read_only t t1 \<Longrightarrow> read_only t (t1\<lparr>in_cx := cx\<rparr>)" "read_only t t1 \<Longrightarrow> read_only t (t1\<lparr>in_cx := cx, in_fn := fn\<rparr>)"
  by (auto intro: read_only_trans)

lemma read_only_tok:
  "read_only t t' \<Longrightarrow> tk_syms t' = tk_syms t \<and> tk_fd t' = tk_fd t \<and> exit_status t' = exit_status t
     \<and> ifstate t' = ifstate t \<and> iflev t' = iflev t \<and> old_iflev t' = old_iflev t"
  by (auto simp: read_only_def)

lemma getargs_read: "getargs H E junk args t = Some (Inr (s, t')) \<Longrightarrow> read_only t t'"
  by (auto simp: getargs_def bindo_Inr Let_def split: prod.splits if_splits)

lemma getkwvpair_read: "getkwvpair H E junk args t = Some (Inr (kv, t')) \<Longrightarrow> read_only t t'"
  by (auto simp: getkwvpair_def bindo_Inr split: prod.splits if_splits option.splits
      dest!: getargs_read intro: read_only_trans [OF read_only_cx])

lemma pred_turn_read:
  assumes "read_only t0 t"
  shows "pred_turn H E junk pbuf (out, argv, t) = Some (Inr (Inl (as, t'))) \<Longrightarrow> read_only t0 t'"
    "pred_turn H E junk pbuf (out, argv, t) = Some (Inr (Inr (out', argv', t'))) \<Longrightarrow> read_only t0 t'"
  using read_only_upd [OF assms] by (auto simp: pred_turn_def bindo_Inr split: prod.splits if_splits)

lemma read_predicate_read:
  assumes "read_predicate H E junk pbuf t = Some (Inr (argv, t'))"
  shows "read_only t t'"
proof -
  obtain cx where "mk_loop (pred_turn H E junk pbuf) ([], [0], t\<lparr>in_cx := cx\<rparr>) = Some (Inr (argv, t'))"
    using assms by (auto simp: read_predicate_def bindo_Inr)
  then have "(\<lambda>(argv, t'). read_only t t') (argv, t')"
  proof (rule mk_loop_post [where I = "\<lambda>(out, argv, t'). read_only t t'"])
    show "(\<lambda>(out, argv, t'). read_only t t') ([], [0], t\<lparr>in_cx := cx\<rparr>)" by auto
    show "(\<lambda>(out, argv, t'). read_only t t') s'"
      if "(\<lambda>(out, argv, t'). read_only t t') s" "pred_turn H E junk pbuf s = Some (Inr (Inr s'))" for s s'
      using that pred_turn_read(2) by (cases s; cases s') simp
    show "(\<lambda>(argv, t'). read_only t t') a"
      if "(\<lambda>(out, argv, t'). read_only t t') s" "pred_turn H E junk pbuf s = Some (Inr (Inl a))" for s a
      using that pred_turn_read(1) by (cases s; cases a) simp
  qed
  then show ?thesis by simp
qed

subsection \<open>Directives in skipped text\<close>

text \<open>Nothing is changed but by check-ins and check-outs, and those are recorded.\<close>

definition is_check :: "request \<Rightarrow> bool" where
  "is_check r = (case r of H_incheck _ _ \<Rightarrow> True | H_outcheck _ _ \<Rightarrow> True | _ \<Rightarrow> False)"

definition quiet_tok :: "mktok \<Rightarrow> mktok \<Rightarrow> bool" where
  "quiet_tok t t' \<longleftrightarrow> tk_syms t' = tk_syms t \<and> tk_fd t' = tk_fd t"

text \<open>The warnings of check-ins, check-outs and unknown directives.\<close>

definition skip_warning :: "byte list \<Rightarrow> bool" where
  "skip_warning w \<longleftrightarrow> begins w ''illegal preprocessor directive `'' \<or> begins w ''error during checkin of ''
     \<or> begins w ''error during checkout of ''"

definition quiet :: "mkrun \<Rightarrow> mkrun \<Rightarrow> bool" where
  "quiet st st' \<longleftrightarrow> quiet_tok (run_tok st) (run_tok st') \<and>
     (\<exists>ws. warnings st' = warnings st @ ws \<and> list_all skip_warning ws) \<and>
     (\<exists>rs. requests st' = requests st @ rs \<and> list_all is_check rs
       \<and> (rs = [] \<longrightarrow> exit_status (run_tok st') = exit_status (run_tok st)))"

lemma quiet_refl: "quiet st st"
  by (simp add: quiet_def quiet_tok_def)

lemma quiet_trans: "quiet st st1 \<Longrightarrow> quiet st1 st2 \<Longrightarrow> quiet st st2"
  unfolding quiet_def quiet_tok_def by (elim conjE exE) (auto intro!: exI)

text \<open>A step that only reads.\<close>

definition just_reads :: "mkrun \<Rightarrow> mkrun \<Rightarrow> bool" where
  "just_reads st st' \<longleftrightarrow> read_only (run_tok st) (run_tok st') \<and> requests st' = requests st \<and> warnings st' = warnings st"

lemma just_reads_quiet: "just_reads st st' \<Longrightarrow> quiet st st'"
  by (auto simp: just_reads_def quiet_def quiet_tok_def dest: read_only_tok)

lemma just_reads_trans: "just_reads st st1 \<Longrightarrow> just_reads st1 st2 \<Longrightarrow> just_reads st st2"
  unfolding just_reads_def by (auto intro: read_only_trans)

lemma just_reads_refl: "just_reads st st"
  by (auto simp: just_reads_def)

lemma just_reads_cx: "just_reads st (set_cx cx st)"
  by (auto simp: just_reads_def set_cx_def)

lemma just_reads_flags: "just_reads st (st'\<lparr>debug := d\<rparr>) = just_reads st st'" "just_reads st (st'\<lparr>verbose := v\<rparr>) = just_reads st st'"
  by (simp_all add: just_reads_def)

lemma cond_state_read: "just_reads st st' \<Longrightarrow> cond_state st' = cond_state st"
  by (auto simp: just_reads_def cond_state_def if_get_def dest: read_only_tok)

lemma arg_string_read: "arg_string E st = Some (Inr (s, st')) \<Longrightarrow> just_reads st st'"
  by (auto simp: arg_string_def bindo_Inr just_reads_def dest: getargs_read)

lemma arg_copy_read: "arg_copy E sz st = Some (Inr (s, st')) \<Longrightarrow> just_reads st st'"
  by (auto simp: arg_copy_def bindo_Inr split: if_splits dest: arg_string_read)

lemma two_args_read: "two_args E sz st = Some (Inr (a, b, st')) \<Longrightarrow> just_reads st st'"
  by (auto simp: two_args_def bindo_Inr dest!: arg_copy_read intro: just_reads_trans)

lemma skip_args_read: "skip_args E st = Some (Inr st') \<Longrightarrow> just_reads st st'"
  by (auto simp: skip_args_def bindo_Inr dest: arg_string_read)

lemma unless_stop_stopped: "cond_state st = Inr STOP \<Longrightarrow> unless_stop st r = Some (Inr st)"
  by (simp add: unless_stop_def returno_def)

lemma unless_stop_read: "just_reads st st1 \<Longrightarrow> cond_state st = Inr STOP \<Longrightarrow> unless_stop st1 r = Some (Inr st') \<Longrightarrow> just_reads st st'"
  by (simp add: unless_stop_stopped cond_state_read)

lemma do_osescape_stopped:
  assumes "cond_state st = Inr STOP" "do_osescape E st = Some (Inr st')"
  shows "just_reads st st'"
  using assms by (auto simp: do_osescape_def bindo_Inr Let_def intro: just_reads_cx unless_stop_read [OF just_reads_cx] split: if_splits prod.splits)

lemma run_line_stopped:
  assumes "cond_state st = Inr STOP" "run_line E r prefix st = Some (Inr st')"
  shows "just_reads st st'"
  using assms by (auto simp: run_line_def bindo_Inr Let_def intro: unless_stop_read [OF just_reads_cx] split: prod.splits)

lemma file_ops_stopped:
  assumes "cond_state st = Inr STOP"
  shows "do_copyfile E st = Some (Inr st') \<Longrightarrow> just_reads st st'" "do_movefile E st = Some (Inr st') \<Longrightarrow> just_reads st st'"
    "bindo (arg_string E st) (\<lambda>(s, st). do_purge E s st) = Some (Inr st') \<Longrightarrow> just_reads st st'"
    "bindo (arg_string E st) (\<lambda>(s, st). do_echo E s st) = Some (Inr st') \<Longrightarrow> just_reads st st'"
    "do_delete E st = Some (Inr st') \<Longrightarrow> just_reads st st'"
proof -
  assume "do_delete E st = Some (Inr st')"
  then obtain r where r: "delete_turn E st = Some (Inr r)" "r = Inl st' \<or> (\<exists>s. r = Inr s)"
    unfolding do_delete_def by (subst (asm) mk_loop.simps) (auto split: option.splits sum.splits)
  show "just_reads st st'"
  proof (cases r)
    case (Inl s)
    then show ?thesis using r by (auto simp: delete_turn_def bindo_Inr dest!: arg_copy_read split: prod.splits if_splits)
  next
    case (Inr s)
    then show ?thesis using r(1) assms
      by (auto simp: delete_turn_def bindo_Inr returno_def dest!: arg_copy_read cond_state_read split: prod.splits if_splits)
  qed
qed (use assms in \<open>auto simp: do_copyfile_def do_movefile_def do_purge_def do_echo_def bindo_Inr returno_def cond_state_read
  dest!: two_args_read arg_string_read dest: unless_stop_read\<close>)

text \<open>The definitions behind \<open>$call\<close> are read and not entered.\<close>

lemma call_turn_stopped:
  assumes "cond_state st = Inr STOP" "call_turn E st = Some (Inr r)"
  shows "just_reads st (case r of Inl st' \<Rightarrow> st' | Inr st' \<Rightarrow> st')"
proof -
  obtain kv t where k: "getkwvpair (te_sys E) (run_env E st) (te_junk E) (te_args E) (run_tok st) = Some (Inr (kv, t))"
    using assms(2) by (auto simp: call_turn_def bindo_Inr)
  have r: "just_reads st (st\<lparr>run_tok := t\<rparr>)" using getkwvpair_read [OF k] by (simp add: just_reads_def)
  then have "cond_state (st\<lparr>run_tok := t\<rparr>) = Inr STOP" using assms(1) cond_state_read by simp
  then show ?thesis using assms(2) r by (auto simp: call_turn_def k Let_def returno_def split: option.splits if_splits)
qed

lemma call_args_stopped:
  assumes "cond_state st = Inr STOP" "call_args E st = Some (Inr st')"
  shows "just_reads st st'"
proof -
  obtain s st1 where a: "arg_copy E (SZ_FNAME + 1) st = Some (Inr (s, st1))" "mk_loop (call_turn E) st1 = Some (Inr st')"
    using assms(2) by (auto simp: call_args_def bindo_Inr)
  from a(2) show ?thesis
  proof (rule mk_loop_post [where I = "just_reads st"])
    show "just_reads st st1" using arg_copy_read [OF a(1)] .
    have turn: "just_reads st (case r of Inl st' \<Rightarrow> st' | Inr st' \<Rightarrow> st')"
      if "just_reads st u" "call_turn E u = Some (Inr r)" for u r
      using call_turn_stopped [OF _ that(2)] cond_state_read [OF that(1)] assms(1) just_reads_trans [OF that(1)] by simp
    show "just_reads st u'" if "just_reads st u" "call_turn E u = Some (Inr (Inr u'))" for u u'
      using turn [OF that] by simp
    show "just_reads st u'" if "just_reads st u" "call_turn E u = Some (Inr (Inl u'))" for u u'
      using turn [OF that] by simp
  qed
qed

lemma if_skipped_stopped:
  "cond_state st = Inr STOP \<Longrightarrow> if_skipped st r = did r"
  by (simp add: if_skipped_def)

lemma do_set_stopped:
  assumes "if_get (iflev t) t = Inr STOP" "do_set H E junk args t = Some (Inr t')"
  shows "read_only t t'"
proof -
  obtain kv t1 where g: "getkwvpair H (tk_env E t) junk args t = Some (Inr (kv, t1))" using assms(2) by (auto simp: do_set_def bindo_Inr)
  have r: "read_only t t1" by (rule getkwvpair_read [OF g])
  then have "if_get (iflev t1) t1 = Inr STOP" using assms(1) by (auto simp: if_get_def split: if_splits dest!: read_only_tok)
  then have "t' = t1" using assms(2) g by (auto simp: do_set_def returno_def split: option.splits)
  with r show ?thesis by simp
qed

lemma if_get_lev: "if_get i (t\<lparr>iflev := l\<rparr>) = if_get i t"
  by (simp add: if_get_def)

lemma do_if_stopped:
  assumes "if_get (iflev t) t = Inr STOP" "do_if H os_fdate E junk pbuf keyword t = Some (Inr t')"
  shows "quiet_tok t t' \<and> exit_status t' = exit_status t \<and> if_get (iflev t') t' = Inr STOP"
proof -
  obtain argv t1 where g: "read_predicate H E junk pbuf t = Some (Inr (argv, t1))" using assms(2) by (auto simp: do_if_def bindo_Inr Let_def)
  note r = read_only_tok [OF read_predicate_read [OF g]]
  then have "if_get (iflev t1) t1 = Inr STOP" using assms(1) by (simp add: if_get_def split: if_splits)
  then have "if_set (iflev t1 + 1) STOP (t1\<lparr>iflev := iflev t1 + 1\<rparr>) = Inr t'"
    using assms(2) g by (simp add: do_if_def Let_def returno_def if_get_lev)
  then show ?thesis using r by (auto simp: if_set_def if_get_def quiet_tok_def split: if_splits)
qed

lemma did_Inr: "did r = Some (Inr x) \<longleftrightarrow> (\<exists>st. r = Some (Inr st) \<and> x = Did st)"
  by (auto simp: did_def bindo_Inr)

lemma on_tok_Inr: "on_tok f st = Some (Inr st') \<longleftrightarrow> (\<exists>t. f (run_tok st) = Some (Inr t) \<and> st' = st\<lparr>run_tok := t\<rparr>)"
  by (auto simp: on_tok_def bindo_Inr)

lemma quiet_on_tok: "quiet_tok (run_tok st) t \<Longrightarrow> exit_status t = exit_status (run_tok st) \<Longrightarrow> quiet st (st\<lparr>run_tok := t\<rparr>)"
  by (simp add: quiet_def)

lemma do_else_quiet: "do_else t = Inr t' \<Longrightarrow> quiet_tok t t' \<and> exit_status t' = exit_status t"
  by (auto simp: do_else_def bindm_Inr if_set_def quiet_tok_def split: if_splits)

lemma checks_quiet:
  "do_incheck E st = Some (Inr st') \<Longrightarrow> quiet st st'" "do_outcheck E st = Some (Inr st') \<Longrightarrow> quiet st st'"
proof -
  have *: "quiet st st2" if "just_reads st st1" "is_check r" "ask_warn E r before arg st1 = Some (Inr st2)"
    "before = ''error during checkin of '' \<or> before = ''error during checkout of ''" for st1 st2 r before arg
    using that by (auto simp: just_reads_def quiet_def quiet_tok_def ask_warn_def ask_def warns_def returno_def Let_def
        skip_warning_def begins_def bytes_of_def split: if_splits dest: read_only_tok)
  show "do_incheck E st = Some (Inr st') \<Longrightarrow> quiet st st'" "do_outcheck E st = Some (Inr st') \<Longrightarrow> quiet st st'"
    by (auto simp: do_incheck_def do_outcheck_def bindo_Inr is_check_def intro!: * dest!: two_args_read)
qed

lemma illegal_quiet: "warns ''illegal preprocessor directive `'' token after st = Inr st' \<Longrightarrow> quiet st st'"
  by (auto simp: warns_def Let_def quiet_def quiet_tok_def skip_warning_def begins_def bytes_of_def split: if_splits)

lemma do_ppdir_stopped:
  assumes "cond_state st = Inr STOP" "do_ppdir E token st = Some (Inr (Did st'))"
  shows "quiet st st'"
proof -
  have s: "if_get (iflev (run_tok st)) (run_tok st) = Inr STOP" using assms(1) by (simp add: cond_state_def)
  have reads: "just_reads st st' \<Longrightarrow> ?thesis" by (rule just_reads_quiet)
  have tok: "quiet_tok t t' \<and> exit_status t' = exit_status t" if "read_only t t'" for t t'
    using read_only_tok [OF that] by (simp add: quiet_tok_def)
  have fin: "quiet_tok t (do_endif t)" "quiet_tok t (do_end t)" "exit_status (do_endif t) = exit_status t" "exit_status (do_end t) = exit_status t" for t
    by (auto simp: do_endif_def do_end_def quiet_tok_def split: option.splits)
  have dbg: "just_reads st st'" if "do_debug E st = Some (Inr st') \<or> do_verbose E st = Some (Inr st')"
    using that by (auto simp: do_debug_def do_verbose_def bindo_Inr just_reads_flags dest: arg_string_read)
  note ops = file_ops_stopped [OF assms(1)] run_line_stopped [OF assms(1)]
  show ?thesis
    using assms(2) unfolding do_ppdir_def
    by (auto simp: did_Inr on_tok_Inr returno_def do_xc_def do_generic_def if_skipped_stopped [OF assms(1)] split: if_splits
        intro: reads ops checks_quiet dbg illegal_quiet call_args_stopped [OF assms(1)] skip_args_read intro!: quiet_on_tok quiet_refl fin
        dest: do_if_stopped [OF s] do_else_quiet do_set_stopped [OF s, THEN tok])
qed

subsection \<open>Tokens in skipped text\<close>

lemma give_stopped: "cond_state st = Inr STOP \<Longrightarrow> give token s st = Some (Inr (Inr st))"
  by (simp add: give_def returno_def)

lemma file_token_stopped:
  assumes "cond_state st = Inr STOP" "file_token E sz maxch delim cx st = Some (Inr r)"
  shows "\<exists>st'. r = Inr st' \<and> just_reads st st'"
proof -
  obtain s cx' where "give TOK_FNAME s (set_cx cx' st) = Some (Inr r)" using assms(2) by (auto simp: file_token_def bindo_Inr)
  then show ?thesis using assms(1) just_reads_cx [of st cx'] by (auto simp: give_stopped cond_state_read)
qed

text \<open>
  What a turn in skipped text may end with: the next turn; \<open>TOK_END\<close>, at the end of the input or at \<open>$exit\<close>; or one of
  the two directives that are handed to the caller.
\<close>

definition quiet_turn :: "mkrun \<Rightarrow> gotten + mkrun \<Rightarrow> bool" where
  "quiet_turn st r \<longleftrightarrow> (case r of Inr st' \<Rightarrow> quiet st st'
     | Inl (Got token s st') \<Rightarrow> token = TOK_END \<and> s \<in> {[], [36]} \<and> just_reads st st'
     | Inl (Directive s st') \<Rightarrow> (begins s ''$special'' \<or> begins s ''$link'') \<and> just_reads st st')"

lemma do_ppdir_outside:
  "do_ppdir E token st = Some (Inr (Outside st')) \<Longrightarrow> st' = st \<and> (cond_state st = Inr STOP \<longrightarrow> begins token ''$special'' \<or> begins token ''$link'')"
  by (auto simp: do_ppdir_def did_Inr if_skipped_def split: if_splits)

lemma gettok_turn_stopped:
  assumes "cond_state st = Inr STOP" "gettok_turn E sz maxch st = Some (Inr r)"
  shows "quiet_turn st r"
proof -
  obtain ch cx where sk: "skip_blanks (run_env E st) (te_junk E) (run_cx st) = Some (Inr (ch, cx))"
    using assms(2) by (auto simp: gettok_turn_def bindo_Inr)
  note turn = assms(2) [unfolded gettok_turn_def sk bindo_simps prod.case]
  have stop: "cond_state st1 = Inr STOP" if "just_reads st st1" for st1 using that assms(1) by (simp add: cond_state_read)
  have again: "quiet_turn st (Inr st')" if "just_reads st st'" for st' using that by (simp add: quiet_turn_def just_reads_quiet)
  have gives: "quiet_turn st r" if "give token s st1 = Some (Inr r)" "just_reads st st1" for token s st1
    using that give_stopped [OF stop [OF that(2)]] again by auto
  have files: "quiet_turn st r" if "file_token E sz maxch delim cx st = Some (Inr r)" for delim cx
    using file_token_stopped [OF assms(1) that] again by auto
  consider "ch = EOF \<or> ch = 35" | "ch = 36" | "ch = 33" | "ch \<in> {58, 59, 10}" | "ch = SYSFILE_BEGIN" | "ch \<notin> {EOF, 35, 36, 33, 58, 59, 10, SYSFILE_BEGIN}"
    by blast
  then show ?thesis
  proof cases
    case 1
    then show ?thesis using turn again [OF just_reads_cx] by (auto simp: quiet_turn_def just_reads_cx bindo_Inr)
  next
    case 2
    have pp: "quiet_turn st (case x of Did st \<Rightarrow> Inr st | Outside st \<Rightarrow> Inl (Directive tokbuf st))"
      if "do_ppdir E tokbuf (set_cx cx st) = Some (Inr x)" for x tokbuf cx
    proof (cases x)
      case (Did st')
      then have "quiet (set_cx cx st) st'" using do_ppdir_stopped [OF stop [OF just_reads_cx]] that by blast
      then show ?thesis using Did quiet_trans [OF just_reads_quiet [OF just_reads_cx]] by (simp add: quiet_turn_def)
    next
      case (Outside st')
      then have "st' = set_cx cx st" "begins tokbuf ''$special'' \<or> begins tokbuf ''$link''"
        using do_ppdir_outside that stop [OF just_reads_cx] by blast+
      then show ?thesis using Outside by (simp add: quiet_turn_def just_reads_cx)
    qed
    show ?thesis using turn 2 pp by (auto simp: bindo_Inr quiet_turn_def just_reads_cx split: if_splits)
  next
    case 3
    then obtain st' where "do_osescape E (set_cx cx st) = Some (Inr st')" "r = Inr st'" using turn by (auto simp: bindo_Inr)
    then show ?thesis using do_osescape_stopped [OF stop [OF just_reads_cx]] again just_reads_trans [OF just_reads_cx] by blast
  next
    case 4
    then show ?thesis using turn gives [OF _ just_reads_cx] by auto
  next
    case 5
    have "just_reads st (set_cx cx (st\<lparr>run_tok := (run_tok st)\<lparr>in_fn := fn\<rparr>\<rparr>))" for cx fn
      unfolding just_reads_def set_cx_def read_only_def by (auto intro!: exI [of _ cx] exI [of _ fn])
    then show ?thesis using turn 5 gives by (auto simp: bindo_Inr)
  next
    case 6
    then show ?thesis using turn files again [OF just_reads_cx] by (auto simp: bindo_Inr split: if_splits)
  qed
qed

text \<open>The turns of \<open>gettok\<close> as long as a condition fails.\<close>

inductive skips :: "tokenv \<Rightarrow> nat \<Rightarrow> int \<Rightarrow> mkrun \<Rightarrow> mkrun \<Rightarrow> bool" for E sz maxch where
  start: "skips E sz maxch st st"
| turn: "skips E sz maxch st st1 \<Longrightarrow> cond_state st1 = Inr STOP \<Longrightarrow> gettok_turn E sz maxch st1 = Some (Inr (Inr st2)) \<Longrightarrow>
    skips E sz maxch st st2"


text \<open>Check-ins and check-outs do not look at the condition.\<close>

lemma incheck_always:
  "do_incheck E st = Some (Inr st') \<Longrightarrow> \<exists>fname dname. requests st' = requests st @ [H_incheck fname dname]"
  "do_outcheck E st = Some (Inr st') \<Longrightarrow> \<exists>fname dname. requests st' = requests st @ [H_outcheck fname dname]"
  by (auto simp: do_incheck_def do_outcheck_def bindo_Inr ask_warn_def ask_def warns_def returno_def Let_def just_reads_def
      split: if_splits dest!: two_args_read)

subsection \<open>Tokens in text that is processed\<close>

text \<open>
  C9: a quoted string behind blanks is returned as a file name, with its escaped quotes, whatever characters are in
  it; in text that is skipped the next token is looked for behind it.
\<close>

theorem gettok_quoted:
  assumes "cx_strs (run_cx st) ss" "unread (run_cx st) ss = replicate n 32 @ delim # quote delim t @ delim # p" "delim \<in> {34, 39}"
    "list_all plain_char t" "0 \<notin> set (map word_of_int t :: byte list)" "int (length t) < maxch" "maxch < int sz" "cond_state st = Inr c"
  shows "\<exists>cx ss'. cx_strs cx ss' \<and> unread cx ss' = p
    \<and> gettok E sz maxch st = (if c = STOP then gettok E sz maxch (set_cx cx st) else Some (Inr (Got TOK_FNAME (map word_of_int t) (set_cx cx st))))"
proof -
  let ?M = "run_env E st" and ?j = "te_junk E"
  have nb: "delim \<notin> {9, 32, 36}" using assms(3) by auto
  obtain cx1 ss1 where 1: "skip_blanks ?M ?j (run_cx st) = Some (Inr (delim, cx1))" "cx_strs cx1 ss1"
    "unread cx1 ss1 = quote delim t @ delim # p" using skip_blanks_fresh [OF assms(1,2) nb] by blast
  have pl: "plain_char delim" using assms(3) by (auto simp: plain_char_def)
  obtain cx ss' where 2: "getstr_loop ?M ?j sz delim (nat maxch) [] cx1 = Some (Inr (map word_of_int t, cx))" "cx_strs cx ss'" "unread cx ss' = p"
    using getstr_loop_quote [OF 1(2,3) assms(4) pl, of "nat maxch" "[]" sz ?M ?j] assms(6,7) by (auto simp: zless_nat_eq_int_zless)
  have "getstr ?M ?j sz maxch delim cx1 = Some (Inr (map word_of_int t, cx))"
    unfolding getstr_def 2(1) using assms(6,7) by simp
  moreover have "gettok_turn E sz maxch st = file_token E sz maxch delim cx1 st"
    unfolding gettok_turn_def 1(1) using assms(3) by auto
  moreover have "cond_state (set_cx cx st) = Inr c" using assms(8) cond_state_read [OF just_reads_cx] by simp
  ultimately have "gettok_turn E sz maxch st
    = Some (Inr (if c = STOP then Inr (set_cx cx st) else Inl (Got TOK_FNAME (map word_of_int t) (set_cx cx st))))"
    using assms(5) by (simp add: file_token_def give_def returno_def cstr_nz)
  then have "gettok E sz maxch st = (if c = STOP then gettok E sz maxch (set_cx cx st)
    else Some (Inr (Got TOK_FNAME (map word_of_int t) (set_cx cx st))))"
    unfolding gettok_def by (subst mk_loop.simps) simp
  with 2(2,3) show ?thesis by blast
qed

subsection \<open>Definitions of symbols\<close>

lemma skip_blanks_dollar:
  assumes "cx_strs cx ss" "unread cx ss = replicate n 32 @ 36 # c # p" "c \<notin> {0, 36, 40}"
  shows "\<exists>cx' ss'. skip_blanks M junk cx = Some (Inr (36, cx')) \<and> cx_strs cx' ss' \<and> unread cx' ss' = c # p"
  using assms(1,2)
proof (induction n arbitrary: cx ss)
  case 0
  have "unread cx ss = 36 # c # p" using 0 by simp
  then obtain cx' ss' where g: "m_getc M junk cx = Some (Inr (36, cx'))" "cx_strs cx' ss'" "unread cx' ss' = c # p"
    using m_getc_dollar [OF 0(1) _ assms(3)] by metis
  then have "skip_blanks M junk cx = Some (Inr (36, cx'))"
    unfolding skip_blanks_def by (subst mk_loop.simps) simp
  with g(2,3) show ?case by blast
next
  case (Suc n)
  have u: "unread cx ss = 32 # replicate n 32 @ 36 # c # p" using Suc.prems(2) by simp
  obtain cx' ss' where g: "m_getc M junk cx = Some (Inr (32, cx'))" "cx_strs cx' ss'" "unread cx' ss' = replicate n 32 @ 36 # c # p"
    by (rule m_getc_char [OF Suc.prems(1) u, of M junk]) simp
  have "skip_blanks M junk cx = skip_blanks M junk cx'"
    unfolding skip_blanks_def by (subst mk_loop.simps) (simp add: g(1))
  with Suc.IH [OF g(2,3)] show ?case by simp
qed

text \<open>The name of a directive, up to a character that is no letter, which is pushed back.\<close>

lemma dir_loop_name:
  assumes "cx_strs cx ss" "unread cx ss = map uint w @ e # p" "\<forall>c \<in> set w. islower (uint c) \<and> uint c \<notin> {9, 36} \<and> uint c \<noteq> EOF"
    "\<not> islower e" "\<not> isupper e" "e \<notin> {0, 9, 36, EOF}" "length out + length w \<le> SZ_COMMAND + 1"
  shows "\<exists>cx' ss'. mk_loop (dir_turn M junk) (out, cx) = Some (Inr (out @ w, cx')) \<and> cx_strs cx' ss' \<and> unread cx' ss' = e # p"
  using assms
proof (induction w arbitrary: cx ss out)
  case Nil
  have "unread cx ss = e # p" "e \<notin> {9, 36}" using Nil.prems(2,6) by auto
  then obtain cx1 ss1 where g: "m_getc M junk cx = Some (Inr (e, cx1))" "cx_strs cx1 ss1" "unread cx1 ss1 = p" "pbchar cx1 = 0"
    using m_getc_fresh [OF Nil.prems(1)] by metis
  obtain cx2 where "m_ungetc junk e cx1 = Inr cx2" "cx_strs cx2 ss1" "unread cx2 ss1 = e # p"
    using m_ungetc_fresh [OF g(2,4), of e junk] g(3) Nil.prems(6) by auto
  then show ?case using g(1) Nil.prems(4-6) by (subst mk_loop.simps) (auto simp: dir_turn_def returno_def)
next
  case (Cons c w)
  have u: "unread cx ss = uint c # map uint w @ e # p" and c: "islower (uint c)" "uint c \<notin> {9, 36}" "uint c \<noteq> EOF"
    using Cons.prems(2,3) by simp_all
  obtain cx1 ss1 where g: "m_getc M junk cx = Some (Inr (uint c, cx1))" "cx_strs cx1 ss1" "unread cx1 ss1 = map uint w @ e # p"
    by (rule m_getc_char [OF Cons.prems(1) u c(2)])
  have "dir_turn M junk (out, cx) = Some (Inr (Inr (out @ [c], cx1)))"
    using g(1) c Cons.prems(7) by (simp add: dir_turn_def put_out_def returno_def)
  then have "mk_loop (dir_turn M junk) (out, cx) = mk_loop (dir_turn M junk) (out @ [c], cx1)" by (subst mk_loop.simps) simp
  then show ?case using Cons.IH [OF g(2,3), of "out @ [c]"] Cons.prems by simp
qed

lemma do_ppdir_set:
  "do_ppdir E (bytes_of ''$set'') st = did (on_tok (do_set (te_sys E) (te_env E) (te_junk E) (te_args E)) st)"
  by (simp add: do_ppdir_def begins_def bytes_of_def)

text \<open>
  C14: a line with a \<open>$set\<close> of a name to a string in quotes, as \<open>gettok\<close> meets it in the file: blanks in front of the
  directive, at least one behind it, the name, which may be followed by blanks, the \<open>=\<close>, blanks, the string.  Where
  text is processed, the name stands for the string afterwards, in upper and lower case, and all other symbols keep
  their values; where text is skipped, nothing is defined.  The input is left behind the closing quote, nothing is
  asked of the host and no warning is printed.
\<close>

theorem set_directive_correct:
  assumes "cx_strs (run_cx st) ss"
    "unread (run_cx st) ss = replicate m 32 @ map uint (bytes_of ''$set'') @ replicate (Suc n) 32 @ map uint (c # s) @ 61 #
       replicate k 32 @ delim # quote delim (map uint v) @ delim # p"
    "delim = 34 \<or> delim = 39" "isalpha (uint c)" "list_all plain_char (map uint (c # s))" "61 \<notin> set s"
    "name = c # filter (\<lambda>x. x \<noteq> 32) s" "length name \<le> SZ_FNAME"
    "list_all plain_char (map uint v)" "length v < SZ_COMMAND" "length v < length (te_args E)" "0 \<notin> set (c # s @ v)"
    "syms_rep (tk_syms (run_tok st)) l" "length (symtab (tk_syms (run_tok st))) < MAX_SYMBOLS - 1"
    "cp (tk_syms (run_tok st)) + length (mklower name) + length v + 1 < SZ_SBUF" "cond_state st = Inr state"
  shows "\<exists>st' ss'. gettok_turn E sz maxch st = Some (Inr (Inr st')) \<and> cx_strs (run_cx st') ss' \<and> unread (run_cx st') ss' = p
    \<and> requests st' = requests st \<and> warnings st' = warnings st
    \<and> (\<forall>q. symbol_value (tk_syms (run_tok st')) q =
          (if state \<noteq> STOP \<and> mklower q = mklower name then Some v else symbol_value (tk_syms (run_tok st)) q))"
proof -
  let ?M = "run_env E st" and ?j = "te_junk E"
  let ?def = "map uint (c # s) @ 61 # replicate k 32 @ delim # quote delim (map uint v) @ delim # p"
  let ?w = "[115, 101, 116] :: byte list"
  have set_bytes: "bytes_of ''$set'' = 36 # ?w" by (simp add: bytes_of_def)
  have "replicate m 32 @ 36 # map uint ?w @ 32 # replicate n 32 @ ?def = unread (run_cx st) ss"
    using assms(2) by (simp add: set_bytes)
  then obtain cx1 ss1 where 1: "skip_blanks ?M ?j (run_cx st) = Some (Inr (36, cx1))" "cx_strs cx1 ss1"
    "unread cx1 ss1 = map uint ?w @ 32 # replicate n 32 @ ?def"
    using skip_blanks_dollar [OF assms(1), of m 115 "map uint (tl ?w) @ 32 # replicate n 32 @ ?def" ?M ?j] by auto
  have "\<forall>c \<in> set ?w. islower (uint c) \<and> uint c \<notin> {9, 36} \<and> uint c \<noteq> EOF" "\<not> islower 32" "\<not> isupper 32" by code_simp+
  from dir_loop_name [OF 1(2,3) this, of "[36]" ?M ?j] obtain cx2 ss2 where
    2: "mk_loop (dir_turn ?M ?j) ([36], cx1) = Some (Inr (bytes_of ''$set'', cx2))" "cx_strs cx2 ss2"
      "unread cx2 ss2 = 32 # replicate n 32 @ ?def" by (auto simp: set_bytes)
  let ?st = "run_tok (set_cx cx2 st)"
  have t: "cx_strs (in_cx ?st) ss2" "unread (in_cx ?st) ss2 = replicate (Suc n) 32 @ ?def" "tk_syms ?st = tk_syms (run_tok st)"
    using 2(2,3) by (simp_all add: set_cx_def)
  have state: "if_get (iflev ?st) ?st = Inr state"
    using assms(16) cond_state_read [OF just_reads_cx [of st cx2]] by (simp add: cond_state_def)
  obtain t' ss' where d: "do_set (te_sys E) (te_env E) ?j (te_args E) ?st = Some (Inr t')" "cx_strs (in_cx t') ss'" "unread (in_cx t') ss' = p"
    "\<forall>q. symbol_value (tk_syms t') q = (if state \<noteq> STOP \<and> mklower q = mklower name then Some v else symbol_value (tk_syms (run_tok st)) q)"
    using do_set_quoted [OF t(1,2) assms(3-12), unfolded t(3), OF assms(13-15) state, of "te_sys E" "te_env E" ?j] by auto
  have "\<not> begins (bytes_of ''$set'') ''$exit''" "length (bytes_of ''$set'') < SZ_COMMAND + 1" by code_simp+
  then have "gettok_turn E sz maxch st = Some (Inr (Inr ((set_cx cx2 st)\<lparr>run_tok := t'\<rparr>)))"
    unfolding gettok_turn_def 1(1) bindo_simps prod.case 2(1) do_ppdir_set by (simp add: on_tok_def did_def d(1))
  with d show ?thesis
    by (intro exI [of _ "(set_cx cx2 st)\<lparr>run_tok := t'\<rparr>"] exI [of _ ss']) (simp add: run_cx_def set_cx_def)
qed

subsection \<open>Examples\<close>

definition demo_tokenv :: tokenv where
  "demo_tokenv = \<lparr>te_sys = demo_sys, te_env = demo_env, te_junk = demo_junk, te_fdate = (\<lambda>_. 0), te_run = (\<lambda>_ _. 0), te_execute = True,
     te_dbgout = False, te_irafdir = [], te_args = replicate (SZ_PBBUF + 1) 0, te_pbuf = replicate SZ_PREDBUF 0,
     te_cmd = replicate (SZ_CMD + 1) 0, te_outstr = replicate 99 0\<rparr>"

definition demo_run :: "byte list \<Rightarrow> int \<Rightarrow> mkrun" where
  "demo_run f c = \<lparr>run_tok = demo_tok\<lparr>in_cx := demo_cx\<lparr>cx_file := f\<rparr>, ifstate := replicate SZ_IFSTACK c\<rparr>, requests = [], warnings = [], debug = 0, verbose = 0\<rparr>"

lemma demo_run: "run_cx (demo_run f c) = demo_cx\<lparr>cx_file := f\<rparr>" "cond_state (demo_run f c) = Inr c"
  by (simp_all add: demo_run_def run_cx_def cond_state_def if_get_def demo_tok_def)

theorem gettok_quoted_witness:
  "\<exists>st. gettok demo_tokenv 99 98 (demo_run [32, 34, 97, 92, 34, 34] PASS) = Some (Inr (Got TOK_FNAME [97, 34] st))"
  using gettok_quoted [of "demo_run [32, 34, 97, 92, 34, 34] PASS" "[]" 1 34 "[97, 34]" "[]" 98 99 PASS demo_tokenv] demo_cx_ok(1)
  by (auto simp: demo_run demo_cx_file unread_demo quote_def plain_char_def)

theorem set_directive_correct_witness:
  "\<exists>st. gettok_turn demo_tokenv 99 98 (demo_run (map of_char '' $set x = \"-O\"'') PASS) = Some (Inr (Inr st))
    \<and> symbol_value (tk_syms (run_tok st)) [88] = Some [45, 79]"
proof -
  let ?f = "map of_char '' $set x = \"-O\"'' :: byte list"
  let ?st = "demo_run ?f PASS"
  have "map uint ?f = replicate 1 32 @ map uint (bytes_of ''$set'') @ replicate (Suc 0) 32 @ map uint (120 # [32 :: byte]) @ 61 #
      replicate 1 32 @ 34 # quote 34 (map uint [45 :: byte, 79]) @ 34 # []"
    by (simp add: bytes_of_def quote_def)
  then have u: "unread (run_cx ?st) [] = replicate 1 32 @ map uint (bytes_of ''$set'') @ replicate (Suc 0) 32 @ map uint (120 # [32 :: byte]) @ 61 #
      replicate 1 32 @ 34 # quote 34 (map uint [45 :: byte, 79]) @ 34 # []"
    by (simp add: demo_run unread_demo)
  have c: "cx_strs (run_cx ?st) []" using demo_cx_ok(1) by (simp add: demo_run)
  have "mklower [88] = [120]" "mklower [120] = [120]" "isalpha (uint (120 :: byte))" by code_simp+
  moreover have "syms_rep (tk_syms (run_tok ?st)) []" using demo_syms_rep by (simp add: demo_run_def demo_tok_def)
  ultimately show ?thesis
    using set_directive_correct [OF c u, of "[120]" demo_tokenv "[]" PASS 99 98] demo_run(2) [of ?f PASS]
    by (fastforce simp: plain_char_def demo_tokenv_def demo_run_def demo_tok_def demo_syms_def)
qed


end
