(* ===== verification/Mk_Special.thy ===== *)
theory Mk_Special
  imports Mk_Gettok
begin

text \<open>
  The list of special files of \<open>mkpkg\<close>, from \<open>unix/boot/mkpkg/sflist.c\<close>, and \<open>h_direq\<close> of \<open>host.c\<close>.  A descriptor is
  an index into \<open>sf_files\<close>, a string an index into the string buffer that the symbols use too.  The tokens are a list:
  those that \<open>gettok\<close> returns, and \<open>TOK_END\<close> for ever behind them.
\<close>

abbreviation MAX_SFDIRS :: nat where "MAX_SFDIRS \<equiv> 128"
abbreviation MAX_SFFILES :: nat where "MAX_SFFILES \<equiv> 1024"

text \<open>\<open>nullstr\<close> is \<open>None\<close>, as is a null pointer.\<close>

record sfile =
  sf_stname :: nat
  sf_sfname :: nat
  sf_mkobj :: "nat option"
  sf_next :: "nat option"

record sfdb =
  sf_ndirs :: nat
  sf_nfiles :: nat
  sf_dirs :: "nat list"
  sf_flist :: "nat option list"
  sf_files :: "sfile list"
  sf_strs :: mksyms

subsection \<open>Directories\<close>

text \<open>The part of a path behind the last directory whose name begins with \<open>iraf\<close>.\<close>

function iraf_tail :: "byte list \<Rightarrow> byte list \<Rightarrow> byte list" where
  "iraf_tail dir [] = dir"
| "iraf_tail dir (c # ip) =
     (if c = 47 \<and> take 4 ip = bytes_of ''iraf''
      then (let ip = dropWhile (\<lambda>c. c \<noteq> 47) ip in iraf_tail (if ip = [] then dir else tl ip) ip)
      else iraf_tail dir ip)"
  by pat_completeness auto
termination
  by (relation "measure (\<lambda>(dir, ip). length ip)") (auto simp: le_imp_less_Suc length_dropWhile_le)

definition h_direq :: "byte list \<Rightarrow> byte list \<Rightarrow> bool" where
  "h_direq dir1 dir2 \<longleftrightarrow> iraf_tail dir1 dir1 = iraf_tail dir2 dir2"

text \<open>The loop over the directories; the result is a pointer to the first file.\<close>

fun dir_loop :: "mem \<Rightarrow> byte list \<Rightarrow> (nat \<times> nat option) list \<Rightarrow> nat option mk" where
  "dir_loop buf dirname [] = Inr None"
| "dir_loop buf dirname ((d, f) # ds) =
     (case str_at buf d of None \<Rightarrow> Inl Fault | Some s \<Rightarrow> if h_direq s dirname then Inr f else dir_loop buf dirname ds)"

definition sf_dirsearch :: "byte list \<Rightarrow> sfdb \<Rightarrow> nat option mk" where
  "sf_dirsearch dirname db = dir_loop (sbuf (sf_strs db)) dirname (take (sf_ndirs db) (zip (sf_dirs db) (sf_flist db)))"

subsection \<open>Files\<close>

fun sf_match :: "byte list \<Rightarrow> byte list \<Rightarrow> bool" where
  "sf_match [] q = (q = [])"
| "sf_match (c # p) q = (case q of [] \<Rightarrow> c = 42 | d # q \<Rightarrow> if c = d then sf_match p q else c = 42)"

definition search_turn :: "sfdb \<Rightarrow> byte list \<Rightarrow> nat option \<Rightarrow> (nat option + nat option) mk option" where
  "search_turn db stname sfp =
     (case sfp of
        None \<Rightarrow> Some (Inr (Inl None))
      | Some i \<Rightarrow>
          if length (sf_files db) \<le> i then Some (Inl Fault)
          else
            (case str_at (sbuf (sf_strs db)) (sf_stname (sf_files db ! i)) of
               None \<Rightarrow> Some (Inl Fault)
             | Some p \<Rightarrow> Some (Inr (if sf_match p stname then Inl (Some i) else Inr (sf_next (sf_files db ! i))))))"

definition sf_filesearch :: "sfdb \<Rightarrow> nat option \<Rightarrow> byte list \<Rightarrow> nat option mk option" where
  "sf_filesearch db sflist stname = mk_loop (search_turn db stname) sflist"

text \<open>The end of a list, \<open>None\<close> if it is empty.\<close>

definition tail_turn :: "sfdb \<Rightarrow> nat option \<times> nat option \<Rightarrow> (nat option + nat option \<times> nat option) mk option" where
  "tail_turn db = (\<lambda>(tail, sfp).
     case sfp of
       None \<Rightarrow> Some (Inr (Inl tail))
     | Some i \<Rightarrow> if length (sf_files db) \<le> i then Some (Inl Fault) else Some (Inr (Inr (sfp, sf_next (sf_files db ! i)))))"

definition sf_tail :: "sfdb \<Rightarrow> nat option \<Rightarrow> nat option mk option" where
  "sf_tail db head = mk_loop (tail_turn db) (head, head)"

subsection \<open>Pruning\<close>

text \<open>The index of the first element of a list with a property, or the length of the list.\<close>

fun first_dir :: "sfdb \<Rightarrow> nat \<Rightarrow> (nat \<times> nat option) list \<Rightarrow> nat mk" where
  "first_dir db lim [] = Inr 0"
| "first_dir db lim ((d, f) # ds) =
     (if lim \<le> d then Inr 0
      else
        (case f of None \<Rightarrow> Inl Fault
         | Some i \<Rightarrow>
             if length (sf_files db) \<le> i then Inl Fault
             else if lim \<le> sf_stname (sf_files db ! i) then Inr 0
             else bindm (first_dir db lim ds) (\<lambda>n. Inr (n + 1))))"

fun first_file :: "nat \<Rightarrow> sfile list \<Rightarrow> nat" where
  "first_file lim [] = 0"
| "first_file lim (f # fs) = (if lim \<le> sf_stname f then 0 else first_file lim fs + 1)"

definition sf_prune :: "nat \<Rightarrow> sfdb \<Rightarrow> sfdb mk" where
  "sf_prune lim db =
     bindm (first_dir db lim (take (sf_ndirs db) (zip (sf_dirs db) (sf_flist db)))) (\<lambda>nd.
     let nf = first_file lim (take (sf_nfiles db) (sf_files db));
         unlink = (\<lambda>f. case sf_next f of Some i \<Rightarrow> if nf \<le> i then f\<lparr>sf_next := None\<rparr> else f | None \<Rightarrow> f)
     in Inr (db\<lparr>sf_ndirs := nd, sf_nfiles := nf, sf_files := map unlink (take nf (sf_files db)) @ drop nf (sf_files db)\<rparr>))"

text \<open>\<open>sf_prune (cp = old_cp)\<close>\<close>

definition prune_to :: "nat \<Rightarrow> sfdb \<Rightarrow> sfdb mk" where
  "prune_to old_cp db = sf_prune old_cp (db\<lparr>sf_strs := (sf_strs db)\<lparr>cp := old_cp\<rparr>\<rparr>)"

subsection \<open>Scanning a list\<close>

type_synonym tokens = "(tok \<times> byte list) list"

definition next_tok :: "tokens \<Rightarrow> (tok \<times> byte list) \<times> tokens" where
  "next_tok ts = (case ts of [] \<Rightarrow> ((TOK_END, []), []) | t # ts \<Rightarrow> (t, ts))"

text \<open>The loops that discard tokens; \<open>to_begin\<close> tells whether it found \<open>TOK_BEGIN\<close>.\<close>

fun to_begin :: "tokens \<Rightarrow> bool \<times> tokens" where
  "to_begin [] = (False, [])"
| "to_begin ((t, s) # ts) = (if t = TOK_BEGIN then (True, ts) else if t = TOK_END then (False, ts) else to_begin ts)"

fun to_end :: "tokens \<Rightarrow> tokens" where
  "to_end [] = []"
| "to_end ((t, s) # ts) = (if t = TOK_END then ts else to_end ts)"

fun to_newline :: "tokens \<Rightarrow> tokens" where
  "to_newline [] = []"
| "to_newline ((t, s) # ts) = (if t = TOK_NEWLINE \<or> t = TOK_END then ts else to_newline ts)"

text \<open>The command with the standard name for every ampersand in it.\<close>

definition amp_expand :: "byte list \<Rightarrow> byte list \<Rightarrow> byte list" where
  "amp_expand stname s = concat (map (\<lambda>c. if c = 38 then stname else [c]) s)"

definition bad_line :: "bool \<Rightarrow> tokens \<Rightarrow> ('a option \<times> bool \<times> tokens) mk" where
  "bad_line eol ts = Inr (None, eol, if eol then ts else to_newline ts)"

text \<open>What follows the standard name: the entry, or \<open>None\<close> if the line is bad, and whether the list is at its end.\<close>

definition sf_line :: "byte list \<Rightarrow> tokens \<Rightarrow> ((byte list \<times> byte list \<times> byte list) option \<times> bool \<times> tokens) mk" where
  "sf_line token ts =
     (if SZ_PATHNAME + 1 \<le> length token then Inl Fault
      else
        let stname = token; ((t, sfname), ts) = next_tok ts; eol = (t = TOK_END) in
        if t \<noteq> TOK_FNAME then bad_line eol ts
        else
          let ((t, token), ts) = next_tok ts in
          if t = TOK_NEWLINE then Inr (Some (stname, sfname, []), eol, ts)
          else if t = TOK_END then Inr (Some (stname, sfname, []), True, ts)
          else if t \<noteq> TOK_FNAME then bad_line eol ts
          else if SZ_CMD + SZ_PATHNAME + 1 \<le> length (amp_expand stname token) then Inl Fault
          else Inr (Some (stname, sfname, amp_expand stname token), eol, ts))"

text \<open>A file is added at the tail of the list, or begins the list of the last directory.\<close>

definition sf_put :: "byte list \<Rightarrow> sfdb \<Rightarrow> (nat \<times> sfdb) mk" where
  "sf_put s db = bindm (putstr s (sf_strs db)) (\<lambda>(p, strs). Inr (p, db\<lparr>sf_strs := strs\<rparr>))"

definition sf_addfile :: "byte list \<times> byte list \<times> byte list \<Rightarrow> nat option \<Rightarrow> sfdb \<Rightarrow> (nat \<times> sfdb) mk" where
  "sf_addfile = (\<lambda>(stname, sfname, mkobj) tail db.
     let i = sf_nfiles db; db = db\<lparr>sf_nfiles := i + 1\<rparr> in
     if MAX_SFFILES \<le> sf_nfiles db then Inl Fatal
     else
       bindm (sf_put stname db) (\<lambda>(p, db).
       bindm (if first_char sfname = 38 then Inr (p, db) else sf_put sfname db) (\<lambda>(q, db).
       bindm (if mkobj = [] then Inr (None, db) else bindm (sf_put mkobj db) (\<lambda>(r, db). Inr (Some r, db))) (\<lambda>(r, db).
       let db = db\<lparr>sf_files := (sf_files db)[i := \<lparr>sf_stname = p, sf_sfname = q, sf_mkobj = r, sf_next = None\<rparr>]\<rparr> in
       case tail of
         Some t \<Rightarrow>
           if length (sf_files db) \<le> t then Inl Fault
           else Inr (i, db\<lparr>sf_files := (sf_files db)[t := (sf_files db ! t)\<lparr>sf_next := Some i\<rparr>]\<rparr>)
       | None \<Rightarrow>
           if sf_ndirs db = 0 then Inl Fault
           else Inr (i, db\<lparr>sf_flist := (sf_flist db)[sf_ndirs db - 1 := Some i]\<rparr>)))))"

lemma length_to_newline: "length (to_newline ts) \<le> length ts"
  by (induction ts rule: to_newline.induct) auto

lemma length_next_tok: "length (snd (next_tok ts)) \<le> length ts"
  by (cases ts) (auto simp: next_tok_def)

lemma length_sf_line: "sf_line token ts = Inr (e, eol, ts') \<Longrightarrow> length ts' \<le> length ts"
  using length_next_tok [of ts] length_next_tok [of "snd (next_tok ts)"] length_to_newline le_trans
  by (auto simp: sf_line_def bad_line_def Let_def split: prod.splits if_splits) (metis le_trans)+

function sf_entries :: "nat option \<Rightarrow> nat \<Rightarrow> tokens \<Rightarrow> sfdb \<Rightarrow> (nat \<times> tokens \<times> sfdb) mk" where
  "sf_entries tail nfiles [] db = Inr (nfiles, [], db)"
| "sf_entries tail nfiles ((t, token) # ts) db =
     (if t = TOK_END then Inr (nfiles, ts, db)
      else if t = TOK_NEWLINE then sf_entries tail nfiles ts db
      else if t \<noteq> TOK_FNAME then sf_entries tail nfiles (to_newline ts) db
      else
        (case sf_line token ts of
           Inl e \<Rightarrow> Inl e
         | Inr (None, eol, ts) \<Rightarrow> if eol then Inr (nfiles, ts, db) else sf_entries tail nfiles ts db
         | Inr (Some f, eol, ts) \<Rightarrow>
             (case sf_addfile f tail db of
                Inl e \<Rightarrow> Inl e
              | Inr (i, db) \<Rightarrow> if eol then Inr (nfiles + 1, ts, db) else sf_entries (Some i) (nfiles + 1) ts db)))"
  by pat_completeness auto
termination
  by (relation "measure (\<lambda>(tail, nfiles, ts, db). length ts)")
     (auto simp: le_imp_less_Suc length_to_newline dest!: length_sf_line)

text \<open>The discarding of the rest, and the pruning, after an error.\<close>

definition sf_err :: "nat \<Rightarrow> tokens \<Rightarrow> sfdb \<Rightarrow> (bool \<times> tokens \<times> sfdb) mk" where
  "sf_err old_cp ts db = bindm (prune_to old_cp db) (\<lambda>db. Inr (False, to_end ts, db))"

definition sf_opendir :: "byte list \<Rightarrow> sfdb \<Rightarrow> (nat option \<times> sfdb) mk option" where
  "sf_opendir dirname db =
     bindo (returno (sf_dirsearch dirname db)) (\<lambda>head.
     case head of
       None \<Rightarrow>
         if length (sf_dirs db) \<le> sf_ndirs db then Some (Inl Fault)
         else
           returno (bindm (sf_put dirname db) (\<lambda>(p, db).
             let n = sf_ndirs db; db = db\<lparr>sf_ndirs := n + 1, sf_dirs := (sf_dirs db)[n := p]\<rparr> in
             if MAX_SFDIRS \<le> sf_ndirs db then Inl Fatal else Inr (None, db)))
     | Some _ \<Rightarrow> bindo (sf_tail db head) (\<lambda>tail. Some (Inr (tail, db))))"

text \<open>\<open>sf_scanlist\<close>: the truth value is \<open>OK\<close>.\<close>

definition sf_scanlist :: "(byte list \<Rightarrow> byte list) \<Rightarrow> tokens \<Rightarrow> sfdb \<Rightarrow> (bool \<times> tokens \<times> sfdb) mk option" where
  "sf_scanlist os_fpathname ts db =
     (let old_cp = cp (sf_strs db); ((t, token), ts) = next_tok ts in
      if t \<noteq> TOK_FNAME then returno (sf_err old_cp ts db)
      else
        let dirname = os_fpathname token; (found, ts) = to_begin ts in
        if \<not> found then returno (sf_err old_cp ts db)
        else
          bindo (sf_opendir dirname db) (\<lambda>(tail, db).
          bindo (returno (sf_entries tail 0 ts db)) (\<lambda>(nfiles, ts, db).
          if nfiles = 0 then returno (bindm (prune_to old_cp db) (\<lambda>db. Inr (False, ts, db)))
          else Some (Inr (True, ts, db)))))"

end
