(* ===== verification/Mk_Sflist.thy ===== *)
theory Mk_Sflist
  imports Mk_Special
begin

text \<open>
  The list of special files as a list of directories with their entries: \<open>sf_scanlist\<close> adds to it, the two searches
  look in it, and \<open>sf_prune\<close> takes away what was added since the string buffer had a given length.
\<close>

type_synonym entry = "byte list \<times> byte list \<times> byte list"

subsection \<open>Representation\<close>

definition file_ok :: "mem \<Rightarrow> nat \<Rightarrow> sfile \<Rightarrow> entry \<Rightarrow> bool" where
  "file_ok buf hi f = (\<lambda>(st, sf, mk). sym_at buf hi (sf_stname f) st \<and> sym_at buf hi (sf_sfname f) sf
     \<and> (case sf_mkobj f of None \<Rightarrow> mk = [] | Some r \<Rightarrow> sym_at buf hi r mk))"

text \<open>The links of a list, with the indices of its files.\<close>

fun chain :: "sfile list \<Rightarrow> nat option \<Rightarrow> nat list \<Rightarrow> bool" where
  "chain fs p [] = (p = None)"
| "chain fs p (i # is) = (p = Some i \<and> chain fs (sf_next (fs ! i)) is)"

definition dir_ok :: "sfdb \<Rightarrow> nat \<Rightarrow> nat list \<Rightarrow> byte list \<times> entry list \<Rightarrow> bool" where
  "dir_ok db d is = (\<lambda>(name, es). sym_at (sbuf (sf_strs db)) (cp (sf_strs db)) (sf_dirs db ! d) name
     \<and> (is \<noteq> [] \<longrightarrow> chain (sf_files db) (sf_flist db ! d) is)
     \<and> list_all2 (\<lambda>i. file_ok (sbuf (sf_strs db)) (cp (sf_strs db)) (sf_files db ! i)) is es)"

definition sf_sizes :: "sfdb \<Rightarrow> bool" where
  "sf_sizes db \<longleftrightarrow> length (sf_dirs db) = MAX_SFDIRS \<and> length (sf_flist db) = MAX_SFDIRS \<and> length (sf_files db) = MAX_SFFILES
     \<and> sf_ndirs db < MAX_SFDIRS \<and> sf_nfiles db < MAX_SFFILES
     \<and> length (sbuf (sf_strs db)) = SZ_SBUF \<and> cp (sf_strs db) \<le> SZ_SBUF
     \<and> (\<forall>i < sf_nfiles db. sf_stname (sf_files db ! i) < cp (sf_strs db))"

definition sf_inv :: "sfdb \<Rightarrow> nat list list \<Rightarrow> (byte list \<times> entry list) list \<Rightarrow> bool" where
  "sf_inv db iss A \<longleftrightarrow> sf_sizes db \<and> length A = sf_ndirs db \<and> length iss = sf_ndirs db
     \<and> distinct (concat iss) \<and> set (concat iss) \<subseteq> {..<sf_nfiles db}
     \<and> (\<forall>d < sf_ndirs db. dir_ok db d (iss ! d) (A ! d))"

text \<open>A directory is in the list only with at least one file.\<close>

definition sf_rep :: "sfdb \<Rightarrow> (byte list \<times> entry list) list \<Rightarrow> bool" where
  "sf_rep db A \<longleftrightarrow> (\<exists>iss. sf_inv db iss A) \<and> (\<forall>a \<in> set A. snd a \<noteq> [])"

subsection \<open>The string buffer\<close>

lemma putstr_copy_inv:
  assumes "putstr_copy (s @ [0]) op buf = Inr (op', buf')" "length buf = SZ_SBUF" "0 \<notin> set s"
  shows "op + length s < SZ_SBUF"
  using assms
proof (induction s arbitrary: op buf)
  case (Cons c s)
  then have "op + 1 + length s < SZ_SBUF" using Cons.IH [of "op + 1" "buf[op := c]"] by (auto split: if_splits simp: Let_def)
  then show ?case by simp
qed (auto split: if_splits)

text \<open>What the strings of one state are in a later one.\<close>

definition strs_ext :: "mksyms \<Rightarrow> mksyms \<Rightarrow> bool" where
  "strs_ext s s' \<longleftrightarrow> cp s \<le> cp s' \<and> take (cp s) (sbuf s') = take (cp s) (sbuf s) \<and> length (sbuf s') = length (sbuf s) \<and> cp s' \<le> SZ_SBUF"

lemma strs_ext_trans: "strs_ext a b \<Longrightarrow> strs_ext b c \<Longrightarrow> strs_ext a c"
  unfolding strs_ext_def by (auto dest: arg_cong [of _ _ "take (cp a)"] simp: min_absorb1)

lemma strs_ext_refl: "cp s \<le> SZ_SBUF \<Longrightarrow> strs_ext s s"
  by (simp add: strs_ext_def)

lemma sym_at_ext: "sym_at (sbuf s) (cp s) p x \<Longrightarrow> strs_ext s s' \<Longrightarrow> sym_at (sbuf s') (cp s') p x"
  using sym_at_take [of "sbuf s" "cp s" p x "sbuf s'"] by (auto simp: strs_ext_def sym_at_def)

lemma file_ok_ext: "file_ok (sbuf s) (cp s) f e \<Longrightarrow> strs_ext s s' \<Longrightarrow> file_ok (sbuf s') (cp s') f e"
  by (auto simp: file_ok_def sym_at_ext split: option.splits)

lemma putstr_ext:
  assumes "putstr s t = Inr (p, t')" "0 \<notin> set s" "length (sbuf t) = SZ_SBUF"
  shows "p = cp t" "strs_ext t t'" "sym_at (sbuf t') (cp t') p s" "p < cp t'" "length (sbuf t') = SZ_SBUF"
proof -
  obtain op buf where c: "putstr_copy (s @ [0]) (cp t) (sbuf t) = Inr (op, buf)"
    using assms(1) by (auto simp: putstr_def bindm_Inr)
  have lt: "cp t + length s < SZ_SBUF" by (rule putstr_copy_inv [OF c assms(3,2)])
  have t': "p = cp t \<and> t' = t\<lparr>cp := cp t + length s + 1, sbuf := blit (sbuf t) (cp t) (s @ [0])\<rparr>"
    using assms(1) by (auto simp: putstr_correct [OF assms(3) lt assms(2)])
  have len: "length (blit (sbuf t) (cp t) (s @ [0])) = SZ_SBUF" using assms(3) lt by (simp add: blit_simps)
  have "take (cp t) (blit (sbuf t) (cp t) (s @ [0])) = take (cp t) (sbuf t)" using assms(3) lt by (simp add: blit_def)
  then show "strs_ext t t'" using assms(3) lt t' len by (simp add: strs_ext_def)
  show "p = cp t" "p < cp t'" "length (sbuf t') = SZ_SBUF" using t' len by simp_all
  show "sym_at (sbuf t') (cp t') p s" using t' assms(2,3) lt by (simp add: sym_at_def kstr_at_put)
qed

subsection \<open>Adding a file\<close>

definition entry_of :: "entry \<Rightarrow> entry" where
  "entry_of = (\<lambda>(st, sf, mk). (st, if first_char sf = 38 then st else sf, mk))"

text \<open>The strings of an entry, and the links.\<close>

definition sf_store :: "entry \<Rightarrow> mksyms \<Rightarrow> (sfile \<times> mksyms) mk" where
  "sf_store = (\<lambda>(st, sf, mk) t.
     bindm (putstr st t) (\<lambda>(p, t).
     bindm (if first_char sf = 38 then Inr (p, t) else putstr sf t) (\<lambda>(q, t).
     bindm (if mk = [] then Inr (None, t) else bindm (putstr mk t) (\<lambda>(r, t). Inr (Some r, t))) (\<lambda>(r, t).
     Inr (\<lparr>sf_stname = p, sf_sfname = q, sf_mkobj = r, sf_next = None\<rparr>, t)))))"

definition sf_link :: "nat \<Rightarrow> nat option \<Rightarrow> sfdb \<Rightarrow> sfdb mk" where
  "sf_link i tail db =
     (case tail of
        Some t \<Rightarrow>
          if length (sf_files db) \<le> t then Inl Fault
          else Inr (db\<lparr>sf_files := (sf_files db)[t := (sf_files db ! t)\<lparr>sf_next := Some i\<rparr>]\<rparr>)
      | None \<Rightarrow> if sf_ndirs db = 0 then Inl Fault else Inr (db\<lparr>sf_flist := (sf_flist db)[sf_ndirs db - 1 := Some i]\<rparr>))"

lemma sf_addfile_alt:
  "sf_addfile e tail db =
     (if MAX_SFFILES \<le> sf_nfiles db + 1 then Inl Fatal
      else
        bindm (sf_store e (sf_strs db)) (\<lambda>(f, t).
        bindm (sf_link (sf_nfiles db) tail
                 (db\<lparr>sf_nfiles := sf_nfiles db + 1, sf_strs := t, sf_files := (sf_files db)[sf_nfiles db := f]\<rparr>)) (\<lambda>db'.
        Inr (sf_nfiles db, db'))))"
  by (cases e) (auto simp: sf_addfile_def sf_store_def sf_link_def sf_put_def Let_def bindm_def split: sum.splits option.splits)

lemma sf_store_ext:
  assumes "sf_store (st, sf, mk) t = Inr (f, t')" "0 \<notin> set st" "0 \<notin> set sf" "0 \<notin> set mk" "length (sbuf t) = SZ_SBUF" "cp t \<le> SZ_SBUF"
  shows "strs_ext t t'" "file_ok (sbuf t') (cp t') f (entry_of (st, sf, mk))" "sf_next f = None" "sf_stname f = cp t" "cp t < cp t'"
    "length (sbuf t') = SZ_SBUF"
proof -
  obtain p t1 where 1: "putstr st t = Inr (p, t1)" using assms(1) by (auto simp: sf_store_def bindm_Inr)
  note e1 = putstr_ext [OF 1 assms(2,5)]
  obtain q t2 where 2: "(if first_char sf = 38 then Inr (p, t1) else putstr sf t1) = Inr (q, t2)"
    using assms(1) 1 by (auto simp: sf_store_def bindm_Inr)
  have c1: "cp t1 \<le> SZ_SBUF" using e1(2) by (simp add: strs_ext_def)
  have e2: "strs_ext t1 t2 \<and> length (sbuf t2) = SZ_SBUF \<and> sym_at (sbuf t2) (cp t2) q (if first_char sf = 38 then st else sf)"
  proof (cases "first_char sf = 38")
    case True
    then show ?thesis using 2 e1 strs_ext_refl [OF c1] by auto
  next
    case False
    then show ?thesis using 2 putstr_ext [of sf t1 q t2] assms(3) e1(5) by auto
  qed
  obtain r where 3: "(if mk = [] then Inr (None, t2) else bindm (putstr mk t2) (\<lambda>(r, t). Inr (Some r, t))) = Inr (r, t')"
    "f = \<lparr>sf_stname = p, sf_sfname = q, sf_mkobj = r, sf_next = None\<rparr>"
    using assms(1) 1 2 by (auto simp: sf_store_def bindm_Inr split: if_splits)
  have c2: "cp t2 \<le> SZ_SBUF" using e2 by (simp add: strs_ext_def)
  have e3: "strs_ext t2 t' \<and> length (sbuf t') = SZ_SBUF \<and> (case r of None \<Rightarrow> mk = [] | Some r \<Rightarrow> sym_at (sbuf t') (cp t') r mk)"
  proof (cases "mk = []")
    case True
    then show ?thesis using 3(1) e2 strs_ext_refl [OF c2] by auto
  next
    case False
    then obtain r' where "putstr mk t2 = Inr (r', t')" "r = Some r'" using 3(1) by (auto simp: bindm_Inr)
    then show ?thesis using putstr_ext [of mk t2 r' t'] assms(4) e2 by auto
  qed
  have e12: "strs_ext t1 t'" using e2 e3 strs_ext_trans by blast
  show "strs_ext t t'" using e1(2) e12 strs_ext_trans by blast
  show "file_ok (sbuf t') (cp t') f (entry_of (st, sf, mk))"
    using sym_at_ext [OF e1(3) e12] sym_at_ext [of t2 q _ t'] e2 e3 by (simp add: file_ok_def entry_of_def 3(2))
  show "sf_next f = None" "sf_stname f = cp t" using e1(1) by (simp_all add: 3(2))
  show "cp t < cp t'" using e1(1,4) e12 by (simp add: strs_ext_def)
  show "length (sbuf t') = SZ_SBUF" using e3 by blast
qed

text \<open>What \<open>sf_addfile\<close> leaves: the new descriptor \<open>f\<close>, and the link to it.\<close>

definition added :: "sfile \<Rightarrow> nat option \<Rightarrow> sfdb \<Rightarrow> sfdb \<Rightarrow> bool" where
  "added f tail db db' \<longleftrightarrow> sf_nfiles db' = sf_nfiles db + 1 \<and> sf_nfiles db' < MAX_SFFILES \<and> sf_ndirs db' = sf_ndirs db \<and> sf_dirs db' = sf_dirs db
     \<and> length (sf_files db') = length (sf_files db) \<and> strs_ext (sf_strs db) (sf_strs db') \<and> length (sbuf (sf_strs db')) = SZ_SBUF
     \<and> sf_flist db' = (case tail of None \<Rightarrow> (sf_flist db)[sf_ndirs db - 1 := Some (sf_nfiles db)] | Some _ \<Rightarrow> sf_flist db)
     \<and> sf_files db' ! sf_nfiles db = f \<and> sf_next f = None \<and> sf_stname f = cp (sf_strs db) \<and> cp (sf_strs db) < cp (sf_strs db')
     \<and> (\<forall>j. j \<noteq> sf_nfiles db \<longrightarrow> sf_files db' ! j = (sf_files db ! j)\<lparr>sf_next := (if tail = Some j then Some (sf_nfiles db) else sf_next (sf_files db ! j))\<rparr>)"

lemma sf_addfile_added:
  assumes "sf_addfile (st, sf, mk) tail db = Inr (i, db')" "0 \<notin> set st" "0 \<notin> set sf" "0 \<notin> set mk" "sf_sizes db"
    "\<And>t. tail = Some t \<Longrightarrow> t < sf_nfiles db"
  shows "i = sf_nfiles db" "\<exists>f. added f tail db db' \<and> file_ok (sbuf (sf_strs db')) (cp (sf_strs db')) f (entry_of (st, sf, mk))"
proof -
  have m: "sf_nfiles db + 1 < MAX_SFFILES" using assms(1) by (simp add: sf_addfile_alt split: if_splits)
  obtain f t where st: "sf_store (st, sf, mk) (sf_strs db) = Inr (f, t)" and
    li: "sf_link (sf_nfiles db) tail (db\<lparr>sf_nfiles := sf_nfiles db + 1, sf_strs := t, sf_files := (sf_files db)[sf_nfiles db := f]\<rparr>) = Inr db'"
    using assms(1) m by (auto simp: sf_addfile_alt bindm_Inr)
  show "i = sf_nfiles db" using assms(1) m by (auto simp: sf_addfile_alt bindm_Inr)
  have len: "length (sbuf (sf_strs db)) = SZ_SBUF" "cp (sf_strs db) \<le> SZ_SBUF" "length (sf_files db) = MAX_SFFILES"
    using assms(5) by (simp_all add: sf_sizes_def)
  note e = sf_store_ext [OF st assms(2-4) len(1,2)]
  have "added f tail db db' \<and> sf_strs db' = t"
    using li e m len(3) assms(6) by (cases tail) (auto simp: added_def sf_link_def split: if_splits)
  with e(2) show "\<exists>f. added f tail db db' \<and> file_ok (sbuf (sf_strs db')) (cp (sf_strs db')) f (entry_of (st, sf, mk))" by blast
qed

lemma chain_cong: "\<forall>j \<in> set is. sf_next (fs' ! j) = sf_next (fs ! j) \<Longrightarrow> chain fs' p is = chain fs p is"
  by (induction "is" arbitrary: p) auto

lemma chain_snoc:
  assumes "chain fs p is" "is \<noteq> []" "distinct is" "\<forall>j \<in> set is. sf_next (fs' ! j) = (if j = last is then Some i else sf_next (fs ! j))"
    "sf_next (fs' ! i) = None"
  shows "chain fs' p (is @ [i])"
  using assms
proof (induction "is" arbitrary: p)
  case (Cons k "is")
  show ?case
  proof (cases "is = []")
    case False
    then have "k \<noteq> last is" using Cons.prems(3) by auto
    then have "\<forall>j \<in> set is. sf_next (fs' ! j) = (if j = last is then Some i else sf_next (fs ! j))" "sf_next (fs' ! k) = sf_next (fs ! k)"
      using Cons.prems(4) False by auto
    then show ?thesis using Cons.IH Cons.prems False by auto
  qed (use Cons.prems in auto)
qed simp

lemma file_ok_next [simp]: "file_ok buf hi (f\<lparr>sf_next := x\<rparr>) e = file_ok buf hi f e"
  by (simp add: file_ok_def)

lemma concat_upd_distinct:
  assumes "distinct (concat iss)" "d < length iss" "i \<notin> set (concat iss)"
  shows "distinct (concat (iss[d := iss ! d @ [i]]))" "set (concat (iss[d := iss ! d @ [i]])) = insert i (set (concat iss))"
proof -
  have s: "iss = take d iss @ iss ! d # drop (Suc d) iss" using assms(2) by (simp add: id_take_nth_drop)
  have u: "iss[d := iss ! d @ [i]] = take d iss @ (iss ! d @ [i]) # drop (Suc d) iss" using assms(2) by (simp add: upd_conv_take_nth_drop)
  have c: "concat iss = concat (take d iss) @ iss ! d @ concat (drop (Suc d) iss)" by (subst s) simp
  show "distinct (concat (iss[d := iss ! d @ [i]]))" "set (concat (iss[d := iss ! d @ [i]])) = insert i (set (concat iss))"
    using assms(1,3) unfolding u c by auto
qed

lemma distinct_concat_nth:
  assumes "distinct (concat iss)" "d < length iss" "d' < length iss" "d \<noteq> d'" "j \<in> set (iss ! d)"
  shows "j \<notin> set (iss ! d')"
proof -
  have *: "j \<notin> set (iss ! b)" if "a < b" "b < length iss" "j \<in> set (iss ! a)" for a b
  proof -
    have "distinct (concat (take b iss @ iss ! b # drop (Suc b) iss))" using assms(1) that(2) by (simp add: id_take_nth_drop [symmetric])
    moreover have "iss ! a \<in> set (take b iss)" using that by (auto simp: in_set_conv_nth intro!: exI [of _ a])
    ultimately show ?thesis using that(3) by auto
  qed
  show ?thesis
  proof (cases "d < d'")
    case True
    then show ?thesis using * assms by blast
  next
    case False
    then show ?thesis using *[of d' d] assms by auto
  qed
qed

lemma distinct_nth_concat: "distinct (concat iss) \<Longrightarrow> d < length iss \<Longrightarrow> distinct (iss ! d)"
  by (metis distinct_concat_iff nth_mem)

lemma added_inv:
  assumes "sf_inv db iss A" "added f tail db db'" "file_ok (sbuf (sf_strs db')) (cp (sf_strs db')) f e"
    "d < sf_ndirs db" "tail = (if iss ! d = [] then None else Some (last (iss ! d)))" "iss ! d = [] \<Longrightarrow> d = sf_ndirs db - 1"
  shows "sf_inv db' (iss[d := iss ! d @ [sf_nfiles db]]) (A[d := (fst (A ! d), snd (A ! d) @ [e])])"
proof -
  let ?i = "sf_nfiles db" and ?s = "sf_strs db" and ?s' = "sf_strs db'"
  have inv: "sf_sizes db" "length A = sf_ndirs db" "length iss = sf_ndirs db" "distinct (concat iss)" "set (concat iss) \<subseteq> {..<?i}"
    using assms(1) by (simp_all add: sf_inv_def)
  have dirs: "dir_ok db d' (iss ! d') (A ! d')" if "d' < sf_ndirs db" for d' using assms(1) that by (simp add: sf_inv_def)
  have lt: "j < ?i" if "j \<in> set (iss ! d')" "d' < sf_ndirs db" for j d'
    using inv(3,5) that by (metis UN_I lessThan_iff nth_mem set_concat subsetD)
  have fresh: "?i \<notin> set (concat iss)" using inv(5) by auto
  have files: "sf_files db' ! j = (sf_files db ! j)\<lparr>sf_next := (if tail = Some j then Some ?i else sf_next (sf_files db ! j))\<rparr>" if "j \<noteq> ?i" for j
    using assms(2) that by (simp add: added_def)
  have nxt: "sf_next (sf_files db' ! j) = (if tail = Some j then Some ?i else sf_next (sf_files db ! j))"
    if "j \<in> set (iss ! d')" "d' < sf_ndirs db" for j d'
    using lt [OF that] files [of j] by simp
  have ext: "strs_ext ?s ?s'" using assms(2) by (simp add: added_def)
  have old: "list_all2 (\<lambda>i. file_ok (sbuf ?s') (cp ?s') (sf_files db' ! i)) (iss ! d') (snd (A ! d'))"
    "sym_at (sbuf ?s') (cp ?s') (sf_dirs db' ! d') (fst (A ! d'))" if "d' < sf_ndirs db" for d'
  proof -
    have "list_all2 (\<lambda>i. file_ok (sbuf ?s) (cp ?s) (sf_files db ! i)) (iss ! d') (snd (A ! d'))"
      "sym_at (sbuf ?s) (cp ?s) (sf_dirs db ! d') (fst (A ! d'))"
      using dirs [OF that] by (auto simp: dir_ok_def split: prod.splits)
    have keep: "file_ok (sbuf ?s') (cp ?s') (sf_files db' ! j) y" if "j \<in> set (iss ! d')" "file_ok (sbuf ?s) (cp ?s) (sf_files db ! j) y" for j y
      using lt [OF that(1) \<open>d' < _\<close>] file_ok_ext [OF that(2) ext] by (simp add: files)
    show "list_all2 (\<lambda>i. file_ok (sbuf ?s') (cp ?s') (sf_files db' ! i)) (iss ! d') (snd (A ! d'))"
      by (rule list.rel_mono_strong [OF \<open>list_all2 _ _ _\<close>]) (rule keep)
    show "sym_at (sbuf ?s') (cp ?s') (sf_dirs db' ! d') (fst (A ! d'))"
      using assms(2) sym_at_ext [OF \<open>sym_at _ _ _ _\<close> ext] by (simp add: added_def)
  qed
  have d': "dir_ok db' d' (iss[d := iss ! d @ [?i]] ! d') (A[d := (fst (A ! d), snd (A ! d) @ [e])] ! d')" if "d' < sf_ndirs db" for d'
  proof (cases "d' = d")
    case True
    have ch: "chain (sf_files db') (sf_flist db' ! d) (iss ! d @ [?i])"
    proof (cases "iss ! d = []")
      case True
      then show ?thesis using assms(2,4-6) inv(1) by (auto simp: added_def sf_sizes_def)
    next
      case False
      then have c: "chain (sf_files db) (sf_flist db ! d) (iss ! d)" using dirs [OF assms(4)] by (auto simp: dir_ok_def split: prod.splits)
      have "sf_flist db' = sf_flist db" using assms(2,5) False by (simp add: added_def)
      moreover have "chain (sf_files db') (sf_flist db ! d) (iss ! d @ [?i])"
        by (rule chain_snoc [OF c False])
           (use assms(2,5) False inv(3,4) assms(4) nxt [OF _ assms(4)] in \<open>auto simp: added_def distinct_nth_concat\<close>)
      ultimately show ?thesis by simp
    qed
    with True show ?thesis using old [OF assms(4)] assms(2,3,4) inv(2,3) by (simp add: dir_ok_def list_all2_appendI added_def)
  next
    case False
    have "tail \<noteq> Some j" if "j \<in> set (iss ! d')" for j
    proof
      assume "tail = Some j"
      then have "j \<in> set (iss ! d)" using assms(5) by (auto split: if_splits)
      then show False using distinct_concat_nth [OF inv(4)] inv(3) False \<open>d' < _\<close> assms(4) that by metis
    qed
    then have c: "chain (sf_files db') p (iss ! d') = chain (sf_files db) p (iss ! d')" for p
      by (intro chain_cong ballI) (use nxt [OF _ that] in simp)
    have "iss ! d' \<noteq> [] \<longrightarrow> sf_flist db' ! d' = sf_flist db ! d'"
      using assms(2,5,6) False by (auto simp: added_def split: option.splits)
    with False c show ?thesis using old [OF that] dirs [OF that] by (auto simp: dir_ok_def split: prod.splits)
  qed
  have "sf_sizes db'"
    using assms(2) inv(1) files by (auto simp: sf_sizes_def added_def strs_ext_def less_Suc_eq split: option.splits)
  then show ?thesis
    using concat_upd_distinct [OF inv(4) _ fresh] inv assms(2,4) d' by (auto simp: sf_inv_def added_def lessThan_Suc)
qed

subsection \<open>What is added since a state\<close>

definition sf_ext :: "sfdb \<Rightarrow> sfdb \<Rightarrow> bool" where
  "sf_ext db0 db \<longleftrightarrow> strs_ext (sf_strs db0) (sf_strs db) \<and> sf_ndirs db0 \<le> sf_ndirs db \<and> sf_nfiles db0 \<le> sf_nfiles db
     \<and> (\<forall>d < sf_ndirs db0. sf_dirs db ! d = sf_dirs db0 ! d \<and> sf_flist db ! d = sf_flist db0 ! d)
     \<and> (\<forall>d. sf_ndirs db0 \<le> d \<longrightarrow> d < sf_ndirs db \<longrightarrow> cp (sf_strs db0) \<le> sf_dirs db ! d)
     \<and> (\<forall>i < sf_nfiles db0. \<exists>x. sf_files db ! i = (sf_files db0 ! i)\<lparr>sf_next := x\<rparr>
          \<and> (x = sf_next (sf_files db0 ! i) \<or> sf_next (sf_files db0 ! i) = None \<and> (\<exists>j \<ge> sf_nfiles db0. x = Some j)))
     \<and> (\<forall>i. sf_nfiles db0 \<le> i \<longrightarrow> i < sf_nfiles db \<longrightarrow> cp (sf_strs db0) \<le> sf_stname (sf_files db ! i))"

lemma sf_ext_refl: "sf_sizes db \<Longrightarrow> sf_ext db db"
  unfolding sf_ext_def by (auto simp: strs_ext_refl sf_sizes_def intro!: exI [of _ "sf_next _"])

lemma chain_last: "chain fs p is \<Longrightarrow> is \<noteq> [] \<Longrightarrow> sf_next (fs ! last is) = None"
  by (induction "is" arbitrary: p) (auto split: if_splits)

lemma chain_hd: "chain fs p is \<Longrightarrow> is \<noteq> [] \<Longrightarrow> p = Some (is ! 0)"
  by (cases "is") auto

lemma chain_next: "chain fs p is \<Longrightarrow> j \<in> set is \<Longrightarrow> sf_next (fs ! j) = None \<or> (\<exists>k \<in> set is. sf_next (fs ! j) = Some k)"
proof (induction "is" arbitrary: p)
  case (Cons i "is")
  have c: "chain fs (sf_next (fs ! i)) is" using Cons.prems(1) by simp
  show ?case
  proof (cases "j = i")
    case True
    have "sf_next (fs ! i) = None" if "is = []" using c that by simp
    moreover have "sf_next (fs ! i) = Some (is ! 0)" "is ! 0 \<in> set is" if "is \<noteq> []" using chain_hd [OF c that] that by simp_all
    ultimately show ?thesis using True by (cases "is = []") auto
  next
    case False
    then show ?thesis using Cons.IH [OF c] Cons.prems(2) by auto
  qed
qed simp

lemma added_ext:
  assumes "sf_ext db0 db" "added f tail db db'" "tail = None \<Longrightarrow> sf_ndirs db0 < sf_ndirs db"
    "\<And>t. tail = Some t \<Longrightarrow> sf_next (sf_files db ! t) = None"
  shows "sf_ext db0 db'"
proof -
  let ?n = "sf_nfiles db"
  have n0: "sf_nfiles db0 \<le> ?n" "sf_ndirs db0 \<le> sf_ndirs db" "strs_ext (sf_strs db0) (sf_strs db)" using assms(1) by (simp_all add: sf_ext_def)
  have files: "sf_files db' ! j = (sf_files db ! j)\<lparr>sf_next := (if tail = Some j then Some ?n else sf_next (sf_files db ! j))\<rparr>" if "j \<noteq> ?n" for j
    using assms(2) that by (simp add: added_def)
  have new: "sf_stname (sf_files db' ! ?n) = cp (sf_strs db)" "sf_nfiles db' = ?n + 1" "sf_ndirs db' = sf_ndirs db" "sf_dirs db' = sf_dirs db"
    "strs_ext (sf_strs db) (sf_strs db')" using assms(2) by (simp_all add: added_def)
  have fl: "sf_flist db' ! d = sf_flist db ! d" if "d < sf_ndirs db0" for d
    using assms(2,3) that by (auto simp: added_def split: option.splits)
  have f1: "\<exists>x. sf_files db' ! i = (sf_files db0 ! i)\<lparr>sf_next := x\<rparr>
      \<and> (x = sf_next (sf_files db0 ! i) \<or> sf_next (sf_files db0 ! i) = None \<and> (\<exists>j \<ge> sf_nfiles db0. x = Some j))" if "i < sf_nfiles db0" for i
  proof -
    obtain x where x: "sf_files db ! i = (sf_files db0 ! i)\<lparr>sf_next := x\<rparr>"
      "x = sf_next (sf_files db0 ! i) \<or> sf_next (sf_files db0 ! i) = None \<and> (\<exists>j \<ge> sf_nfiles db0. x = Some j)"
      using assms(1) \<open>i < _\<close> unfolding sf_ext_def by blast
    have f: "sf_files db' ! i = (sf_files db0 ! i)\<lparr>sf_next := (if tail = Some i then Some ?n else x)\<rparr>"
      using files [of i] that n0(1) x(1) by simp
    show ?thesis
    proof (cases "tail = Some i")
      case True
      then have "x = None" using assms(4) x(1) by simp
      then have "sf_next (sf_files db0 ! i) = None" using x(2) by auto
      then show ?thesis using f True n0(1) by auto
    qed (use f x(2) in auto)
  qed
  have f2: "cp (sf_strs db0) \<le> sf_stname (sf_files db' ! i)" if "sf_nfiles db0 \<le> i" "i < ?n + 1" for i
  proof (cases "i = ?n")
    case True
    then show ?thesis using new(1) n0(3) by (simp add: strs_ext_def)
  next
    case False
    then have "cp (sf_strs db0) \<le> sf_stname (sf_files db ! i)" using assms(1) that unfolding sf_ext_def by auto
    then show ?thesis using files [OF False] by simp
  qed
  have f3: "sf_dirs db ! d = sf_dirs db0 ! d \<and> sf_flist db ! d = sf_flist db0 ! d" if "d < sf_ndirs db0" for d
    using assms(1) that unfolding sf_ext_def by blast
  have f4: "cp (sf_strs db0) \<le> sf_dirs db ! d" if "sf_ndirs db0 \<le> d" "d < sf_ndirs db" for d
    using assms(1) that unfolding sf_ext_def by blast
  show ?thesis
    unfolding sf_ext_def new(2-4) using n0 strs_ext_trans [OF n0(3) new(5)] f1 f2 f3 f4 fl by auto
qed

subsection \<open>Pruning\<close>

lemma first_dir_split:
  assumes "\<And>d f. (d, f) \<in> set xs \<Longrightarrow> d < lim \<and> (\<exists>i. f = Some i \<and> i < length (sf_files db) \<and> sf_stname (sf_files db ! i) < lim)"
    "ys \<noteq> [] \<Longrightarrow> lim \<le> fst (ys ! 0)"
  shows "first_dir db lim (xs @ ys) = Inr (length xs)"
  using assms
proof (induction xs)
  case Nil
  then show ?case by (cases ys) auto
next
  case (Cons x xs)
  obtain d f where x: "x = (d, f)" by (cases x)
  obtain i where "d < lim" "f = Some i" "i < length (sf_files db)" "sf_stname (sf_files db ! i) < lim"
    using Cons.prems(1) [of d f] x by auto
  moreover have "first_dir db lim (xs @ ys) = Inr (length xs)"
    by (rule Cons.IH [OF Cons.prems(1) Cons.prems(2)]) simp
  ultimately show ?case using x by simp
qed

lemma first_file_split:
  assumes "\<And>f. f \<in> set xs \<Longrightarrow> sf_stname f < lim" "ys \<noteq> [] \<Longrightarrow> lim \<le> sf_stname (ys ! 0)"
  shows "first_file lim (xs @ ys) = length xs"
  using assms
proof (induction xs)
  case Nil
  then show ?case by (cases ys) auto
next
  case (Cons f xs)
  have "first_file lim (xs @ ys) = length xs" by (rule Cons.IH) (use Cons.prems in auto)
  moreover have "\<not> lim \<le> sf_stname f" using Cons.prems(1) [of f] by simp
  ultimately show ?case by simp
qed

lemma prune_ext:
  assumes "sf_inv db0 iss A" "\<forall>a \<in> set A. snd a \<noteq> []" "sf_ext db0 db" "sf_sizes db"
  shows "\<exists>db'. prune_to (cp (sf_strs db0)) db = Inr db' \<and> sf_inv db' iss A \<and> cp (sf_strs db') = cp (sf_strs db0)"
proof -
  let ?c = "cp (sf_strs db0)" and ?nd = "sf_ndirs db0" and ?nf = "sf_nfiles db0"
  have inv: "sf_sizes db0" "length A = ?nd" "length iss = ?nd" "distinct (concat iss)" "set (concat iss) \<subseteq> {..<?nf}"
    using assms(1) by (simp_all add: sf_inv_def)
  have dirs: "dir_ok db0 d (iss ! d) (A ! d)" if "d < ?nd" for d using assms(1) that by (simp add: sf_inv_def)
  have s0: "length (sf_dirs db) = MAX_SFDIRS" "length (sf_flist db) = MAX_SFDIRS" "length (sf_files db) = MAX_SFFILES"
    "sf_ndirs db < MAX_SFDIRS" "sf_nfiles db < MAX_SFFILES" "length (sbuf (sf_strs db)) = SZ_SBUF" "cp (sf_strs db) \<le> SZ_SBUF"
    using assms(4) by (simp_all add: sf_sizes_def)
  have le: "?nd \<le> sf_ndirs db" "?nf \<le> sf_nfiles db" "strs_ext (sf_strs db0) (sf_strs db)" using assms(3) by (simp_all add: sf_ext_def)
  have fd: "sf_dirs db ! d = sf_dirs db0 ! d" "sf_flist db ! d = sf_flist db0 ! d" if "d < ?nd" for d
    using assms(3) that unfolding sf_ext_def by blast+
  have ff: "\<exists>x. sf_files db ! i = (sf_files db0 ! i)\<lparr>sf_next := x\<rparr>
      \<and> (x = sf_next (sf_files db0 ! i) \<or> sf_next (sf_files db0 ! i) = None \<and> (\<exists>j \<ge> ?nf. x = Some j))" if "i < ?nf" for i
    using assms(3) that unfolding sf_ext_def by blast
  have st: "sf_stname (sf_files db ! i) < ?c" if "i < ?nf" for i
    using ff [OF that] inv(1) that by (auto simp: sf_sizes_def)
  have lt: "j < ?nf" if "j \<in> set (iss ! d)" "d < ?nd" for j d
    using inv(3,5) that by (metis UN_I lessThan_iff nth_mem set_concat subsetD)
  have hds: "sf_flist db0 ! d = Some (iss ! d ! 0) \<and> iss ! d \<noteq> []" if "d < ?nd" for d
  proof -
    have "snd (A ! d) \<noteq> []" using assms(2) inv(2) that by simp
    moreover have "length (iss ! d) = length (snd (A ! d))" using dirs [OF that] by (auto simp: dir_ok_def list_all2_lengthD split: prod.splits)
    ultimately have "iss ! d \<noteq> []" by auto
    then show ?thesis using dirs [OF that] chain_hd by (auto simp: dir_ok_def split: prod.splits)
  qed
  let ?z = "zip (sf_dirs db) (sf_flist db)"
  have "take (sf_ndirs db) ?z = take ?nd ?z @ drop ?nd (take (sf_ndirs db) ?z)"
    using le(1) by (metis append_take_drop_id min.absorb1 take_take)
  moreover have "first_dir db ?c (take ?nd ?z @ drop ?nd (take (sf_ndirs db) ?z)) = Inr (length (take ?nd ?z))"
  proof (rule first_dir_split)
    fix d f assume "(d, f) \<in> set (take ?nd ?z)"
    then obtain k where k: "k < ?nd" "d = sf_dirs db ! k" "f = sf_flist db ! k" by (auto simp: in_set_conv_nth)
    have "iss ! k ! 0 < ?nf" using hds [OF k(1)] lt [OF _ k(1)] by simp
    then show "d < ?c \<and> (\<exists>i. f = Some i \<and> i < length (sf_files db) \<and> sf_stname (sf_files db ! i) < ?c)"
      using dirs [OF k(1)] hds [OF k(1)] k fd [OF k(1)] st s0 le(2) by (auto simp: dir_ok_def sym_at_def split: prod.splits)
  next
    assume *: "drop ?nd (take (sf_ndirs db) ?z) \<noteq> []"
    then have "?nd < sf_ndirs db" by simp
    then show "?c \<le> fst (drop ?nd (take (sf_ndirs db) ?z) ! 0)" using assms(3) s0 unfolding sf_ext_def by simp
  qed
  moreover have "length (take ?nd ?z) = ?nd" using s0 le(1) by simp
  ultimately have nd: "first_dir db ?c (take (sf_ndirs db) ?z) = Inr ?nd" by simp
  let ?fs = "sf_files db"
  have "take (sf_nfiles db) ?fs = take ?nf ?fs @ drop ?nf (take (sf_nfiles db) ?fs)"
    using le(2) by (metis append_take_drop_id min.absorb1 take_take)
  moreover have "first_file ?c (take ?nf ?fs @ drop ?nf (take (sf_nfiles db) ?fs)) = length (take ?nf ?fs)"
  proof (rule first_file_split)
    fix f assume "f \<in> set (take ?nf ?fs)"
    then show "sf_stname f < ?c" using st by (auto simp: in_set_conv_nth)
  next
    assume "drop ?nf (take (sf_nfiles db) ?fs) \<noteq> []"
    then have "?nf < sf_nfiles db" by simp
    then show "?c \<le> sf_stname (drop ?nf (take (sf_nfiles db) ?fs) ! 0)" using assms(3) s0 unfolding sf_ext_def by simp
  qed
  moreover have "length (take ?nf ?fs) = ?nf" using s0 le(2) by simp
  ultimately have nf: "first_file ?c (take (sf_nfiles db) ?fs) = ?nf" by simp
  let ?db1 = "db\<lparr>sf_strs := (sf_strs db)\<lparr>cp := ?c\<rparr>\<rparr>"
  let ?un = "\<lambda>f :: sfile. case sf_next f of Some i \<Rightarrow> if ?nf \<le> i then f\<lparr>sf_next := None\<rparr> else f | None \<Rightarrow> f"
  let ?db' = "?db1\<lparr>sf_ndirs := ?nd, sf_nfiles := ?nf, sf_files := map ?un (take ?nf ?fs) @ drop ?nf ?fs\<rparr>"
  have fdb: "first_dir ?db1 lim ds = first_dir db lim ds" for lim ds
    by (induction ds) (auto split: option.splits)
  have pr: "prune_to ?c db = Inr ?db'"
    unfolding prune_to_def sf_prune_def using nd nf by (simp add: fdb Let_def)
  have fl: "sf_files ?db' ! i = ?un (?fs ! i)" if "i < ?nf" for i
    using that s0 le(2) by (simp add: nth_append split: option.split)
  have same: "\<exists>x. sf_files ?db' ! i = (sf_files db0 ! i)\<lparr>sf_next := x\<rparr>" if "i < ?nf" for i
    using ff [OF that] fl [OF that] by (auto split: option.splits)
  have nxt: "sf_next (sf_files ?db' ! j) = sf_next (sf_files db0 ! j)" if "j \<in> set (iss ! d)" "d < ?nd" for j d
  proof -
    have "chain (sf_files db0) (sf_flist db0 ! d) (iss ! d)" using dirs [OF that(2)] hds [OF that(2)] by (auto simp: dir_ok_def split: prod.splits)
    from chain_next [OF this that(1)] have "sf_next (sf_files db0 ! j) = None \<or> (\<exists>k < ?nf. sf_next (sf_files db0 ! j) = Some k)"
      using lt [OF _ that(2)] by blast
    then show ?thesis using ff [OF lt [OF that]] fl [OF lt [OF that]] by (auto split: option.splits)
  qed
  have sym: "sym_at (sbuf (sf_strs ?db')) (cp (sf_strs ?db')) p s" if "sym_at (sbuf (sf_strs db0)) ?c p s" for p s
    using sym_at_take [OF that] le(3) by (simp add: strs_ext_def)
  have fok: "file_ok (sbuf (sf_strs ?db')) (cp (sf_strs ?db')) (sf_files ?db' ! j) e"
    if "j < ?nf" "file_ok (sbuf (sf_strs db0)) ?c (sf_files db0 ! j) e" for j e
    using same [OF that(1)] that(2) sym by (auto simp: file_ok_def split: option.splits)
  have "dir_ok ?db' d (iss ! d) (A ! d)" if "d < ?nd" for d
  proof -
    obtain name es where A: "A ! d = (name, es)" by (cases "A ! d")
    have d: "sym_at (sbuf (sf_strs db0)) ?c (sf_dirs db0 ! d) name" "chain (sf_files db0) (sf_flist db0 ! d) (iss ! d)"
      "list_all2 (\<lambda>i. file_ok (sbuf (sf_strs db0)) ?c (sf_files db0 ! i)) (iss ! d) es"
      using dirs [OF that] hds [OF that] by (auto simp: dir_ok_def A)
    have "list_all2 (\<lambda>i. file_ok (sbuf (sf_strs ?db')) (cp (sf_strs ?db')) (sf_files ?db' ! i)) (iss ! d) es"
      by (rule list.rel_mono_strong [OF d(3)]) (use fok lt [OF _ that] in blast)
    moreover have "chain (sf_files ?db') (sf_flist db0 ! d) (iss ! d)"
      using d(2) chain_cong [of "iss ! d" "sf_files ?db'" "sf_files db0"] nxt [OF _ that] by simp
    ultimately show ?thesis using sym [OF d(1)] fd [OF that] by (simp add: dir_ok_def A)
  qed
  moreover have "sf_sizes ?db'"
  proof -
    have "sf_stname (sf_files ?db' ! i) < ?c" if "i < ?nf" for i
      using same [OF that] inv(1) that by (auto simp: sf_sizes_def)
    then show ?thesis using inv(1) s0 le by (simp add: sf_sizes_def)
  qed
  ultimately have "sf_inv ?db' iss A" using inv by (simp add: sf_inv_def)
  then show ?thesis using pr by (intro exI [of _ ?db']) simp
qed

end
