(* ===== verification/Mk_Sfscan.thy ===== *)
theory Mk_Sfscan
  imports Mk_Sflist
begin

text \<open>
  The scan of a list of special files and the searches in it, against the list of directories that \<open>Mk_Sflist\<close>
  describes.
\<close>

subsection \<open>Searching\<close>

text \<open>The first directory that is equal to a name, as an index.\<close>

fun find_dir :: "byte list \<Rightarrow> (byte list \<times> entry list) list \<Rightarrow> nat option" where
  "find_dir name [] = None"
| "find_dir name (a # A) = (if h_direq (fst a) name then Some 0 else map_option Suc (find_dir name A))"

lemma find_dir_less: "find_dir name A = Some d \<Longrightarrow> d < length A"
  by (induction A arbitrary: d) (auto split: if_splits)

lemma sym_at_str: "sym_at buf hi p s \<Longrightarrow> str_at buf p = Some s"
  by (simp add: sym_at_def str_at_kstr)

lemma sf_inv_name:
  "sf_inv db iss A \<Longrightarrow> d < sf_ndirs db \<Longrightarrow> sym_at (sbuf (sf_strs db)) (cp (sf_strs db)) (sf_dirs db ! d) (fst (A ! d))"
  unfolding sf_inv_def dir_ok_def by (cases "A ! d") auto

lemma dir_loop_find:
  assumes "list_all2 (\<lambda>x a. sym_at buf hi (fst x) (fst a)) ds A"
  shows "dir_loop buf name ds = Inr (case find_dir name A of None \<Rightarrow> None | Some d \<Rightarrow> snd (ds ! d))"
  using assms
proof (induction rule: list_all2_induct)
  case (Cons x ds a A)
  obtain d f where x: "x = (d, f)" by (cases x)
  have "str_at buf d = Some (fst a)" using Cons.hyps(1) x by (simp add: sym_at_def str_at_kstr)
  with Cons.IH x show ?case by (auto split: option.splits)
qed simp

lemma sf_dirsearch_find:
  assumes "sf_inv db iss A"
  shows "sf_dirsearch name db = Inr (case find_dir name A of None \<Rightarrow> None | Some d \<Rightarrow> sf_flist db ! d)"
proof -
  let ?ds = "take (sf_ndirs db) (zip (sf_dirs db) (sf_flist db))"
  have s: "length (sf_dirs db) = MAX_SFDIRS" "length (sf_flist db) = MAX_SFDIRS" "sf_ndirs db < MAX_SFDIRS" "length A = sf_ndirs db"
    using assms by (simp_all add: sf_inv_def sf_sizes_def)
  have "list_all2 (\<lambda>x a. sym_at (sbuf (sf_strs db)) (cp (sf_strs db)) (fst x) (fst a)) ?ds A"
    using sf_inv_name [OF assms] s by (auto simp: list_all2_conv_all_nth)
  note l = dir_loop_find [OF this, of name]
  show ?thesis
  proof (cases "find_dir name A")
    case (Some d)
    then have "d < sf_ndirs db" using find_dir_less s(4) by fastforce
    then show ?thesis using l Some s by (simp add: sf_dirsearch_def)
  qed (use l in \<open>simp add: sf_dirsearch_def\<close>)
qed

text \<open>The entry for a file: the first whose name matches.\<close>

definition sf_lookup :: "(byte list \<times> entry list) list \<Rightarrow> byte list \<Rightarrow> byte list \<Rightarrow> entry option" where
  "sf_lookup A dirname stname =
     (case find_dir dirname A of None \<Rightarrow> None | Some d \<Rightarrow> find (\<lambda>e. sf_match (fst e) stname) (snd (A ! d)))"

text \<open>The strings of a descriptor.\<close>

definition sf_view :: "sfdb \<Rightarrow> nat \<Rightarrow> entry option" where
  "sf_view db i =
     (let buf = sbuf (sf_strs db); f = sf_files db ! i in
      case (str_at buf (sf_stname f), str_at buf (sf_sfname f), case sf_mkobj f of None \<Rightarrow> Some [] | Some r \<Rightarrow> str_at buf r) of
        (Some a, Some b, Some c) \<Rightarrow> Some (a, b, c) | _ \<Rightarrow> None)"

lemma file_ok_view: "file_ok (sbuf (sf_strs db)) hi (sf_files db ! i) e \<Longrightarrow> sf_view db i = Some e"
  by (auto simp: file_ok_def sf_view_def sym_at_str split: option.splits)

lemma search_chain:
  assumes "chain (sf_files db) p is" "list_all2 (\<lambda>i. file_ok (sbuf (sf_strs db)) hi (sf_files db ! i)) is es"
    "\<forall>i \<in> set is. i < length (sf_files db)"
  shows "\<exists>r. sf_filesearch db p q = Some (Inr r)
    \<and> (case r of None \<Rightarrow> find (\<lambda>e. sf_match (fst e) q) es = None
       | Some i \<Rightarrow> \<exists>e. sf_view db i = Some e \<and> find (\<lambda>e. sf_match (fst e) q) es = Some e)"
  using assms
proof (induction "is" arbitrary: p es)
  case Nil
  then show ?case unfolding sf_filesearch_def by (subst mk_loop.simps) (simp add: search_turn_def)
next
  case (Cons i "is")
  obtain e es' where es: "es = e # es'" "file_ok (sbuf (sf_strs db)) hi (sf_files db ! i) e"
    "list_all2 (\<lambda>i. file_ok (sbuf (sf_strs db)) hi (sf_files db ! i)) is es'" using Cons.prems(2) by (auto simp: list_all2_Cons1)
  have c: "p = Some i" "chain (sf_files db) (sf_next (sf_files db ! i)) is" "i < length (sf_files db)" using Cons.prems(1,3) by auto
  have st: "str_at (sbuf (sf_strs db)) (sf_stname (sf_files db ! i)) = Some (fst e)"
    using es(2) by (auto simp: file_ok_def sym_at_str split: prod.splits)
  show ?case
  proof (cases "sf_match (fst e) q")
    case True
    then have "sf_filesearch db p q = Some (Inr (Some i))"
      unfolding sf_filesearch_def using c st by (subst mk_loop.simps) (simp add: search_turn_def)
    then show ?thesis using True es(1) file_ok_view [OF es(2)] by (cases e) simp
  next
    case False
    then have "sf_filesearch db p q = sf_filesearch db (sf_next (sf_files db ! i)) q"
      unfolding sf_filesearch_def using c st by (subst mk_loop.simps) (simp add: search_turn_def)
    moreover have "find (\<lambda>e. sf_match (fst e) q) es = find (\<lambda>e. sf_match (fst e) q) es'" using False es(1) by simp
    moreover have "\<forall>i \<in> set is. i < length (sf_files db)" using Cons.prems(3) by simp
    ultimately show ?thesis using Cons.IH [OF c(2) es(3)] by (simp only:)
  qed
qed

lemma sf_inv_dir:
  assumes "sf_inv db iss A" "d < sf_ndirs db"
  shows "iss ! d \<noteq> [] \<Longrightarrow> chain (sf_files db) (sf_flist db ! d) (iss ! d)"
    "list_all2 (\<lambda>i. file_ok (sbuf (sf_strs db)) (cp (sf_strs db)) (sf_files db ! i)) (iss ! d) (snd (A ! d))"
    "iss ! d = [] \<longleftrightarrow> snd (A ! d) = []" "\<forall>i \<in> set (iss ! d). i < sf_nfiles db" "sf_nfiles db < length (sf_files db)"
proof -
  have d: "dir_ok db d (iss ! d) (A ! d)" using assms by (simp add: sf_inv_def)
  then show "iss ! d \<noteq> [] \<Longrightarrow> chain (sf_files db) (sf_flist db ! d) (iss ! d)"
    "list_all2 (\<lambda>i. file_ok (sbuf (sf_strs db)) (cp (sf_strs db)) (sf_files db ! i)) (iss ! d) (snd (A ! d))"
    by (auto simp: dir_ok_def split: prod.splits)
  then show "iss ! d = [] \<longleftrightarrow> snd (A ! d) = []" by (auto dest: list_all2_lengthD)
  show "\<forall>i \<in> set (iss ! d). i < sf_nfiles db"
    using assms by (auto simp: sf_inv_def) (metis UN_I lessThan_iff nth_mem subsetD)
  show "sf_nfiles db < length (sf_files db)" using assms(1) by (simp add: sf_inv_def sf_sizes_def)
qed

lemma sf_search_correct:
  assumes "sf_rep db A"
  shows "\<exists>p r. sf_dirsearch dirname db = Inr p \<and> sf_filesearch db p stname = Some (Inr r)
    \<and> (case r of None \<Rightarrow> sf_lookup A dirname stname = None | Some i \<Rightarrow> sf_view db i = sf_lookup A dirname stname \<and> sf_view db i \<noteq> None)"
proof -
  obtain iss where inv: "sf_inv db iss A" "\<forall>a \<in> set A. snd a \<noteq> []" using assms by (auto simp: sf_rep_def)
  note ds = sf_dirsearch_find [OF inv(1), of dirname]
  show ?thesis
  proof (cases "find_dir dirname A")
    case None
    have "sf_filesearch db None stname = Some (Inr None)"
      unfolding sf_filesearch_def by (subst mk_loop.simps) (simp add: search_turn_def)
    then show ?thesis using ds None by (simp add: sf_lookup_def)
  next
    case (Some d)
    have d: "d < length A" "d < sf_ndirs db" using find_dir_less [OF Some] inv(1) by (simp_all add: sf_inv_def)
    note i = sf_inv_dir [OF inv(1) d(2)]
    have "snd (A ! d) \<noteq> []" using inv(2) d(1) by simp
    then have ch: "chain (sf_files db) (sf_flist db ! d) (iss ! d)" using i(1,3) by simp
    have lt: "\<forall>j \<in> set (iss ! d). j < length (sf_files db)" using i(4,5) by auto
    obtain r where r: "sf_filesearch db (sf_flist db ! d) stname = Some (Inr r)"
      "case r of None \<Rightarrow> find (\<lambda>e. sf_match (fst e) stname) (snd (A ! d)) = None
       | Some i \<Rightarrow> \<exists>e. sf_view db i = Some e \<and> find (\<lambda>e. sf_match (fst e) stname) (snd (A ! d)) = Some e"
      using search_chain [OF ch i(2) lt, of stname] by blast
    have l: "sf_lookup A dirname stname = find (\<lambda>e. sf_match (fst e) stname) (snd (A ! d))" using Some by (simp add: sf_lookup_def)
    have "sf_dirsearch dirname db = Inr (sf_flist db ! d)" using ds Some by simp
    moreover have "case r of None \<Rightarrow> sf_lookup A dirname stname = None
      | Some i \<Rightarrow> sf_view db i = sf_lookup A dirname stname \<and> sf_view db i \<noteq> None"
      using r(2) unfolding l by (cases r) auto
    ultimately show ?thesis using r(1) by blast
  qed
qed

subsection \<open>Scanning\<close>

lemma tail_chain:
  "chain (sf_files db) p is \<Longrightarrow> \<forall>i \<in> set is. i < length (sf_files db) \<Longrightarrow>
     mk_loop (tail_turn db) (t, p) = Some (Inr (if is = [] then t else Some (last is)))"
proof (induction "is" arbitrary: t p)
  case Nil
  then show ?case by (subst mk_loop.simps) (simp add: tail_turn_def)
next
  case (Cons i "is")
  then have "mk_loop (tail_turn db) (t, p) = mk_loop (tail_turn db) (p, sf_next (sf_files db ! i))"
    by (subst mk_loop.simps) (simp add: tail_turn_def)
  with Cons show ?case by simp
qed

text \<open>The state in which files are added to a directory.\<close>

definition open_at :: "sfdb \<Rightarrow> sfdb \<Rightarrow> nat list list \<Rightarrow> (byte list \<times> entry list) list \<Rightarrow> nat \<Rightarrow> nat option \<Rightarrow> bool" where
  "open_at db0 db iss A d tail \<longleftrightarrow> sf_inv db iss A \<and> sf_ext db0 db \<and> d < sf_ndirs db
     \<and> tail = (if iss ! d = [] then None else Some (last (iss ! d))) \<and> (iss ! d = [] \<longrightarrow> d = sf_ndirs db - 1 \<and> sf_ndirs db0 \<le> d)"

lemma sf_opendir_open:
  assumes "sf_inv db iss A" "\<forall>a \<in> set A. snd a \<noteq> []" "0 \<notin> set dirname" "sf_opendir dirname db = Some (Inr (tail, db1))"
  shows "case find_dir dirname A of
      None \<Rightarrow> open_at db db1 (iss @ [[]]) (A @ [(dirname, [])]) (length A) tail
    | Some d \<Rightarrow> open_at db db1 iss A d tail"
proof (cases "find_dir dirname A")
  case (Some d)
  have d: "d < length A" "d < sf_ndirs db" using find_dir_less [OF Some] assms(1) by (simp_all add: sf_inv_def)
  note i = sf_inv_dir [OF assms(1) d(2)]
  have ne: "iss ! d \<noteq> []" using assms(2) d(1) i(3) by simp
  have lt: "\<forall>j \<in> set (iss ! d). j < length (sf_files db)" using i(4,5) by auto
  have "sf_flist db ! d = Some (iss ! d ! 0)" using chain_hd [OF i(1) [OF ne] ne] .
  then have "tail = Some (last (iss ! d))" "db1 = db"
    using assms(4) sf_dirsearch_find [OF assms(1), of dirname] Some tail_chain [OF i(1) [OF ne] lt, of "sf_flist db ! d"] ne
    by (auto simp: sf_opendir_def returno_def sf_tail_def)
  then show ?thesis using Some assms(1) ne d(2) sf_ext_refl by (simp add: open_at_def sf_inv_def)
next
  case None
  let ?n = "sf_ndirs db"
  have sz: "sf_sizes db" "length A = ?n" "length iss = ?n" using assms(1) by (simp_all add: sf_inv_def)
  then have s: "length (sf_dirs db) = MAX_SFDIRS" "?n < MAX_SFDIRS" "length (sbuf (sf_strs db)) = SZ_SBUF" by (simp_all add: sf_sizes_def)
  obtain p t where p: "putstr dirname (sf_strs db) = Inr (p, t)" "tail = None" "?n + 1 < MAX_SFDIRS"
    "db1 = db\<lparr>sf_strs := t, sf_ndirs := ?n + 1, sf_dirs := (sf_dirs db)[?n := p]\<rparr>"
    using assms(4) sf_dirsearch_find [OF assms(1), of dirname] None
    by (auto simp: sf_opendir_def returno_def sf_put_def bindm_Inr Let_def split: if_splits)
  note e = putstr_ext [OF p(1) assms(3) s(3)]
  have "dir_ok db1 d ((iss @ [[]]) ! d) ((A @ [(dirname, [])]) ! d)" if "d < ?n + 1" for d
  proof (cases "d = ?n")
    case True
    then show ?thesis using sz s e(3) by (simp add: dir_ok_def p(4) nth_append)
  next
    case False
    then have d: "d < ?n" using that by simp
    have ok: "dir_ok db d (iss ! d) (A ! d)" using assms(1) d by (simp add: sf_inv_def)
    have "list_all2 (\<lambda>i. file_ok (sbuf t) (cp t) (sf_files db ! i)) (iss ! d) (snd (A ! d))"
      by (rule list_all2_mono [OF sf_inv_dir(2) [OF assms(1) d]]) (rule file_ok_ext [OF _ e(2)])
    with ok d sz show ?thesis
      using sym_at_ext [OF _ e(2)] by (auto simp: dir_ok_def p(4) nth_append split: prod.splits)
  qed
  moreover have "sf_sizes db1" using sz(1) p(3) e by (auto simp: sf_sizes_def p(4) strs_ext_def)
  ultimately have "sf_inv db1 (iss @ [[]]) (A @ [(dirname, [])])" using assms(1) by (simp add: sf_inv_def p(4))
  moreover have "sf_ext db db1"
    unfolding sf_ext_def using e s by (auto simp: p(4) less_Suc_eq nth_list_update intro!: exI [of _ "sf_next _"])
  ultimately show ?thesis using None sz by (simp add: open_at_def p(2,4) nth_append)
qed

subsection \<open>Scanning any tokens\<close>

definition no_zero :: "tokens \<Rightarrow> bool" where
  "no_zero ts \<longleftrightarrow> list_all (\<lambda>(t, s). 0 \<notin> set s) ts"

lemma no_zero_simps [simp]: "no_zero []" "no_zero ((t, s) # ts) \<longleftrightarrow> 0 \<notin> set s \<and> no_zero ts" "no_zero (ts @ us) \<longleftrightarrow> no_zero ts \<and> no_zero us"
  by (auto simp: no_zero_def)

lemma no_zero_rest:
  "no_zero ts \<Longrightarrow> no_zero (to_newline ts)" "no_zero ts \<Longrightarrow> no_zero (snd (to_begin ts))"
proof -
  show "no_zero ts \<Longrightarrow> no_zero (to_newline ts)" by (induction ts rule: to_newline.induct) auto
  show "no_zero ts \<Longrightarrow> no_zero (snd (to_begin ts))" by (induction ts rule: to_begin.induct) auto
qed

lemma next_tok_no_zero: "no_zero ts \<Longrightarrow> next_tok ts = ((t, s), us) \<Longrightarrow> 0 \<notin> set s \<and> no_zero us"
  by (cases ts) (auto simp: next_tok_def)

lemma amp_no_zero: "0 \<notin> set st \<Longrightarrow> 0 \<notin> set s \<Longrightarrow> 0 \<notin> set (amp_expand st s)"
  by (auto simp: amp_expand_def)

lemma sf_line_no_zero:
  assumes "sf_line token ts = Inr (e, eol, us)" "0 \<notin> set token" "no_zero ts"
  shows "no_zero us \<and> (\<forall>st sf mk. e = Some (st, sf, mk) \<longrightarrow> 0 \<notin> set st \<and> 0 \<notin> set sf \<and> 0 \<notin> set mk)"
proof -
  obtain t sf us1 where 1: "next_tok ts = ((t, sf), us1)" by (cases "next_tok ts") auto
  obtain t2 s2 us2 where 2: "next_tok us1 = ((t2, s2), us2)" by (cases "next_tok us1") auto
  have n1: "0 \<notin> set sf" "no_zero us1" using next_tok_no_zero [OF assms(3) 1] by auto
  have n2: "0 \<notin> set s2" "no_zero us2" using next_tok_no_zero [OF n1(2) 2] by auto
  show ?thesis using assms(1,2) n1 n2 amp_no_zero [OF assms(2) n2(1)] no_zero_rest(1)
    by (auto simp: sf_line_def 1 2 Let_def bad_line_def split: if_splits)
qed

lemma open_at_add:
  assumes "open_at db0 db iss A d tail" "sf_addfile (st, sf, mk) tail db = Inr (i, db')" "0 \<notin> set st" "0 \<notin> set sf" "0 \<notin> set mk"
  shows "open_at db0 db' (iss[d := iss ! d @ [i]]) (A[d := (fst (A ! d), snd (A ! d) @ [entry_of (st, sf, mk)])]) d (Some i)"
    "i = sf_nfiles db" "sf_nfiles db' = sf_nfiles db + 1" "sf_ndirs db' = sf_ndirs db"
proof -
  have o: "sf_inv db iss A" "sf_ext db0 db" "d < sf_ndirs db" "tail = (if iss ! d = [] then None else Some (last (iss ! d)))"
    "iss ! d = [] \<Longrightarrow> d = sf_ndirs db - 1 \<and> sf_ndirs db0 \<le> d" using assms(1) by (auto simp: open_at_def)
  note i = sf_inv_dir [OF o(1,3)]
  have lt: "t < sf_nfiles db" if "tail = Some t" for t using o(4) i(4) that by (auto split: if_splits)
  have sz: "sf_sizes db" using o(1) by (simp add: sf_inv_def)
  show e: "i = sf_nfiles db" by (rule sf_addfile_added(1) [OF assms(2-5) sz lt])
  obtain f where f: "added f tail db db'" "file_ok (sbuf (sf_strs db')) (cp (sf_strs db')) f (entry_of (st, sf, mk))"
    using sf_addfile_added(2) [OF assms(2-5) sz lt] by blast
  show "sf_nfiles db' = sf_nfiles db + 1" "sf_ndirs db' = sf_ndirs db" using f(1) by (simp_all add: added_def)
  have inv: "sf_inv db' (iss[d := iss ! d @ [i]]) (A[d := (fst (A ! d), snd (A ! d) @ [entry_of (st, sf, mk)])])"
    unfolding e by (rule added_inv [OF o(1) f o(3,4)]) (use o(5) in blast)
  have "sf_next (sf_files db ! t) = None" if "tail = Some t" for t
    using that o(4) chain_last [OF i(1)] by (auto split: if_splits)
  moreover have "sf_ndirs db0 < sf_ndirs db" if "tail = None" using that o(3-5) by (auto split: if_splits)
  ultimately have ext: "sf_ext db0 db'" by (intro added_ext [OF o(2) f(1)])
  have "d < length iss" using o(1,3) by (simp add: sf_inv_def)
  then show "open_at db0 db' (iss[d := iss ! d @ [i]]) (A[d := (fst (A ! d), snd (A ! d) @ [entry_of (st, sf, mk)])]) d (Some i)"
    using inv ext f(1) o(3) by (simp add: open_at_def added_def)
qed

lemma sf_entries_open:
  assumes "open_at db0 db iss A d tail" "sf_entries tail n ts db = Inr (n', us, db')" "no_zero ts"
  shows "\<exists>es iss' tail'. open_at db0 db' iss' (A[d := (fst (A ! d), snd (A ! d) @ es)]) d tail' \<and> n' = n + length es"
  using assms
proof (induction tail n ts db arbitrary: iss A rule: sf_entries.induct)
  case (1 tail n db)
  then show ?case by (intro exI [of _ "[]"] exI [of _ iss] exI [of _ tail]) auto
next
  case (2 tail n t token ts db)
  have d: "d < length A" using "2.prems"(1) by (simp add: open_at_def sf_inv_def)
  consider "t = TOK_END" | "t = TOK_NEWLINE" | "t = TOK_BEGIN" | "t = TOK_FNAME" by (cases t) auto
  then show ?case
  proof cases
    case 1
    then show ?thesis using "2.prems" by (intro exI [of _ "[]"] exI [of _ iss] exI [of _ tail]) auto
  next
    case 2
    then show ?thesis using "2.IH"(1) "2.prems" by simp
  next
    case 3
    then show ?thesis using "2.IH"(2) "2.prems" no_zero_rest(1) by simp
  next
    case 4
    have t: "t \<noteq> TOK_END" "t \<noteq> TOK_NEWLINE" "\<not> t \<noteq> TOK_FNAME" using 4 by simp_all
    have ent: "sf_entries tail n ((t, token) # ts) db =
        (case sf_line token ts of
           Inl e \<Rightarrow> Inl e
         | Inr (None, eol, ts) \<Rightarrow> if eol then Inr (n, ts, db) else sf_entries tail n ts db
         | Inr (Some f, eol, ts) \<Rightarrow>
             (case sf_addfile f tail db of
                Inl e \<Rightarrow> Inl e
              | Inr (i, db) \<Rightarrow> if eol then Inr (n + 1, ts, db) else sf_entries (Some i) (n + 1) ts db))"
      using 4 by simp
    obtain e eol vs where l: "sf_line token ts = Inr (e, eol, vs)" using "2.prems"(2) ent by (cases "sf_line token ts") auto
    have "0 \<notin> set token" "no_zero ts" using "2.prems"(3) by simp_all
    note n = sf_line_no_zero [OF l this]
    have nz: "no_zero vs" by (rule conjunct1 [OF n])
    show ?thesis
    proof (cases e)
      case None
      show ?thesis
      proof (cases eol)
        case True
        then show ?thesis using "2.prems"(1,2) ent l None by (intro exI [of _ "[]"] exI [of _ iss] exI [of _ tail]) auto
      next
        case False
        then have step: "sf_entries tail n vs db = Inr (n', us, db')" using "2.prems"(2) ent l None by simp
        show ?thesis
          by (rule "2.IH"(3) [of "(e, eol, vs)" e "(eol, vs)" eol vs, OF t l refl None refl False "2.prems"(1) step nz])
      qed
    next
      case (Some f)
      obtain st sf mk where f: "f = (st, sf, mk)" by (cases f)
      obtain i db1 where a: "sf_addfile (st, sf, mk) tail db = Inr (i, db1)" using "2.prems"(2) ent l Some f by (cases "sf_addfile f tail db") auto
      have z: "0 \<notin> set st" "0 \<notin> set sf" "0 \<notin> set mk" using conjunct2 [OF n, rule_format, of st sf mk] Some f by simp_all
      note o = open_at_add(1) [OF "2.prems"(1) a z]
      show ?thesis
      proof (cases eol)
        case True
        then show ?thesis using "2.prems"(2) ent l Some f a o by (intro exI [of _ "[entry_of (st, sf, mk)]"] exI [of _ "iss[d := iss ! d @ [i]]"] exI [of _ "Some i"]) auto
      next
        case False
        then have step: "sf_entries (Some i) (n + 1) vs db1 = Inr (n', us, db')" using "2.prems"(2) ent l Some f a by simp
        have a': "sf_addfile f tail db = Inr (i, db1)" using a f by simp
        from "2.IH"(4) [of "(e, eol, vs)" e "(eol, vs)" f eol vs "(i, db1)" i db1, OF t l refl Some refl a' refl False o step nz]
        obtain es iss' tail' where
          "open_at db0 db' iss' (A[d := (fst (A ! d), snd (A ! d) @ [entry_of (st, sf, mk)]),
             d := (fst (A ! d), (snd (A ! d) @ [entry_of (st, sf, mk)]) @ es)]) d tail'" "n' = n + 1 + length es"
          using d by (auto simp only: length_list_update nth_list_update_eq fst_conv snd_conv)
        then show ?thesis by (intro exI [of _ "entry_of (st, sf, mk) # es"] exI [of _ iss'] exI [of _ tail']) simp
      qed
    qed
  qed
qed

text \<open>Files for a directory: they come behind those that it has, or the directory is new.\<close>

definition sf_add :: "byte list \<Rightarrow> entry list \<Rightarrow> (byte list \<times> entry list) list \<Rightarrow> (byte list \<times> entry list) list" where
  "sf_add name es A =
     (case find_dir name A of None \<Rightarrow> A @ [(name, es)] | Some d \<Rightarrow> A[d := (fst (A ! d), snd (A ! d) @ es)])"

lemma sf_scan_entries:
  assumes "sf_rep db A" "0 \<notin> set dirname" "no_zero ts" "sf_opendir dirname db = Some (Inr (tail, db1))"
    "sf_entries tail 0 ts db1 = Inr (n, us, db2)"
  shows "\<exists>iss iss2 es. sf_inv db iss A \<and> (\<forall>a \<in> set A. snd a \<noteq> []) \<and> sf_ext db db2 \<and> sf_inv db2 iss2 (sf_add dirname es A) \<and> n = length es"
proof -
  obtain iss where inv: "sf_inv db iss A" "\<forall>a \<in> set A. snd a \<noteq> []" using assms(1) by (auto simp: sf_rep_def)
  note o = sf_opendir_open [OF inv assms(2,4)]
  show ?thesis
  proof (cases "find_dir dirname A")
    case None
    then have "open_at db db1 (iss @ [[]]) (A @ [(dirname, [])]) (length A) tail" using o by simp
    from sf_entries_open [OF this assms(5,3)] obtain es iss' tail' where
      "open_at db db2 iss' (A @ [(dirname, es)]) (length A) tail'" "n = length es" by auto
    then show ?thesis using inv None by (auto simp: open_at_def sf_add_def)
  next
    case (Some d)
    then have "open_at db db1 iss A d tail" using o by simp
    from sf_entries_open [OF this assms(5,3)] obtain es iss' tail' where
      "open_at db db2 iss' (A[d := (fst (A ! d), snd (A ! d) @ es)]) d tail'" "n = length es" by auto
    then show ?thesis using inv Some by (auto simp: open_at_def sf_add_def)
  qed
qed

lemma sf_add_nonempty: "\<forall>a \<in> set A. snd a \<noteq> [] \<Longrightarrow> es \<noteq> [] \<Longrightarrow> \<forall>a \<in> set (sf_add name es A). snd a \<noteq> []"
  by (auto simp: sf_add_def split: option.splits dest!: set_update_subset_insert [THEN subsetD])

text \<open>
  C13: whatever the tokens are.  When a list is refused, the data base is as it was; when files were added, pruning
  the string buffer back to where it was takes away all of them and nothing else.
\<close>

theorem sf_scanlist_prune:
  assumes "sf_rep db A" "no_zero ts" "\<forall>s. 0 \<notin> set (os_fpathname s)"
    "sf_scanlist os_fpathname ts db = Some (Inr (ok, us, db'))"
  shows "if ok then (\<exists>dirname es db''. es \<noteq> [] \<and> sf_rep db' (sf_add dirname es A)
      \<and> prune_to (cp (sf_strs db)) db' = Inr db'' \<and> sf_rep db'' A \<and> cp (sf_strs db'') = cp (sf_strs db))
    else sf_rep db' A \<and> cp (sf_strs db') = cp (sf_strs db)"
proof -
  obtain iss where inv: "sf_inv db iss A" "\<forall>a \<in> set A. snd a \<noteq> []" using assms(1) by (auto simp: sf_rep_def)
  have sz: "sf_sizes db" using inv(1) by (simp add: sf_inv_def)
  have undo: "\<exists>db''. prune_to (cp (sf_strs db)) db1 = Inr db'' \<and> sf_rep db'' A \<and> cp (sf_strs db'') = cp (sf_strs db)"
    if "sf_ext db db1" "sf_sizes db1" for db1
    using prune_ext [OF inv that] inv(2) by (auto simp: sf_rep_def)
  have err: "\<not> ok \<and> sf_rep db' A \<and> cp (sf_strs db') = cp (sf_strs db)"
    if "sf_err (cp (sf_strs db)) vs db = Inr (ok, us, db')" for vs
    using undo [OF sf_ext_refl [OF sz] sz] that by (auto simp: sf_err_def)
  obtain t token vs where 1: "next_tok ts = ((t, token), vs)" by (cases "next_tok ts") auto
  obtain found ws where 2: "to_begin vs = (found, ws)" by (cases "to_begin vs")
  have nz: "no_zero ws" using next_tok_no_zero [OF assms(2) 1] no_zero_rest(2) [of vs] 2 by simp
  show ?thesis
  proof (cases "t \<noteq> TOK_FNAME \<or> \<not> found")
    case True
    then have "sf_err (cp (sf_strs db)) vs db = Inr (ok, us, db') \<or> sf_err (cp (sf_strs db)) ws db = Inr (ok, us, db')"
      using assms(4) by (auto simp: sf_scanlist_def 1 2 Let_def returno_def split: if_splits)
    then show ?thesis using err by auto
  next
    case False
    let ?d = "os_fpathname token"
    obtain tail db1 where o: "sf_opendir ?d db = Some (Inr (tail, db1))"
      using assms(4) False by (auto simp: sf_scanlist_def 1 2 Let_def bindo_Inr)
    obtain n xs db2 where e: "sf_entries tail 0 ws db1 = Inr (n, xs, db2)"
      using assms(4) False o by (auto simp: sf_scanlist_def 1 2 Let_def bindo_Inr returno_def)
    have z: "0 \<notin> set ?d" using assms(3) by blast
    obtain iss2 es where r: "sf_ext db db2" "sf_inv db2 iss2 (sf_add ?d es A)" "n = length es"
      using sf_scan_entries [OF assms(1) z nz o e] by blast
    have sz2: "sf_sizes db2" using r(2) by (simp add: sf_inv_def)
    note b = undo [OF r(1) sz2]
    have fin: "(if n = 0 then returno (bindm (prune_to (cp (sf_strs db)) db2) (\<lambda>db. Inr (False, xs, db))) else Some (Inr (True, xs, db2)))
      = Some (Inr (ok, us, db'))"
      using assms(4) False o e by (simp add: sf_scanlist_def 1 2 Let_def returno_def)
    show ?thesis
    proof (cases "n = 0")
      case True
      then show ?thesis using fin b by (auto simp: returno_def)
    next
      case False
      then have es: "es \<noteq> []" using r(3) by auto
      then have "sf_rep db2 (sf_add ?d es A)" using r(2) sf_add_nonempty [OF inv(2) es] by (auto simp: sf_rep_def)
      then show ?thesis using fin b es False by auto
    qed
  qed
qed

subsection \<open>Scanning a list\<close>

text \<open>The tokens of a list, and the room that an entry takes.\<close>

definition line_tokens :: "entry \<Rightarrow> tokens" where
  "line_tokens = (\<lambda>(st, sf, mk). [(TOK_FNAME, st), (TOK_FNAME, sf)] @ (if mk = [] then [] else [(TOK_FNAME, mk)]) @ [(TOK_NEWLINE, [10])])"

definition list_tokens :: "byte list \<Rightarrow> entry list \<Rightarrow> tokens" where
  "list_tokens dir ls = [(TOK_FNAME, dir), (TOK_BEGIN, [58]), (TOK_NEWLINE, [10])] @ concat (map line_tokens ls) @ [(TOK_END, [59])]"

definition file_entry :: "entry \<Rightarrow> entry" where
  "file_entry = (\<lambda>(st, sf, mk). entry_of (st, sf, amp_expand st mk))"

definition entry_room :: "entry \<Rightarrow> nat" where
  "entry_room = (\<lambda>(st, sf, mk). length st + length sf + length (amp_expand st mk) + 3)"

definition line_ok :: "entry \<Rightarrow> bool" where
  "line_ok = (\<lambda>(st, sf, mk). 0 \<notin> set st \<and> 0 \<notin> set sf \<and> 0 \<notin> set mk \<and> length st \<le> SZ_PATHNAME
     \<and> length (amp_expand st mk) \<le> SZ_CMD + SZ_PATHNAME)"

lemma putstr_ok:
  assumes "0 \<notin> set s" "length (sbuf t) = SZ_SBUF" "cp t + length s < SZ_SBUF"
  shows "\<exists>p t'. putstr s t = Inr (p, t') \<and> cp t' = cp t + length s + 1 \<and> length (sbuf t') = SZ_SBUF"
  using putstr_correct [OF assms(2,3,1)] assms(2,3) by (auto simp: blit_simps)

lemma sf_store_ok:
  assumes "0 \<notin> set st" "0 \<notin> set sf" "0 \<notin> set mk" "length (sbuf t) = SZ_SBUF"
    "cp t + length st + length sf + length mk + 3 \<le> SZ_SBUF"
  shows "\<exists>f t'. sf_store (st, sf, mk) t = Inr (f, t') \<and> cp t' \<le> cp t + length st + length sf + length mk + 3"
proof -
  obtain p t1 where 1: "putstr st t = Inr (p, t1)" "cp t1 = cp t + length st + 1" "length (sbuf t1) = SZ_SBUF"
    using putstr_ok [OF assms(1,4)] assms(5) by auto
  obtain q t2 where 2: "(if first_char sf = 38 then Inr (p, t1) else putstr sf t1) = Inr (q, t2)" "cp t2 \<le> cp t1 + length sf + 1"
    "length (sbuf t2) = SZ_SBUF"
    using putstr_ok [OF assms(2) 1(3)] assms(5) 1(2,3) by (cases "first_char sf = 38") auto
  obtain r t3 where 3: "(if mk = [] then Inr (None, t2) else bindm (putstr mk t2) (\<lambda>(r, t). Inr (Some r, t))) = Inr (r, t3)"
    "cp t3 \<le> cp t2 + length mk + 1"
    using putstr_ok [OF assms(3) 2(3)] assms(5) 1(2) 2(2) by (cases "mk = []") auto
  then show ?thesis using 1(2) 2(2) by (auto simp: sf_store_def 1(1) 2(1) 3(1))
qed

lemma sf_addfile_ok:
  assumes "open_at db0 db iss A d tail" "sf_nfiles db + 1 < MAX_SFFILES" "0 \<notin> set st" "0 \<notin> set sf" "0 \<notin> set mk"
    "cp (sf_strs db) + length st + length sf + length mk + 3 \<le> SZ_SBUF"
  shows "\<exists>db'. sf_addfile (st, sf, mk) tail db = Inr (sf_nfiles db, db') \<and> cp (sf_strs db') \<le> cp (sf_strs db) + length st + length sf + length mk + 3"
proof -
  have o: "sf_inv db iss A" "d < sf_ndirs db" "tail = (if iss ! d = [] then None else Some (last (iss ! d)))" using assms(1) by (simp_all add: open_at_def)
  have s: "length (sbuf (sf_strs db)) = SZ_SBUF" using o(1) by (simp add: sf_inv_def sf_sizes_def)
  obtain f t where 1: "sf_store (st, sf, mk) (sf_strs db) = Inr (f, t)" "cp t \<le> cp (sf_strs db) + length st + length sf + length mk + 3"
    using sf_store_ok [OF assms(3-5) s assms(6)] by blast
  note i = sf_inv_dir [OF o(1,2)]
  have "last (iss ! d) < length (sf_files db)" if "iss ! d \<noteq> []" using i(4,5) last_in_set [OF that] by auto
  then show ?thesis using assms(2) 1 o(2,3) by (cases "iss ! d = []") (auto simp: sf_addfile_alt sf_link_def)
qed

lemma sf_entries_lines:
  assumes "open_at db0 db iss A d tail" "\<forall>l \<in> set ls. line_ok l" "sf_nfiles db + length ls < MAX_SFFILES"
    "cp (sf_strs db) + sum_list (map entry_room ls) \<le> SZ_SBUF"
  shows "\<exists>iss' db' tail'. sf_entries tail n (concat (map line_tokens ls) @ (TOK_END, e) # rest) db = Inr (n + length ls, rest, db')
    \<and> open_at db0 db' iss' (A[d := (fst (A ! d), snd (A ! d) @ map file_entry ls)]) d tail'"
  using assms
proof (induction ls arbitrary: db iss A tail n)
  case Nil
  then show ?case by (intro exI [of _ iss] exI [of _ db] exI [of _ tail]) simp
next
  case (Cons l ls)
  obtain st sf mk where l: "l = (st, sf, mk)" by (cases l)
  let ?mk = "amp_expand st mk" and ?ts = "concat (map line_tokens ls) @ (TOK_END, e) # rest"
  have ok: "0 \<notin> set st" "0 \<notin> set sf" "0 \<notin> set mk" "length st < SZ_PATHNAME + 1" "length ?mk < SZ_CMD + SZ_PATHNAME + 1"
    using Cons.prems(2) by (auto simp: l line_ok_def)
  have room: "cp (sf_strs db) + length st + length sf + length ?mk + 3 \<le> SZ_SBUF" using Cons.prems(4) by (simp add: l entry_room_def)
  have z: "0 \<notin> set ?mk" using amp_no_zero [OF ok(1,3)] .
  have nf: "sf_nfiles db + 1 < MAX_SFFILES" using Cons.prems(3) by simp
  obtain db1 where a: "sf_addfile (st, sf, ?mk) tail db = Inr (sf_nfiles db, db1)"
    "cp (sf_strs db1) \<le> cp (sf_strs db) + length st + length sf + length ?mk + 3"
    using sf_addfile_ok [OF Cons.prems(1) nf ok(1,2) z room] by blast
  note o = open_at_add [OF Cons.prems(1) a(1) ok(1,2) z]
  have d: "d < length A" using Cons.prems(1) by (simp add: open_at_def sf_inv_def)
  have "sf_line st (tl (line_tokens l) @ ?ts) = Inr (Some (st, sf, ?mk), False, (if mk = [] then ?ts else (TOK_NEWLINE, [10]) # ?ts))"
    using ok(4,5) by (auto simp: sf_line_def l line_tokens_def next_tok_def Let_def amp_expand_def)
  then have step: "sf_entries tail n (line_tokens l @ ?ts) db = sf_entries (Some (sf_nfiles db)) (n + 1) ?ts db1"
    using a(1) by (auto simp: l line_tokens_def)
  have p: "\<forall>l \<in> set ls. line_ok l" "sf_nfiles db1 + length ls < MAX_SFFILES" using Cons.prems(2,3) o(3) by auto
  have "cp (sf_strs db1) + sum_list (map entry_room ls) \<le> SZ_SBUF" using Cons.prems(4) a(2) by (simp add: l entry_room_def)
  from Cons.IH [OF o(1) p this, of "n + 1"] show ?case using step d by (simp add: l file_entry_def)
qed


subsection \<open>Examples\<close>

definition demo_sfdb :: sfdb where
  "demo_sfdb = \<lparr>sf_ndirs = 0, sf_nfiles = 0, sf_dirs = replicate MAX_SFDIRS 0, sf_flist = replicate MAX_SFDIRS None,
     sf_files = replicate MAX_SFFILES \<lparr>sf_stname = 0, sf_sfname = 0, sf_mkobj = None, sf_next = None\<rparr>, sf_strs = demo_syms\<rparr>"

lemma demo_sfdb_rep: "sf_rep demo_sfdb []"
  by (auto simp: sf_rep_def sf_inv_def sf_sizes_def demo_sfdb_def demo_syms_def intro!: exI [of _ "[]"])

text \<open>The file \<open>a.x\<close> of the directory \<open>d\<close>, compiled by \<open>xc a.x\<close>, and an empty list.\<close>

definition demo_line :: entry where
  "demo_line = ([97, 46, 120], [38], [120, 99, 32, 38])"


theorem sf_scanlist_prune_witness:
  "\<exists>db'. sf_scanlist id [(TOK_FNAME, [100]), (TOK_END, [59])] demo_sfdb = Some (Inr (False, [], db')) \<and> sf_rep db' []"
proof -
  have "\<exists>db'. sf_err 0 [] demo_sfdb = Inr (False, [], db')"
    by (simp add: sf_err_def prune_to_def sf_prune_def demo_sfdb_def)
  then obtain db' where s: "sf_scanlist id [(TOK_FNAME, [100]), (TOK_END, [59])] demo_sfdb = Some (Inr (False, [], db'))"
    by (auto simp: sf_scanlist_def next_tok_def returno_def demo_sfdb_def demo_syms_def)
  have z: "\<forall>s :: byte list. 0 \<notin> set (cstr s)" by (auto simp: cstr_def dest: set_takeWhileD)
  have c: "sf_scanlist cstr [(TOK_FNAME, [100]), (TOK_END, [59])] demo_sfdb = Some (Inr (False, [], db'))"
    using s by (simp add: sf_scanlist_def next_tok_def)
  have "sf_rep db' []" using sf_scanlist_prune [OF demo_sfdb_rep _ z c] by simp
  with s show ?thesis by blast
qed

end
