(* ===== verification/Mk_Module.thy ===== *)
theory Mk_Module
  imports Mk_Skip Mk_Sfscan Mk_Library
begin

text \<open>
  The module lists of \<open>mkpkg\<close>, from \<open>unix/boot/mkpkg/pkg.c\<close>: the names in them, the files that a module depends on,
  the decision whether the module is up to date, and the entry of a module in the list of files to be compiled.
\<close>

text \<open>\<open>MAX_FILES\<close> of \<open>mkpkg.h\<close>; the caches have a constant of that name of their own.\<close>

abbreviation MAX_MODULES :: nat where "MAX_MODULES \<equiv> 512"
abbreviation MAX_DEPFILES :: nat where "MAX_DEPFILES \<equiv> 100"

subsection \<open>Names\<close>

text \<open>
  The first loop of \<open>parse_fname\<close>: \<open>bef\<close> is the byte before \<open>ip\<close>, if that is inside the array, \<open>i\<close> the index of \<open>ip\<close>,
  \<open>out\<close> what is in \<open>fname\<close>, an array of \<open>sz\<close> bytes, and the last argument is \<open>delim\<close>.
\<close>

fun fname_loop :: "nat \<Rightarrow> byte option \<Rightarrow> byte list \<Rightarrow> nat \<Rightarrow> byte list \<Rightarrow> nat option \<Rightarrow> (byte list \<times> nat option) mk" where
  "fname_loop sz bef [] i out delim = (if sz \<le> length out then Inl Fault else Inr (out, delim))"
| "fname_loop sz bef (c # ip) i out delim =
     (if sz \<le> length out then Inl Fault
      else if c = 36 \<or> c = 47 then
        (case bef of
           None \<Rightarrow> Inl Fault
         | Some b \<Rightarrow>
             if b = 92
             then (if out = [] then Inl Fault else fname_loop sz (Some c) ip (i + 1) (butlast out @ [c]) delim)
             else fname_loop sz (Some c) ip (i + 1) (out @ [c]) (Some i))
      else fname_loop sz (Some c) ip (i + 1) (out @ [c]) delim)"

text \<open>The directory and the file name, in arrays of \<open>SZ_FNAME + 1\<close> bytes.\<close>

definition parse_fname :: "byte option \<Rightarrow> byte list \<Rightarrow> (byte list \<times> byte list) mk" where
  "parse_fname bef path =
     bindm (fname_loop (SZ_FNAME + 1) bef path 0 [] None) (\<lambda>(fname, delim).
     case delim of
       None \<Rightarrow> Inr ([], fname)
     | Some d \<Rightarrow>
         if SZ_FNAME + 1 \<le> d + 1 \<or> SZ_FNAME + 1 \<le> length path - (d + 1) then Inl Fault
         else Inr (take (d + 1) path, drop (d + 1) path))"

text \<open>The end of \<open>parse_modname\<close>: \<open>path\<close> is where the directory begins, with the byte before it.\<close>

fun subdir_loop :: "byte option \<Rightarrow> byte list \<Rightarrow> byte list \<Rightarrow> byte list \<Rightarrow> (byte list \<times> byte list) mk" where
  "subdir_loop bef path [] out = (if SZ_FNAME + 1 \<le> length out then Inl Fault else Inr (out, []))"
| "subdir_loop bef path (ch # ip) out =
     (if SZ_FNAME + 1 \<le> length out then Inl Fault
      else if ch = 36 \<or> ch = 47 then
        (if out = [] then Inl Fault
         else if last out = 92 then subdir_loop bef path ip (butlast out @ [ch])
         else parse_fname bef path)
      else subdir_loop bef path ip (out @ [ch]))"

definition parse_modname :: "byte list \<Rightarrow> (byte list \<times> byte list \<times> byte list) mk" where
  "parse_modname modname =
     (let ip = dropWhile (\<lambda>c. isspace (sint c)) modname;
          module = takeWhile (\<lambda>c. c \<noteq> 64) ip;
          ip = dropWhile (\<lambda>c. c \<noteq> 64) ip;
          sub = (module = [] \<and> take 2 ip = [64, 40]);
          paren = takeWhile (\<lambda>c. c \<noteq> 41) (tl ip);
          rest = dropWhile (\<lambda>c. c \<noteq> 41) (tl ip);
          module = (if sub then paren @ take 1 rest else module);
          ip = (if sub then tl rest else ip);
          ip = (if take 1 ip = [64] then tl ip else ip);
          n = length modname - length ip
      in
        if SZ_FNAME + 1 \<le> length module \<or> sub \<and> SZ_FNAME + 1 \<le> length paren + 1 then Inl Fault
        else
          bindm (subdir_loop (if n = 0 then None else Some (modname ! (n - 1))) ip ip []) (\<lambda>(subdir, fname).
          Inr (module, subdir, fname)))"

subsection \<open>Files that a module depends on\<close>

datatype 'a outcome = Result 'a mkrun | Aside "byte list" mkrun

text \<open>A turn of the loop; \<open>ds\<close> are the pointers in \<open>dflist\<close>, an array of \<open>MAX_DEPFILES + 1\<close>.\<close>

definition dep_turn :: "tokenv \<Rightarrow> nat list \<times> mkrun \<Rightarrow> (nat list outcome + nat list \<times> mkrun) mk option" where
  "dep_turn E = (\<lambda>(ds, st).
     bindo (gettok E (SZ_FNAME + 1) (int SZ_FNAME) st) (\<lambda>r.
     case r of
       Directive d st \<Rightarrow> Some (Inr (Inl (Aside d st)))
     | Got token fname st \<Rightarrow>
         if token = TOK_NEWLINE then Some (Inr (Inl (Result ds st)))
         else if token = TOK_FNAME then
           (if MAX_DEPFILES + 1 \<le> length ds then Some (Inl Fault)
            else
              bindo (returno (putstr fname (tk_syms (run_tok st)))) (\<lambda>(p, syms).
              Some (Inr (Inr (ds @ [p], st\<lparr>run_tok := (run_tok st)\<lparr>tk_syms := syms\<rparr>\<rparr>)))))
         else Some (Inr (Inr (ds, st)))))"

definition get_dependency_list :: "tokenv \<Rightarrow> mkrun \<Rightarrow> nat list outcome mk option" where
  "get_dependency_list E st =
     (let save_cp = cp (tk_syms (run_tok st)) in
      bindo (mk_loop (dep_turn E) ([], st)) (\<lambda>r.
      case r of
        Aside d st \<Rightarrow> Some (Inr (Aside d st))
      | Result ds st \<Rightarrow>
          if MAX_DEPFILES + 1 \<le> length ds then Some (Inl Fault)
          else Some (Inr (Result ds (st\<lparr>run_tok := (run_tok st)\<lparr>tk_syms := (tk_syms (run_tok st))\<lparr>cp := save_cp\<rparr>\<rparr>\<rparr>)))))"

subsection \<open>Dates\<close>

text \<open>The loop over the dependencies; the results are \<open>old\<close> and \<open>newest_date\<close>.\<close>

fun deps_loop :: "(byte list \<Rightarrow> int) \<Rightarrow> int \<Rightarrow> byte list list \<Rightarrow> bool \<Rightarrow> int \<Rightarrow> fdcache \<Rightarrow> (bool \<times> int \<times> fdcache) mk" where
  "deps_loop os_fdate armod_date [] old newest c = Inr (old, newest, c)"
| "deps_loop os_fdate armod_date (f # fs) old newest c =
     (case m_fdate os_fdate f c of
        None \<Rightarrow> Inl Fault
      | Some (date, c) \<Rightarrow>
          if date = 0 then deps_loop os_fdate armod_date fs old newest c
          else if armod_date < date then deps_loop os_fdate armod_date fs True (if date > newest then date else newest) c
          else deps_loop os_fdate armod_date fs old newest c)"

text \<open>\<open>up_to_date\<close>: the first result is \<open>YES\<close>, the second is \<open>useobj\<close>.\<close>

definition up_to_date :: "(byte list \<Rightarrow> int) \<Rightarrow> mlb \<Rightarrow> byte list \<Rightarrow> byte list \<Rightarrow> byte list list \<Rightarrow> fdcache \<Rightarrow> (bool \<times> bool \<times> fdcache) mk" where
  "up_to_date os_fdate lib module lname dflist c =
     bindm (h_ardate lname lib) (\<lambda>armod_date.
     let date = os_fdate module in
     if date = 0 then Inr (True, False, c)
     else
       bindm (deps_loop os_fdate armod_date dflist (armod_date < date) (if armod_date < date then date else armod_date) c)
         (\<lambda>(old, newest, c).
         if \<not> old then Inr (True, False, c)
         else bindm (makeobj module) (\<lambda>obj. Inr (False, newest \<le> os_fdate obj, c))))"

subsection \<open>A module of a library\<close>

text \<open>
  The state of \<open>scan_modlist\<close>: the input with the symbols, the special files (whose strings are in the string buffer
  of the symbols), the index of the library, and the two lists of files.
\<close>

record modlist =
  ml_run :: mkrun
  ml_sf :: sfdb
  ml_lib :: mlb
  ml_flist :: "nat list"
  ml_rflist :: "nat list"

definition ml_strs :: "modlist \<Rightarrow> mem" where
  "ml_strs ml = sbuf (tk_syms (run_tok (ml_run ml)))"

definition ml_db :: "modlist \<Rightarrow> sfdb" where
  "ml_db ml = (ml_sf ml)\<lparr>sf_strs := tk_syms (run_tok (ml_run ml))\<rparr>"

definition str_of :: "mem \<Rightarrow> nat \<Rightarrow> byte list mk" where
  "str_of buf p = (case str_at buf p of None \<Rightarrow> Inl Fault | Some s \<Rightarrow> Inr s)"

fun strs_of :: "mem \<Rightarrow> nat list \<Rightarrow> byte list list mk" where
  "strs_of buf [] = Inr []"
| "strs_of buf (p # ps) = bindm (str_of buf p) (\<lambda>s. bindm (strs_of buf ps) (\<lambda>ss. Inr (s # ss)))"

definition ml_putstr :: "byte list \<Rightarrow> modlist \<Rightarrow> (nat \<times> modlist) mk" where
  "ml_putstr s ml =
     bindm (putstr s (tk_syms (run_tok (ml_run ml)))) (\<lambda>(p, syms).
     Inr (p, ml\<lparr>ml_run := (ml_run ml)\<lparr>run_tok := (run_tok (ml_run ml))\<lparr>tk_syms := syms\<rparr>\<rparr>\<rparr>))"

text \<open>The special file for a module: its name and the command for its object, which is empty if there is none.\<close>

definition special_file :: "modlist \<Rightarrow> nat option \<Rightarrow> byte list \<Rightarrow> (byte list \<times> byte list) mk option" where
  "special_file ml sflist modname =
     bindo (sf_filesearch (ml_db ml) sflist modname) (\<lambda>sfp.
     case sfp of
       None \<Rightarrow> Some (Inr (modname, []))
     | Some i \<Rightarrow>
         returno (bindm (str_of (ml_strs ml) (sf_sfname (sf_files (ml_sf ml) ! i))) (\<lambda>s.
           bindm (case sf_mkobj (sf_files (ml_sf ml) ! i) of None \<Rightarrow> Inr [] | Some r \<Rightarrow> str_of (ml_strs ml) r) (\<lambda>mk.
           if SZ_PATHNAME + 1 \<le> length s then Inl Fault else Inr (s, mk)))))"

text \<open>
  A file of a remote directory is checked out; the truth value tells that this was done for another module before.
\<close>

definition check_out :: "byte list \<Rightarrow> byte list \<Rightarrow> modlist \<Rightarrow> (bool \<times> modlist) mk" where
  "check_out dname fname ml =
     (if dname = [] then Inr (False, ml)
      else
        bindm (strs_of (ml_strs ml) (ml_rflist ml)) (\<lambda>names.
        if fname \<in> set names then Inr (True, ml)
        else if MAX_MODULES \<le> length (ml_rflist ml) then Inl Fault
        else
          bindm (ml_putstr fname ml) (\<lambda>(p, ml).
          Inr (False, ml\<lparr>ml_rflist := ml_rflist ml @ [p],
                          ml_run := (ml_run ml)\<lparr>requests := requests (ml_run ml) @ [H_outcheck fname dname]\<rparr>\<rparr>))))"

text \<open>The command for the object is pushed back into the input, to be read before what follows.\<close>

definition push_mkobj :: "pushback \<Rightarrow> byte list \<Rightarrow> modlist \<Rightarrow> modlist mk" where
  "push_mkobj junk mkobj ml =
     bindm (m_pushstr junk [10] (run_cx (ml_run ml))) (\<lambda>cx.
     bindm (m_pushstr junk mkobj cx) (\<lambda>cx. Inr (ml\<lparr>ml_run := set_cx cx (ml_run ml)\<rparr>)))"

text \<open>The file is entered in the list; the test for the end of the list comes behind the store.\<close>

definition add_file :: "byte list \<Rightarrow> modlist \<Rightarrow> modlist mk" where
  "add_file fname ml =
     bindm (ml_putstr fname ml) (\<lambda>(p, ml).
     if MAX_MODULES \<le> length (ml_flist ml) then Inl Fault else Inr (ml\<lparr>ml_flist := ml_flist ml @ [p]\<rparr>))"

text \<open>The branch of \<open>scan_modlist\<close> for the name of a module of a library.\<close>

definition scan_module :: "tokenv \<Rightarrow> nat option \<Rightarrow> byte list \<Rightarrow> modlist \<Rightarrow> (byte list option \<times> modlist) mk option" where
  "scan_module E sflist modname ml =
     bindo (special_file ml sflist modname) (\<lambda>(srcname, mkobj).
     bindo (returno (parse_fname None srcname)) (\<lambda>(dname, fname).
     bindo (get_dependency_list E (ml_run ml)) (\<lambda>r.
     case r of
       Aside d st \<Rightarrow> Some (Inr (Some d, ml\<lparr>ml_run := st\<rparr>))
     | Result ds st \<Rightarrow>
         let ml = ml\<lparr>ml_run := st\<rparr> in
         returno (bindm (strs_of (ml_strs ml) ds) (\<lambda>dflist.
           bindm (up_to_date (te_fdate E) (ml_lib ml) srcname fname dflist (tk_fd (run_tok st))) (\<lambda>(yes, useobj, c).
           let ml = ml\<lparr>ml_run := st\<lparr>run_tok := (run_tok st)\<lparr>tk_fd := c\<rparr>\<rparr>\<rparr> in
           if yes then Inr (None, ml)
           else
             bindm (check_out dname fname ml) (\<lambda>(dup, ml).
             if dup then Inr (None, ml)
             else
               bindm (if mkobj \<noteq> [] \<and> \<not> useobj then push_mkobj (te_junk E) mkobj ml else Inr ml) (\<lambda>ml.
               bindm (if useobj \<or> mkobj \<noteq> [] then makeobj fname else Inr fname) (\<lambda>name.
               bindm (add_file name ml) (\<lambda>ml. Inr (None, ml)))))))))))"

end
