(* ===== verification/Mk_Modlist.thy ===== *)
theory Mk_Modlist
  imports Mk_Module
begin

text \<open>
  What \<open>mkpkg\<close> does with a line of a module list: the names, the dependencies that are read from the input, the
  comparison of the dates, and the entry in the list of files.
\<close>

subsection \<open>Names\<close>

abbreviation is_delim :: "byte \<Rightarrow> bool" where "is_delim c \<equiv> c = 36 \<or> c = 47"

lemma fname_loop_plain:
  assumes "92 \<notin> set ip" "bef \<noteq> Some 92" "bef = None \<Longrightarrow> ip \<noteq> [] \<Longrightarrow> \<not> is_delim (ip ! 0)" "length out + length ip < sz"
  shows "\<exists>delim'. fname_loop sz bef ip i out delim = Inr (out @ ip, delim')
    \<and> (if list_ex is_delim ip then \<exists>k < length ip. delim' = Some (i + k) \<and> is_delim (ip ! k) \<and> \<not> list_ex is_delim (drop (k + 1) ip)
       else delim' = delim)"
  using assms
proof (induction ip arbitrary: bef i out delim)
  case (Cons c ip)
  have pr: "92 \<notin> set ip" "Some c \<noteq> Some 92" "length (out @ [c]) + length ip < sz" using Cons.prems by auto
  let ?d = "if is_delim c then Some i else delim"
  have step: "fname_loop sz bef (c # ip) i out delim = fname_loop sz (Some c) ip (i + 1) (out @ [c]) ?d"
    using Cons.prems by (cases bef) auto
  obtain delim' where d: "fname_loop sz (Some c) ip (i + 1) (out @ [c]) ?d = Inr ((out @ [c]) @ ip, delim')"
    "if list_ex is_delim ip then \<exists>k < length ip. delim' = Some (i + 1 + k) \<and> is_delim (ip ! k) \<and> \<not> list_ex is_delim (drop (k + 1) ip)
     else delim' = ?d"
    using Cons.IH [OF pr(1,2) _ pr(3), of "i + 1" ?d] by auto
  show ?case
  proof (cases "list_ex is_delim ip")
    case True
    then obtain k where "k < length ip" "delim' = Some (i + 1 + k)" "is_delim (ip ! k)" "\<not> list_ex is_delim (drop (k + 1) ip)" using d(2) by auto
    then have "Suc k < length (c # ip) \<and> delim' = Some (i + Suc k) \<and> is_delim ((c # ip) ! Suc k) \<and> \<not> list_ex is_delim (drop (Suc k + 1) (c # ip))" by simp
    then show ?thesis using step d(1) True by (intro exI [of _ delim']) (auto simp del: drop_Suc_Cons nth_Cons_Suc)
  next
    case False
    then have e: "delim' = ?d" using d(2) by simp
    show ?thesis
    proof (cases "is_delim c")
      case True
      then have "0 < length (c # ip) \<and> delim' = Some (i + 0) \<and> is_delim ((c # ip) ! 0) \<and> \<not> list_ex is_delim (drop (0 + 1) (c # ip))"
        using e False by simp
      then show ?thesis using step d(1) True by (intro exI [of _ delim']) (auto simp del: drop_Suc_Cons)
    qed (use step d(1) e False in auto)
  qed
qed simp

text \<open>
  A path without backslashes is cut behind its last dollar sign or slash: the two parts together are the path, and there
  is none of them in the file name.
\<close>

lemma parse_fname_split:
  assumes "92 \<notin> set path" "length path \<le> SZ_FNAME" "bef \<noteq> Some 92" "bef = None \<Longrightarrow> path \<noteq> [] \<Longrightarrow> \<not> is_delim (path ! 0)"
  shows "\<exists>dname fname. parse_fname bef path = Inr (dname, fname) \<and> dname @ fname = path \<and> \<not> list_ex is_delim fname
    \<and> (if list_ex is_delim path then is_delim (last dname) else dname = [])"
proof -
  have len: "length ([] :: byte list) + length path < SZ_FNAME + 1" using assms(2) by simp
  obtain delim where d0: "fname_loop (SZ_FNAME + 1) bef path 0 [] None = Inr ([] @ path, delim)"
    "if list_ex is_delim path then \<exists>k < length path. delim = Some (0 + k) \<and> is_delim (path ! k) \<and> \<not> list_ex is_delim (drop (k + 1) path)
     else delim = None"
    using fname_loop_plain [OF assms(1,3,4) len] by blast
  note d = d0(1) [unfolded append_Nil] d0(2) [unfolded add_0]
  show ?thesis
  proof (cases "list_ex is_delim path")
    case True
    then obtain k where k: "k < length path" "delim = Some k" "is_delim (path ! k)" "\<not> list_ex is_delim (drop (k + 1) path)" using d(2) by auto
    have l: "last (take (k + 1) path) = path ! k" using k(1) by (simp add: take_Suc_conv_app_nth)
    have "k + 1 \<le> SZ_FNAME" using k(1) assms(2) by simp
    then have "parse_fname bef path = Inr (take (k + 1) path, drop (k + 1) path)"
      unfolding parse_fname_def d(1) using k(1,2) assms(2) by simp
    then show ?thesis using k l True by (intro exI [of _ "take (k + 1) path"] exI [of _ "drop (k + 1) path"]) simp
  next
    case False
    then show ?thesis unfolding parse_fname_def d(1) using d(2) by auto
  qed
qed

lemma subdir_loop_plain:
  "\<not> list_ex is_delim ip \<Longrightarrow> length out + length ip < SZ_FNAME + 1 \<Longrightarrow> subdir_loop bef path ip out = Inr (out @ ip, [])"
  by (induction ip arbitrary: out) auto

lemma subdir_loop_delim:
  "list_ex is_delim ip \<Longrightarrow> length out + length ip < SZ_FNAME + 1 \<Longrightarrow> 92 \<notin> set (out @ ip) \<Longrightarrow> out \<noteq> [] \<or> \<not> is_delim (ip ! 0) \<Longrightarrow>
     subdir_loop bef path ip out = parse_fname bef path"
proof (induction ip arbitrary: out)
  case (Cons c ip)
  show ?case
  proof (cases "is_delim c")
    case True
    then have "out \<noteq> []" using Cons.prems(4) by auto
    moreover have "last out \<noteq> 92" using Cons.prems(3) last_in_set [OF calculation] by (metis UnCI set_append)
    ultimately show ?thesis using True Cons.prems(2) by auto
  next
    case False
    then have "subdir_loop bef path ip (out @ [c]) = parse_fname bef path" using Cons.prems by (intro Cons.IH) auto
    then show ?thesis using False Cons.prems(2) by simp
  qed
qed simp

text \<open>
  C17: a module reference \<open>module@path\<close> without backslashes.  A path that is a simple name is the directory; any other
  is cut behind its last dollar sign or slash into the directory and the name of the \<open>mkpkg\<close> file.
\<close>

theorem parse_modname_correct:
  assumes "m \<noteq> []" "64 \<notin> set m" "\<not> isspace (sint (m ! 0))" "length m \<le> SZ_FNAME" "92 \<notin> set path" "length path \<le> SZ_FNAME"
    "path \<noteq> [] \<Longrightarrow> \<not> is_delim (path ! 0)"
  shows "\<exists>subdir fname. parse_modname (m @ 64 # path) = Inr (m, subdir, fname) \<and> subdir @ fname = path
    \<and> (if list_ex is_delim path then is_delim (last subdir) \<and> \<not> list_ex is_delim fname else fname = [])"
proof -
  obtain c m' where m: "m = c # m'" using assms(1) by (cases m) auto
  have sp: "dropWhile (\<lambda>c. isspace (sint c)) (m @ 64 # path) = m @ 64 # path" using assms(3) m by simp
  have tw: "takeWhile (\<lambda>c. c \<noteq> 64) (m @ 64 # path) = m" "dropWhile (\<lambda>c. c \<noteq> 64) (m @ 64 # path) = 64 # path"
    using assms(2) by (auto simp: takeWhile_append dropWhile_append)
  let ?n = "length m + 1"
  have bef: "(m @ 64 # path) ! length m = 64" by simp
  have pm: "parse_modname (m @ 64 # path) = bindm (subdir_loop (Some 64) path path []) (\<lambda>(subdir, fname). Inr (m, subdir, fname))"
    using assms(1,4) by (simp add: parse_modname_def sp tw bef)
  have len: "length ([] :: byte list) + length path < SZ_FNAME + 1" using assms(6) by simp
  show ?thesis
  proof (cases "list_ex is_delim path")
    case True
    have ne: "Some (64 :: byte) \<noteq> Some 92" "Some (64 :: byte) \<noteq> None" by simp_all
    obtain d f where f: "parse_fname (Some 64) path = Inr (d, f)" "d @ f = path" "\<not> list_ex is_delim f" "is_delim (last d)"
      using parse_fname_split [OF assms(5,6) ne(1)] True by auto
    have "path \<noteq> []" using True by auto
    then have "subdir_loop (Some 64) path path [] = Inr (d, f)" using subdir_loop_delim [OF True len, of "Some 64" path] assms(5,7) f(1) by simp
    then show ?thesis using pm f True by simp
  next
    case False
    then show ?thesis using pm subdir_loop_plain [OF False len] by simp
  qed
qed

subsection \<open>Dates\<close>

text \<open>The dates that count: those of the dependencies that exist.\<close>

definition dep_dates :: "(byte list \<Rightarrow> int) \<Rightarrow> byte list list \<Rightarrow> int list" where
  "dep_dates os_fdate fs = filter (\<lambda>d. d \<noteq> 0) (map os_fdate fs)"

lemma deps_loop_correct:
  assumes "fd_good os_fdate c" "ar \<le> newest"
  shows "\<exists>c'. deps_loop os_fdate ar fs old newest c
      = Inr (old \<or> (\<exists>d \<in> set (dep_dates os_fdate fs). ar < d), fold max (dep_dates os_fdate fs) newest, c') \<and> fd_good os_fdate c'"
  using assms
proof (induction fs arbitrary: old newest c)
  case Nil
  then show ?case by (simp add: dep_dates_def)
next
  case (Cons f fs)
  obtain c1 where c1: "m_fdate os_fdate f c = Some (os_fdate f, c1)" "fd_good os_fdate c1" using m_fdate_good [OF Cons.prems(1)] by blast
  let ?d = "os_fdate f"
  consider "?d = 0" | "?d \<noteq> 0" "ar < ?d" | "?d \<noteq> 0" "\<not> ar < ?d" by blast
  then show ?case
  proof cases
    case 1
    then show ?thesis using Cons.IH [OF c1(2) Cons.prems(2), of old] c1(1) by (simp add: dep_dates_def)
  next
    case 2
    have "max ?d newest = (if ?d > newest then ?d else newest)" by simp
    then show ?thesis using 2 Cons.IH [OF c1(2), of "max ?d newest" True] c1(1) Cons.prems(2)
      by (simp add: dep_dates_def max.coboundedI2)
  next
    case 3
    have "max ?d newest = newest" using 3 Cons.prems(2) by simp
    then show ?thesis using 3 Cons.IH [OF c1(2) Cons.prems(2), of old] c1(1) by (simp add: dep_dates_def)
  qed
qed

lemma fold_max_le: "fold max ds (n :: int) \<le> x \<longleftrightarrow> n \<le> x \<and> (\<forall>d \<in> set ds. d \<le> x)"
  by (induction ds arbitrary: n) auto

text \<open>
  A module is up to date, or its source is missing, exactly if its entry in the library is not older than the
  source and the dependencies that exist; and if not, the object file is used exactly if it is not older than any of
  them and the entry.
\<close>

lemma up_to_date_correct:
  assumes "fd_good os_fdate c" "mlb_rep lib m" "makeobj lname = Inr k" "mod_key k m" "makeobj module = Inr obj"
    "dates = os_fdate module # dep_dates os_fdate dflist" "ar = (case m k of None \<Rightarrow> 0 | Some v \<Rightarrow> v)"
  shows "\<exists>yes useobj c'. up_to_date os_fdate lib module lname dflist c = Inr (yes, useobj, c') \<and> fd_good os_fdate c'
    \<and> (yes \<longleftrightarrow> os_fdate module = 0 \<or> (\<forall>d \<in> set dates. d \<le> ar))
    \<and> (useobj \<longleftrightarrow> \<not> yes \<and> (\<forall>d \<in> set (ar # dates). d \<le> os_fdate obj))"
proof -
  let ?date = "os_fdate module"
  have ar: "h_ardate lname lib = Inr ar" using mlb_getdate_correct [OF assms(2,4)] assms(3,7) by (simp add: h_ardate_def)
  let ?n = "if ar < ?date then ?date else ar"
  have n: "ar \<le> ?n" "?n = max ar ?date" by auto
  obtain c' where c': "deps_loop os_fdate ar dflist (ar < ?date) ?n c
      = Inr (ar < ?date \<or> (\<exists>d \<in> set (dep_dates os_fdate dflist). ar < d), fold max (dep_dates os_fdate dflist) ?n, c')" "fd_good os_fdate c'"
    using deps_loop_correct [OF assms(1) n(1)] by blast
  have old: "(ar < ?date \<or> (\<exists>d \<in> set (dep_dates os_fdate dflist). ar < d)) \<longleftrightarrow> \<not> (\<forall>d \<in> set dates. d \<le> ar)"
    unfolding assms(6) by (auto simp: not_le)
  have use: "fold max (dep_dates os_fdate dflist) ?n \<le> os_fdate obj \<longleftrightarrow> (\<forall>d \<in> set (ar # dates). d \<le> os_fdate obj)"
    unfolding assms(6) fold_max_le n(2) by auto
  have utd: "up_to_date os_fdate lib module lname dflist c =
      (if ?date = 0 then Inr (True, False, c)
       else if \<forall>d \<in> set dates. d \<le> ar then Inr (True, False, c')
       else Inr (False, \<forall>d \<in> set (ar # dates). d \<le> os_fdate obj, c'))"
    unfolding up_to_date_def ar bindm_simps Let_def c'(1) prod.case old use assms(5) by simp
  show ?thesis using assms(1) c'(2) unfolding utd by auto
qed

subsection \<open>Words in the input\<close>

definition word_char :: "byte \<Rightarrow> bool" where
  "word_char c \<longleftrightarrow> plain_char (uint c) \<and> uint c \<noteq> 32 \<and> uint c \<noteq> 0"

text \<open>A word that \<open>gettok\<close> takes for a file name without quotes.\<close>

definition file_word :: "byte list \<Rightarrow> bool" where
  "file_word w \<longleftrightarrow> w \<noteq> [] \<and> list_all word_char w \<and> uint (w ! 0) \<notin> {33, 34, 35, 39, 58, 59, 60} \<and> length w < SZ_FNAME"

text \<open>A word up to a blank, which is taken, or to a line feed, which stays.\<close>

lemma getstr_loop_word:
  assumes "cx_strs cx ss" "unread cx ss = map uint w @ e # p" "e \<in> {10, 32}" "list_all word_char w"
    "length w < n" "length out + length w < sz"
  shows "\<exists>cx' ss'. getstr_loop M junk sz 32 n out cx = Some (Inr (out @ w, cx')) \<and> cx_strs cx' ss'
    \<and> unread cx' ss' = (if e = 32 then p else 10 # p)"
  using assms
proof (induction w arbitrary: cx ss n out)
  case Nil
  then obtain k where n: "n = Suc k" by (cases n) auto
  have "unread cx ss = e # p" "e \<notin> {9, 36}" using Nil.prems(2,3) by auto
  then obtain cx' ss' where g: "m_getc M junk cx = Some (Inr (e, cx'))" "cx_strs cx' ss'" "unread cx' ss' = p" "pbchar cx' = 0"
    using m_getc_fresh [OF Nil.prems(1)] by metis
  show ?case
  proof (cases "e = 32")
    case True
    then show ?thesis using g by (auto simp: n)
  next
    case False
    then have e: "e = 10" using Nil.prems(3) by simp
    obtain cx2 where "m_ungetc junk 10 cx' = Inr cx2" "cx_strs cx2 ss'" "unread cx2 ss' = 10 # p"
      using m_ungetc_fresh [OF g(2,4), of 10 junk] g(3) by auto
    then show ?thesis using g(1) e Nil.prems(6) by (auto simp: n returno_def)
  qed
next
  case (Cons c w)
  obtain k where n: "n = Suc k" using Cons.prems(5) by (cases n) auto
  have c: "plain_char (uint c)" "uint c \<noteq> 32" using Cons.prems(4) by (simp_all add: word_char_def)
  have u: "unread cx ss = uint c # map uint w @ e # p" using Cons.prems(2) by simp
  obtain cx1 ss1 where g: "m_getc M junk cx = Some (Inr (uint c, cx1))" "cx_strs cx1 ss1" "unread cx1 ss1 = map uint w @ e # p"
    by (rule m_getc_char [OF Cons.prems(1) u]) (use c in \<open>auto simp: plain_char_def\<close>)
  have "getstr_loop M junk sz 32 n out cx = getstr_loop M junk sz 32 k (out @ [c]) cx1"
    using c g(1) Cons.prems(6) by (simp add: n returno_def plain_char_def put_out_def)
  then show ?case using Cons.IH [OF g(2,3), of k "out @ [c]"] Cons.prems n by simp
qed

lemma word_no_zero: "list_all word_char w \<Longrightarrow> 0 \<notin> set w"
  by (auto simp: list_all_iff word_char_def)

lemma gettok_word:
  assumes "cx_strs (run_cx st) ss" "unread (run_cx st) ss = replicate n 32 @ map uint w @ e # p" "e \<in> {10, 32}" "file_word w"
    "cond_state st = Inr s" "s \<noteq> STOP" "junk_ok (te_junk E)"
  shows "\<exists>cx ss'. gettok E (SZ_FNAME + 1) (int SZ_FNAME) st = Some (Inr (Got TOK_FNAME w (set_cx cx st))) \<and> cx_strs cx ss'
    \<and> unread cx ss' = (if e = 32 then p else 10 # p)"
proof -
  let ?M = "run_env E st" and ?j = "te_junk E"
  obtain c v where w: "w = c # v" using assms(4) by (cases w) (auto simp: file_word_def)
  have wc: "list_all word_char w" "length w < SZ_FNAME" "uint c \<notin> {33, 34, 35, 39, 58, 59, 60}" using assms(4) w by (auto simp: file_word_def)
  then have c: "plain_char (uint c)" "uint c \<noteq> 32" "uint c \<noteq> 0" using w by (simp_all add: word_char_def)
  have u: "unread (run_cx st) ss = replicate n 32 @ uint c # map uint v @ e # p" using assms(2) w by simp
  have nb: "uint c \<notin> {9, 32, 36}" using c by (auto simp: plain_char_def)
  obtain cx1 ss1 where 1: "skip_blanks ?M ?j (run_cx st) = Some (Inr (uint c, cx1))" "cx_strs cx1 ss1" "unread cx1 ss1 = map uint v @ e # p" "pbchar cx1 = 0"
    using skip_blanks_fresh [OF assms(1) u nb] by blast
  obtain cx2 where 2: "m_ungetc ?j (uint c) cx1 = Inr cx2" "cx_strs cx2 ss1" "unread cx2 ss1 = map uint w @ e # p"
    using m_ungetc_fresh [OF 1(2,4) c(3), of ?j] 1(3) w by auto
  have len: "length w < nat (int SZ_FNAME)" "length ([] :: byte list) + length w < SZ_FNAME + 1" using wc(2) by simp_all
  obtain cx3 ss3 where 3: "getstr_loop ?M ?j (SZ_FNAME + 1) 32 (nat (int SZ_FNAME)) [] cx2 = Some (Inr (w, cx3))" "cx_strs cx3 ss3"
    "unread cx3 ss3 = (if e = 32 then p else 10 # p)"
    using getstr_loop_word [OF 2(2,3) assms(3) wc(1) len, of ?M ?j] by auto
  have g: "getstr ?M ?j (SZ_FNAME + 1) (int SZ_FNAME) 32 cx2 = Some (Inr (w, cx3))"
    unfolding getstr_def 3(1) using wc(2) by simp
  have "cond_state (set_cx cx3 st) = Inr s" using assms(5) cond_state_read [OF just_reads_cx] by simp
  then have f: "file_token E (SZ_FNAME + 1) (int SZ_FNAME) 32 cx2 st = Some (Inr (Inl (Got TOK_FNAME w (set_cx cx3 st))))"
    unfolding file_token_def g using assms(6) cstr_nz [OF word_no_zero [OF wc(1)]] by (simp add: give_def returno_def)
  have "gettok_turn E (SZ_FNAME + 1) (int SZ_FNAME) st = file_token E (SZ_FNAME + 1) (int SZ_FNAME) 32 cx2 st"
    unfolding gettok_turn_def 1(1) using c wc(3) 2(1) by (simp add: plain_char_def returno_def)
  then have "gettok E (SZ_FNAME + 1) (int SZ_FNAME) st = Some (Inr (Got TOK_FNAME w (set_cx cx3 st)))"
    unfolding gettok_def using f by (subst mk_loop.simps) simp
  with 3(2,3) show ?thesis by blast
qed

lemma gettok_newline:
  assumes "cx_strs (run_cx st) ss" "unread (run_cx st) ss = replicate n 32 @ 10 # p" "cond_state st = Inr s" "s \<noteq> STOP"
  shows "\<exists>cx ss'. gettok E sz maxch st = Some (Inr (Got TOK_NEWLINE [10] (set_cx cx st))) \<and> cx_strs cx ss' \<and> unread cx ss' = p"
proof -
  obtain cx1 ss1 where 1: "skip_blanks (run_env E st) (te_junk E) (run_cx st) = Some (Inr (10, cx1))" "cx_strs cx1 ss1" "unread cx1 ss1 = p"
    using skip_blanks_fresh [OF assms(1,2)] by fastforce
  have "cond_state (set_cx cx1 st) = Inr s" using assms(3) cond_state_read [OF just_reads_cx] by simp
  then have "gettok_turn E sz maxch st = Some (Inr (Inl (Got TOK_NEWLINE [10] (set_cx cx1 st))))"
    unfolding gettok_turn_def 1(1) using assms(4) by (simp add: give_def returno_def)
  then have "gettok E sz maxch st = Some (Inr (Got TOK_NEWLINE [10] (set_cx cx1 st)))"
    unfolding gettok_def by (subst mk_loop.simps) simp
  with 1(2,3) show ?thesis by blast
qed

subsection \<open>The end of the input\<close>

lemma gettok_end:
  assumes "cx_strs (run_cx st) ss" "unread (run_cx st) ss = []"
  shows "\<exists>cx ss'. gettok E sz maxch st = Some (Inr (Got TOK_END [] (set_cx cx st))) \<and> cx_strs cx ss' \<and> unread cx ss' = []"
proof -
  obtain cx ss' where g: "m_getc (run_env E st) (te_junk E) (run_cx st) = Some (Inr (EOF, cx))" "cx_strs cx ss'" "unread cx ss' = []"
    using m_getc_end [OF assms] by blast
  have "skip_blanks (run_env E st) (te_junk E) (run_cx st) = Some (Inr (EOF, cx))"
    unfolding skip_blanks_def using g(1) by (subst mk_loop.simps) simp
  then have "gettok_turn E sz maxch st = Some (Inr (Inl (Got TOK_END [] (set_cx cx st))))" by (simp add: gettok_turn_def)
  then have "gettok E sz maxch st = Some (Inr (Got TOK_END [] (set_cx cx st)))"
    unfolding gettok_def by (subst mk_loop.simps) simp
  with g show ?thesis by blast
qed

text \<open>
  C18: when a module list ends without a line feed, the reading of the dependencies of its last module never ends:
  \<open>gettok\<close> returns \<open>TOK_END\<close> for ever, and the loop only prints a warning.
\<close>

theorem dependency_list_diverges:
  assumes "cx_strs (run_cx st) ss" "unread (run_cx st) ss = []"
  shows "get_dependency_list E st = None"
proof -
  have "mk_loop (dep_turn E) ([], st) = None"
  proof (rule mk_loop_diverges [where I = "\<lambda>(ds, st). \<exists>ss. cx_strs (run_cx st) ss \<and> unread (run_cx st) ss = []"])
    fix s :: "nat list \<times> mkrun" assume "(\<lambda>(ds, st). \<exists>ss. cx_strs (run_cx st) ss \<and> unread (run_cx st) ss = []) s"
    then obtain ds st ss where s: "s = (ds, st)" "cx_strs (run_cx st) ss" "unread (run_cx st) ss = []" by (cases s) auto
    obtain cx ss' where "gettok E (SZ_FNAME + 1) (int SZ_FNAME) st = Some (Inr (Got TOK_END [] (set_cx cx st)))" "cx_strs cx ss'" "unread cx ss' = []"
      using gettok_end [OF s(2,3)] by blast
    then have "dep_turn E s = Some (Inr (Inr (ds, set_cx cx st)))" "run_cx (set_cx cx st) = cx"
      by (simp_all add: s(1) dep_turn_def) (simp add: run_cx_def set_cx_def)
    then show "\<exists>s'. dep_turn E s = Some (Inr (Inr s')) \<and> (\<lambda>(ds, st). \<exists>ss. cx_strs (run_cx st) ss \<and> unread (run_cx st) ss = []) s'"
      using \<open>cx_strs cx ss'\<close> \<open>unread cx ss' = []\<close> by auto
  qed (use assms in auto)
  then show ?thesis by (simp add: get_dependency_list_def Let_def)
qed

subsection \<open>The list of dependencies\<close>

text \<open>The line behind the name of a module: words with a blank between them, and a line feed.\<close>

fun dep_line :: "byte list list \<Rightarrow> int list \<Rightarrow> int list" where
  "dep_line [] p = 10 # p"
| "dep_line (w # ws) p = map uint w @ (if ws = [] then 10 # p else 32 # dep_line ws p)"

definition words_room :: "byte list list \<Rightarrow> nat" where
  "words_room ws = sum_list (map (\<lambda>w. length w + 1) ws)"

lemma strs_of_at: "list_all2 (sym_at buf hi) ps ws \<Longrightarrow> strs_of buf ps = Inr ws"
  by (induction rule: list_all2_induct) (simp_all add: str_of_def sym_at_str)

definition set_syms :: "mksyms \<Rightarrow> mkrun \<Rightarrow> mkrun" where
  "set_syms t st = st\<lparr>run_tok := (run_tok st)\<lparr>tk_syms := t\<rparr>\<rparr>"

lemma set_syms_simps [simp]:
  "run_cx (set_syms t st) = run_cx st" "cond_state (set_syms t st) = cond_state st" "tk_syms (run_tok (set_syms t st)) = t"
  "set_syms t (set_syms t' st) = set_syms t st" "set_cx cx (set_syms t st) = set_syms t (set_cx cx st)"
  by (simp_all add: set_syms_def run_cx_def cond_state_def if_get_def set_cx_def)

lemma set_cx_simps [simp]:
  "run_cx (set_cx cx st) = cx" "cond_state (set_cx cx st) = cond_state st" "tk_syms (run_tok (set_cx cx st)) = tk_syms (run_tok st)"
  "set_cx cx (set_cx cx' st) = set_cx cx st"
  by (simp_all add: set_cx_def run_cx_def cond_state_def if_get_def)

lemma dep_turn_word:
  assumes "gettok E (SZ_FNAME + 1) (int SZ_FNAME) st = Some (Inr (Got TOK_FNAME w st'))" "length ds < MAX_DEPFILES + 1"
    "putstr w (tk_syms (run_tok st')) = Inr (q, t)"
  shows "mk_loop (dep_turn E) (ds, st) = mk_loop (dep_turn E) (ds @ [q], set_syms t st')"
proof -
  have "dep_turn E (ds, st) = Some (Inr (Inr (ds @ [q], set_syms t st')))"
    unfolding dep_turn_def prod.case assms(1) using assms(2,3) by (simp add: returno_def set_syms_def)
  then show ?thesis by (subst mk_loop.simps) simp
qed

lemma dep_loop_words:
  assumes "cx_strs (run_cx st) ss" "unread (run_cx st) ss = replicate n 32 @ dep_line ws p" "list_all file_word ws"
    "cond_state st = Inr s" "s \<noteq> STOP" "junk_ok (te_junk E)" "length ds + length ws \<le> MAX_DEPFILES"
    "length (sbuf (tk_syms (run_tok st))) = SZ_SBUF" "cp (tk_syms (run_tok st)) + words_room ws \<le> SZ_SBUF"
    "list_all2 (sym_at (sbuf (tk_syms (run_tok st))) (cp (tk_syms (run_tok st)))) ds vs"
  shows "\<exists>ps cx ss' t. mk_loop (dep_turn E) (ds, st) = Some (Inr (Result (ds @ ps) (set_syms t (set_cx cx st))))
    \<and> cx_strs cx ss' \<and> unread cx ss' = p \<and> strs_ext (tk_syms (run_tok st)) t \<and> list_all2 (sym_at (sbuf t) (cp t)) (ds @ ps) (vs @ ws)"
  using assms
proof (induction ws arbitrary: st ss n ds vs)
  case Nil
  have u: "unread (run_cx st) ss = replicate n 32 @ 10 # p" using Nil.prems(2) by simp
  obtain cx ss' where g: "gettok E (SZ_FNAME + 1) (int SZ_FNAME) st = Some (Inr (Got TOK_NEWLINE [10] (set_cx cx st)))" "cx_strs cx ss'" "unread cx ss' = p"
    using gettok_newline [OF Nil.prems(1) u Nil.prems(4,5)] by blast
  have "dep_turn E (ds, st) = Some (Inr (Inl (Result ds (set_cx cx st))))"
    unfolding dep_turn_def prod.case g(1) by simp
  then have "mk_loop (dep_turn E) (ds, st) = Some (Inr (Result (ds @ []) (set_syms (tk_syms (run_tok st)) (set_cx cx st))))"
    by (subst mk_loop.simps) (simp add: set_syms_def set_cx_def)
  moreover have "strs_ext (tk_syms (run_tok st)) (tk_syms (run_tok st))" using Nil.prems(9) by (simp add: strs_ext_def words_room_def)
  ultimately show ?case using g(2,3) Nil.prems(10) by (metis append_Nil2)
next
  case (Cons w ws)
  let ?t0 = "tk_syms (run_tok st)" and ?e = "if ws = [] then 10 else 32 :: int"
  have fw: "file_word w" "list_all file_word ws" using Cons.prems(3) by simp_all
  have u: "unread (run_cx st) ss = replicate n 32 @ map uint w @ ?e # (if ws = [] then p else dep_line ws p)" using Cons.prems(2) by simp
  have e: "?e \<in> {10, 32}" by simp
  obtain cx1 ss1 where g: "gettok E (SZ_FNAME + 1) (int SZ_FNAME) st = Some (Inr (Got TOK_FNAME w (set_cx cx1 st)))" "cx_strs cx1 ss1"
    "unread cx1 ss1 = (if ?e = 32 then (if ws = [] then p else dep_line ws p) else 10 # (if ws = [] then p else dep_line ws p))"
    using gettok_word [OF Cons.prems(1) u e fw(1) Cons.prems(4-6)] by blast
  have z: "0 \<notin> set w" using fw(1) word_no_zero by (simp add: file_word_def)
  have room: "cp ?t0 + length w < SZ_SBUF" using Cons.prems(9) by (simp add: words_room_def)
  obtain q t1 where q: "putstr w ?t0 = Inr (q, t1)" "cp t1 = cp ?t0 + length w + 1" "length (sbuf t1) = SZ_SBUF"
    using putstr_ok [OF z Cons.prems(8) room] by blast
  note ext = putstr_ext [OF q(1) z Cons.prems(8)]
  have len: "length ds < MAX_DEPFILES + 1" using Cons.prems(7) by simp
  have step: "mk_loop (dep_turn E) (ds, st) = mk_loop (dep_turn E) (ds @ [q], set_syms t1 (set_cx cx1 st))"
    by (rule dep_turn_word [OF g(1) len]) (simp add: q(1))
  have ds: "list_all2 (sym_at (sbuf t1) (cp t1)) (ds @ [q]) (vs @ [w])"
    using list_all2_mono [OF Cons.prems(10) sym_at_ext [OF _ ext(2)]] ext(3) by (simp add: list_all2_appendI)
  have u1: "unread (run_cx (set_syms t1 (set_cx cx1 st))) ss1 = replicate 0 32 @ dep_line ws p" using g(3) by (cases "ws = []") simp_all
  have "\<exists>ps cx ss' t. mk_loop (dep_turn E) (ds @ [q], set_syms t1 (set_cx cx1 st))
      = Some (Inr (Result ((ds @ [q]) @ ps) (set_syms t (set_cx cx (set_syms t1 (set_cx cx1 st))))))
    \<and> cx_strs cx ss' \<and> unread cx ss' = p \<and> strs_ext (tk_syms (run_tok (set_syms t1 (set_cx cx1 st)))) t
    \<and> list_all2 (sym_at (sbuf t) (cp t)) ((ds @ [q]) @ ps) ((vs @ [w]) @ ws)"
    by (rule Cons.IH [OF _ u1 fw(2) _ Cons.prems(5,6)])
       (use g(2) Cons.prems(4,7,9) q(2,3) ds in \<open>auto simp: words_room_def\<close>)
  then obtain ps cx ss' t where r: "mk_loop (dep_turn E) (ds @ [q], set_syms t1 (set_cx cx1 st)) = Some (Inr (Result (ds @ q # ps) (set_syms t (set_cx cx st))))"
    "cx_strs cx ss'" "unread cx ss' = p" "strs_ext t1 t" "list_all2 (sym_at (sbuf t) (cp t)) (ds @ q # ps) (vs @ w # ws)"
    by auto
  show ?case using step r strs_ext_trans [OF ext(2) r(4)] by (intro exI [of _ "q # ps"] exI [of _ cx] exI [of _ ss'] exI [of _ t]) simp
qed

lemma get_dependency_list_words:
  assumes "cx_strs (run_cx st) ss" "unread (run_cx st) ss = replicate n 32 @ dep_line ws p" "list_all file_word ws"
    "cond_state st = Inr s" "s \<noteq> STOP" "junk_ok (te_junk E)" "length ws \<le> MAX_DEPFILES"
    "length (sbuf (tk_syms (run_tok st))) = SZ_SBUF" "cp (tk_syms (run_tok st)) + words_room ws \<le> SZ_SBUF"
  shows "\<exists>ps cx ss' t. get_dependency_list E st = Some (Inr (Result ps (set_syms t (set_cx cx st)))) \<and> strs_of (sbuf t) ps = Inr ws
    \<and> cx_strs cx ss' \<and> unread cx ss' = p \<and> cp t = cp (tk_syms (run_tok st)) \<and> length (sbuf t) = SZ_SBUF
    \<and> take (cp t) (sbuf t) = take (cp t) (sbuf (tk_syms (run_tok st)))"
proof -
  have len: "length ([] :: nat list) + length ws \<le> MAX_DEPFILES" using assms(7) by simp
  obtain ps cx ss' t where r: "mk_loop (dep_turn E) ([], st) = Some (Inr (Result ps (set_syms t (set_cx cx st))))"
    "cx_strs cx ss'" "unread cx ss' = p" "strs_ext (tk_syms (run_tok st)) t" "list_all2 (sym_at (sbuf t) (cp t)) ps ws"
    using dep_loop_words [OF assms(1-6) len assms(8,9), of "[]"] by auto
  have "length ps < MAX_DEPFILES + 1" using list_all2_lengthD [OF r(5)] assms(7) by simp
  then have "get_dependency_list E st = Some (Inr (Result ps (set_syms (t\<lparr>cp := cp (tk_syms (run_tok st))\<rparr>) (set_cx cx st))))"
    by (simp add: get_dependency_list_def Let_def r(1)) (simp add: set_syms_def)
  moreover have "strs_of (sbuf t) ps = Inr ws" by (rule strs_of_at [OF r(5)])
  ultimately show ?thesis using r(2-4) assms(8)
    by (intro exI [of _ ps] exI [of _ cx] exI [of _ ss'] exI [of _ "t\<lparr>cp := cp (tk_syms (run_tok st))\<rparr>"]) (simp add: strs_ext_def)
qed

subsection \<open>A module of a library\<close>

text \<open>The names in the list of files to be compiled.\<close>

definition flist_names :: "modlist \<Rightarrow> byte list list \<Rightarrow> bool" where
  "flist_names ml names \<longleftrightarrow>
     list_all2 (sym_at (ml_strs ml) (cp (tk_syms (run_tok (ml_run ml))))) (ml_flist ml) names"

text \<open>
  C16: a line of a module list: the name of a local module, without a special file, and the files that it depends on.
  Dates are compared as the code does it, and a library without the module counts as one with date 0.  If the
  source is missing (its date is 0) the module is not entered in the list of files.  If the source is there, the module
  is entered exactly if its entry in the library is older than the source or than one of the dependencies that exist:
  as its object file if that is at least as new as the entry, the source and all those dependencies, otherwise as its
  source.  (The comment of \<open>up_to_date\<close> has the dependencies compared with the source; the code, and this theorem,
  compare them with the entry.)  The input is left behind the line, and nothing is asked of the host.
\<close>

theorem scan_module_correct:
  assumes "cx_strs (run_cx (ml_run ml)) ss" "unread (run_cx (ml_run ml)) ss = replicate n 32 @ dep_line ws p" "list_all file_word ws"
    "cond_state (ml_run ml) = Inr PASS" "junk_ok (te_junk E)" "length ws \<le> MAX_DEPFILES"
    "length (ml_strs ml) = SZ_SBUF" "cp (tk_syms (run_tok (ml_run ml))) + words_room ws + SZ_FNAME + 3 \<le> SZ_SBUF"
    "sf_rep (ml_db ml) A" "sf_dirsearch dirname (ml_db ml) = Inr sflist" "sf_lookup A dirname modname = None"
    "92 \<notin> set modname" "0 \<notin> set modname" "length modname \<le> SZ_FNAME" "\<not> list_ex is_delim modname"
    "fd_good (te_fdate E) (tk_fd (run_tok (ml_run ml)))" "mlb_rep (ml_lib ml) m" "makeobj modname = Inr obj" "mod_key obj m" "0 \<notin> set obj"
    "flist_names ml names" "length names < MAX_MODULES"
    "dates = te_fdate E modname # dep_dates (te_fdate E) ws" "ar = (case m obj of None \<Rightarrow> 0 | Some v \<Rightarrow> v)"
    "yes \<longleftrightarrow> te_fdate E modname = 0 \<or> (\<forall>d \<in> set dates. d \<le> ar)"
  shows "\<exists>ml' ss'. scan_module E sflist modname ml = Some (Inr (None, ml'))
    \<and> flist_names ml' (if yes then names else names @ [if \<forall>d \<in> set (ar # dates). d \<le> te_fdate E obj then obj else modname])
    \<and> cx_strs (run_cx (ml_run ml')) ss' \<and> unread (run_cx (ml_run ml')) ss' = p
    \<and> fd_good (te_fdate E) (tk_fd (run_tok (ml_run ml'))) \<and> requests (ml_run ml') = requests (ml_run ml)"
proof -
  let ?st = "ml_run ml" and ?t0 = "tk_syms (run_tok (ml_run ml))"
  obtain pp r where s: "sf_dirsearch dirname (ml_db ml) = Inr pp" "sf_filesearch (ml_db ml) pp modname = Some (Inr r)"
    "case r of None \<Rightarrow> sf_lookup A dirname modname = None
      | Some i \<Rightarrow> sf_view (ml_db ml) i = sf_lookup A dirname modname \<and> sf_view (ml_db ml) i \<noteq> None"
    using sf_search_correct [OF assms(9), of dirname modname] by blast
  have "r = None" "pp = sflist" using s(1,3) assms(10,11) by (cases r; simp)+
  then have sp: "special_file ml sflist modname = Some (Inr (modname, []))" using s(2) by (simp add: special_file_def)
  have dn: "\<not> is_delim (modname ! 0)" if "(None :: byte option) = None" "modname \<noteq> []"
    using assms(15) that by (auto simp: list_ex_iff)
  have ne: "None \<noteq> Some (92 :: byte)" by simp
  have ln: "length ([] :: byte list) + length modname < SZ_FNAME + 1" using assms(14) by simp
  have pf: "parse_fname None modname = Inr ([], modname)"
    using fname_loop_plain [OF assms(12) ne dn ln, of 0 None] assms(15) by (auto simp: parse_fname_def)
  have room: "cp ?t0 + words_room ws \<le> SZ_SBUF" and sb: "length (sbuf ?t0) = SZ_SBUF" using assms(7,8) by (simp_all add: ml_strs_def)
  have ps: "PASS \<noteq> STOP" by simp
  obtain ds cx ss' t where g: "get_dependency_list E ?st = Some (Inr (Result ds (set_syms t (set_cx cx ?st))))" "strs_of (sbuf t) ds = Inr ws"
    "cx_strs cx ss'" "unread cx ss' = p" "cp t = cp ?t0" "length (sbuf t) = SZ_SBUF" "take (cp t) (sbuf t) = take (cp t) (sbuf ?t0)"
    using get_dependency_list_words [OF assms(1-4) ps assms(5,6) sb room] by blast
  let ?st1 = "set_syms t (set_cx cx ?st)"
  have fd: "tk_fd (run_tok ?st1) = tk_fd (run_tok ?st)" by (simp add: set_syms_def set_cx_def)
  obtain useobj c' where u: "up_to_date (te_fdate E) (ml_lib ml) modname modname ws (tk_fd (run_tok ?st)) = Inr (yes, useobj, c')"
    "fd_good (te_fdate E) c'" "useobj \<longleftrightarrow> \<not> yes \<and> (\<forall>d \<in> set (ar # dates). d \<le> te_fdate E obj)"
  proof -
    obtain y useobj c' where *: "up_to_date (te_fdate E) (ml_lib ml) modname modname ws (tk_fd (run_tok ?st)) = Inr (y, useobj, c')"
      "fd_good (te_fdate E) c'" "y \<longleftrightarrow> te_fdate E modname = 0 \<or> (\<forall>d \<in> set dates. d \<le> ar)"
      "useobj \<longleftrightarrow> \<not> y \<and> (\<forall>d \<in> set (ar # dates). d \<le> te_fdate E obj)"
      using up_to_date_correct [OF assms(16-19,18,23,24)] by blast
    have "y = yes" using *(3) assms(25) by blast
    with * show ?thesis by (intro that [of useobj c']) simp_all
  qed
  let ?st2 = "?st1\<lparr>run_tok := (run_tok ?st1)\<lparr>tk_fd := c'\<rparr>\<rparr>"
  let ?ml = "ml\<lparr>ml_run := ?st2\<rparr>"
  have keep: "sym_at (sbuf t) (cp t) q x" if "sym_at (sbuf ?t0) (cp ?t0) q x" for q x
    using sym_at_take [OF that] g(5-7) sb by simp
  have fl: "list_all2 (sym_at (sbuf t) (cp t)) (ml_flist ml) names"
    using assms(21) keep unfolding flist_names_def ml_strs_def by (rule list_all2_mono)
  have st2: "run_cx ?st2 = cx" "tk_syms (run_tok ?st2) = t" "requests ?st2 = requests ?st" "tk_fd (run_tok ?st2) = c'"
    by (simp_all add: run_cx_def set_syms_def set_cx_def)
  show ?thesis
  proof (cases yes)
    case True
    have "scan_module E sflist modname ml = Some (Inr (None, ?ml))"
      using True g(2) u(1) fd by (simp add: scan_module_def sp pf g(1) returno_def Let_def ml_strs_def)
    moreover have "flist_names ?ml names" using fl by (simp add: flist_names_def ml_strs_def set_syms_def)
    ultimately show ?thesis using True g(3,4) u(2) st2 by (intro exI [of _ ?ml] exI [of _ ss']) simp
  next
    case False
    let ?name = "if useobj then obj else modname"
    have len: "length obj \<le> SZ_FNAME" using assms(18) by (auto simp: makeobj_def Let_def split: if_splits)
    have z: "0 \<notin> set ?name" using assms(13,20) by simp
    have rm: "cp t + length ?name < SZ_SBUF" using len assms(8,14) g(5) by auto
    obtain q t2 where q: "putstr ?name t = Inr (q, t2)" using putstr_ok [OF z g(6) rm] by blast
    note ext = putstr_ext [OF q z g(6)]
    let ?ml2 = "?ml\<lparr>ml_run := set_syms t2 ?st2, ml_flist := ml_flist ml @ [q]\<rparr>"
    have nf: "length (ml_flist ml) < MAX_MODULES" using list_all2_lengthD [OF fl] assms(22) by simp
    have add: "add_file ?name ?ml = Inr ?ml2"
      using q nf st2(2) by (simp add: add_file_def ml_putstr_def) (simp add: set_syms_def)
    have name: "(if useobj then makeobj modname else Inr modname) = Inr ?name" using assms(18) by simp
    have "scan_module E sflist modname ml = Some (Inr (None, ?ml2))"
      using False g(2) u(1) fd add name by (simp add: scan_module_def sp pf g(1) returno_def Let_def ml_strs_def check_out_def)
    moreover have "flist_names ?ml2 (names @ [?name])"
      using list_all2_mono [OF fl sym_at_ext [OF _ ext(2)]] ext(3) by (simp add: flist_names_def ml_strs_def list_all2_appendI)
    moreover have "?name = (if \<forall>d \<in> set (ar # dates). d \<le> te_fdate E obj then obj else modname)" using u(3) False by simp
    ultimately show ?thesis using False g(3,4) u(2) st2
      by (intro exI [of _ ?ml2] exI [of _ ss']) (simp add: set_syms_def run_cx_def)
  qed
qed

subsection \<open>Examples\<close>

theorem parse_modname_correct_witness: "parse_modname [97, 64, 98, 47, 99] = Inr ([97], [98, 47], [99])"
proof -
  have "\<not> isspace (sint (([97] :: byte list) ! 0))" by code_simp
  then obtain d f where *: "parse_modname ([97] @ 64 # [98, 47, 99]) = Inr ([97], d, f)" "d @ f = [98, 47, 99]"
    "is_delim (last d) \<and> \<not> list_ex is_delim f"
    using parse_modname_correct [of "[97]" "[98, 47, 99]"] by auto
  then show ?thesis by (auto simp: append_eq_Cons_conv Cons_eq_append_conv split: if_splits)
qed

theorem dependency_list_diverges_witness: "get_dependency_list demo_tokenv (demo_run [] PASS) = None"
  by (rule dependency_list_diverges [of _ "[]"]) (simp_all add: demo_run demo_cx_file unread_demo demo_cx_ok(1))

lemma demo_fd: "\<exists>c. fd_good date c"
  using m_fdinit_good [of fd_static False date] by (auto simp: fd_static_def)

text \<open>The module \<open>a.x\<close>, which depends on \<open>b.h\<close>, and an empty library; every file has the date 5.\<close>

definition demo_modlist :: "fdcache \<Rightarrow> modlist" where
  "demo_modlist c = \<lparr>ml_run = (demo_run [32, 98, 46, 104, 10] PASS)\<lparr>run_tok := (run_tok (demo_run [32, 98, 46, 104, 10] PASS))\<lparr>tk_fd := c\<rparr>\<rparr>,
     ml_sf = demo_sfdb, ml_lib = demo_mlb\<lparr>mlb_modified := False, mlb_op := 1, mlb_index := replicate MAX_LIBFILES 0\<rparr>, ml_flist = [], ml_rflist = []\<rparr>"

theorem scan_module_correct_witness:
  "\<exists>c ml'. scan_module (demo_tokenv\<lparr>te_fdate := (\<lambda>_. 5)\<rparr>) None [97, 46, 120] (demo_modlist c) = Some (Inr (None, ml'))
    \<and> flist_names ml' [[97, 46, 111]]"
proof -
  obtain c where c: "fd_good (\<lambda>_. 5) c" using demo_fd by blast
  let ?E = "demo_tokenv\<lparr>te_fdate := (\<lambda>_. 5)\<rparr>" and ?ml = "demo_modlist c"
  have cx: "run_cx (ml_run ?ml) = demo_cx\<lparr>cx_file := [32, 98, 46, 104, 10]\<rparr>" by (simp add: demo_modlist_def demo_run_def run_cx_def)
  have db: "ml_db ?ml = demo_sfdb" by (simp add: ml_db_def demo_modlist_def demo_run_def demo_tok_def demo_sfdb_def)
  have lib: "mlb_rep (ml_lib ?ml) Map.empty"
    using mlb_rep_cleared [of demo_mlb] by (simp add: demo_modlist_def demo_mlb_def)
  have st: "cond_state (ml_run ?ml) = Inr PASS" by (simp add: demo_modlist_def demo_run_def cond_state_def if_get_def demo_tok_def)
  have sy: "tk_syms (run_tok (ml_run ?ml)) = demo_syms" "tk_fd (run_tok (ml_run ?ml)) = c"
    by (simp_all add: demo_modlist_def demo_run_def demo_tok_def)
  have fl: "flist_names ?ml []" by (simp add: flist_names_def demo_modlist_def)
  have ds: "sf_dirsearch [] demo_sfdb = Inr None" "sf_lookup [] [] [97, 46, 120] = None"
    by (simp_all add: sf_dirsearch_def demo_sfdb_def sf_lookup_def)
  have fw: "file_word [98, 46, 104]" by (simp add: file_word_def word_char_def plain_char_def)
  have k: "makeobj [97, 46, 120] = Inr [97, 46, 111]" "0 \<le> mlb_hash [97, 46, 111]" by code_simp+
  have u: "unread (run_cx (ml_run ?ml)) [] = replicate 1 32 @ dep_line [[98, 46, 104]] []" by (simp add: cx unread_demo)
  have "\<exists>ml' ss'. scan_module ?E None [97, 46, 120] ?ml = Some (Inr (None, ml'))
    \<and> flist_names ml' (if False then [] else [] @ [if \<forall>d \<in> set (0 # [5, 5]). d \<le> te_fdate ?E [97, 46, 111] then [97, 46, 111] else [97, 46, 120]])
    \<and> cx_strs (run_cx (ml_run ml')) ss' \<and> unread (run_cx (ml_run ml')) ss' = []
    \<and> fd_good (te_fdate ?E) (tk_fd (run_tok (ml_run ml'))) \<and> requests (ml_run ml') = requests (ml_run ?ml)"
    by (rule scan_module_correct [OF _ u, where A = "[]" and dirname = "[]" and m = Map.empty])
       (use c lib k ds fl fw st demo_cx_ok demo_sfdb_rep in \<open>simp_all add: cx demo_cx_file db sy demo_tokenv_def mod_key_def words_room_def dep_dates_def ml_strs_def demo_syms_def\<close>)
  then show ?thesis by auto
qed

end
