(* ===== verification/Spec2Isabelle.thy ===== *)
theory Spec2Isabelle
  imports Osb_Acht Osb_Swap Osb_Bits Spp_Strings Tar_Text Libc_Sorted Cl_Command Mk_Modlist
begin

text \<open>
  A verification development for parts of IRAF that are written in C.

  \<^bold>\<open>The program.\<close>  IRAF is a system for the reduction of astronomical data.  Most of it is written in SPP, a
  language of its own; what is written in C is the layer under it.  The development covers four parts of that
  layer, all of which are sequential programs over byte memory:

  \<^item> the library of the virtual machine, \<open>sys/osb\<close> (conversion and packing of arrays, called from SPP) and
    \<open>sys/libc\<close> (IRAF's own character, string and sorting routines);
  \<^item> the bootstrap utilities \<open>wtar\<close> and \<open>rtar\<close> (\<open>unix/boot\<close>), which write and read tape archives and which the
    system is distributed with, with the routines of \<open>bootlib\<close> that they call;
  \<^item> \<open>mkpkg\<close> (\<open>unix/boot/mkpkg\<close>), which builds packages: its input with pushback, macros and
    directives, its caches, its library index, and its module lists;
  \<^item> the command language \<open>cl\<close> (\<open>pkg/cl\<close>): its two stacks in one array, the operations on operands, the
    compiler's code buffer and the interpreter.

  They interact as follows.  \<open>wtar\<close> and \<open>rtar\<close> never call each other: what one writes is what the other must
  read, and that contract is stated in this theory.  \<open>cl\<close> works on C strings with the conventions of \<open>sys/libc\<close>;
  its operands point into the array that holds the control stack, or outside it, so all of its definitions run
  on one memory.  The caches of \<open>mkpkg\<close> stand between its module lists and the host, the macro processor between
  the file and every token, and its symbols, special files and file lists share one string buffer.

  \<^bold>\<open>How code is modelled.\<close>  \<open>Prelude\<close> has C's conversions between integer types and the lemmas on parts of
  lists (collections \<open>slice_simps\<close> and \<open>blit_simps\<close>), \<open>C_Memory\<close> the byte memory: a pointer is an index into one
  list of bytes, so two arguments that may overlap are two addresses of one memory.  The host is LP64 and little
  endian, \<open>char\<close> is signed, and an \<open>int\<close> that overflows wraps.  An access outside an array, a division trap and an
  undefined shift are faults: \<open>None\<close> in the parts that have no other error, a value \<open>Fault\<close> or \<open>Crash\<close> where errors
  of the program (\<open>cl_error\<close>, \<open>fatals\<close>) are values too.  A theorem that an operation has a result thus also says
  that it stayed inside its arrays.  Uninitialised memory is a parameter (\<open>junk\<close>), about which nothing is assumed but
  its size.  A loop that is not structural is a \<open>function\<close> with its termination proof; where a loop need not end
  it is a \<open>partial_function (option)\<close> (\<open>m_getc\<close>, \<open>scan_loop\<close>, \<open>mk_loop\<close>), and that it does end is part of the theorem; the
  interpreter \<open>run\<close> takes the number of its turns.

  \<^bold>\<open>Theories.\<close>

  \<^item> \<open>Osb_Convert\<close>, \<open>Osb_Acht\<close>: the conversions \<open>acht*\<close>, \<open>chrpak\<close>, \<open>chrupk\<close>.  Two loops are modelled and proved once; the
    locale \<open>array_conv\<close> is the contract of a conversion, with the overlaps for which it holds, and
    \<open>array_conv_pair\<close> gives the round trip in place; every routine interprets them.
  \<^item> \<open>Osb_Swap\<close>: \<open>bswap2\<close>, \<open>bswap4\<close>, \<open>bswap8\<close> (locale \<open>byte_swapper\<close>) and \<open>bytmov\<close>.  \<open>Osb_Bits\<close>: \<open>bitfields.c\<close>, bitwise
    operators, shifts, and \<open>ipak*\<close>, \<open>iupk*\<close>.
  \<^item> \<open>Spp_Strings\<close>: C and SPP strings in memory, \<open>strpak.c\<close>, \<open>strupk.c\<close>.  \<open>Libc_Ctype\<close>, \<open>Libc_Strings\<close>: the character
    table and the string routines of \<open>sys/libc\<close>.  \<open>Libc_Qsort\<close>, \<open>Libc_Sorted\<close>: \<open>qsort.c\<close>, and its proof in the locale
    \<open>comparator\<close>; the insertion sort relies on the sentinel that the partitioning leaves.
  \<^item> \<open>Boot_Files\<close>: \<open>oswrite.c\<close>, \<open>osclose.c\<close>, \<open>osfiletype.c\<close> (locale \<open>file_writer\<close>).  \<open>Tar_Format\<close>: the header and its
    checksum.  \<open>Tar_Read\<close>, \<open>Tar_Write\<close>: \<open>rtar.c\<close> and \<open>wtar.c\<close>, with their static variables as records \<open>rt\<close> and \<open>wt\<close>.
    \<open>Tar_Stream\<close>: both as operations on a stream of bytes.  \<open>Tar_Text\<close>: the padding of text files, and the matching
    of names.
  \<^item> \<open>Cl_Stack\<close>: \<open>stack.c\<close>, \<open>mem.h\<close>, \<open>operand.h\<close>; the array holds the control stack, a list of addresses, and the
    operand stack, a list of values (locale \<open>operand_stack\<close>).  \<open>Cl_Operand\<close>, \<open>Cl_Print\<close>: \<open>operand.c\<close>.  \<open>Cl_Binop\<close>,
    \<open>Cl_Unop\<close>: \<open>binop.c\<close>, \<open>unop.c\<close>, with their properties in \<open>Cl_Arith\<close>, \<open>Cl_Strings\<close>, \<open>Cl_Search\<close>, \<open>Cl_Unary\<close>.
    \<open>Cl_Intrinsic\<close>: the intrinsic functions of \<open>gram.c\<close>.
  \<^item> \<open>Cl_Code\<close>: the code buffer (\<open>compile.c\<close>), instructions (\<open>opcodes.c\<close>) and the loop of \<open>exec.c\<close>.  \<open>Cl_Compile\<close>,
    \<open>Cl_Emit\<close>: what the actions of \<open>grammar.y\<close> emit for expressions and for conditional statements, whose branches
    are filled in from the control stack.  \<open>Cl_Run\<close>: the turns of the interpreter as a relation.  \<open>Cl_Command\<close>: the
    meaning of statements (\<open>sem\<close>), their types, and the turn of \<open>main\<close> that compiles and runs one command.
  \<^item> \<open>Mk_Dlist\<close>: the doubly linked list over the slots of a cache.  \<open>Mk_Fdcache\<close>, \<open>Mk_Fncache\<close>: \<open>fdcache.c\<close> and
    \<open>fncache.c\<close>, two interpretations of the locale \<open>cached\<close>.  \<open>Mk_Char\<close>: the pushback stack of \<open>char.c\<close>.  \<open>Mk_Macro\<close>: the
    symbol table of \<open>tok.c\<close> and \<open>m_getc\<close>.  \<open>Mk_Getc\<close>: what \<open>m_getc\<close> reads.  \<open>Mk_Library\<close>: \<open>scanlib.c\<close>.
  \<^item> \<open>Mk_Token\<close>: the reading of strings, words and commands, and the conditional directives of \<open>tok.c\<close>, with their
    properties in \<open>Mk_Directive\<close>, \<open>Mk_Ends\<close> (the loops come to an end, some of them in a fault) and \<open>Mk_Set\<close>.  \<open>Mk_Gettok\<close>:
    tokens and the other directives; what is asked of the host is a list of requests, what they warn of a list of texts.
    \<open>Mk_Skip\<close>: text that is skipped, strings in quotes, and lines with \<open>$set\<close>.
  \<^item> \<open>Mk_Special\<close>: \<open>sflist.c\<close>, a data base of linked lists in static arrays, with its strings in the string buffer
    that the symbols use.  \<open>Mk_Sflist\<close>: its representation invariant and the effect of pruning.  \<open>Mk_Sfscan\<close>: the scan
    and the searches.
  \<^item> \<open>Mk_Module\<close>: what \<open>scan_modlist\<close> of \<open>pkg.c\<close> does with the name of a module, which brings the parts together: the
    special files, the tokens of the line, the index of the library, the dates and the string buffer.  \<open>Mk_Modlist\<close>:
    its properties.

  \<^bold>\<open>What is proved.\<close>  The theorems marked C1, C2, ... are the properties, in the order of their importance.

  \<^item> Archives: what \<open>wtar\<close> writes is the archive of the trees that its arguments lead to, however the reads are
    cut; \<open>getheader\<close> inverts \<open>putheader\<close>; a file comes back as it was, and then the archive ends.  Names whose bytes
    sum to a negative number are the exception, and that is a theorem too.
  \<^item> The command language, end to end: the code of a statement does what the statement means, or ends in the error
    that it means; a well typed command raises no other error than a division by zero, and ends within one turn
    more than it has instructions (a command has no backward branch, so \<open>length (scode st) + 1\<close> turns are enough).
    The command may be any one of a task: the operand stack may still be where the command before left it.
    Below that, each operation on the operand stack is described by the values on it, with the errors.
  \<^item> \<open>mkpkg\<close>: the caches are transparent (that of names as long as the buffers of its callers hold the names), and least
    recently used entries are replaced; the pushback stack and the
    macro expansion implement the rewriting of a flat text, and always end (by a measure that weighs a character
    by its depth on the stack); symbols are a map with scopes; the library index holds the dates of an archive.  Text is processed exactly where
    all open conditions hold; in text that is skipped no symbol is defined and the host is asked for nothing but check-ins
    and check-outs, which do not look at the condition (nor do \<open>$debug\<close>, \<open>$verbose\<close>, \<open>$exit\<close>, \<open>$special\<close> and the warnings).  The list of special files is a list of directories with their entries, and pruning it is the inverse of
    adding to it.  A module whose source exists is entered for compilation exactly if its entry in the library is older
    than the source or than a file that it depends on.
  \<^item> Arrays and strings: in-place conversions and their round trips with the exact overlaps; sorting; packing.

  Where the code fails, the failure is a theorem or a lemma, and the list of findings names it.

  \<^bold>\<open>Not modelled.\<close>  What the code calls and does not define is a parameter: system calls, tapes, files and the
  environment, floating-point arithmetic and formatting, \<open>sprintf\<close> of reals.  Output for the user (warnings,
  debugging) is left out except where a program's result is its output, and but for the warnings of the directives of
  \<open>mkpkg\<close> that \<open>Mk_Gettok\<close> models.  Of \<open>cl\<close>, tasks, parameters, pipes and the
  builtins are left out; the interpreter takes the instructions that work on them as a parameter, and only
  commands without them are in the compiler's theorems; so are loops (\<open>while\<close>, \<open>for\<close>, \<open>switch\<close>), whose actions keep
  their state in tables of the parser.  Of \<open>mkpkg\<close>, the contexts of subdirectories (\<open>pkg.c\<close>) and the compilation (\<open>host.c\<close>)
  are left out, and with them the directives that need them (\<open>$call\<close>, \<open>$update\<close>, \<open>$include\<close>, \<open>$goto\<close>, \<open>$omake\<close>, \<open>$link\<close>): \<open>gettok\<close>
  hands them to its caller, as it does \<open>$special\<close>; where text is skipped, the first five only read their arguments, and
  that is modelled.  \<open>ecl\<close>
  is a variant of \<open>cl\<close>; \<open>f2c\<close>, \<open>vendor\<close> and the generated parsers are third-party or generated; \<open>unix/os\<close> consists of
  system calls.
\<close>

section \<open>Archives written by \<open>wtar\<close> and read by \<open>rtar\<close>\<close>

text \<open>A small file, and its header.\<close>

abbreviation "small_info \<equiv> \<lparr>wi_ok = True, wi_size = 3, wi_perm = 0, wi_type = FI_REGULAR, wi_mtime = 0,
  wi_owner = None\<rparr>"
abbreviation "small_file \<equiv> WFile small_info W_BINARY (Some (file_reads [[65, 66], [67]]))"
abbreviation "small_header \<equiv> zero_header\<lparr>fh_name := [97], fh_size := 3\<rparr>"

lemma oct_digits_small: "n < 8 \<Longrightarrow> oct_digits n = [word_of_nat (48 + n)]"
  by (subst oct_digits.simps) simp

lemma small_sum: "0 \<le> cchksum (header_image small_header)"
  by (simp add: header_image_layout cchksum_sum length_header_layout)
     (simp add: header_layout_def zero_header_def strncpy_bytes_def snprintf_o_def arg_o_def arg_lo_def
        to_ulong_def oct_digits_small sum_list_replicate)

lemma small_fits: "fits_header small_header"
  by (simp add: fits_header_def zero_header_def)

lemma small_file_header: "file_header [97] W_BINARY [] small_info None = Some small_header"
  by (simp add: file_header_def u_fmode_def Let_def zero_header_def)

lemma small_entries:
  "entries_bytes (replicate 10 0) [] [([97], small_file)]
    = Some (entry_bytes (replicate 10 0) W_BINARY (Some (file_reads [[65, 66], [67]])) small_header)"
  by (simp add: small_file_header)


abbreviation "small_link \<equiv> WLink small_info
  \<lparr>wl_uid = 0, wl_gid = 0, wl_mode = 0, wl_mtime = 0, wl_target = [98]\<rparr> small_file"


text \<open>
  C3: \<open>getheader\<close> of \<open>rtar\<close> reads back the header that \<open>putheader\<close> of \<open>wtar\<close> wrote, field by field,
  whatever the uninitialised variables of the two hold, and leaves the reader at the next block.
\<close>

theorem header_round_trip:
  assumes "rt_ok st" "length junk = 10" "fits_header fh" "0 \<le> cchksum (header_image fh)"
    "take TBLOCK (pending st) = header_block junk fh"
  shows "\<exists>st'. getheader tck fh0 st = Some (Header (decoded fh0 fh), st') \<and> rt_ok st'
    \<and> pending st' = drop TBLOCK (pending st)"
  using getheader_stream [OF assms] by blast

lemma small_start: "rt_ok (rt_start [header_block (replicate 10 7) small_header] h)"
  "take TBLOCK (pending (rt_start [header_block (replicate 10 7) small_header] h))
    = header_block (replicate 10 7) small_header"
  by (simp_all add: rt_start_ok rt_start_pending length_header_block)

theorem header_round_trip_witness:
  "\<exists>st'. getheader 9 zero_header (rt_start [header_block (replicate 10 7) small_header] empty_sink)
      = Some (Header (decoded zero_header small_header), st') \<and> rt_ok st'
    \<and> pending st' = drop TBLOCK (pending (rt_start [header_block (replicate 10 7) small_header] empty_sink))"
  by (rule header_round_trip [OF small_start(1) _ small_fits small_sum small_start(2)]) simp

text \<open>
  C1: End to end, for a binary file: what \<open>wtar\<close> writes for it, \<open>rtar\<close> reads as one header with the
  same fields, then as the same bytes, which \<open>os_write\<close> puts into the new file, and then as the end of
  the archive.
\<close>

theorem archive_round_trip:
  assumes "length jc = 10" "length jb = 2 * TBLOCK" "good_info fi"
    "\<forall>r \<in> set rs. r \<noteq> [] \<and> length r \<le> TBLOCK" "int (length (concat rs)) = wi_size fi" "0 < wi_size fi"
    "file_header fname W_BINARY [] fi None = Some fh" "fits_header fh" "0 \<le> cchksum (header_image fh)"
    "of_works True h" "h_write ops = os_write"
  shows "\<exists>wst. wtar jc jb False [(fname, WFile fi W_BINARY (Some (file_reads rs)))] [] = Some (True, wst)
    \<and> (\<exists>st1 st2 st3.
         getheader tck fh0 (rt_start (wt_tape wst) h) = Some (Header (decoded fh0 fh), st1)
       \<and> copyfile_in ops strip padbuf (decoded fh0 fh) BINARY_FILE st1 = Some (Copied, st2)
       \<and> of_contents (rt_host st2) = of_contents h @ concat rs
       \<and> getheader tck (decoded fh0 fh) st2 = Some (Hdr_EOF, st3))"
proof -
  let ?flist = "[(fname, WFile fi W_BINARY (Some (file_reads rs)))]"
  have hdr: "fh_size fh = wi_size fi" "fh_linkflag fh = 0" "\<not> fh_isdir fh"
    using assms(7) by (auto simp: file_header_def zero_header_def Let_def Option.bind_eq_Some_conv
        split: if_splits option.splits)
  have good: "good_entries ?flist"
    using assms(3,4) by (simp add: good_file_def file_reads_def list_all_iff)
  have data: "data_of (Some (file_reads rs)) = concat rs"
    by (simp add: data_of_def file_reads_def comp_def)
  let ?bs = "header_block jc fh @ padded_data W_BINARY (concat rs) (padded (fh_size fh))"
  have "entries_bytes jc [] ?flist = Some ?bs"
    using assms(6,7) hdr data by (simp add: entry_bytes_def)
  with wtar_stream [OF assms(1,2), of ?flist ?bs] good obtain wst where
    w: "wtar jc jb False ?flist [] = Some (True, wst)"
    and tp: "tape_of (?bs @ replicate (2 * TBLOCK) 0) (wt_tape wst)" by auto
  from tape_of_start [OF tp, of h] obtain rest where st: "rt_ok (rt_start (wt_tape wst) h)"
    and p: "pending (rt_start (wt_tape wst) h) = header_block jc fh
      @ padded_data W_BINARY (concat rs) (padded (fh_size fh)) @ replicate (2 * TBLOCK) 0 @ rest"
    by auto
  from binary_file.extract_entry [OF assms(11) st _ assms(1,8,9) hdr(2,3) p, of tck fh0 strip padbuf] assms(10)
  obtain st1 st2 where e: "getheader tck fh0 (rt_start (wt_tape wst) h) = Some (Header (decoded fh0 fh), st1)"
    "copyfile_in ops strip padbuf (decoded fh0 fh) BINARY_FILE st1 = Some (Copied, st2)"
    "rt_ok st2" "pending st2 = replicate (2 * TBLOCK) 0 @ rest"
    "of_contents (rt_host st2) = of_contents h @ padded_data W_BINARY (concat rs) (nat (fh_size fh))"
    by auto
  have all: "padded_data W_BINARY (concat rs) (nat (fh_size fh)) = concat rs"
    using assms(5) hdr(1) by (intro nth_equalityI) (auto simp: padded_data_def)
  have "take TBLOCK (pending st2) = replicate TBLOCK 0" using e(4) by simp
  from getheader_end [OF e(3) this, of tck "decoded fh0 fh"] e all w show ?thesis by auto
qed

theorem archive_round_trip_witness:
  "\<exists>wst. wtar (replicate 10 7) (replicate 1024 9) False [([97], small_file)] [] = Some (True, wst)
    \<and> (\<exists>st1 st2 st3.
         getheader 5 zero_header (rt_start (wt_tape wst) empty_sink) = Some (Header (decoded zero_header small_header), st1)
       \<and> copyfile_in sink_ops True [] (decoded zero_header small_header) BINARY_FILE st1 = Some (Copied, st2)
       \<and> of_contents (rt_host st2) = of_contents empty_sink @ concat [[65, 66], [67]]
       \<and> getheader 5 (decoded zero_header small_header) st2 = Some (Hdr_EOF, st3))"
  by (rule archive_round_trip [OF _ _ _ _ _ _ small_file_header small_fits small_sum])
     (simp_all add: good_info_def of_works_def sink_ops_def)

text \<open>
  C26: A header whose bytes have a negative sum as signed characters, which a long name outside
  ASCII gives it, is never accepted by \<open>rtar\<close>, although \<open>wtar\<close> wrote it: the checksum does not fit into
  its field.
\<close>

theorem negative_checksum_refused:
  assumes "length junk = 10" "cchksum (header_image fh) < 0"
    "length (rt_tapeblock st) = SZ_TAPEBUFFER" "hb + TBLOCK \<le> SZ_TAPEBUFFER"
    "slice (rt_tapeblock st) hb TBLOCK = header_block junk fh"
  shows "\<exists>tck' st'. check_header hb tck st = Some (Bad_sum, tck', st')"
  using check_header_negative [OF assms] .

abbreviation "long_header \<equiv> zero_header\<lparr>fh_name := replicate 99 0x90\<rparr>"

lemma long_sum: "cchksum (header_image long_header) < 0"
  by (simp add: header_image_layout cchksum_sum length_header_layout)
     (simp add: header_layout_def zero_header_def strncpy_bytes_def snprintf_o_def arg_o_def arg_lo_def
        to_ulong_def oct_digits_small sum_list_replicate)

theorem negative_checksum_refused_witness:
  "\<exists>tck' st'. check_header 0 5 ((rt_start [] ())\<lparr>rt_tapeblock := header_block (replicate 10 7) long_header
      @ replicate 9728 0\<rparr>) = Some (Bad_sum, tck', st')"
  by (rule negative_checksum_refused [OF _ long_sum, of "replicate 10 7"])
     (simp_all add: length_header_block slice_def)

end
